(* ===== verification/Prelude.thy ===== *)
theory Prelude
  imports Main "HOL-Library.Word" "HOL-Library.Char_ord" "HOL-Library.List_Lexorder"
    "HOL-Library.Product_Lexorder"
begin

unbundle bit_operations_syntax

text \<open>
  What every component of the development shares: the machine integers of the Rust sources
  (\<open>u8\<close> to \<open>u128\<close> as words of that width), Rust's \<open>Result\<close>, the little-endian byte
  layout of integers (\<open>to_le_bytes\<close>/\<open>from_le_bytes\<close> of the standard library), slices, and
  the generic lemmas on lists and words that the component proofs are built from.
  The collection \<open>le_simps\<close> holds the facts on byte layouts and \<open>seq_arith\<close> those on the
  successor of a sequence number.
\<close>

named_theorems le_simps
named_theorems seq_arith

section \<open>Machine integers and results\<close>

type_synonym u8 = "8 word"
type_synonym u16 = "16 word"
type_synonym u32 = "32 word"
type_synonym u64 = "64 word"
type_synonym u128 = "128 word"
type_synonym i64 = "64 word"
type_synonym bytes = "u8 list"

text \<open>Rust's \<open>Result<T, E>\<close>; \<open>rbind\<close> is the operator \<open>?\<close> of the sources.\<close>

datatype ('a, 'e) result = Ok 'a | Err 'e

fun rbind :: "('a, 'e) result \<Rightarrow> ('a \<Rightarrow> ('b, 'e) result) \<Rightarrow> ('b, 'e) result" where
  "rbind (Ok x) f = f x"
| "rbind (Err e) f = Err e"

fun map_err :: "('e \<Rightarrow> 'f) \<Rightarrow> ('a, 'e) result \<Rightarrow> ('a, 'f) result" where
  "map_err f (Ok x) = Ok x"
| "map_err f (Err e) = Err (f e)"

definition is_ok :: "('a, 'e) result \<Rightarrow> bool" where
  "is_ok r = (case r of Ok _ \<Rightarrow> True | Err _ \<Rightarrow> False)"

lemma is_ok_simps [simp]: "is_ok (Ok x)" "\<not> is_ok (Err e)"
  by (simp_all add: is_ok_def)

lemma rbind_Ok_iff: "rbind r f = Ok y \<longleftrightarrow> (\<exists>x. r = Ok x \<and> f x = Ok y)"
  by (cases r) auto

lemma rbind_assoc [simp]: "rbind (rbind r f) g = rbind r (\<lambda>x. rbind (f x) g)"
  by (cases r) auto

lemma rbind_Err_iff: "rbind r f = Err e \<longleftrightarrow> r = Err e \<or> (\<exists>x. r = Ok x \<and> f x = Err e)"
  by (cases r) auto

lemma rbind_cong [fundef_cong]:
  "r = r' \<Longrightarrow> (\<And>x. r' = Ok x \<Longrightarrow> f x = g x) \<Longrightarrow> rbind r f = rbind r' g"
  by (cases r') auto

lemma map_err_Ok_iff [simp]: "map_err f r = Ok y \<longleftrightarrow> r = Ok y"
  by (cases r) auto

section \<open>Slices\<close>

text \<open>\<open>slice i j xs\<close> is the Rust slice \<open>&xs[i..j]\<close>; the uses below are all in range.\<close>

definition slice :: "nat \<Rightarrow> nat \<Rightarrow> 'a list \<Rightarrow> 'a list" where
  "slice i j xs = take (j - i) (drop i xs)"

lemma length_slice [simp]: "length (slice i j xs) = min (j - i) (length xs - i)"
  by (simp add: slice_def min.commute)

lemma slice_append_left:
  "j \<le> length xs \<Longrightarrow> slice i j (xs @ ys) = slice i j xs"
  by (simp add: slice_def)

lemma slice_append_right:
  "length xs \<le> i \<Longrightarrow> slice i j (xs @ ys) = slice (i - length xs) (j - length xs) ys"
  by (cases "length xs \<le> j") (simp_all add: slice_def)

lemma slice_all: "length xs \<le> j \<Longrightarrow> slice 0 j xs = xs"
  by (simp add: slice_def)

lemma slice_split:
  "i \<le> j \<Longrightarrow> j \<le> k \<Longrightarrow> slice i j xs @ slice j k xs = slice i k xs"
proof -
  assume ij: "i \<le> j" and jk: "j \<le> k"
  have "take (j - i) (drop i xs) @ take (k - j) (drop (j - i) (drop i xs))
          = take ((j - i) + (k - j)) (drop i xs)"
    by (simp only: take_add)
  with ij jk show ?thesis by (simp add: slice_def)
qed

section \<open>Little-endian integers\<close>

text \<open>
  \<open>le_bytes n w\<close> lists the \<open>n\<close> low bytes of \<open>w\<close>, least significant first;
  \<open>to_le_bytes\<close> takes all of them. \<open>from_le_bytes\<close> is total here: it reads a list of
  any length, the sources only call it with the exact length of the integer.
\<close>

fun le_bytes :: "nat \<Rightarrow> 'a::len word \<Rightarrow> bytes" where
  "le_bytes 0 w = []"
| "le_bytes (Suc n) w = ucast w # le_bytes n (drop_bit 8 w)"

fun from_le_bytes :: "bytes \<Rightarrow> 'a::len word" where
  "from_le_bytes [] = 0"
| "from_le_bytes (b # bs) = ucast b OR push_bit 8 (from_le_bytes bs)"

definition to_le_bytes :: "'a::len word \<Rightarrow> bytes" where
  "to_le_bytes w = le_bytes (LENGTH('a) div 8) w"

lemma length_le_bytes [simp]: "length (le_bytes n w) = n"
  by (induction n arbitrary: w) auto

lemma length_to_le_bytes [simp]: "length (to_le_bytes (w :: 'a::len word)) = LENGTH('a) div 8"
  by (simp add: to_le_bytes_def)

lemma from_le_bytes_le_bytes:
  "from_le_bytes (le_bytes n w) = take_bit (8 * n) (w :: 'a::len word)"
proof (induction n arbitrary: w)
  case 0
  then show ?case by simp
next
  case (Suc n)
  show ?case
    unfolding le_bytes.simps from_le_bytes.simps Suc.IH
    by (rule bit_word_eqI) (auto simp: bit_simps)
qed

lemma from_le_bytes_to_le_bytes:
  "8 dvd LENGTH('a) \<Longrightarrow> from_le_bytes (to_le_bytes (w :: 'a::len word)) = w"
  by (simp add: to_le_bytes_def from_le_bytes_le_bytes take_bit_length_eq)

lemma le_bytes_take_bit:
  "8 * n \<le> m \<Longrightarrow> le_bytes n (take_bit m w) = le_bytes n (w :: 'a::len word)"
proof (induction n arbitrary: m w)
  case 0
  then show ?case by simp
next
  case (Suc n)
  have lo: "ucast (take_bit m w) = (ucast w :: u8)"
    using Suc.prems by (intro bit_word_eqI) (auto simp: bit_simps)
  have "drop_bit 8 (take_bit m w) = take_bit (m - 8) (drop_bit 8 w)"
    by (rule bit_word_eqI) (auto simp: bit_simps)
  moreover have "8 * n \<le> m - 8" using Suc.prems by simp
  ultimately show ?case using lo by (simp add: Suc.IH)
qed

lemma le_bytes_from_le_bytes:
  "8 * length bs \<le> LENGTH('a) \<Longrightarrow> le_bytes (length bs) (from_le_bytes bs :: 'a::len word) = bs"
proof (induction bs)
  case Nil
  then show ?case by simp
next
  case (Cons b bs)
  let ?v = "from_le_bytes bs :: 'a word"
  have len: "8 * length bs + 8 \<le> LENGTH('a)" using Cons.prems by simp
  have lo: "ucast (ucast b OR push_bit 8 ?v) = b"
    using len by (intro bit_word_eqI) (auto simp: bit_simps)
  have "drop_bit 8 (ucast b OR push_bit 8 ?v) = take_bit (LENGTH('a) - 8) ?v"
    by (rule bit_word_eqI) (auto simp: bit_simps dest: bit_imp_le_length)
  then show ?case using Cons.IH len by (simp add: lo le_bytes_take_bit)
qed

lemma to_le_bytes_from_le_bytes:
  "8 * length bs = LENGTH('a) \<Longrightarrow> to_le_bytes (from_le_bytes bs :: 'a::len word) = bs"
  using le_bytes_from_le_bytes [of bs, where ?'a = 'a]
  by (simp add: to_le_bytes_def) (metis nonzero_mult_div_cancel_left zero_neq_numeral)

lemma to_le_bytes_inj:
  "8 dvd LENGTH('a) \<Longrightarrow> to_le_bytes (v :: 'a::len word) = to_le_bytes w \<longleftrightarrow> v = w"
  by (metis from_le_bytes_to_le_bytes)

text \<open>The instances the wire formats use.\<close>

lemma to_le_bytes_lengths [le_simps, simp]:
  "length (to_le_bytes (a :: u8)) = 1"
  "length (to_le_bytes (b :: u16)) = 2"
  "length (to_le_bytes (c :: u32)) = 4"
  "length (to_le_bytes (d :: u64)) = 8"
  by simp_all

lemma from_to_le_bytes [le_simps, simp]:
  "from_le_bytes (to_le_bytes (a :: u8)) = a"
  "from_le_bytes (to_le_bytes (b :: u16)) = b"
  "from_le_bytes (to_le_bytes (c :: u32)) = c"
  "from_le_bytes (to_le_bytes (d :: u64)) = d"
  "from_le_bytes (to_le_bytes (e :: u128)) = e"
  by (simp_all add: from_le_bytes_to_le_bytes)

lemma to_from_le_bytes [le_simps]:
  "length bs = 1 \<Longrightarrow> to_le_bytes (from_le_bytes bs :: u8) = bs"
  "length bs = 2 \<Longrightarrow> to_le_bytes (from_le_bytes bs :: u16) = bs"
  "length bs = 4 \<Longrightarrow> to_le_bytes (from_le_bytes bs :: u32) = bs"
  "length bs = 8 \<Longrightarrow> to_le_bytes (from_le_bytes bs :: u64) = bs"
  "length bs = 16 \<Longrightarrow> to_le_bytes (from_le_bytes bs :: u128) = bs"
  by (simp_all add: to_le_bytes_from_le_bytes)

section \<open>Lists\<close>

lemma filter_eq_drop: "(\<And>i. i < length xs \<Longrightarrow> P (xs ! i) \<longleftrightarrow> n \<le> i) \<Longrightarrow> filter P xs = drop n xs"
proof (induction xs arbitrary: n)
  case (Cons x xs)
  show ?case
  proof (cases n)
    case 0
    with Cons.prems have "\<forall>y \<in> set (x # xs). P y" by (metis in_set_conv_nth le0)
    with 0 show ?thesis by simp
  next
    case (Suc k)
    then have "filter P xs = drop k xs" by (intro Cons.IH) (use Cons.prems [of "Suc _"] in auto)
    moreover have "\<not> P x" using Cons.prems [of 0] Suc by simp
    ultimately show ?thesis by (simp add: Suc)
  qed
qed simp

section \<open>Successors of sequence numbers\<close>

text \<open>Rust's \<open>x + 1\<close> on \<open>u64\<close> is a successor exactly while it does not overflow.\<close>

lemma unat_of_nat_small: "n < 2 ^ LENGTH('a) \<Longrightarrow> unat (of_nat n :: 'a::len word) = n"
  by (simp add: unat_of_nat)

lemma unat_bound: "unat (w :: 'a::len word) < 2 ^ LENGTH('a)"
  by (rule unsigned_less)

lemma unat_plus_one [seq_arith]:
  "x \<noteq> (-1 :: 'a::len word) \<Longrightarrow> unat (x + 1) = Suc (unat x)"
  by (metis add.commute add_eq_0_iff2 unatSuc)

lemma less_plus_one [seq_arith]:
  "x \<noteq> (-1 :: 'a::len word) \<Longrightarrow> x < x + 1"
  by (simp add: word_less_nat_alt unat_plus_one)

lemma less_plus_one_iff [seq_arith]:
  "x \<noteq> (-1 :: 'a::len word) \<Longrightarrow> y < x + 1 \<longleftrightarrow> y \<le> x"
  by (auto simp: word_less_nat_alt word_le_nat_alt unat_plus_one)

lemma plus_one_le_iff [seq_arith]:
  "x \<noteq> (-1 :: 'a::len word) \<Longrightarrow> x + 1 \<le> y \<longleftrightarrow> x < y"
  by (auto simp: word_less_nat_alt word_le_nat_alt unat_plus_one)

lemma less_imp_not_max: "x < (y :: 'a::len word) \<Longrightarrow> x \<noteq> -1"
  by (metis linorder_not_less word_order.extremum_strict word_order.extremum)

end
