(* ===== verification/Btree_Map.thy ===== *)
theory Btree_Map
  imports Prelude
begin

text \<open>
  Rust's \<open>BTreeMap\<close> and \<open>BTreeSet\<close>, as the sources use them: ordered maps whose iteration
  order is the key order. A map is its list of entries in strictly ascending key order, so
  equal contents are equal lists, which is what makes the sources' snapshots canonical.
  The locale \<open>ordered_map\<close> is the contract the components rely on.
\<close>

section \<open>Operations\<close>

type_synonym ('k, 'v) btmap = "('k \<times> 'v) list"

definition bt_ok :: "('k::linorder, 'v) btmap \<Rightarrow> bool" where
  "bt_ok m \<longleftrightarrow> sorted_wrt (<) (map fst m)"

definition bt_get :: "('k, 'v) btmap \<Rightarrow> 'k \<Rightarrow> 'v option" where
  "bt_get m k = map_of m k"

definition bt_contains :: "('k, 'v) btmap \<Rightarrow> 'k \<Rightarrow> bool" where
  "bt_contains m k \<longleftrightarrow> bt_get m k \<noteq> None"

fun bt_insert :: "'k::linorder \<Rightarrow> 'v \<Rightarrow> ('k, 'v) btmap \<Rightarrow> ('k, 'v) btmap" where
  "bt_insert k v [] = [(k, v)]"
| "bt_insert k v ((k', v') # m) =
     (if k < k' then (k, v) # (k', v') # m
      else if k = k' then (k, v) # m
      else (k', v') # bt_insert k v m)"

definition bt_remove :: "'k \<Rightarrow> ('k, 'v) btmap \<Rightarrow> ('k, 'v) btmap" where
  "bt_remove k m = filter (\<lambda>e. fst e \<noteq> k) m"

definition bt_first :: "('k, 'v) btmap \<Rightarrow> ('k \<times> 'v) option" where
  "bt_first m = (case m of [] \<Rightarrow> None | e # _ \<Rightarrow> Some e)"

definition bt_last :: "('k, 'v) btmap \<Rightarrow> ('k \<times> 'v) option" where
  "bt_last m = (case m of [] \<Rightarrow> None | _ \<Rightarrow> Some (last m))"

text \<open>\<open>split_off k\<close>: what stays (keys below \<open>k\<close>) and what is returned (the rest).\<close>

definition bt_split_off :: "'k::linorder \<Rightarrow> ('k, 'v) btmap \<Rightarrow> ('k, 'v) btmap \<times> ('k, 'v) btmap" where
  "bt_split_off k m = (filter (\<lambda>e. fst e < k) m, filter (\<lambda>e. k \<le> fst e) m)"

text \<open>Collecting an iterator of pairs: a later pair overwrites an earlier one.\<close>

definition bt_collect :: "('k::linorder \<times> 'v) list \<Rightarrow> ('k, 'v) btmap" where
  "bt_collect es = fold (\<lambda>(k, v). bt_insert k v) es []"

section \<open>Lemmas\<close>

lemma bt_ok_Nil [simp]: "bt_ok []"
  by (simp add: bt_ok_def)

lemma bt_ok_Cons: "bt_ok ((k, v) # m) \<longleftrightarrow> (\<forall>k' \<in> fst ` set m. k < k') \<and> bt_ok m"
  by (simp add: bt_ok_def)

lemma bt_get_Nil [simp]: "bt_get [] k = None"
  by (simp add: bt_get_def)

lemma bt_get_insert [simp]: "bt_get (bt_insert k v m) k' = (if k' = k then Some v else bt_get m k')"
  by (induction k v m rule: bt_insert.induct) (auto simp: bt_get_def)

lemma set_bt_insert:
  "bt_ok m \<Longrightarrow> set (bt_insert k v m) = insert (k, v) {e \<in> set m. fst e \<noteq> k}"
  by (induction k v m rule: bt_insert.induct) (auto simp: bt_ok_Cons)

lemma fst_set_bt_insert [simp]: "fst ` set (bt_insert k v m) = insert k (fst ` set m)"
  by (induction k v m rule: bt_insert.induct) auto

lemma bt_ok_insert [simp]: "bt_ok m \<Longrightarrow> bt_ok (bt_insert k v m)"
  by (induction k v m rule: bt_insert.induct) (auto simp: bt_ok_Cons)

lemma bt_ok_filter [simp]: "bt_ok m \<Longrightarrow> bt_ok (filter P m)"
  unfolding bt_ok_def by (induction m) auto

lemma bt_ok_remove [simp]: "bt_ok m \<Longrightarrow> bt_ok (bt_remove k m)"
  by (simp add: bt_remove_def)

lemma bt_get_remove [simp]: "bt_get (bt_remove k m) k' = (if k' = k then None else bt_get m k')"
  by (induction m) (auto simp: bt_get_def bt_remove_def)

lemma bt_ok_distinct: "bt_ok m \<Longrightarrow> distinct (map fst m)"
  by (simp add: bt_ok_def strict_sorted_iff)

lemma bt_ok_sorted: "bt_ok m \<Longrightarrow> sorted (map fst m)"
  by (simp add: bt_ok_def strict_sorted_iff)

lemma bt_get_Some_iff: "bt_ok m \<Longrightarrow> bt_get m k = Some v \<longleftrightarrow> (k, v) \<in> set m"
  by (simp add: bt_get_def bt_ok_distinct)

lemma bt_get_None_iff: "bt_get m k = None \<longleftrightarrow> k \<notin> fst ` set m"
  by (simp add: bt_get_def map_of_eq_None_iff)

lemma bt_contains_iff: "bt_contains m k \<longleftrightarrow> k \<in> fst ` set m"
  by (simp add: bt_contains_def bt_get_None_iff)

lemma bt_remove_absent: "bt_get m k = None \<Longrightarrow> bt_remove k m = m"
  by (auto simp: bt_remove_def bt_get_None_iff intro!: filter_True)

lemma set_bt_remove: "set (bt_remove k m) = {e \<in> set m. fst e \<noteq> k}"
  by (simp add: bt_remove_def)

lemma bt_first_min:
  "bt_ok m \<Longrightarrow> bt_first m = Some (k, v) \<Longrightarrow> bt_get m k = Some v \<and> (\<forall>k' \<in> fst ` set m. k \<le> k')"
  by (cases m) (auto simp: bt_first_def bt_ok_Cons bt_get_def)

lemma bt_first_None [simp]: "bt_first m = None \<longleftrightarrow> m = []"
  by (cases m) (auto simp: bt_first_def)

lemma bt_last_None [simp]: "bt_last m = None \<longleftrightarrow> m = []"
  by (cases m) (auto simp: bt_last_def)

lemma bt_last_max:
  assumes "bt_ok m" and "bt_last m = Some (k, v)"
  shows "bt_get m k = Some v \<and> (\<forall>k' \<in> fst ` set m. k' \<le> k)"
proof -
  from assms(2) have ne: "m \<noteq> []" and l: "last m = (k, v)"
    by (auto simp: bt_last_def split: list.splits)
  have m: "m = butlast m @ [(k, v)]" using append_butlast_last_id [OF ne] l by simp
  have "bt_ok (butlast m @ [(k, v)])" using assms(1) m by simp
  then have "\<forall>k' \<in> fst ` set (butlast m). k' \<le> k"
    by (auto simp: bt_ok_def sorted_wrt_append)
  then have "\<forall>k' \<in> fst ` set (butlast m @ [(k, v)]). k' \<le> k" by auto
  moreover have "(k, v) \<in> set m" using last_in_set [OF ne] l by simp
  ultimately show ?thesis
    using bt_get_Some_iff [OF assms(1)] m by simp
qed

lemma entries_by_keys:
  "distinct (map fst m) \<Longrightarrow> map (\<lambda>k. (k, the (map_of m k))) (map fst m) = m"
  by (simp only: map_map) (rule map_idI, auto)

lemma bt_ext:
  "bt_ok m \<Longrightarrow> bt_ok m' \<Longrightarrow> (\<And>k. bt_get m k = bt_get m' k) \<Longrightarrow> m = m'"
proof -
  assume ok: "bt_ok m" "bt_ok m'" and eq: "\<And>k. bt_get m k = bt_get m' k"
  then have get: "map_of m = map_of m'" by (auto simp: bt_get_def)
  then have "set (map fst m) = set (map fst m')" by (metis dom_map_of_conv_image_fst set_map)
  then have keys: "map fst m = map fst m'"
    using ok by (intro sorted_distinct_set_unique) (simp_all add: bt_ok_sorted bt_ok_distinct)
  have "m = map (\<lambda>k. (k, the (map_of m k))) (map fst m)"
    using ok(1) by (intro entries_by_keys [symmetric] bt_ok_distinct)
  also have "\<dots> = map (\<lambda>k. (k, the (map_of m' k))) (map fst m')"
    by (simp only: get keys)
  also have "\<dots> = m'"
    using ok(2) by (intro entries_by_keys bt_ok_distinct)
  finally show ?thesis .
qed

lemma bt_split_off_append: "bt_ok m \<Longrightarrow> fst (bt_split_off k m) @ snd (bt_split_off k m) = m"
proof (induction m)
  case Nil
  then show ?case by (simp add: bt_split_off_def)
next
  case (Cons e m)
  obtain k' v where e: "e = (k', v)" by force
  show ?case
  proof (cases "k' < k")
    case True
    with Cons e show ?thesis by (auto simp: bt_split_off_def bt_ok_Cons)
  next
    case False
    then have "\<forall>x \<in> set m. k \<le> fst x \<and> \<not> fst x < k"
      using Cons.prems e by (fastforce simp: bt_ok_Cons)
    with False e show ?thesis by (auto simp: bt_split_off_def filter_empty_conv)
  qed
qed

lemma bt_ok_collect_aux: "bt_ok m \<Longrightarrow> bt_ok (fold (\<lambda>(k, v). bt_insert k v) es m)"
  by (induction es arbitrary: m) (auto simp: split_beta)

lemma bt_ok_collect [simp]: "bt_ok (bt_collect es)"
  by (simp add: bt_collect_def bt_ok_collect_aux)

lemma bt_get_collect_aux:
  "bt_get (fold (\<lambda>(k, v). bt_insert k v) es m) k =
     (case map_of (rev es) k of Some v \<Rightarrow> Some v | None \<Rightarrow> bt_get m k)"
  by (induction es arbitrary: m) (auto simp: split_beta map_add_def split: option.splits)

lemma bt_get_collect: "bt_get (bt_collect es) k = map_of (rev es) k"
  by (simp add: bt_collect_def bt_get_collect_aux split: option.split)

text \<open>Collecting the entries of a map gives the map back: a snapshot restores exactly.\<close>

lemma bt_collect_id: "bt_ok m \<Longrightarrow> bt_collect m = m"
proof (rule bt_ext)
  assume ok: "bt_ok m"
  show "bt_get (bt_collect m) k = bt_get m k" for k
    using bt_ok_distinct [OF ok] map_of_inject_set [of m "rev m"]
    by (simp only: bt_get_collect) (simp add: bt_get_def rev_map [symmetric])
qed simp_all

section \<open>The contract of an ordered map\<close>

locale ordered_map =
  fixes empty :: "'m" and get :: "'m \<Rightarrow> 'k::linorder \<Rightarrow> 'v option"
    and ins :: "'k \<Rightarrow> 'v \<Rightarrow> 'm \<Rightarrow> 'm" and del :: "'k \<Rightarrow> 'm \<Rightarrow> 'm"
    and entries :: "'m \<Rightarrow> ('k \<times> 'v) list" and ok :: "'m \<Rightarrow> bool"
  assumes get_empty: "get empty k = None"
    and get_ins: "ok m \<Longrightarrow> get (ins k v m) k' = (if k' = k then Some v else get m k')"
    and get_del: "ok m \<Longrightarrow> get (del k m) k' = (if k' = k then None else get m k')"
    and ok_empty: "ok empty"
    and ok_ins: "ok m \<Longrightarrow> ok (ins k v m)"
    and ok_del: "ok m \<Longrightarrow> ok (del k m)"
    and entries_ascending: "ok m \<Longrightarrow> sorted_wrt (<) (map fst (entries m))"
    and entries_get: "ok m \<Longrightarrow> get m k = map_of (entries m) k"
    and canonical: "ok m \<Longrightarrow> ok m' \<Longrightarrow> entries m = entries m' \<Longrightarrow> m = m'"
begin

lemma extensional: "ok m \<Longrightarrow> ok m' \<Longrightarrow> (\<And>k. get m k = get m' k) \<Longrightarrow> m = m'"
  by (rule canonical) (auto simp: entries_get bt_get_def bt_ok_def entries_ascending intro: bt_ext)

lemma ins_commute: "ok m \<Longrightarrow> k \<noteq> k' \<Longrightarrow> ins k v (ins k' v' m) = ins k' v' (ins k v m)"
  by (rule extensional) (auto simp: get_ins ok_ins)

lemma ins_overwrite: "ok m \<Longrightarrow> ins k v (ins k v' m) = ins k v m"
  by (rule extensional) (auto simp: get_ins ok_ins)

lemma ins_del: "ok m \<Longrightarrow> ins k v (del k m) = ins k v m"
  by (rule extensional) (auto simp: get_ins get_del ok_ins ok_del)

lemma del_ins: "ok m \<Longrightarrow> del k (ins k v m) = del k m"
  by (rule extensional) (auto simp: get_ins get_del ok_ins ok_del)

end

interpretation bt: ordered_map "[]" bt_get bt_insert bt_remove "\<lambda>m. m" bt_ok
  by unfold_locales (simp_all add: bt_ok_def [symmetric] bt_get_def [symmetric])

end
