(* ===== verification/Storage.thy ===== *)
theory Storage
  imports Btree_Map
begin

unbundle bit_operations_syntax

text \<open>
  \<open>ticktape-journal/src/storage.rs\<close>, \<open>ticktape-sim/src/storage.rs\<close> and
  \<open>ticktape-sim/src/rng.rs\<close>. The trait \<open>Storage\<close> is a record of operations on a disk, passed
  to the journal and the snapshot store as the generic parameter is in the sources; the
  locale \<open>storage_laws\<close> states what they rely on. The simulated disk with its seeded power
  loss is the instance: every law is proved for it, and a crash is shown to keep the synced
  bytes of a file and a prefix of the rest with at most one flipped byte.
\<close>

section \<open>Paths, I/O errors and the trait\<close>

text \<open>
  A path is its directory and its file name. \<open>extension\<close> and \<open>file_stem\<close> split the name
  at its last dot, as \<open>std::path\<close> does; a leading dot alone is not a separator.
\<close>

type_synonym path = "string \<times> string"

fun rsplit_dot :: "string \<Rightarrow> (string \<times> string) option" where
  "rsplit_dot [] = None"
| "rsplit_dot (c # cs) =
     (case rsplit_dot cs of
        Some (stem, ext) \<Rightarrow> Some (c # stem, ext)
      | None \<Rightarrow> if c = CHR ''.'' then Some ([], cs) else None)"

definition extension :: "path \<Rightarrow> string option" where
  "extension p =
     (case rsplit_dot (snd p) of
        Some (stem, ext) \<Rightarrow> if stem = [] then None else Some ext
      | None \<Rightarrow> None)"

definition file_stem :: "path \<Rightarrow> string" where
  "file_stem p =
     (case rsplit_dot (snd p) of
        Some (stem, ext) \<Rightarrow> if stem = [] then snd p else stem
      | None \<Rightarrow> snd p)"

datatype io_error = NotFound | AlreadyExists | BrokenPipe

type_synonym ('a, 'd) io = "('a, io_error) result \<times> 'd"

text \<open>The traits \<open>Storage\<close> and \<open>StorageFile\<close>; \<open>'d\<close> is the disk and \<open>'f\<close> a file handle.\<close>

record ('d, 'f) storage =
  st_create_dir_all :: "string \<Rightarrow> 'd \<Rightarrow> (unit, 'd) io"
  st_list_dir :: "string \<Rightarrow> 'd \<Rightarrow> (path list, io_error) result"
  st_read :: "path \<Rightarrow> 'd \<Rightarrow> (bytes, io_error) result"
  st_open_append :: "path \<Rightarrow> 'd \<Rightarrow> ('f, io_error) result"
  st_create_new :: "path \<Rightarrow> 'd \<Rightarrow> ('f, 'd) io"
  st_truncate :: "path \<Rightarrow> nat \<Rightarrow> 'd \<Rightarrow> (unit, 'd) io"
  st_remove :: "path \<Rightarrow> 'd \<Rightarrow> (unit, 'd) io"
  st_sync_dir :: "string \<Rightarrow> 'd \<Rightarrow> (unit, 'd) io"
  st_write_all :: "'f \<Rightarrow> bytes \<Rightarrow> 'd \<Rightarrow> (unit, 'd) io"
  st_sync_data :: "'f \<Rightarrow> 'd \<Rightarrow> (unit, 'd) io"
  st_len :: "'f \<Rightarrow> 'd \<Rightarrow> (nat, io_error) result"

text \<open>Threading a disk through fallible steps: the operator \<open>?\<close> on effectful calls.\<close>

fun sbind :: "('a, 'e) result \<times> 's \<Rightarrow> ('a \<Rightarrow> 's \<Rightarrow> ('b, 'e) result \<times> 's) \<Rightarrow> ('b, 'e) result \<times> 's" where
  "sbind (Ok x, s) f = f x s"
| "sbind (Err e, s) f = (Err e, s)"

lemma sbind_split: "sbind r f = (case fst r of Ok x \<Rightarrow> f x (snd r) | Err e \<Rightarrow> (Err e, snd r))"
  by (cases r; cases "fst r") auto

lemma sbind_Ok_iff: "sbind r f = (Ok y, s') \<longleftrightarrow> (\<exists>x s. r = (Ok x, s) \<and> f x s = (Ok y, s'))"
  by (cases r; cases "fst r") auto

section \<open>What the clients rely on\<close>

text \<open>
  \<open>content d p\<close> is what a reader sees of the file \<open>p\<close>, \<open>stable d p\<close> the part that survives a
  power loss, \<open>live f d\<close> the file the handle \<open>f\<close> still writes to.
\<close>

locale storage_laws =
  fixes S :: "('d, 'f) storage"
    and ok :: "'d \<Rightarrow> bool"
    and content :: "'d \<Rightarrow> path \<Rightarrow> bytes option"
    and stable :: "'d \<Rightarrow> path \<Rightarrow> bytes option"
    and live :: "'f \<Rightarrow> 'd \<Rightarrow> path option"
  assumes create_dir: "ok d \<Longrightarrow> \<exists>d'. st_create_dir_all S dir d = (Ok (), d') \<and> ok d' \<and>
        content d' = content d \<and> stable d' = stable d \<and> (\<forall>g. live g d' = live g d)"
    and list_dir: "ok d \<Longrightarrow> \<exists>ps. st_list_dir S dir d = Ok ps \<and> distinct ps \<and>
        set ps = {p. fst p = dir \<and> content d p \<noteq> None}"
    and read: "ok d \<Longrightarrow>
        st_read S p d = (case content d p of Some bs \<Rightarrow> Ok bs | None \<Rightarrow> Err NotFound)"
    and open_append: "ok d \<Longrightarrow> content d p \<noteq> None \<Longrightarrow>
        \<exists>f. st_open_append S p d = Ok f \<and> live f d = Some p"
    and create_new_fresh: "ok d \<Longrightarrow> content d p = None \<Longrightarrow>
        \<exists>f d'. st_create_new S p d = (Ok f, d') \<and> ok d' \<and> live f d' = Some p \<and>
          content d' = (content d)(p \<mapsto> []) \<and> stable d' = (stable d)(p \<mapsto> []) \<and>
          (\<forall>g q. live g d = Some q \<longrightarrow> live g d' = Some q)"
    and create_new_exists: "ok d \<Longrightarrow> content d p \<noteq> None \<Longrightarrow>
        st_create_new S p d = (Err AlreadyExists, d)"
    and truncate: "ok d \<Longrightarrow> content d p = Some bs \<Longrightarrow>
        \<exists>d'. st_truncate S p n d = (Ok (), d') \<and> ok d' \<and>
          content d' = (content d)(p \<mapsto> take n bs) \<and> stable d' = (stable d)(p \<mapsto> take n bs) \<and>
          (\<forall>g. live g d' = live g d)"
    and remove: "ok d \<Longrightarrow> content d p \<noteq> None \<Longrightarrow>
        \<exists>d'. st_remove S p d = (Ok (), d') \<and> ok d' \<and>
          content d' = (content d)(p := None) \<and> stable d' = (stable d)(p := None) \<and>
          (\<forall>g q. live g d = Some q \<longrightarrow> q \<noteq> p \<longrightarrow> live g d' = Some q)"
    and sync_dir: "ok d \<Longrightarrow> \<exists>d'. st_sync_dir S dir d = (Ok (), d') \<and> ok d' \<and>
        content d' = content d \<and> stable d' = stable d \<and> (\<forall>g. live g d' = live g d)"
    and write_all: "ok d \<Longrightarrow> live f d = Some p \<Longrightarrow> content d p = Some bs \<Longrightarrow>
        \<exists>d'. st_write_all S f buf d = (Ok (), d') \<and> ok d' \<and>
          content d' = (content d)(p \<mapsto> bs @ buf) \<and> stable d' = stable d \<and>
          (\<forall>g. live g d' = live g d)"
    and sync_data: "ok d \<Longrightarrow> live f d = Some p \<Longrightarrow>
        \<exists>d'. st_sync_data S f d = (Ok (), d') \<and> ok d' \<and> content d' = content d \<and>
          stable d' = (stable d)(p := content d p) \<and> (\<forall>g. live g d' = live g d)"
    and len: "ok d \<Longrightarrow> live f d = Some p \<Longrightarrow> content d p = Some bs \<Longrightarrow>
        st_len S f d = Ok (length bs)"
    and stable_prefix: "ok d \<Longrightarrow> content d p = Some bs \<Longrightarrow>
        \<exists>t. stable d p = Some t \<and> (\<exists>rest. bs = t @ rest)"
    and stable_absent: "ok d \<Longrightarrow> content d p = None \<Longrightarrow> stable d p = None"
    and live_content: "ok d \<Longrightarrow> live f d = Some p \<Longrightarrow> content d p \<noteq> None"

text \<open>
  A power loss: what a file holds afterwards is a prefix of its content that covers the
  stable part, with at most one byte outside the stable part changed, and it is stable.
\<close>

definition survives :: "bytes \<Rightarrow> bytes \<Rightarrow> bytes \<Rightarrow> bool" where
  "survives st bs bs' \<longleftrightarrow>
     (\<exists>n. length st \<le> n \<and> n \<le> length bs \<and>
       (bs' = take n bs \<or> (\<exists>i b. length st \<le> i \<and> i < n \<and> bs' = (take n bs)[i := b])))"

locale crashing_storage = storage_laws +
  fixes power_loss :: "'a \<Rightarrow> 'a \<Rightarrow> bool"
  assumes power_loss_ok: "ok d \<Longrightarrow> power_loss d d' \<Longrightarrow> ok d'"
    and power_loss_files: "ok d \<Longrightarrow> power_loss d d' \<Longrightarrow> content d p = None \<longleftrightarrow> content d' p = None"
    and power_loss_content: "ok d \<Longrightarrow> power_loss d d' \<Longrightarrow> content d p = Some bs \<Longrightarrow> stable d p = Some st \<Longrightarrow>
        \<exists>bs'. content d' p = Some bs' \<and> stable d' p = Some bs' \<and> survives st bs bs'"
begin

lemma power_loss_synced:
  assumes "ok d" and "power_loss d d'" and "content d p = stable d p"
  shows "content d' p = content d p \<and> stable d' p = stable d p"
proof (cases "content d p")
  case None
  with power_loss_files [OF assms(1,2), of p] have "content d' p = None" by simp
  with None show ?thesis
    using assms(1) power_loss_ok [OF assms(1,2)] by (simp add: stable_absent)
next
  case (Some bs)
  with assms(3) have "stable d p = Some bs" by simp
  with power_loss_content [OF assms(1,2) Some this] Some show ?thesis
    by (auto simp: survives_def)
qed

end

section \<open>The simulator's random numbers\<close>

text \<open>\<open>Rng\<close> is SplitMix64; each call returns the value and the next state.\<close>

type_synonym rng = u64

definition rng_new :: "u64 \<Rightarrow> rng" where
  "rng_new seed = seed"

definition next_u64 :: "rng \<Rightarrow> u64 \<times> rng" where
  "next_u64 st =
     (let st = st + 0x9E3779B97F4A7C15;
          z = st;
          z = (z XOR drop_bit 30 z) * 0xBF58476D1CE4E5B9;
          z = (z XOR drop_bit 27 z) * 0x94D049BB133111EB
      in (z XOR drop_bit 31 z, st))"

definition rng_below :: "u64 \<Rightarrow> rng \<Rightarrow> u64 \<times> rng" where
  "rng_below n r = (let (v, r) = next_u64 r in (v mod n, r))"

definition rng_chance :: "u64 \<Rightarrow> u64 \<Rightarrow> rng \<Rightarrow> bool \<times> rng" where
  "rng_chance num den r = (let (v, r) = rng_below den r in (v < num, r))"

lemma rng_below_less: "0 < n \<Longrightarrow> fst (rng_below n r) < n"
  by (simp add: rng_below_def split_beta word_gt_0 word_mod_less_divisor)

lemma splitmix64_known_answer:
  "fst (next_u64 (rng_new 0)) = 0xE220A8397B1DCDAF"
  "fst (next_u64 (snd (next_u64 (rng_new 0)))) = 0x6E789E6AA1B965F4"
  by (simp_all add: next_u64_def rng_new_def Let_def)

section \<open>The simulated disk\<close>

record file_data =
  fd_synced :: bytes
  fd_unsynced :: bytes

definition fd_combined :: "file_data \<Rightarrow> bytes" where
  "fd_combined fd = fd_synced fd @ fd_unsynced fd"

record sim_disk =
  d_files :: "(path, file_data) btmap"
  d_epoch :: u64

record sim_file =
  sf_path :: path
  sf_epoch :: u64

definition sim_new :: sim_disk where
  "sim_new = \<lparr>d_files = [], d_epoch = 0\<rparr>"

text \<open>Power loss for one file, in the order the sources draw their random numbers.\<close>

definition crash_file :: "bool \<Rightarrow> file_data \<Rightarrow> rng \<Rightarrow> file_data \<times> rng" where
  "crash_file torn fd r =
     (let (k, r) = rng_below (of_nat (length (fd_unsynced fd)) + 1) r;
          keep = unat k;
          uns = take keep (fd_unsynced fd);
          (flip, r) = (if torn \<and> keep > 0 then rng_chance 1 4 r else (False, r));
          (uns, r) =
            (if flip then
               (let (i, r) = rng_below (of_nat keep) r;
                    (b, r) = rng_below 8 r
                in (uns[unat i := uns ! unat i XOR push_bit (unat b) 1], r))
             else (uns, r))
      in (\<lparr>fd_synced = fd_synced fd @ uns, fd_unsynced = []\<rparr>, r))"

fun crash_files :: "bool \<Rightarrow> (path, file_data) btmap \<Rightarrow> rng \<Rightarrow> (path, file_data) btmap \<times> rng" where
  "crash_files torn [] r = ([], r)"
| "crash_files torn ((p, fd) # fs) r =
     (let (fd', r) = crash_file torn fd r; (fs', r) = crash_files torn fs r in ((p, fd') # fs', r))"

definition sim_crash :: "bool \<Rightarrow> rng \<Rightarrow> sim_disk \<Rightarrow> sim_disk \<times> rng" where
  "sim_crash torn r d =
     (let (fs, r) = crash_files torn (d_files d) r in (\<lparr>d_files = fs, d_epoch = d_epoch d + 1\<rparr>, r))"

text \<open>Bit rot in the synced region; \<open>None\<close> is the panic on a missing file or a bad offset.\<close>

definition sim_rot_synced_byte :: "path \<Rightarrow> nat \<Rightarrow> nat \<Rightarrow> sim_disk \<Rightarrow> sim_disk option" where
  "sim_rot_synced_byte p off n d =
     (case bt_get (d_files d) p of
        None \<Rightarrow> None
      | Some fd \<Rightarrow>
          if off < length (fd_synced fd)
          then Some (d\<lparr>d_files := bt_insert p
                 (fd\<lparr>fd_synced := (fd_synced fd)[off := fd_synced fd ! off XOR push_bit (n mod 8) 1]\<rparr>)
                 (d_files d)\<rparr>)
          else None)"

definition sim_file_paths :: "sim_disk \<Rightarrow> path list" where
  "sim_file_paths d = map fst (d_files d)"

text \<open>\<open>SimFile::with_data\<close>: a handle from before a crash fails, as does one to a removed file.\<close>

definition with_data :: "sim_file \<Rightarrow> (file_data \<Rightarrow> file_data) \<Rightarrow> sim_disk \<Rightarrow> (unit, sim_disk) io" where
  "with_data h f d =
     (if d_epoch d \<noteq> sf_epoch h then (Err BrokenPipe, d)
      else case bt_get (d_files d) (sf_path h) of
          None \<Rightarrow> (Err NotFound, d)
        | Some fd \<Rightarrow> (Ok (), d\<lparr>d_files := bt_insert (sf_path h) (f fd) (d_files d)\<rparr>))"

definition sim_write_all :: "sim_file \<Rightarrow> bytes \<Rightarrow> sim_disk \<Rightarrow> (unit, sim_disk) io" where
  "sim_write_all h buf = with_data h (\<lambda>fd. fd\<lparr>fd_unsynced := fd_unsynced fd @ buf\<rparr>)"

definition sim_sync_data :: "sim_file \<Rightarrow> sim_disk \<Rightarrow> (unit, sim_disk) io" where
  "sim_sync_data h = with_data h (\<lambda>fd. \<lparr>fd_synced = fd_synced fd @ fd_unsynced fd, fd_unsynced = []\<rparr>)"

definition sim_len :: "sim_file \<Rightarrow> sim_disk \<Rightarrow> (nat, io_error) result" where
  "sim_len h d =
     (if d_epoch d \<noteq> sf_epoch h then Err BrokenPipe
      else case bt_get (d_files d) (sf_path h) of
          None \<Rightarrow> Err NotFound
        | Some fd \<Rightarrow> Ok (length (fd_synced fd) + length (fd_unsynced fd)))"

definition sim_create_dir_all :: "string \<Rightarrow> sim_disk \<Rightarrow> (unit, sim_disk) io" where
  "sim_create_dir_all dir d = (Ok (), d)"

definition sim_list_dir :: "string \<Rightarrow> sim_disk \<Rightarrow> (path list, io_error) result" where
  "sim_list_dir dir d = Ok (filter (\<lambda>p. fst p = dir) (map fst (d_files d)))"

definition sim_read :: "path \<Rightarrow> sim_disk \<Rightarrow> (bytes, io_error) result" where
  "sim_read p d =
     (case bt_get (d_files d) p of None \<Rightarrow> Err NotFound | Some fd \<Rightarrow> Ok (fd_combined fd))"

definition sim_open_append :: "path \<Rightarrow> sim_disk \<Rightarrow> (sim_file, io_error) result" where
  "sim_open_append p d =
     (if bt_contains (d_files d) p then Ok \<lparr>sf_path = p, sf_epoch = d_epoch d\<rparr> else Err NotFound)"

definition sim_create_new :: "path \<Rightarrow> sim_disk \<Rightarrow> (sim_file, sim_disk) io" where
  "sim_create_new p d =
     (if bt_contains (d_files d) p then (Err AlreadyExists, d)
      else (Ok \<lparr>sf_path = p, sf_epoch = d_epoch d\<rparr>,
            d\<lparr>d_files := bt_insert p \<lparr>fd_synced = [], fd_unsynced = []\<rparr> (d_files d)\<rparr>))"

definition sim_truncate :: "path \<Rightarrow> nat \<Rightarrow> sim_disk \<Rightarrow> (unit, sim_disk) io" where
  "sim_truncate p n d =
     (case bt_get (d_files d) p of
        None \<Rightarrow> (Err NotFound, d)
      | Some fd \<Rightarrow> (Ok (), d\<lparr>d_files :=
          bt_insert p \<lparr>fd_synced = take n (fd_combined fd), fd_unsynced = []\<rparr> (d_files d)\<rparr>))"

definition sim_remove :: "path \<Rightarrow> sim_disk \<Rightarrow> (unit, sim_disk) io" where
  "sim_remove p d =
     (if bt_contains (d_files d) p then (Ok (), d\<lparr>d_files := bt_remove p (d_files d)\<rparr>)
      else (Err NotFound, d))"

definition sim_sync_dir :: "string \<Rightarrow> sim_disk \<Rightarrow> (unit, sim_disk) io" where
  "sim_sync_dir dir d = (Ok (), d)"

definition sim_storage :: "(sim_disk, sim_file) storage" where
  "sim_storage = \<lparr>
     st_create_dir_all = sim_create_dir_all, st_list_dir = sim_list_dir, st_read = sim_read,
     st_open_append = sim_open_append, st_create_new = sim_create_new, st_truncate = sim_truncate,
     st_remove = sim_remove, st_sync_dir = sim_sync_dir, st_write_all = sim_write_all,
     st_sync_data = sim_sync_data, st_len = sim_len\<rparr>"

section \<open>The simulated disk keeps the laws\<close>

definition sim_ok :: "sim_disk \<Rightarrow> bool" where
  "sim_ok d \<longleftrightarrow> bt_ok (d_files d)"

definition sim_content :: "sim_disk \<Rightarrow> path \<Rightarrow> bytes option" where
  "sim_content d p = map_option fd_combined (bt_get (d_files d) p)"

definition sim_stable :: "sim_disk \<Rightarrow> path \<Rightarrow> bytes option" where
  "sim_stable d p = map_option fd_synced (bt_get (d_files d) p)"

definition sim_live :: "sim_file \<Rightarrow> sim_disk \<Rightarrow> path option" where
  "sim_live h d =
     (if sf_epoch h = d_epoch d \<and> bt_contains (d_files d) (sf_path h) then Some (sf_path h) else None)"

definition sim_power_loss :: "sim_disk \<Rightarrow> sim_disk \<Rightarrow> bool" where
  "sim_power_loss d d' \<longleftrightarrow> (\<exists>torn r. d' = fst (sim_crash torn r d))"

lemmas sim_ops =
  sim_create_dir_all_def sim_list_dir_def sim_read_def sim_open_append_def sim_create_new_def
  sim_truncate_def sim_remove_def sim_sync_dir_def sim_write_all_def sim_sync_data_def sim_len_def
  with_data_def

lemmas sim_views = sim_ok_def sim_content_def sim_stable_def sim_live_def bt_contains_def

lemma bt_get_in_keys: "bt_get m k \<noteq> None \<longleftrightarrow> k \<in> set (map fst m)"
  by (simp add: bt_get_None_iff)

lemma sim_list_dir_law:
  assumes "sim_ok d"
  shows "\<exists>ps. sim_list_dir dir d = Ok ps \<and> distinct ps \<and>
      set ps = {p. fst p = dir \<and> sim_content d p \<noteq> None}"
proof -
  have "{p. fst p = dir \<and> sim_content d p \<noteq> None} = {p \<in> set (map fst (d_files d)). fst p = dir}"
    by (auto simp: sim_content_def bt_get_None_iff)
  moreover have "distinct (map fst (d_files d))"
    using assms by (simp add: sim_ok_def bt_ok_distinct)
  ultimately show ?thesis
    by (simp only: sim_list_dir_def) auto
qed

interpretation sim: storage_laws sim_storage sim_ok sim_content sim_stable sim_live
proof (unfold_locales, unfold sim_storage_def storage.simps)
  show "sim_ok d \<Longrightarrow> \<exists>ps. sim_list_dir dir d = Ok ps \<and> distinct ps \<and>
      set ps = {p. fst p = dir \<and> sim_content d p \<noteq> None}" for d dir
    by (rule sim_list_dir_law)
qed (auto simp: sim_ops sim_views fd_combined_def fun_eq_iff split: option.splits if_splits)

section \<open>Power loss\<close>

lemma crash_file_survives:
  "survives (fd_synced fd) (fd_combined fd) (fd_synced (fst (crash_file torn fd r))) \<and>
   fd_unsynced (fst (crash_file torn fd r)) = []"
proof -
  obtain keep r1 where k: "rng_below (of_nat (length (fd_unsynced fd)) + 1) r = (keep, r1)" by force
  define n where "n = min (unat keep) (length (fd_unsynced fd))"
  have cut: "take (unat keep) (fd_unsynced fd) = take n (fd_unsynced fd)"
    by (simp add: n_def min_def)
  have pre: "survives (fd_synced fd) (fd_combined fd) (fd_synced fd @ take n (fd_unsynced fd))"
    unfolding survives_def fd_combined_def
    by (rule exI [of _ "length (fd_synced fd) + n"]) (simp add: n_def)
  have flip: "survives (fd_synced fd) (fd_combined fd) (fd_synced fd @ (take n (fd_unsynced fd))[i := b])" for i b
  proof (cases "i < n")
    case True
    then show ?thesis
      unfolding survives_def fd_combined_def
      by (intro exI [of _ "length (fd_synced fd) + n"] conjI disjI2 exI [of _ "length (fd_synced fd) + i"] exI [of _ b])
        (simp_all add: n_def list_update_append)
  next
    case False
    then have "(take n (fd_unsynced fd))[i := b] = take n (fd_unsynced fd)"
      by (intro list_update_beyond) simp
    with pre show ?thesis by simp
  qed
  show ?thesis
    by (auto simp: crash_file_def k cut pre flip Let_def split_beta)
qed

lemma crash_files_get:
  "bt_get fs p = None \<and> bt_get (fst (crash_files torn fs r)) p = None \<or>
   (\<exists>fd r'. bt_get fs p = Some fd \<and> bt_get (fst (crash_files torn fs r)) p = Some (fst (crash_file torn fd r')))"
  by (induction fs arbitrary: r) (force simp: bt_get_def split_beta Let_def)+

lemma crash_files_keys: "map fst (fst (crash_files torn fs r)) = map fst fs"
  by (induction fs arbitrary: r) (auto simp: split_beta Let_def)

lemma sim_crash_files: "d_files (fst (sim_crash torn r d)) = fst (crash_files torn (d_files d) r)"
  by (simp add: sim_crash_def split_beta Let_def)

interpretation simc: crashing_storage sim_storage sim_ok sim_content sim_stable sim_live sim_power_loss
proof
  fix d d' p
  assume "sim_ok d" "sim_power_loss d d'"
  then obtain torn r where d': "d_files d' = fst (crash_files torn (d_files d) r)"
    by (auto simp: sim_power_loss_def sim_crash_files)
  from \<open>sim_ok d\<close> show "sim_ok d'"
    by (simp add: sim_ok_def bt_ok_def d' crash_files_keys)
  note g = crash_files_get [of "d_files d" p torn r]
  then show "sim_content d p = None \<longleftrightarrow> sim_content d' p = None"
    by (auto simp: sim_content_def d')
  fix bs st
  assume "sim_content d p = Some bs" "sim_stable d p = Some st"
  with g obtain fd r' where "bt_get (d_files d) p = Some fd" "bs = fd_combined fd" "st = fd_synced fd"
      "bt_get (d_files d') p = Some (fst (crash_file torn fd r'))"
    by (auto simp: sim_content_def sim_stable_def d')
  then show "\<exists>bs'. sim_content d' p = Some bs' \<and> sim_stable d' p = Some bs' \<and> survives st bs bs'"
    using crash_file_survives [of fd torn r'] by (simp add: sim_content_def sim_stable_def fd_combined_def)
qed

lemma sim_power_loss_crash [simp]: "sim_power_loss d (fst (sim_crash flip r d))"
  by (auto simp: sim_power_loss_def)

lemma sim_crash_fences:
  "sf_epoch h = d_epoch d \<Longrightarrow> sim_live h (fst (sim_crash torn r d)) = None"
  by (simp add: sim_live_def sim_crash_def split_beta Let_def)

end
