(* ===== verification/Codec.thy ===== *)
theory Codec
  imports Prelude
begin

text \<open>
  \<open>ticktape-core/src/codec.rs\<close> and the derive macros of \<open>ticktape-macros\<close>: the canonical
  little-endian codec. An \<open>Encode\<close> implementation is the list of bytes it appends to its
  output; a \<open>Decode\<close> implementation takes the cursor and returns the value with the
  advanced cursor. The locale \<open>codec\<close> states what a pair of implementations promises;
  every implementation of the sources is shown to keep the promise.
\<close>

section \<open>Errors, cursors, integers\<close>

datatype codec_error =
    UnexpectedEof
  | InvalidValue string
  | InvalidUtf8
  | TrailingBytes nat

type_synonym 'a encoder = "'a \<Rightarrow> bytes"
type_synonym 'a decoder = "bytes \<Rightarrow> ('a \<times> bytes, codec_error) result"

definition encode_to_vec :: "'a encoder \<Rightarrow> 'a \<Rightarrow> bytes" where
  "encode_to_vec enc value = enc value"

definition decode_all :: "'a decoder \<Rightarrow> bytes \<Rightarrow> ('a, codec_error) result" where
  "decode_all dec buf =
     rbind (dec buf) (\<lambda>(value, buf). if buf = [] then Ok value else Err (TrailingBytes (length buf)))"

definition take_bytes :: "nat \<Rightarrow> bytes decoder" where
  "take_bytes n buf =
     (if length buf < n then Err UnexpectedEof else Ok (take n buf, drop n buf))"

definition enc_int :: "'a::len word encoder" where
  "enc_int w = to_le_bytes w"

definition len_int :: "'a::len word \<Rightarrow> nat" where
  "len_int w = LENGTH('a) div 8"

definition dec_int :: "'a::len word decoder" where
  "dec_int buf =
     rbind (take_bytes (LENGTH('a) div 8) buf) (\<lambda>(bs, buf). Ok (from_le_bytes bs, buf))"

definition enc_bool :: "bool encoder" where
  "enc_bool b = [if b then 1 else 0]"

definition dec_bool :: "bool decoder" where
  "dec_bool buf =
     rbind (dec_int buf) (\<lambda>(t :: u8, buf).
       if t = 0 then Ok (False, buf)
       else if t = 1 then Ok (True, buf)
       else Err (InvalidValue ''bool tag''))"

definition enc_unit :: "unit encoder" where
  "enc_unit u = []"

definition dec_unit :: "unit decoder" where
  "dec_unit buf = Ok ((), buf)"

section \<open>Length-prefixed data\<close>

text \<open>A length is cast to \<open>u32\<close>: the cast truncates.\<close>

definition encode_len :: "nat \<Rightarrow> bytes" where
  "encode_len len = enc_int (of_nat len :: u32)"

definition decode_len :: "nat decoder" where
  "decode_len buf = rbind (dec_int buf) (\<lambda>(n :: u32, buf). Ok (unat n, buf))"

text \<open>
  A \<open>String\<close> is its UTF-8 bytes. \<open>utf8_valid\<close> is the test of \<open>String::from_utf8\<close>: the
  well-formed byte sequences of the Unicode standard, overlong forms and surrogates
  excluded.
\<close>

definition utf8_cont :: "u8 \<Rightarrow> bool" where
  "utf8_cont b \<longleftrightarrow> 0x80 \<le> b \<and> b \<le> 0xBF"

fun utf8_valid :: "bytes \<Rightarrow> bool" where
  "utf8_valid [] = True"
| "utf8_valid (b # bs) =
     (if b < 0x80 then utf8_valid bs
      else if 0xC2 \<le> b \<and> b \<le> 0xDF then
        (case bs of c # cs \<Rightarrow> utf8_cont c \<and> utf8_valid cs | _ \<Rightarrow> False)
      else if 0xE0 \<le> b \<and> b \<le> 0xEF then
        (case bs of c # d # cs \<Rightarrow>
           (if b = 0xE0 then 0xA0 \<le> c \<and> c \<le> 0xBF
            else if b = 0xED then 0x80 \<le> c \<and> c \<le> 0x9F
            else utf8_cont c) \<and> utf8_cont d \<and> utf8_valid cs
         | _ \<Rightarrow> False)
      else if 0xF0 \<le> b \<and> b \<le> 0xF4 then
        (case bs of c # d # e # cs \<Rightarrow>
           (if b = 0xF0 then 0x90 \<le> c \<and> c \<le> 0xBF
            else if b = 0xF4 then 0x80 \<le> c \<and> c \<le> 0x8F
            else utf8_cont c) \<and> utf8_cont d \<and> utf8_cont e \<and> utf8_valid cs
         | _ \<Rightarrow> False)
      else False)"

type_synonym rstring = bytes

definition enc_string :: "rstring encoder" where
  "enc_string s = encode_len (length s) @ s"

definition len_string :: "rstring \<Rightarrow> nat" where
  "len_string s = 4 + length s"

definition dec_string :: "rstring decoder" where
  "dec_string buf =
     rbind (decode_len buf) (\<lambda>(len, buf).
     rbind (take_bytes len buf) (\<lambda>(bs, buf).
       if utf8_valid bs then Ok (bs, buf) else Err InvalidUtf8))"

definition enc_vec :: "'a encoder \<Rightarrow> 'a list encoder" where
  "enc_vec enc xs = encode_len (length xs) @ concat (map enc xs)"

definition len_vec :: "('a \<Rightarrow> nat) \<Rightarrow> 'a list \<Rightarrow> nat" where
  "len_vec elen xs = 4 + sum_list (map elen xs)"

fun dec_items :: "'a decoder \<Rightarrow> nat \<Rightarrow> 'a list decoder" where
  "dec_items dec 0 buf = Ok ([], buf)"
| "dec_items dec (Suc n) buf =
     rbind (dec buf) (\<lambda>(x, buf). rbind (dec_items dec n buf) (\<lambda>(xs, buf). Ok (x # xs, buf)))"

definition dec_vec :: "'a decoder \<Rightarrow> 'a list decoder" where
  "dec_vec dec buf = rbind (decode_len buf) (\<lambda>(len, buf). dec_items dec len buf)"

section \<open>Options, tuples and derived enums\<close>

definition enc_option :: "'a encoder \<Rightarrow> 'a option encoder" where
  "enc_option enc v = (case v of None \<Rightarrow> [0] | Some x \<Rightarrow> 1 # enc x)"

definition len_option :: "('a \<Rightarrow> nat) \<Rightarrow> 'a option \<Rightarrow> nat" where
  "len_option elen v = 1 + (case v of None \<Rightarrow> 0 | Some x \<Rightarrow> elen x)"

definition dec_option :: "'a decoder \<Rightarrow> 'a option decoder" where
  "dec_option dec buf =
     rbind (dec_int buf) (\<lambda>(t :: u8, buf).
       if t = 0 then Ok (None, buf)
       else if t = 1 then rbind (dec buf) (\<lambda>(x, buf). Ok (Some x, buf))
       else Err (InvalidValue ''Option tag''))"

text \<open>
  The tuple macro, two components at a time: \<open>(A, B, C)\<close> is the pair of \<open>A\<close> and the
  pair \<open>(B, C)\<close>, in declaration order. Derived structs are tuples of their fields.
\<close>

definition enc_pair :: "'a encoder \<Rightarrow> 'b encoder \<Rightarrow> ('a \<times> 'b) encoder" where
  "enc_pair ea eb p = ea (fst p) @ eb (snd p)"

definition len_pair :: "('a \<Rightarrow> nat) \<Rightarrow> ('b \<Rightarrow> nat) \<Rightarrow> 'a \<times> 'b \<Rightarrow> nat" where
  "len_pair la lb p = la (fst p) + lb (snd p)"

definition dec_pair :: "'a decoder \<Rightarrow> 'b decoder \<Rightarrow> ('a \<times> 'b) decoder" where
  "dec_pair da db buf =
     rbind (da buf) (\<lambda>(a, buf). rbind (db buf) (\<lambda>(b, buf). Ok ((a, b), buf)))"

text \<open>
  A derived enum: the \<open>u16\<close> declaration index of the variant, then its fields.
  \<open>variant\<close> and \<open>fields\<close> are what \<open>expand_encode\<close> generates for a type, the list of arms
  what \<open>expand_decode\<close> generates.
\<close>

definition enc_enum :: "('a \<Rightarrow> nat) \<Rightarrow> 'a encoder \<Rightarrow> 'a encoder" where
  "enc_enum variant fields x = enc_int (of_nat (variant x) :: u16) @ fields x"

definition len_enum :: "('a \<Rightarrow> nat) \<Rightarrow> 'a \<Rightarrow> nat" where
  "len_enum flen x = 2 + flen x"

definition dec_enum :: "'a decoder list \<Rightarrow> 'a decoder" where
  "dec_enum arms buf =
     rbind (dec_int buf) (\<lambda>(d :: u16, buf).
       if unat d < length arms then (arms ! unat d) buf
       else Err (InvalidValue ''enum discriminant''))"

definition map_dec :: "('a \<Rightarrow> 'b) \<Rightarrow> 'a decoder \<Rightarrow> 'b decoder" where
  "map_dec f dec buf = rbind (dec buf) (\<lambda>(x, buf). Ok (f x, buf))"

section \<open>The contract of a codec\<close>

text \<open>
  \<open>valid\<close> singles out the values the Rust type can hold: every word, a \<open>Vec\<close> or
  \<open>String\<close> whose length fits the \<open>u32\<close> prefix, a \<open>String\<close> of valid UTF-8.
\<close>

locale codec =
  fixes enc :: "'a encoder" and dec :: "'a decoder" and elen :: "'a \<Rightarrow> nat" and valid :: "'a \<Rightarrow> bool"
  assumes roundtrip: "valid x \<Longrightarrow> dec (enc x @ rest) = Ok (x, rest)"
    and canonical: "dec buf = Ok (x, rest) \<Longrightarrow> valid x \<and> buf = enc x @ rest"
    and encoded_len: "valid x \<Longrightarrow> elen x = length (enc x)"
begin

lemma decode_all_encode: "valid x \<Longrightarrow> decode_all dec (encode_to_vec enc x) = Ok x"
  using roundtrip [of x "[]"] by (simp add: decode_all_def encode_to_vec_def)

lemma decode_all_canonical: "decode_all dec buf = Ok x \<Longrightarrow> valid x \<and> buf = encode_to_vec enc x"
  by (auto simp: decode_all_def encode_to_vec_def rbind_Ok_iff split: if_splits dest: canonical)

lemma enc_prefix_free: "valid x \<Longrightarrow> valid y \<Longrightarrow> enc x @ r = enc y @ s \<Longrightarrow> x = y \<and> r = s"
  using roundtrip [of x r] roundtrip [of y s] by (metis Pair_inject result.inject(1))

lemma enc_inj: "valid x \<Longrightarrow> valid y \<Longrightarrow> enc x = enc y \<Longrightarrow> x = y"
  by (rule conjunct1 [OF enc_prefix_free [where r = "[]" and s = "[]"]]) simp_all

text \<open>No proper prefix of an encoding decodes: a torn value is always an error.\<close>

lemma prefix_rejected:
  assumes "valid x" and "n < length (enc x)"
  shows "\<exists>e. dec (take n (enc x)) = Err e"
proof (cases "dec (take n (enc x))")
  case (Ok yr)
  obtain y r where yr: "yr = (y, r)" by force
  from canonical [OF Ok [unfolded yr]] have y: "valid y" and t: "take n (enc x) = enc y @ r"
    by auto
  have "enc x = take n (enc x) @ drop n (enc x)" by (rule append_take_drop_id [symmetric])
  then have "enc x @ [] = enc y @ (r @ drop n (enc x))" by (simp only: t append_assoc append_Nil2)
  then have "r @ drop n (enc x) = []"
    using enc_prefix_free [OF assms(1) y] by blast
  with assms(2) show ?thesis by simp
qed blast

lemma decode_all_trailing:
  "valid x \<Longrightarrow> rest \<noteq> [] \<Longrightarrow> decode_all dec (enc x @ rest) = Err (TrailingBytes (length rest))"
  by (simp add: decode_all_def roundtrip)

end

section \<open>Every implementation keeps the contract\<close>

lemma take_bytes_Ok_iff:
  "take_bytes n buf = Ok (bs, rest) \<longleftrightarrow> length bs = n \<and> buf = bs @ rest"
  by (auto simp: take_bytes_def)

lemma take_bytes_append [simp]: "length bs = n \<Longrightarrow> take_bytes n (bs @ rest) = Ok (bs, rest)"
  by (simp add: take_bytes_def)

lemma codec_int:
  assumes "8 dvd LENGTH('a::len)"
  shows "codec enc_int dec_int len_int (\<lambda>_ :: 'a word. True)"
proof
  show "dec_int (enc_int x @ rest) = Ok (x, rest)" for x :: "'a word" and rest
    using assms by (simp add: dec_int_def enc_int_def from_le_bytes_to_le_bytes)
  show "True \<and> buf = enc_int x @ rest" if "dec_int buf = Ok (x, rest)" for buf rest and x :: "'a word"
    using that assms
    by (auto simp: dec_int_def enc_int_def rbind_Ok_iff take_bytes_Ok_iff to_le_bytes_from_le_bytes)
  show "len_int x = length (enc_int x)" for x :: "'a word"
    by (simp add: len_int_def enc_int_def)
qed

interpretation u8c: codec enc_int dec_int len_int "\<lambda>_ :: u8. True"
  by (rule codec_int) simp

interpretation u16c: codec enc_int dec_int len_int "\<lambda>_ :: u16. True"
  by (rule codec_int) simp

interpretation u32c: codec enc_int dec_int len_int "\<lambda>_ :: u32. True"
  by (rule codec_int) simp

interpretation u64c: codec enc_int dec_int len_int "\<lambda>_ :: u64. True"
  by (rule codec_int) simp

interpretation u128c: codec enc_int dec_int len_int "\<lambda>_ :: u128. True"
  by (rule codec_int) simp

lemma enc_int_u8: "enc_int (t :: u8) = [t]"
  by (simp add: enc_int_def to_le_bytes_def)

lemma dec_int_u8_Cons [simp]: "dec_int (t # buf) = Ok (t :: u8, buf)"
  using u8c.roundtrip [of t buf] by (simp add: enc_int_u8)

lemma dec_int_u8_Ok_iff: "dec_int buf = Ok (t :: u8, rest) \<longleftrightarrow> buf = t # rest"
  using u8c.canonical [of buf t rest] by (auto simp: enc_int_u8)

interpretation boolc: codec enc_bool dec_bool "\<lambda>_. 1" "\<lambda>_. True"
  by unfold_locales
    (auto simp: enc_bool_def dec_bool_def rbind_Ok_iff dec_int_u8_Ok_iff split: if_splits)

interpretation unitc: codec enc_unit dec_unit "\<lambda>_. 0" "\<lambda>_. True"
  by unfold_locales (auto simp: enc_unit_def dec_unit_def)

lemma decode_len_encode_len: "n < 2 ^ 32 \<Longrightarrow> decode_len (encode_len n @ rest) = Ok (n, rest)"
  by (simp add: decode_len_def encode_len_def u32c.roundtrip unat_of_nat_small)

lemma decode_len_Ok:
  "decode_len buf = Ok (n, rest) \<Longrightarrow> n < 2 ^ 32 \<and> buf = encode_len n @ rest"
  using unat_bound [where ?'a = 32]
  by (auto simp: decode_len_def encode_len_def rbind_Ok_iff dest!: u32c.canonical)

lemma length_encode_len [simp]: "length (encode_len n) = 4"
  by (simp add: encode_len_def enc_int_def)

definition wf_string :: "rstring \<Rightarrow> bool" where
  "wf_string s \<longleftrightarrow> length s < 2 ^ 32 \<and> utf8_valid s"

interpretation stringc: codec enc_string dec_string len_string wf_string
  by unfold_locales
    (auto simp: enc_string_def dec_string_def len_string_def wf_string_def rbind_Ok_iff
      decode_len_encode_len take_bytes_Ok_iff split: if_splits dest!: decode_len_Ok)

definition wf_vec :: "('a \<Rightarrow> bool) \<Rightarrow> 'a list \<Rightarrow> bool" where
  "wf_vec valid xs \<longleftrightarrow> length xs < 2 ^ 32 \<and> list_all valid xs"

context codec
begin

lemma dec_items_enc: "list_all valid xs \<Longrightarrow> dec_items dec (length xs) (concat (map enc xs) @ rest) = Ok (xs, rest)"
  by (induction xs) (simp_all add: roundtrip)

lemma dec_items_canonical:
  "dec_items dec n buf = Ok (xs, rest) \<Longrightarrow>
     length xs = n \<and> list_all valid xs \<and> buf = concat (map enc xs) @ rest"
proof (induction n arbitrary: buf xs)
  case 0
  then show ?case by simp
next
  case (Suc n)
  then obtain x ys b where x: "dec buf = Ok (x, b)" and ys: "dec_items dec n b = Ok (ys, rest)"
    and xs: "xs = x # ys"
    by (auto simp: rbind_Ok_iff)
  from canonical [OF x] Suc.IH [OF ys] xs show ?case by simp
qed

lemma sum_elen: "list_all valid xs \<Longrightarrow> sum_list (map elen xs) = length (concat (map enc xs))"
  by (induction xs) (simp_all add: encoded_len)

lemma codec_vec: "codec (enc_vec enc) (dec_vec dec) (len_vec elen) (wf_vec valid)"
proof
  show "dec_vec dec (enc_vec enc xs @ rest) = Ok (xs, rest)" if "wf_vec valid xs" for xs rest
    using that by (simp add: enc_vec_def dec_vec_def wf_vec_def decode_len_encode_len dec_items_enc)
  show "wf_vec valid xs \<and> buf = enc_vec enc xs @ rest" if "dec_vec dec buf = Ok (xs, rest)" for buf xs rest
    using that
    by (auto simp: enc_vec_def dec_vec_def wf_vec_def rbind_Ok_iff
        dest!: decode_len_Ok dec_items_canonical)
  show "len_vec elen xs = length (enc_vec enc xs)" if "wf_vec valid xs" for xs
    using that by (simp add: len_vec_def enc_vec_def wf_vec_def sum_elen)
qed

lemma codec_option: "codec (enc_option enc) (dec_option dec) (len_option elen) (pred_option valid)"
proof
  show "dec_option dec (enc_option enc v @ rest) = Ok (v, rest)" if "pred_option valid v" for v rest
    using that by (cases v) (simp_all add: enc_option_def dec_option_def roundtrip)
  show "pred_option valid v \<and> buf = enc_option enc v @ rest"
    if ok: "dec_option dec buf = Ok (v, rest)" for buf v rest
  proof -
    from ok obtain t b where buf: "buf = t # b"
      by (auto simp: dec_option_def rbind_Ok_iff dec_int_u8_Ok_iff)
    with ok show ?thesis
      by (auto simp: dec_option_def enc_option_def rbind_Ok_iff split: if_splits dest!: canonical)
  qed
  show "len_option elen v = length (enc_option enc v)" if "pred_option valid v" for v
    using that by (cases v) (simp_all add: len_option_def enc_option_def encoded_len)
qed

lemma codec_pair:
  assumes "codec encb decb elenb validb"
  shows "codec (enc_pair enc encb) (dec_pair dec decb) (len_pair elen elenb)
           (\<lambda>p. valid (fst p) \<and> validb (snd p))"
proof -
  from assms have b: "codec encb decb elenb validb" .
  show ?thesis
    by unfold_locales
      (auto simp: enc_pair_def dec_pair_def len_pair_def rbind_Ok_iff roundtrip encoded_len
        codec.roundtrip [OF b] codec.encoded_len [OF b] dest!: canonical codec.canonical [OF b])
qed

end

text \<open>
  A derived enum is a codec when each arm decodes exactly the fields of its own variant.
\<close>

lemma codec_enum:
  assumes n: "length arms < 2 ^ 16"
    and rt: "\<And>x rest. valid x \<Longrightarrow> variant x < length arms \<and>
               (arms ! variant x) (fields x @ rest) = Ok (x, rest)"
    and can: "\<And>i buf x rest. i < length arms \<Longrightarrow> (arms ! i) buf = Ok (x, rest) \<Longrightarrow>
               valid x \<and> variant x = i \<and> buf = fields x @ rest"
    and el: "\<And>x. valid x \<Longrightarrow> flen x = length (fields x)"
  shows "codec (enc_enum variant fields) (dec_enum arms) (len_enum flen) valid"
proof
  have d: "unat (of_nat i :: u16) = i" if "i < length arms" for i
    using that n by (simp add: unat_of_nat_small)
  show "dec_enum arms (enc_enum variant fields x @ rest) = Ok (x, rest)" if "valid x" for x rest
    using rt [OF that, of rest] by (simp add: dec_enum_def enc_enum_def u16c.roundtrip d)
  show "valid x \<and> buf = enc_enum variant fields x @ rest" if "dec_enum arms buf = Ok (x, rest)" for buf x rest
    using that
    by (auto simp: dec_enum_def enc_enum_def rbind_Ok_iff split: if_splits
        dest!: u16c.canonical dest: can)
  show "len_enum flen x = length (enc_enum variant fields x)" if "valid x" for x
    using el [OF that] by (simp add: len_enum_def enc_enum_def enc_int_def)
qed

lemma map_dec_Ok_iff: "map_dec f dec buf = Ok (y, rest) \<longleftrightarrow> (\<exists>x. dec buf = Ok (x, rest) \<and> y = f x)"
  by (auto simp: map_dec_def rbind_Ok_iff)

end
