(* ===== verification/Crc32c.thy ===== *)
theory Crc32c
  imports Prelude
begin

unbundle bit_operations_syntax

text \<open>
  \<open>ticktape-core/src/crc32c.rs\<close>: the table-driven software CRC32C and the two hardware
  variants, which fold eight bytes at a time and then a tail of four, two and one.
  The CRC instructions of the processors (\<open>core::arch\<close>) are modelled by what they
  compute, a bit-serial division by the Castagnoli polynomial (\<open>crc_insn\<close>).
  All three routines are shown equal to the bit-serial reference \<open>crc32c_ref\<close>, and a
  change confined to four consecutive bytes always changes the checksum.
\<close>

section \<open>The software routine\<close>

definition POLY :: u32 where
  "POLY = 0x82F63B78"

text \<open>The body of the inner loop of \<open>build_table\<close>.\<close>

definition crc_bit :: "u32 \<Rightarrow> u32" where
  "crc_bit crc = (if crc AND 1 \<noteq> 0 then drop_bit 1 crc XOR POLY else drop_bit 1 crc)"

definition build_table :: "u32 list" where
  "build_table = map (\<lambda>i. (crc_bit ^^ 8) (of_nat i)) [0..<256]"

definition crc32c_step :: "u32 \<Rightarrow> u8 \<Rightarrow> u32" where
  "crc32c_step crc byte =
     drop_bit 8 crc XOR build_table ! unat ((crc XOR ucast byte) AND 0xFF)"

definition crc32c_sw :: "bytes \<Rightarrow> u32" where
  "crc32c_sw data = NOT (foldl crc32c_step (NOT 0) data)"

section \<open>The hardware routines\<close>

text \<open>
  One CRC instruction: the bits of the operand, least significant first, are shifted
  through the 32-bit register of the reflected polynomial. This is \<open>__crc32cb\<close>,
  \<open>__crc32ch\<close>, \<open>__crc32cw\<close> and \<open>__crc32cd\<close> on ARMv8 and \<open>_mm_crc32_u8\<close> to
  \<open>_mm_crc32_u64\<close> on x86-64, by the width of the operand.
\<close>

definition crc_feed_bit :: "u32 \<Rightarrow> bool \<Rightarrow> u32" where
  "crc_feed_bit crc b =
     (if bit crc 0 \<noteq> b then drop_bit 1 crc XOR POLY else drop_bit 1 crc)"

definition word_bits :: "'a::len word \<Rightarrow> bool list" where
  "word_bits v = map (bit v) [0..<LENGTH('a)]"

definition crc_insn :: "u32 \<Rightarrow> 'a::len word \<Rightarrow> u32" where
  "crc_insn crc v = foldl crc_feed_bit crc (word_bits v)"

text \<open>The loop over \<open>chunks_exact(8)\<close>; it ends with the remainder of the data.\<close>

fun crc_chunks8 :: "u32 \<Rightarrow> bytes \<Rightarrow> u32 \<times> bytes" where
  "crc_chunks8 crc data =
     (if length data < 8 then (crc, data)
      else crc_chunks8 (crc_insn crc (from_le_bytes (take 8 data) :: u64)) (drop 8 data))"

declare crc_chunks8.simps [simp del]

text \<open>The tail: four, two and one byte.\<close>

definition crc_tail4 :: "u32 \<times> bytes \<Rightarrow> u32 \<times> bytes" where
  "crc_tail4 cr =
     (if length (snd cr) \<ge> 4
      then (crc_insn (fst cr) (from_le_bytes (take 4 (snd cr)) :: u32), drop 4 (snd cr))
      else cr)"

definition crc_tail2 :: "u32 \<times> bytes \<Rightarrow> u32 \<times> bytes" where
  "crc_tail2 cr =
     (if length (snd cr) \<ge> 2
      then (crc_insn (fst cr) (from_le_bytes (take 2 (snd cr)) :: u16), drop 2 (snd cr))
      else cr)"

definition crc_tail :: "u32 \<times> bytes \<Rightarrow> u32" where
  "crc_tail cr =
     (let (crc, rem) = crc_tail2 (crc_tail4 cr)
      in case rem of b # _ \<Rightarrow> crc_insn crc b | [] \<Rightarrow> crc)"

definition crc32c_aarch64 :: "bytes \<Rightarrow> u32" where
  "crc32c_aarch64 data =
     NOT (crc_tail (crc_chunks8 (NOT 0) data))"

text \<open>
  On x86-64 the eight-byte instruction takes and returns a 64-bit register, whose upper
  half the cast \<open>as u32\<close> drops.
\<close>

definition mm_crc32_u64 :: "u64 \<Rightarrow> u64 \<Rightarrow> u64" where
  "mm_crc32_u64 crc v = ucast (crc_insn (ucast crc) v)"

fun crc_chunks8_x86 :: "u32 \<Rightarrow> bytes \<Rightarrow> u32 \<times> bytes" where
  "crc_chunks8_x86 crc data =
     (if length data < 8 then (crc, data)
      else crc_chunks8_x86
             (ucast (mm_crc32_u64 (ucast crc) (from_le_bytes (take 8 data)))) (drop 8 data))"

declare crc_chunks8_x86.simps [simp del]

definition crc32c_x86 :: "bytes \<Rightarrow> u32" where
  "crc32c_x86 data =
     NOT (crc_tail (crc_chunks8_x86 (NOT 0) data))"

text \<open>The dispatcher: which routine runs depends on the target and a feature test.\<close>

datatype crc_target = Aarch64 | X86_64 | OtherTarget

definition crc32c_dispatch :: "crc_target \<Rightarrow> bool \<Rightarrow> bytes \<Rightarrow> u32" where
  "crc32c_dispatch target detected data =
     (case target of
        Aarch64 \<Rightarrow> if detected then crc32c_aarch64 data else crc32c_sw data
      | X86_64 \<Rightarrow> if detected then crc32c_x86 data else crc32c_sw data
      | OtherTarget \<Rightarrow> crc32c_sw data)"

text \<open>What the rest of the development calls.\<close>

definition crc32c :: "bytes \<Rightarrow> u32" where
  "crc32c data = crc32c_sw data"

section \<open>The bit-serial reference\<close>

definition crc32c_ref :: "bytes \<Rightarrow> u32" where
  "crc32c_ref data = NOT (foldl crc_feed_bit (NOT 0) (concat (map word_bits data)))"

lemma crc_bit_xor: "crc_bit (a XOR b) = crc_bit a XOR crc_bit b"
  by (rule bit_word_eqI) (auto simp: crc_bit_def bit_simps and_one_eq odd_iff_mod_2_eq_one [symmetric] even_xor_iff)

lemma crc_bit_pow_xor: "(crc_bit ^^ n) (a XOR b) = (crc_bit ^^ n) a XOR (crc_bit ^^ n) b"
  by (induction n) (simp_all add: crc_bit_xor)

lemma and_1_neq_0: "x AND 1 \<noteq> 0 \<longleftrightarrow> bit (x :: u32) 0"
  by (simp add: and_one_eq odd_iff_mod_2_eq_one [symmetric] bit_0)

lemma crc_bit_feed: "crc_bit (c XOR x) = crc_feed_bit c (bit x 0) XOR drop_bit 1 x"
  unfolding crc_bit_def crc_feed_bit_def and_1_neq_0
  by (rule bit_word_eqI) (auto simp: bit_simps)

text \<open>Feeding the \<open>k\<close> low bits of \<open>v\<close> is \<open>k\<close> table steps on the register with \<open>v\<close> mixed in.\<close>

lemma feed_bits_pow:
  "foldl crc_feed_bit s (map (bit v) [0..<k]) XOR drop_bit k v = (crc_bit ^^ k) (s XOR (v :: u32))"
proof (induction k)
  case 0
  then show ?case by simp
next
  case (Suc k)
  let ?c = "foldl crc_feed_bit s (map (bit v) [0..<k])"
  have "(crc_bit ^^ Suc k) (s XOR v) = crc_bit (?c XOR drop_bit k v)"
    by (simp only: funpow.simps comp_apply Suc.IH)
  also have "\<dots> = crc_feed_bit ?c (bit v k) XOR drop_bit 1 (drop_bit k v)"
    by (simp add: crc_bit_feed bit_drop_bit_eq)
  finally show ?case by (simp add: ac_simps)
qed

lemma feed_word_bits:
  assumes "LENGTH('a) \<le> 32"
  shows "foldl crc_feed_bit s (word_bits (v :: 'a::len word)) = (crc_bit ^^ LENGTH('a)) (s XOR ucast v)"
proof -
  have "drop_bit LENGTH('a) (ucast v :: u32) = 0"
    by (rule bit_word_eqI) (auto simp: bit_simps dest: bit_imp_le_length)
  moreover have "map (bit (ucast v :: u32)) [0..<LENGTH('a)] = word_bits v"
    using assms by (auto simp: word_bits_def bit_simps)
  ultimately show ?thesis
    using feed_bits_pow [of s "ucast v" "LENGTH('a)"] by simp
qed

lemma crc_bit_pow_low_zero:
  "take_bit k z = 0 \<Longrightarrow> (crc_bit ^^ k) z = drop_bit k z"
proof (induction k)
  case 0
  then show ?case by simp
next
  case (Suc k)
  have zk: "\<not> bit z k"
    using Suc.prems bit_imp_le_length [of z k] by (auto simp: bit_eq_iff bit_simps)
  have "take_bit k z = 0"
    using Suc.prems by (auto simp: bit_eq_iff bit_simps)
  with zk have "(crc_bit ^^ Suc k) z = crc_bit (drop_bit k z)"
    using Suc.IH by simp
  also have "\<dots> = drop_bit 1 (drop_bit k z)"
    using zk by (simp add: crc_bit_def and_1_neq_0 bit_drop_bit_eq del: drop_bit_drop_bit)
  finally show ?case by (simp add: ac_simps)
qed

lemma mask8: "(0xFF :: u32) = mask 8"
  by (simp add: mask_eq_exp_minus_1)

lemma crc32c_step_pow: "crc32c_step s b = (crc_bit ^^ 8) (s XOR ucast b)"
proof -
  let ?x = "s XOR ucast b :: u32" and ?m = "mask 8 :: u32"
  have lt: "unat (?x AND ?m) < 256"
    using word_and_le1 [of ?x ?m] by (simp add: word_le_nat_alt mask_eq_exp_minus_1)
  have hi: "take_bit 8 (?x AND NOT ?m) = 0"
    by (rule bit_word_eqI) (auto simp: bit_simps)
  have d: "drop_bit 8 (?x AND NOT ?m) = drop_bit 8 s"
    by (rule bit_word_eqI) (auto simp: bit_simps dest: bit_imp_le_length)
  have "?x = (?x AND ?m) XOR (?x AND NOT ?m)"
    by (rule bit_word_eqI) (auto simp: bit_simps)
  then have "(crc_bit ^^ 8) ?x = (crc_bit ^^ 8) (?x AND ?m) XOR (crc_bit ^^ 8) (?x AND NOT ?m)"
    by (metis crc_bit_pow_xor)
  also have "(crc_bit ^^ 8) (?x AND NOT ?m) = drop_bit 8 s"
    using crc_bit_pow_low_zero [OF hi] d by simp
  also have "(crc_bit ^^ 8) (?x AND ?m) = build_table ! unat (?x AND ?m)"
    using lt by (simp add: build_table_def)
  finally show ?thesis by (simp add: crc32c_step_def mask8 xor.commute)
qed

lemma crc32c_step_feed: "crc32c_step s b = foldl crc_feed_bit s (word_bits b)"
  by (simp add: crc32c_step_pow feed_word_bits)

lemma foldl_concat: "foldl f s (concat xss) = foldl (foldl f) s xss"
  by (induction xss arbitrary: s) simp_all

lemma foldl_crc32c_step:
  "foldl crc32c_step s data = foldl crc_feed_bit s (concat (map word_bits data))"
  by (induction data arbitrary: s) (simp_all add: crc32c_step_feed)

lemma crc32c_sw_eq_ref: "crc32c_sw data = crc32c_ref data"
  by (simp add: crc32c_sw_def crc32c_ref_def foldl_crc32c_step)

section \<open>The hardware routines compute the same checksum\<close>

lemma map_bit_from_le_bytes:
  "8 * length bs \<le> LENGTH('a) \<Longrightarrow>
     map (bit (from_le_bytes bs :: 'a::len word)) [0..<8 * length bs] = concat (map word_bits bs)"
proof (induction bs)
  case Nil
  then show ?case by simp
next
  case (Cons b bs)
  let ?v = "from_le_bytes bs :: 'a word"
  have len: "8 + 8 * length bs \<le> LENGTH('a)" using Cons.prems by simp
  have "[0..<8 * length (b # bs)] = [0..<8] @ map (\<lambda>i. i + 8) [0..<8 * length bs]"
    using upt_add_eq_append [of 0 8 "8 * length bs"] by (simp add: map_add_upt add.commute)
  moreover have "map (bit (from_le_bytes (b # bs) :: 'a word)) [0..<8] = word_bits b"
    using len by (auto simp: word_bits_def bit_simps)
  moreover have "map (bit (from_le_bytes (b # bs) :: 'a word)) (map (\<lambda>i. i + 8) [0..<8 * length bs])
      = map (bit ?v) [0..<8 * length bs]"
    using len by (auto simp: bit_simps dest: bit_imp_le_length)
  ultimately show ?case using Cons.IH len by simp
qed

lemma word_bits_from_le_bytes:
  "8 * length bs = LENGTH('a) \<Longrightarrow>
     word_bits (from_le_bytes bs :: 'a::len word) = concat (map word_bits bs)"
  using map_bit_from_le_bytes [of bs, where ?'a = 'a] by (simp add: word_bits_def)

abbreviation feed_bytes :: "u32 \<Rightarrow> bytes \<Rightarrow> u32" where
  "feed_bytes s data \<equiv> foldl crc_feed_bit s (concat (map word_bits data))"

lemma crc_insn_from_le_bytes:
  "8 * length bs = LENGTH('a) \<Longrightarrow> crc_insn s (from_le_bytes bs :: 'a::len word) = feed_bytes s bs"
  by (simp add: crc_insn_def word_bits_from_le_bytes)

lemma feed_bytes_append: "feed_bytes s (xs @ ys) = feed_bytes (feed_bytes s xs) ys"
  by simp

lemma feed_bytes_take_drop: "feed_bytes (feed_bytes s (take n xs)) (drop n xs) = feed_bytes s xs"
  by (metis append_take_drop_id feed_bytes_append)

lemma crc_tail_feed: "length rem < 8 \<Longrightarrow> crc_tail (s, rem) = feed_bytes s rem"
proof -
  assume len: "length rem < 8"
  let ?r1 = "crc_tail4 (s, rem)" and ?r2 = "crc_tail2 (crc_tail4 (s, rem))"
  have 1: "feed_bytes (fst ?r1) (snd ?r1) = feed_bytes s rem" and l1: "length (snd ?r1) < 4"
    using len by (auto simp: crc_tail4_def crc_insn_from_le_bytes feed_bytes_take_drop)
  have 2: "feed_bytes (fst ?r2) (snd ?r2) = feed_bytes (fst ?r1) (snd ?r1)" and l2: "length (snd ?r2) < 2"
    using l1 by (auto simp: crc_tail2_def crc_insn_from_le_bytes feed_bytes_take_drop)
  have "crc_tail (s, rem) = feed_bytes (fst ?r2) (snd ?r2)"
    using l2 by (cases "snd ?r2") (auto simp: crc_tail_def crc_insn_def split_beta)
  then show ?thesis using 1 2 by simp
qed

lemma crc_chunks8_feed:
  "crc_chunks8 s data = (c, rem) \<Longrightarrow> length rem < 8 \<and> feed_bytes c rem = feed_bytes s data"
proof (induction s data rule: crc_chunks8.induct)
  case (1 s data)
  show ?case
  proof (cases "length data < 8")
    case True
    with 1 show ?thesis by (auto simp: crc_chunks8.simps [of s data])
  next
    case False
    then have "crc_insn s (from_le_bytes (take 8 data) :: u64) = feed_bytes s (take 8 data)"
      by (simp add: crc_insn_from_le_bytes)
    with 1 False show ?thesis
      by (simp add: crc_chunks8.simps [of s data] feed_bytes_take_drop)
  qed
qed

lemma crc_chunks8_x86_eq: "crc_chunks8_x86 s data = crc_chunks8 s data"
proof (induction s data rule: crc_chunks8_x86.induct)
  case (1 s data)
  have uu: "ucast (ucast x :: u64) = x" for x :: u32
    by (rule bit_word_eqI) (auto simp: bit_simps)
  have "ucast (mm_crc32_u64 (ucast s) v) = crc_insn s v" for v
    by (simp add: mm_crc32_u64_def uu)
  with 1 show ?case
    by (simp add: crc_chunks8.simps [of s data] crc_chunks8_x86.simps [of s data])
qed

lemma crc32c_aarch64_eq_ref: "crc32c_aarch64 data = crc32c_ref data"
proof -
  obtain c rem where c: "crc_chunks8 (NOT 0) data = (c, rem)" by fastforce
  from crc_chunks8_feed [OF c] c show ?thesis
    by (simp add: crc32c_aarch64_def crc32c_ref_def crc_tail_feed)
qed

lemma crc32c_x86_eq_aarch64: "crc32c_x86 data = crc32c_aarch64 data"
  by (simp add: crc32c_x86_def crc32c_aarch64_def crc_chunks8_x86_eq)

section \<open>What the checksum detects\<close>

lemma crc_bit_inj: "crc_bit a = crc_bit b \<longleftrightarrow> a = b"
proof
  assume eq: "crc_bit a = crc_bit b"
  have top: "bit (crc_bit x) 31 = bit x 0" for x
    using bit_imp_le_length [of x 32] by (auto simp: crc_bit_def and_1_neq_0 bit_simps POLY_def)
  have low: "bit (crc_bit x) n = (bit x (Suc n) \<noteq> (bit x 0 \<and> bit POLY n))" if "n < 31" for x n
    using that by (auto simp: crc_bit_def and_1_neq_0 bit_simps)
  have 0: "bit a 0 = bit b 0" using eq top by metis
  show "a = b"
  proof (rule bit_word_eqI)
    fix n assume "n < LENGTH(32)"
    then show "bit a n = bit b n"
      using 0 eq low [of "n - 1" a] low [of "n - 1" b] by (cases n) auto
  qed
qed simp

lemma crc_bit_pow_inj: "(crc_bit ^^ n) a = (crc_bit ^^ n) b \<longleftrightarrow> a = b"
  by (induction n) (simp_all add: crc_bit_inj)

lemma xor_left_cancel: "a XOR b = a XOR c \<longleftrightarrow> b = (c :: 'a::len word)"
proof
  assume "a XOR b = a XOR c"
  then have "a XOR (a XOR b) = a XOR (a XOR c)" by (rule arg_cong)
  then show "b = c" by (simp only: xor.assoc [symmetric] xor_self_eq xor.left_neutral)
qed simp

lemma foldl_step_state_inj: "foldl crc32c_step s data = foldl crc32c_step t data \<longleftrightarrow> s = t"
proof (induction data arbitrary: s t)
  case Nil
  then show ?case by simp
next
  case (Cons b data)
  have "s XOR ucast b = t XOR ucast b \<longleftrightarrow> s = t"
    by (simp only: xor.commute [of _ "ucast b"] xor_left_cancel)
  then have "crc32c_step s b = crc32c_step t b \<longleftrightarrow> s = t"
    by (simp only: crc32c_step_pow crc_bit_pow_inj)
  then show ?case by (simp only: foldl.simps Cons.IH)
qed

lemma foldl_step_window:
  assumes "length xs \<le> 4"
  shows "foldl crc32c_step s xs = (crc_bit ^^ (8 * length xs)) (s XOR from_le_bytes xs)"
proof -
  let ?v = "from_le_bytes xs :: u32"
  have "?v = take_bit (8 * length xs) ?v"
    using assms le_bytes_from_le_bytes [of xs, where ?'a = 32]
      from_le_bytes_le_bytes [of "length xs" ?v] by simp
  then have "drop_bit (8 * length xs) ?v = 0"
    by (metis drop_bit_take_bit diff_self_eq_0 take_bit_0)
  moreover have "map (bit ?v) [0..<8 * length xs] = concat (map word_bits xs)"
    using assms by (intro map_bit_from_le_bytes) simp
  ultimately show ?thesis
    using feed_bits_pow [of s ?v "8 * length xs"] by (simp add: foldl_crc32c_step)
qed

lemma from_le_bytes_u32_inj:
  assumes "length xs = length ys" and "length xs \<le> 4"
  shows "(from_le_bytes xs :: u32) = from_le_bytes ys \<longleftrightarrow> xs = ys"
proof
  assume eq: "(from_le_bytes xs :: u32) = from_le_bytes ys"
  have "xs = le_bytes (length xs) (from_le_bytes xs :: u32)"
    using assms by (intro le_bytes_from_le_bytes [symmetric]) simp
  also have "\<dots> = ys"
    using assms by (simp add: eq le_bytes_from_le_bytes)
  finally show "xs = ys" .
qed simp

lemma crc32c_window_neq:
  assumes "length xs = length ys" and "length xs \<le> 4" and "xs \<noteq> ys"
  shows "crc32c (pre @ xs @ post) \<noteq> crc32c (pre @ ys @ post)"
proof -
  let ?s = "foldl crc32c_step (NOT 0) pre"
  have "?s XOR from_le_bytes xs \<noteq> ?s XOR from_le_bytes ys"
    using assms by (simp add: xor_left_cancel from_le_bytes_u32_inj)
  moreover have "length ys \<le> 4" using assms by simp
  ultimately have "foldl crc32c_step ?s xs \<noteq> foldl crc32c_step ?s ys"
    by (simp only: foldl_step_window [OF assms(2)] foldl_step_window [of ys] assms(1) crc_bit_pow_inj
        not_False_eq_True)
  then show ?thesis
    by (simp add: crc32c_def crc32c_sw_def foldl_step_state_inj)
qed

lemma crc32c_update_neq:
  assumes "i < length data" and "b \<noteq> data ! i"
  shows "crc32c (data[i := b]) \<noteq> crc32c data"
proof -
  have "data = take i data @ [data ! i] @ drop (Suc i) data"
    using assms(1) by (simp add: id_take_nth_drop [symmetric])
  moreover have "data[i := b] = take i data @ [b] @ drop (Suc i) data"
    using assms(1) by (simp add: upd_conv_take_nth_drop)
  ultimately show ?thesis
    using crc32c_window_neq [of "[b]" "[data ! i]" "take i data" "drop (Suc i) data"] assms(2) by auto
qed

text \<open>
  Every checked record of the sources is a block of data followed by its checksum. One
  corrupted byte, in the data or in the checksum, never passes the check.
\<close>

definition crc_block :: "bytes \<Rightarrow> bytes" where
  "crc_block data = data @ to_le_bytes (crc32c data)"

lemma length_crc_block [simp]: "length (crc_block data) = length data + 4"
  by (simp add: crc_block_def)

lemma crc_block_corrupt:
  assumes "i < length data + 4" and b: "b \<noteq> crc_block data ! i"
  shows "crc32c (take (length data) ((crc_block data)[i := b]))
           \<noteq> from_le_bytes (drop (length data) ((crc_block data)[i := b]))"
proof (cases "i < length data")
  case True
  then have "b \<noteq> data ! i" using b by (simp add: crc_block_def nth_append)
  with True show ?thesis
    using crc32c_update_neq [of i data b] by (simp add: crc_block_def list_update_append)
next
  case False
  let ?c = "to_le_bytes (crc32c data)"
  have "b \<noteq> ?c ! (i - length data)" "i - length data < length ?c"
    using False assms by (simp_all add: crc_block_def nth_append)
  then have "?c[i - length data := b] \<noteq> ?c" by (metis nth_list_update_eq)
  then have "from_le_bytes (?c[i - length data := b]) \<noteq> crc32c data"
    using to_from_le_bytes(3) [of "?c[i - length data := b]"] by auto
  with False show ?thesis by (simp add: crc_block_def list_update_append)
qed

section \<open>Properties\<close>

text \<open>
  C22. Whatever the target and whether the CRC instructions were detected, \<open>crc32c\<close> returns
  the bit-serial reference checksum: a hardware node and a software node agree on every
  frame, for data of every length.
\<close>

theorem crc32c_dispatch_eq_ref: "crc32c_dispatch target detected data = crc32c_ref data"
  by (cases target)
    (simp_all add: crc32c_dispatch_def crc32c_sw_eq_ref crc32c_aarch64_eq_ref crc32c_x86_eq_aarch64)

text \<open>
  A corruption confined to four consecutive bytes (any burst of up to 25 bits, in
  particular every single flipped bit) always changes the checksum, wherever it lies and
  whatever surrounds it.
\<close>

theorem crc32c_detects_window:
  assumes "length xs = length ys" and "length xs \<le> 4" and "xs \<noteq> ys"
  shows "crc32c (pre @ xs @ post) \<noteq> crc32c (pre @ ys @ post)"
  using assms by (rule crc32c_window_neq)

theorem crc32c_detects_window_witness:
  "crc32c ([1, 2] @ [3, 4] @ [5]) \<noteq> crc32c ([1, 2] @ [3, 5] @ [5])"
  by (rule crc32c_detects_window) simp_all

text \<open>The check value of the unit test, by evaluation.\<close>

lemma funpow8: "(f ^^ 8) x = f (f (f (f (f (f (f (f x)))))))"
  by (simp add: eval_nat_numeral)

lemma crc32c_known_vector: "crc32c (map (of_nat \<circ> of_char) ''123456789'') = 0xE3069283"
  by (simp add: crc32c_def crc32c_sw_def crc32c_step_pow crc_bit_def POLY_def funpow8)

end
