(* ===== verification/Frame.thy ===== *)
theory Frame
  imports Codec Crc32c
begin

text \<open>
  \<open>ticktape-core/src/frame.rs\<close> and \<open>seq.rs\<close>: the record that the journal stores and the
  transport carries. A header of 24 bytes and its checksum, the payload and its checksum.
  The lemmas show that reading inverts writing, that the only bytes a frame is read from
  are its own encoding, and that a torn or corrupted frame is always an error.
\<close>

section \<open>Sequence numbers, kinds, errors\<close>

type_synonym seq = u64
type_synonym timestamp = u64

definition GENESIS :: seq where
  "GENESIS = 0"

text \<open>\<open>Seq::next\<close>: the addition wraps in a release build.\<close>

definition seq_next :: "seq \<Rightarrow> seq" where
  "seq_next s = s + 1"

definition FRAME_HEADER_LEN :: nat where
  "FRAME_HEADER_LEN = 28"

definition MAX_PAYLOAD_LEN :: u32 where
  "MAX_PAYLOAD_LEN = 64 * 1024 * 1024"

datatype frame_kind =
    Input | Output | Tick | TimerFired | SessionOpen | SessionClose
  | SnapshotMark | EpochChange | Heartbeat

fun kind_as_u16 :: "frame_kind \<Rightarrow> u16" where
  "kind_as_u16 Input = 0x0001"
| "kind_as_u16 Output = 0x0002"
| "kind_as_u16 Tick = 0x0010"
| "kind_as_u16 TimerFired = 0x0013"
| "kind_as_u16 SessionOpen = 0x0011"
| "kind_as_u16 SessionClose = 0x0012"
| "kind_as_u16 SnapshotMark = 0x0020"
| "kind_as_u16 EpochChange = 0x0030"
| "kind_as_u16 Heartbeat = 0x00FF"

definition kind_from_u16 :: "u16 \<Rightarrow> frame_kind option" where
  "kind_from_u16 v =
     (if v = 0x0001 then Some Input
      else if v = 0x0002 then Some Output
      else if v = 0x0010 then Some Tick
      else if v = 0x0013 then Some TimerFired
      else if v = 0x0011 then Some SessionOpen
      else if v = 0x0012 then Some SessionClose
      else if v = 0x0020 then Some SnapshotMark
      else if v = 0x0030 then Some EpochChange
      else if v = 0x00FF then Some Heartbeat
      else None)"

datatype frame_error =
    Truncated
  | HeaderCrc
  | PayloadCrc
  | UnknownKind u16
  | PayloadTooLarge u32

record frame =
  f_seq :: seq
  f_timestamp :: timestamp
  f_stream_id :: u16
  f_kind :: frame_kind
  f_payload :: bytes

text \<open>\<open>Frame::new\<close> panics on an oversized payload: \<open>None\<close>.\<close>

definition frame_new :: "seq \<Rightarrow> timestamp \<Rightarrow> u16 \<Rightarrow> frame_kind \<Rightarrow> bytes \<Rightarrow> frame option" where
  "frame_new s ts sid k payload =
     (if length payload \<le> unat MAX_PAYLOAD_LEN
      then Some \<lparr>f_seq = s, f_timestamp = ts, f_stream_id = sid, f_kind = k, f_payload = payload\<rparr>
      else None)"

section \<open>Writing and reading\<close>

definition frame_encoded_len :: "frame \<Rightarrow> nat" where
  "frame_encoded_len f = FRAME_HEADER_LEN + length (f_payload f) + 4"

definition frame_header :: "frame \<Rightarrow> bytes" where
  "frame_header f =
     to_le_bytes (f_seq f) @ to_le_bytes (f_timestamp f) @ to_le_bytes (f_stream_id f)
       @ to_le_bytes (kind_as_u16 (f_kind f)) @ to_le_bytes (of_nat (length (f_payload f)) :: u32)"

text \<open>The bytes \<open>write_to\<close> appends to its output, and \<open>to_bytes\<close>.\<close>

definition frame_write :: "frame \<Rightarrow> bytes" where
  "frame_write f =
     frame_header f @ to_le_bytes (crc32c (frame_header f))
       @ f_payload f @ to_le_bytes (crc32c (f_payload f))"

definition frame_read :: "bytes \<Rightarrow> (frame \<times> bytes, frame_error) result" where
  "frame_read buf =
     (if length buf < FRAME_HEADER_LEN then Err Truncated
      else
        let header = take 24 buf;
            stored_header_crc = from_le_bytes (slice 24 28 buf)
        in if crc32c header \<noteq> stored_header_crc then Err HeaderCrc
        else
          let s = from_le_bytes (slice 0 8 header);
              ts = from_le_bytes (slice 8 16 header);
              sid = from_le_bytes (slice 16 18 header);
              kind_raw = from_le_bytes (slice 18 20 header);
              payload_len = from_le_bytes (slice 20 24 header) :: u32
          in if payload_len > MAX_PAYLOAD_LEN then Err (PayloadTooLarge payload_len)
          else (case kind_from_u16 kind_raw of
              None \<Rightarrow> Err (UnknownKind kind_raw)
            | Some k \<Rightarrow>
                let total = FRAME_HEADER_LEN + unat payload_len + 4
                in if length buf < total then Err Truncated
                else
                  let payload = slice FRAME_HEADER_LEN (FRAME_HEADER_LEN + unat payload_len) buf;
                      stored_payload_crc = from_le_bytes (slice (total - 4) total buf)
                  in if crc32c payload \<noteq> stored_payload_crc then Err PayloadCrc
                  else Ok (\<lparr>f_seq = s, f_timestamp = ts, f_stream_id = sid, f_kind = k,
                            f_payload = payload\<rparr>, drop total buf)))"

text \<open>What \<open>Frame::new\<close> guarantees of every frame.\<close>

definition frame_valid :: "frame \<Rightarrow> bool" where
  "frame_valid f \<longleftrightarrow> length (f_payload f) \<le> unat MAX_PAYLOAD_LEN"

section \<open>Layout\<close>

lemma kind_roundtrip [simp]: "kind_from_u16 (kind_as_u16 k) = Some k"
  by (cases k) (simp_all add: kind_from_u16_def)

lemma kind_from_u16_Some: "kind_from_u16 v = Some k \<Longrightarrow> v = kind_as_u16 k"
  by (auto simp: kind_from_u16_def split: if_splits)

lemma unat_MAX [simp]: "unat MAX_PAYLOAD_LEN = 67108864"
  by (simp add: MAX_PAYLOAD_LEN_def)

lemma length_frame_header [simp]: "length (frame_header f) = 24"
  by (simp add: frame_header_def)

lemma length_frame_write [simp]: "length (frame_write f) = length (f_payload f) + 32"
  by (simp add: frame_write_def)

lemma frame_encoded_len_correct: "frame_encoded_len f = length (frame_write f)"
  by (simp add: frame_encoded_len_def FRAME_HEADER_LEN_def)

lemma frame_header_slices:
  "slice 0 8 (frame_header f) = to_le_bytes (f_seq f)"
  "slice 8 16 (frame_header f) = to_le_bytes (f_timestamp f)"
  "slice 16 18 (frame_header f) = to_le_bytes (f_stream_id f)"
  "slice 18 20 (frame_header f) = to_le_bytes (kind_as_u16 (f_kind f))"
  "slice 20 24 (frame_header f) = to_le_bytes (of_nat (length (f_payload f)) :: u32)"
  by (simp_all add: frame_header_def slice_def)

lemma payload_len_u32:
  "frame_valid f \<Longrightarrow> unat (of_nat (length (f_payload f)) :: u32) = length (f_payload f)"
  by (simp add: frame_valid_def unat_of_nat_small)

lemma payload_len_ok: "frame_valid f \<Longrightarrow> \<not> (of_nat (length (f_payload f)) :: u32) > MAX_PAYLOAD_LEN"
  by (simp add: word_less_nat_alt payload_len_u32) (simp add: frame_valid_def)

text \<open>
  The reading of a buffer whose first 28 bytes are those of the encoding of \<open>f\<close>: only the
  length and the payload checksum remain to be checked.
\<close>

lemma frame_read_header:
  assumes "frame_valid f" and len: "28 \<le> length buf"
    and hdr: "take 28 buf = crc_block (frame_header f)"
  shows "frame_read buf =
     (let n = length (f_payload f) in
      if length buf < n + 32 then Err Truncated
      else if crc32c (slice 28 (28 + n) buf) \<noteq> from_le_bytes (slice (28 + n) (32 + n) buf) then Err PayloadCrc
      else Ok (f\<lparr>f_payload := slice 28 (28 + n) buf\<rparr>, drop (n + 32) buf))"
proof -
  have "take 24 buf = take 24 (take 28 buf)" by simp
  then have h: "take 24 buf = frame_header f" by (simp add: hdr crc_block_def)
  have "slice 24 28 buf = drop 24 (take 28 buf)" by (simp add: slice_def drop_take)
  then have c: "slice 24 28 buf = to_le_bytes (crc32c (frame_header f))" by (simp add: hdr crc_block_def)
  show ?thesis
    unfolding frame_read_def FRAME_HEADER_LEN_def h c Let_def
    using len payload_len_ok [OF assms(1)]
    by (simp add: frame_header_slices payload_len_u32 [OF assms(1)] add.commute)
qed

lemma frame_read_write:
  assumes "frame_valid f"
  shows "frame_read (frame_write f @ rest) = Ok (f, rest)"
proof -
  have t: "take 28 (frame_write f @ rest) = crc_block (frame_header f)"
    by (simp add: frame_write_def crc_block_def)
  have p: "slice 28 (28 + length (f_payload f)) (frame_write f @ rest) = f_payload f"
    and c: "slice (28 + length (f_payload f)) (32 + length (f_payload f)) (frame_write f @ rest)
              = to_le_bytes (crc32c (f_payload f))"
    by (simp_all add: frame_write_def slice_def)
  show ?thesis
    using frame_read_header [OF assms _ t] unfolding p c Let_def by simp
qed

lemma take_by_slices:
  "24 \<le> length buf \<Longrightarrow>
     take 24 buf = slice 0 8 (take 24 buf) @ slice 8 16 (take 24 buf) @ slice 16 18 (take 24 buf)
       @ slice 18 20 (take 24 buf) @ slice 20 24 (take 24 buf)"
  by (simp add: slice_split slice_all)

lemma frame_read_canonical:
  assumes "frame_read buf = Ok (f, rest)"
  shows "frame_valid f \<and> buf = frame_write f @ rest"
proof -
  let ?h = "take 24 buf"
  define n where "n = unat (from_le_bytes (slice 20 24 ?h) :: u32)"
  from assms have len28: "28 \<le> length buf"
    and hcrc: "crc32c ?h = from_le_bytes (slice 24 28 buf)"
    and nmax: "n \<le> 67108864"
    and len: "n + 32 \<le> length buf"
    and k: "from_le_bytes (slice 18 20 ?h) = kind_as_u16 (f_kind f)"
    and pcrc: "crc32c (slice 28 (28 + n) buf) = from_le_bytes (slice (28 + n) (32 + n) buf)"
    and f: "f_seq f = from_le_bytes (slice 0 8 ?h)" "f_timestamp f = from_le_bytes (slice 8 16 ?h)"
       "f_stream_id f = from_le_bytes (slice 16 18 ?h)" "f_payload f = slice 28 (28 + n) buf"
    and rest: "rest = drop (n + 32) buf"
    by (auto simp: frame_read_def Let_def FRAME_HEADER_LEN_def n_def word_less_nat_alt add.commute
        dest: kind_from_u16_Some split: if_splits option.splits)
  have plen: "length (f_payload f) = n" using len f(4) by simp
  have "of_nat (length (f_payload f)) = (from_le_bytes (slice 20 24 ?h) :: u32)"
    by (simp add: plen n_def)
  then have h: "frame_header f = ?h"
    using take_by_slices [of buf] len28
    by (simp add: frame_header_def f(1-3) k [symmetric] to_from_le_bytes)
  have hc: "to_le_bytes (crc32c ?h) = slice 24 28 buf"
    using len28 by (simp add: hcrc to_from_le_bytes)
  have pc: "to_le_bytes (crc32c (f_payload f)) = slice (28 + n) (32 + n) buf"
    using len by (simp add: f(4) pcrc to_from_le_bytes)
  have "frame_write f @ rest = ?h @ slice 24 28 buf @ slice 28 (28 + n) buf
      @ slice (28 + n) (32 + n) buf @ drop (n + 32) buf"
    by (simp add: frame_write_def h hc pc f(4) [symmetric] rest)
  also have "\<dots> = buf"
  proof -
    have "?h = slice 0 24 buf" by (simp add: slice_def)
    then have "?h @ slice 24 28 buf @ slice 28 (28 + n) buf @ slice (28 + n) (32 + n) buf
        = slice 0 (32 + n) buf"
      by (simp add: slice_split)
    then have "(?h @ slice 24 28 buf @ slice 28 (28 + n) buf @ slice (28 + n) (32 + n) buf)
        @ drop (n + 32) buf = take (n + 32) buf @ drop (n + 32) buf"
      by (simp only: slice_def drop_0 diff_zero add.commute)
    then show ?thesis by (simp only: append_assoc append_take_drop_id)
  qed
  finally show ?thesis using nmax plen by (simp add: frame_valid_def)
qed

interpretation framec: codec frame_write
  "\<lambda>buf. map_err (\<lambda>_. UnexpectedEof) (frame_read buf)" frame_encoded_len frame_valid
  by unfold_locales (auto simp: frame_read_write frame_encoded_len_correct dest: frame_read_canonical)

section \<open>Torn and corrupted frames\<close>

lemma frame_write_blocks: "frame_write f = crc_block (frame_header f) @ crc_block (f_payload f)"
  by (simp add: frame_write_def crc_block_def)

lemma frame_read_torn:
  assumes "frame_valid f" and "n < length (frame_write f)"
  shows "frame_read (take n (frame_write f)) = Err Truncated"
proof (cases "n < 28")
  case True
  then show ?thesis by (simp add: frame_read_def FRAME_HEADER_LEN_def)
next
  case False
  then have "take 28 (take n (frame_write f)) = crc_block (frame_header f)"
    by (simp add: frame_write_blocks)
  with frame_read_header [OF assms(1), of "take n (frame_write f)"] False assms(2) show ?thesis
    by simp
qed

text \<open>A byte of the 28-byte header is changed: the header checksum does not match.\<close>

lemma frame_read_header_corrupt:
  assumes "28 \<le> length buf" and i: "i < 28" and b: "b \<noteq> crc_block (frame_header f) ! i"
    and hdr: "take 28 buf = (crc_block (frame_header f))[i := b]"
  shows "frame_read buf = Err HeaderCrc"
proof -
  have "take 24 buf = take 24 (take 28 buf)" by simp
  moreover have "slice 24 28 buf = drop 24 (take 28 buf)" by (simp add: slice_def drop_take)
  ultimately have "crc32c (take 24 buf) \<noteq> from_le_bytes (slice 24 28 buf)"
    using crc_block_corrupt [of i "frame_header f" b] i b by (simp add: hdr)
  then show ?thesis
    using assms(1) by (simp add: frame_read_def FRAME_HEADER_LEN_def Let_def)
qed

lemma frame_read_payload_corrupt:
  assumes "frame_valid f" and i: "i < length (f_payload f) + 4"
    and b: "b \<noteq> crc_block (f_payload f) ! i"
  shows "frame_read (crc_block (frame_header f) @ (crc_block (f_payload f))[i := b] @ rest) = Err PayloadCrc"
proof -
  let ?n = "length (f_payload f)" and ?blk = "(crc_block (f_payload f))[i := b]"
  let ?buf = "crc_block (frame_header f) @ ?blk @ rest"
  have "take 28 ?buf = crc_block (frame_header f)" by simp
  moreover have "slice 28 (28 + ?n) ?buf = take ?n ?blk" "slice (28 + ?n) (32 + ?n) ?buf = drop ?n ?blk"
    by (simp_all add: slice_def)
  ultimately show ?thesis
    using frame_read_header [OF assms(1), of ?buf] crc_block_corrupt [OF i b] by (simp add: Let_def)
qed

lemma frame_read_corrupt:
  assumes "frame_valid f" and i: "i < length (frame_write f)" and b: "b \<noteq> frame_write f ! i"
  shows "frame_read ((frame_write f)[i := b] @ rest) = Err (if i < 28 then HeaderCrc else PayloadCrc)"
proof (cases "i < 28")
  case True
  with i b show ?thesis
    by (simp add: frame_write_blocks list_update_append nth_append frame_read_header_corrupt)
next
  case False
  with i b frame_read_payload_corrupt [OF assms(1), of "i - 28" b rest] show ?thesis
    by (simp add: frame_write_blocks list_update_append nth_append)
qed

text \<open>
  What a power loss can leave of a frame: a prefix of its bytes with at most one byte
  changed. Only the untouched complete encoding is read as a frame.
\<close>

lemma frame_read_torn_corrupt:
  assumes "frame_valid f" and n: "n \<le> length (frame_write f)" and i: "i < n" and b: "b \<noteq> frame_write f ! i"
  shows "\<exists>e. frame_read ((take n (frame_write f))[i := b]) = Err e"
proof -
  consider "n < 28" | "28 \<le> n" "i < 28" | "n < length (frame_write f)" "28 \<le> i" | "n = length (frame_write f)"
    using n i by linarith
  then show ?thesis
  proof cases
    case 1
    then show ?thesis by (simp add: frame_read_def FRAME_HEADER_LEN_def)
  next
    case 2
    then have "take 28 ((take n (frame_write f))[i := b]) = (crc_block (frame_header f))[i := b]"
      by (simp add: frame_write_blocks take_update_swap)
    then have "frame_read ((take n (frame_write f))[i := b]) = Err HeaderCrc"
      using 2 n b by (intro frame_read_header_corrupt [of _ i b f]) (simp_all add: frame_write_blocks nth_append)
    then show ?thesis by blast
  next
    case 3
    then have "take 28 ((take n (frame_write f))[i := b]) = crc_block (frame_header f)"
      using i by (simp add: frame_write_blocks)
    with frame_read_header [OF assms(1), of "(take n (frame_write f))[i := b]"] 3 i show ?thesis
      by simp
  next
    case 4
    with frame_read_corrupt [OF assms(1), of i b "[]"] i b show ?thesis by simp
  qed
qed

section \<open>Properties\<close>

text \<open>
  C24. Reading a frame inverts writing it, leaves the cursor right after it, and consumes
  exactly \<open>encoded_len\<close> bytes, whatever follows on the wire or in the segment.
\<close>

theorem frame_roundtrip:
  assumes "frame_new s ts sid k payload = Some f"
  shows "frame_read (frame_write f @ rest) = Ok (f, rest) \<and>
         length (frame_write f) = frame_encoded_len f"
  using assms
  by (auto simp: frame_new_def frame_valid_def frame_encoded_len_correct frame_read_write split: if_splits)

theorem frame_roundtrip_witness:
  "frame_read (frame_write \<lparr>f_seq = 42, f_timestamp = 9, f_stream_id = 7, f_kind = Input,
      f_payload = [104, 105]\<rparr> @ [0]) =
   Ok (\<lparr>f_seq = 42, f_timestamp = 9, f_stream_id = 7, f_kind = Input, f_payload = [104, 105]\<rparr>, [0])"
proof -
  have "frame_new 42 9 7 Input [104, 105] =
      Some \<lparr>f_seq = 42, f_timestamp = 9, f_stream_id = 7, f_kind = Input, f_payload = [104, 105]\<rparr>"
    by (simp add: frame_new_def)
  from frame_roundtrip [OF this] show ?thesis by blast
qed

text \<open>
  A buffer is read as a frame only if it starts with that frame's own encoding: two
  different byte strings never decode to the same frame, and a frame that was only partly
  written is reported as truncated wherever the tear lies.
\<close>

theorem frame_read_only_encodings:
  assumes "frame_valid f"
  shows "(frame_read buf = Ok (f, rest) \<longleftrightarrow> buf = frame_write f @ rest) \<and>
    (n < length (frame_write f) \<longrightarrow> frame_read (take n (frame_write f)) = Err Truncated)"
  using assms by (auto simp: frame_read_write frame_read_torn dest: frame_read_canonical)

theorem frame_read_only_encodings_witness:
  "frame_read (take 30 (frame_write \<lparr>f_seq = 1, f_timestamp = 5, f_stream_id = 0, f_kind = Tick,
      f_payload = []\<rparr>)) = Err Truncated"
  using frame_read_only_encodings [of "\<lparr>f_seq = 1, f_timestamp = 5, f_stream_id = 0, f_kind = Tick,
      f_payload = []\<rparr>" "[]" "[]" 30]
  by (simp add: frame_valid_def)

text \<open>
  C23. Every corruption of one byte of a stored frame (bit rot, a torn sector) is detected,
  in the header by the header checksum and in the payload by the payload checksum; it
  is never decoded as some other frame.
\<close>

theorem frame_corruption_detected:
  assumes "frame_valid f" and "i < length (frame_write f)" and "b \<noteq> frame_write f ! i"
  shows "frame_read ((frame_write f)[i := b] @ rest) = Err (if i < 28 then HeaderCrc else PayloadCrc)"
  using assms by (rule frame_read_corrupt)

theorem frame_corruption_detected_witness:
  "frame_read ((frame_write \<lparr>f_seq = 1, f_timestamp = 5, f_stream_id = 0, f_kind = Tick,
      f_payload = [7]\<rparr>)[28 := 8] @ [1, 2]) = Err PayloadCrc"
proof -
  let ?f = "\<lparr>f_seq = 1, f_timestamp = 5, f_stream_id = 0, f_kind = Tick, f_payload = [7]\<rparr>"
  have "8 \<noteq> frame_write ?f ! 28" by (simp add: frame_write_def nth_append)
  with frame_corruption_detected [of ?f 28 8 "[1, 2]"] show ?thesis
    by (simp add: frame_valid_def)
qed

end
