(* ===== verification/Journal_Safety.thy ===== *)
theory Journal_Safety
  imports Journal
begin

text \<open>
  The correctness of the journal. A layout is a list of contiguous segments; \<open>jinv\<close> says that
  the disk holds exactly such a layout and that the writer stands at its end. Every
  operation keeps it, a power loss leaves a layout with a torn tail, and opening such a
  disk returns a prefix of the history that covers everything synced. The proofs use only
  the laws of the storage; the properties are those of the simulated disk.
\<close>

section \<open>Headers\<close>

lemma length_segment_header [simp]: "length (segment_header_bytes first ep) = 28"
  by (simp add: segment_header_bytes_def Let_def SEGMENT_MAGIC_def FORMAT_VERSION_def)

lemma segment_header_slices:
  "take 4 (segment_header_bytes first ep @ rest) = SEGMENT_MAGIC"
  "slice 4 8 (segment_header_bytes first ep @ rest) = to_le_bytes FORMAT_VERSION"
  "slice 8 16 (segment_header_bytes first ep @ rest) = to_le_bytes first"
  "slice 16 24 (segment_header_bytes first ep @ rest) = to_le_bytes ep"
  "slice 24 28 (segment_header_bytes first ep @ rest) =
     to_le_bytes (crc32c (take 24 (segment_header_bytes first ep @ rest)))"
  by (simp_all add: segment_header_bytes_def Let_def SEGMENT_MAGIC_def slice_def)

lemma parse_segment_header_bytes:
  "parse_segment_header p (segment_header_bytes first ep @ rest) = Ok (first, ep)"
  unfolding parse_segment_header_def segment_header_slices
  by (simp add: SEGMENT_HEADER_LEN_def)

section \<open>Contiguous frames\<close>

definition frames_bytes :: "frame list \<Rightarrow> bytes" where
  "frames_bytes fs = concat (map frame_write fs)"

fun contiguous_from :: "seq \<Rightarrow> frame list \<Rightarrow> bool" where
  "contiguous_from s [] = True"
| "contiguous_from s (f # fs) = (f_seq f = s \<and> frame_valid f \<and> contiguous_from (s + 1) fs)"

lemma frames_bytes_simps [simp]:
  "frames_bytes [] = []"
  "frames_bytes (f # fs) = frame_write f @ frames_bytes fs"
  "frames_bytes (fs @ gs) = frames_bytes fs @ frames_bytes gs"
  by (simp_all add: frames_bytes_def)

lemma contiguous_append [simp]:
  "contiguous_from s (fs @ gs) \<longleftrightarrow> contiguous_from s fs \<and> contiguous_from (s + of_nat (length fs)) gs"
  by (induction fs arbitrary: s) (auto simp: add.assoc)

lemma contiguous_take: "contiguous_from s fs \<Longrightarrow> contiguous_from s (take n fs)"
  by (metis append_take_drop_id contiguous_append)

lemma contiguous_valid: "contiguous_from s fs \<Longrightarrow> f \<in> set fs \<Longrightarrow> frame_valid f"
  by (induction fs arbitrary: s) auto

lemma contiguous_nth: "contiguous_from s fs \<Longrightarrow> i < length fs \<Longrightarrow> f_seq (fs ! i) = s + of_nat i"
proof (induction fs arbitrary: s i)
  case (Cons f fs)
  then show ?case by (cases i) auto
qed simp

text \<open>A tail is torn when no frame can be read at its start.\<close>

definition torn :: "bytes \<Rightarrow> bool" where
  "torn t \<longleftrightarrow> t = [] \<or> (\<exists>e. frame_read t = Err e)"

lemma scan_frames_contiguous:
  assumes "contiguous_from s fs" and "torn tail" and "tail = [] \<or> is_last"
  shows "scan_frames is_last p tot (frames_bytes fs @ tail) s =
     Ok (fs, s + of_nat (length fs), if tail = [] then None else Some (tot - length tail))"
  using assms(1)
proof (induction fs arbitrary: s)
  case Nil
  with assms(2,3) show ?case by (auto simp: scan_frames.simps [of _ _ _ tail] torn_def)
next
  case (Cons f fs)
  have ne: "frame_write f @ frames_bytes fs @ tail \<noteq> []"
    by (simp flip: length_greater_0_conv)
  have "scan_frames is_last p tot (frames_bytes fs @ tail) (s + 1) =
      Ok (fs, s + 1 + of_nat (length fs), if tail = [] then None else Some (tot - length tail))"
    using Cons by simp
  then show ?case
    using Cons.prems ne
    by (simp add: scan_frames.simps [of _ _ _ "frame_write f @ _"] frame_read_write seq_next_def add.assoc)
qed

text \<open>What a power loss can leave of a byte string: a prefix with at most one byte changed.\<close>

definition damaged :: "bytes \<Rightarrow> bytes \<Rightarrow> bool" where
  "damaged bs x \<longleftrightarrow> (\<exists>m \<le> length bs. x = take m bs \<or> (\<exists>i b. i < m \<and> x = (take m bs)[i := b]))"

lemma damaged_Nil: "damaged bs []"
  unfolding damaged_def by (intro exI [of _ 0]) simp

lemma damaged_frame_torn:
  assumes "frame_valid f" and "damaged (frame_write f) x" and "x \<noteq> frame_write f"
  shows "torn x"
proof -
  from assms(2) obtain m where m: "m \<le> length (frame_write f)"
    and x: "x = take m (frame_write f) \<or> (\<exists>i b. i < m \<and> x = (take m (frame_write f))[i := b])"
    unfolding damaged_def by blast
  show ?thesis
  proof (cases "x = take m (frame_write f)")
    case True
    with assms(3) m have "m < length (frame_write f)" by (cases "m = length (frame_write f)") auto
    with True frame_read_torn [OF assms(1)] show ?thesis by (auto simp: torn_def)
  next
    case False
    with x obtain i b where ib: "i < m" "x = (take m (frame_write f))[i := b]" by blast
    have "b \<noteq> frame_write f ! i"
    proof
      assume "b = frame_write f ! i"
      then have "x = take m (frame_write f)" using ib by (simp add: take_update_swap [symmetric])
      with False show False by simp
    qed
    with frame_read_torn_corrupt [OF assms(1) m ib(1)] ib(2) show ?thesis by (simp add: torn_def)
  qed
qed

lemma damaged_append:
  assumes "damaged (w @ bs) x"
  shows "damaged w x \<or> (\<exists>y. x = w @ y \<and> damaged bs y) \<or>
     (\<exists>i b rest. i < length w \<and> b \<noteq> w ! i \<and> x = w[i := b] @ rest)"
proof -
  from assms obtain m where m: "m \<le> length w + length bs"
    and x: "x = take m (w @ bs) \<or> (\<exists>i b. i < m \<and> x = (take m (w @ bs))[i := b])"
    by (auto simp: damaged_def)
  show ?thesis
  proof (cases "m \<le> length w")
    case True
    with x have "damaged w x" by (auto simp: damaged_def)
    then show ?thesis ..
  next
    case False
    then have t: "take m (w @ bs) = w @ take (m - length w) bs" by simp
    have plain: "damaged bs (take (m - length w) bs)"
      using m False by (auto simp: damaged_def intro!: exI [of _ "m - length w"])
    from x consider "x = take m (w @ bs)" | i b where "i < m" "x = (take m (w @ bs))[i := b]" by blast
    then show ?thesis
    proof cases
      case 1
      with t plain show ?thesis by auto
    next
      case 2
      show ?thesis
      proof (cases "i < length w")
        case True
        then have "x = w[i := b] @ take (m - length w) bs" using 2 t by (simp add: list_update_append)
        with True plain show ?thesis by (cases "b = w ! i") auto
      next
        case ge: False
        then have "x = w @ (take (m - length w) bs)[i - length w := b]"
          using 2 t by (simp add: list_update_append)
        moreover have "damaged bs ((take (m - length w) bs)[i - length w := b])"
          unfolding damaged_def using m False ge 2(1) 
          by (intro exI [of _ "m - length w"] conjI disjI2 exI [of _ "i - length w"] exI [of _ b]) auto
        ultimately show ?thesis by blast
      qed
    qed
  qed
qed

lemma damaged_frames:
  assumes "\<forall>f \<in> set fs. frame_valid f" and "damaged (frames_bytes fs) x"
  shows "\<exists>n t. n \<le> length fs \<and> x = frames_bytes (take n fs) @ t \<and> torn t"
  using assms
proof (induction fs arbitrary: x)
  case Nil
  then show ?case by (simp add: torn_def damaged_def)
next
  case (Cons f fs)
  have v: "frame_valid f" using Cons.prems(1) by simp
  have whole: ?case if "torn x"
    using that by (intro exI [of _ 0]) simp
  have split: "damaged (frame_write f) x \<or> (\<exists>y. x = frame_write f @ y \<and> damaged (frames_bytes fs) y) \<or>
     (\<exists>i b rest. i < length (frame_write f) \<and> b \<noteq> frame_write f ! i \<and> x = (frame_write f)[i := b] @ rest)"
    using Cons.prems(2) by (intro damaged_append) simp
  have "x = frame_write f \<Longrightarrow> x = frame_write f @ [] \<and> damaged (frames_bytes fs) []"
    by (simp add: damaged_Nil)
  with split consider "damaged (frame_write f) x" "x \<noteq> frame_write f"
    | y where "x = frame_write f @ y" "damaged (frames_bytes fs) y"
    | i b rest where "i < length (frame_write f)" "b \<noteq> frame_write f ! i" "x = (frame_write f)[i := b] @ rest"
    by blast
  then show ?case
  proof cases
    case 1
    with damaged_frame_torn [OF v] show ?thesis by (intro whole)
  next
    case 2
    have "\<exists>n t. n \<le> length fs \<and> y = frames_bytes (take n fs) @ t \<and> torn t"
      using Cons.prems(1) by (intro Cons.IH [OF _ 2(2)]) simp
    then obtain n t where "n \<le> length fs" "y = frames_bytes (take n fs) @ t" "torn t" by blast
    with 2(1) show ?thesis by (intro exI [of _ "Suc n"] exI [of _ t]) simp
  next
    case 3
    with frame_read_corrupt [OF v 3(1,2)] show ?thesis by (intro whole) (auto simp: torn_def)
  qed
qed

lemma survives_damaged: "survives st (st @ bs) bs' \<Longrightarrow> \<exists>x. bs' = st @ x \<and> damaged bs x"
proof -
  assume "survives st (st @ bs) bs'"
  then obtain n where n: "length st \<le> n" "n \<le> length st + length bs"
    and b: "bs' = take n (st @ bs) \<or> (\<exists>i b. length st \<le> i \<and> i < n \<and> bs' = (take n (st @ bs))[i := b])"
    unfolding survives_def length_append by blast
  have t: "take n (st @ bs) = st @ take (n - length st) bs" using n by simp
  from b show ?thesis
  proof (elim disjE exE conjE)
    assume "bs' = take n (st @ bs)"
    with t n show ?thesis by (auto simp: damaged_def intro!: exI [of _ "n - length st"])
  next
    fix i b assume i: "length st \<le> i" "i < n" "bs' = (take n (st @ bs))[i := b]"
    then have "bs' = st @ (take (n - length st) bs)[i - length st := b]" using t by (simp add: list_update_append)
    moreover have "damaged bs ((take (n - length st) bs)[i - length st := b])"
      unfolding damaged_def using n i
      by (intro exI [of _ "n - length st"] conjI disjI2 exI [of _ "i - length st"] exI [of _ b]) auto
    ultimately show ?thesis by blast
  qed
qed

section \<open>Layouts\<close>

record segment =
  sg_first :: seq
  sg_epoch :: u64
  sg_frames :: "frame list"

definition sg_header :: "segment \<Rightarrow> bytes" where
  "sg_header g = segment_header_bytes (sg_first g) (sg_epoch g)"

definition sg_bytes :: "segment \<Rightarrow> bytes" where
  "sg_bytes g = sg_header g @ frames_bytes (sg_frames g)"

definition sg_path :: "string \<Rightarrow> segment \<Rightarrow> path" where
  "sg_path dir g = seg_path dir (sg_first g)"

definition layout_frames :: "segment list \<Rightarrow> frame list" where
  "layout_frames gs = concat (map sg_frames gs)"

fun chained :: "seq \<Rightarrow> segment list \<Rightarrow> bool" where
  "chained s [] = True"
| "chained s (g # gs) =
     (sg_first g = s \<and> contiguous_from s (sg_frames g) \<and> chained (s + of_nat (length (sg_frames g))) gs)"

text \<open>
  A layout from \<open>s\<close>: contiguous, only the last segment may be empty, and the sequence number
  after its last frame does not overflow.
\<close>

definition wf_layout :: "seq \<Rightarrow> segment list \<Rightarrow> bool" where
  "wf_layout s gs \<longleftrightarrow> chained s gs \<and> (\<forall>g \<in> set (butlast gs). sg_frames g \<noteq> []) \<and>
     0 < s \<and> unat s + length (layout_frames gs) < 2 ^ 64"

lemma layout_frames_simps [simp]:
  "layout_frames [] = []"
  "layout_frames (g # gs) = sg_frames g @ layout_frames gs"
  "layout_frames (gs @ hs) = layout_frames gs @ layout_frames hs"
  by (simp_all add: layout_frames_def)

lemma chained_append [simp]:
  "chained s (gs @ hs) \<longleftrightarrow> chained s gs \<and> chained (s + of_nat (length (layout_frames gs))) hs"
  by (induction gs arbitrary: s) (auto simp: add.assoc)

lemma chained_contiguous: "chained s gs \<Longrightarrow> contiguous_from s (layout_frames gs)"
  by (induction gs arbitrary: s) auto

lemma unat_plus_of_nat:
  fixes s :: u64
  assumes "unat s + n < 2 ^ 64"
  shows "unat (s + of_nat n) = unat s + n"
  using assms by (simp add: unat_word_ariths unat_of_nat_small)

lemma chained_firsts_ge:
  "chained s gs \<Longrightarrow> unat s + length (layout_frames gs) < 2 ^ 64 \<Longrightarrow> g \<in> set gs \<Longrightarrow> unat s \<le> unat (sg_first g)"
proof (induction gs arbitrary: s)
  case (Cons h gs)
  have u: "unat (s + of_nat (length (sg_frames h))) = unat s + length (sg_frames h)"
    using Cons.prems by (intro unat_plus_of_nat) simp
  then have "unat (s + of_nat (length (sg_frames h))) + length (layout_frames gs) < 2 ^ 64"
    using Cons.prems(2) by simp
  with Cons u show ?case by (cases "g = h") fastforce+
qed simp

lemma firsts_ascending:
  "chained s gs \<Longrightarrow> \<forall>g \<in> set (butlast gs). sg_frames g \<noteq> [] \<Longrightarrow>
     unat s + length (layout_frames gs) < 2 ^ 64 \<Longrightarrow> sorted_wrt (<) (map sg_first gs)"
proof (induction gs arbitrary: s)
  case (Cons h gs)
  let ?t = "s + of_nat (length (sg_frames h))"
  have u: "unat ?t = unat s + length (sg_frames h)"
    using Cons.prems by (intro unat_plus_of_nat) simp
  then have b: "unat ?t + length (layout_frames gs) < 2 ^ 64"
    using Cons.prems(3) by simp
  have "sg_first h < sg_first g" if "g \<in> set gs" for g
  proof -
    have "unat ?t \<le> unat (sg_first g)" using Cons.prems(1) that b by (intro chained_firsts_ge) auto
    moreover have "sg_frames h \<noteq> []" using Cons.prems(2) that by (cases gs) auto
    ultimately show ?thesis using u Cons.prems(1)
      by (auto simp: word_less_nat_alt simp flip: length_greater_0_conv)
  qed
  moreover have "\<forall>g \<in> set (butlast gs). sg_frames g \<noteq> []"
    using Cons.prems(2) by (cases gs) auto
  ultimately show ?case using Cons.IH [of ?t] Cons.prems(1) b by auto
qed simp

lemma paths_ascending:
  "sorted_wrt (<) (map sg_first gs) \<Longrightarrow> sorted_wrt (<) (map (sg_path dir) gs)"
  by (simp add: sorted_wrt_map sg_path_def seg_path_less_iff)

lemma sort_paths:
  assumes "sorted_wrt (<) (map sg_first gs)" and "distinct ps" and "set ps = sg_path dir ` set gs"
  shows "sort ps = map (sg_path dir) gs"
proof -
  have "sorted (map (sg_path dir) gs)" "distinct (map (sg_path dir) gs)"
    using paths_ascending [OF assms(1), of dir] by (simp_all add: strict_sorted_iff)
  with assms(2,3) show ?thesis
    by (intro sorted_distinct_set_unique) auto
qed

lemma wf_layout_ascending: "wf_layout s gs \<Longrightarrow> sorted_wrt (<) (map sg_first gs)"
  by (intro firsts_ascending) (auto simp: wf_layout_def)

lemmas sort_layout_paths = sort_paths [OF wf_layout_ascending]

lemma wf_layout_last_fresh:
  assumes "wf_layout s gs" and "\<forall>g \<in> set gs. sg_frames g \<noteq> []"
  shows "s + of_nat (length (layout_frames gs)) \<notin> sg_first ` set gs"
proof -
  let ?t = "s + of_nat (length (layout_frames gs))"
  have "sorted_wrt (<) (map sg_first (gs @ [\<lparr>sg_first = ?t, sg_epoch = 0, sg_frames = []\<rparr>]))"
    using assms by (intro firsts_ascending) (auto simp: wf_layout_def)
  then show ?thesis by (auto simp: sorted_wrt_append)
qed

section \<open>Opening a disk\<close>

text \<open>The state of the scan after the frames \<open>fs\<close>.\<close>

definition scan_after :: "frame list \<Rightarrow> seq \<Rightarrow> bool \<Rightarrow> u64 \<Rightarrow> scan_state" where
  "scan_after fs next tr ep = \<lparr>sc_frames = fs, sc_first = (if fs = [] then None else Some (f_seq (hd fs))),
     sc_expected = next, sc_truncated = tr, sc_epoch = ep\<rparr>"

lemma scan_init_after: "scan_init = scan_after [] 1 False 0"
  by (simp add: scan_init_def scan_after_def seq_next_def GENESIS_def)

lemma length_sg_header [simp]: "length (sg_header g) = 28"
  by (simp add: sg_header_def)

lemma length_sg_bytes [simp]: "length (sg_bytes g) = 28 + length (frames_bytes (sg_frames g))"
  by (simp add: sg_bytes_def)

context storage_laws
begin

definition seg_files :: "string \<Rightarrow> 'd \<Rightarrow> path set" where
  "seg_files dir d = {p. fst p = dir \<and> extension p = Some ''seg'' \<and> content d p \<noteq> None}"

definition sealed_on :: "string \<Rightarrow> 'd \<Rightarrow> segment \<Rightarrow> bool" where
  "sealed_on dir d g \<longleftrightarrow>
     content d (sg_path dir g) = Some (sg_bytes g) \<and> stable d (sg_path dir g) = Some (sg_bytes g)"

text \<open>
  The disk holds the sealed segments \<open>gs\<close> and the active segment \<open>act\<close>, of whose frames the
  first \<open>k\<close> are stable, followed by the torn tail \<open>t\<close> that a power loss may leave.
\<close>

definition on_disk :: "string \<Rightarrow> segment list \<Rightarrow> segment \<Rightarrow> nat \<Rightarrow> bytes \<Rightarrow> 'd \<Rightarrow> bool" where
  "on_disk dir gs act k t d \<longleftrightarrow> ok d \<and> seg_files dir d = sg_path dir ` set (gs @ [act]) \<and>
     (\<forall>g \<in> set gs. sealed_on dir d g) \<and>
     content d (sg_path dir act) = Some (sg_bytes act @ t) \<and>
     (t = [] \<longrightarrow> stable d (sg_path dir act) = Some (sg_header act @ frames_bytes (take k (sg_frames act))))"

text \<open>Files that are not segments of the journal are left alone.\<close>

definition untouched :: "string \<Rightarrow> 'd \<Rightarrow> 'd \<Rightarrow> bool" where
  "untouched dir d d' \<longleftrightarrow> (\<forall>p. \<not> (fst p = dir \<and> extension p = Some ''seg'') \<longrightarrow>
     content d' p = content d p \<and> stable d' p = stable d p)"

lemma untouched_refl [simp]: "untouched dir d d"
  by (simp add: untouched_def)

lemma untouched_trans: "untouched dir d d' \<Longrightarrow> untouched dir d' d'' \<Longrightarrow> untouched dir d d''"
  by (simp add: untouched_def)

lemma list_segments_files:
  "ok d \<Longrightarrow> \<exists>ps. list_segments S dir d = Ok ps \<and> distinct ps \<and> set ps = seg_files dir d"
  using list_dir [of d dir] by (auto simp: list_segments_def seg_files_def)

lemma scan_segment_after:
  assumes "ok d" and "content d (sg_path dir g) = Some (sg_bytes g @ t)"
    and "contiguous_from (sg_first g) (sg_frames g)" and "torn t" and "t = [] \<or> is_last"
    and "fst_seg \<or> next = sg_first g"
  shows "\<exists>d'. scan_segment S fst_seg is_last (sg_path dir g) (scan_after fs next tr ep) d =
      (Ok (scan_after (fs @ sg_frames g) (sg_first g + of_nat (length (sg_frames g))) (tr \<or> t \<noteq> []) (sg_epoch g)), d') \<and>
      ok d' \<and> (if t = [] then d' = d else
        content d' = (content d)(sg_path dir g \<mapsto> sg_bytes g) \<and> stable d' = (stable d)(sg_path dir g \<mapsto> sg_bytes g))"
proof -
  let ?bs = "sg_bytes g @ t"
  have hdr: "parse_segment_header (sg_path dir g) ?bs = Ok (sg_first g, sg_epoch g)"
    by (simp add: sg_bytes_def sg_header_def parse_segment_header_bytes)
  have body: "drop SEGMENT_HEADER_LEN ?bs = frames_bytes (sg_frames g) @ t"
    by (simp add: sg_bytes_def SEGMENT_HEADER_LEN_def)
  have "take (length ?bs - length t) ?bs = sg_bytes g" by simp
  then obtain d' where tr: "st_truncate S (sg_path dir g) (length ?bs - length t) d = (Ok (), d')" "ok d'"
      "content d' = (content d)(sg_path dir g \<mapsto> sg_bytes g)" "stable d' = (stable d)(sg_path dir g \<mapsto> sg_bytes g)"
    using truncate [OF assms(1,2), of "length ?bs - length t"] by auto
  note scan = scan_frames_contiguous [OF assms(3,4,5), of "sg_path dir g" "length ?bs"]
  have mem: "(case sc_first (scan_after fs next tr ep) of
        None \<Rightarrow> map_option f_seq (if sg_frames g = [] then None else Some (hd (sg_frames g))) | s \<Rightarrow> s) =
      sc_first (scan_after (fs @ sg_frames g) n' tr' ep')" for n' tr' ep'
    by (simp add: scan_after_def)
  show ?thesis
  proof (cases "t = []")
    case True
    then show ?thesis
      using assms(1,6) hdr body scan read [OF assms(1)] assms(2)
      by (simp add: scan_segment_def Let_def) (auto simp: scan_after_def)
  next
    case False
    then show ?thesis
      using assms(1,6) hdr body scan read [OF assms(1)] assms(2) tr
      by (intro exI [of _ d']) (simp add: scan_segment_def Let_def, auto simp: scan_after_def)
  qed
qed

lemma scan_segments_after:
  assumes "ok d" and "\<forall>g \<in> set gs. content d (sg_path dir g) = Some (sg_bytes g)"
    and "content d (sg_path dir act) = Some (sg_bytes act @ t)" and "torn t"
    and "chained s (gs @ [act])" and "fst_seg \<or> next = s"
  shows "\<exists>d'. scan_segments S fst_seg (map (sg_path dir) (gs @ [act])) (scan_after fs next False ep) d =
      (Ok (scan_after (fs @ layout_frames (gs @ [act])) (s + of_nat (length (layout_frames (gs @ [act]))))
         (t \<noteq> []) (sg_epoch act)), d') \<and>
      ok d' \<and> (if t = [] then d' = d else
        content d' = (content d)(sg_path dir act \<mapsto> sg_bytes act) \<and>
        stable d' = (stable d)(sg_path dir act \<mapsto> sg_bytes act))"
  using assms(2,5,6)
proof (induction gs arbitrary: s fst_seg "next" fs ep)
  case Nil
  then show ?case
    using scan_segment_after [OF assms(1,3) _ assms(4), of True fst_seg "next" fs False ep] by fastforce
next
  case (Cons g gs)
  have "content d (sg_path dir g) = Some (sg_bytes g @ [])" using Cons.prems(1) by simp
  then have step: "scan_segment S fst_seg False (sg_path dir g) (scan_after fs next False ep) d =
      (Ok (scan_after (fs @ sg_frames g) (s + of_nat (length (sg_frames g))) False (sg_epoch g)), d)"
    using scan_segment_after [OF assms(1), of dir g "[]" False fst_seg "next" fs False ep] Cons.prems
    by (auto simp: torn_def)
  show ?case
    using Cons.IH [of "s + of_nat (length (sg_frames g))" False _ "fs @ sg_frames g" "sg_epoch g"] Cons.prems
    by (simp add: step add.assoc)
qed

text \<open>The writer stands at the end of the active segment.\<close>

definition at_tail :: "segment \<Rightarrow> 'f journal \<Rightarrow> 'd \<Rightarrow> bool" where
  "at_tail act j d \<longleftrightarrow> (\<exists>seg. j_current j = Some seg \<and> os_size seg = length (sg_bytes act) \<and>
     live (os_file seg) d = Some (sg_path (jc_dir (j_config j)) act))"

definition jinv :: "seq \<Rightarrow> segment list \<Rightarrow> segment \<Rightarrow> nat \<Rightarrow> 'f journal \<Rightarrow> 'd \<Rightarrow> bool" where
  "jinv s gs act k j d \<longleftrightarrow> on_disk (jc_dir (j_config j)) gs act k [] d \<and> wf_layout s (gs @ [act]) \<and>
     k \<le> length (sg_frames act) \<and> at_tail act j d \<and>
     seq_next (j_last_seq j) = s + of_nat (length (layout_frames (gs @ [act]))) \<and>
     (j_dirty j \<or> k = length (sg_frames act))"

lemma untouched_upd:
  assumes "content d' = (content d)(seg_path dir s := x)" and "stable d' = (stable d)(seg_path dir s := y)"
  shows "untouched dir d d'"
  unfolding untouched_def
proof (intro allI impI)
  fix p assume "\<not> (fst p = dir \<and> extension p = Some ''seg'')"
  then have "p \<noteq> seg_path dir s" by (metis seg_path_parts(1,2))
  with assms show "content d' p = content d p \<and> stable d' p = stable d p" by simp
qed

lemma on_disk_truncated:
  assumes "on_disk dir gs act k t d" and "sg_path dir act \<notin> sg_path dir ` set gs" and "ok d'"
    and "content d' = (content d)(sg_path dir act \<mapsto> sg_bytes act)"
    and "stable d' = (stable d)(sg_path dir act \<mapsto> sg_bytes act)"
  shows "on_disk dir gs act (length (sg_frames act)) [] d' \<and> untouched dir d d'"
proof -
  have "seg_files dir d' = seg_files dir d"
    using assms(1,4) by (auto simp: seg_files_def on_disk_def)
  moreover have "\<forall>g \<in> set gs. sealed_on dir d' g"
    using assms by (auto simp: on_disk_def sealed_on_def image_iff)
  moreover have "untouched dir d d'"
    using assms(4,5) unfolding sg_path_def by (rule untouched_upd)
  ultimately show ?thesis
    using assms by (simp add: on_disk_def) (simp add: sg_bytes_def)
qed

lemma wf_layout_active_fresh:
  assumes "wf_layout s (gs @ [act])"
  shows "sg_path dir act \<notin> sg_path dir ` set gs"
proof -
  from wf_layout_ascending [OF assms] show ?thesis by (auto simp: sorted_wrt_append sg_path_def)
qed

lemma wf_layout_next:
  assumes "wf_layout s gs"
  shows "saturating_pred (s + of_nat (length (layout_frames gs))) + 1 = s + of_nat (length (layout_frames gs))"
proof -
  have "unat (s + of_nat (length (layout_frames gs))) = unat s + length (layout_frames gs)"
    using assms by (intro unat_plus_of_nat) (simp add: wf_layout_def)
  moreover have "0 < unat s" using assms by (simp add: wf_layout_def word_less_nat_alt)
  ultimately have "s + of_nat (length (layout_frames gs)) \<noteq> 0" by (metis add_is_0 less_irrefl unat_0)
  then show ?thesis by (simp add: saturating_pred_def)
qed

lemma open_inner_on_disk:
  assumes disk: "on_disk (jc_dir cfg) gs act k t d" and wf: "wf_layout s (gs @ [act])" and "torn t"
  shows "\<exists>j meta d'. open_inner S now cfg d = (Ok (j, meta, layout_frames (gs @ [act])), d') \<and>
     on_disk (jc_dir cfg) gs act (if t = [] then k else length (sg_frames act)) [] d' \<and> at_tail act j d' \<and>
     seq_next (j_last_seq j) = s + of_nat (length (layout_frames (gs @ [act]))) \<and> untouched (jc_dir cfg) d d' \<and> \<not> j_dirty j \<and>
     j_config j = cfg \<and> rm_truncated_torn_tail meta = (t \<noteq> []) \<and> rm_last_seq meta = j_last_seq j \<and>
     rm_first_seq meta = s"
proof -
  let ?dir = "jc_dir cfg" and ?fs = "layout_frames (gs @ [act])"
  have okd: "ok d" using disk by (simp add: on_disk_def)
  obtain d1 where d1: "st_create_dir_all S ?dir d = (Ok (), d1)" "ok d1"
      "content d1 = content d" "stable d1 = stable d"
    using create_dir [OF okd] by metis
  have disk1: "on_disk ?dir gs act k t d1"
    using disk d1 by (simp add: on_disk_def sealed_on_def seg_files_def)
  obtain ps where ps: "list_segments S ?dir d1 = Ok ps" "distinct ps" "set ps = seg_files ?dir d1"
    using list_segments_files [OF d1(2)] by blast
  have sorted: "sort ps = map (sg_path ?dir) (gs @ [act])"
    using sort_layout_paths [OF wf ps(2)] ps(3) disk1 by (simp add: on_disk_def)
  have "chained s (gs @ [act])" using wf by (simp add: wf_layout_def)
  then obtain d2 where scan: "scan_segments S True (sort ps) scan_init d1 =
      (Ok (scan_after ?fs (s + of_nat (length ?fs)) (t \<noteq> []) (sg_epoch act)), d2)" and okd2: "ok d2"
    and d2: "if t = [] then d2 = d1 else content d2 = (content d1)(sg_path ?dir act \<mapsto> sg_bytes act) \<and>
        stable d2 = (stable d1)(sg_path ?dir act \<mapsto> sg_bytes act)"
    using scan_segments_after [OF d1(2), of gs ?dir act t s True 1 "[]" 0] disk1 assms(3)
    unfolding sorted scan_init_after by (auto simp: on_disk_def sealed_on_def)
  have disk2: "on_disk ?dir gs act (if t = [] then k else length (sg_frames act)) [] d2 \<and> untouched ?dir d1 d2"
    using d2 disk1 on_disk_truncated [OF disk1 wf_layout_active_fresh [OF wf] okd2]
    by (cases "t = []") auto
  then have c2: "content d2 (sg_path ?dir act) = Some (sg_bytes act)" by (simp add: on_disk_def)
  then obtain f where f: "st_open_append S (sg_path ?dir act) d2 = Ok f" "live f d2 = Some (sg_path ?dir act)"
    using open_append [OF okd2] by fastforce
  have tail: "open_tail S (sort ps) (length ?fs) d2 =
      Ok (Some \<lparr>os_file = f, os_size = length (sg_bytes act), os_frames = length ?fs\<rparr>)"
    using f len [OF okd2 f(2) c2] by (simp add: sorted open_tail_def)
  have "untouched ?dir d d1" using d1 by (simp add: untouched_def)
  with disk2 have "untouched ?dir d d2" by (blast intro: untouched_trans)
  moreover have "?fs \<noteq> [] \<Longrightarrow> f_seq (hd ?fs) = s"
    using chained_contiguous [OF \<open>chained s (gs @ [act])\<close>] by (cases ?fs) (auto simp del: layout_frames_simps)
  moreover have "saturating_pred s + 1 = s" using wf by (auto simp: wf_layout_def saturating_pred_def)
  ultimately show ?thesis
    using d1(1) ps(1) scan tail disk2 wf f(2) wf_layout_next [OF wf]
    by (simp add: open_inner_def at_tail_def scan_after_def Let_def seq_next_def del: layout_frames_simps)
qed

lemma open_inner_layout:
  assumes disk: "on_disk (jc_dir cfg) gs act k t d" and wf: "wf_layout s (gs @ [act])" and "torn t"
    and "t \<noteq> [] \<or> k = length (sg_frames act)"
  shows "\<exists>j meta d'. open_inner S now cfg d = (Ok (j, meta, layout_frames (gs @ [act])), d') \<and>
     jinv s gs act (length (sg_frames act)) j d' \<and> untouched (jc_dir cfg) d d' \<and> \<not> j_dirty j \<and>
     j_config j = cfg \<and> rm_truncated_torn_tail meta = (t \<noteq> []) \<and> rm_last_seq meta = j_last_seq j \<and>
     rm_first_seq meta = s"
  using open_inner_on_disk [OF assms(1-3), of now] wf assms(4) unfolding jinv_def by fastforce

lemma open_inner_empty:
  assumes "ok d" and "seg_files (jc_dir cfg) d = {}"
  shows "\<exists>d'. open_inner S now cfg d =
      (Ok (\<lparr>j_config = cfg, j_current = None, j_last_seq = 0, j_epoch = 0, j_last_sync = now, j_dirty = False\<rparr>,
          \<lparr>rm_first_seq = 1, rm_last_seq = 0, rm_truncated_torn_tail = False\<rparr>, []), d') \<and>
    ok d' \<and> content d' = content d \<and> stable d' = stable d"
proof -
  obtain d1 where d1: "st_create_dir_all S (jc_dir cfg) d = (Ok (), d1)" "ok d1"
      "content d1 = content d" "stable d1 = stable d"
    using create_dir [OF assms(1)] by metis
  moreover have "seg_files (jc_dir cfg) d1 = {}" using assms(2) d1(3) by (simp add: seg_files_def)
  then have "list_segments S (jc_dir cfg) d1 = Ok []"
    using list_segments_files [OF d1(2), of "jc_dir cfg"] by auto
  ultimately show ?thesis
    by (simp add: open_inner_def open_tail_def scan_init_def Let_def seq_next_def GENESIS_def saturating_pred_def)
qed

section \<open>Syncing, rolling, appending\<close>

lemma jio_Ok [simp]: "jio j (Ok x, d) = (Ok x, j, d)"
  by (simp add: jio_def)

lemma sync_jinv:
  assumes "jinv s gs act k j d"
  shows "\<exists>d'. journal_sync S now j d = (Ok (), j\<lparr>j_dirty := False, j_last_sync := now\<rparr>, d') \<and>
    jinv s gs act (length (sg_frames act)) (j\<lparr>j_dirty := False, j_last_sync := now\<rparr>) d' \<and>
    untouched (jc_dir (j_config j)) d d'"
proof -
  let ?dir = "jc_dir (j_config j)"
  have okd: "ok d" using assms by (simp add: jinv_def on_disk_def)
  obtain seg where seg: "j_current j = Some seg" "os_size seg = length (sg_bytes act)"
      "live (os_file seg) d = Some (sg_path ?dir act)"
    using assms by (auto simp: jinv_def at_tail_def)
  show ?thesis
  proof (cases "j_dirty j")
    case False
    then have "j\<lparr>j_dirty := False, j_last_sync := now\<rparr> = j\<lparr>j_last_sync := now\<rparr>" by simp
    with False seg assms show ?thesis by (auto simp: journal_sync_def jinv_def at_tail_def)
  next
    case True
    obtain d' where d': "st_sync_data S (os_file seg) d = (Ok (), d')" "ok d'" "content d' = content d"
        "stable d' = (stable d)(sg_path ?dir act := content d (sg_path ?dir act))" "\<forall>g. live g d' = live g d"
      using sync_data [OF okd seg(3)] by blast
    have unt: "untouched ?dir d d'"
      using d'(3,4) by (intro untouched_upd [of _ _ _ "sg_first act" "content d (sg_path ?dir act)"]) (auto simp: sg_path_def)
    have fresh: "sg_path ?dir act \<notin> sg_path ?dir ` set gs"
      using assms by (intro wf_layout_active_fresh [of s]) (simp add: jinv_def)
    have "on_disk ?dir gs act (length (sg_frames act)) [] d'"
      using assms d' fresh by (auto simp: jinv_def on_disk_def seg_files_def sealed_on_def sg_bytes_def image_iff)
    then show ?thesis
      using True seg assms d'(1,5) unt by (simp add: journal_sync_def jinv_def at_tail_def)
  qed
qed

lemma start_segment_disk:
  assumes "ok d" and fresh: "content d (seg_path (jc_dir (j_config j)) first) = None"
  shows "\<exists>f d'. start_segment S first j d =
      (Ok (), j\<lparr>j_current := Some \<lparr>os_file = f, os_size = SEGMENT_HEADER_LEN, os_frames = 0\<rparr>\<rparr>, d') \<and>
    ok d' \<and> live f d' = Some (seg_path (jc_dir (j_config j)) first) \<and>
    content d' = (content d)(seg_path (jc_dir (j_config j)) first \<mapsto> segment_header_bytes first (j_epoch j)) \<and>
    stable d' = (stable d)(seg_path (jc_dir (j_config j)) first \<mapsto> segment_header_bytes first (j_epoch j))"
proof -
  let ?dir = "jc_dir (j_config j)"
  let ?p = "seg_path ?dir first" and ?h = "segment_header_bytes first (j_epoch j)"
  obtain f d1 where d1: "st_create_new S ?p d = (Ok f, d1)" "ok d1" "live f d1 = Some ?p"
      "content d1 = (content d)(?p \<mapsto> [])" "stable d1 = (stable d)(?p \<mapsto> [])"
    using create_new_fresh [OF assms] by metis
  obtain d2 where d2: "st_write_all S f ?h d1 = (Ok (), d2)" "ok d2"
      "content d2 = (content d1)(?p \<mapsto> ?h)" "stable d2 = stable d1" "\<forall>g. live g d2 = live g d1"
    using write_all [OF d1(2,3), of "[]" ?h] d1(4) by auto
  obtain d3 where d3: "st_sync_data S f d2 = (Ok (), d3)" "ok d3" "content d3 = content d2"
      "stable d3 = (stable d2)(?p := content d2 ?p)" "\<forall>g. live g d3 = live g d2"
    using sync_data [OF d2(2), of f ?p] d1(3) d2(5) by auto
  obtain d4 where d4: "st_sync_dir S ?dir d3 = (Ok (), d4)" "ok d4" "content d4 = content d3"
      "stable d4 = stable d3" "\<forall>g. live g d4 = live g d3"
    using sync_dir [OF d3(2)] by metis
  show ?thesis
    using d1 d2 d3 d4 by (intro exI [of _ f] exI [of _ d4]) (auto simp: start_segment_def)
qed

lemma start_segment_jinv:
  assumes "ok d" and files: "seg_files (jc_dir (j_config j)) d = sg_path (jc_dir (j_config j)) ` set gs"
    and sealed: "\<forall>g \<in> set gs. sealed_on (jc_dir (j_config j)) d g \<and> sg_frames g \<noteq> []" and wf: "wf_layout s gs"
    and first: "first = s + of_nat (length (layout_frames gs))" and "seq_next (j_last_seq j) = first"
  shows "\<exists>j' d'. start_segment S first j d = (Ok (), j', d') \<and>
    jinv s gs \<lparr>sg_first = first, sg_epoch = j_epoch j, sg_frames = []\<rparr> 0 j' d' \<and>
    j_config j' = j_config j \<and> untouched (jc_dir (j_config j)) d d'"
proof -
  let ?dir = "jc_dir (j_config j)" and ?act = "\<lparr>sg_first = first, sg_epoch = j_epoch j, sg_frames = []\<rparr>"
  let ?p = "seg_path ?dir first" and ?h = "segment_header_bytes first (j_epoch j)"
  have fresh: "?p \<notin> sg_path ?dir ` set gs"
    using wf_layout_last_fresh [OF wf] sealed first by (auto simp: sg_path_def)
  then have "content d ?p = None" using files by (auto simp: seg_files_def)
  with start_segment_disk [OF assms(1)] obtain f d4 where
    st: "start_segment S first j d =
      (Ok (), j\<lparr>j_current := Some \<lparr>os_file = f, os_size = SEGMENT_HEADER_LEN, os_frames = 0\<rparr>\<rparr>, d4)"
    and ok4: "ok d4" and lv: "live f d4 = Some ?p"
    and c4: "content d4 = (content d)(?p \<mapsto> ?h)" and s4: "stable d4 = (stable d)(?p \<mapsto> ?h)" by blast
  have "seg_files ?dir d4 = insert ?p (seg_files ?dir d)" by (auto simp: seg_files_def c4)
  then have disk: "on_disk ?dir gs ?act 0 [] d4"
    using ok4 files sealed fresh c4 s4
    by (auto simp: on_disk_def sg_path_def sealed_on_def sg_bytes_def sg_header_def image_iff)
  have "wf_layout s (gs @ [?act])"
    using wf sealed by (simp add: wf_layout_def first)
  moreover have "untouched ?dir d d4" by (rule untouched_upd [OF c4 s4])
  ultimately show ?thesis
    using st lv disk assms(6) first
    by (simp add: jinv_def at_tail_def sg_path_def SEGMENT_HEADER_LEN_def)
qed

lemma maybe_sync_jinv:
  assumes "jinv s gs act k j d"
  shows "\<exists>j' d' k'. maybe_sync S now j d = (Ok (), j', d') \<and> jinv s gs act k' j' d' \<and> k \<le> k' \<and>
    j_config j' = j_config j \<and> untouched (jc_dir (j_config j)) d d'"
proof -
  have le: "k \<le> length (sg_frames act)" using assms by (simp add: jinv_def)
  from sync_jinv [OF assms, of now]
  have synced: "\<exists>j' d' k'. journal_sync S now j d = (Ok (), j', d') \<and> jinv s gs act k' j' d' \<and> k \<le> k' \<and>
      j_config j' = j_config j \<and> untouched (jc_dir (j_config j)) d d'"
    using le by fastforce
  with assms show ?thesis
    by (auto simp: maybe_sync_def split: fsync_policy.split)
qed

lemma write_encoded_jinv:
  assumes inv: "jinv s gs act k j d" and cont: "contiguous_from (seq_next (j_last_seq j)) fs" and ne: "fs \<noteq> []"
    and bound: "unat (seq_next (j_last_seq j)) + length fs < 2 ^ 64"
  shows "\<exists>j' d' k'. write_encoded S now (frames_bytes fs) n (f_seq (last fs)) j d = (Ok (), j', d') \<and>
    jinv s gs (act\<lparr>sg_frames := sg_frames act @ fs\<rparr>) k' j' d' \<and> k \<le> k' \<and>
    j_config j' = j_config j \<and> untouched (jc_dir (j_config j)) d d'"
proof -
  let ?dir = "jc_dir (j_config j)" and ?act = "act\<lparr>sg_frames := sg_frames act @ fs\<rparr>"
  have p: "sg_path ?dir ?act = sg_path ?dir act" by (simp add: sg_path_def)
  have okd: "ok d" and wf: "wf_layout s (gs @ [act])" using inv by (simp_all add: jinv_def on_disk_def)
  have nxt: "seq_next (j_last_seq j) = s + of_nat (length (layout_frames (gs @ [act])))"
    using inv by (simp add: jinv_def)
  obtain seg where seg: "j_current j = Some seg" "os_size seg = length (sg_bytes act)"
      "live (os_file seg) d = Some (sg_path ?dir act)"
    using inv by (auto simp: jinv_def at_tail_def)
  obtain d1 where d1: "st_write_all S (os_file seg) (frames_bytes fs) d = (Ok (), d1)" "ok d1"
      "content d1 = (content d)(sg_path ?dir act \<mapsto> sg_bytes act @ frames_bytes fs)"
      "stable d1 = stable d" "\<forall>g. live g d1 = live g d"
  proof -
    have "content d (sg_path ?dir act) = Some (sg_bytes act)" using inv by (simp add: jinv_def on_disk_def)
    from write_all [OF okd seg(3) this] that show ?thesis by blast
  qed
  have fresh: "sg_path ?dir act \<notin> sg_path ?dir ` set gs" by (rule wf_layout_active_fresh [OF wf])
  have disk: "on_disk ?dir gs ?act k [] d1"
    using inv d1 fresh unfolding jinv_def on_disk_def
    by (auto simp: p seg_files_def sealed_on_def sg_bytes_def sg_header_def image_iff)
  have "unat (s + of_nat (length (layout_frames (gs @ [act])))) = unat s + length (layout_frames (gs @ [act]))"
    using wf by (intro unat_plus_of_nat) (simp add: wf_layout_def)
  then have wf': "wf_layout s (gs @ [?act])"
    using wf cont bound nxt by (simp add: wf_layout_def add.assoc)
  have "f_seq (last fs) = seq_next (j_last_seq j) + of_nat (length fs - 1)"
    using contiguous_nth [OF cont] ne by (simp add: last_conv_nth)
  then have lst: "seq_next (f_seq (last fs)) = s + of_nat (length (layout_frames (gs @ [?act])))"
    using ne nxt by (simp add: seq_next_def of_nat_diff Suc_le_eq)
  let ?j = "j\<lparr>j_current := Some (seg\<lparr>os_size := os_size seg + length (frames_bytes fs), os_frames := os_frames seg + n\<rparr>),
      j_last_seq := f_seq (last fs), j_dirty := True\<rparr>"
  have "jinv s gs ?act k ?j d1"
    using disk wf' lst inv seg d1(5) by (simp add: jinv_def at_tail_def p)
  from maybe_sync_jinv [OF this, of now] obtain j' d' k' where
    m: "maybe_sync S now ?j d1 = (Ok (), j', d')" "jinv s gs ?act k' j' d'" "k \<le> k'"
      "j_config j' = j_config j" "untouched ?dir d1 d'" by auto
  have "untouched ?dir d d1"
    using d1(3,4) by (intro untouched_upd [of _ _ _ "sg_first act" _ "stable d (sg_path ?dir act)"]) (auto simp: sg_path_def)
  with m(5) have "untouched ?dir d d'" by (blast intro: untouched_trans)
  moreover have "write_encoded S now (frames_bytes fs) n (f_seq (last fs)) j d = (Ok (), j', d')"
    using m(1) d1(1) seg(1) by (simp add: write_encoded_def Let_def)
  ultimately show ?thesis using m(2-4) by blast
qed

text \<open>A journal that has no segment yet.\<close>

definition jempty :: "'f journal \<Rightarrow> 'd \<Rightarrow> bool" where
  "jempty j d \<longleftrightarrow> ok d \<and> seg_files (jc_dir (j_config j)) d = {} \<and> j_current j = None \<and>
     j_last_seq j = 0 \<and> \<not> j_dirty j"

lemma sync_jempty: "jempty j d \<Longrightarrow>
    journal_sync S now j d = (Ok (), j\<lparr>j_last_sync := now\<rparr>, d) \<and> jempty (j\<lparr>j_last_sync := now\<rparr>) d"
  by (simp add: jempty_def journal_sync_def)

lemma check_contiguous_None: "contiguous_from s fs \<Longrightarrow> check_contiguous s fs = None"
  by (induction fs arbitrary: s) (auto simp: seq_next_def)

lemma roll_jinv:
  assumes inv: "jinv s gs act k j d" and ne: "sg_frames act \<noteq> []"
  shows "\<exists>j' d'. roll_segment S now (seq_next (j_last_seq j)) j d = (Ok (), j', d') \<and>
    jinv s (gs @ [act]) \<lparr>sg_first = seq_next (j_last_seq j), sg_epoch = j_epoch j, sg_frames = []\<rparr> 0 j' d' \<and>
    seq_next (j_last_seq j') = seq_next (j_last_seq j) \<and>
    j_config j' = j_config j \<and> untouched (jc_dir (j_config j)) d d'"
proof -
  let ?j = "j\<lparr>j_dirty := False, j_last_sync := now\<rparr>" and ?dir = "jc_dir (j_config j)"
  from sync_jinv [OF inv, of now] obtain d1 where
    d1: "journal_sync S now j d = (Ok (), ?j, d1)" "jinv s gs act (length (sg_frames act)) ?j d1" "untouched ?dir d d1"
    by blast
  then have disk: "on_disk ?dir gs act (length (sg_frames act)) [] d1" and wf: "wf_layout s (gs @ [act])"
    and nxt: "seq_next (j_last_seq j) = s + of_nat (length (layout_frames (gs @ [act])))"
    by (simp_all add: jinv_def)
  then have "\<forall>g \<in> set (gs @ [act]). sealed_on ?dir d1 g \<and> sg_frames g \<noteq> []"
    using ne by (auto simp: on_disk_def sealed_on_def sg_bytes_def wf_layout_def)
  then have "\<exists>j' d'. start_segment S (seq_next (j_last_seq j)) ?j d1 = (Ok (), j', d') \<and>
      jinv s (gs @ [act]) \<lparr>sg_first = seq_next (j_last_seq j), sg_epoch = j_epoch ?j, sg_frames = []\<rparr> 0 j' d' \<and>
      j_config j' = j_config ?j \<and> untouched (jc_dir (j_config ?j)) d1 d'"
    using disk wf nxt by (intro start_segment_jinv) (simp_all add: on_disk_def)
  then obtain j' d' where j': "start_segment S (seq_next (j_last_seq j)) ?j d1 = (Ok (), j', d')"
      "jinv s (gs @ [act]) \<lparr>sg_first = seq_next (j_last_seq j), sg_epoch = j_epoch j, sg_frames = []\<rparr> 0 j' d'"
      "j_config j' = j_config j" "untouched ?dir d1 d'"
    by auto
  moreover have "seq_next (j_last_seq j') = seq_next (j_last_seq j)"
    using j'(2) nxt by (simp add: jinv_def)
  ultimately show ?thesis
    using d1(1,3) by (auto simp: roll_segment_def intro: untouched_trans)
qed

lemma roll_jempty:
  assumes "jempty j d"
  shows "\<exists>j' d'. roll_segment S now 1 j d = (Ok (), j', d') \<and>
    jinv 1 [] \<lparr>sg_first = 1, sg_epoch = j_epoch j, sg_frames = []\<rparr> 0 j' d' \<and>
    j_config j' = j_config j \<and> untouched (jc_dir (j_config j)) d d'"
proof -
  let ?j = "j\<lparr>j_last_sync := now\<rparr>"
  have "\<exists>j' d'. start_segment S 1 ?j d = (Ok (), j', d') \<and>
      jinv 1 [] \<lparr>sg_first = 1, sg_epoch = j_epoch ?j, sg_frames = []\<rparr> 0 j' d' \<and>
      j_config j' = j_config ?j \<and> untouched (jc_dir (j_config ?j)) d d'"
    using assms by (intro start_segment_jinv) (simp_all add: jempty_def wf_layout_def seq_next_def)
  then show ?thesis
    using sync_jempty [OF assms, of now] by (simp add: roll_segment_def)
qed

text \<open>
  The abstract journal: its history of frames and how many of them are stable. The history
  of a journal that was compacted starts after the frames that were removed.
\<close>

definition jrepr :: "frame list \<Rightarrow> nat \<Rightarrow> 'f journal \<Rightarrow> 'd \<Rightarrow> bool" where
  "jrepr hist dur j d \<longleftrightarrow> (jempty j d \<and> hist = [] \<and> dur = 0) \<or>
     (\<exists>s gs act k. jinv s gs act k j d \<and> hist = layout_frames (gs @ [act]) \<and>
       dur \<le> length (layout_frames gs) + k)"

lemma jrepr_jinvI:
  "jinv s gs act k j d \<Longrightarrow> dur \<le> length (layout_frames gs) + k \<Longrightarrow> jrepr (layout_frames (gs @ [act])) dur j d"
  unfolding jrepr_def by blast

lemma jrepr_cases:
  assumes "jrepr hist dur j d"
  obtains "jempty j d" "hist = []" "dur = 0"
  | s gs act k where "jinv s gs act k j d" "hist = layout_frames (gs @ [act])" "dur \<le> length (layout_frames gs) + k"
  using assms unfolding jrepr_def by blast

lemma jrepr_clean: "jrepr hist dur j d \<Longrightarrow> \<not> j_dirty j \<Longrightarrow> jrepr hist (length hist) j d"
proof (erule jrepr_cases)
  fix s gs act k assume a: "jinv s gs act k j d" "hist = layout_frames (gs @ [act])" "\<not> j_dirty j"
  then have "k = length (sg_frames act)" by (simp add: jinv_def)
  with jrepr_jinvI [OF a(1), of "length hist"] a(2) show ?thesis by simp
qed (simp add: jrepr_def)

lemma batch_unfold:
  assumes "contiguous_from (seq_next (j_last_seq j)) fs" and "fs \<noteq> []"
  shows "journal_append_batch S now fs j d =
      sbind (if needs_roll j (length (frames_bytes fs)) then roll_segment S now (seq_next (j_last_seq j)) j d
             else (Ok (), j, d)) (\<lambda>_ (j, d).
          write_encoded S now (frames_bytes fs) (length fs) (f_seq (last fs)) j d)"
proof -
  have "f_seq (hd fs) = seq_next (j_last_seq j)" using assms by (cases fs) auto
  then show ?thesis
    using assms(2) check_contiguous_None [OF assms(1)] by (simp add: journal_append_batch_def frames_bytes_def Let_def)
qed

lemma batch_jinv:
  assumes inv: "jinv s gs act k j d" and cont: "contiguous_from (seq_next (j_last_seq j)) fs" and ne: "fs \<noteq> []"
    and bound: "unat (seq_next (j_last_seq j)) + length fs < 2 ^ 64"
    and roll: "needs_roll j (length (frames_bytes fs)) \<Longrightarrow> sg_frames act \<noteq> []"
  shows "\<exists>j' d' gs' act' k'. journal_append_batch S now fs j d = (Ok (), j', d') \<and> jinv s gs' act' k' j' d' \<and>
    layout_frames (gs' @ [act']) = layout_frames (gs @ [act]) @ fs \<and>
    length (layout_frames gs) + k \<le> length (layout_frames gs') + k' \<and>
    j_config j' = j_config j \<and> untouched (jc_dir (j_config j)) d d'"
proof -
  note unf = batch_unfold [OF cont ne, of now d]
  show ?thesis
  proof (cases "needs_roll j (length (frames_bytes fs))")
    case False
    from write_encoded_jinv [OF inv cont ne bound, of now "length fs"] obtain j' d' k' where
      "write_encoded S now (frames_bytes fs) (length fs) (f_seq (last fs)) j d = (Ok (), j', d')"
      "jinv s gs (act\<lparr>sg_frames := sg_frames act @ fs\<rparr>) k' j' d'" "k \<le> k'"
      "j_config j' = j_config j" "untouched (jc_dir (j_config j)) d d'" by blast
    with False unf show ?thesis
      by (intro exI [of _ j'] exI [of _ d'] exI [of _ gs] exI [of _ "act\<lparr>sg_frames := sg_frames act @ fs\<rparr>"] exI [of _ k'])
        simp
  next
    case True
    then have actne: "sg_frames act \<noteq> []" by (rule roll)
    have kle: "k \<le> length (sg_frames act)" using inv by (simp add: jinv_def)
    let ?new = "\<lparr>sg_first = seq_next (j_last_seq j), sg_epoch = j_epoch j, sg_frames = []\<rparr>"
    from roll_jinv [OF inv actne, of now] obtain j1 d1 where
      r: "roll_segment S now (seq_next (j_last_seq j)) j d = (Ok (), j1, d1)" "jinv s (gs @ [act]) ?new 0 j1 d1"
        "seq_next (j_last_seq j1) = seq_next (j_last_seq j)"
        "j_config j1 = j_config j" "untouched (jc_dir (j_config j)) d d1" by blast
    from write_encoded_jinv [OF r(2) _ ne, of now "length fs"] cont bound r(3,4) obtain j' d' k' where
      w: "write_encoded S now (frames_bytes fs) (length fs) (f_seq (last fs)) j1 d1 = (Ok (), j', d')"
        "jinv s (gs @ [act]) (?new\<lparr>sg_frames := fs\<rparr>) k' j' d'"
        "j_config j' = j_config j" "untouched (jc_dir (j_config j)) d1 d'" by auto
    then show ?thesis
      using True unf r(1,5) kle
      by (intro exI [of _ j'] exI [of _ d'] exI [of _ "gs @ [act]"] exI [of _ "?new\<lparr>sg_frames := fs\<rparr>"] exI [of _ k'])
        (auto intro: untouched_trans)
  qed
qed

text \<open>An oversized write that would roll a segment with no frames finds its own file in the way.\<close>

lemma empty_active_path:
  assumes "jinv s gs act k j d" and "sg_frames act = []"
  shows "sg_path (jc_dir (j_config j)) act = seg_path (jc_dir (j_config j)) (seq_next (j_last_seq j)) \<and>
    content d (seg_path (jc_dir (j_config j)) (seq_next (j_last_seq j))) = Some (sg_bytes act)"
proof -
  have "sg_first act = seq_next (j_last_seq j)" using assms by (simp add: jinv_def wf_layout_def)
  moreover have "content d (sg_path (jc_dir (j_config j)) act) = Some (sg_bytes act)" using assms(1) by (simp add: jinv_def on_disk_def)
  ultimately show ?thesis by (simp add: sg_path_def)
qed

lemma roll_refused:
  assumes inv: "jinv s gs act k j d" and ne: "fs \<noteq> []" and cont: "contiguous_from (seq_next (j_last_seq j)) fs"
    and roll: "needs_roll j (length (frames_bytes fs))"
    and there: "content d (seg_path (jc_dir (j_config j)) (seq_next (j_last_seq j))) \<noteq> None"
  shows "\<exists>d'. journal_append_batch S now fs j d = (Err (Io AlreadyExists), j\<lparr>j_dirty := False, j_last_sync := now\<rparr>, d') \<and>
    jinv s gs act (length (sg_frames act)) (j\<lparr>j_dirty := False, j_last_sync := now\<rparr>) d'"
proof -
  let ?dir = "jc_dir (j_config j)" and ?j = "j\<lparr>j_dirty := False, j_last_sync := now\<rparr>"
  let ?p = "seg_path ?dir (seq_next (j_last_seq j))"
  from sync_jinv [OF inv, of now] obtain d1 where
    d1: "journal_sync S now j d = (Ok (), ?j, d1)" "jinv s gs act (length (sg_frames act)) ?j d1" by blast
  have "seg_files ?dir d1 = seg_files ?dir d" using inv d1(2) by (simp add: jinv_def on_disk_def)
  moreover have "?p \<in> seg_files ?dir d" using there by (simp add: seg_files_def)
  ultimately have "?p \<in> seg_files ?dir d1" by simp
  then have "content d1 ?p \<noteq> None" by (simp add: seg_files_def)
  moreover have "ok d1" using d1(2) by (simp add: jinv_def on_disk_def)
  ultimately have "st_create_new S ?p d1 = (Err AlreadyExists, d1)" by (intro create_new_exists)
  then show ?thesis
    using d1 roll by (simp add: batch_unfold [OF cont ne] roll_segment_def start_segment_def jio_def)
qed

lemma roll_occupied:
  assumes inv: "jinv s gs act k j d" and empty: "sg_frames act = []" and ne: "fs \<noteq> []"
    and cont: "contiguous_from (seq_next (j_last_seq j)) fs" and roll: "needs_roll j (length (frames_bytes fs))"
  shows "\<exists>e. fst (journal_append_batch S now fs j d) = Err e"
  using roll_refused [OF inv ne cont roll, of now] empty_active_path [OF inv empty] by auto

lemma batch_jrepr:
  assumes "jrepr hist dur j d" and cont: "contiguous_from (seq_next (j_last_seq j)) fs" and ne: "fs \<noteq> []"
    and bound: "unat (seq_next (j_last_seq j)) + length fs < 2 ^ 64"
    and fits: "28 + length (frames_bytes fs) \<le> jc_segment_bytes (j_config j) \<or>
      fst (journal_append_batch S now fs j d) = Ok () \<or> \<not> needs_roll j (length (frames_bytes fs)) \<or>
      content d (seg_path (jc_dir (j_config j)) (seq_next (j_last_seq j))) = None"
  shows "\<exists>j' d'. journal_append_batch S now fs j d = (Ok (), j', d') \<and>
    jrepr (hist @ fs) (if j_dirty j' then dur else length (hist @ fs)) j' d' \<and>
    j_config j' = j_config j \<and> untouched (jc_dir (j_config j)) d d'"
proof -
  have "\<exists>j' d'. journal_append_batch S now fs j d = (Ok (), j', d') \<and> jrepr (hist @ fs) dur j' d' \<and>
      j_config j' = j_config j \<and> untouched (jc_dir (j_config j)) d d'"
    using assms(1)
  proof (cases rule: jrepr_cases)
    case (2 s gs act k)
    have "sg_frames act \<noteq> []" if "needs_roll j (length (frames_bytes fs))"
    proof
      assume "sg_frames act = []"
      then have "content d (seg_path (jc_dir (j_config j)) (seq_next (j_last_seq j))) \<noteq> None"
        using empty_active_path [OF 2(1)] by simp
      with \<open>sg_frames act = []\<close> that fits 2(1) roll_occupied [OF 2(1) _ ne cont that, of now] show False
        by (auto simp: needs_roll_def jinv_def at_tail_def)
    qed
    from batch_jinv [OF 2(1) cont ne bound this, of now] obtain j' d' gs' act' k' where
      b: "journal_append_batch S now fs j d = (Ok (), j', d')" "jinv s gs' act' k' j' d'"
        "layout_frames (gs' @ [act']) = hist @ fs" "length (layout_frames gs) + k \<le> length (layout_frames gs') + k'"
        "j_config j' = j_config j" "untouched (jc_dir (j_config j)) d d'"
      using 2(2) by metis
    have "jrepr (hist @ fs) dur j' d'" using jrepr_jinvI [OF b(2), of dur] b(3,4) 2(3) by simp
    with b show ?thesis by blast
  next
    case 1
    let ?new = "\<lparr>sg_first = 1, sg_epoch = j_epoch j, sg_frames = []\<rparr>"
    have s1: "seq_next (j_last_seq j) = 1" and "needs_roll j n" for n
      using 1 by (simp_all add: jempty_def seq_next_def needs_roll_def)
    then have unf: "journal_append_batch S now fs j d =
        sbind (roll_segment S now 1 j d) (\<lambda>_ (j, d).
            write_encoded S now (frames_bytes fs) (length fs) (f_seq (last fs)) j d)"
      by (simp add: batch_unfold [OF cont ne])
    from roll_jempty [OF 1(1), of now] obtain j1 d1 where
      r: "roll_segment S now 1 j d = (Ok (), j1, d1)" "jinv 1 [] ?new 0 j1 d1"
        "j_config j1 = j_config j" "untouched (jc_dir (j_config j)) d d1" by blast
    then have "seq_next (j_last_seq j1) = 1" by (simp add: jinv_def)
    with write_encoded_jinv [OF r(2) _ ne, of now "length fs"] cont bound s1 r(3) obtain j' d' k' where
      w: "write_encoded S now (frames_bytes fs) (length fs) (f_seq (last fs)) j1 d1 = (Ok (), j', d')"
        "jinv 1 [] (?new\<lparr>sg_frames := fs\<rparr>) k' j' d'"
        "j_config j' = j_config j" "untouched (jc_dir (j_config j)) d1 d'" by auto
    then show ?thesis
      using unf r(1,4) 1 jrepr_jinvI [OF w(2), of dur] by (auto intro: untouched_trans)
  qed
  then obtain j' d' where "journal_append_batch S now fs j d = (Ok (), j', d')" "jrepr (hist @ fs) dur j' d'"
      "j_config j' = j_config j" "untouched (jc_dir (j_config j)) d d'" by blast
  then show ?thesis
    by (intro exI [of _ j'] exI [of _ d']) (auto dest: jrepr_clean)
qed

lemma open_empty_jrepr:
  assumes "ok d" and "seg_files (jc_dir cfg) d = {}"
  shows "\<exists>rec d'. journal_open_with S now cfg d = (Ok rec, d') \<and> re_frames rec = [] \<and>
    jrepr [] 0 (re_journal rec) d' \<and> j_config (re_journal rec) = cfg \<and> \<not> j_dirty (re_journal rec) \<and>
    untouched (jc_dir cfg) d d' \<and> j_last_seq (re_journal rec) = 0 \<and> re_first_seq rec = 1"
proof -
  from open_inner_empty [OF assms, of now] obtain d' where
    o: "open_inner S now cfg d = (Ok (\<lparr>j_config = cfg, j_current = None, j_last_seq = 0,
        j_epoch = 0, j_last_sync = now, j_dirty = False\<rparr>,
      \<lparr>rm_first_seq = 1, rm_last_seq = 0, rm_truncated_torn_tail = False\<rparr>, []), d')"
    "ok d'" "content d' = content d" "stable d' = stable d" by blast
  with assms(2) show ?thesis
    by (simp add: journal_open_with_def jrepr_def jempty_def seg_files_def untouched_def)
qed

lemma sync_jrepr:
  assumes "jrepr hist dur j d"
  shows "\<exists>j' d'. journal_sync S now j d = (Ok (), j', d') \<and> jrepr hist (length hist) j' d' \<and>
    \<not> j_dirty j' \<and> j_config j' = j_config j \<and> j_last_seq j' = j_last_seq j \<and> untouched (jc_dir (j_config j)) d d'"
  using assms
proof (cases rule: jrepr_cases)
  case 1
  with sync_jempty [OF 1(1), of now] show ?thesis by (simp add: jrepr_def jempty_def)
next
  case (2 s gs act k)
  from sync_jinv [OF 2(1), of now] obtain d' where
    "journal_sync S now j d = (Ok (), j\<lparr>j_dirty := False, j_last_sync := now\<rparr>, d')"
    and i: "jinv s gs act (length (sg_frames act)) (j\<lparr>j_dirty := False, j_last_sync := now\<rparr>) d'"
    and "untouched (jc_dir (j_config j)) d d'" by blast
  then show ?thesis using jrepr_jinvI [OF i, of "length hist"] 2(2) by simp
qed

end

text \<open>\<open>append\<close> is \<open>append_batch\<close> of one frame.\<close>

lemma append_is_batch: "journal_append S now f j d = journal_append_batch S now [f] j d"
  by (simp add: journal_append_def journal_append_batch_def frame_encoded_len_correct Let_def)

context crashing_storage
begin

lemma power_loss_layout:
  assumes inv: "jinv s gs act k j d" and pl: "power_loss d d'"
  shows "\<exists>n t. k \<le> n \<and> n \<le> length (sg_frames act) \<and> torn t \<and>
    on_disk (jc_dir (j_config j)) gs (act\<lparr>sg_frames := take n (sg_frames act)\<rparr>) n t d'"
proof -
  let ?dir = "jc_dir (j_config j)" and ?fs = "sg_frames act"
  let ?p = "sg_path ?dir act" and ?st = "sg_header act @ frames_bytes (take k ?fs)"
  have disk: "on_disk ?dir gs act k [] d" and kle: "k \<le> length ?fs" and wf: "wf_layout s (gs @ [act])"
    using inv by (simp_all add: jinv_def)
  then have okd: "ok d" and c: "content d ?p = Some (?st @ frames_bytes (drop k ?fs))" and st: "stable d ?p = Some ?st"
    by (simp_all add: on_disk_def sg_bytes_def flip: frames_bytes_simps(3))
  from power_loss_content [OF okd pl c st] obtain x where
    x: "content d' ?p = Some (?st @ x)" "stable d' ?p = Some (?st @ x)" "damaged (frames_bytes (drop k ?fs)) x"
    using survives_damaged by blast
  have "contiguous_from (sg_first act) ?fs" using wf by (simp add: wf_layout_def)
  then have "\<forall>f \<in> set (drop k ?fs). frame_valid f" by (auto dest: contiguous_valid in_set_dropD)
  from damaged_frames [OF this x(3)] obtain m t where
    m: "m \<le> length ?fs - k" "x = frames_bytes (take m (drop k ?fs)) @ t" "torn t" by auto
  have cut: "?st @ x = sg_header act @ frames_bytes (take (k + m) ?fs) @ t"
    by (simp add: m(2) take_add)
  let ?act = "act\<lparr>sg_frames := take (k + m) ?fs\<rparr>"
  have p: "sg_path ?dir ?act = ?p" and h: "sg_header ?act = sg_header act" by (simp_all add: sg_path_def sg_header_def)
  have "seg_files ?dir d' = seg_files ?dir d"
    using power_loss_files [OF okd pl] by (auto simp: seg_files_def)
  moreover have "\<forall>g \<in> set gs. sealed_on ?dir d' g"
    using power_loss_synced [OF okd pl] disk by (simp add: on_disk_def sealed_on_def)
  ultimately have "on_disk ?dir gs ?act (k + m) t d'"
    using disk x(1,2) cut power_loss_ok [OF okd pl]
    by (simp add: on_disk_def p) (simp add: sg_bytes_def h)
  then show ?thesis using m(1,3) kle by (intro exI [of _ "k + m"] exI [of _ t]) auto
qed

lemma wf_layout_cut:
  assumes "wf_layout s (gs @ [act])"
  shows "wf_layout s (gs @ [act\<lparr>sg_frames := take n (sg_frames act)\<rparr>])"
  using assms by (auto simp: wf_layout_def contiguous_take)

lemma power_loss_jempty:
  assumes "jempty j d" and "power_loss d d'"
  shows "ok d' \<and> seg_files (jc_dir (j_config j)) d' = {}"
  using assms power_loss_ok power_loss_files [of d d'] by (auto simp: jempty_def seg_files_def)

theorem crash_recovery:
  assumes "jrepr hist dur j d" and pl: "power_loss d d'"
  shows "\<exists>rec d'' n. journal_open_with S now (j_config j) d' = (Ok rec, d'') \<and>
    dur \<le> n \<and> n \<le> length hist \<and> re_frames rec = take n hist \<and>
    jrepr (take n hist) n (re_journal rec) d'' \<and> j_config (re_journal rec) = j_config j \<and>
    untouched (jc_dir (j_config j)) d' d'' \<and> \<not> j_dirty (re_journal rec) \<and>
    re_first_seq rec = seq_next (j_last_seq j) - of_nat (length hist) \<and>
    seq_next (j_last_seq (re_journal rec)) = re_first_seq rec + of_nat n"
  using assms(1)
proof (cases rule: jrepr_cases)
  case 1
  with power_loss_jempty [OF 1(1) pl] open_empty_jrepr [of d' "j_config j" now] show ?thesis
    by (auto simp: jempty_def seq_next_def)
next
  case (2 s gs act k)
  from power_loss_layout [OF 2(1) pl] obtain n t where
    n: "k \<le> n" "n \<le> length (sg_frames act)" "torn t"
      "on_disk (jc_dir (j_config j)) gs (act\<lparr>sg_frames := take n (sg_frames act)\<rparr>) n t d'" by blast
  let ?act = "act\<lparr>sg_frames := take n (sg_frames act)\<rparr>"
  have wf: "wf_layout s (gs @ [?act])" using 2(1) by (intro wf_layout_cut) (simp add: jinv_def)
  let ?n = "length (layout_frames gs) + n"
  have hist: "layout_frames (gs @ [?act]) = take ?n hist" using 2(2) by simp
  have len: "length (sg_frames ?act) = n" using n(2) by simp
  from open_inner_layout [OF n(4) wf n(3), of now] obtain j' meta d'' where
    "open_inner S now (j_config j) d' = (Ok (j', meta, take ?n hist), d'')"
    and i: "jinv s gs ?act n j' d''" and u: "untouched (jc_dir (j_config j)) d' d''" "j_config j' = j_config j"
      "\<not> j_dirty j'" "rm_first_seq meta = s"
    unfolding hist len by auto
  then have "journal_open_with S now (j_config j) d' = (Ok \<lparr>re_journal = j', re_frames = take ?n hist,
      re_first_seq = rm_first_seq meta, re_truncated_torn_tail = rm_truncated_torn_tail meta\<rparr>, d'')"
    by (simp add: journal_open_with_def)
  moreover have "jrepr (take ?n hist) ?n j' d''"
    using jrepr_jinvI [OF i, of ?n] hist by simp
  moreover have "dur \<le> ?n" "?n \<le> length hist" using 2(2,3) n(1,2) by simp_all
  moreover have "seq_next (j_last_seq j') = s + of_nat ?n" using i hist n(2) by (simp add: jinv_def)
  moreover have "seq_next (j_last_seq j) = s + of_nat (length hist)" using 2(1,2) by (simp add: jinv_def)
  ultimately show ?thesis using u
    by (intro exI conjI) (assumption | simp)+
qed

end

section \<open>Compaction and reseating\<close>

lemma parse_names_layout:
  "parse_names (map (sg_path dir) gs) = Ok (map (\<lambda>g. (sg_path dir g, sg_first g)) gs)"
  by (induction gs) (simp_all add: sg_path_def)

lemma wf_layout_tl: "wf_layout s (g # gs) \<Longrightarrow> gs \<noteq> [] \<Longrightarrow> wf_layout (s + of_nat (length (sg_frames g))) gs"
proof -
  assume wf: "wf_layout s (g # gs)" and "gs \<noteq> []"
  have "unat (s + of_nat (length (sg_frames g))) = unat s + length (sg_frames g)"
    using wf by (intro unat_plus_of_nat) (simp add: wf_layout_def)
  with wf \<open>gs \<noteq> []\<close> show ?thesis by (auto simp: wf_layout_def word_less_nat_alt)
qed

text \<open>The frames of a segment are those below the first sequence number of the next one.\<close>

lemma segment_seqs:
  assumes "contiguous_from s fs" and "unat s + length fs < 2 ^ 64" and "f \<in> set fs"
  shows "f_seq f < s + of_nat (length fs)"
proof -
  from assms(3) obtain i where i: "i < length fs" "f = fs ! i" by (auto simp: in_set_conv_nth)
  have "unat (s + of_nat i) = unat s + i" "unat (s + of_nat (length fs)) = unat s + length fs"
    using assms(2) i by (auto intro!: unat_plus_of_nat)
  then show ?thesis using contiguous_nth [OF assms(1) i(1)] i by (simp add: word_less_nat_alt)
qed

lemma plus_one_less_cancel: "x \<noteq> -1 \<Longrightarrow> x + 1 < y + 1 \<Longrightarrow> x < (y :: 'a::len word)"
proof -
  assume x: "x \<noteq> -1" and l: "x + 1 < y + 1"
  then have "y \<noteq> -1" by auto
  with x l show ?thesis by (simp add: word_less_nat_alt unat_plus_one)
qed

lemma segment_last_seq:
  assumes "contiguous_from s fs" and "fs \<noteq> []"
  shows "f_seq (last fs) + 1 = s + of_nat (length fs)"
  using contiguous_nth [OF assms(1), of "length fs - 1"] assms(2)
  by (simp add: last_conv_nth of_nat_diff Suc_le_eq)

context storage_laws
begin

lemma remove_first_jinv:
  assumes inv: "jinv s (g # gs) act k j d"
  shows "\<exists>d'. st_remove S (sg_path (jc_dir (j_config j)) g) d = (Ok (), d') \<and>
    jinv (s + of_nat (length (sg_frames g))) gs act k j d' \<and> untouched (jc_dir (j_config j)) d d'"
proof -
  let ?dir = "jc_dir (j_config j)"
  have disk: "on_disk ?dir (g # gs) act k [] d" and wf: "wf_layout s (g # gs @ [act])"
    using inv by (simp_all add: jinv_def)
  from wf_layout_ascending [OF wf] have neq: "sg_path ?dir h \<noteq> sg_path ?dir g" if "h \<in> set (gs @ [act])" for h
    using that by (auto simp: sg_path_def)
  have okd: "ok d" and "content d (sg_path ?dir g) \<noteq> None"
    using disk by (simp_all add: on_disk_def sealed_on_def)
  then obtain d' where d': "st_remove S (sg_path ?dir g) d = (Ok (), d')" "ok d'"
      "content d' = (content d)(sg_path ?dir g := None)" "stable d' = (stable d)(sg_path ?dir g := None)"
      "\<forall>h q. live h d = Some q \<longrightarrow> q \<noteq> sg_path ?dir g \<longrightarrow> live h d' = Some q"
    using remove by blast
  have "seg_files ?dir d' = seg_files ?dir d - {sg_path ?dir g}"
    using d'(3) by (auto simp: seg_files_def)
  also have "\<dots> = sg_path ?dir ` set (gs @ [act])"
  proof -
    have "sg_path ?dir g \<notin> sg_path ?dir ` set (gs @ [act])" using neq by (metis imageE)
    moreover have "seg_files ?dir d = insert (sg_path ?dir g) (sg_path ?dir ` set (gs @ [act]))"
      using disk by (simp add: on_disk_def insert_commute)
    ultimately show ?thesis by simp
  qed
  finally have "on_disk ?dir gs act k [] d'"
    using disk d'(2-4) neq by (auto simp: on_disk_def sealed_on_def)
  moreover have "wf_layout (s + of_nat (length (sg_frames g))) (gs @ [act])"
    using wf_layout_tl [OF wf] by simp
  moreover have "at_tail act j d'"
  proof -
    have "sg_path ?dir act \<noteq> sg_path ?dir g" by (rule neq) simp
    with d'(5) have "\<forall>h. live h d = Some (sg_path ?dir act) \<longrightarrow> live h d' = Some (sg_path ?dir act)" by blast
    with inv show ?thesis unfolding jinv_def at_tail_def by blast
  qed
  moreover have "untouched ?dir d d'"
    using d'(3,4) unfolding sg_path_def by (rule untouched_upd)
  ultimately show ?thesis using inv d'(1) by (simp add: jinv_def add.assoc)
qed

lemma remove_below_jinv:
  assumes "jinv s gs act k j d" and cut: "cutoff \<noteq> -1"
  shows "\<exists>gs1 gs2 d'. gs = gs1 @ gs2 \<and>
    remove_below S cutoff (map (\<lambda>g. (sg_path (jc_dir (j_config j)) g, sg_first g)) (gs @ [act])) r d =
      (Ok (r + length gs1), d') \<and>
    jinv (s + of_nat (length (layout_frames gs1))) gs2 act k j d' \<and> untouched (jc_dir (j_config j)) d d' \<and>
    (\<forall>f \<in> set (layout_frames gs1). f_seq f \<le> cutoff) \<and>
    (\<forall>g rest. gs2 = g # rest \<longrightarrow> (\<exists>f \<in> set (sg_frames g). cutoff < f_seq f))"
  using assms(1)
proof (induction gs arbitrary: s d r)
  case Nil
  then show ?case by (intro exI [of _ "[]"] exI [of _ d]) simp
next
  case (Cons g gs)
  let ?dir = "jc_dir (j_config j)" and ?nm = "\<lambda>g. (sg_path (jc_dir (j_config j)) g, sg_first g)"
  let ?s' = "s + of_nat (length (sg_frames g))"
  have wf: "wf_layout s (g # gs @ [act])" using Cons.prems by (simp add: jinv_def)
  then have cont: "contiguous_from s (sg_frames g)" and ne: "sg_frames g \<noteq> []"
    and bnd: "unat s + length (sg_frames g) < 2 ^ 64"
    by (auto simp: wf_layout_def)
  obtain h hs where h: "gs @ [act] = h # hs" by (cases "gs @ [act]") auto
  then have hf: "sg_first h = ?s'" using wf by (simp add: wf_layout_def)
  show ?case
  proof (cases "?s' \<le> cutoff + 1")
    case True
    from remove_first_jinv [OF Cons.prems] obtain d1 where
      d1: "st_remove S (sg_path ?dir g) d = (Ok (), d1)" "jinv ?s' gs act k j d1" "untouched ?dir d d1" by blast
    from Cons.IH [OF d1(2), of "r + 1"] obtain gs1 gs2 d' where
      ih: "gs = gs1 @ gs2" "remove_below S cutoff (map ?nm (gs @ [act])) (r + 1) d1 = (Ok (r + 1 + length gs1), d')"
        "jinv (?s' + of_nat (length (layout_frames gs1))) gs2 act k j d'" "untouched ?dir d1 d'"
        "\<forall>f \<in> set (layout_frames gs1). f_seq f \<le> cutoff"
        "\<forall>g rest. gs2 = g # rest \<longrightarrow> (\<exists>f \<in> set (sg_frames g). cutoff < f_seq f)" by blast
    have "\<forall>f \<in> set (sg_frames g). f_seq f \<le> cutoff"
      using segment_seqs [OF cont bnd] True less_plus_one_iff [OF cut] by (blast intro: order.strict_trans2)
    moreover have "remove_below S cutoff (map ?nm ((g # gs) @ [act])) r d = (Ok (r + length (g # gs1)), d')"
      using True d1(1) ih(2) h hf by simp
    ultimately show ?thesis
      using ih d1(3) by (intro exI [of _ "g # gs1"] exI [of _ gs2] exI [of _ d'])
        (auto simp: add.assoc intro: untouched_trans)
  next
    case False
    then have "cutoff + 1 < f_seq (last (sg_frames g)) + 1" using segment_last_seq [OF cont ne] by simp
    then have "cutoff < f_seq (last (sg_frames g))"
      by (rule plus_one_less_cancel [OF cut])
    then have "\<exists>f \<in> set (sg_frames g). cutoff < f_seq f" using last_in_set [OF ne] by blast
    moreover have "remove_below S cutoff (map ?nm ((g # gs) @ [act])) r d = (Ok r, d)"
      using False h hf by simp
    ultimately show ?thesis
      using Cons.prems by (intro exI [of _ "[]"] exI [of _ "g # gs"] exI [of _ d]) auto
  qed
qed

lemma compact_jinv:
  assumes inv: "jinv s gs act k j d" and cut: "cutoff \<noteq> -1"
  shows "\<exists>gs1 gs2 d'. gs = gs1 @ gs2 \<and> compact_below S cutoff j d = (Ok (length gs1), d') \<and>
    jinv (s + of_nat (length (layout_frames gs1))) gs2 act k j d' \<and> untouched (jc_dir (j_config j)) d d' \<and>
    (\<forall>f \<in> set (layout_frames gs1). f_seq f \<le> cutoff) \<and>
    (\<forall>g rest. gs2 = g # rest \<longrightarrow> (\<exists>f \<in> set (sg_frames g). cutoff < f_seq f))"
proof -
  let ?dir = "jc_dir (j_config j)" and ?nm = "\<lambda>g. (sg_path (jc_dir (j_config j)) g, sg_first g)"
  have disk: "on_disk ?dir gs act k [] d" and wf: "wf_layout s (gs @ [act])" using inv by (simp_all add: jinv_def)
  then have okd: "ok d" by (simp add: on_disk_def)
  obtain ps where ps: "list_segments S ?dir d = Ok ps" "distinct ps" "set ps = seg_files ?dir d"
    using list_segments_files [OF okd] by blast
  have sorted: "sort ps = map (sg_path ?dir) (gs @ [act])"
    using sort_layout_paths [OF wf ps(2)] ps(3) disk by (simp add: on_disk_def)
  then have len: "length ps = Suc (length gs)" by (metis length_append_singleton length_map length_sort)
  from remove_below_jinv [OF inv cut, of 0] obtain gs1 gs2 d1 where
    r: "gs = gs1 @ gs2" "remove_below S cutoff (map ?nm (gs @ [act])) 0 d = (Ok (length gs1), d1)"
      "jinv (s + of_nat (length (layout_frames gs1))) gs2 act k j d1" "untouched ?dir d d1"
      "\<forall>f \<in> set (layout_frames gs1). f_seq f \<le> cutoff"
      "\<forall>g rest. gs2 = g # rest \<longrightarrow> (\<exists>f \<in> set (sg_frames g). cutoff < f_seq f)" by auto
  have ok1: "ok d1" using r(3) by (simp add: jinv_def on_disk_def)
  from sync_dir [OF ok1, of ?dir] obtain d2 where
    d2: "st_sync_dir S ?dir d1 = (Ok (), d2)" "ok d2" "content d2 = content d1" "stable d2 = stable d1"
      "\<forall>g. live g d2 = live g d1" by blast
  have i2: "jinv (s + of_nat (length (layout_frames gs1))) gs2 act k j d2"
    using r(3) d2 by (auto simp: jinv_def on_disk_def at_tail_def seg_files_def sealed_on_def)
  have u2: "untouched ?dir d d2" using r(4) d2(3,4) by (simp add: untouched_def)
  show ?thesis
  proof (cases "gs = []")
    case True
    with inv ps(1) len show ?thesis
      by (intro exI [of _ "[]"] exI [of _ d]) (simp add: compact_below_def Let_def)
  next
    case False
    then have "compact_below S cutoff j d =
        (if length gs1 > 0 then (Ok (length gs1), d2) else (Ok (length gs1), d1))"
      using ps(1) len r(2) d2(1) by (auto simp: compact_below_def sorted parse_names_layout Let_def simp del: map_append)
    with r i2 u2 show ?thesis
      by (cases "gs1 = []") (intro exI [of _ gs1] exI [of _ gs2] exI [of _ d2] exI [of _ d1], auto)+
  qed
qed

end

context storage_laws
begin

lemma layout_firsts_le:
  assumes "wf_layout s gs" and "g \<in> set gs"
  shows "sg_first g \<le> s + of_nat (length (layout_frames gs))"
proof -
  from assms(2) obtain xs ys where gs: "gs = xs @ g # ys" by (meson split_list)
  have b: "unat s + length (layout_frames gs) < 2 ^ 64" using assms(1) by (simp add: wf_layout_def)
  have "sg_first g = s + of_nat (length (layout_frames xs))"
    using assms(1) by (simp add: wf_layout_def gs)
  moreover have "length (layout_frames xs) \<le> length (layout_frames gs)" by (simp add: gs)
  ultimately show ?thesis
    using b unat_plus_of_nat [of s "length (layout_frames xs)"] unat_plus_of_nat [of s "length (layout_frames gs)"]
    by (simp add: word_le_nat_alt)
qed

lemma remove_below_all:
  assumes "ok d" and "distinct (map (sg_path dir) gs)" and "\<forall>g \<in> set gs. content d (sg_path dir g) \<noteq> None"
    and "\<forall>g \<in> set (gs @ [new]). sg_first g \<le> cutoff + 1"
  shows "\<exists>d'. remove_below S cutoff (map (\<lambda>g. (sg_path dir g, sg_first g)) (gs @ [new])) r d =
      (Ok (r + length gs), d') \<and> ok d' \<and>
    content d' = (\<lambda>p. if p \<in> sg_path dir ` set gs then None else content d p) \<and>
      stable d' = (\<lambda>p. if p \<in> sg_path dir ` set gs then None else stable d p) \<and>
    (\<forall>h q. live h d = Some q \<longrightarrow> q \<notin> sg_path dir ` set gs \<longrightarrow> live h d' = Some q)"
  using assms
proof (induction gs arbitrary: d r)
  case Nil
  then show ?case by simp
next
  case (Cons g gs)
  obtain h hs where h: "gs @ [new] = h # hs" by (cases "gs @ [new]") auto
  then have "h \<in> set (gs @ [new])" by simp
  then have hf: "sg_first h \<le> cutoff + 1" using Cons.prems(4) by auto
  obtain d1 where d1: "st_remove S (sg_path dir g) d = (Ok (), d1)" "ok d1"
      "content d1 = (content d)(sg_path dir g := None)" "stable d1 = (stable d)(sg_path dir g := None)"
      "\<forall>h q. live h d = Some q \<longrightarrow> q \<noteq> sg_path dir g \<longrightarrow> live h d1 = Some q"
    using remove [OF Cons.prems(1)] Cons.prems(3) by (metis list.set_intros(1))
  have "\<forall>g \<in> set gs. content d1 (sg_path dir g) \<noteq> None"
    using Cons.prems(2,3) d1(3) by (auto simp: image_iff)
  with Cons.IH [OF d1(2), of "r + 1"] Cons.prems(2,4) obtain d' where
    d': "remove_below S cutoff (map (\<lambda>g. (sg_path dir g, sg_first g)) (gs @ [new])) (r + 1) d1 =
        (Ok (r + 1 + length gs), d')" "ok d'"
      "content d' = (\<lambda>p. if p \<in> sg_path dir ` set gs then None else content d1 p) \<and>
      stable d' = (\<lambda>p. if p \<in> sg_path dir ` set gs then None else stable d1 p)"
      "\<forall>h q. live h d1 = Some q \<longrightarrow> q \<notin> sg_path dir ` set gs \<longrightarrow> live h d' = Some q"
    by auto
  moreover have "remove_below S cutoff (map (\<lambda>g. (sg_path dir g, sg_first g)) ((g # gs) @ [new])) r d =
      (Ok (r + length (g # gs)), d')"
    using h hf d1(1) d'(1) by simp
  ultimately show ?case
    using d1(3-5) by (intro exI [of _ d']) auto
qed

text \<open>
  Reseating: whatever segments are on disk, all of them starting below \<open>next\<close>, the journal
  ends up with one empty segment at \<open>next\<close>.
\<close>

lemma reseat_jinv:
  assumes ok: "ok d" and files: "seg_files (jc_dir (j_config j)) d = sg_path (jc_dir (j_config j)) ` set gs"
    and asc: "sorted_wrt (<) (map sg_first gs)" and new: "\<forall>g \<in> set gs. sg_first g < next"
    and sync: "journal_sync S now j d0 = (Ok (), j1, d)" and j1: "j_config j1 = j_config j" "\<not> j_dirty j1"
    and "0 < next"
  shows "\<exists>j' d'. reseat_to S now next j d0 = (Ok (), j', d') \<and>
    jinv next [] \<lparr>sg_first = next, sg_epoch = j_epoch j1, sg_frames = []\<rparr> 0 j' d' \<and> j_config j' = j_config j \<and>
    j_last_seq j' = next - 1 \<and> untouched (jc_dir (j_config j)) d d'"
proof -
  let ?dir = "jc_dir (j_config j)" and ?new = "\<lparr>sg_first = next, sg_epoch = j_epoch j1, sg_frames = []\<rparr>"
  let ?p = "seg_path ?dir next" and ?h = "segment_header_bytes next (j_epoch j1)"
  have fresh: "?p \<notin> sg_path ?dir ` set gs" using new by (auto simp: sg_path_def)
  then have "content d ?p = None" using files by (auto simp: seg_files_def)
  with start_segment_disk [OF ok, of j1 "next"] j1(1) obtain f d1 where
    d1: "start_segment S next j1 d =
        (Ok (), j1\<lparr>j_current := Some \<lparr>os_file = f, os_size = SEGMENT_HEADER_LEN, os_frames = 0\<rparr>\<rparr>, d1)" "ok d1"
      "live f d1 = Some ?p" "content d1 = (content d)(?p \<mapsto> ?h)" "stable d1 = (stable d)(?p \<mapsto> ?h)" by auto
  let ?j = "j1\<lparr>j_current := Some \<lparr>os_file = f, os_size = SEGMENT_HEADER_LEN, os_frames = 0\<rparr>, j_last_seq := next - 1\<rparr>"
  have files1: "seg_files ?dir d1 = sg_path ?dir ` set (gs @ [?new])"
    using files d1(4) by (auto simp: seg_files_def sg_path_def)
  obtain ps where ps: "list_segments S ?dir d1 = Ok ps" "distinct ps" "set ps = seg_files ?dir d1"
    using list_segments_files [OF d1(2)] by blast
  have asc1: "sorted_wrt (<) (map sg_first (gs @ [?new]))" using asc new by (simp add: sorted_wrt_append)
  have sorted: "sort ps = map (sg_path ?dir) (gs @ [?new])"
    using sort_paths [OF asc1 ps(2)] ps(3) files1 by simp
  then have len: "length ps = Suc (length gs)" by (metis length_append_singleton length_map length_sort)
  have "distinct (map (sg_path ?dir) gs)"
    using paths_ascending [OF asc] by (simp add: strict_sorted_iff)
  moreover have "\<forall>g \<in> set gs. content d1 (sg_path ?dir g) \<noteq> None"
    using files1 by (auto simp: seg_files_def)
  moreover have "\<forall>g \<in> set (gs @ [?new]). sg_first g \<le> next - 1 + 1" using new by (auto simp: less_imp_le)
  ultimately have "\<exists>d2. remove_below S (next - 1) (map (\<lambda>g. (sg_path ?dir g, sg_first g)) (gs @ [?new])) 0 d1 =
        (Ok (0 + length gs), d2) \<and> ok d2 \<and>
      content d2 = (\<lambda>p. if p \<in> sg_path ?dir ` set gs then None else content d1 p) \<and>
      stable d2 = (\<lambda>p. if p \<in> sg_path ?dir ` set gs then None else stable d1 p) \<and>
      (\<forall>h q. live h d1 = Some q \<longrightarrow> q \<notin> sg_path ?dir ` set gs \<longrightarrow> live h d2 = Some q)"
    by (intro remove_below_all [OF d1(2)])
  then obtain d2 where
    d2: "remove_below S (next - 1) (map (\<lambda>g. (sg_path ?dir g, sg_first g)) (gs @ [?new])) 0 d1 = (Ok (0 + length gs), d2)"
      "ok d2" "content d2 = (\<lambda>p. if p \<in> sg_path ?dir ` set gs then None else content d1 p) \<and>
      stable d2 = (\<lambda>p. if p \<in> sg_path ?dir ` set gs then None else stable d1 p)" "live f d2 = Some ?p"
    using fresh d1(3) by blast
  from sync_dir [OF d2(2), of ?dir] obtain d3 where
    d3: "st_sync_dir S ?dir d2 = (Ok (), d3)" "ok d3" "content d3 = content d2" "stable d3 = stable d2"
      "\<forall>g. live g d3 = live g d2" by blast
  define d' where "d' = (if gs = [] then d2 else d3)"
  have d': "ok d'" "content d' = content d2" "stable d' = stable d2" "live f d' = Some ?p"
    using d2(2,4) d3 by (auto simp: d'_def)
  have "compact_below S (next - 1) ?j d1 = (Ok (length gs), d')"
    using ps(1) len d2(1) d3(1) j1(1)
    by (cases "gs = []") (auto simp: compact_below_def sorted parse_names_layout Let_def d'_def simp del: map_append)
  then have res: "reseat_to S now next j d0 = (Ok (), ?j, d')"
    using sync d1(1) by (simp add: reseat_to_def Let_def)
  have c': "content d' ?p = Some ?h" "stable d' ?p = Some ?h"
    using d'(2,3) d2(3) fresh d1(4,5) by simp_all
  have "seg_files ?dir d' = {?p}"
    using files1 d'(2) d2(3) fresh unfolding seg_files_def by (auto simp: sg_path_def)
  then have "on_disk ?dir [] ?new 0 [] d'"
    using d'(1) c' by (simp add: on_disk_def sg_path_def sg_bytes_def sg_header_def)
  moreover have "wf_layout next [?new]"
    using \<open>0 < next\<close> unat_bound [of "next"] by (simp add: wf_layout_def)
  moreover have "untouched ?dir d d'"
    unfolding untouched_def
  proof (intro allI impI)
    fix p assume "\<not> (fst p = ?dir \<and> extension p = Some ''seg'')"
    then have "p \<noteq> ?p" and "p \<notin> sg_path ?dir ` set gs" using seg_path_parts(1,2) by (metis, auto simp: sg_path_def)
    then show "content d' p = content d p \<and> stable d' p = stable d p"
      using d'(2,3) d2(3) d1(4,5) by simp
  qed
  ultimately show ?thesis
    using res j1(1) d'(4)
    by (intro exI [of _ ?j] exI [of _ d'])
      (simp add: jinv_def at_tail_def sg_path_def seq_next_def SEGMENT_HEADER_LEN_def)
qed

lemma reseat_jrepr:
  assumes rep: "jrepr hist dur j d" and new: "seq_next (j_last_seq j) < next"
  shows "\<exists>j' d'. reseat_to S now next j d = (Ok (), j', d') \<and> jrepr [] 0 j' d' \<and> j_config j' = j_config j \<and>
    j_last_seq j' = next - 1 \<and> untouched (jc_dir (j_config j)) d d'"
proof -
  let ?dir = "jc_dir (j_config j)"
  have pos: "0 < next" using new by (metis word_not_simps(1) word_gt_0)
  from sync_jrepr [OF rep, of now] obtain j1 d1 where
    s: "journal_sync S now j d = (Ok (), j1, d1)" "jrepr hist (length hist) j1 d1" "\<not> j_dirty j1"
      "j_config j1 = j_config j" "j_last_seq j1 = j_last_seq j" "untouched ?dir d d1" by blast
  obtain gs where gs: "ok d1" "seg_files ?dir d1 = sg_path ?dir ` set gs" "sorted_wrt (<) (map sg_first gs)"
      "\<forall>g \<in> set gs. sg_first g \<le> seq_next (j_last_seq j)"
    using s(2)
  proof (cases rule: jrepr_cases)
    case 1
    then show ?thesis using that [of "[]"] s(4) by (simp add: jempty_def)
  next
    case (2 s0 gs act k)
    have wf: "wf_layout s0 (gs @ [act])" and "on_disk ?dir gs act k [] d1"
      and nxt: "seq_next (j_last_seq j) = s0 + of_nat (length (layout_frames (gs @ [act])))"
      using 2(1) s(4,5) by (simp_all add: jinv_def)
    then show ?thesis
      using that [of "gs @ [act]"] wf_layout_ascending [OF wf] layout_firsts_le [OF wf]
      by (simp add: on_disk_def)
  qed
  then have "\<forall>g \<in> set gs. sg_first g < next" using new by (meson order.strict_trans1)
  from reseat_jinv [OF gs(1-3) this s(1,4,3) pos] obtain j' d' where
    "reseat_to S now next j d = (Ok (), j', d')"
    and i: "jinv next [] \<lparr>sg_first = next, sg_epoch = j_epoch j1, sg_frames = []\<rparr> 0 j' d'"
    and "j_config j' = j_config j" "j_last_seq j' = next - 1" "untouched ?dir d1 d'" by blast
  then show ?thesis using jrepr_jinvI [OF i, of 0] untouched_trans [OF s(6)] by (auto simp: layout_frames_def)
qed

end

end
