(* ===== verification/Journal_Props.thy ===== *)
theory Journal_Props
  imports Journal_Safety
begin

text \<open>
  What the journal guarantees on the simulated disk. \<open>jrun\<close> is the reachable states: any
  interleaving of appends, batches, syncs, compactions, clean restarts and power losses,
  with the history of frames and the number of them that are durable as ghost state. A clean restart drops the
  journal, which syncs it, and opens it again; frames may be longer than a segment. The
  contract of the simulated disk (\<open>Storage\<close>) instantiates the library of \<open>Journal_Safety\<close>.
\<close>

section \<open>Abstract steps\<close>

context storage_laws
begin

lemma reopen_jrepr:
  assumes "jrepr hist dur j d" and "\<not> j_dirty j"
  shows "\<exists>rec d'. journal_open_with S now (j_config j) d = (Ok rec, d') \<and> re_frames rec = hist \<and>
    jrepr hist (length hist) (re_journal rec) d' \<and> j_config (re_journal rec) = j_config j \<and>
    \<not> j_dirty (re_journal rec)"
  using assms(1)
proof (cases rule: jrepr_cases)
  case 1
  with open_empty_jrepr [of d "j_config j" now] show ?thesis by (auto simp: jempty_def)
next
  case (2 s gs act k)
  then have k: "k = length (sg_frames act)" using assms(2) by (simp add: jinv_def)
  have "on_disk (jc_dir (j_config j)) gs act k [] d" "wf_layout s (gs @ [act])" "torn []"
    using 2(1) by (simp_all add: jinv_def torn_def)
  from open_inner_layout [OF this, of now] k 2(2) obtain j' meta d' where
    o: "open_inner S now (j_config j) d = (Ok (j', meta, hist), d')" "jinv s gs act k j' d'"
      "j_config j' = j_config j" "\<not> j_dirty j'" by blast
  have "jrepr hist (length hist) j' d'"
    using jrepr_jinvI [OF o(2), of "length hist"] 2(2) k by simp
  with o show ?thesis by (simp add: journal_open_with_def)
qed

lemma open_frames:
  assumes "jrepr hist dur j d"
  shows "\<exists>rec d'. journal_open_with S now (j_config j) d = (Ok rec, d') \<and> re_frames rec = hist \<and>
    re_first_seq rec = seq_next (j_last_seq j) - of_nat (length hist)"
  using assms
proof (cases rule: jrepr_cases)
  case 1
  with open_empty_jrepr [of d "j_config j" now] show ?thesis by (auto simp: jempty_def seq_next_def)
next
  case (2 s gs act k)
  then have "on_disk (jc_dir (j_config j)) gs act k [] d" "wf_layout s (gs @ [act])" "torn []"
    by (simp_all add: jinv_def torn_def)
  from open_inner_on_disk [OF this, of now] 2(2) obtain j' meta d' where
    "open_inner S now (j_config j) d = (Ok (j', meta, hist), d')" "rm_first_seq meta = s" by blast
  moreover have "seq_next (j_last_seq j) = s + of_nat (length hist)" using 2(1,2) by (simp add: jinv_def)
  ultimately show ?thesis by (simp add: journal_open_with_def)
qed

lemma batch_refused:
  assumes "jrepr hist dur j d" and "fs \<noteq> []" and "contiguous_from (seq_next (j_last_seq j)) fs"
    and "needs_roll j (length (frames_bytes fs))" and there: "content d (seg_path (jc_dir (j_config j)) (seq_next (j_last_seq j))) \<noteq> None"
  shows "\<exists>j1 d1 rec d2. journal_append_batch S now fs j d = (Err (Io AlreadyExists), j1, d1) \<and>
    journal_open_with S now (j_config j) d1 = (Ok rec, d2) \<and> re_frames rec = hist"
  using assms(1)
proof (cases rule: jrepr_cases)
  case 1
  have "seg_path (jc_dir (j_config j)) (seq_next (j_last_seq j)) \<in> seg_files (jc_dir (j_config j)) d"
    using there by (simp add: seg_files_def)
  with 1 show ?thesis by (simp add: jempty_def)
next
  case (2 s gs act k)
  from roll_refused [OF 2(1) assms(2-5), of now] obtain d1 where
    d1: "journal_append_batch S now fs j d = (Err (Io AlreadyExists), j\<lparr>j_dirty := False, j_last_sync := now\<rparr>, d1)"
      "jinv s gs act (length (sg_frames act)) (j\<lparr>j_dirty := False, j_last_sync := now\<rparr>) d1" by blast
  from open_frames [OF jrepr_jinvI [OF d1(2) le0], of now] 2(2) d1(1) show ?thesis by auto
qed

lemma compact_jrepr:
  assumes "jrepr hist dur j d" and "cutoff \<noteq> -1"
  shows "\<exists>n m d'. compact_below S cutoff j d = (Ok n, d') \<and> jrepr (drop m hist) (dur - m) j d' \<and>
    m \<le> length hist \<and> (\<forall>f \<in> set (take m hist). f_seq f \<le> cutoff) \<and> untouched (jc_dir (j_config j)) d d'"
  using assms(1)
proof (cases rule: jrepr_cases)
  case 1
  with list_segments_files [of d "jc_dir (j_config j)"]
  have "compact_below S cutoff j d = (Ok 0, d)"
    by (auto simp: jempty_def compact_below_def Let_def)
  with assms(1) 1 show ?thesis by fastforce
next
  case (2 s gs act k)
  from compact_jinv [OF 2(1) assms(2)] obtain gs1 gs2 d' where
    c: "gs = gs1 @ gs2" "compact_below S cutoff j d = (Ok (length gs1), d')"
      "jinv (s + of_nat (length (layout_frames gs1))) gs2 act k j d'"
      "\<forall>f \<in> set (layout_frames gs1). f_seq f \<le> cutoff" "untouched (jc_dir (j_config j)) d d'" by blast
  let ?m = "length (layout_frames gs1)"
  have "drop ?m hist = layout_frames (gs2 @ [act])" "take ?m hist = layout_frames gs1"
    using 2(2) c(1) by simp_all
  moreover have "dur - ?m \<le> length (layout_frames gs2) + k" using 2(3) c(1) by simp
  ultimately have "jrepr (drop ?m hist) (dur - ?m) j d'" using jrepr_jinvI [OF c(3)] by metis
  then show ?thesis
    using c(2,4,5) \<open>take ?m hist = layout_frames gs1\<close> 2(2) c(1)
    by (intro exI [of _ "length gs1"] exI [of _ ?m] exI [of _ d']) simp
qed

end

text \<open>With \<open>FsyncPolicy::EveryFrame\<close> an append that returns has synced.\<close>

lemma sync_clean:
  "journal_sync S now j d = (Ok (), j', d') \<Longrightarrow> (j_current j = None \<longrightarrow> \<not> j_dirty j) \<Longrightarrow>
     \<not> j_dirty j' \<and> j_config j' = j_config j"
  by (auto simp: journal_sync_def jio_def sbind_Ok_iff split: option.splits if_splits)

lemma every_frame_clean:
  assumes "journal_append_batch S now fs j d = (Ok (), j', d')" and "jc_fsync (j_config j') = EveryFrame" and "fs \<noteq> []"
  shows "\<not> j_dirty j'"
proof -
  from assms(1,3) obtain j1 d1 buf n s where w: "write_encoded S now buf n s j1 d1 = (Ok (), j', d')"
    by (auto simp: journal_append_batch_def Let_def sbind_Ok_iff split: option.splits)
  then obtain seg d2 j2 where
    m: "maybe_sync S now j2 d2 = (Ok (), j', d')" and cur: "j_current j2 = Some seg"
    by (auto simp: write_encoded_def sbind_Ok_iff Let_def split: option.splits)
  show ?thesis
  proof (cases "jc_fsync (j_config j2)")
    case EveryFrame
    with m have "journal_sync S now j2 d2 = (Ok (), j', d')" by (simp add: maybe_sync_def)
    with sync_clean cur show ?thesis by fastforce
  next
    case (Micros w)
    have "j_config j' = j_config j2"
      using m cur Micros sync_clean [of S now j2 d2 j' d'] by (auto simp: maybe_sync_def split: if_splits)
    with Micros assms(2) show ?thesis by simp
  next
    case Never
    with m assms(2) show ?thesis by (simp add: maybe_sync_def)
  qed
qed

section \<open>Reachable states\<close>

text \<open>Valid frames that continue the journal, below the last sequence number.\<close>

definition appendable :: "sim_file journal \<Rightarrow> frame list \<Rightarrow> bool" where
  "appendable j fs \<longleftrightarrow> fs \<noteq> [] \<and> contiguous_from (seq_next (j_last_seq j)) fs \<and>
     unat (seq_next (j_last_seq j)) + length fs < 2 ^ 64"

inductive jrun :: "journal_config \<Rightarrow> sim_file journal \<Rightarrow> sim_disk \<Rightarrow> frame list \<Rightarrow> nat \<Rightarrow> bool"
  for cfg :: journal_config
where
  jrun_open: "journal_open_with sim_storage now cfg sim_new = (Ok rec, d) \<Longrightarrow>
    jrun cfg (re_journal rec) d [] 0"
| jrun_append: "jrun cfg j d hist dur \<Longrightarrow> appendable j [f] \<Longrightarrow>
    journal_append sim_storage now f j d = (Ok (), j', d') \<Longrightarrow>
    jrun cfg j' d' (hist @ [f]) (if j_dirty j' then dur else length hist + 1)"
| jrun_batch: "jrun cfg j d hist dur \<Longrightarrow> appendable j fs \<Longrightarrow>
    journal_append_batch sim_storage now fs j d = (Ok (), j', d') \<Longrightarrow>
    jrun cfg j' d' (hist @ fs) (if j_dirty j' then dur else length (hist @ fs))"
| jrun_sync: "jrun cfg j d hist dur \<Longrightarrow> journal_sync sim_storage now j d = (Ok (), j', d') \<Longrightarrow>
    jrun cfg j' d' hist (length hist)"
| jrun_compact: "jrun cfg j d hist dur \<Longrightarrow> cutoff \<noteq> -1 \<Longrightarrow>
    compact_below sim_storage cutoff j d = (Ok n, d') \<Longrightarrow>
    journal_open_with sim_storage now cfg d' = (Ok rec, d'') \<Longrightarrow>
    jrun cfg j d' (re_frames rec) (dur - (length hist - length (re_frames rec)))"
| jrun_restart: "jrun cfg j d hist dur \<Longrightarrow> journal_sync sim_storage t j d = (Ok (), j1, d1) \<Longrightarrow>
    journal_open_with sim_storage now cfg d1 = (Ok rec, d') \<Longrightarrow>
    jrun cfg (re_journal rec) d' (re_frames rec) (length (re_frames rec))"
| jrun_crash: "jrun cfg j d hist dur \<Longrightarrow>
    journal_open_with sim_storage now cfg (fst (sim_crash flip r d)) = (Ok rec, d') \<Longrightarrow>
    jrun cfg (re_journal rec) d' (re_frames rec) (length (re_frames rec))"

lemma sim_new_empty: "sim_ok sim_new" "sim.seg_files dir sim_new = {}"
  by (simp_all add: sim_ok_def sim_new_def sim.seg_files_def sim_content_def)

lemma jrun_batch_jrepr:
  assumes "sim.jrepr hist dur j d" and "appendable j fs"
    and "journal_append_batch sim_storage now fs j d = (Ok (), j', d')"
  shows "sim.jrepr (hist @ fs) (if j_dirty j' then dur else length (hist @ fs)) j' d' \<and> j_config j' = j_config j"
  using sim.batch_jrepr [OF assms(1), of fs now] assms(2,3) by (auto simp: appendable_def)

lemma jrun_jrepr: "jrun cfg j d hist dur \<Longrightarrow> sim.jrepr hist dur j d \<and> j_config j = cfg"
proof (induction rule: jrun.induct)
  case (jrun_open now rec d)
  with sim.open_empty_jrepr [of sim_new cfg now] sim_new_empty show ?case by auto
next
  case (jrun_append j d hist dur f now j' d')
  then show ?case
    using jrun_batch_jrepr [of hist dur j d "[f]" now j' d'] by (auto simp: append_is_batch split: if_splits)
next
  case (jrun_batch j d hist dur fs now j' d')
  then show ?case using jrun_batch_jrepr by blast
next
  case (jrun_sync j d hist dur now j' d')
  then show ?case using sim.sync_jrepr [of hist dur j d now] by auto
next
  case (jrun_compact j d hist dur cutoff n d' now rec d'')
  from sim.compact_jrepr [OF conjunct1 [OF jrun_compact.IH] jrun_compact.hyps(2)] jrun_compact.hyps(3)
  obtain m where m: "sim.jrepr (drop m hist) (dur - m) j d'" "m \<le> length hist" by auto
  with sim.open_frames [OF m(1), of now] jrun_compact.hyps(4) jrun_compact.IH
  have "re_frames rec = drop m hist" by auto
  with m jrun_compact.IH show ?case by simp
next
  case (jrun_restart j d hist dur t j1 d1 now rec d')
  with sim.sync_jrepr [of hist dur j d t] have "sim.jrepr hist (length hist) j1 d1" "\<not> j_dirty j1" "j_config j1 = cfg" by auto
  with sim.reopen_jrepr [of hist "length hist" j1 d1 now] jrun_restart show ?case by auto
next
  case (jrun_crash j d hist dur now flip r rec d')
  with simc.crash_recovery [of hist dur j d "fst (sim_crash flip r d)" now] show ?case
    by (auto simp: min_def)
qed

lemma jrun_every_frame:
  "jrun cfg j d hist dur \<Longrightarrow> jc_fsync cfg = EveryFrame \<Longrightarrow> dur = length hist"
proof (induction rule: jrun.induct)
  case (jrun_append j d hist dur f now j' d')
  then have "j_config j' = cfg" using jrun_jrepr [OF jrun.jrun_append [OF jrun_append.hyps]] by simp
  with jrun_append every_frame_clean [of sim_storage now "[f]" j d j' d'] show ?case
    by (simp add: append_is_batch)
next
  case (jrun_batch j d hist dur fs now j' d')
  then have "j_config j' = cfg" using jrun_jrepr [OF jrun.jrun_batch [OF jrun_batch.hyps]] by simp
  with jrun_batch every_frame_clean [of sim_storage now fs j d j' d'] show ?case
    by (simp add: appendable_def)
next
  case (jrun_compact j d hist dur cutoff n d' now rec d'')
  have inv: "sim.jrepr hist dur j d" "j_config j = cfg" using jrun_jrepr [OF jrun_compact.hyps(1)] by simp_all
  from sim.compact_jrepr [OF inv(1) jrun_compact.hyps(2)] jrun_compact.hyps(3)
  obtain m where m: "sim.jrepr (drop m hist) (dur - m) j d'" "m \<le> length hist" by auto
  with sim.open_frames [OF m(1), of now] jrun_compact.hyps(4) inv(2)
  have "re_frames rec = drop m hist" by auto
  with m jrun_compact show ?case by simp
qed simp_all

section \<open>Bit rot in a sealed segment\<close>

text \<open>A scan of a sealed segment one byte of which was changed fails, wherever the byte lies.\<close>

lemma scan_frames_rot:
  assumes "contiguous_from s fs" and "i < length (frames_bytes fs)" and "b \<noteq> frames_bytes fs ! i"
  shows "\<exists>off e. scan_frames False p tot ((frames_bytes fs)[i := b]) s = Err (Corrupt p off e)"
  using assms
proof (induction fs arbitrary: s i)
  case Nil
  then show ?case by simp
next
  case (Cons f fs)
  have ne: "frame_write f @ x \<noteq> []" "(frame_write f)[j := c] @ x \<noteq> []" for x j c
    by (simp_all flip: length_greater_0_conv)
  have v: "frame_valid f" using Cons.prems(1) by simp
  show ?case
  proof (cases "i < length (frame_write f)")
    case True
    then have split: "(frames_bytes (f # fs))[i := b] = (frame_write f)[i := b] @ frames_bytes fs"
      by (simp add: list_update_append)
    have "b \<noteq> frame_write f ! i" using Cons.prems(3) True by (simp add: nth_append)
    with frame_read_corrupt [OF v True] obtain e where
      "frame_read ((frame_write f)[i := b] @ frames_bytes fs) = Err e" by blast
    with ne(2) [of i b "frames_bytes fs"] show ?thesis
      unfolding split by (simp add: scan_frames.simps [of _ _ _ "(frame_write f)[i := b] @ _"])
  next
    case False
    let ?i = "i - length (frame_write f)"
    have split: "(frames_bytes (f # fs))[i := b] = frame_write f @ (frames_bytes fs)[?i := b]"
      using False by (simp add: list_update_append)
    have "\<exists>off e. scan_frames False p tot ((frames_bytes fs)[?i := b]) (s + 1) = Err (Corrupt p off e)"
      using Cons.prems False by (intro Cons.IH) (auto simp: nth_append)
    then show ?thesis
      using Cons.prems(1) ne(1) [of "(frames_bytes fs)[?i := b]"] frame_read_write [OF v]
      unfolding split by (auto simp: scan_frames.simps [of _ _ _ "frame_write f @ _"] seq_next_def)
  qed
qed

lemma segment_header_block:
  "segment_header_bytes first ep =
     crc_block (SEGMENT_MAGIC @ to_le_bytes FORMAT_VERSION @ to_le_bytes first @ to_le_bytes ep)"
  by (simp add: segment_header_bytes_def crc_block_def Let_def)

lemma parse_header_rot:
  assumes "i < 28" and "b \<noteq> segment_header_bytes first ep ! i"
  shows "\<exists>why. parse_segment_header p ((segment_header_bytes first ep)[i := b] @ rest) = Err (BadSegmentHeader p why)"
proof -
  let ?h = "SEGMENT_MAGIC @ to_le_bytes FORMAT_VERSION @ to_le_bytes first @ to_le_bytes ep"
  let ?bs = "(segment_header_bytes first ep)[i := b] @ rest"
  have len: "length ?h = 24" by (simp add: SEGMENT_MAGIC_def)
  have "crc32c (take 24 ((crc_block ?h)[i := b])) \<noteq> from_le_bytes (drop 24 ((crc_block ?h)[i := b]))"
    using crc_block_corrupt [of i ?h b] assms len by (simp add: segment_header_block)
  then have "crc32c (take 24 ?bs) \<noteq> from_le_bytes (slice 24 28 ?bs)"
    by (simp add: segment_header_block slice_def SEGMENT_MAGIC_def)
  then show ?thesis by (auto simp: parse_segment_header_def SEGMENT_HEADER_LEN_def Let_def)
qed

context storage_laws
begin

lemma scan_sealed_prefix:
  assumes "ok d" and "\<forall>g \<in> set gs. content d (sg_path dir g) = Some (sg_bytes g)" and "chained s gs"
    and "fst_seg \<or> next = s" and "ps \<noteq> []"
  shows "\<exists>next' ep'. scan_segments S fst_seg (map (sg_path dir) gs @ ps) (scan_after fs next False ep) d =
    scan_segments S (fst_seg \<and> gs = []) ps (scan_after (fs @ layout_frames gs) next' False ep') d"
  using assms(2-4)
proof (induction gs arbitrary: s fst_seg "next" fs ep)
  case Nil
  then show ?case by auto
next
  case (Cons g gs)
  have "content d (sg_path dir g) = Some (sg_bytes g @ [])" using Cons.prems(1) by simp
  then have step: "scan_segment S fst_seg False (sg_path dir g) (scan_after fs next False ep) d =
      (Ok (scan_after (fs @ sg_frames g) (s + of_nat (length (sg_frames g))) False (sg_epoch g)), d)"
    using scan_segment_after [OF assms(1), of dir g "[]" False fst_seg "next" fs False ep] Cons.prems
    by (auto simp: torn_def)
  have "\<exists>next' ep'. scan_segments S False (map (sg_path dir) gs @ ps)
      (scan_after (fs @ sg_frames g) (s + of_nat (length (sg_frames g))) False (sg_epoch g)) d =
      scan_segments S (False \<and> gs = []) ps (scan_after ((fs @ sg_frames g) @ layout_frames gs) next' False ep') d"
    using Cons.prems by (intro Cons.IH) auto
  then show ?case using assms(5) by (simp add: step)
qed

lemma scan_rotten_segment:
  assumes "ok d" and "content d (sg_path dir g) = Some ((sg_bytes g)[i := b])"
    and "i < length (sg_bytes g)" and "b \<noteq> sg_bytes g ! i" and "contiguous_from (sg_first g) (sg_frames g)"
  shows "\<exists>e. scan_segment S fst_seg False (sg_path dir g) sc d = (Err e, d)"
proof (cases "i < 28")
  case True
  then have "(sg_bytes g)[i := b] = (segment_header_bytes (sg_first g) (sg_epoch g))[i := b] @ frames_bytes (sg_frames g)"
    by (simp add: sg_bytes_def sg_header_def list_update_append)
  moreover have "b \<noteq> segment_header_bytes (sg_first g) (sg_epoch g) ! i"
    using assms(4) True by (simp add: sg_bytes_def sg_header_def nth_append)
  ultimately have "\<exists>why. parse_segment_header (sg_path dir g) ((sg_bytes g)[i := b]) = Err (BadSegmentHeader (sg_path dir g) why)"
    using parse_header_rot [OF True] by simp
  with assms(2) read [OF assms(1)] show ?thesis by (auto simp: scan_segment_def)
next
  case False
  let ?i = "i - 28"
  have split: "(sg_bytes g)[i := b] = segment_header_bytes (sg_first g) (sg_epoch g) @ (frames_bytes (sg_frames g))[?i := b]"
    using False by (simp add: sg_bytes_def sg_header_def list_update_append)
  let ?bs = "(sg_bytes g)[i := b]"
  have "\<exists>off e. scan_frames False (sg_path dir g) (length ?bs) ((frames_bytes (sg_frames g))[?i := b]) (sg_first g) =
      Err (Corrupt (sg_path dir g) off e)"
    using assms(3,4) False by (intro scan_frames_rot [OF assms(5)]) (auto simp: sg_bytes_def nth_append)
  moreover have "drop SEGMENT_HEADER_LEN ?bs = (frames_bytes (sg_frames g))[?i := b]"
    unfolding split by (simp add: SEGMENT_HEADER_LEN_def)
  ultimately obtain e where scan: "scan_frames False (sg_path dir g) (length ?bs) (drop SEGMENT_HEADER_LEN ?bs) (sg_first g) = Err e"
    by auto
  have hdr: "parse_segment_header (sg_path dir g) ?bs = Ok (sg_first g, sg_epoch g)"
    unfolding split by (rule parse_segment_header_bytes)
  have rd: "st_read S (sg_path dir g) d = Ok ?bs" using assms(2) read [OF assms(1), of "sg_path dir g"] by simp
  show ?thesis
    unfolding scan_segment_def rd map_err.simps result.case hdr prod.case Let_def
    using scan by (cases fst_seg) auto
qed

lemma rotten_open:
  assumes inv: "jinv s gs act k j d" and g: "g \<in> set gs" and i: "i < length (sg_bytes g)" and b: "b \<noteq> sg_bytes g ! i"
    and d': "ok d'" "content d' = (content d)(sg_path (jc_dir (j_config j)) g \<mapsto> (sg_bytes g)[i := b])"
  shows "\<exists>e d''. journal_open_with S now (j_config j) d' = (Err e, d'')"
proof -
  let ?dir = "jc_dir (j_config j)"
  have disk: "on_disk ?dir gs act k [] d" and wf: "wf_layout s (gs @ [act])" using inv by (simp_all add: jinv_def)
  from g obtain gs1 gs2 where gs: "gs = gs1 @ g # gs2" by (meson split_list)
  obtain d1 where d1: "st_create_dir_all S ?dir d' = (Ok (), d1)" "ok d1" "content d1 = content d'"
    using create_dir [OF d'(1)] by metis
  have cg: "content d (sg_path ?dir g) \<noteq> None" using disk g by (simp add: on_disk_def sealed_on_def)
  have "content d1 p = None \<longleftrightarrow> content d p = None" for p
    using cg by (cases "p = sg_path ?dir g") (simp_all add: d1(3) d'(2))
  then have "seg_files ?dir d1 = seg_files ?dir d" by (simp add: seg_files_def)
  then have files: "seg_files ?dir d1 = sg_path ?dir ` set (gs @ [act])"
    using disk by (simp add: on_disk_def)
  obtain ps where ps: "list_segments S ?dir d1 = Ok ps" "distinct ps" "set ps = seg_files ?dir d1"
    using list_segments_files [OF d1(2)] by blast
  have sorted: "sort ps = map (sg_path ?dir) gs1 @ (sg_path ?dir g # map (sg_path ?dir) (gs2 @ [act]))"
    using sort_layout_paths [OF wf ps(2)] ps(3) files gs by simp
  have "\<forall>h \<in> set gs1. sg_path ?dir h \<noteq> sg_path ?dir g"
    using wf_layout_ascending [OF wf] gs by (auto simp: sorted_wrt_append sg_path_def)
  then have c1: "\<forall>h \<in> set gs1. content d1 (sg_path ?dir h) = Some (sg_bytes h)"
    using d1(3) d'(2) disk gs by (auto simp: on_disk_def sealed_on_def)
  have ch: "chained s gs1" and cont: "contiguous_from (sg_first g) (sg_frames g)"
    using wf gs by (auto simp: wf_layout_def)
  have rot: "content d1 (sg_path ?dir g) = Some ((sg_bytes g)[i := b])" using d1(3) d'(2) by simp
  let ?ps = "sg_path ?dir g # map (sg_path ?dir) (gs2 @ [act])"
  have "\<exists>nx ep. scan_segments S True (map (sg_path ?dir) gs1 @ ?ps) (scan_after [] 1 False 0) d1 =
      scan_segments S (True \<and> gs1 = []) ?ps (scan_after ([] @ layout_frames gs1) nx False ep) d1"
    by (rule scan_sealed_prefix [OF d1(2) c1 ch]) simp_all
  then obtain nx ep where "scan_segments S True (sort ps) scan_init d1 =
       scan_segments S (gs1 = []) ?ps (scan_after (layout_frames gs1) nx False ep) d1"
    unfolding sorted scan_init_after by auto
  moreover obtain e where "scan_segment S (gs1 = []) False (sg_path ?dir g) (scan_after (layout_frames gs1) nx False ep) d1 = (Err e, d1)"
    using scan_rotten_segment [OF d1(2) rot i b cont] by blast
  ultimately have "scan_segments S True (sort ps) scan_init d1 = (Err e, d1)" by simp
  with d1(1) ps(1) show ?thesis
    by (simp add: journal_open_with_def open_inner_def Let_def)
qed

end

lemma flip_neq: "(x :: u8) XOR push_bit (n mod 8) 1 \<noteq> x"
proof
  assume "x XOR push_bit (n mod 8) 1 = x"
  then have "bit (x XOR push_bit (n mod 8) 1) (n mod 8) = bit x (n mod 8)" by simp
  then show False by (auto simp: bit_simps)
qed

lemma sealed_path_cases:
  assumes "sim.jrepr hist dur j d" and "sim_content d p \<noteq> None" and "sim_content d q \<noteq> None" and "p < q"
    and "fst p = jc_dir (j_config j)" and "fst q = jc_dir (j_config j)"
    and "extension p = Some ''seg''" and "extension q = Some ''seg''"
  shows "\<exists>s gs act k g. sim.jinv s gs act k j d \<and> g \<in> set gs \<and> p = sg_path (jc_dir (j_config j)) g"
proof -
  let ?dir = "jc_dir (j_config j)"
  have pq: "p \<in> sim.seg_files ?dir d" "q \<in> sim.seg_files ?dir d"
    using assms(2-8) by (simp_all add: sim.seg_files_def)
  from assms(1) show ?thesis
  proof (cases rule: sim.jrepr_cases)
    case 1
    with pq show ?thesis by (simp add: sim.jempty_def)
  next
    case (2 s gs act k)
    then have wf: "wf_layout s (gs @ [act])" and files: "sim.seg_files ?dir d = sg_path ?dir ` set (gs @ [act])"
      by (simp_all add: sim.jinv_def sim.on_disk_def)
    obtain g h where g: "g \<in> set (gs @ [act])" "p = sg_path ?dir g" and h: "h \<in> set (gs @ [act])" "q = sg_path ?dir h"
      using pq files by (auto simp only: image_iff)
    have "sg_first g < sg_first h" using assms(4) g(2) h(2) by (simp add: sg_path_def seg_path_less_iff)
    then have "g \<noteq> act" using wf_layout_ascending [OF wf] h(1) by (auto simp: sorted_wrt_append)
    with g 2(1) show ?thesis by auto
  qed
qed

lemma rot_disk:
  assumes "sim.jinv s gs act k j d" and "g \<in> set gs" and "p = sg_path (jc_dir (j_config j)) g"
    and "sim_rot_synced_byte p off n d = Some d'"
  shows "\<exists>b. off < length (sg_bytes g) \<and> b \<noteq> sg_bytes g ! off \<and> sim_ok d' \<and>
    sim_content d' = (sim_content d)(p \<mapsto> (sg_bytes g)[off := b])"
proof -
  from assms(1-3) have "sim_content d p = Some (sg_bytes g)" "sim_stable d p = Some (sg_bytes g)" and ok: "sim_ok d"
    by (simp_all add: sim.jinv_def sim.on_disk_def sim.sealed_on_def)
  then obtain fd where fd: "bt_get (d_files d) p = Some fd" "fd_synced fd = sg_bytes g" "fd_unsynced fd = []"
    by (auto simp: sim_content_def sim_stable_def fd_combined_def)
  with assms(4) ok flip_neq show ?thesis
    by (intro exI [of _ "sg_bytes g ! off XOR push_bit (n mod 8) 1"])
      (auto simp: sim_rot_synced_byte_def sim_ok_def sim_content_def fd_combined_def fun_eq_iff split: if_splits)
qed

lemma sync_last_seq: "journal_sync S now j d = (Ok (), j', d') \<Longrightarrow> j_last_seq j' = j_last_seq j"
  by (auto simp: journal_sync_def jio_def sbind_Ok_iff split: option.splits if_splits)

lemma maybe_sync_last_seq: "maybe_sync S now j d = (Ok (), j', d') \<Longrightarrow> j_last_seq j' = j_last_seq j"
  by (cases "jc_fsync (j_config j)") (auto simp: maybe_sync_def dest: sync_last_seq split: if_splits)

lemma batch_last_seq:
  "journal_append_batch S now fs j d = (Ok (), j', d') \<Longrightarrow> fs \<noteq> [] \<Longrightarrow> j_last_seq j' = f_seq (last fs)"
  by (auto simp: journal_append_batch_def write_encoded_def Let_def sbind_Ok_iff
      dest!: maybe_sync_last_seq split: option.splits)

lemma check_contiguous_gap:
  "i < length fs \<Longrightarrow> f_seq (fs ! i) \<noteq> s + of_nat i \<Longrightarrow> \<exists>e f. check_contiguous s fs = Some (OutOfOrderAppend e f)"
proof (induction fs arbitrary: s i)
  case (Cons f fs)
  show ?case
  proof (cases "f_seq f = s")
    case True
    with Cons.prems obtain i' where i': "i = Suc i'" by (cases i) auto
    with Cons.prems have "i' < length fs" "f_seq (fs ! i') \<noteq> s + 1 + of_nat i'" by (auto simp: add.assoc)
    from Cons.IH [OF this] True show ?thesis by (auto simp: seq_next_def)
  qed simp
qed simp

section \<open>Which segments compaction removes\<close>

lemma contiguous_ge:
  assumes "contiguous_from s fs" and "unat s + length fs < 2 ^ 64" and "f \<in> set fs"
  shows "s \<le> f_seq f"
proof -
  from assms(3) obtain i where i: "i < length fs" "f = fs ! i" by (auto simp: in_set_conv_nth)
  with assms(2) have "unat (s + of_nat i) = unat s + i" by (intro unat_plus_of_nat) simp
  then show ?thesis using contiguous_nth [OF assms(1) i(1)] i by (simp add: word_le_nat_alt)
qed

text \<open>A frame lies in the segment with the largest first sequence number not above its own.\<close>

lemma layout_frame_span:
  assumes wf: "wf_layout s gs" and g: "g \<in> set gs" and f: "f \<in> set (layout_frames gs)"
  shows "f \<in> set (sg_frames g) \<longleftrightarrow>
    sg_first g \<le> f_seq f \<and> (\<forall>h \<in> set gs. sg_first g < sg_first h \<longrightarrow> f_seq f < sg_first h)"
proof -
  from g obtain xs ys where gs: "gs = xs @ g # ys" by (meson split_list)
  let ?t = "sg_first g" and ?m = "length (sg_frames g)"
  have ch: "chained s xs" "contiguous_from ?t (sg_frames g)" "chained (?t + of_nat ?m) ys"
    and t: "?t = s + of_nat (length (layout_frames xs))"
    and b: "unat s + length (layout_frames xs) + ?m + length (layout_frames ys) < 2 ^ 64"
    using wf by (simp_all add: wf_layout_def gs add.assoc)
  have ut: "unat ?t = unat s + length (layout_frames xs)" using b unfolding t by (intro unat_plus_of_nat) simp
  have um: "unat (?t + of_nat ?m) = unat ?t + ?m" using b ut by (intro unat_plus_of_nat) simp
  have asc: "\<forall>h \<in> set xs. sg_first h < ?t" "\<forall>h \<in> set ys. ?t < sg_first h"
    using wf_layout_ascending [OF wf] by (auto simp: gs sorted_wrt_append)
  have before: "f_seq x < ?t" if "x \<in> set (layout_frames xs)" for x
    using segment_seqs [OF chained_contiguous [OF ch(1)] _ that] b t by simp
  have inside: "?t \<le> f_seq x" "f_seq x < ?t + of_nat ?m" if "x \<in> set (sg_frames g)" for x
    using contiguous_ge [OF ch(2) _ that] segment_seqs [OF ch(2) _ that] b ut by simp_all
  have later: "?t + of_nat ?m \<le> sg_first h" if "h \<in> set ys" for h
    using chained_firsts_ge [OF ch(3) _ that] b ut um by (simp add: word_le_nat_alt)
  have after: "\<exists>h \<in> set ys. sg_first h \<le> f_seq x" if x: "x \<in> set (layout_frames ys)" for x
  proof -
    obtain h zs where ys: "ys = h # zs" using x by (cases ys) auto
    moreover have "?t + of_nat ?m \<le> f_seq x"
      using contiguous_ge [OF chained_contiguous [OF ch(3)] _ x] b ut um by simp
    ultimately show ?thesis using ch(3) by simp
  qed
  show ?thesis
  proof
    assume "f \<in> set (sg_frames g)"
    note i = inside [OF this]
    have "f_seq f < sg_first h" if "h \<in> set gs" "?t < sg_first h" for h
    proof -
      have "h \<in> set ys" using that asc(1) by (auto simp: gs)
      with later i(2) show ?thesis by (blast intro: order.strict_trans2)
    qed
    with i(1) show "?t \<le> f_seq f \<and> (\<forall>h \<in> set gs. ?t < sg_first h \<longrightarrow> f_seq f < sg_first h)" by blast
  next
    assume r: "?t \<le> f_seq f \<and> (\<forall>h \<in> set gs. ?t < sg_first h \<longrightarrow> f_seq f < sg_first h)"
    then have "f \<notin> set (layout_frames xs)" using before [of f] by (auto dest: leD)
    moreover have "f \<notin> set (layout_frames ys)" using r after [of f] asc(2) by (auto simp: gs dest: leD)
    ultimately show "f \<in> set (sg_frames g)" using f by (simp add: gs)
  qed
qed

text \<open>
  The first sequence numbers of the segment files of a directory, and the frames of the history that the
  segment starting at \<open>s\<close> holds: those from \<open>s\<close> on and below the start of every later segment.
\<close>

definition segment_starts :: "journal_config \<Rightarrow> sim_disk \<Rightarrow> seq set" where
  "segment_starts cfg d = {s. sim_content d (seg_path (jc_dir cfg) s) \<noteq> None}"

definition segment_holds :: "journal_config \<Rightarrow> sim_disk \<Rightarrow> seq \<Rightarrow> frame \<Rightarrow> bool" where
  "segment_holds cfg d s f \<longleftrightarrow> s \<le> f_seq f \<and> (\<forall>t \<in> segment_starts cfg d. s < t \<longrightarrow> f_seq f < t)"

lemma segment_starts_jinv:
  assumes "sim.jinv s gs act k j d"
  shows "segment_starts (j_config j) d = sg_first ` set (gs @ [act])"
proof -
  let ?dir = "jc_dir (j_config j)"
  have "sim.seg_files ?dir d = sg_path ?dir ` set (gs @ [act])"
    using assms by (simp add: sim.jinv_def sim.on_disk_def)
  moreover have "seg_path ?dir x \<in> sim.seg_files ?dir d \<longleftrightarrow> x \<in> segment_starts (j_config j) d" for x
    by (simp add: sim.seg_files_def segment_starts_def)
  moreover have "seg_path ?dir x \<in> sg_path ?dir ` set (gs @ [act]) \<longleftrightarrow> x \<in> sg_first ` set (gs @ [act])" for x
    by (auto simp: sg_path_def image_iff)
  ultimately show ?thesis by blast
qed

lemma segment_holds_jinv:
  assumes "sim.jinv s gs act k j d" and "g \<in> set (gs @ [act])" and "f \<in> set (layout_frames (gs @ [act]))"
  shows "segment_holds (j_config j) d (sg_first g) f \<longleftrightarrow> f \<in> set (sg_frames g)"
proof -
  have "wf_layout s (gs @ [act])" using assms(1) by (simp add: sim.jinv_def)
  from layout_frame_span [OF this assms(2,3)] segment_starts_jinv [OF assms(1)] show ?thesis
    by (auto simp: segment_holds_def)
qed

lemma later_segment_above:
  assumes inv: "sim.jinv s gs act k j d" and h: "h \<in> set (gs @ [act])" and g: "g \<in> set (gs @ [act])"
    and f: "f \<in> set (sg_frames h)" and lt: "sg_first h < sg_first g" and x: "x \<in> set (sg_frames g)"
  shows "f_seq f < f_seq x"
proof -
  have "f \<in> set (layout_frames (gs @ [act]))" "x \<in> set (layout_frames (gs @ [act]))"
    using h g f x by (auto simp: layout_frames_def)
  with segment_holds_jinv [OF inv] h g f x
  have "segment_holds (j_config j) d (sg_first h) f" "segment_holds (j_config j) d (sg_first g) x" by blast+
  moreover have "sg_first g \<in> segment_starts (j_config j) d" using segment_starts_jinv [OF inv] g by blast
  ultimately show ?thesis using lt by (auto simp: segment_holds_def)
qed

lemma compact_exact:
  assumes inv: "sim.jinv s gs act k j d" and cut: "cutoff \<noteq> -1"
  shows "\<exists>n d' gs1 gs2. compact_below sim_storage cutoff j d = (Ok n, d') \<and> gs = gs1 @ gs2 \<and>
    n = card (segment_starts (j_config j) d - segment_starts (j_config j) d') \<and>
    sim.jinv (s + of_nat (length (layout_frames gs1))) gs2 act k j d' \<and>
    segment_starts (j_config j) d' = {t \<in> segment_starts (j_config j) d. t = Max (segment_starts (j_config j) d) \<or>
      (\<exists>f \<in> set (layout_frames (gs @ [act])). segment_holds (j_config j) d t f \<and> cutoff < f_seq f)} \<and>
    (\<forall>f \<in> set (layout_frames gs1). f_seq f \<le> cutoff)"
proof -
  let ?cfg = "j_config j" and ?hist = "layout_frames (gs @ [act])"
  from sim.compact_jinv [OF assms] obtain gs1 gs2 d' where
    c: "gs = gs1 @ gs2" "compact_below sim_storage cutoff j d = (Ok (length gs1), d')"
      "sim.jinv (s + of_nat (length (layout_frames gs1))) gs2 act k j d'"
      "\<forall>f \<in> set (layout_frames gs1). f_seq f \<le> cutoff"
      "\<forall>g rest. gs2 = g # rest \<longrightarrow> (\<exists>f \<in> set (sg_frames g). cutoff < f_seq f)" by blast
  have st: "segment_starts ?cfg d = sg_first ` set (gs @ [act])" by (rule segment_starts_jinv [OF inv])
  have st': "segment_starts ?cfg d' = sg_first ` set (gs2 @ [act])" by (rule segment_starts_jinv [OF c(3)])
  have asc: "sorted_wrt (<) (map sg_first (gs1 @ gs2 @ [act]))"
    using inv wf_layout_ascending [of s "gs @ [act]"] by (simp add: sim.jinv_def c(1))
  have mx: "Max (segment_starts ?cfg d) = sg_first act"
    using asc unfolding st by (intro Max_eqI) (auto simp: c(1) sorted_wrt_append intro: less_imp_le)
  have "sg_first g \<noteq> sg_first h" if "g \<in> set gs1" "h \<in> set (gs2 @ [act])" for g h
    using asc that by (auto simp: sorted_wrt_append dest!: bspec)
  then have "segment_starts ?cfg d - segment_starts ?cfg d' = sg_first ` set gs1"
    unfolding st st' c(1) by (auto simp: image_iff)
  moreover have "distinct (map sg_first gs1)"
    using asc by (simp add: sorted_wrt_append strict_sorted_iff)
  ultimately have n: "card (segment_starts ?cfg d - segment_starts ?cfg d') = length gs1"
    by (metis distinct_card length_map list.set_map)
  have old: "\<not> (\<exists>f \<in> set ?hist. segment_holds ?cfg d (sg_first g) f \<and> cutoff < f_seq f)" if "g \<in> set gs1" for g
  proof -
    have "\<forall>f \<in> set (sg_frames g). f_seq f \<le> cutoff" using c(4) that by (auto simp: layout_frames_def)
    moreover have "g \<in> set (gs @ [act])" using that c(1) by simp
    ultimately show ?thesis using segment_holds_jinv [OF inv, of g] by (meson leD)
  qed
  have new: "\<exists>f \<in> set ?hist. segment_holds ?cfg d (sg_first g) f \<and> cutoff < f_seq f" if g: "g \<in> set gs2" for g
  proof -
    have gin: "g \<in> set (gs @ [act])" using g c(1) by simp
    have sub: "set (sg_frames g) \<subseteq> set ?hist" using gin by (auto simp: layout_frames_def)
    have "\<exists>f \<in> set (sg_frames g). cutoff < f_seq f"
    proof -
      obtain h rest where hr: "gs2 = h # rest" using g by (cases gs2) auto
      with c(5) obtain f where f: "f \<in> set (sg_frames h)" "cutoff < f_seq f" by blast
      have "g = h \<or> sg_first h < sg_first g" using g asc by (auto simp: hr sorted_wrt_append)
      moreover have "h \<in> set (gs @ [act])" using c(1) hr by simp
      moreover have "sg_frames g \<noteq> []" using inv g c(1) by (auto simp: sim.jinv_def wf_layout_def butlast_append)
      ultimately show ?thesis using later_segment_above [OF inv _ gin f(1)] f by (meson last_in_set order.strict_trans)
    qed
    with segment_holds_jinv [OF inv gin] sub show ?thesis by blast
  qed
  have "segment_starts ?cfg d' = {t \<in> segment_starts ?cfg d. t = Max (segment_starts ?cfg d) \<or>
      (\<exists>f \<in> set ?hist. segment_holds ?cfg d t f \<and> cutoff < f_seq f)}" (is "_ = ?K")
  proof (intro set_eqI iffI)
    fix t assume "t \<in> segment_starts ?cfg d'"
    then obtain g where "g \<in> set (gs2 @ [act])" "t = sg_first g" by (auto simp: st')
    then show "t \<in> ?K" using new mx by (auto simp: st c(1))
  next
    fix t assume t: "t \<in> ?K"
    then obtain g where g: "g \<in> set (gs @ [act])" "t = sg_first g" by (auto simp: st)
    have "g \<notin> set gs1"
    proof
      assume g1: "g \<in> set gs1"
      then have "sg_first g < sg_first act" using asc by (auto simp: sorted_wrt_append)
      with t g(2) mx old [OF g1] show False by auto
    qed
    with g show "t \<in> segment_starts ?cfg d'" by (auto simp: st' c(1))
  qed
  note k = this
  have "compact_below sim_storage cutoff j d = (Ok (card (segment_starts ?cfg d - segment_starts ?cfg d')), d')"
    using c(2) n by simp
  note c(1,3,4) k this
  then show ?thesis by blast
qed

lemma kept_frames:
  assumes inv: "sim.jinv s gs act k j d" and gs: "gs = gs1 @ gs2" and inv': "sim.jinv s' gs2 act k j d'"
  shows "filter (\<lambda>f. \<exists>t \<in> segment_starts (j_config j) d'. segment_holds (j_config j) d t f) (layout_frames (gs @ [act])) =
    layout_frames (gs2 @ [act])"
proof -
  let ?P = "\<lambda>f. \<exists>t \<in> segment_starts (j_config j) d'. segment_holds (j_config j) d t f"
  have asc: "sorted_wrt (<) (map sg_first (gs1 @ gs2 @ [act]))"
    using inv wf_layout_ascending [of s "gs @ [act]"] by (simp add: sim.jinv_def gs)
  have st': "segment_starts (j_config j) d' = sg_first ` set (gs2 @ [act])" by (rule segment_starts_jinv [OF inv'])
  have "?P f" if "f \<in> set (layout_frames (gs2 @ [act]))" for f
  proof -
    from that obtain g where g: "g \<in> set (gs2 @ [act])" "f \<in> set (sg_frames g)" by (auto simp: layout_frames_def)
    moreover have "g \<in> set (gs @ [act])" "f \<in> set (layout_frames (gs @ [act]))" using g(1) that by (auto simp: gs)
    ultimately show ?thesis using segment_holds_jinv [OF inv] st' by blast
  qed
  moreover have "\<not> ?P f" if f: "f \<in> set (layout_frames gs1)" for f
  proof
    assume "?P f"
    then obtain g where g: "g \<in> set (gs2 @ [act])" "segment_holds (j_config j) d (sg_first g) f" by (auto simp: st')
    from f obtain h where h: "h \<in> set gs1" "f \<in> set (sg_frames h)" by (auto simp: layout_frames_def)
    have hin: "h \<in> set (gs @ [act])" "f \<in> set (layout_frames (gs @ [act]))" and gin: "g \<in> set (gs @ [act])"
      using h(1) f g(1) by (auto simp: gs)
    have "segment_holds (j_config j) d (sg_first h) f" using segment_holds_jinv [OF inv hin] h(2) by blast
    moreover have "sg_first h < sg_first g" using asc h(1) g(1) by (auto simp: sorted_wrt_append)
    moreover have "sg_first g \<in> segment_starts (j_config j) d" using gin segment_starts_jinv [OF inv] by blast
    ultimately have "f_seq f < sg_first g" by (simp add: segment_holds_def)
    with g(2) show False by (simp add: segment_holds_def leD)
  qed
  ultimately show ?thesis by (simp add: gs filter_id_conv filter_empty_conv)
qed

section \<open>Concrete runs\<close>

text \<open>Two frames with segments that hold one frame each: the second append rolls.\<close>

definition demo_frame :: "u64 \<Rightarrow> frame" where
  "demo_frame s = \<lparr>f_seq = s, f_timestamp = 9, f_stream_id = 0, f_kind = Input, f_payload = [1, 2, 3]\<rparr>"

definition small_cfg :: journal_config where
  "small_cfg = \<lparr>jc_dir = ''j'', jc_segment_bytes = 63, jc_fsync = EveryFrame\<rparr>"

definition seg_file :: "u64 \<Rightarrow> path \<times> file_data" where
  "seg_file s = (seg_path ''j'' s, \<lparr>fd_synced = segment_header_bytes s 0 @ frame_write (demo_frame s), fd_unsynced = []\<rparr>)"

definition small_journal :: "nat \<Rightarrow> sim_file journal" where
  "small_journal n = \<lparr>j_config = small_cfg,
     j_current = (if n = 0 then None else Some \<lparr>os_file = \<lparr>sf_path = seg_path ''j'' (of_nat n), sf_epoch = 0\<rparr>, os_size = 63, os_frames = 1\<rparr>),
     j_last_seq = of_nat n, j_epoch = 0, j_last_sync = 0, j_dirty = False\<rparr>"

lemma small_open: "journal_open_with sim_storage 0 small_cfg sim_new =
   (Ok \<lparr>re_journal = small_journal 0, re_frames = [], re_first_seq = 1, re_truncated_torn_tail = False\<rparr>, sim_new)"
  by (simp add: journal_open_with_def open_inner_def sim_storage_def sim_create_dir_all_def list_segments_def
      sim_list_dir_def sim_new_def scan_init_def open_tail_def small_journal_def Let_def saturating_pred_def seq_next_def GENESIS_def)

lemmas sim_run = journal_append_def needs_roll_def roll_segment_def start_segment_def write_encoded_def
  maybe_sync_def journal_sync_def jio_def sim_storage_def sim_ops bt_contains_def bt_get_def

lemma small_append1: "journal_append sim_storage 0 (demo_frame 1) (small_journal 0) sim_new =
   (Ok (), small_journal 1, \<lparr>d_files = [seg_file 1], d_epoch = 0\<rparr>)"
  by (simp add: sim_run small_journal_def small_cfg_def sim_new_def seg_file_def seq_next_def Let_def
      demo_frame_def SEGMENT_HEADER_LEN_def)

lemma small_append2: "journal_append sim_storage 0 (demo_frame 2) (small_journal 1) \<lparr>d_files = [seg_file 1], d_epoch = 0\<rparr> =
   (Ok (), small_journal 2, \<lparr>d_files = [seg_file 1, seg_file 2], d_epoch = 0\<rparr>)"
  by (simp add: sim_run small_journal_def small_cfg_def seg_file_def seq_next_def Let_def seg_path_less_iff
      demo_frame_def SEGMENT_HEADER_LEN_def frame_encoded_len_correct)

lemma small_appendable: "n < 2 \<Longrightarrow> appendable (small_journal n) [demo_frame (of_nat n + 1)]"
  by (simp add: appendable_def small_journal_def small_cfg_def demo_frame_def seq_next_def frame_valid_def
      unat_word_ariths unat_of_nat_small)

lemma small_start: "jrun small_cfg (small_journal 0) sim_new [] 0"
  using jrun_open [OF small_open] by simp

abbreviation small_disk :: sim_disk where
  "small_disk \<equiv> \<lparr>d_files = [seg_file 1, seg_file 2], d_epoch = 0\<rparr>"

lemma small_run: "jrun small_cfg (small_journal 2) small_disk [demo_frame 1, demo_frame 2] 2"
proof -
  from jrun_append [OF small_start _ small_append1] small_appendable [of 0]
  have "jrun small_cfg (small_journal 1) \<lparr>d_files = [seg_file 1], d_epoch = 0\<rparr> [demo_frame 1] 1"
    by (simp add: small_journal_def)
  from jrun_append [OF this _ small_append2] small_appendable [of 1] show ?thesis
    by (simp add: small_journal_def numeral_2_eq_2)
qed

section \<open>Properties\<close>

text \<open>
  C2. Crash safety: after any interleaving of appends, batches, syncs, compactions, restarts
  and power losses (with torn sectors), a further power loss loses no durable frame and
  invents none: recovery succeeds and returns a prefix of the history that contains every
  frame that was synced. With \<open>FsyncPolicy::EveryFrame\<close> it returns the whole history.
\<close>

theorem journal_crash_safe:
  assumes "jrun cfg j d hist dur"
  shows "\<exists>rec d' n. journal_open_with sim_storage now cfg (fst (sim_crash flip r d)) = (Ok rec, d') \<and>
    dur \<le> n \<and> n \<le> length hist \<and> re_frames rec = take n hist \<and>
    (jc_fsync cfg = EveryFrame \<longrightarrow> re_frames rec = hist)"
  using simc.crash_recovery [of hist dur j d "fst (sim_crash flip r d)" now] jrun_jrepr [OF assms]
    jrun_every_frame [OF assms] by fastforce

theorem journal_crash_safe_witness:
  "\<exists>rec d'. journal_open_with sim_storage 3 small_cfg (fst (sim_crash True 7 small_disk)) = (Ok rec, d') \<and>
    re_frames rec = [demo_frame 1, demo_frame 2]"
  using journal_crash_safe [OF small_run, of 3 True 7] by (auto simp: small_cfg_def)

text \<open>
  C18. Appending from every reachable state, on every branch: the next frames are accepted, whatever their size, and after a
  sync a reader that opens the directory again gets the history with exactly these frames at its end, whether or not the batch
  rolled to a new segment; the one exception is a batch that has to roll although the file it would roll to exists (the active
  segment was emptied by a torn tail), which is refused with \<open>AlreadyExists\<close> and leaves the history as it was.
\<close>

theorem journal_append_reopen:
  assumes "jrun cfg j d hist dur" and "appendable j fs"
  shows "if needs_roll j (length (frames_bytes fs)) \<and> sim_content d (seg_path (jc_dir cfg) (seq_next (j_last_seq j))) \<noteq> None
    then \<exists>j1 d1 rec d2. journal_append_batch sim_storage now fs j d = (Err (Io AlreadyExists), j1, d1) \<and>
      journal_open_with sim_storage now cfg d1 = (Ok rec, d2) \<and> re_frames rec = hist
    else \<exists>j1 d1 j2 d2 rec d3. journal_append_batch sim_storage now fs j d = (Ok (), j1, d1) \<and>
      journal_sync sim_storage now j1 d1 = (Ok (), j2, d2) \<and> j_last_seq j2 = f_seq (last fs) \<and>
      journal_open_with sim_storage now cfg d2 = (Ok rec, d3) \<and> re_frames rec = hist @ fs"
    (is "if ?occupied then ?refused else ?accepted")
proof -
  have inv: "sim.jrepr hist dur j d" "j_config j = cfg" using jrun_jrepr [OF assms(1)] by simp_all
  have refused: ?refused if ?occupied
    using sim.batch_refused [OF inv(1), of fs now] assms(2) that inv(2) by (auto simp: appendable_def)
  have accepted: ?accepted if "\<not> ?occupied"
  proof -
    from sim.batch_jrepr [OF inv(1), of fs now] assms(2) that inv(2) obtain j1 d1 where
      b: "journal_append_batch sim_storage now fs j d = (Ok (), j1, d1)"
      "sim.jrepr (hist @ fs) (if j_dirty j1 then dur else length (hist @ fs)) j1 d1" "j_config j1 = cfg"
      by (auto simp: appendable_def)
    from sim.sync_jrepr [OF b(2), of now] b(3) obtain j2 d2 where
      s: "journal_sync sim_storage now j1 d1 = (Ok (), j2, d2)" "sim.jrepr (hist @ fs) (length (hist @ fs)) j2 d2"
        "\<not> j_dirty j2" "j_config j2 = cfg" "j_last_seq j2 = j_last_seq j1" by auto
    have "j_last_seq j1 = f_seq (last fs)"
      using batch_last_seq [OF b(1)] assms(2) by (simp add: appendable_def)
    with sim.reopen_jrepr [OF s(2,3), of now] s b show ?thesis by auto
  qed
  show ?thesis using refused accepted by simp
qed

theorem journal_append_reopen_witness:
  "\<exists>j1 d1 j2 d2 rec d3. journal_append_batch sim_storage 5 [demo_frame 1] (small_journal 0) sim_new = (Ok (), j1, d1) \<and>
    journal_sync sim_storage 5 j1 d1 = (Ok (), j2, d2) \<and>
    journal_open_with sim_storage 5 small_cfg d2 = (Ok rec, d3) \<and> re_frames rec = [demo_frame 1]"
proof -
  have "sim_content sim_new p = None" for p by (simp add: sim_content_def sim_new_def)
  with journal_append_reopen [OF small_start, of "[demo_frame 1]" 5] small_appendable [of 0] show ?thesis by auto
qed

text \<open>
  A batch with a gap anywhere (and so a single frame that is not the next one) is
  refused with \<open>OutOfOrderAppend\<close> before anything is written: journal and disk are unchanged.
\<close>

theorem journal_gap_refused:
  assumes "i < length fs" and "f_seq (fs ! i) \<noteq> seq_next (j_last_seq j) + of_nat i"
  shows "\<exists>e f. journal_append_batch S now fs j d = (Err (OutOfOrderAppend e f), j, d)"
proof -
  from check_contiguous_gap [OF assms] obtain e f where
    "check_contiguous (seq_next (j_last_seq j)) fs = Some (OutOfOrderAppend e f)" by blast
  with assms(1) show ?thesis by (cases "fs = []") (simp_all add: journal_append_batch_def)
qed

theorem journal_gap_refused_witness:
  "\<exists>e f. journal_append_batch sim_storage 0 [demo_frame 1, demo_frame 3] (small_journal 0) sim_new =
    (Err (OutOfOrderAppend e f), small_journal 0, sim_new)"
  by (rule journal_gap_refused [of 1]) (simp_all add: demo_frame_def seq_next_def small_journal_def)

text \<open>
  C20. Compaction below a cutoff succeeds on every reachable state and deletes exactly what it documents: every segment but the
  active (last) one whose frames are all at or below the cutoff. It returns the number of deleted segments,
  and a reader then finds exactly the frames that the remaining segments held, the deleted ones all being at or below the cutoff.
\<close>

theorem journal_compaction:
  assumes "jrun cfg j d hist dur" and "cutoff \<noteq> -1"
  shows "\<exists>n d' rec d''. compact_below sim_storage cutoff j d = (Ok n, d') \<and>
    n = card (segment_starts cfg d - segment_starts cfg d') \<and>
    segment_starts cfg d' = {s \<in> segment_starts cfg d. s = Max (segment_starts cfg d) \<or>
      (\<exists>f \<in> set hist. segment_holds cfg d s f \<and> cutoff < f_seq f)} \<and>
    journal_open_with sim_storage now cfg d' = (Ok rec, d'') \<and>
    re_frames rec = filter (\<lambda>f. \<exists>s \<in> segment_starts cfg d'. segment_holds cfg d s f) hist \<and>
    (\<forall>f \<in> set hist - set (re_frames rec). f_seq f \<le> cutoff)"
proof -
  have inv: "sim.jrepr hist dur j d" "j_config j = cfg" using jrun_jrepr [OF assms(1)] by simp_all
  from inv(1) show ?thesis
  proof (cases rule: sim.jrepr_cases)
    case 1
    then have "seg_path (jc_dir cfg) x \<notin> sim.seg_files (jc_dir cfg) d" for x using inv(2) by (simp add: sim.jempty_def)
    then have "segment_starts cfg d = {}" by (simp add: sim.seg_files_def segment_starts_def)
    moreover have "compact_below sim_storage cutoff j d = (Ok 0, d)"
      using 1 sim.list_segments_files [of d "jc_dir (j_config j)"] by (auto simp: sim.jempty_def compact_below_def Let_def)
    moreover have "hist = []" using 1 by simp
    ultimately show ?thesis using sim.open_frames [OF inv(1), of now] inv(2) by auto
  next
    case (2 s gs act k)
    have hist: "layout_frames (gs @ [act]) = hist" using 2(2) by simp
    from compact_exact [OF 2(1) assms(2)] obtain n d' gs1 gs2 where
      c: "compact_below sim_storage cutoff j d = (Ok n, d')" "gs = gs1 @ gs2"
        "n = card (segment_starts cfg d - segment_starts cfg d')"
        "sim.jinv (s + of_nat (length (layout_frames gs1))) gs2 act k j d'"
        "segment_starts cfg d' = {s \<in> segment_starts cfg d. s = Max (segment_starts cfg d) \<or>
          (\<exists>f \<in> set hist. segment_holds cfg d s f \<and> cutoff < f_seq f)}"
        "\<forall>f \<in> set (layout_frames gs1). f_seq f \<le> cutoff" unfolding hist inv(2) by blast
    from sim.open_frames [OF sim.jrepr_jinvI [OF c(4) le0], of now] inv(2) obtain rec d'' where
      r: "journal_open_with sim_storage now cfg d' = (Ok rec, d'')" "re_frames rec = layout_frames (gs2 @ [act])" by auto
    have "re_frames rec = filter (\<lambda>f. \<exists>s \<in> segment_starts cfg d'. segment_holds cfg d s f) hist"
      using kept_frames [OF 2(1) c(2,4)] r(2) 2(2) inv(2) by simp
    moreover have "\<forall>f \<in> set hist - set (re_frames rec). f_seq f \<le> cutoff"
      using c(6) r(2) 2(2) c(2) by auto
    ultimately show ?thesis using c(1,3,5) r(1) by blast
  qed
qed

theorem journal_compaction_witness:
  "\<exists>d' rec d''. compact_below sim_storage 1 (small_journal 2) small_disk = (Ok 1, d') \<and> segment_starts small_cfg d' = {2} \<and>
    journal_open_with sim_storage 2 small_cfg d' = (Ok rec, d'') \<and> re_frames rec = [demo_frame 2]"
proof -
  have st: "segment_starts small_cfg small_disk = {1, 2}"
    by (auto simp: segment_starts_def sim_content_def seg_file_def bt_get_def small_cfg_def split: if_splits)
  then have h: "segment_holds small_cfg small_disk 1 (demo_frame 1)" "\<not> segment_holds small_cfg small_disk 1 (demo_frame 2)"
    "segment_holds small_cfg small_disk 2 (demo_frame 2)" "\<not> segment_holds small_cfg small_disk 2 (demo_frame 1)"
    by (simp_all add: segment_holds_def demo_frame_def word_le_nat_alt word_less_nat_alt)
  from journal_compaction [OF small_run, of 1 2] obtain n d' rec d'' where
    c: "compact_below sim_storage 1 (small_journal 2) small_disk = (Ok n, d')"
      "n = card (segment_starts small_cfg small_disk - segment_starts small_cfg d')"
      "segment_starts small_cfg d' = {s \<in> segment_starts small_cfg small_disk. s = Max (segment_starts small_cfg small_disk) \<or>
        (\<exists>f \<in> set [demo_frame 1, demo_frame 2]. segment_holds small_cfg small_disk s f \<and> 1 < f_seq f)}"
      "journal_open_with sim_storage 2 small_cfg d' = (Ok rec, d'')"
      "re_frames rec = filter (\<lambda>f. \<exists>s \<in> segment_starts small_cfg d'. segment_holds small_cfg small_disk s f)
        [demo_frame 1, demo_frame 2]" by auto
  have "Max {1, 2 :: u64} = 2" by simp
  with c(3) h have st': "segment_starts small_cfg d' = {2}" by (auto simp: st demo_frame_def)
  then have "n = 1" using c(2) by (simp add: st insert_Diff_if)
  moreover have "re_frames rec = [demo_frame 2]" using c(5) h by (simp add: st')
  ultimately show ?thesis using c(1,4) st' by blast
qed

text \<open>
  C19. Bit rot in a sealed segment is never served: whatever synced bit of whatever segment
  but the last is flipped, opening the journal is an error.
\<close>

theorem journal_rot_detected:
  assumes "jrun cfg j d hist dur" and "sim_content d p \<noteq> None" and "sim_content d q \<noteq> None" and "p < q"
    and "fst p = jc_dir cfg" and "fst q = jc_dir cfg" and "extension p = Some ''seg''" and "extension q = Some ''seg''"
    and "sim_rot_synced_byte p off n d = Some d'"
  shows "\<exists>e d''. journal_open_with sim_storage now cfg d' = (Err e, d'')"
proof -
  have inv: "sim.jrepr hist dur j d" "j_config j = cfg" using jrun_jrepr [OF assms(1)] by simp_all
  from sealed_path_cases [OF inv(1) assms(2-4)] assms(5-8) inv(2) obtain s gs act k g where
    g: "sim.jinv s gs act k j d" "g \<in> set gs" "p = sg_path (jc_dir (j_config j)) g" by auto
  from rot_disk [OF this assms(9)] obtain b where
    "off < length (sg_bytes g)" "b \<noteq> sg_bytes g ! off" "sim_ok d'"
    "sim_content d' = (sim_content d)(p \<mapsto> (sg_bytes g)[off := b])" by blast
  with sim.rotten_open [OF g(1,2)] g(3) inv(2) show ?thesis by metis
qed

theorem journal_rot_detected_witness:
  "\<exists>d' e d''. sim_rot_synced_byte (seg_path ''j'' 1) 30 2 small_disk = Some d' \<and>
    journal_open_with sim_storage 4 small_cfg d' = (Err e, d'')"
proof -
  have f: "seg_path ''j'' 1 < seg_path ''j'' 2" by (simp add: seg_path_less_iff)
  have "sim_content small_disk (seg_path ''j'' 1) \<noteq> None" "sim_content small_disk (seg_path ''j'' 2) \<noteq> None"
    by (simp_all add: sim_content_def seg_file_def bt_get_def)
  note files = this
  obtain d' where rot: "sim_rot_synced_byte (seg_path ''j'' 1) 30 2 small_disk = Some d'"
    by (auto simp: sim_rot_synced_byte_def seg_file_def bt_get_def demo_frame_def)
  from journal_rot_detected [OF small_run files f _ _ _ _ rot, of 4] rot show ?thesis
    by (simp add: small_cfg_def)
qed

end
