(* ===== verification/Snapshot.thy ===== *)
theory Snapshot
  imports Journal_Safety
begin

text \<open>
  \<open>ticktape-journal/src/snapshot.rs\<close>: snapshot files, \<open>{seq:020}.snap\<close> beside the segments. A
  file is read only when it is complete and both checksums match; everything else is skipped.
\<close>

section \<open>Format\<close>

definition SNAPSHOT_MAGIC :: bytes where
  "SNAPSHOT_MAGIC = [0x54, 0x4B, 0x54, 0x53]"

definition SNAPSHOT_HEADER_LEN :: nat where
  "SNAPSHOT_HEADER_LEN = 32"

record loaded_snapshot =
  ls_seq :: seq
  ls_epoch :: u64
  ls_payload :: bytes

definition snapshot_header :: "seq \<Rightarrow> u64 \<Rightarrow> bytes \<Rightarrow> bytes" where
  "snapshot_header s ep payload =
     SNAPSHOT_MAGIC @ to_le_bytes FORMAT_VERSION @ to_le_bytes s @ to_le_bytes ep
       @ to_le_bytes (of_nat (length payload) :: u32)"

definition snapshot_bytes :: "seq \<Rightarrow> u64 \<Rightarrow> bytes \<Rightarrow> bytes" where
  "snapshot_bytes s ep payload =
     (let h = snapshot_header s ep payload
      in h @ to_le_bytes (crc32c h) @ payload @ to_le_bytes (crc32c payload))"

definition parse_snapshot :: "bytes \<Rightarrow> loaded_snapshot option" where
  "parse_snapshot bs =
     (if length bs < SNAPSHOT_HEADER_LEN + 4 \<or> take 4 bs \<noteq> SNAPSHOT_MAGIC then None
      else if (from_le_bytes (slice 4 8 bs) :: u32) \<noteq> FORMAT_VERSION then None
      else if crc32c (take 28 bs) \<noteq> from_le_bytes (slice 28 32 bs) then None
      else
        let payload_len = unat (from_le_bytes (slice 24 28 bs) :: u32);
            tot = SNAPSHOT_HEADER_LEN + payload_len + 4
        in if length bs < tot then None
        else
          let payload = slice SNAPSHOT_HEADER_LEN (SNAPSHOT_HEADER_LEN + payload_len) bs
          in if crc32c payload \<noteq> from_le_bytes (slice (tot - 4) tot bs) then None
          else Some \<lparr>ls_seq = from_le_bytes (slice 8 16 bs), ls_epoch = from_le_bytes (slice 16 24 bs),
                     ls_payload = payload\<rparr>)"

section \<open>The store\<close>

definition snap_path :: "string \<Rightarrow> seq \<Rightarrow> path" where
  "snap_path dir s = (dir, dec20 s @ ''.snap'')"

definition sio :: "('a, 'd) io \<Rightarrow> ('a, journal_error) result \<times> 'd" where
  "sio r = (map_err Io (fst r), snd r)"

definition snap_write ::
  "('d, 'f) storage \<Rightarrow> string \<Rightarrow> seq \<Rightarrow> u64 \<Rightarrow> bytes \<Rightarrow> 'd \<Rightarrow> (unit, journal_error) result \<times> 'd"
where
  "snap_write S dir s ep payload d =
     sbind (sio (st_create_new S (snap_path dir s) d)) (\<lambda>f d.
     sbind (sio (st_write_all S f (snapshot_bytes s ep payload) d)) (\<lambda>_ d.
     sbind (sio (st_sync_data S f d)) (\<lambda>_ d.
     sio (st_sync_dir S dir d))))"

definition list_snaps :: "('d, 'f) storage \<Rightarrow> string \<Rightarrow> 'd \<Rightarrow> (path list, journal_error) result" where
  "list_snaps S dir d =
     rbind (map_err Io (st_list_dir S dir d)) (\<lambda>ps. Ok (filter (\<lambda>p. extension p = Some ''snap'') ps))"

text \<open>The file behind a path, when it is a valid snapshot with \<open>seq <= max_seq\<close>.\<close>

definition snap_at :: "('d, 'f) storage \<Rightarrow> seq \<Rightarrow> 'd \<Rightarrow> path \<Rightarrow> loaded_snapshot option" where
  "snap_at S max_seq d p =
     (case st_read S p d of
        Err _ \<Rightarrow> None
      | Ok bs \<Rightarrow>
          (case parse_snapshot bs of
             None \<Rightarrow> None
           | Some snap \<Rightarrow> if ls_seq snap \<le> max_seq then Some snap else None))"

fun first_some :: "('a \<Rightarrow> 'b option) \<Rightarrow> 'a list \<Rightarrow> 'b option" where
  "first_some f [] = None"
| "first_some f (x # xs) = (case f x of Some y \<Rightarrow> Some y | None \<Rightarrow> first_some f xs)"

definition load_latest ::
  "('d, 'f) storage \<Rightarrow> string \<Rightarrow> seq \<Rightarrow> 'd \<Rightarrow> (loaded_snapshot option, journal_error) result"
where
  "load_latest S dir max_seq d =
     rbind (list_snaps S dir d) (\<lambda>ps. Ok (first_some (snap_at S max_seq d) (rev (sort ps))))"

definition load_candidates ::
  "('d, 'f) storage \<Rightarrow> string \<Rightarrow> seq \<Rightarrow> 'd \<Rightarrow> (loaded_snapshot list, journal_error) result"
where
  "load_candidates S dir max_seq d =
     rbind (list_snaps S dir d) (\<lambda>ps. Ok (List.map_filter (snap_at S max_seq d) (rev (sort ps))))"

definition high_water_seq :: "('d, 'f) storage \<Rightarrow> string \<Rightarrow> 'd \<Rightarrow> (seq, journal_error) result" where
  "high_water_seq S dir d =
     rbind (list_snaps S dir d) (\<lambda>ps. Ok (fold max (List.map_filter (\<lambda>p. parse_u64 (file_stem p)) ps) 0))"

fun remove_all :: "('d, 'f) storage \<Rightarrow> path list \<Rightarrow> 'd \<Rightarrow> (unit, journal_error) result \<times> 'd" where
  "remove_all S [] d = (Ok (), d)"
| "remove_all S (p # ps) d =
     (case st_remove S p d of (Ok _, d) \<Rightarrow> remove_all S ps d | (Err e, d) \<Rightarrow> (Err (Io e), d))"

definition snap_stale :: "seq \<Rightarrow> path \<Rightarrow> bool" where
  "snap_stale max_seq p =
     (extension p = Some ''snap'' \<and> (case parse_u64 (file_stem p) of Some s \<Rightarrow> s > max_seq | None \<Rightarrow> False))"

definition purge_after :: "('d, 'f) storage \<Rightarrow> string \<Rightarrow> seq \<Rightarrow> 'd \<Rightarrow> (unit, journal_error) result \<times> 'd" where
  "purge_after S dir max_seq d =
     (case st_list_dir S dir d of
        Err e \<Rightarrow> (Err (Io e), d)
      | Ok ps \<Rightarrow>
          sbind (remove_all S (filter (snap_stale max_seq) ps) d) (\<lambda>_ d. sio (st_sync_dir S dir d)))"

definition prune_keep_newest ::
  "('d, 'f) storage \<Rightarrow> string \<Rightarrow> nat \<Rightarrow> 'd \<Rightarrow> (seq option, journal_error) result \<times> 'd"
where
  "prune_keep_newest S dir keep d =
     (let keep = max keep 1 in
      case list_snaps S dir d of
        Err e \<Rightarrow> (Err e, d)
      | Ok ps \<Rightarrow>
          let entries = sort_key fst
                (List.map_filter (\<lambda>p. map_option (\<lambda>s. (s, p)) (parse_u64 (file_stem p))) ps) in
          if length entries > keep then
            let n = length entries - keep in
            sbind (remove_all S (map snd (take n entries)) d) (\<lambda>_ d.
            sbind (sio (st_sync_dir S dir d)) (\<lambda>_ d.
              (Ok (if n < length entries then Some (fst (entries ! n)) else None), d)))
          else (Ok (if entries = [] then None else Some (fst (hd entries))), d))"

section \<open>Reading back\<close>

lemma length_snapshot_header [simp]: "length (snapshot_header s ep p) = 28"
  by (simp add: snapshot_header_def SNAPSHOT_MAGIC_def)

lemma snapshot_bytes_blocks: "snapshot_bytes s ep p = crc_block (snapshot_header s ep p) @ crc_block p"
  by (simp add: snapshot_bytes_def crc_block_def Let_def)

lemma snapshot_header_slices:
  "take 4 (snapshot_header s ep p @ r) = SNAPSHOT_MAGIC"
  "slice 4 8 (snapshot_header s ep p @ r) = to_le_bytes FORMAT_VERSION"
  "slice 8 16 (snapshot_header s ep p @ r) = to_le_bytes s"
  "slice 16 24 (snapshot_header s ep p @ r) = to_le_bytes ep"
  "slice 24 28 (snapshot_header s ep p @ r) = to_le_bytes (of_nat (length p) :: u32)"
  by (simp_all add: snapshot_header_def SNAPSHOT_MAGIC_def slice_def)

lemma parse_snapshot_header:
  assumes "length p < 2 ^ 32" and "4 \<le> length rest"
  shows "parse_snapshot (crc_block (snapshot_header s ep p) @ rest) =
    (if length rest < length p + 4 then None
     else if crc32c (take (length p) rest) \<noteq> from_le_bytes (slice (length p) (length p + 4) rest) then None
     else Some \<lparr>ls_seq = s, ls_epoch = ep, ls_payload = take (length p) rest\<rparr>)"
proof -
  let ?h = "snapshot_header s ep p" and ?bs = "crc_block (snapshot_header s ep p) @ rest"
  have bs: "?bs = ?h @ to_le_bytes (crc32c ?h) @ rest" by (simp add: crc_block_def)
  have pl: "unat (of_nat (length p) :: u32) = length p" using assms(1) by (intro unat_of_nat_small) simp
  have "take 28 ?bs = ?h" "slice 28 32 ?bs = to_le_bytes (crc32c ?h)"
    "slice 32 (32 + length p) ?bs = take (length p) rest"
    "slice (32 + length p) (36 + length p) ?bs = slice (length p) (length p + 4) rest"
    by (simp_all add: bs slice_def)
  with assms(2) show ?thesis
    unfolding parse_snapshot_def SNAPSHOT_HEADER_LEN_def bs snapshot_header_slices
    by (simp add: pl Let_def add.commute)
qed

lemma parse_snapshot_bytes:
  "length p < 2 ^ 32 \<Longrightarrow>
     parse_snapshot (snapshot_bytes s ep p @ r) = Some \<lparr>ls_seq = s, ls_epoch = ep, ls_payload = p\<rparr>"
  using parse_snapshot_header [of p "crc_block p @ r" s ep]
  by (simp add: snapshot_bytes_blocks) (simp add: crc_block_def slice_def)

lemma parse_snapshot_header_corrupt:
  assumes "i < 32" and "b \<noteq> crc_block (snapshot_header s ep p) ! i"
  shows "parse_snapshot ((crc_block (snapshot_header s ep p))[i := b] @ rest) = None"
proof -
  let ?bs = "(crc_block (snapshot_header s ep p))[i := b] @ rest"
  have "crc32c (take 28 ?bs) \<noteq> from_le_bytes (slice 28 32 ?bs)"
    using crc_block_corrupt [of i "snapshot_header s ep p" b] assms by (simp add: slice_def)
  then show ?thesis by (simp add: parse_snapshot_def)
qed

lemma damaged_block:
  assumes "damaged (crc_block p) y" and "y \<noteq> crc_block p"
  shows "length y < length p + 4 \<or>
    (length y = length p + 4 \<and> crc32c (take (length p) y) \<noteq> from_le_bytes (drop (length p) y))"
proof -
  from assms(1) obtain m where m: "m \<le> length p + 4"
    and y: "y = take m (crc_block p) \<or> (\<exists>i b. i < m \<and> y = (take m (crc_block p))[i := b])"
    by (auto simp: damaged_def)
  show ?thesis
  proof (cases "m < length p + 4")
    case True
    with y show ?thesis by auto
  next
    case False
    with m have t: "take m (crc_block p) = crc_block p" by simp
    with y assms(2) obtain i b where ib: "i < length p + 4" "y = (crc_block p)[i := b]" using m by auto
    then have "b \<noteq> crc_block p ! i" using assms(2) by auto
    with crc_block_corrupt [OF ib(1) this] ib(2) show ?thesis by simp
  qed
qed

text \<open>What a power loss leaves of a snapshot file is the snapshot or it is skipped.\<close>

lemma damaged_snapshot:
  assumes "length p < 2 ^ 32" and "damaged (snapshot_bytes s ep p) x" and "x \<noteq> snapshot_bytes s ep p"
  shows "parse_snapshot x = None"
proof -
  let ?w = "crc_block (snapshot_header s ep p)"
  from damaged_append [of ?w "crc_block p" x] assms(2)
  consider "damaged ?w x" | y where "x = ?w @ y" "damaged (crc_block p) y"
    | i b rest where "i < length ?w" "b \<noteq> ?w ! i" "x = ?w[i := b] @ rest"
    by (auto simp only: snapshot_bytes_blocks)
  then show ?thesis
  proof cases
    case 1
    then have "length x \<le> 32" by (auto simp: damaged_def)
    then show ?thesis by (simp add: parse_snapshot_def SNAPSHOT_HEADER_LEN_def)
  next
    case 2
    with assms(3) have "y \<noteq> crc_block p" by (auto simp: snapshot_bytes_blocks)
    from damaged_block [OF 2(2) this] show ?thesis
    proof
      assume l: "length y < length p + 4"
      show ?thesis
      proof (cases "4 \<le> length y")
        case True
        with l parse_snapshot_header [OF assms(1) True] 2(1) show ?thesis by simp
      next
        case False
        with 2(1) show ?thesis by (simp add: parse_snapshot_def SNAPSHOT_HEADER_LEN_def)
      qed
    next
      assume "length y = length p + 4 \<and> crc32c (take (length p) y) \<noteq> from_le_bytes (drop (length p) y)"
      with parse_snapshot_header [OF assms(1), of y] 2(1) show ?thesis by (simp add: slice_def)
    qed
  next
    case 3
    then show ?thesis using parse_snapshot_header_corrupt by simp
  qed
qed

section \<open>Writing and loading\<close>

lemma snap_path_less_iff: "snap_path dir s < snap_path dir t \<longleftrightarrow> s < t"
proof -
  have "length (dec20 s) = length (dec20 t)" by (simp add: dec20_def)
  then show ?thesis by (simp add: snap_path_def list_less_append dec20_less_iff)
qed

lemma snap_path_parts [simp]:
  "fst (snap_path dir s) = dir" "extension (snap_path dir s) = Some ''snap''" "file_stem (snap_path dir s) = dec20 s"
  by (simp_all add: snap_path_def extension_def file_stem_def rsplit_dot_append dec20_nonempty)

lemma sort_insert_max:
  assumes "distinct ps" and "distinct qs" and "set qs = insert x (set ps)" and "\<forall>p \<in> set ps. p < x"
  shows "sort qs = sort ps @ [x]"
proof (rule sorted_distinct_set_unique)
  show "sorted (sort ps @ [x])" using assms(4) by (auto simp: sorted_append less_imp_le)
  show "distinct (sort ps @ [x])" using assms(1,4) by auto
qed (use assms in auto)

lemma first_some_cong: "(\<And>x. x \<in> set xs \<Longrightarrow> f x = g x) \<Longrightarrow> first_some f xs = first_some g xs"
  by (induction xs) (auto split: option.splits)

context storage_laws
begin

definition snap_files :: "string \<Rightarrow> 'd \<Rightarrow> path set" where
  "snap_files dir d = {p. fst p = dir \<and> extension p = Some ''snap'' \<and> content d p \<noteq> None}"

lemma list_snaps_files:
  "ok d \<Longrightarrow> \<exists>ps. list_snaps S dir d = Ok ps \<and> distinct ps \<and> set ps = snap_files dir d"
  using list_dir [of d dir] by (auto simp: list_snaps_def snap_files_def)

lemma snap_at_cong: "ok d \<Longrightarrow> ok d' \<Longrightarrow> content d p = content d' p \<Longrightarrow> snap_at S m d p = snap_at S m d' p"
  by (simp add: snap_at_def read)

text \<open>A disk with one more snapshot file, newer than all others.\<close>

lemma load_latest_added:
  assumes "ok d" and "ok d'" and newest: "\<forall>p \<in> snap_files dir d. p < snap_path dir s"
    and fc: "content d' (snap_path dir s) = Some bs" and others: "\<forall>p \<in> snap_files dir d. content d' p = content d p"
    and files: "snap_files dir d' = insert (snap_path dir s) (snap_files dir d)"
  shows "load_latest S dir m d' =
    (case (case parse_snapshot bs of Some snap \<Rightarrow> if ls_seq snap \<le> m then Some snap else None | None \<Rightarrow> None) of
       Some snap \<Rightarrow> Ok (Some snap) | None \<Rightarrow> load_latest S dir m d)"
proof -
  obtain ps where ps: "list_snaps S dir d = Ok ps" "distinct ps" "set ps = snap_files dir d"
    using list_snaps_files [OF assms(1)] by blast
  obtain qs where qs: "list_snaps S dir d' = Ok qs" "distinct qs" "set qs = snap_files dir d'"
    using list_snaps_files [OF assms(2)] by blast
  have "sort qs = sort ps @ [snap_path dir s]"
    using ps qs files newest by (intro sort_insert_max) auto
  moreover have "first_some (snap_at S m d') (rev (sort ps)) = first_some (snap_at S m d) (rev (sort ps))"
    using assms(1,2) others ps(3) by (intro first_some_cong snap_at_cong) auto
  moreover have "snap_at S m d' (snap_path dir s) =
      (case parse_snapshot bs of Some snap \<Rightarrow> if ls_seq snap \<le> m then Some snap else None | None \<Rightarrow> None)"
    using fc by (auto simp: snap_at_def read [OF assms(2)] split: option.splits)
  ultimately show ?thesis
    using ps(1) qs(1) by (auto simp: load_latest_def split: option.splits)
qed

lemma snap_create_write:
  assumes "ok d" and "content d (snap_path dir s) = None"
  shows "\<exists>f d1 d2. st_create_new S (snap_path dir s) d = (Ok f, d1) \<and>
    st_write_all S f (snapshot_bytes s ep p) d1 = (Ok (), d2) \<and> ok d2 \<and> live f d2 = Some (snap_path dir s) \<and>
    content d2 = (content d)(snap_path dir s \<mapsto> snapshot_bytes s ep p) \<and>
    stable d2 = (stable d)(snap_path dir s \<mapsto> [])"
proof -
  from create_new_fresh [OF assms] obtain f d1 where d1: "st_create_new S (snap_path dir s) d = (Ok f, d1)" "ok d1"
      "live f d1 = Some (snap_path dir s)" "content d1 = (content d)(snap_path dir s \<mapsto> [])"
      "stable d1 = (stable d)(snap_path dir s \<mapsto> [])" by blast
  with write_all [OF d1(2,3), of "[]" "snapshot_bytes s ep p"] show ?thesis by fastforce
qed

lemma snap_write_ok:
  assumes "ok d" and "content d (snap_path dir s) = None"
  shows "\<exists>d'. snap_write S dir s ep p d = (Ok (), d') \<and> ok d' \<and>
    content d' = (content d)(snap_path dir s \<mapsto> snapshot_bytes s ep p) \<and>
    stable d' = (stable d)(snap_path dir s \<mapsto> snapshot_bytes s ep p)"
proof -
  from snap_create_write [OF assms] obtain f d1 d2 where
    d2: "st_create_new S (snap_path dir s) d = (Ok f, d1)" "st_write_all S f (snapshot_bytes s ep p) d1 = (Ok (), d2)"
      "ok d2" "live f d2 = Some (snap_path dir s)"
      "content d2 = (content d)(snap_path dir s \<mapsto> snapshot_bytes s ep p)" "stable d2 = (stable d)(snap_path dir s \<mapsto> [])"
    by blast
  from sync_data [OF d2(3,4)] obtain d3 where d3: "st_sync_data S f d2 = (Ok (), d3)" "ok d3" "content d3 = content d2"
      "stable d3 = (stable d2)(snap_path dir s := content d2 (snap_path dir s))" by blast
  from sync_dir [OF d3(2)] obtain d4 where d4: "st_sync_dir S dir d3 = (Ok (), d4)" "ok d4" "content d4 = content d3"
      "stable d4 = stable d3" by metis
  show ?thesis
    using d2 d3 d4 by (intro exI [of _ d4]) (simp add: snap_write_def sio_def)
qed

lemma snap_files_added:
  "content d' = (content d)(snap_path dir s \<mapsto> bs) \<Longrightarrow> snap_files dir d' = insert (snap_path dir s) (snap_files dir d)"
  by (auto simp: snap_files_def)

end

context crashing_storage
begin

lemma power_loss_snap_files: "ok d \<Longrightarrow> power_loss d d' \<Longrightarrow> snap_files dir d' = snap_files dir d"
  using power_loss_files [of d d'] by (auto simp: snap_files_def)

text \<open>Power lost while a snapshot is being written, before it is synced.\<close>

lemma snap_write_crash:
  assumes okd: "ok d" and fresh: "content d (snap_path dir s) = None" and "length p < 2 ^ 32"
    and newest: "\<forall>q \<in> snap_files dir d. q < snap_path dir s \<and> content d q = stable d q"
    and w: "st_create_new S (snap_path dir s) d = (Ok f, d1)" "st_write_all S f (snapshot_bytes s ep p) d1 = (Ok (), d2)"
    and pl: "power_loss d2 d3"
  shows "load_latest S dir m d3 = load_latest S dir m d \<or>
    load_latest S dir m d3 = Ok (Some \<lparr>ls_seq = s, ls_epoch = ep, ls_payload = p\<rparr>)"
proof -
  let ?P = "snap_path dir s"
  from snap_create_write [OF okd fresh, of ep p] w have
    d2: "ok d2" "content d2 = (content d)(?P \<mapsto> snapshot_bytes s ep p)" "stable d2 = (stable d)(?P \<mapsto> [])" by auto
  from power_loss_content [OF d2(1) pl, of ?P "snapshot_bytes s ep p" "[]"] d2(2,3) obtain bs where
    bs: "content d3 ?P = Some bs" "survives [] ([] @ snapshot_bytes s ep p) bs" by auto
  from survives_damaged [OF bs(2)] have dam: "damaged (snapshot_bytes s ep p) bs" by simp
  have okd3: "ok d3" by (rule power_loss_ok [OF d2(1) pl])
  have others: "\<forall>q \<in> snap_files dir d. content d3 q = content d q"
  proof
    fix q assume q: "q \<in> snap_files dir d"
    then have "q \<noteq> ?P" using fresh by (auto simp: snap_files_def)
    moreover have "content d q = stable d q" using newest q by blast
    ultimately show "content d3 q = content d q"
      using power_loss_synced [OF d2(1) pl, of q] d2(2,3) by simp
  qed
  have "snap_files dir d3 = insert ?P (snap_files dir d)"
    using power_loss_snap_files [OF d2(1) pl, of dir] snap_files_added [OF d2(2)] by simp
  with load_latest_added [OF okd okd3 _ bs(1) others, of m] newest have
    l: "load_latest S dir m d3 = (case (case parse_snapshot bs of Some snap \<Rightarrow> if ls_seq snap \<le> m then Some snap else None
       | None \<Rightarrow> None) of Some snap \<Rightarrow> Ok (Some snap) | None \<Rightarrow> load_latest S dir m d)" by blast
  show ?thesis
  proof (cases "bs = snapshot_bytes s ep p")
    case True
    with l parse_snapshot_bytes [OF assms(3), of s ep "[]"] show ?thesis by (auto split: if_splits)
  next
    case False
    with l damaged_snapshot [OF assms(3) dam] show ?thesis by simp
  qed
qed

lemma snap_write_load:
  assumes okd: "ok d" and fresh: "content d (snap_path dir s) = None" and "length p < 2 ^ 32"
    and newest: "\<forall>q \<in> snap_files dir d. q < snap_path dir s \<and> content d q = stable d q" and "s \<le> m"
  shows "\<exists>d'. snap_write S dir s ep p d = (Ok (), d') \<and>
    load_latest S dir m d' = Ok (Some \<lparr>ls_seq = s, ls_epoch = ep, ls_payload = p\<rparr>) \<and>
    (\<forall>d''. power_loss d' d'' \<longrightarrow> load_latest S dir m d'' = Ok (Some \<lparr>ls_seq = s, ls_epoch = ep, ls_payload = p\<rparr>))"
proof -
  let ?P = "snap_path dir s" and ?snap = "\<lparr>ls_seq = s, ls_epoch = ep, ls_payload = p\<rparr>"
  from snap_write_ok [OF okd fresh, of ep p] obtain d' where
    d': "snap_write S dir s ep p d = (Ok (), d')" "ok d'" "content d' = (content d)(?P \<mapsto> snapshot_bytes s ep p)"
      "stable d' = (stable d)(?P \<mapsto> snapshot_bytes s ep p)" by blast
  have parse: "parse_snapshot (snapshot_bytes s ep p) = Some ?snap"
    using parse_snapshot_bytes [OF assms(3), of s ep "[]"] by simp
  have keep: "load_latest S dir m d'' = Ok (Some ?snap)"
    if "ok d''" "content d'' ?P = Some (snapshot_bytes s ep p)" "\<forall>q \<in> snap_files dir d. content d'' q = content d q"
      "snap_files dir d'' = insert ?P (snap_files dir d)" for d''
    using load_latest_added [OF okd that(1) _ that(2,3,4), of m] newest parse assms(5) by simp
  have "load_latest S dir m d' = Ok (Some ?snap)"
    using d' fresh snap_files_added [OF d'(3)] by (intro keep) (auto simp: snap_files_def)
  moreover have "load_latest S dir m d'' = Ok (Some ?snap)" if pl: "power_loss d' d''" for d''
  proof (rule keep)
    show "ok d''" by (rule power_loss_ok [OF d'(2) pl])
    show "content d'' ?P = Some (snapshot_bytes s ep p)"
      using power_loss_synced [OF d'(2) pl, of ?P] d'(3,4) by simp
    show "\<forall>q \<in> snap_files dir d. content d'' q = content d q"
    proof
      fix q assume q: "q \<in> snap_files dir d"
      then have "q \<noteq> ?P" using fresh by (auto simp: snap_files_def)
      moreover have "content d q = stable d q" using newest q by blast
      ultimately show "content d'' q = content d q" using power_loss_synced [OF d'(2) pl, of q] d'(3,4) by simp
    qed
    show "snap_files dir d'' = insert ?P (snap_files dir d)"
      using power_loss_snap_files [OF d'(2) pl, of dir] snap_files_added [OF d'(3)] by simp
  qed
  ultimately show ?thesis using d'(1) by blast
qed

end

section \<open>Properties\<close>

definition newest_snapshot :: "string \<Rightarrow> seq \<Rightarrow> sim_disk \<Rightarrow> bool" where
  "newest_snapshot dir s d \<longleftrightarrow> sim_ok d \<and> sim_content d (snap_path dir s) = None \<and>
     (\<forall>q \<in> sim.snap_files dir d. q < snap_path dir s \<and> sim_content d q = sim_stable d q)"

text \<open>
  A snapshot that \<open>write\<close> returned for is what \<open>load_latest\<close> finds, with its exact sequence
  number and payload, and it still is after any power loss.
\<close>

theorem snapshot_durable:
  assumes "newest_snapshot dir s d" and "length p < 2 ^ 32" and "s \<le> m"
  shows "\<exists>d'. snap_write sim_storage dir s ep p d = (Ok (), d') \<and>
    load_latest sim_storage dir m d' = Ok (Some \<lparr>ls_seq = s, ls_epoch = ep, ls_payload = p\<rparr>) \<and>
    (\<forall>flip r. load_latest sim_storage dir m (fst (sim_crash flip r d')) =
       Ok (Some \<lparr>ls_seq = s, ls_epoch = ep, ls_payload = p\<rparr>))"
  using simc.snap_write_load [of d dir s p m ep] assms
  by (auto simp: newest_snapshot_def)

lemma newest_snapshot_new: "newest_snapshot dir s sim_new"
  by (simp add: newest_snapshot_def sim_ok_def sim_new_def sim_content_def sim.snap_files_def)

theorem snapshot_durable_witness:
  "\<exists>d'. snap_write sim_storage ''j'' 40 0 [1, 2, 3] sim_new = (Ok (), d') \<and>
    load_latest sim_storage ''j'' 50 (fst (sim_crash True 3 d')) =
      Ok (Some \<lparr>ls_seq = 40, ls_epoch = 0, ls_payload = [1, 2, 3]\<rparr>)"
  using snapshot_durable [OF newest_snapshot_new, of "[1, 2, 3]" 40 50 "''j''" 0] by auto

text \<open>
  A power loss in the middle of writing a snapshot, with whatever prefix of it and
  whatever flipped bit reached the disk, never makes recovery load a wrong state: \<open>load_latest\<close>
  finds the complete new snapshot or exactly what it found before.
\<close>

theorem snapshot_torn_write_skipped:
  assumes "newest_snapshot dir s d" and "length p < 2 ^ 32"
    and "sim_create_new (snap_path dir s) d = (Ok f, d1)"
    and "sim_write_all f (snapshot_bytes s ep p) d1 = (Ok (), d2)"
  shows "load_latest sim_storage dir m (fst (sim_crash flip r d2)) = load_latest sim_storage dir m d \<or>
    load_latest sim_storage dir m (fst (sim_crash flip r d2)) =
      Ok (Some \<lparr>ls_seq = s, ls_epoch = ep, ls_payload = p\<rparr>)"
  using assms
  by (intro simc.snap_write_crash [of d dir s p f d1 ep d2])
    (auto simp: newest_snapshot_def sim_storage_def)

theorem snapshot_torn_write_skipped_witness:
  "\<exists>f d1 d2. sim_create_new (snap_path ''j'' 4) sim_new = (Ok f, d1) \<and>
    sim_write_all f (snapshot_bytes 4 0 [9]) d1 = (Ok (), d2) \<and>
    load_latest sim_storage ''j'' 9 (fst (sim_crash True 5 d2)) \<in>
      {Ok None, Ok (Some \<lparr>ls_seq = 4, ls_epoch = 0, ls_payload = [9]\<rparr>)}"
proof -
  have w: "\<exists>f d1 d2. sim_create_new (snap_path ''j'' 4) sim_new = (Ok f, d1) \<and>
      sim_write_all f (snapshot_bytes 4 0 [9]) d1 = (Ok (), d2)"
    by (simp add: sim_create_new_def sim_new_def bt_contains_def sim_write_all_def with_data_def bt_get_def)
  have "load_latest sim_storage ''j'' 9 sim_new = Ok None"
    by (simp add: load_latest_def list_snaps_def sim_storage_def sim_list_dir_def sim_new_def)
  with w snapshot_torn_write_skipped [OF newest_snapshot_new, of "[9]" "''j''" 4 _ _ 0 _ 9 True 5] show ?thesis
    by fastforce
qed

end
