(* ===== verification/Timer.thy ===== *)
theory Timer
  imports Btree_Map Frame
begin

text \<open>
  \<open>ticktape-runtime/src/timer.rs\<close>: the timer wheel. Two ordered collections, the deadlines by
  timer id and the firing order; the invariant \<open>wheel_ok\<close> keeps them in step. The locale
  \<open>timer_queue\<close> is what the node relies on: the wheel is a finite map from ids to deadlines
  and \<open>pop_due\<close> takes its least due entry in the order (deadline, armed at, id).
\<close>

section \<open>State and operations\<close>

datatype timer_req = SetTimer u64 timestamp | CancelTimer u64

record wheel =
  w_by_id :: "(u64, timestamp \<times> seq) btmap"
  w_order :: "(timestamp \<times> seq \<times> u64, unit) btmap"

definition wheel_new :: wheel where
  "wheel_new = \<lparr>w_by_id = [], w_order = []\<rparr>"

definition wheel_set :: "u64 \<Rightarrow> timestamp \<Rightarrow> seq \<Rightarrow> wheel \<Rightarrow> wheel" where
  "wheel_set tid at set_at w =
     (let w = (case bt_get (w_by_id w) tid of
                 Some (old_at, old_seq) \<Rightarrow>
                   \<lparr>w_by_id = bt_remove tid (w_by_id w), w_order = bt_remove (old_at, old_seq, tid) (w_order w)\<rparr>
               | None \<Rightarrow> w)
      in \<lparr>w_by_id = bt_insert tid (at, set_at) (w_by_id w), w_order = bt_insert (at, set_at, tid) () (w_order w)\<rparr>)"

definition wheel_cancel :: "u64 \<Rightarrow> wheel \<Rightarrow> wheel" where
  "wheel_cancel tid w =
     (case bt_get (w_by_id w) tid of
        Some (at, s) \<Rightarrow> \<lparr>w_by_id = bt_remove tid (w_by_id w), w_order = bt_remove (at, s, tid) (w_order w)\<rparr>
      | None \<Rightarrow> w)"

fun wheel_apply :: "timer_req \<Rightarrow> seq \<Rightarrow> wheel \<Rightarrow> wheel" where
  "wheel_apply (SetTimer tid at) set_at w = wheel_set tid at set_at w"
| "wheel_apply (CancelTimer tid) set_at w = wheel_cancel tid w"

definition pop_due :: "timestamp \<Rightarrow> wheel \<Rightarrow> u64 option \<times> wheel" where
  "pop_due now w =
     (case bt_first (w_order w) of
        None \<Rightarrow> (None, w)
      | Some ((at, s, tid), _) \<Rightarrow>
          if at > now then (None, w)
          else (Some tid, \<lparr>w_by_id = bt_remove tid (w_by_id w), w_order = bt_remove (at, s, tid) (w_order w)\<rparr>))"

definition wheel_snapshot :: "wheel \<Rightarrow> (u64 \<times> u64 \<times> u64) list" where
  "wheel_snapshot w = map (\<lambda>(tid, (at, s)). (tid, at, s)) (w_by_id w)"

definition wheel_restore :: "(u64 \<times> u64 \<times> u64) list \<Rightarrow> wheel" where
  "wheel_restore es = fold (\<lambda>(tid, at, s). wheel_set tid at s) es wheel_new"

definition wheel_len :: "wheel \<Rightarrow> nat" where
  "wheel_len w = length (w_by_id w)"

section \<open>Invariant\<close>

definition wheel_ok :: "wheel \<Rightarrow> bool" where
  "wheel_ok w \<longleftrightarrow> bt_ok (w_by_id w) \<and> bt_ok (w_order w) \<and>
     (\<forall>tid at s. bt_get (w_by_id w) tid = Some (at, s) \<longleftrightarrow> bt_get (w_order w) (at, s, tid) = Some ())"

definition pending :: "wheel \<Rightarrow> u64 \<Rightarrow> (timestamp \<times> seq) option" where
  "pending w = bt_get (w_by_id w)"

lemma wheel_ok_new [simp]: "wheel_ok wheel_new" "pending wheel_new = Map.empty"
  by (auto simp: wheel_ok_def wheel_new_def pending_def)

lemma wheel_ok_cancel [simp]: "wheel_ok w \<Longrightarrow> wheel_ok (wheel_cancel tid w)"
proof (cases "bt_get (w_by_id w) tid")
  case None
  then show "wheel_ok w \<Longrightarrow> ?thesis" by (simp add: wheel_cancel_def)
next
  case (Some p)
  assume ok: "wheel_ok w"
  then have "bt_get (w_order w) (at, s, tid) = Some () \<longleftrightarrow> (at, s) = p" for at s
    using Some unfolding wheel_ok_def by (metis option.inject)
  with ok Some show ?thesis by (auto simp: wheel_ok_def wheel_cancel_def split: prod.splits)
qed

lemma pending_cancel [simp]: "pending (wheel_cancel tid w) = (pending w)(tid := None)"
  by (auto simp: pending_def wheel_cancel_def fun_eq_iff split: option.splits)

lemma wheel_set_cancel:
  "wheel_set tid at s w =
     \<lparr>w_by_id = bt_insert tid (at, s) (w_by_id (wheel_cancel tid w)),
      w_order = bt_insert (at, s, tid) () (w_order (wheel_cancel tid w))\<rparr>"
  by (auto simp: wheel_set_def wheel_cancel_def split: option.splits)

lemma wheel_ok_insert:
  "wheel_ok w \<Longrightarrow> pending w tid = None \<Longrightarrow>
     wheel_ok \<lparr>w_by_id = bt_insert tid (at, s) (w_by_id w), w_order = bt_insert (at, s, tid) () (w_order w)\<rparr>"
proof -
  assume ok: "wheel_ok w" and "pending w tid = None"
  then have "bt_get (w_order w) (at', s', tid) \<noteq> Some ()" for at' s'
    unfolding wheel_ok_def pending_def by (metis option.distinct(1))
  with ok show ?thesis by (auto simp: wheel_ok_def)
qed

lemma wheel_ok_set [simp]: "wheel_ok w \<Longrightarrow> wheel_ok (wheel_set tid at s w)"
  by (simp add: wheel_set_cancel wheel_ok_insert)

lemma pending_set [simp]: "pending (wheel_set tid at s w) = (pending w)(tid \<mapsto> (at, s))"
proof -
  have "pending (wheel_set tid at s w) = (pending (wheel_cancel tid w))(tid \<mapsto> (at, s))"
    by (auto simp: wheel_set_cancel pending_def fun_eq_iff)
  then show ?thesis by simp
qed

lemma wheel_ok_apply [simp]: "wheel_ok w \<Longrightarrow> wheel_ok (wheel_apply req s w)"
  by (cases req) auto

lemma pop_due_None_iff:
  assumes "wheel_ok w"
  shows "fst (pop_due now w) = None \<longleftrightarrow> (\<forall>tid at s. pending w tid = Some (at, s) \<longrightarrow> now < at)"
proof (cases "bt_first (w_order w)")
  case None
  then have "w_order w = []" by simp
  with assms have "\<forall>tid at s. pending w tid \<noteq> Some (at, s)" by (simp add: wheel_ok_def pending_def)
  with \<open>w_order w = []\<close> show ?thesis by (simp add: pop_due_def bt_first_def)
next
  case (Some e)
  obtain at s tid where e: "e = ((at, s, tid), ())" by (metis prod.exhaust unit.exhaust)
  have first: "bt_get (w_order w) (at, s, tid) = Some ()" "\<forall>k \<in> fst ` set (w_order w). (at, s, tid) \<le> k"
    using bt_first_min [of "w_order w" "(at, s, tid)" "()"] Some e assms by (simp_all add: wheel_ok_def)
  have least: "at \<le> at'" if "pending w tid' = Some (at', s')" for tid' at' s'
  proof -
    have "bt_get (w_order w) (at', s', tid') = Some ()" using that assms by (simp add: wheel_ok_def pending_def)
    then have "(at', s', tid') \<in> fst ` set (w_order w)" by (metis bt_get_None_iff option.distinct(1))
    then have "(at, s, tid) \<le> (at', s', tid')" using first(2) by blast
    then show ?thesis by (auto simp: less_eq_prod_simp)
  qed
  have "pending w tid = Some (at, s)" using first(1) assms by (simp add: wheel_ok_def pending_def)
  then show ?thesis using Some e least by (auto simp: pop_due_def dest: order.strict_trans2)
qed

lemma pop_due_Some:
  assumes "wheel_ok w" and "pop_due now w = (Some tid, w')"
  shows "\<exists>at s. pending w tid = Some (at, s) \<and> at \<le> now \<and> wheel_ok w' \<and> pending w' = (pending w)(tid := None) \<and>
    (\<forall>tid' at' s'. pending w tid' = Some (at', s') \<longrightarrow> (at, s, tid) \<le> (at', s', tid'))"
proof -
  from assms(2) obtain at s where f: "bt_first (w_order w) = Some ((at, s, tid), ())" and le: "at \<le> now"
    and w': "w' = \<lparr>w_by_id = bt_remove tid (w_by_id w), w_order = bt_remove (at, s, tid) (w_order w)\<rparr>"
    by (auto simp: pop_due_def split: option.splits if_splits)
  have first: "bt_get (w_order w) (at, s, tid) = Some ()" "\<forall>k \<in> fst ` set (w_order w). (at, s, tid) \<le> k"
    using bt_first_min [OF _ f] assms(1) by (simp_all add: wheel_ok_def)
  then have p: "pending w tid = Some (at, s)" using assms(1) by (simp add: wheel_ok_def pending_def)
  then have c: "w' = wheel_cancel tid w" by (simp add: w' wheel_cancel_def pending_def)
  have "(at, s, tid) \<le> (at', s', tid')" if "pending w tid' = Some (at', s')" for tid' at' s'
  proof -
    have "bt_get (w_order w) (at', s', tid') = Some ()" using that assms(1) by (simp add: wheel_ok_def pending_def)
    then have "(at', s', tid') \<in> fst ` set (w_order w)" by (metis bt_get_None_iff option.distinct(1))
    then show ?thesis using first(2) by blast
  qed
  with p le c assms(1) show ?thesis by auto
qed

lemma pending_ext: "wheel_ok w \<Longrightarrow> wheel_ok w' \<Longrightarrow> pending w = pending w' \<Longrightarrow> w = w'"
proof -
  assume ok: "wheel_ok w" "wheel_ok w'" and eq: "pending w = pending w'"
  have a: "w_by_id w = w_by_id w'"
    using ok eq by (intro bt_ext) (auto simp: wheel_ok_def pending_def)
  have "w_order w = w_order w'"
  proof (rule bt_ext)
    fix k :: "timestamp \<times> seq \<times> u64"
    obtain at s tid where k: "k = (at, s, tid)" by (metis prod.exhaust)
    have "bt_get (w_order w) k = Some () \<longleftrightarrow> bt_get (w_order w') k = Some ()"
      using ok a k unfolding wheel_ok_def by metis
    then show "bt_get (w_order w) k = bt_get (w_order w') k"
      by (cases "bt_get (w_order w) k"; cases "bt_get (w_order w') k") auto
  qed (use ok in \<open>auto simp: wheel_ok_def\<close>)
  with a show ?thesis by simp
qed

section \<open>The contract\<close>

locale timer_queue =
  fixes abs :: "'w \<Rightarrow> u64 \<rightharpoonup> timestamp \<times> seq" and ok :: "'w \<Rightarrow> bool"
    and new :: 'w and arm :: "u64 \<Rightarrow> timestamp \<Rightarrow> seq \<Rightarrow> 'w \<Rightarrow> 'w" and cancel :: "u64 \<Rightarrow> 'w \<Rightarrow> 'w"
    and pop :: "timestamp \<Rightarrow> 'w \<Rightarrow> u64 option \<times> 'w"
  assumes new_ok: "ok new" "abs new = Map.empty"
    and arm_ok: "ok w \<Longrightarrow> ok (arm tid at s w)" "ok w \<Longrightarrow> abs (arm tid at s w) = (abs w)(tid \<mapsto> (at, s))"
    and cancel_ok: "ok w \<Longrightarrow> ok (cancel tid w)" "ok w \<Longrightarrow> abs (cancel tid w) = (abs w)(tid := None)"
    and pop_none: "ok w \<Longrightarrow> fst (pop now w) = None \<longleftrightarrow> (\<forall>tid at s. abs w tid = Some (at, s) \<longrightarrow> now < at)"
    and pop_some: "ok w \<Longrightarrow> pop now w = (Some tid, w') \<Longrightarrow>
      \<exists>at s. abs w tid = Some (at, s) \<and> at \<le> now \<and> ok w' \<and> abs w' = (abs w)(tid := None) \<and>
        (\<forall>tid' at' s'. abs w tid' = Some (at', s') \<longrightarrow> (at, s, tid) \<le> (at', s', tid'))"
begin

text \<open>Popping until nothing is due ends, and fires every due timer once.\<close>

inductive drains :: "timestamp \<Rightarrow> 'w \<Rightarrow> u64 list \<Rightarrow> 'w \<Rightarrow> bool" for now where
  stop: "fst (pop now w) = None \<Longrightarrow> drains now w [] w"
| fire: "pop now w = (Some tid, w') \<Longrightarrow> drains now w' ids w'' \<Longrightarrow> drains now w (tid # ids) w''"

definition due :: "timestamp \<Rightarrow> 'w \<Rightarrow> u64 set" where
  "due now w = {tid. \<exists>at s. abs w tid = Some (at, s) \<and> at \<le> now}"

lemma due_pop: "ok w \<Longrightarrow> pop now w = (Some tid, w') \<Longrightarrow> ok w' \<and> tid \<in> due now w \<and> due now w' = due now w - {tid}"
proof -
  assume a: "ok w" "pop now w = (Some tid, w')"
  from pop_some [OF a] obtain at s where
    p: "abs w tid = Some (at, s)" "at \<le> now" "ok w'" "abs w' = (abs w)(tid := None)" by blast
  then show ?thesis by (auto simp: due_def split: if_splits)
qed

lemma drains_ex: "finite (dom (abs w)) \<Longrightarrow> ok w \<Longrightarrow> \<exists>ids w'. drains now w ids w'"
proof (induction "card (dom (abs w))" arbitrary: w rule: less_induct)
  case less
  show ?case
  proof (cases "fst (pop now w)")
    case None
    then show ?thesis by (auto intro: drains.stop)
  next
    case (Some tid)
    then obtain w' where p: "pop now w = (Some tid, w')" by (metis prod.collapse)
    from pop_some [OF less.prems(2) p] obtain at s where
      a: "abs w tid = Some (at, s)" "ok w'" "abs w' = (abs w)(tid := None)" by blast
    then have "dom (abs w') = dom (abs w) - {tid}" "tid \<in> dom (abs w)" by auto
    then have "card (dom (abs w')) < card (dom (abs w))" "finite (dom (abs w'))"
      using less.prems(1) card_Diff1_less [of "dom (abs w)" tid] by simp_all
    with less.hyps a(2) obtain ids w'' where "drains now w' ids w''" by blast
    with p show ?thesis by (auto intro: drains.fire)
  qed
qed

lemma drains_due: "drains now w ids w' \<Longrightarrow> ok w \<Longrightarrow> distinct ids \<and> set ids = due now w \<and> due now w' = {}"
proof (induction rule: drains.induct)
  case (stop w)
  then show ?case using pop_none [of w now] by (auto simp: due_def not_le)
next
  case (fire w tid w' ids w'')
  with due_pop [of w now tid w'] show ?case by auto
qed

end

interpretation wheelq: timer_queue pending wheel_ok wheel_new wheel_set wheel_cancel pop_due
  by unfold_locales (auto simp: pop_due_None_iff dest: pop_due_Some)

section \<open>Snapshots\<close>

lemma wheel_restore_fold:
  "wheel_ok w \<Longrightarrow> wheel_ok (fold (\<lambda>(tid, at, s). wheel_set tid at s) es w) \<and>
     pending (fold (\<lambda>(tid, at, s). wheel_set tid at s) es w) = pending w ++ map_of (rev es)"
  by (induction es arbitrary: w) (auto simp: split_beta map_add_def fun_eq_iff split: option.splits)

lemma wheel_restore_snapshot_eq:
  assumes "wheel_ok w"
  shows "wheel_restore (wheel_snapshot w) = w"
proof (rule pending_ext)
  have ids: "map (\<lambda>(tid, (at, s)). (tid, at, s)) (w_by_id w) = w_by_id w"
    by (simp add: split_beta)
  have d: "distinct (map fst (w_by_id w))" using assms by (simp add: wheel_ok_def bt_ok_distinct)
  have "map_of (rev (w_by_id w)) = map_of (w_by_id w)"
    using d map_of_inject_set [of "rev (w_by_id w)" "w_by_id w"] by (simp add: rev_map [symmetric])
  then show "pending (wheel_restore (wheel_snapshot w)) = pending w"
    using wheel_restore_fold [of wheel_new "w_by_id w"]
    by (simp add: wheel_restore_def wheel_snapshot_def ids) (simp add: pending_def bt_get_def fun_eq_iff)
qed (use assms wheel_restore_fold [of wheel_new] in \<open>simp_all add: wheel_restore_def\<close>)

section \<open>Properties\<close>

text \<open>
  \<open>pop_due\<close> fires timers in the one total order (deadline, sequence number at which it was
  armed, id): it returns a pending timer that is due and least in that order, removes exactly
  it, and returns nothing only when no pending timer is due.
\<close>

theorem timer_pop_least:
  assumes "wheel_ok w"
  shows "case pop_due now w of
      (None, w') \<Rightarrow> w' = w \<and> (\<forall>tid at s. pending w tid = Some (at, s) \<longrightarrow> now < at)
    | (Some tid, w') \<Rightarrow> wheel_ok w' \<and> pending w' = (pending w)(tid := None) \<and>
        (\<exists>at s. pending w tid = Some (at, s) \<and> at \<le> now \<and>
          (\<forall>tid' at' s'. pending w tid' = Some (at', s') \<longrightarrow> (at, s, tid) \<le> (at', s', tid')))"
proof (cases "pop_due now w")
  case (Pair o' w')
  show ?thesis
  proof (cases o')
    case None
    have "w' = w" using Pair None by (auto simp: pop_due_def split: option.splits if_splits)
    with Pair None pop_due_None_iff [OF assms, of now] show ?thesis by simp
  next
    case (Some tid)
    with Pair pop_due_Some [OF assms] show ?thesis by fastforce
  qed
qed

theorem timer_pop_least_witness:
  "fst (pop_due 50 (wheel_set 9 50 2 (wheel_set 3 50 2 (wheel_set 7 100 1 wheel_new)))) = Some 3 \<and>
   pending (snd (pop_due 50 (wheel_set 9 50 2 (wheel_set 3 50 2 (wheel_set 7 100 1 wheel_new))))) 3 = None"
proof -
  let ?w = "wheel_set 9 50 2 (wheel_set 3 50 2 (wheel_set 7 100 1 wheel_new))"
  have p: "fst (pop_due 50 ?w) = Some 3"
    by (simp add: pop_due_def wheel_set_def wheel_new_def bt_get_def bt_first_def Let_def)
  have "wheel_ok ?w" by simp
  from timer_pop_least [OF this, of 50] p show ?thesis by (auto split: prod.splits)
qed

text \<open>
  Draining the wheel at a time ends and fires each due timer exactly once; a snapshot of
  the wheel restores to the same wheel, so a recovered node fires the same timers.
\<close>

theorem timer_drain_snapshot:
  assumes "wheel_ok w"
  shows "(\<exists>ids w'. wheelq.drains now w ids w' \<and> distinct ids \<and>
      set ids = {tid. \<exists>at s. pending w tid = Some (at, s) \<and> at \<le> now} \<and>
      (\<forall>tid at s. pending w' tid = Some (at, s) \<longrightarrow> now < at)) \<and>
    wheel_restore (wheel_snapshot w) = w"
proof -
  have "finite (dom (pending w))" by (simp add: pending_def bt_get_def [abs_def] finite_dom_map_of)
  with wheelq.drains_ex assms obtain ids w' where d: "wheelq.drains now w ids w'" by blast
  from wheelq.drains_due [OF d assms] have u: "distinct ids" "set ids = wheelq.due now w" "wheelq.due now w' = {}"
    by simp_all
  have "now < at" if "pending w' tid = Some (at, s)" for tid at s
    using u(3) that by (auto simp: wheelq.due_def) (metis not_le)
  with u(1,2) d wheel_restore_snapshot_eq [OF assms] show ?thesis
    unfolding wheelq.due_def by blast
qed

theorem timer_drain_snapshot_witness:
  "(\<exists>ids w'. wheelq.drains 60 (wheel_set 3 50 2 wheel_new) ids w' \<and> set ids = {3}) \<and>
   wheel_restore (wheel_snapshot (wheel_set 3 50 2 wheel_new)) = wheel_set 3 50 2 wheel_new"
proof -
  have "{tid. \<exists>at s. pending (wheel_set 3 50 2 wheel_new) tid = Some (at, s) \<and> at \<le> 60} = {3}"
    by (auto split: if_splits)
  with timer_drain_snapshot [of "wheel_set 3 50 2 wheel_new" 60] show ?thesis by auto
qed

end
