(* ===== verification/Commit.thy ===== *)
theory Commit
  imports Btree_Map Frame
begin

text \<open>
  Quorum commit: \<open>ticktape-cluster/src/commit.rs\<close> (\<open>CommitTracker\<close>), the function \<open>majority\<close> of
  \<open>ticktape-cluster/src/lib.rs\<close>, and \<open>CommitState\<close> of \<open>ticktape-runtime/src/lib.rs\<close>, the
  leader's buffer of outputs withheld until a majority holds their input. The locale \<open>quorums\<close>
  states the one fact about majorities that commit and election rest on.
\<close>

section \<open>Majorities\<close>

definition majority :: "nat \<Rightarrow> nat" where
  "majority n = n div 2 + 1"

locale quorums =
  fixes universe :: "'a set" and quorum :: "'a set \<Rightarrow> bool"
  assumes quorum_universe: "quorum Q \<Longrightarrow> Q \<subseteq> universe"
    and quorum_meet: "quorum P \<Longrightarrow> quorum Q \<Longrightarrow> P \<inter> Q \<noteq> {}"
begin

text \<open>What every member of one quorum has, some member of every other quorum has.\<close>

lemma quorum_witness: "quorum P \<Longrightarrow> quorum Q \<Longrightarrow> (\<And>i. i \<in> P \<Longrightarrow> R i) \<Longrightarrow> \<exists>i \<in> Q. R i"
  using quorum_meet by blast

text \<open>Votes that each member gives to at most one candidate elect at most one.\<close>

lemma quorum_unique:
  assumes "quorum P" and "quorum Q" and "\<And>i. i \<in> P \<Longrightarrow> votes i a" and "\<And>i. i \<in> Q \<Longrightarrow> votes i b"
    and "\<And>i c c'. votes i c \<Longrightarrow> votes i c' \<Longrightarrow> c = c'"
  shows "a = b"
  using quorum_meet [OF assms(1,2)] assms(3-5) by blast

lemma quorum_nonempty: "quorum P \<Longrightarrow> P \<noteq> {}"
  using quorum_meet [of P P] by blast

end

definition majority_of :: "'a set \<Rightarrow> 'a set \<Rightarrow> bool" where
  "majority_of U Q \<longleftrightarrow> finite U \<and> Q \<subseteq> U \<and> majority (card U) \<le> card Q"

interpretation maj: quorums U "majority_of U" for U
proof
  fix P Q
  assume P: "majority_of U P" and Q: "majority_of U Q"
  then have fin: "finite U" "P \<subseteq> U" "Q \<subseteq> U" by (simp_all add: majority_of_def)
  show "P \<inter> Q \<noteq> {}"
  proof
    assume "P \<inter> Q = {}"
    then have "card P + card Q = card (P \<union> Q)" using fin by (metis card_Un_disjoint finite_subset)
    also have "\<dots> \<le> card U" using fin by (intro card_mono) auto
    finally show False using P Q by (auto simp: majority_of_def majority_def)
  qed
qed (simp add: majority_of_def)

section \<open>The commit watermark\<close>

record tracker =
  ct_high_waters :: "(u32, seq) btmap"
  ct_voters :: nat

definition tracker_new :: "nat \<Rightarrow> tracker" where
  "tracker_new voters = \<lparr>ct_high_waters = [], ct_voters = voters\<rparr>"

definition raise :: "u32 \<Rightarrow> seq \<Rightarrow> (u32, seq) btmap \<Rightarrow> (u32, seq) btmap" where
  "raise replica s m =
     bt_insert replica (max (case bt_get m replica of Some w \<Rightarrow> w | None \<Rightarrow> GENESIS) s) m"

definition watermark_of :: "nat \<Rightarrow> (u32, seq) btmap \<Rightarrow> seq" where
  "watermark_of voters m =
     (let needed = majority voters in
      if length m < needed then GENESIS
      else rev (sort (map snd m)) ! (needed - 1))"

definition tracker_committed :: "tracker \<Rightarrow> seq" where
  "tracker_committed t = watermark_of (ct_voters t) (ct_high_waters t)"

definition tracker_record_ack :: "u32 \<Rightarrow> seq \<Rightarrow> tracker \<Rightarrow> seq \<times> tracker" where
  "tracker_record_ack replica s t =
     (let t = t\<lparr>ct_high_waters := raise replica s (ct_high_waters t)\<rparr> in (tracker_committed t, t))"

section \<open>The leader's commit state\<close>

record 'o commit_state =
  cs_voters :: nat
  cs_self_replica :: u32
  cs_high_waters :: "(u32, seq) btmap"
  cs_pending :: "(seq, 'o list) btmap"
  cs_committed :: seq

definition cs_new :: "nat \<Rightarrow> u32 \<Rightarrow> seq \<Rightarrow> 'o commit_state" where
  "cs_new voters self_replica self_seq =
     \<lparr>cs_voters = voters, cs_self_replica = self_replica, cs_high_waters = [(self_replica, self_seq)],
      cs_pending = [], cs_committed = self_seq\<rparr>"

definition cs_record :: "u32 \<Rightarrow> seq \<Rightarrow> 'o commit_state \<Rightarrow> 'o commit_state" where
  "cs_record replica s st = st\<lparr>cs_high_waters := raise replica s (cs_high_waters st)\<rparr>"

definition cs_watermark :: "'o commit_state \<Rightarrow> seq" where
  "cs_watermark st = watermark_of (cs_voters st) (cs_high_waters st)"

definition drain_committed :: "'o commit_state \<Rightarrow> (seq \<times> 'o list) list \<times> 'o commit_state" where
  "drain_committed st =
     (let mark = cs_watermark st in
      if mark \<le> cs_committed st then ([], st)
      else
        let (below, above) = bt_split_off (seq_next mark) (cs_pending st)
        in (below, st\<lparr>cs_committed := mark, cs_pending := above\<rparr>))"

text \<open>The commit part of \<open>Node::finish_frame\<close>, and \<open>Node::record_ack\<close>.\<close>

definition cs_finish :: "seq \<Rightarrow> 'o list \<Rightarrow> 'o commit_state \<Rightarrow> (seq \<times> 'o list) list \<times> 'o commit_state" where
  "cs_finish s outs st =
     drain_committed (cs_record (cs_self_replica st) s (st\<lparr>cs_pending := bt_insert s outs (cs_pending st)\<rparr>))"

definition cs_ack :: "u32 \<Rightarrow> seq \<Rightarrow> 'o commit_state \<Rightarrow> (seq \<times> 'o list) list \<times> 'o commit_state" where
  "cs_ack replica s st = drain_committed (cs_record replica s st)"

definition cs_note_self :: "seq \<Rightarrow> 'o commit_state \<Rightarrow> 'o commit_state" where
  "cs_note_self s st = cs_record (cs_self_replica st) s st"

section \<open>What the watermark is\<close>

lemma sorted_count_ge:
  assumes "sorted ys" and "1 \<le> k" and "k \<le> length ys"
  shows "x \<le> ys ! (length ys - k) \<longleftrightarrow> k \<le> length (filter (\<lambda>y. x \<le> y) ys)"
proof
  let ?n = "length ys - k"
  assume le: "x \<le> ys ! ?n"
  have "x \<le> y" if "y \<in> set (drop ?n ys)" for y
  proof -
    from that obtain i where "i < length (drop ?n ys)" "y = drop ?n ys ! i"
      unfolding in_set_conv_nth by blast
    then have i: "?n + i < length ys" "y = ys ! (?n + i)" by simp_all
    then have "ys ! ?n \<le> y" using sorted_nth_mono [OF assms(1), of ?n "?n + i"] by simp
    with le show ?thesis by simp
  qed
  then have "filter (\<lambda>y. x \<le> y) (drop ?n ys) = drop ?n ys" by simp
  then have "k = length (filter (\<lambda>y. x \<le> y) (drop ?n ys))" using assms(3) by simp
  also have "\<dots> \<le> length (filter (\<lambda>y. x \<le> y) (take ?n ys @ drop ?n ys))" by (simp only: filter_append length_append)
  finally show "k \<le> length (filter (\<lambda>y. x \<le> y) ys)" by simp
next
  let ?n = "length ys - k"
  assume k: "k \<le> length (filter (\<lambda>y. x \<le> y) ys)"
  show "x \<le> ys ! ?n"
  proof (rule ccontr)
    assume "\<not> x \<le> ys ! ?n"
    then have lt: "ys ! ?n < x" by simp
    have "\<not> x \<le> y" if "y \<in> set (take (Suc ?n) ys)" for y
    proof -
      from that obtain i where i: "i \<le> ?n" "i < length ys" "y = ys ! i"
        by (auto simp: in_set_conv_nth less_Suc_eq_le)
      then have "y \<le> ys ! ?n" using sorted_nth_mono [OF assms(1), of i ?n] assms(2,3) by simp
      with lt show ?thesis by simp
    qed
    then have "filter (\<lambda>y. x \<le> y) (take (Suc ?n) ys) = []" by (simp add: filter_empty_conv)
    then have "filter (\<lambda>y. x \<le> y) ys = filter (\<lambda>y. x \<le> y) (drop (Suc ?n) ys)"
      by (metis append_Nil append_take_drop_id filter_append)
    then have "length (filter (\<lambda>y. x \<le> y) ys) \<le> length ys - Suc ?n"
      by (metis length_drop length_filter_le)
    with k assms(2,3) show False by simp
  qed
qed

definition holders :: "seq \<Rightarrow> (u32, seq) btmap \<Rightarrow> u32 set" where
  "holders s m = {r. \<exists>w. bt_get m r = Some w \<and> s \<le> w}"

lemma card_holders:
  assumes "bt_ok m"
  shows "card (holders s m) = length (filter (\<lambda>w. s \<le> w) (map snd m))" and "finite (holders s m)"
proof -
  let ?l = "filter (\<lambda>e. s \<le> snd e) m"
  have d: "distinct (map fst ?l)" using bt_ok_distinct [OF assms] by (rule distinct_map_filter)
  have h: "holders s m = set (map fst ?l)"
    using bt_get_Some_iff [OF assms] by (force simp: holders_def)
  show "finite (holders s m)" by (simp add: h)
  show "card (holders s m) = length (filter (\<lambda>w. s \<le> w) (map snd m))"
    using distinct_card [OF d] by (simp add: h filter_map comp_def)
qed

text \<open>
  The watermark is the highest sequence number that a majority of the voters hold: it holds
  of a positive \<open>s\<close> that \<open>s\<close> is at or below the watermark iff a majority holds \<open>s\<close>.
\<close>

lemma watermark_iff:
  assumes "bt_ok m" and "0 < s"
  shows "s \<le> watermark_of voters m \<longleftrightarrow> majority voters \<le> card (holders s m)"
proof (cases "length m < majority voters")
  case True
  have "card (holders s m) \<le> length m"
    using card_holders(1) [OF assms(1), of s] by (metis length_filter_le length_map)
  with True assms(2) show ?thesis by (simp add: watermark_of_def GENESIS_def)
next
  case False
  let ?ws = "map snd m" and ?k = "majority voters"
  have k: "1 \<le> ?k" "?k \<le> length (sort ?ws)" using False by (simp_all add: majority_def)
  have "watermark_of voters m = sort ?ws ! (length (sort ?ws) - ?k)"
    using False k by (simp add: watermark_of_def rev_nth Let_def Suc_diff_1)
  then have "s \<le> watermark_of voters m \<longleftrightarrow> ?k \<le> length (filter (\<lambda>y. s \<le> y) (sort ?ws))"
    using sorted_count_ge [OF _ k, of s] by simp
  also have "length (filter (\<lambda>y. s \<le> y) (sort ?ws)) = length (filter (\<lambda>y. s \<le> y) ?ws)"
    by (simp add: filter_sort)
  finally show ?thesis by (simp add: card_holders(1) [OF assms(1)])
qed

lemma bt_ok_raise [simp]: "bt_ok m \<Longrightarrow> bt_ok (raise r s m)"
  by (simp add: raise_def)

lemma holders_raise: "bt_ok m \<Longrightarrow> 0 < s \<Longrightarrow> holders s (raise r t m) = (if s \<le> t then insert r (holders s m) else holders s m)"
  by (auto simp: holders_def raise_def GENESIS_def max_def split: option.splits if_splits)

section \<open>Exactly once, in order, never early\<close>

text \<open>
  A leader's run from its recovered tip: frames with outputs in ascending order, frames
  without outputs (ticks, fences, marks), and acknowledgements from replicas of the set, at
  or below what the leader has sequenced. \<open>tip\<close> is the leader's last sequence number.
\<close>

inductive cs_run :: "nat \<Rightarrow> u32 \<Rightarrow> seq \<Rightarrow> seq \<Rightarrow> 'o commit_state \<Rightarrow> (seq \<times> 'o list) list \<Rightarrow> (seq \<times> 'o list) list \<Rightarrow> bool"
  for voters :: nat and me :: u32 and tip0 :: seq
where
  cs_start: "cs_run voters me tip0 tip0 (cs_new voters me tip0) [] []"
| cs_submit: "cs_run voters me tip0 tip st sub rel \<Longrightarrow> tip < s \<Longrightarrow> s \<noteq> -1 \<Longrightarrow>
    cs_finish s outs st = (out, st') \<Longrightarrow> cs_run voters me tip0 s st' (sub @ [(s, outs)]) (rel @ out)"
| cs_other: "cs_run voters me tip0 tip st sub rel \<Longrightarrow> tip < s \<Longrightarrow> s \<noteq> -1 \<Longrightarrow>
    cs_run voters me tip0 s (cs_note_self s st) sub rel"
| cs_acked: "cs_run voters me tip0 tip st sub rel \<Longrightarrow> s \<le> tip \<Longrightarrow>
    cs_ack r s st = (out, st') \<Longrightarrow> cs_run voters me tip0 tip st' sub (rel @ out)"

definition cs_inv :: "seq \<Rightarrow> seq \<Rightarrow> 'o commit_state \<Rightarrow> (seq \<times> 'o list) list \<Rightarrow> (seq \<times> 'o list) list \<Rightarrow> bool" where
  "cs_inv tip0 tip st sub rel \<longleftrightarrow> bt_ok (cs_high_waters st) \<and> bt_ok (cs_pending st) \<and> rel @ cs_pending st = sub \<and>
     (\<forall>e \<in> set sub. tip0 < fst e \<and> fst e \<le> tip) \<and> tip0 \<le> cs_committed st \<and> cs_committed st \<le> tip \<and>
     (\<forall>e \<in> set (cs_pending st). cs_committed st < fst e) \<and>
     (\<forall>e \<in> set (cs_high_waters st). snd e \<le> tip) \<and>
     (\<forall>e \<in> set rel. majority (cs_voters st) \<le> card (holders (fst e) (cs_high_waters st)))"

lemma holders_mono: "bt_ok m \<Longrightarrow> 0 < s \<Longrightarrow> card (holders s m) \<le> card (holders s (raise r t m))"
  using card_holders(2) [of m s] by (simp add: holders_raise card_insert_if)

lemma word_greater_pos: "x < y \<Longrightarrow> 0 < (y :: 'a::len word)"
  using le_less_trans [of 0 x y] by simp

lemma watermark_le:
  assumes "bt_ok m" and "\<forall>e \<in> set m. snd e \<le> tip"
  shows "watermark_of voters m \<le> tip"
proof (cases "length m < majority voters")
  case False
  let ?ws = "rev (sort (map snd m))"
  have "majority voters - 1 < length ?ws" using False by (simp add: majority_def)
  then have "?ws ! (majority voters - 1) \<in> set ?ws" by (rule nth_mem)
  then have "watermark_of voters m \<in> set (map snd m)" using False by (simp add: watermark_of_def Let_def)
  with assms(2) show ?thesis by auto
qed (simp add: watermark_of_def GENESIS_def)

lemma raise_le:
  assumes "bt_ok m" and "\<forall>e \<in> set m. snd e \<le> tip" and "tip \<le> tip'" and "s \<le> tip'"
  shows "\<forall>e \<in> set (raise r s m). snd e \<le> tip'"
proof -
  have "(case bt_get m r of Some w \<Rightarrow> w | None \<Rightarrow> GENESIS) \<le> tip'"
  proof (cases "bt_get m r")
    case (Some w)
    then have "(r, w) \<in> set m" using bt_get_Some_iff [OF assms(1)] by simp
    then have "w \<le> tip" using assms(2) by auto
    with Some assms(3) show ?thesis by simp
  qed (simp add: GENESIS_def)
  moreover have "\<forall>e \<in> set m. snd e \<le> tip'" using assms(2,3) order_trans by blast
  ultimately show ?thesis using assms(4) by (simp add: raise_def set_bt_insert [OF assms(1)])
qed

lemma cs_inv_record:
  assumes inv: "cs_inv tip0 tip st sub rel" and "s \<le> tip'" and "tip \<le> tip'"
  shows "cs_inv tip0 tip' (cs_record r s st) sub rel"
proof -
  have ok: "bt_ok (cs_high_waters st)" using inv by (simp add: cs_inv_def)
  have hw: "\<forall>e \<in> set (raise r s (cs_high_waters st)). snd e \<le> tip'"
    using inv assms(2,3) by (intro raise_le [of _ tip]) (simp_all add: cs_inv_def)
  have maj: "majority (cs_voters st) \<le> card (holders (fst e) (raise r s (cs_high_waters st)))" if "e \<in> set rel" for e
  proof -
    have "e \<in> set sub" using that inv by (auto simp: cs_inv_def)
    then have "tip0 < fst e" using inv by (simp add: cs_inv_def)
    then have "0 < fst e" by (rule word_greater_pos)
    from holders_mono [OF ok this] that inv show ?thesis by (meson cs_inv_def order_trans)
  qed
  have "\<forall>e \<in> set sub. tip0 < fst e \<and> fst e \<le> tip'" "cs_committed st \<le> tip'"
    using inv assms(3) order_trans unfolding cs_inv_def by blast+
  with inv hw maj show ?thesis by (simp add: cs_inv_def cs_record_def)
qed

lemma cs_inv_drain:
  assumes inv: "cs_inv tip0 tip st sub rel" and "tip \<noteq> -1" and "drain_committed st = (out, st')"
  shows "cs_inv tip0 tip st' sub (rel @ out) \<and> (\<forall>e \<in> set (cs_pending st'). cs_watermark st' < fst e)"
proof (cases "cs_watermark st \<le> cs_committed st")
  case True
  then have "out = []" "st' = st" using assms(3) by (simp_all add: drain_committed_def Let_def)
  with inv True show ?thesis by (auto simp: cs_inv_def)
next
  case False
  let ?m = "cs_watermark st"
  have ok: "bt_ok (cs_high_waters st)" "bt_ok (cs_pending st)" using inv by (simp_all add: cs_inv_def)
  have le: "?m \<le> tip" using watermark_le [OF ok(1)] inv by (simp add: cs_inv_def cs_watermark_def)
  then have m: "?m \<noteq> -1" using assms(2) by (metis word_order.extremum_unique)
  have st': "out = fst (bt_split_off (seq_next ?m) (cs_pending st))"
    "st' = st\<lparr>cs_committed := ?m, cs_pending := snd (bt_split_off (seq_next ?m) (cs_pending st))\<rparr>"
    using assms(3) False by (simp_all add: drain_committed_def Let_def split_beta)
  have above: "\<forall>e \<in> set (cs_pending st'). ?m < fst e"
    using m by (auto simp: st'(2) bt_split_off_def seq_next_def plus_one_le_iff)
  have "majority (cs_voters st) \<le> card (holders (fst e) (cs_high_waters st))" if "e \<in> set out" for e
  proof -
    have e: "e \<in> set (cs_pending st)" "fst e \<le> ?m"
      using that m by (auto simp: st'(1) bt_split_off_def seq_next_def less_plus_one_iff)
    then have "cs_committed st < fst e" using inv by (simp add: cs_inv_def)
    then have "0 < fst e" by (rule word_greater_pos)
    with watermark_iff [OF ok(1)] e(2) show ?thesis by (simp add: cs_watermark_def)
  qed
  moreover have "out @ cs_pending st' = cs_pending st"
    using bt_split_off_append [OF ok(2)] by (simp add: st')
  moreover have "bt_ok (cs_pending st')" using ok(2) by (simp add: st'(2) bt_split_off_def)
  ultimately show ?thesis
    using inv above le False by (auto simp: cs_inv_def st'(2) cs_watermark_def)
qed

lemma bt_insert_last: "\<forall>e \<in> set m. fst e < k \<Longrightarrow> bt_insert k v m = m @ [(k, v)]"
  by (induction m) (auto simp: not_less_iff_gr_or_eq)

lemma cs_inv_submit:
  assumes inv: "cs_inv tip0 tip st sub rel" and "tip < s"
  shows "cs_inv tip0 s (st\<lparr>cs_pending := bt_insert s outs (cs_pending st)\<rparr>) (sub @ [(s, outs)]) rel"
proof -
  have le: "x \<le> s" if "x \<le> tip" for x using that assms(2) by simp
  have "\<forall>e \<in> set (cs_pending st). fst e < s"
  proof
    fix e assume "e \<in> set (cs_pending st)"
    then have "e \<in> set sub" using inv by (auto simp: cs_inv_def)
    then have "fst e \<le> tip" using inv by (simp add: cs_inv_def)
    with assms(2) show "fst e < s" by simp
  qed
  then have p: "bt_insert s outs (cs_pending st) = cs_pending st @ [(s, outs)]" by (rule bt_insert_last)
  have ok: "bt_ok (bt_insert s outs (cs_pending st))" using inv by (simp add: cs_inv_def)
  have "tip0 < s" "cs_committed st < s" using inv assms(2) unfolding cs_inv_def by (auto intro: le_less_trans)
  then show ?thesis
    using inv ok le unfolding cs_inv_def by (auto simp: p)
qed

lemma cs_run_inv: "cs_run voters me tip0 tip st sub rel \<Longrightarrow> tip0 \<noteq> -1 \<Longrightarrow>
   cs_inv tip0 tip st sub rel \<and> tip \<noteq> -1 \<and> cs_voters st = voters"
proof (induction rule: cs_run.induct)
  case cs_start
  then show ?case by (simp add: cs_inv_def cs_new_def bt_ok_def)
next
  case (cs_submit tip st sub rel s outs out st')
  let ?st = "cs_record (cs_self_replica st) s (st\<lparr>cs_pending := bt_insert s outs (cs_pending st)\<rparr>)"
  have "cs_inv tip0 s ?st (sub @ [(s, outs)]) rel"
    using cs_submit by (intro cs_inv_record [OF cs_inv_submit]) auto
  from cs_inv_drain [OF this, of out st'] cs_submit show ?case
    by (auto simp: cs_finish_def drain_committed_def cs_record_def Let_def split_beta split: if_splits)
next
  case (cs_other tip st sub rel s)
  then show ?case
    using cs_inv_record [of tip0 tip st sub rel s s "cs_self_replica st"] by (simp add: cs_note_self_def) (simp add: cs_record_def)
next
  case (cs_acked tip st sub rel s r out st')
  then have "cs_inv tip0 tip (cs_record r s st) sub rel" by (intro cs_inv_record [of _ tip]) auto
  from cs_inv_drain [OF this, of out st'] cs_acked show ?case
    by (auto simp: cs_ack_def drain_committed_def cs_record_def Let_def split_beta split: if_splits)
qed

section \<open>Properties\<close>

text \<open>
  The commit watermark is exact: a sequence number is at or below it if and only if at
  least a majority of the voters have reported holding everything up to it.
\<close>

theorem watermark_exact:
  assumes "bt_ok (ct_high_waters t)" and "0 < s"
  shows "s \<le> tracker_committed t \<longleftrightarrow>
    majority (ct_voters t) \<le> card {r. \<exists>w. bt_get (ct_high_waters t) r = Some w \<and> s \<le> w}"
  using watermark_iff [OF assms] by (simp add: tracker_committed_def holders_def)

theorem watermark_exact_witness:
  "7 \<le> tracker_committed \<lparr>ct_high_waters = [(1, 9), (2, 7), (3, 4)], ct_voters = 3\<rparr> \<and>
   \<not> 8 \<le> tracker_committed \<lparr>ct_high_waters = [(1, 9), (2, 7), (3, 4)], ct_voters = 3\<rparr>"
proof -
  let ?t = "\<lparr>ct_high_waters = [(1, 9), (2, 7), (3, 4)], ct_voters = 3\<rparr>"
  have s: "{r. \<exists>w. bt_get (ct_high_waters ?t) r = Some w \<and> 7 \<le> w} = {1, 2}"
    "{r. \<exists>w. bt_get (ct_high_waters ?t) r = Some w \<and> 8 \<le> w} = {1}"
    by (auto simp: bt_get_def split: if_splits)
  have "bt_ok (ct_high_waters ?t)" by (simp add: bt_ok_def)
  from watermark_exact [OF this, of 7] watermark_exact [OF this, of 8] show ?thesis
    unfolding s by (simp add: majority_def)
qed

text \<open>
  C16. Quorum commit releases the outputs of every frame exactly once and in sequence order:
  whatever the interleaving of submissions, ticks and acknowledgements, what was released
  followed by what is still withheld is what was submitted, and everything released is held
  by a majority of the replica set.
\<close>

theorem quorum_release_exactly_once:
  assumes "cs_run voters me tip0 tip st submitted released" and "tip0 \<noteq> -1"
  shows "released @ cs_pending st = submitted \<and>
    (\<forall>(s, outs) \<in> set released. majority voters \<le> card {r. \<exists>w. bt_get (cs_high_waters st) r = Some w \<and> s \<le> w})"
  using cs_run_inv [OF assms] by (auto simp: cs_inv_def holders_def)

theorem quorum_release_exactly_once_witness:
  "\<exists>st. cs_run 3 1 0 1 st [(1, [''x''])] [(1, [''x''])] \<and> cs_pending st = []"
proof -
  have "cs_run 3 1 0 0 (cs_new 3 1 0 :: string commit_state) [] []" by (rule cs_start)
  from cs_submit [OF this, of 1 "[''x'']", OF _ _ surjective_pairing] obtain st :: "string commit_state" where
    "cs_run 3 1 0 1 st [(1, [''x''])] []" and st: "st = snd (cs_finish 1 [''x''] (cs_new 3 1 0))"
    by (force simp: cs_finish_def cs_new_def cs_record_def raise_def drain_committed_def cs_watermark_def watermark_of_def
        majority_def bt_get_def GENESIS_def)
  from cs_acked [OF this(1), of 1 2, OF _ surjective_pairing] have
    run: "cs_run 3 1 0 1 (snd (cs_ack 2 1 st)) [(1, [''x''])] [(1, [''x''])]"
    by (simp add: st cs_ack_def cs_finish_def cs_new_def cs_record_def raise_def drain_committed_def cs_watermark_def
        watermark_of_def majority_def bt_get_def GENESIS_def bt_split_off_def seq_next_def Let_def)
  from quorum_release_exactly_once [OF run] run show ?thesis by auto
qed

end
