(* ===== verification/Node.thy ===== *)
theory Node
  imports Journal_Props Snapshot Timer Commit
begin

text \<open>
  \<open>ticktape-core/src/service.rs\<close> and \<open>ticktape-runtime/src/lib.rs\<close>: the application contract and
  the sequencer node that hosts it. A service is a record of its functions, as the trait is;
  a step gets the context \<open>Ctx\<close> and returns it with what it emitted. The node is a record, its
  operations take the environment (storage, service, clock) and return result, node and disk.
  \<open>Instant::now()\<close> of the journal is the argument \<open>t\<close>. \<open>fire_due_timers\<close> is a partial function:
  \<open>None\<close> is a loop that does not return. A panic of \<open>Frame::new\<close> is the error \<open>Panicked\<close>.
\<close>

section \<open>Services\<close>

record 'o ctx =
  c_seq :: seq
  c_now :: timestamp
  c_outputs :: "'o list"
  c_timers :: "timer_req list"

definition ctx_new :: "seq \<Rightarrow> timestamp \<Rightarrow> 'o ctx" where
  "ctx_new s now = \<lparr>c_seq = s, c_now = now, c_outputs = [], c_timers = []\<rparr>"

definition emit :: "'o \<Rightarrow> 'o ctx \<Rightarrow> 'o ctx" where
  "emit out c = c\<lparr>c_outputs := c_outputs c @ [out]\<rparr>"

definition set_timer :: "u64 \<Rightarrow> timestamp \<Rightarrow> 'o ctx \<Rightarrow> 'o ctx" where
  "set_timer tid at c = c\<lparr>c_timers := c_timers c @ [SetTimer tid at]\<rparr>"

definition cancel_timer :: "u64 \<Rightarrow> 'o ctx \<Rightarrow> 'o ctx" where
  "cancel_timer tid c = c\<lparr>c_timers := c_timers c @ [CancelTimer tid]\<rparr>"

type_synonym ('s, 'o) step = "'s \<Rightarrow> 'o ctx \<Rightarrow> 's \<times> 'o ctx"

record ('s, 'i, 'o, 'p, 'c) service =
  sv_schema_version :: u32
  sv_genesis :: "'c \<Rightarrow> 's"
  sv_apply :: "seq \<Rightarrow> 'i \<Rightarrow> ('s, 'o) step"
  sv_on_timer :: "u64 \<Rightarrow> ('s, 'o) step"
  sv_snapshot :: "'s \<Rightarrow> 'p"
  sv_restore :: "'p \<Rightarrow> 'c \<Rightarrow> 's"
  sv_enc_input :: "'i encoder"
  sv_dec_input :: "'i decoder"
  sv_enc_snap :: "'p encoder"
  sv_dec_snap :: "'p decoder"

section \<open>State\<close>

datatype node_error =
    NodeJournal journal_error
  | CorruptInput seq codec_error
  | UncoveredHistory seq
  | Panicked

record commit_config =
  cc_voters :: nat
  cc_self_replica :: u32

record node_config =
  nc_journal :: journal_config
  nc_stream_id :: u16
  nc_snapshot_every :: "u64 option"
  nc_retain_snapshots :: nat
  nc_commit :: "commit_config option"

definition node_config_new :: "string \<Rightarrow> node_config" where
  "node_config_new dir = \<lparr>nc_journal = journal_config_new dir, nc_stream_id = 1, nc_snapshot_every = None,
     nc_retain_snapshots = 2, nc_commit = None\<rparr>"

definition with_quorum :: "nat \<Rightarrow> u32 \<Rightarrow> node_config \<Rightarrow> node_config" where
  "with_quorum voters self_replica cfg =
     cfg\<lparr>nc_commit := Some \<lparr>cc_voters = voters, cc_self_replica = self_replica\<rparr>\<rparr>"

text \<open>The in-process bus: one channel per subscriber, connected or not, with what it was sent.\<close>

type_synonym bus = "(bool \<times> frame list) list"

definition bus_subscribe :: "bus \<Rightarrow> bus" where
  "bus_subscribe b = b @ [(True, [])]"

definition bus_publish :: "frame \<Rightarrow> bus \<Rightarrow> bus" where
  "bus_publish f b = map (\<lambda>(c, fs). (c, fs @ [f])) (filter fst b)"

record recovery_info =
  ri_snapshot_seq :: "seq option"
  ri_inputs_replayed :: nat

record ('s, 'o, 'c, 'k, 'f) node =
  n_service :: 's
  n_service_config :: 'c
  n_journal_config :: journal_config
  n_journal :: "'f journal"
  n_snapshot_every :: "u64 option"
  n_retain_snapshots :: nat
  n_clock :: 'k
  n_stream_id :: u16
  n_seq :: seq
  n_last_timestamp :: timestamp
  n_bus :: bus
  n_recovery :: recovery_info
  n_commit :: "'o commit_state option"
  n_timers :: wheel

text \<open>The environment: storage, service, and the time source's \<open>now\<close>.\<close>

record ('s, 'i, 'o, 'p, 'c, 'k, 'd, 'f) env =
  e_storage :: "('d, 'f) storage"
  e_service :: "('s, 'i, 'o, 'p, 'c) service"
  e_now :: "'k \<Rightarrow> timestamp \<times> 'k"

type_synonym ('a, 's, 'o, 'c, 'k, 'f, 'd) nres =
  "('a, node_error) result \<times> ('s, 'o, 'c, 'k, 'f) node \<times> 'd"

section \<open>Sequencing\<close>

definition stage_frame ::
  "frame_kind \<Rightarrow> bytes \<Rightarrow> timestamp \<Rightarrow> ('s, 'o, 'c, 'k, 'f) node \<Rightarrow> frame option \<times> ('s, 'o, 'c, 'k, 'f) node"
where
  "stage_frame kind payload at n =
     (let s = seq_next (n_seq n); now = max at (n_last_timestamp n) in
      case frame_new s now (n_stream_id n) kind payload of
        None \<Rightarrow> (None, n)
      | Some f \<Rightarrow> (Some f, n\<lparr>n_seq := s, n_last_timestamp := now\<rparr>))"

definition sequence_at ::
  "('d, 'f) storage \<Rightarrow> nat \<Rightarrow> frame_kind \<Rightarrow> bytes \<Rightarrow> timestamp \<Rightarrow> ('s, 'o, 'c, 'k, 'f) node \<Rightarrow> 'd \<Rightarrow>
     (frame, 's, 'o, 'c, 'k, 'f, 'd) nres"
where
  "sequence_at S t kind payload at n d =
     (case stage_frame kind payload at n of
        (None, n) \<Rightarrow> (Err Panicked, n, d)
      | (Some f, n) \<Rightarrow>
          (case journal_append S t f (n_journal n) d of
             (Ok _, j, d) \<Rightarrow> (Ok f, n\<lparr>n_journal := j\<rparr>, d)
           | (Err e, j, d) \<Rightarrow> (Err (NodeJournal e), n\<lparr>n_journal := j\<rparr>, d)))"

definition read_clock ::
  "('k \<Rightarrow> timestamp \<times> 'k) \<Rightarrow> ('s, 'o, 'c, 'k, 'f) node \<Rightarrow> timestamp \<times> ('s, 'o, 'c, 'k, 'f) node"
where
  "read_clock now n = (let (at, k) = now (n_clock n) in (at, n\<lparr>n_clock := k\<rparr>))"

definition sequence_frame ::
  "('s, 'i, 'o, 'p, 'c, 'k, 'd, 'f) env \<Rightarrow> nat \<Rightarrow> frame_kind \<Rightarrow> bytes \<Rightarrow> ('s, 'o, 'c, 'k, 'f) node \<Rightarrow> 'd \<Rightarrow>
     (frame, 's, 'o, 'c, 'k, 'f, 'd) nres"
where
  "sequence_frame E t kind payload n d =
     (let (at, n) = read_clock (e_now E) n in sequence_at (e_storage E) t kind payload at n d)"

section \<open>Executing\<close>

definition fold_timers :: "timer_req list \<Rightarrow> seq \<Rightarrow> wheel \<Rightarrow> wheel" where
  "fold_timers ops s w = fold (\<lambda>op. wheel_apply op s) ops w"

definition run_step ::
  "frame \<Rightarrow> ('s, 'o) step \<Rightarrow> ('s, 'o, 'c, 'k, 'f) node \<Rightarrow> 'o list \<times> ('s, 'o, 'c, 'k, 'f) node"
where
  "run_step f st n =
     (let (svc, c) = st (n_service n) (ctx_new (f_seq f) (f_timestamp f))
      in (c_outputs c, n\<lparr>n_service := svc, n_timers := fold_timers (c_timers c) (f_seq f) (n_timers n)\<rparr>))"

abbreviation enc_timers :: "(u64 \<times> u64 \<times> u64) list encoder" where
  "enc_timers \<equiv> enc_vec (enc_pair enc_int (enc_pair enc_int enc_int))"

abbreviation dec_timers :: "(u64 \<times> u64 \<times> u64) list decoder" where
  "dec_timers \<equiv> dec_vec (dec_pair dec_int (dec_pair dec_int dec_int))"

definition maybe_snapshot ::
  "('s, 'i, 'o, 'p, 'c, 'k, 'd, 'f) env \<Rightarrow> nat \<Rightarrow> seq \<Rightarrow> ('s, 'o, 'c, 'k, 'f) node \<Rightarrow> 'd \<Rightarrow>
     (unit, 's, 'o, 'c, 'k, 'f, 'd) nres"
where
  "maybe_snapshot E t s n d =
     (case n_snapshot_every n of
        None \<Rightarrow> (Ok (), n, d)
      | Some every \<Rightarrow>
          if s mod max every 1 \<noteq> 0 then (Ok (), n, d)
          else
            let S = e_storage E; SV = e_service E; dir = jc_dir (n_journal_config n);
                payload = encode_to_vec (enc_pair (sv_enc_snap SV) enc_timers)
                            (sv_snapshot SV (n_service n), wheel_snapshot (n_timers n))
            in (case snap_write S dir s 0 payload d of
                  (Err e, d) \<Rightarrow> (Err (NodeJournal e), n, d)
                | (Ok _, d) \<Rightarrow>
                    (case sequence_frame E t SnapshotMark (encode_to_vec enc_int s) n d of
                       (Err e, n, d) \<Rightarrow> (Err e, n, d)
                     | (Ok mark, n, d) \<Rightarrow>
                         let n = n\<lparr>n_bus := bus_publish mark (n_bus n)\<rparr> in
                         (case prune_keep_newest S dir (n_retain_snapshots n) d of
                            (Err e, d) \<Rightarrow> (Err (NodeJournal e), n, d)
                          | (Ok None, d) \<Rightarrow> (Ok (), n, d)
                          | (Ok (Some oldest), d) \<Rightarrow>
                              (case compact_below S (saturating_pred oldest) (n_journal n) d of
                                 (Err e, d) \<Rightarrow> (Err (NodeJournal e), n, d)
                               | (Ok _, d) \<Rightarrow> (Ok (), n, d))))))"

definition finish_frame ::
  "('s, 'i, 'o, 'p, 'c, 'k, 'd, 'f) env \<Rightarrow> nat \<Rightarrow> frame \<Rightarrow> 'o list \<Rightarrow> ('s, 'o, 'c, 'k, 'f) node \<Rightarrow> 'd \<Rightarrow>
     ('o list, 's, 'o, 'c, 'k, 'f, 'd) nres"
where
  "finish_frame E t f outputs n d =
     (let n = n\<lparr>n_bus := bus_publish f (n_bus n)\<rparr> in
      case maybe_snapshot E t (f_seq f) n d of
        (Err e, n, d) \<Rightarrow> (Err e, n, d)
      | (Ok _, n, d) \<Rightarrow>
          (case n_commit n of
             None \<Rightarrow> (Ok outputs, n, d)
           | Some st \<Rightarrow>
               let (released, st) = cs_finish (f_seq f) outputs st
               in (Ok (concat (map snd released)), n\<lparr>n_commit := Some st\<rparr>, d)))"

text \<open>The body of the loop of \<open>fire_due_timers\<close>, for the timer \<open>tid\<close> that \<open>pop_due\<close> took out.\<close>

definition fire_timer ::
  "('s, 'i, 'o, 'p, 'c, 'k, 'd, 'f) env \<Rightarrow> nat \<Rightarrow> u64 \<Rightarrow> ('s, 'o, 'c, 'k, 'f) node \<Rightarrow> 'd \<Rightarrow>
     ('o list, 's, 'o, 'c, 'k, 'f, 'd) nres"
where
  "fire_timer E t tid n d =
     (case sequence_at (e_storage E) t TimerFired (encode_to_vec enc_int tid) (n_last_timestamp n) n d of
        (Err e, n, d) \<Rightarrow> (Err e, n, d)
      | (Ok f, n, d) \<Rightarrow>
          let (outputs, n) = run_step f (sv_on_timer (e_service E) tid) n
          in finish_frame E t f outputs n d)"

partial_function (option) fire_due_timers ::
  "('s, 'i, 'o, 'p, 'c, 'k, 'd, 'f) env \<Rightarrow> nat \<Rightarrow> 'o list \<Rightarrow> ('s, 'o, 'c, 'k, 'f) node \<Rightarrow> 'd \<Rightarrow>
     ('o list, 's, 'o, 'c, 'k, 'f, 'd) nres option"
where
  "fire_due_timers E t released n d =
     (case pop_due (n_last_timestamp n) (n_timers n) of
        (None, w) \<Rightarrow> Some (Ok released, n, d)
      | (Some tid, w) \<Rightarrow>
          (case fire_timer E t tid (n\<lparr>n_timers := w\<rparr>) d of
             (Err e, n, d) \<Rightarrow> Some (Err e, n, d)
           | (Ok outs, n, d) \<Rightarrow> fire_due_timers E t (released @ outs) n d))"

definition after_step ::
  "('s, 'i, 'o, 'p, 'c, 'k, 'd, 'f) env \<Rightarrow> nat \<Rightarrow> frame \<Rightarrow> 'i \<Rightarrow> ('s, 'o, 'c, 'k, 'f) node \<Rightarrow> 'd \<Rightarrow>
     ('o list, 's, 'o, 'c, 'k, 'f, 'd) nres option"
where
  "after_step E t f input n d =
     (let (outputs, n) = run_step f (sv_apply (e_service E) (f_seq f) input) n in
      case finish_frame E t f outputs n d of
        (Err e, n, d) \<Rightarrow> Some (Err e, n, d)
      | (Ok released, n, d) \<Rightarrow> fire_due_timers E t released n d)"

definition submit ::
  "('s, 'i, 'o, 'p, 'c, 'k, 'd, 'f) env \<Rightarrow> nat \<Rightarrow> 'i \<Rightarrow> ('s, 'o, 'c, 'k, 'f) node \<Rightarrow> 'd \<Rightarrow>
     (seq \<times> 'o list, 's, 'o, 'c, 'k, 'f, 'd) nres option"
where
  "submit E t input n d =
     (case sequence_frame E t Input (encode_to_vec (sv_enc_input (e_service E)) input) n d of
        (Err e, n, d) \<Rightarrow> Some (Err e, n, d)
      | (Ok f, n, d) \<Rightarrow>
          map_option (\<lambda>(r, n, d). (rbind r (\<lambda>released. Ok (f_seq f, released)), n, d))
            (after_step E t f input n d))"

fun stage_all ::
  "'i encoder \<Rightarrow> timestamp \<Rightarrow> 'i list \<Rightarrow> ('s, 'o, 'c, 'k, 'f) node \<Rightarrow> frame list option \<times> ('s, 'o, 'c, 'k, 'f) node"
where
  "stage_all enc now [] n = (Some [], n)"
| "stage_all enc now (i # is) n =
     (case stage_frame Input (encode_to_vec enc i) now n of
        (None, n) \<Rightarrow> (None, n)
      | (Some f, n) \<Rightarrow>
          (case stage_all enc now is n of
             (None, n) \<Rightarrow> (None, n)
           | (Some fs, n) \<Rightarrow> (Some (f # fs), n)))"

fun apply_all ::
  "('s, 'i, 'o, 'p, 'c, 'k, 'd, 'f) env \<Rightarrow> nat \<Rightarrow> ('i \<times> frame) list \<Rightarrow> ('s, 'o, 'c, 'k, 'f) node \<Rightarrow> 'd \<Rightarrow>
     ((seq \<times> 'o list) list, 's, 'o, 'c, 'k, 'f, 'd) nres option"
where
  "apply_all E t [] n d = Some (Ok [], n, d)"
| "apply_all E t ((input, f) # rest) n d =
     (case after_step E t f input n d of
        None \<Rightarrow> None
      | Some (Err e, n, d) \<Rightarrow> Some (Err e, n, d)
      | Some (Ok released, n, d) \<Rightarrow>
          map_option (\<lambda>(r, n, d). (rbind r (\<lambda>rs. Ok ((f_seq f, released) # rs)), n, d))
            (apply_all E t rest n d))"

definition submit_batch ::
  "('s, 'i, 'o, 'p, 'c, 'k, 'd, 'f) env \<Rightarrow> nat \<Rightarrow> 'i list \<Rightarrow> ('s, 'o, 'c, 'k, 'f) node \<Rightarrow> 'd \<Rightarrow>
     ((seq \<times> 'o list) list, 's, 'o, 'c, 'k, 'f, 'd) nres option"
where
  "submit_batch E t inputs n d =
     (if inputs = [] then Some (Ok [], n, d)
      else
        let (now, n) = read_clock (e_now E) n in
        case stage_all (sv_enc_input (e_service E)) now inputs n of
          (None, n) \<Rightarrow> Some (Err Panicked, n, d)
        | (Some frames, n) \<Rightarrow>
            (case journal_append_batch (e_storage E) t frames (n_journal n) d of
               (Err e, j, d) \<Rightarrow> Some (Err (NodeJournal e), n\<lparr>n_journal := j\<rparr>, d)
             | (Ok _, j, d) \<Rightarrow> apply_all E t (zip inputs frames) (n\<lparr>n_journal := j\<rparr>) d))"

section \<open>Control frames and acknowledgements\<close>

definition node_note_self :: "seq \<Rightarrow> ('s, 'o, 'c, 'k, 'f) node \<Rightarrow> ('s, 'o, 'c, 'k, 'f) node" where
  "node_note_self s n = n\<lparr>n_commit := map_option (cs_note_self s) (n_commit n)\<rparr>"

definition node_tick ::
  "('s, 'i, 'o, 'p, 'c, 'k, 'd, 'f) env \<Rightarrow> nat \<Rightarrow> ('s, 'o, 'c, 'k, 'f) node \<Rightarrow> 'd \<Rightarrow>
     (seq, 's, 'o, 'c, 'k, 'f, 'd) nres option"
where
  "node_tick E t n d =
     (case sequence_frame E t Tick [] n d of
        (Err e, n, d) \<Rightarrow> Some (Err e, n, d)
      | (Ok f, n, d) \<Rightarrow>
          let n = n\<lparr>n_bus := bus_publish f (n_bus n)\<rparr> in
          (case maybe_snapshot E t (f_seq f) n d of
             (Err e, n, d) \<Rightarrow> Some (Err e, n, d)
           | (Ok _, n, d) \<Rightarrow>
               map_option (\<lambda>(r, n, d). (rbind r (\<lambda>_. Ok (f_seq f)), n, d))
                 (fire_due_timers E t [] (node_note_self (f_seq f) n) d)))"

definition node_fence ::
  "('s, 'i, 'o, 'p, 'c, 'k, 'd, 'f) env \<Rightarrow> nat \<Rightarrow> u64 \<Rightarrow> ('s, 'o, 'c, 'k, 'f) node \<Rightarrow> 'd \<Rightarrow>
     (seq, 's, 'o, 'c, 'k, 'f, 'd) nres"
where
  "node_fence E t epoch n d =
     (let payload = encode_to_vec (enc_pair enc_int (enc_pair enc_int enc_int))
            (epoch, seq_next (n_seq n), sv_schema_version (e_service E)) in
      case sequence_frame E t EpochChange payload n d of
        (Err e, n, d) \<Rightarrow> (Err e, n, d)
      | (Ok f, n, d) \<Rightarrow>
          let n = n\<lparr>n_bus := bus_publish f (n_bus n)\<rparr> in
          (case maybe_snapshot E t (f_seq f) n d of
             (Err e, n, d) \<Rightarrow> (Err e, n, d)
           | (Ok _, n, d) \<Rightarrow> (Ok (f_seq f), node_note_self (f_seq f) n, d)))"

definition node_record_ack ::
  "u32 \<Rightarrow> seq \<Rightarrow> ('s, 'o, 'c, 'k, 'f) node \<Rightarrow> (seq \<times> 'o list) list \<times> ('s, 'o, 'c, 'k, 'f) node"
where
  "node_record_ack replica s n =
     (case n_commit n of
        None \<Rightarrow> ([], n)
      | Some st \<Rightarrow> let (released, st) = cs_ack replica s st in (released, n\<lparr>n_commit := Some st\<rparr>))"

definition commit_watermark :: "('s, 'o, 'c, 'k, 'f) node \<Rightarrow> seq" where
  "commit_watermark n = (case n_commit n of Some st \<Rightarrow> cs_committed st | None \<Rightarrow> n_seq n)"

definition pending_commit_count :: "('s, 'o, 'c, 'k, 'f) node \<Rightarrow> nat" where
  "pending_commit_count n = (case n_commit n of Some st \<Rightarrow> length (cs_pending st) | None \<Rightarrow> 0)"

definition node_sync ::
  "('d, 'f) storage \<Rightarrow> nat \<Rightarrow> ('s, 'o, 'c, 'k, 'f) node \<Rightarrow> 'd \<Rightarrow> (unit, 's, 'o, 'c, 'k, 'f, 'd) nres"
where
  "node_sync S t n d =
     (case journal_sync S t (n_journal n) d of
        (Ok _, j, d) \<Rightarrow> (Ok (), n\<lparr>n_journal := j\<rparr>, d)
      | (Err e, j, d) \<Rightarrow> (Err (NodeJournal e), n\<lparr>n_journal := j\<rparr>, d))"

section \<open>Recovery\<close>

definition replay_step :: "frame \<Rightarrow> ('s, 'o) step \<Rightarrow> 's \<times> wheel \<Rightarrow> 's \<times> wheel" where
  "replay_step f st sw =
     (let (svc, c) = st (fst sw) (ctx_new (f_seq f) (f_timestamp f))
      in (svc, fold_timers (c_timers c) (f_seq f) (snd sw)))"

text \<open>The replay of one frame: the service, the wheel, and how many inputs were applied.\<close>

definition replay_frame ::
  "('s, 'i, 'o, 'p, 'c) service \<Rightarrow> frame \<Rightarrow> 's \<times> wheel \<Rightarrow> ('s \<times> wheel, node_error) result"
where
  "replay_frame SV f sw =
     (case f_kind f of
        Input \<Rightarrow>
          (case decode_all (sv_dec_input SV) (f_payload f) of
             Err e \<Rightarrow> Err (CorruptInput (f_seq f) e)
           | Ok input \<Rightarrow> Ok (replay_step f (sv_apply SV (f_seq f) input) sw))
      | TimerFired \<Rightarrow>
          (case decode_all dec_int (f_payload f) of
             Err e \<Rightarrow> Err (CorruptInput (f_seq f) e)
           | Ok tid \<Rightarrow> Ok (replay_step f (sv_on_timer SV tid) (fst sw, wheel_cancel tid (snd sw))))
      | _ \<Rightarrow> Ok sw)"

fun replay_frames ::
  "('s, 'i, 'o, 'p, 'c) service \<Rightarrow> frame list \<Rightarrow> 's \<times> wheel \<Rightarrow> ('s \<times> wheel, node_error) result"
where
  "replay_frames SV [] sw = Ok sw"
| "replay_frames SV (f # fs) sw = rbind (replay_frame SV f sw) (replay_frames SV fs)"

text \<open>The choice of the snapshot that recovery starts from.\<close>

fun pick_anchor ::
  "('s, 'i, 'o, 'p, 'c) service \<Rightarrow> 'c \<Rightarrow> seq \<Rightarrow> loaded_snapshot list \<Rightarrow> ('s \<times> wheel \<times> seq) option"
where
  "pick_anchor SV cfg journal_first [] = None"
| "pick_anchor SV cfg journal_first (snap # snaps) =
     (if ls_seq snap + 1 < journal_first then pick_anchor SV cfg journal_first snaps
      else case decode_all (dec_pair (sv_dec_snap SV) dec_timers) (ls_payload snap) of
          Ok (p, w) \<Rightarrow> Some (sv_restore SV p cfg, wheel_restore w, ls_seq snap)
        | Err _ \<Rightarrow> pick_anchor SV cfg journal_first snaps)"

definition node_open_with ::
  "('s, 'i, 'o, 'p, 'c, 'k, 'd, 'f) env \<Rightarrow> nat \<Rightarrow> node_config \<Rightarrow> 'c \<Rightarrow> 'k \<Rightarrow> 'd \<Rightarrow>
     (('s, 'o, 'c, 'k, 'f) node, node_error) result \<times> 'd"
where
  "node_open_with E t cfg scfg clock d =
     (let S = e_storage E; SV = e_service E; dir = jc_dir (nc_journal cfg) in
      case journal_open_with S t (nc_journal cfg) d of
        (Err e, d) \<Rightarrow> (Err (NodeJournal e), d)
      | (Ok rec, d) \<Rightarrow>
        (let journal_last = j_last_seq (re_journal rec); journal_first = re_first_seq rec in
         case high_water_seq S dir d of
           Err e \<Rightarrow> (Err (NodeJournal e), d)
         | Ok hw \<Rightarrow>
           (case load_candidates S dir (max journal_last hw) d of
              Err e \<Rightarrow> (Err (NodeJournal e), d)
            | Ok snaps \<Rightarrow>
                let anchor = pick_anchor SV scfg journal_first snaps in
                if anchor = None \<and> journal_first > seq_next GENESIS then (Err (UncoveredHistory journal_first), d)
                else
                  let (svc, wheel, from_seq) =
                        (case anchor of Some a \<Rightarrow> a | None \<Rightarrow> (sv_genesis SV scfg, wheel_new, GENESIS));
                      tip = max journal_last from_seq
                  in (case purge_after S dir tip d of
                        (Err e, d) \<Rightarrow> (Err (NodeJournal e), d)
                      | (Ok _, d) \<Rightarrow>
                        (case (if from_seq > journal_last then reseat_to S t (seq_next tip) (re_journal rec) d
                               else (Ok (), re_journal rec, d)) of
                           (Err e, j, d) \<Rightarrow> (Err (NodeJournal e), d)
                         | (Ok _, j, d) \<Rightarrow>
                           let tail = filter (\<lambda>f. f_seq f > from_seq) (re_frames rec) in
                           (case replay_frames SV tail (svc, wheel) of
                              Err e \<Rightarrow> (Err e, d)
                            | Ok (svc, wheel) \<Rightarrow>
                                (Ok \<lparr>n_service = svc, n_service_config = scfg, n_journal_config = nc_journal cfg,
                                     n_journal = j, n_snapshot_every = nc_snapshot_every cfg,
                                     n_retain_snapshots = nc_retain_snapshots cfg, n_clock = clock,
                                     n_stream_id = nc_stream_id cfg, n_seq = tip,
                                     n_last_timestamp = (if re_frames rec = [] then 0 else f_timestamp (last (re_frames rec))),
                                     n_bus = [],
                                     n_recovery = \<lparr>ri_snapshot_seq = (if from_seq > GENESIS then Some from_seq else None),
                                       ri_inputs_replayed = length (filter (\<lambda>f. f_kind f = Input) tail)\<rparr>,
                                     n_commit = map_option (\<lambda>c. cs_new (cc_voters c) (cc_self_replica c) tip) (nc_commit cfg),
                                     n_timers = wheel\<rparr>, d)))))))"

text \<open>
  \<open>verify_replay\<close> replays into a fresh service, ignoring the timer requests, and compares the
  encoded snapshots. The closure that it hands to \<open>replay_open\<close> is \<open>verify_frame\<close>.
\<close>

definition verify_frame :: "('s, 'i, 'o, 'p, 'c) service \<Rightarrow> frame \<Rightarrow> 's \<Rightarrow> ('s, node_error) result" where
  "verify_frame SV f svc =
     (case f_kind f of
        Input \<Rightarrow>
          (case decode_all (sv_dec_input SV) (f_payload f) of
             Err e \<Rightarrow> Err (CorruptInput (f_seq f) e)
           | Ok input \<Rightarrow> Ok (fst (sv_apply SV (f_seq f) input svc (ctx_new (f_seq f) (f_timestamp f)))))
      | TimerFired \<Rightarrow>
          (case decode_all dec_int (f_payload f) of
             Err e \<Rightarrow> Err (CorruptInput (f_seq f) e)
           | Ok tid \<Rightarrow> Ok (fst (sv_on_timer SV tid svc (ctx_new (f_seq f) (f_timestamp f)))))
      | _ \<Rightarrow> Ok svc)"

fun verify_frames :: "('s, 'i, 'o, 'p, 'c) service \<Rightarrow> frame list \<Rightarrow> 's \<Rightarrow> ('s, node_error) result" where
  "verify_frames SV [] svc = Ok svc"
| "verify_frames SV (f # fs) svc = rbind (verify_frame SV f svc) (verify_frames SV fs)"

definition verify_replay ::
  "('s, 'i, 'o, 'p, 'c, 'k, 'd, 'f) env \<Rightarrow> nat \<Rightarrow> ('s, 'o, 'c, 'k, 'f) node \<Rightarrow> 'd \<Rightarrow>
     (bool, 's, 'o, 'c, 'k, 'f, 'd) nres"
where
  "verify_replay E t n d =
     (case node_sync (e_storage E) t n d of
        (Err e, n, d) \<Rightarrow> (Err e, n, d)
      | (Ok _, n, d) \<Rightarrow>
          (case open_inner (e_storage E) t (n_journal_config n) d of
             (Err e, d) \<Rightarrow> (Err (NodeJournal e), n, d)
           | (Ok (j, meta, frames), d) \<Rightarrow>
               (case verify_frames (e_service E) frames (sv_genesis (e_service E) (n_service_config n)) of
                  Err e \<Rightarrow> (Err e, n, d)
                | Ok replayed \<Rightarrow>
                    (Ok (encode_to_vec (sv_enc_snap (e_service E)) (sv_snapshot (e_service E) (n_service n)) =
                         encode_to_vec (sv_enc_snap (e_service E)) (sv_snapshot (e_service E) replayed)), n, d))))"

end
