(* ===== verification/Node_Order.thy ===== *)
theory Node_Order
  imports Node
begin

text \<open>
  Two facts about the node that need nothing of storage or service: every subscriber sees
  sequenced time that never runs backwards, and when the loop of \<open>fire_due_timers\<close> ends.
\<close>

section \<open>Induction over the loop of \<open>fire_due_timers\<close>\<close>

text \<open>What each firing keeps holds of a run of the loop that returns a result.\<close>

lemma fire_due_timers_induct [consumes 1, case_names idle fire]:
  fixes E :: "('s, 'i, 'o, 'p, 'c, 'k, 'd, 'f) env" and n :: "('s, 'o, 'c, 'k, 'f) node"
  assumes "fire_due_timers E t rel n d = Some (Ok r, n', d')"
    and idle: "\<And>n d w. pop_due (n_last_timestamp n) (n_timers n) = (None, w) \<Longrightarrow> P n d n d"
    and fire: "\<And>n d tid w outs n1 d1 n' d'. pop_due (n_last_timestamp n) (n_timers n) = (Some tid, w) \<Longrightarrow>
      fire_timer E t tid (n\<lparr>n_timers := w\<rparr>) d = (Ok outs, n1, d1) \<Longrightarrow> P n1 d1 n' d' \<Longrightarrow> P n d n' d'"
  shows "P n d n' d'"
proof -
  let ?P = "\<lambda>F u rel n d (res :: ('o list, 's, 'o, 'c, 'k, 'f, 'd) nres).
      F = E \<longrightarrow> u = t \<longrightarrow> (\<forall>r n' d'. res = (Ok r, n', d') \<longrightarrow> P n d n' d')"
  have "?P E t rel n d (Ok r, n', d')"
  proof (rule fire_due_timers.raw_induct [where P = ?P, OF _ assms(1)])
    fix go F u rel n d res
    assume 1: "\<And>F u rel n d y. go F u rel n d = Some y \<Longrightarrow> ?P F u rel n d y"
      "(case pop_due (n_last_timestamp n) (n_timers n) of
        (None, w) \<Rightarrow> Some (Ok rel, n, d)
      | (Some tid, w) \<Rightarrow>
          (case fire_timer F u tid (n\<lparr>n_timers := w\<rparr>) d of
             (Err e, n, d) \<Rightarrow> Some (Err e, n, d)
           | (Ok outs, n, d) \<Rightarrow> go F u (rel @ outs) n d)) = Some res"
    show "?P F u rel n d res"
    proof (intro allI impI)
      fix r n' d'
      assume a: "F = E" "u = t" "res = (Ok r, n', d')"
      obtain p w where p: "pop_due (n_last_timestamp n) (n_timers n) = (p, w)" by fastforce
      show "P n d n' d'"
      proof (cases p)
        case None
        with 1(2) p a idle [of n w d] show ?thesis by simp
      next
        case (Some tid)
        with 1(2) p a obtain outs n1 d1 where
          f: "fire_timer E t tid (n\<lparr>n_timers := w\<rparr>) d = (Ok outs, n1, d1)" and go: "go E t (rel @ outs) n1 d1 = Some res"
          by (auto split: prod.splits result.splits)
        from fire [OF _ f] p Some 1(1) [OF go] a(3) show ?thesis by blast
      qed
    qed
  qed
  then show ?thesis by blast
qed

section \<open>Sequenced time is monotonic\<close>

definition stamped :: "('s, 'o, 'c, 'k, 'f) node \<Rightarrow> bool" where
  "stamped n \<longleftrightarrow> (\<forall>(c, fs) \<in> set (n_bus n). sorted (map f_timestamp fs) \<and>
     (\<forall>f \<in> set fs. f_timestamp f \<le> n_last_timestamp n))"

lemma stamped_publish:
  assumes "stamped n" and "f_timestamp f = n_last_timestamp n"
  shows "stamped (n\<lparr>n_bus := bus_publish f (n_bus n)\<rparr>)"
  using assms by (fastforce simp: stamped_def bus_publish_def sorted_append)

lemma stamped_later:
  assumes "stamped n" and "n_bus n' = n_bus n" and "n_last_timestamp n \<le> n_last_timestamp n'"
  shows "stamped n'"
  using assms by (fastforce simp: stamped_def)

lemma sequence_at_stamped:
  assumes "stamped n" and "sequence_at S t kind payload at n d = (Ok f, n', d')"
  shows "stamped n'" and "f_timestamp f = n_last_timestamp n'" and "n_timers n' = n_timers n"
    and "n_last_timestamp n \<le> n_last_timestamp n'" and "at \<le> n_last_timestamp n \<Longrightarrow> n_last_timestamp n' = n_last_timestamp n"
proof -
  from assms(2) have n': "n_bus n' = n_bus n" "f_timestamp f = n_last_timestamp n'"
      "n_last_timestamp n' = max at (n_last_timestamp n)" "n_timers n' = n_timers n"
    by (auto simp: sequence_at_def stage_frame_def frame_new_def Let_def
        split: option.splits prod.splits result.splits if_splits)
  from stamped_later [OF assms(1) n'(1)] n' show "stamped n'" "f_timestamp f = n_last_timestamp n'" "n_timers n' = n_timers n"
    "n_last_timestamp n \<le> n_last_timestamp n'" "at \<le> n_last_timestamp n \<Longrightarrow> n_last_timestamp n' = n_last_timestamp n"
    by (simp_all add: max.absorb2)
qed

lemma sequence_frame_stamped:
  assumes "stamped n" and "sequence_frame E t kind payload n d = (Ok f, n', d')"
  shows "stamped n'" and "f_timestamp f = n_last_timestamp n'" and "n_timers n' = n_timers n"
    and "n_last_timestamp n \<le> n_last_timestamp n'"
proof -
  let ?n1 = "n\<lparr>n_clock := snd (e_now E (n_clock n))\<rparr>"
  have s: "sequence_at (e_storage E) t kind payload (fst (e_now E (n_clock n))) ?n1 d = (Ok f, n', d')"
    using assms(2) by (simp add: sequence_frame_def read_clock_def split_beta)
  have "stamped ?n1" using assms(1) by (simp add: stamped_def)
  from sequence_at_stamped [OF this s] show "stamped n'" "f_timestamp f = n_last_timestamp n'" "n_timers n' = n_timers n"
    "n_last_timestamp n \<le> n_last_timestamp n'" by simp_all
qed

lemma maybe_snapshot_stamped:
  assumes "stamped n" and "maybe_snapshot E t s n d = (Ok (), n', d')"
  shows "stamped n'" and "n_timers n' = n_timers n" and "n_last_timestamp n \<le> n_last_timestamp n'"
proof -
  from assms(2) consider "n' = n"
    | mark n2 d1 d2 pl where "sequence_frame E t SnapshotMark pl n d1 = (Ok mark, n2, d2)"
        "n' = n2\<lparr>n_bus := bus_publish mark (n_bus n2)\<rparr>"
    by (auto simp: maybe_snapshot_def Let_def split: option.splits prod.splits result.splits if_splits)
  then have "stamped n' \<and> n_timers n' = n_timers n \<and> n_last_timestamp n \<le> n_last_timestamp n'"
  proof cases
    case 2
    from sequence_frame_stamped [OF assms(1) 2(1)] show ?thesis using stamped_publish 2(2) by fastforce
  qed (simp add: assms(1))
  then show "stamped n'" "n_timers n' = n_timers n" "n_last_timestamp n \<le> n_last_timestamp n'" by simp_all
qed

lemma finish_frame_stamped:
  assumes "stamped n" and "f_timestamp f = n_last_timestamp n" and "finish_frame E t f outs n d = (Ok rel, n', d')"
  shows "stamped n'" and "n_timers n' = n_timers n" and "n_last_timestamp n \<le> n_last_timestamp n'"
proof -
  let ?n1 = "n\<lparr>n_bus := bus_publish f (n_bus n)\<rparr>"
  from assms(3) obtain n2 d2 where m: "maybe_snapshot E t (f_seq f) ?n1 d = (Ok (), n2, d2)"
    and n': "n_bus n' = n_bus n2" "n_last_timestamp n' = n_last_timestamp n2" "n_timers n' = n_timers n2"
    by (auto simp: finish_frame_def Let_def split: prod.splits result.splits option.splits)
  note ms = maybe_snapshot_stamped [OF stamped_publish [OF assms(1,2)] m]
  show "stamped n'" using ms(1) n' by (simp add: stamped_def)
  show "n_timers n' = n_timers n" "n_last_timestamp n \<le> n_last_timestamp n'" using ms(2,3) n' by simp_all
qed

lemma run_step_fields:
  assumes "run_step f st n = (outs, n')"
  shows "n_bus n' = n_bus n" and "n_last_timestamp n' = n_last_timestamp n"
    and "n_timers n' = fold_timers (c_timers (snd (st (n_service n) (ctx_new (f_seq f) (f_timestamp f))))) (f_seq f) (n_timers n)"
  using assms by (auto simp: run_step_def split: prod.splits)

text \<open>One firing: the wheel afterwards is the wheel with what the handler asked for.\<close>

lemma fire_timer_stamped:
  assumes "stamped n" and "fire_timer E t tid n d = (Ok outs, n', d')"
  shows "stamped n'" and "n_last_timestamp n \<le> n_last_timestamp n'"
    and "\<exists>s svc. n_timers n' = fold_timers (c_timers (snd (sv_on_timer (e_service E) tid svc
      (ctx_new s (n_last_timestamp n))))) s (n_timers n)"
proof -
  from assms(2) obtain f n2 d2 o3 n3 pl where
    sq: "sequence_at (e_storage E) t TimerFired pl (n_last_timestamp n) n d = (Ok f, n2, d2)"
    and step: "run_step f (sv_on_timer (e_service E) tid) n2 = (o3, n3)"
    and fin: "finish_frame E t f o3 n3 d2 = (Ok outs, n', d')"
    by (auto simp: fire_timer_def split: prod.splits result.splits)
  note s2 = sequence_at_stamped [OF assms(1) sq] and rs = run_step_fields [OF step]
  have "stamped n3" using s2(1) rs by (simp add: stamped_def)
  from finish_frame_stamped [OF this _ fin] s2 rs
  show "stamped n'" "n_last_timestamp n \<le> n_last_timestamp n'"
    "\<exists>s svc. n_timers n' = fold_timers (c_timers (snd (sv_on_timer (e_service E) tid svc
      (ctx_new s (n_last_timestamp n))))) s (n_timers n)"
    by auto
qed

lemma fire_due_timers_stamped:
  assumes "fire_due_timers E t rel n d = Some (Ok r, n', d')" and "stamped n"
  shows "stamped n'"
proof -
  have "stamped n \<longrightarrow> stamped n'"
    using assms(1)
  proof (induction rule: fire_due_timers_induct)
    case (fire n d tid w outs n1 d1 n' d')
    have "stamped n \<Longrightarrow> stamped (n\<lparr>n_timers := w\<rparr>)" by (simp add: stamped_def)
    with fire_timer_stamped(1) [OF _ fire(2)] fire(3) show ?case by blast
  qed simp
  with assms(2) show ?thesis by blast
qed

section \<open>The loop over due timers\<close>

lemma pop_due_shrinks: "pop_due now w = (Some tid, w') \<Longrightarrow> length (w_order w') < length (w_order w)"
  by (auto simp: pop_due_def bt_first_def bt_remove_def less_Suc_eq_le split: option.splits if_splits list.splits)

text \<open>A handler that arms nothing: the loop ends, whatever storage does.\<close>

lemma finish_frame_timers:
  assumes "finish_frame E t f outs n d = (Ok rel, n', d')"
  shows "n_timers n' = n_timers n"
  using assms
  by (auto simp: finish_frame_def maybe_snapshot_def sequence_frame_def read_clock_def sequence_at_def stage_frame_def Let_def
      split: prod.splits result.splits option.splits if_splits)

lemma fire_timer_quiet:
  assumes "\<And>tid s c. c_timers (snd (sv_on_timer (e_service E) tid s c)) = c_timers c"
    and "fire_timer E t tid n d = (Ok outs, n', d')"
  shows "n_timers n' = n_timers n"
proof -
  from assms(2) obtain f n2 d2 o3 n3 pl where
    sq: "sequence_at (e_storage E) t TimerFired pl (n_last_timestamp n) n d = (Ok f, n2, d2)"
    and step: "run_step f (sv_on_timer (e_service E) tid) n2 = (o3, n3)"
    and fin: "finish_frame E t f o3 n3 d2 = (Ok outs, n', d')"
    by (auto simp: fire_timer_def split: prod.splits result.splits)
  have "n_timers n2 = n_timers n"
    using sq by (auto simp: sequence_at_def stage_frame_def Let_def split: prod.splits result.splits option.splits)
  then show ?thesis
    using run_step_fields(3) [OF step] finish_frame_timers [OF fin] assms(1) by (simp add: fold_timers_def ctx_new_def)
qed

lemma fire_due_timers_ends:
  assumes quiet: "\<And>tid s c. c_timers (snd (sv_on_timer (e_service E) tid s c)) = c_timers c"
  shows "\<exists>res. fire_due_timers E t rel n d = Some res"
proof (induction "length (w_order (n_timers n))" arbitrary: rel n d rule: less_induct)
  case less
  obtain p w where p: "pop_due (n_last_timestamp n) (n_timers n) = (p, w)" by fastforce
  show ?case
  proof (cases p)
    case None
    with p show ?thesis by (subst fire_due_timers.simps) simp
  next
    case (Some tid)
    obtain r n1 d1 where f: "fire_timer E t tid (n\<lparr>n_timers := w\<rparr>) d = (r, n1, d1)" by (metis prod_cases3)
    show ?thesis
    proof (cases r)
      case (Ok outs)
      with f have "n_timers n1 = w" using fire_timer_quiet [OF quiet] by fastforce
      with less pop_due_shrinks p Some have "\<exists>res. fire_due_timers E t (rel @ outs) n1 d1 = Some res" by metis
      with p Some f Ok show ?thesis by (subst fire_due_timers.simps) simp
    next
      case (Err e)
      with p Some f show ?thesis by (subst fire_due_timers.simps) simp
    qed
  qed
qed

text \<open>A handler that re-arms its timer at the current time: the loop never returns a result.\<close>

lemma fire_due_timers_rearmed:
  assumes rearm: "\<And>tid s c. c_timers (snd (sv_on_timer (e_service E) tid s c)) = c_timers c @ [SetTimer tid (c_now c)]"
    and "fire_due_timers E t rel n d = Some (Ok r, n', d')" and "wheel_ok (n_timers n)"
    and "pending (n_timers n) tid = Some (at, s)" and "at \<le> n_last_timestamp n" and "stamped n"
  shows False
proof -
  have "\<not> (stamped n \<and> wheel_ok (n_timers n) \<and>
      (\<exists>tid at s. pending (n_timers n) tid = Some (at, s) \<and> at \<le> n_last_timestamp n))"
    using assms(2)
  proof (induction rule: fire_due_timers_induct)
    case (idle n d w)
    then show ?case using pop_due_None_iff [of "n_timers n" "n_last_timestamp n"] by (auto simp flip: not_le)
  next
    case (fire n d tid w outs n1 d1 n' d')
    show ?case
    proof
      assume a: "stamped n \<and> wheel_ok (n_timers n) \<and>
        (\<exists>tid at s. pending (n_timers n) tid = Some (at, s) \<and> at \<le> n_last_timestamp n)"
      then have "wheel_ok w" and st: "stamped (n\<lparr>n_timers := w\<rparr>)"
        using pop_due_Some [OF _ fire(1)] by (blast, simp add: stamped_def)
      note ft = fire_timer_stamped [OF st fire(2)]
      from ft(3) obtain s where "n_timers n1 = wheel_set tid (n_last_timestamp n) s w"
        by (auto simp: rearm fold_timers_def ctx_new_def)
      then have "wheel_ok (n_timers n1)" "pending (n_timers n1) tid = Some (n_last_timestamp n, s)"
        using \<open>wheel_ok w\<close> by simp_all
      with fire(3) ft(1,2) show False by auto
    qed
  qed
  with assms(3-) show False by blast
qed

end
