(* ===== verification/Node_Replay.thy ===== *)
theory Node_Replay
  imports Node_Order
begin

text \<open>
  The invariant of a running node: the journal, with what the snapshots on disk cover, is the
  history of the frames it sequenced, and the state in memory is the replay of that history.
  \<open>service_laws\<close> is what the runtime relies on of the application that it hosts; \<open>hosted\<close> is a
  service on a storage that loses what was not synced.
\<close>

section \<open>What the runtime relies on of a service\<close>

text \<open>
  \<open>vi\<close>: the inputs that can be encoded; \<open>vs\<close>: the states that the service reaches; \<open>sz\<close>: the states
  whose snapshot fits the length fields of its encoding.
\<close>

locale service_laws =
  fixes SV :: "('s, 'i, 'o, 'p, 'c) service" and scfg :: 'c and vi :: "'i \<Rightarrow> bool"
    and vs :: "'s \<Rightarrow> bool" and sz :: "'s \<Rightarrow> bool"
  assumes input_roundtrip: "vi i \<Longrightarrow> decode_all (sv_dec_input SV) (encode_to_vec (sv_enc_input SV) i) = Ok i"
    and input_valid: "decode_all (sv_dec_input SV) bs = Ok i \<Longrightarrow> vi i"
    and snap_roundtrip: "vs s \<Longrightarrow> sz s \<Longrightarrow>
      sv_dec_snap SV (sv_enc_snap SV (sv_snapshot SV s) @ rest) = Ok (sv_snapshot SV s, rest)"
    and restore_snapshot: "vs s \<Longrightarrow> sv_restore SV (sv_snapshot SV s) scfg = s"
    and vs_genesis: "vs (sv_genesis SV scfg)"
    and vs_apply: "vs s \<Longrightarrow> vi i \<Longrightarrow> vs (fst (sv_apply SV q i s c))"
    and vs_on_timer: "vs s \<Longrightarrow> vs (fst (sv_on_timer SV tid s c))"
begin

abbreviation replay :: "frame list \<Rightarrow> ('s \<times> wheel, node_error) result" where
  "replay hist \<equiv> replay_frames SV hist (sv_genesis SV scfg, wheel_new)"

definition snap_payload :: "'s \<times> wheel \<Rightarrow> bytes" where
  "snap_payload sw = encode_to_vec (enc_pair (sv_enc_snap SV) enc_timers)
     (sv_snapshot SV (fst sw), wheel_snapshot (snd sw))"

text \<open>The states after each prefix of a history have snapshots that fit their length fields.\<close>

definition sizes_ok :: "frame list \<Rightarrow> bool" where
  "sizes_ok hist \<longleftrightarrow> (\<forall>m sw. replay (take m hist) = Ok sw \<longrightarrow>
     sz (fst sw) \<and> wheel_len (snd sw) < 2 ^ 32 \<and> length (snap_payload sw) < 2 ^ 32)"

lemma wheel_ok_fold_timers [simp]: "wheel_ok w \<Longrightarrow> wheel_ok (fold_timers ops s w)"
  by (induction ops arbitrary: w) (simp_all add: fold_timers_def)

lemma replay_frame_ok:
  assumes "replay_frame SV f sw = Ok sw'" and "vs (fst sw)" and "wheel_ok (snd sw)"
  shows "vs (fst sw') \<and> wheel_ok (snd sw')"
proof (cases "f_kind f")
  case Input
  with assms(1) obtain i where i: "decode_all (sv_dec_input SV) (f_payload f) = Ok i"
      "sw' = replay_step f (sv_apply SV (f_seq f) i) sw"
    by (auto simp: replay_frame_def split: result.splits)
  then show ?thesis
    using assms(2,3) vs_apply [OF assms(2) input_valid [OF i(1)]]
    by (simp add: replay_step_def split_beta)
next
  case TimerFired
  with assms(1) obtain tid where "sw' = replay_step f (sv_on_timer SV tid) (fst sw, wheel_cancel tid (snd sw))"
    by (auto simp: replay_frame_def split: result.splits)
  then show ?thesis
    using assms(2,3) vs_on_timer [OF assms(2)] by (simp add: replay_step_def split_beta)
qed (use assms in \<open>auto simp: replay_frame_def\<close>)

lemma replay_frames_ok:
  "replay_frames SV fs sw = Ok sw' \<Longrightarrow> vs (fst sw) \<Longrightarrow> wheel_ok (snd sw) \<Longrightarrow> vs (fst sw') \<and> wheel_ok (snd sw')"
proof (induction fs arbitrary: sw)
  case (Cons f fs)
  then obtain sw1 where "replay_frame SV f sw = Ok sw1" "replay_frames SV fs sw1 = Ok sw'"
    by (auto simp: rbind_Ok_iff)
  with Cons show ?case using replay_frame_ok by blast
qed simp

lemma replay_ok: "replay hist = Ok sw \<Longrightarrow> vs (fst sw) \<and> wheel_ok (snd sw)"
  using replay_frames_ok [of hist "(sv_genesis SV scfg, wheel_new)" sw] vs_genesis by simp

text \<open>What a snapshot holds is the state it was taken of.\<close>

lemma snap_payload_decode:
  assumes "vs (fst sw)" and "sz (fst sw)" and "wheel_ok (snd sw)" and "wheel_len (snd sw) < 2 ^ 32"
  shows "decode_all (dec_pair (sv_dec_snap SV) dec_timers) (snap_payload sw) =
      Ok (sv_snapshot SV (fst sw), wheel_snapshot (snd sw))"
    and "sv_restore SV (sv_snapshot SV (fst sw)) scfg = fst sw"
    and "wheel_restore (wheel_snapshot (snd sw)) = snd sw"
proof -
  have "codec enc_timers dec_timers (len_vec (len_pair len_int (len_pair len_int len_int)))
      (wf_vec (\<lambda>p. True \<and> True \<and> True))"
    by (rule codec.codec_vec [OF u64c.codec_pair [OF u64c.codec_pair [OF u64c.codec_axioms]]])
  moreover have "wf_vec (\<lambda>p. True \<and> True \<and> True) (wheel_snapshot (snd sw))"
    using assms(4) by (simp add: wf_vec_def wheel_snapshot_def wheel_len_def list_all_iff)
  ultimately have "dec_timers (enc_timers (wheel_snapshot (snd sw)) @ []) = Ok (wheel_snapshot (snd sw), [])"
    by (rule codec.roundtrip)
  then show "decode_all (dec_pair (sv_dec_snap SV) dec_timers) (snap_payload sw) =
      Ok (sv_snapshot SV (fst sw), wheel_snapshot (snd sw))"
    using snap_roundtrip [OF assms(1,2)]
    by (simp add: decode_all_def encode_to_vec_def snap_payload_def enc_pair_def dec_pair_def)
qed (use assms in \<open>simp_all add: restore_snapshot wheel_restore_snapshot_eq\<close>)

end

text \<open>Control frames do not change the replayed state.\<close>

definition control :: "frame \<Rightarrow> bool" where
  "control f \<longleftrightarrow> f_kind f \<noteq> Input \<and> f_kind f \<noteq> TimerFired"

lemma replay_frames_append:
  "replay_frames SV (fs @ gs) sw = rbind (replay_frames SV fs sw) (replay_frames SV gs)"
proof (induction fs arbitrary: sw)
  case (Cons f fs)
  then show ?case by (cases "replay_frame SV f sw") simp_all
qed simp

lemma replay_frames_control: "\<forall>f \<in> set fs. control f \<Longrightarrow> replay_frames SV fs sw = Ok sw"
  by (induction fs) (auto simp: control_def replay_frame_def split: frame_kind.splits)

text \<open>What \<open>maybe_snapshot\<close> adds to the stream.\<close>

definition marks :: "frame list \<Rightarrow> bool" where
  "marks fs \<longleftrightarrow> length fs \<le> 1 \<and> (\<forall>f \<in> set fs. f_kind f = SnapshotMark)"

lemma replay_frames_marks: "marks fs \<Longrightarrow> replay_frames SV fs sw = Ok sw"
  by (rule replay_frames_control) (simp add: marks_def control_def)

section \<open>The journal and the snapshot store on one disk\<close>

lemma snap_path_inj [simp]: "snap_path dir s = snap_path dir t \<longleftrightarrow> s = t"
  by (metis less_irrefl linorder_neq_iff snap_path_less_iff)

lemma inj_snap_path: "inj (snap_path dir)"
  by (rule injI) simp

lemma snap_path_le_iff: "snap_path dir s \<le> snap_path dir t \<longleftrightarrow> s \<le> t"
  by (simp add: snap_path_less_iff flip: not_less)

lemma sort_snap_paths:
  assumes "distinct as"
  shows "sort (map (snap_path dir) as) = map (snap_path dir) (sort as)"
proof (rule sorted_distinct_set_unique)
  show "sorted (map (snap_path dir) (sort as))" by (simp add: sorted_map snap_path_le_iff)
qed (use assms in \<open>simp_all add: distinct_map inj_on_def\<close>)

lemma insort_key_map: "insort_key f (h x) (map h xs) = map h (insort_key (\<lambda>x. f (h x)) x xs)"
  by (induction xs) auto

lemma sort_key_map: "sort_key f (map h xs) = map h (sort_key (\<lambda>x. f (h x)) xs)"
  by (induction xs) (simp_all add: insort_key_map)

lemma sorted_take_below:
  assumes "sorted xs" and "distinct xs" and "n < length xs"
  shows "{x \<in> set xs. x < xs ! n} = set (take n xs)"
proof -
  have "sorted_wrt (<) xs" using assms(1,2) by (simp add: strict_sorted_iff)
  then have "xs ! i < xs ! n \<longleftrightarrow> i < n" if "i < length xs" for i
    using that assms(3) by (metis linorder_neqE_nat not_less_iff_gr_or_eq sorted_wrt_nth_less)
  moreover have "set (take n xs) = nth xs ` {0..<n}" using assms(3) by (simp add: nth_image)
  ultimately show ?thesis using assms(3) by (auto simp: set_conv_nth)
qed

context storage_laws
begin

text \<open>\<open>seg_same dir d d'\<close>: the segments of the journal in \<open>dir\<close>, and the handles on them, are as they were.\<close>

definition seg_same :: "string \<Rightarrow> 'd \<Rightarrow> 'd \<Rightarrow> bool" where
  "seg_same dir d d' \<longleftrightarrow> ok d' \<and>
     (\<forall>p. fst p = dir \<longrightarrow> extension p = Some ''seg'' \<longrightarrow> content d' p = content d p \<and> stable d' p = stable d p) \<and>
     (\<forall>g q. fst q = dir \<longrightarrow> extension q = Some ''seg'' \<longrightarrow> live g d = Some q \<longrightarrow> live g d' = Some q)"

lemma seg_sameD:
  assumes "seg_same dir d d'" and "fst p = dir" and "extension p = Some ''seg''"
  shows "content d' p = content d p" and "stable d' p = stable d p" and "live g d = Some p \<Longrightarrow> live g d' = Some p"
  using assms unfolding seg_same_def by blast+

lemma seg_same_refl: "ok d \<Longrightarrow> seg_same dir d d"
  unfolding seg_same_def by blast

lemma seg_same_trans: "seg_same dir d d' \<Longrightarrow> seg_same dir d' d'' \<Longrightarrow> seg_same dir d d''"
  unfolding seg_same_def by metis

lemma seg_same_sync_dir:
  assumes "ok d"
  shows "\<exists>d'. st_sync_dir S dir' d = (Ok (), d') \<and> seg_same dir d d' \<and> content d' = content d \<and> stable d' = stable d"
  using sync_dir [OF assms, of dir'] unfolding seg_same_def by fastforce

lemma jinv_seg_same:
  assumes inv: "jinv s gs act k j d" and same: "seg_same (jc_dir (j_config j)) d d'"
  shows "jinv s gs act k j d'"
proof -
  let ?dir = "jc_dir (j_config j)"
  have p: "fst (sg_path ?dir g) = ?dir" "extension (sg_path ?dir g) = Some ''seg''" for g
    by (simp_all add: sg_path_def)
  have "seg_files ?dir d' = seg_files ?dir d"
    using seg_sameD(1) [OF same] unfolding seg_files_def by auto
  moreover have "sealed_on ?dir d' g \<longleftrightarrow> sealed_on ?dir d g" for g
    using seg_sameD(1,2) [OF same p [of g]] by (simp add: sealed_on_def)
  ultimately have "on_disk ?dir gs act k [] d'"
    using inv seg_sameD(1,2) [OF same p [of act]] same unfolding jinv_def on_disk_def seg_same_def by simp
  moreover have "at_tail act j d'"
    using inv seg_sameD(3) [OF same p [of act]] unfolding jinv_def at_tail_def by blast
  ultimately show ?thesis using inv unfolding jinv_def by blast
qed

lemma jrepr_seg_same:
  assumes "jrepr hist dur j d" and same: "seg_same (jc_dir (j_config j)) d d'"
  shows "jrepr hist dur j d'"
  using assms(1)
proof (cases rule: jrepr_cases)
  case 1
  have "seg_files (jc_dir (j_config j)) d' = {}"
    using 1 seg_sameD(1) [OF same] unfolding jempty_def seg_files_def by auto
  with 1 same show ?thesis unfolding jrepr_def jempty_def seg_same_def by blast
next
  case (2 s gs act k)
  with jrepr_jinvI [OF jinv_seg_same [OF 2(1) same] 2(3)] show ?thesis by simp
qed

lemma jrepr_ok: "jrepr hist dur j d \<Longrightarrow> ok d"
  by (auto simp: jrepr_def jempty_def jinv_def on_disk_def)

lemma jrepr_mono: "jrepr hist dur j d \<Longrightarrow> dur' \<le> dur \<Longrightarrow> jrepr hist dur' j d"
  by (erule jrepr_cases) (simp add: jrepr_def, metis jrepr_jinvI le_trans)

lemma untouched_snap_files:
  assumes "untouched dir d d'"
  shows "snap_files dir d' = snap_files dir d"
    and "p \<in> snap_files dir d \<Longrightarrow> content d' p = content d p \<and> stable d' p = stable d p"
proof -
  have *: "content d' p = content d p \<and> stable d' p = stable d p" if "extension p = Some ''snap''" for p
  proof -
    have "\<not> (fst p = dir \<and> extension p = Some ''seg'')" using that by simp
    with assms show ?thesis unfolding untouched_def by blast
  qed
  then show "snap_files dir d' = snap_files dir d" unfolding snap_files_def by auto
  show "p \<in> snap_files dir d \<Longrightarrow> content d' p = content d p \<and> stable d' p = stable d p"
    using * unfolding snap_files_def by blast
qed

lemma snap_write_Ok:
  assumes "ok d" and w: "snap_write S dir s ep p d = (Ok (), d')"
  shows "seg_same dir d d' \<and> content d (snap_path dir s) = None \<and>
    content d' = (content d)(snap_path dir s \<mapsto> snapshot_bytes s ep p) \<and>
    stable d' = (stable d)(snap_path dir s \<mapsto> snapshot_bytes s ep p)"
proof -
  let ?p = "snap_path dir s"
  have fresh: "content d ?p = None"
    using w create_new_exists [OF assms(1), of ?p] by (cases "content d ?p") (auto simp: snap_write_def sio_def)
  from create_new_fresh [OF assms(1) fresh] obtain f d1 where
    d1: "st_create_new S ?p d = (Ok f, d1)" "ok d1" "live f d1 = Some ?p" "content d1 = (content d)(?p \<mapsto> [])"
      "stable d1 = (stable d)(?p \<mapsto> [])" "\<forall>g q. live g d = Some q \<longrightarrow> live g d1 = Some q" by blast
  from write_all [OF d1(2,3)] d1(4) obtain d2 where
    d2: "st_write_all S f (snapshot_bytes s ep p) d1 = (Ok (), d2)" "ok d2"
      "content d2 = (content d1)(?p \<mapsto> snapshot_bytes s ep p)" "stable d2 = stable d1" "\<forall>g. live g d2 = live g d1"
    by (metis append_Nil fun_upd_same)
  from sync_data [OF d2(2), of f ?p] d1(3) d2(5) obtain d3 where
    d3: "st_sync_data S f d2 = (Ok (), d3)" "ok d3" "content d3 = content d2"
      "stable d3 = (stable d2)(?p := content d2 ?p)" "\<forall>g. live g d3 = live g d2" by auto
  from sync_dir [OF d3(2)] obtain d4 where
    d4: "st_sync_dir S dir d3 = (Ok (), d4)" "ok d4" "content d4 = content d3" "stable d4 = stable d3"
      "\<forall>g. live g d4 = live g d3" by metis
  have "d' = d4" using w d1(1) d2(1) d3(1) d4(1) by (simp add: snap_write_def sio_def)
  then have c: "content d' = (content d)(?p \<mapsto> snapshot_bytes s ep p)"
    and st: "stable d' = (stable d)(?p \<mapsto> snapshot_bytes s ep p)"
    using d1 d2 d3 d4 by simp_all
  have "q \<noteq> ?p" if "extension q = Some ''seg''" for q using that by auto
  then have "seg_same dir d d'"
    using c st d1(6) d2(5) d3(5) d4(2,5) \<open>d' = d4\<close> unfolding seg_same_def by (simp add: fun_upd_def)
  with fresh c st show ?thesis by blast
qed

lemma remove_all_ok:
  assumes "ok d" and "distinct ps" and "\<forall>p \<in> set ps. content d p \<noteq> None \<and> extension p = Some ''snap''"
  shows "\<exists>d'. remove_all S ps d = (Ok (), d') \<and> seg_same dir d d' \<and>
    content d' = (\<lambda>p. if p \<in> set ps then None else content d p) \<and>
    stable d' = (\<lambda>p. if p \<in> set ps then None else stable d p)"
  using assms
proof (induction ps arbitrary: d)
  case Nil
  then show ?case by (simp add: seg_same_refl)
next
  case (Cons p ps)
  then obtain d1 where d1: "st_remove S p d = (Ok (), d1)" "ok d1" "content d1 = (content d)(p := None)"
      "stable d1 = (stable d)(p := None)" "\<forall>g q. live g d = Some q \<longrightarrow> q \<noteq> p \<longrightarrow> live g d1 = Some q"
    using remove [OF Cons.prems(1), of p] by auto
  have "q \<noteq> p" if "extension q = Some ''seg''" for q using that Cons.prems(3) by auto
  then have same: "seg_same dir d d1" using d1(2-5) unfolding seg_same_def by (simp add: fun_upd_def)
  have "\<forall>q \<in> set ps. content d1 q \<noteq> None \<and> extension q = Some ''snap''"
    using Cons.prems(2,3) d1(3) by auto
  with Cons.IH [OF d1(2)] Cons.prems(2) obtain d' where
    "remove_all S ps d1 = (Ok (), d')" "seg_same dir d1 d'"
      "content d' = (\<lambda>q. if q \<in> set ps then None else content d1 q)"
      "stable d' = (\<lambda>q. if q \<in> set ps then None else stable d1 q)" by auto
  with d1(1,3,4) same show ?case
    by (intro exI [of _ d']) (auto simp: fun_eq_iff intro: seg_same_trans)
qed

text \<open>A directory all of whose snapshot files carry the name of a sequence number in \<open>A\<close>.\<close>

lemma snap_listing:
  assumes "ok d" and "snap_files dir d = snap_path dir ` A"
  shows "\<exists>as. list_snaps S dir d = Ok (map (snap_path dir) as) \<and> distinct as \<and> set as = A"
proof -
  obtain ps where ps: "list_snaps S dir d = Ok ps" "distinct ps" "set ps = snap_path dir ` A"
    using list_snaps_files [OF assms(1), of dir] assms(2) by auto
  note inj = inj_snap_path [of dir]
  define as where "as = map (the_inv (snap_path dir)) ps"
  have ps_as: "ps = map (snap_path dir) as"
    unfolding as_def map_map using ps(3) by (intro map_idI [symmetric]) (auto simp: the_inv_f_f [OF inj])
  have "distinct as" "set as = A"
    using ps(2,3) inj by (auto simp: ps_as distinct_map image_iff inj_image_eq_iff)
  with ps(1) ps_as show ?thesis by blast
qed

text \<open>
  Pruning a directory all of whose snapshot files carry the name of a sequence number: what it
  reports is kept, and is the oldest that is kept.
\<close>

lemma prune_returns:
  assumes ok: "ok d" and names: "snap_files dir d = snap_path dir ` A"
  shows "\<exists>r d'. prune_keep_newest S dir keep d = (Ok r, d') \<and> seg_same dir d d' \<and>
    (case r of None \<Rightarrow> A = {} \<and> content d' = content d \<and> stable d' = stable d
     | Some s \<Rightarrow> s \<in> A \<and>
         content d' = (\<lambda>p. if p \<in> snap_path dir ` {a \<in> A. a < s} then None else content d p) \<and>
         stable d' = (\<lambda>p. if p \<in> snap_path dir ` {a \<in> A. a < s} then None else stable d p))"
proof -
  obtain as where ps: "list_snaps S dir d = Ok (map (snap_path dir) as)" and as: "distinct as" "set as = A"
    using snap_listing [OF ok names] by blast
  note inj = inj_snap_path [of dir]
  let ?es = "map (\<lambda>a. (a, snap_path dir a)) as" and ?so = "sort as"
  have entries: "List.map_filter (\<lambda>p. map_option (\<lambda>s. (s, p)) (parse_u64 (file_stem p))) (map (snap_path dir) as) = ?es"
    by (simp add: List.map_filter_def comp_def)
  have sorted: "sort_key fst ?es = map (\<lambda>a. (a, snap_path dir a)) ?so"
    using sort_key_map [of fst "\<lambda>a. (a, snap_path dir a)" as] by simp
  have below: "{a \<in> A. a < ?so ! n} = set (take n ?so)" if "n < length as" for n
    using sorted_take_below [of ?so n] that as by simp
  show ?thesis
  proof (cases "length as > max keep 1")
    case True
    define n where "n = length as - max keep 1"
    have n: "n < length as" using True by (simp add: n_def max_def split: if_splits)
    have "distinct (map (snap_path dir) (take n ?so))"
      using as(1) inj by (auto simp: distinct_map intro: inj_on_subset)
    moreover have "content d p \<noteq> None \<and> extension p = Some ''snap''" if "p \<in> set (map (snap_path dir) (take n ?so))" for p
    proof -
      have "p \<in> snap_files dir d" using that as(2) names in_set_takeD [of _ n ?so] by auto
      then show ?thesis unfolding snap_files_def by simp
    qed
    ultimately obtain d1 where
      d1: "remove_all S (map (snap_path dir) (take n ?so)) d = (Ok (), d1)" "seg_same dir d d1"
        "content d1 = (\<lambda>p. if p \<in> set (map (snap_path dir) (take n ?so)) then None else content d p)"
        "stable d1 = (\<lambda>p. if p \<in> set (map (snap_path dir) (take n ?so)) then None else stable d p)"
      using remove_all_ok [OF ok] by blast
    have "ok d1" using d1(2) unfolding seg_same_def by blast
    from seg_same_sync_dir [OF this, of dir dir] obtain d2 where
      d2: "st_sync_dir S dir d1 = (Ok (), d2)" "seg_same dir d1 d2" "content d2 = content d1" "stable d2 = stable d1" by blast
    have "prune_keep_newest S dir keep d = (Ok (Some (?so ! n)), d2)"
      using True n d1(1) d2(1) ps
      by (simp add: n_def prune_keep_newest_def entries sorted take_map comp_def sio_def)
    moreover have "?so ! n \<in> A" using as(2) n nth_mem [of n ?so] by simp
    ultimately show ?thesis
      using d1(2-4) d2(2-4) seg_same_trans [OF d1(2) d2(2)]
      by (intro exI [of _ "Some (?so ! n)"] exI [of _ d2]) (simp add: below [OF n])
  next
    case False
    have nil: "?so = [] \<longleftrightarrow> as = []" by (metis length_0_conv length_sort)
    with False have "prune_keep_newest S dir keep d = (Ok (if as = [] then None else Some (hd ?so)), d)"
      using ps by (auto simp: prune_keep_newest_def entries sorted Let_def hd_map)
    moreover have "as \<noteq> [] \<Longrightarrow> hd ?so \<in> A \<and> {a \<in> A. a < hd ?so} = {}"
      using below [of 0] as(2) hd_in_set [of ?so] nil by (simp add: hd_conv_nth)
    ultimately show ?thesis using ok as(2)
      by (intro exI [of _ "if as = [] then None else Some (hd ?so)"] exI [of _ d])
        (cases "as = []"; simp add: seg_same_refl del: Collect_empty_eq empty_Collect_eq)
  qed
qed

end

section \<open>The invariant\<close>

locale hosted = crashing_storage S ok content stable live power_loss + service_laws SV scfg vi vs sz
  for S :: "('d, 'f) storage" and ok content stable live power_loss
    and SV :: "('s, 'i, 'o, 'p, 'c) service" and scfg vi vs sz
begin

text \<open>Every snapshot file is the whole state after a prefix of the history, and is stable.\<close>

definition snaps_of :: "frame list \<Rightarrow> string \<Rightarrow> 'd \<Rightarrow> bool" where
  "snaps_of hist dir d \<longleftrightarrow> (\<forall>p \<in> snap_files dir d. \<exists>s sw. 0 < s \<and> unat s \<le> length hist \<and> p = snap_path dir s \<and>
     replay (take (unat s) hist) = Ok sw \<and>
     content d p = Some (snapshot_bytes s 0 (snap_payload sw)) \<and> stable d p = content d p)"

text \<open>
  The node has sequenced \<open>hist\<close>, of which the first \<open>dur\<close> frames survive a power loss. The journal
  holds it from position \<open>k\<close> on, and a snapshot that is not older covers what compaction removed.
\<close>

definition backed :: "frame list \<Rightarrow> nat \<Rightarrow> 'f journal \<Rightarrow> 'd \<Rightarrow> bool" where
  "backed hist dur j d \<longleftrightarrow> (\<exists>k \<le> length hist. jrepr (drop k hist) (dur - k) j d \<and>
     (0 < k \<longrightarrow> (\<exists>s. k \<le> unat s \<and> snap_path (jc_dir (j_config j)) s \<in> snap_files (jc_dir (j_config j)) d)))"

definition journaled :: "journal_config \<Rightarrow> frame list \<Rightarrow> nat \<Rightarrow> ('s, 'o, 'c, 'k, 'f) node \<Rightarrow> 'd \<Rightarrow> bool" where
  "journaled jcfg hist dur n d \<longleftrightarrow> contiguous_from 1 hist \<and> length hist + 1 < 2 ^ 64 \<and> dur \<le> length hist \<and>
     n_seq n = of_nat (length hist) \<and> j_last_seq (n_journal n) = n_seq n \<and>
     n_journal_config n = jcfg \<and> j_config (n_journal n) = jcfg \<and> n_service_config n = scfg \<and>
     backed hist dur (n_journal n) d \<and> snaps_of hist (jc_dir jcfg) d"

definition applied :: "frame list \<Rightarrow> ('s, 'o, 'c, 'k, 'f) node \<Rightarrow> bool" where
  "applied hist n \<longleftrightarrow> replay hist = Ok (n_service n, n_timers n)"

text \<open>The counter of sequence numbers has 64 bits; what the node does once it wraps is left open.\<close>

definition Journaled :: "journal_config \<Rightarrow> frame list \<Rightarrow> nat \<Rightarrow> ('s, 'o, 'c, 'k, 'f) node \<Rightarrow> 'd \<Rightarrow> bool" where
  "Journaled jcfg hist dur n d \<longleftrightarrow> (length hist + 1 < 2 ^ 64 \<longrightarrow> journaled jcfg hist dur n d)"

definition Live :: "journal_config \<Rightarrow> frame list \<Rightarrow> nat \<Rightarrow> ('s, 'o, 'c, 'k, 'f) node \<Rightarrow> 'd \<Rightarrow> bool" where
  "Live jcfg hist dur n d \<longleftrightarrow> (length hist + 1 < 2 ^ 64 \<longrightarrow> journaled jcfg hist dur n d \<and> applied hist n)"

lemma snaps_of_extend:
  assumes "snaps_of hist dir d"
  shows "snaps_of (hist @ fs) dir d"
  unfolding snaps_of_def
proof
  fix p assume "p \<in> snap_files dir d"
  with assms obtain s sw where "0 < s" "unat s \<le> length hist" "p = snap_path dir s"
      "replay (take (unat s) hist) = Ok sw" "content d p = Some (snapshot_bytes s 0 (snap_payload sw))" "stable d p = content d p"
    unfolding snaps_of_def by blast
  then show "\<exists>s sw. 0 < s \<and> unat s \<le> length (hist @ fs) \<and> p = snap_path dir s \<and>
      replay (take (unat s) (hist @ fs)) = Ok sw \<and>
      content d p = Some (snapshot_bytes s 0 (snap_payload sw)) \<and> stable d p = content d p"
    by (intro exI [of _ s] exI [of _ sw]) simp
qed

lemma snaps_of_untouched: "snaps_of hist dir d \<Longrightarrow> untouched dir d d' \<Longrightarrow> snaps_of hist dir d'"
  using untouched_snap_files [of dir d d'] unfolding snaps_of_def by metis

text \<open>Appending one or more frames.\<close>

lemma append_journaled:
  assumes inv: "journaled jcfg hist dur n d" and ne: "fs \<noteq> []" and cont: "contiguous_from (seq_next (n_seq n)) fs"
    and app: "journal_append_batch S t fs (n_journal n) d = (Ok (), j', d')"
    and small: "length (hist @ fs) + 1 < 2 ^ 64"
    and n': "n_journal n' = j'" "n_seq n' = f_seq (last fs)" "n_journal_config n' = jcfg" "n_service_config n' = scfg"
  shows "journaled jcfg (hist @ fs) dur n' d'"
proof -
  let ?j = "n_journal n"
  have seq: "n_seq n = of_nat (length hist)" "j_last_seq ?j = n_seq n" and cfg: "j_config ?j = jcfg"
    and hist: "contiguous_from 1 hist" and snaps: "snaps_of hist (jc_dir jcfg) d" and "backed hist dur ?j d" and dur: "dur \<le> length hist"
    using inv by (simp_all add: journaled_def)
  then obtain k where k: "k \<le> length hist" "jrepr (drop k hist) (dur - k) ?j d"
      "0 < k \<longrightarrow> (\<exists>s. k \<le> unat s \<and> snap_path (jc_dir jcfg) s \<in> snap_files (jc_dir jcfg) d)"
    unfolding backed_def by blast
  have nxt: "seq_next (n_seq n) = 1 + of_nat (length hist)" by (simp add: seq seq_next_def)
  then have "unat (seq_next (j_last_seq ?j)) = length hist + 1"
    using small unat_plus_of_nat [of 1 "length hist"] by (simp add: seq(2))
  then have bound: "unat (seq_next (j_last_seq ?j)) + length fs < 2 ^ 64" using small by simp
  have "contiguous_from (seq_next (j_last_seq ?j)) fs" using cont seq(2) by simp
  from batch_jrepr [OF k(2) this ne bound, of t] app cfg have
    j': "jrepr (drop k hist @ fs) (if j_dirty j' then dur - k else length (drop k hist @ fs)) j' d'"
      "j_config j' = jcfg" "untouched (jc_dir jcfg) d d'"
    by auto
  have "dur - k \<le> (if j_dirty j' then dur - k else length (drop k hist @ fs))"
    using k(1) dur by (simp add: diff_le_mono)
  from jrepr_mono [OF j'(1) this] k(1) have "jrepr (drop k (hist @ fs)) (dur - k) j' d'" by simp
  then have "backed (hist @ fs) dur j' d'"
    using k(1,3) j'(2) untouched_snap_files(1) [OF j'(3)] unfolding backed_def
    by (intro exI [of _ k]) auto
  moreover have "contiguous_from 1 (hist @ fs)" using hist cont nxt by simp
  moreover have "f_seq (last fs) = of_nat (length (hist @ fs))"
    using contiguous_nth [OF cont, of "length fs - 1"] ne nxt by (simp add: last_conv_nth of_nat_diff Suc_le_eq)
  moreover have "j_last_seq j' = f_seq (last fs)"
    by (rule batch_last_seq [OF app ne])
  moreover have "snaps_of (hist @ fs) (jc_dir jcfg) d'"
    by (rule snaps_of_extend [OF snaps_of_untouched [OF snaps j'(3)]])
  ultimately show ?thesis
    using small n' j'(2) dur unfolding journaled_def by simp
qed

text \<open>What \<open>sequence_at\<close> stamps and journals.\<close>

lemma sequence_at_Ok:
  assumes "sequence_at S t kind payload at n d = (Ok f, n', d')"
  obtains j' where "f = \<lparr>f_seq = seq_next (n_seq n), f_timestamp = max at (n_last_timestamp n),
      f_stream_id = n_stream_id n, f_kind = kind, f_payload = payload\<rparr>"
    "n' = n\<lparr>n_seq := seq_next (n_seq n), n_last_timestamp := max at (n_last_timestamp n), n_journal := j'\<rparr>"
    "journal_append_batch S t [f] (n_journal n) d = (Ok (), j', d')" "frame_valid f"
  using assms
  by (auto simp: sequence_at_def stage_frame_def frame_new_def frame_valid_def Let_def append_is_batch
      split: option.splits prod.splits result.splits if_splits)

lemma sequence_at_journaled:
  assumes inv: "Journaled jcfg hist dur n d" and sq: "sequence_at S t kind payload at n d = (Ok f, n', d')"
  shows "Journaled jcfg (hist @ [f]) dur n' d'"
  unfolding Journaled_def
proof
  assume small: "length (hist @ [f]) + 1 < 2 ^ 64"
  with inv have i: "journaled jcfg hist dur n d" by (simp add: Journaled_def)
  from sq obtain j' where f: "f = \<lparr>f_seq = seq_next (n_seq n), f_timestamp = max at (n_last_timestamp n),
      f_stream_id = n_stream_id n, f_kind = kind, f_payload = payload\<rparr>"
    and n': "n' = n\<lparr>n_seq := seq_next (n_seq n), n_last_timestamp := max at (n_last_timestamp n), n_journal := j'\<rparr>"
    and app: "journal_append_batch S t [f] (n_journal n) d = (Ok (), j', d')" and v: "frame_valid f"
    by (rule sequence_at_Ok)
  show "journaled jcfg (hist @ [f]) dur n' d'"
    by (rule append_journaled [OF i _ _ app small]) (use f v n' i in \<open>simp_all add: journaled_def\<close>)
qed

text \<open>The parts of a node that journaling depends on.\<close>

lemma journaled_cong:
  assumes "n_seq n' = n_seq n" and "n_journal n' = n_journal n" and "n_journal_config n' = n_journal_config n"
    and "n_service_config n' = n_service_config n"
  shows "journaled jcfg hist dur n' d = journaled jcfg hist dur n d"
    and "Journaled jcfg hist dur n' d = Journaled jcfg hist dur n d"
  using assms by (simp_all add: journaled_def Journaled_def)

text \<open>A snapshot of the state after the first \<open>s\<close> frames joins the store.\<close>

lemma snapshot_journaled:
  assumes inv: "journaled jcfg hist dur n d" and s: "0 < s" "unat s \<le> length hist"
    and state: "replay (take (unat s) hist) = Ok sw"
    and w: "snap_write S (jc_dir jcfg) s 0 (snap_payload sw) d = (Ok (), d')"
  shows "journaled jcfg hist dur n d' \<and> snap_path (jc_dir jcfg) s \<in> snap_files (jc_dir jcfg) d'"
proof -
  let ?dir = "jc_dir jcfg" and ?p = "snap_path (jc_dir jcfg) s"
  have snaps: "snaps_of hist ?dir d" and bk: "backed hist dur (n_journal n) d" and cfg: "j_config (n_journal n) = jcfg"
    using inv by (simp_all add: journaled_def)
  then obtain k where k: "k \<le> length hist" "jrepr (drop k hist) (dur - k) (n_journal n) d"
      "0 < k \<longrightarrow> (\<exists>s. k \<le> unat s \<and> snap_path ?dir s \<in> snap_files ?dir d)"
    unfolding backed_def by blast
  from snap_write_Ok [OF jrepr_ok [OF k(2)] w] have
    w': "seg_same ?dir d d'" "content d ?p = None" "content d' = (content d)(?p \<mapsto> snapshot_bytes s 0 (snap_payload sw))"
      "stable d' = (stable d)(?p \<mapsto> snapshot_bytes s 0 (snap_payload sw))" by blast+
  have files: "snap_files ?dir d' = insert ?p (snap_files ?dir d)" by (rule snap_files_added [OF w'(3)])
  have "jrepr (drop k hist) (dur - k) (n_journal n) d'"
    by (rule jrepr_seg_same [OF k(2)]) (simp add: cfg w'(1))
  then have "backed hist dur (n_journal n) d'"
    using k(1,3) files cfg unfolding backed_def by (intro exI [of _ k]) auto
  moreover have "snaps_of hist ?dir d'"
    unfolding snaps_of_def files
  proof
    fix p assume "p \<in> insert ?p (snap_files ?dir d)"
    then show "\<exists>s sw. 0 < s \<and> unat s \<le> length hist \<and> p = snap_path ?dir s \<and> replay (take (unat s) hist) = Ok sw \<and>
        content d' p = Some (snapshot_bytes s 0 (snap_payload sw)) \<and> stable d' p = content d' p"
    proof (cases "p = ?p")
      case True
      then show ?thesis using s state w'(3,4) by (intro exI [of _ s] exI [of _ sw]) simp
    next
      case False
      with \<open>p \<in> insert ?p (snap_files ?dir d)\<close> snaps w'(3,4) show ?thesis unfolding snaps_of_def by simp
    qed
  qed
  ultimately show ?thesis using inv files by (simp add: journaled_def)
qed

text \<open>Pruning the store, then compacting the journal below the oldest snapshot that is kept.\<close>

lemma snap_names:
  assumes "snaps_of hist dir d"
  shows "\<exists>A. snap_files dir d = snap_path dir ` A \<and> (\<forall>a \<in> A. 0 < a \<and> unat a \<le> length hist)"
proof -
  let ?A = "{a. snap_path dir a \<in> snap_files dir d \<and> 0 < a \<and> unat a \<le> length hist}"
  have "snap_files dir d = snap_path dir ` ?A"
    using assms unfolding snaps_of_def by fastforce
  then show ?thesis by blast
qed

lemma snaps_of_removed:
  assumes "snaps_of hist dir d" and "content d' = (\<lambda>p. if p \<in> R then None else content d p)"
    and "stable d' = (\<lambda>p. if p \<in> R then None else stable d p)"
  shows "snaps_of hist dir d'" and "snap_files dir d' = snap_files dir d - R"
proof -
  show files: "snap_files dir d' = snap_files dir d - R"
    unfolding snap_files_def assms(2) by auto
  show "snaps_of hist dir d'"
    using assms(1) unfolding snaps_of_def files by (simp add: assms(2,3))
qed

lemma backed_covered:
  "backed hist dur j d \<longleftrightarrow> (\<exists>k \<le> length hist. jrepr (drop k hist) (dur - k) j d \<and>
     (k = 0 \<or> (\<exists>s. k \<le> unat s \<and> snap_path (jc_dir (j_config j)) s \<in> snap_files (jc_dir (j_config j)) d)))"
  unfolding backed_def by blast

lemma prune_journaled:
  assumes inv: "journaled jcfg hist dur n d" and prune: "prune_keep_newest S (jc_dir jcfg) keep d = (Ok r, d')"
  shows "journaled jcfg hist dur n d' \<and>
    (\<forall>s. r = Some s \<longrightarrow> 0 < s \<and> unat s \<le> length hist \<and> snap_path (jc_dir jcfg) s \<in> snap_files (jc_dir jcfg) d')"
proof -
  let ?dir = "jc_dir jcfg"
  have snaps: "snaps_of hist ?dir d" and bk: "backed hist dur (n_journal n) d" and cfg: "j_config (n_journal n) = jcfg"
    using inv by (simp_all add: journaled_def)
  from snap_names [OF snaps] obtain A where A: "snap_files ?dir d = snap_path ?dir ` A"
      "\<forall>a \<in> A. 0 < a \<and> unat a \<le> length hist" by blast
  from bk cfg obtain k where k: "k \<le> length hist" "jrepr (drop k hist) (dur - k) (n_journal n) d"
      "k = 0 \<or> (\<exists>s. k \<le> unat s \<and> snap_path ?dir s \<in> snap_files ?dir d)"
    unfolding backed_covered by blast
  define R where "R = (case r of None \<Rightarrow> {} | Some s \<Rightarrow> snap_path ?dir ` {a \<in> A. a < s})"
  note pr = prune_returns [OF jrepr_ok [OF k(2)] A(1), of keep, unfolded prune, simplified]
  have d': "seg_same ?dir d d'" "content d' = (\<lambda>p. if p \<in> R then None else content d p)"
      "stable d' = (\<lambda>p. if p \<in> R then None else stable d p)"
    using pr by (simp_all add: R_def split: option.splits)
  note rem = snaps_of_removed [OF snaps d'(2,3)]
  have kept: "s \<in> A \<and> snap_path ?dir s \<in> snap_files ?dir d'" if "r = Some s" for s
    using pr that by (auto simp: R_def rem(2) A(1))
  have "k = 0 \<or> (\<exists>s. k \<le> unat s \<and> snap_path ?dir s \<in> snap_files ?dir d')"
  proof (rule ccontr)
    assume a: "\<not> ?thesis"
    with k(3) obtain s where s: "k \<le> unat s" "snap_path ?dir s \<in> snap_files ?dir d" by blast
    with a rem(2) have "snap_path ?dir s \<in> R" by blast
    then obtain b where b: "r = Some b" "s < b" by (auto simp: R_def split: option.splits)
    then have "k \<le> unat b" using s(1) unat_mono [OF b(2)] by simp
    with kept [OF b(1)] a show False by blast
  qed
  moreover have "jrepr (drop k hist) (dur - k) (n_journal n) d'"
    by (rule jrepr_seg_same [OF k(2)]) (simp add: cfg d'(1))
  ultimately have "backed hist dur (n_journal n) d'" using k(1) cfg unfolding backed_covered by blast
  then show ?thesis using inv rem(1) kept A(2) unfolding journaled_def by blast
qed

lemma compact_journaled:
  assumes inv: "journaled jcfg hist dur n d" and s: "0 < s" "snap_path (jc_dir jcfg) s \<in> snap_files (jc_dir jcfg) d"
    and cmp: "compact_below S (saturating_pred s) (n_journal n) d = (Ok c, d')"
  shows "journaled jcfg hist dur n d'"
proof -
  let ?dir = "jc_dir jcfg"
  have snaps: "snaps_of hist ?dir d" and bk: "backed hist dur (n_journal n) d" and cfg: "j_config (n_journal n) = jcfg"
    and cont: "contiguous_from 1 hist" and small: "length hist + 1 < 2 ^ 64"
    using inv by (simp_all add: journaled_def)
  from bk cfg obtain k where k: "k \<le> length hist" "jrepr (drop k hist) (dur - k) (n_journal n) d"
      "k = 0 \<or> (\<exists>s. k \<le> unat s \<and> snap_path ?dir s \<in> snap_files ?dir d)"
    unfolding backed_covered by blast
  have "saturating_pred s \<noteq> -1" using s(1) by (auto simp: saturating_pred_def)
  from compact_jrepr [OF k(2) this] cmp cfg obtain m where
    m: "jrepr (drop m (drop k hist)) (dur - k - m) (n_journal n) d'" "m \<le> length hist - k"
      "\<forall>f \<in> set (take m (drop k hist)). f_seq f \<le> saturating_pred s" "untouched ?dir d d'" by auto
  have "k + m = 0 \<or> (\<exists>s. k + m \<le> unat s \<and> snap_path ?dir s \<in> snap_files ?dir d)"
  proof (cases m)
    case (Suc i)
    have "take m (drop k hist) ! i \<in> set (take m (drop k hist))" using m(2) Suc by (intro nth_mem) simp
    with m(2,3) Suc have "f_seq (hist ! (k + i)) \<le> saturating_pred s" by simp
    moreover have "f_seq (hist ! (k + i)) = 1 + of_nat (k + i)"
      using m(2) Suc by (intro contiguous_nth [OF cont]) simp
    moreover have "unat (1 + of_nat (k + i) :: u64) = 1 + (k + i)"
      using m(2) Suc small unat_plus_of_nat [of 1 "k + i"] by simp
    moreover have "unat (saturating_pred s) \<le> unat s" using s(1) by (auto simp: saturating_pred_def unat_minus_one)
    ultimately have "k + m \<le> unat s" using Suc by (simp add: word_le_nat_alt)
    with s(2) show ?thesis by blast
  qed (use k(3) in simp)
  moreover have "snap_files ?dir d' = snap_files ?dir d" by (rule untouched_snap_files(1) [OF m(4)])
  moreover have "drop (k + m) hist = drop m (drop k hist)" by (simp add: add.commute)
  ultimately have "backed hist dur (n_journal n) d'"
    using m(1,2) k(1) cfg unfolding backed_covered by (intro exI [of _ "k + m"]) simp
  then show ?thesis using inv snaps_of_untouched [OF snaps m(4)] unfolding journaled_def by blast
qed

section \<open>Operations\<close>

abbreviation env_of :: "('k \<Rightarrow> timestamp \<times> 'k) \<Rightarrow> ('s, 'i, 'o, 'p, 'c, 'k, 'd, 'f) env" where
  "env_of now \<equiv> \<lparr>e_storage = S, e_service = SV, e_now = now\<rparr>"

text \<open>\<open>published fs n n'\<close>: subscribers got exactly the frames \<open>fs\<close>, in this order.\<close>

definition published :: "frame list \<Rightarrow> ('s, 'o, 'c, 'k, 'f) node \<Rightarrow> ('s, 'o, 'c, 'k, 'f) node \<Rightarrow> bool" where
  "published fs n n' \<longleftrightarrow> n_bus n' = fold bus_publish fs (n_bus n)"

lemma published_Nil: "published [] n n"
  by (simp add: published_def)

lemma published_trans: "published fs n n' \<Longrightarrow> published gs n' n'' \<Longrightarrow> published (fs @ gs) n n''"
  by (simp add: published_def)

lemma sequence_frame_Ok:
  assumes "sequence_frame (env_of now) t kind payload n d = (Ok f, n', d')"
  obtains at n1 where "sequence_at S t kind payload at n1 d = (Ok f, n', d')" "n1 = n\<lparr>n_clock := snd (now (n_clock n))\<rparr>"
  using assms by (auto simp: sequence_frame_def read_clock_def split: prod.splits)

lemma sequence_frame_journaled:
  assumes inv: "Journaled jcfg hist dur n d" and sq: "sequence_frame (env_of now) t kind payload n d = (Ok f, n', d')"
  shows "Journaled jcfg (hist @ [f]) dur n' d'" and "f_kind f = kind" and "f_payload f = payload"
    and "n_bus n' = n_bus n" and "n_service n' = n_service n" and "n_timers n' = n_timers n"
    and "f_seq f = seq_next (n_seq n)" and "n_commit n' = n_commit n" and "n_retain_snapshots n' = n_retain_snapshots n"
    and "n_journal_config n' = n_journal_config n"
proof -
  from sq obtain at n1 where s: "sequence_at S t kind payload at n1 d = (Ok f, n', d')"
    and n1: "n1 = n\<lparr>n_clock := snd (now (n_clock n))\<rparr>" by (rule sequence_frame_Ok)
  have "Journaled jcfg hist dur n1 d" using inv journaled_cong(2) [of n1 n] by (simp add: n1)
  then show "Journaled jcfg (hist @ [f]) dur n' d'" by (rule sequence_at_journaled [OF _ s])
qed (use sq in \<open>auto elim!: sequence_frame_Ok sequence_at_Ok\<close>)

text \<open>
  \<open>maybe_snapshot\<close>, for the state after the first \<open>s\<close> frames: at most one control frame is added,
  and the state in memory stays.
\<close>

lemma maybe_snapshot_journaled:
  assumes inv: "Journaled jcfg hist dur n d" and s: "length hist + 1 < 2 ^ 64 \<Longrightarrow> 0 < s \<and> unat s \<le> length hist"
    and state: "length hist + 1 < 2 ^ 64 \<Longrightarrow> replay (take (unat s) hist) = Ok (n_service n, n_timers n)"
    and m: "maybe_snapshot (env_of now) t s n d = (Ok (), n', d')"
  shows "\<exists>fs. Journaled jcfg (hist @ fs) dur n' d' \<and> marks fs \<and> published fs n n' \<and>
    n_service n' = n_service n \<and> n_timers n' = n_timers n \<and> n_commit n' = n_commit n"
proof (cases "n_snapshot_every n = None \<or> s mod max (the (n_snapshot_every n)) 1 \<noteq> 0")
  case True
  then have "n' = n \<and> d' = d" using m by (auto simp: maybe_snapshot_def split: option.splits)
  with inv show ?thesis by (intro exI [of _ "[]"]) (simp add: published_def marks_def)
next
  case False
  let ?dir = "jc_dir (n_journal_config n)" and ?sw = "(n_service n, n_timers n)"
  let ?pub = "\<lambda>mark n. n\<lparr>n_bus := bus_publish mark (n_bus n)\<rparr>"
  from m False obtain d1 mark n2 d2 r d3 where
    w: "snap_write S ?dir s 0 (snap_payload ?sw) d = (Ok (), d1)" and
    sq: "sequence_frame (env_of now) t SnapshotMark (encode_to_vec enc_int s) n d1 = (Ok mark, n2, d2)" and
    pr: "prune_keep_newest S ?dir (n_retain_snapshots n2) d2 = (Ok r, d3)" and n': "n' = ?pub mark n2" and
    cm: "case r of None \<Rightarrow> d' = d3
      | Some b \<Rightarrow> \<exists>c. compact_below S (saturating_pred b) (n_journal n2) d3 = (Ok c, d')"
    by (auto simp: maybe_snapshot_def Let_def snap_payload_def split: option.splits prod.splits result.splits)
  have "Journaled jcfg hist dur n d1"
    unfolding Journaled_def
    using snapshot_journaled [of jcfg hist dur n d s ?sw d1] inv s state w by (auto simp: Journaled_def journaled_def)
  note sqj = sequence_frame_journaled [OF this sq]
  have "Journaled jcfg (hist @ [mark]) dur n' d'"
    unfolding Journaled_def
  proof
    assume small: "length (hist @ [mark]) + 1 < 2 ^ 64"
    then have j2: "journaled jcfg (hist @ [mark]) dur n2 d2" using sqj(1) by (simp add: Journaled_def)
    then have dir: "?dir = jc_dir jcfg" using sqj(10) by (simp add: journaled_def)
    note p = prune_journaled [OF j2 pr [unfolded dir]]
    have "journaled jcfg (hist @ [mark]) dur n2 d'"
    proof (cases r)
      case None
      with p cm show ?thesis by simp
    next
      case (Some b)
      with cm obtain c where "compact_below S (saturating_pred b) (n_journal n2) d3 = (Ok c, d')" by auto
      with p Some show ?thesis using compact_journaled by blast
    qed
    then show "journaled jcfg (hist @ [mark]) dur n' d'" using journaled_cong(1) [of n' n2] by (simp add: n')
  qed
  then show ?thesis
    using sqj(2,4-6,8) by (intro exI [of _ "[mark]"]) (simp add: n' marks_def published_def)
qed

lemma commit_fields:
  assumes "n' = n\<lparr>n_commit := c\<rparr>"
  shows "n_seq n' = n_seq n" and "n_journal n' = n_journal n" and "n_journal_config n' = n_journal_config n"
    and "n_service_config n' = n_service_config n" and "n_bus n' = n_bus n" and "n_service n' = n_service n"
    and "n_timers n' = n_timers n" and "n_last_timestamp n' = n_last_timestamp n"
  by (simp_all add: assms)

lemma finish_frame_journaled:
  assumes inv: "Journaled jcfg hist dur n d" and s: "length hist + 1 < 2 ^ 64 \<Longrightarrow> 0 < f_seq f \<and> unat (f_seq f) \<le> length hist"
    and state: "length hist + 1 < 2 ^ 64 \<Longrightarrow> replay (take (unat (f_seq f)) hist) = Ok (n_service n, n_timers n)"
    and m: "finish_frame (env_of now) t f outs n d = (Ok rel, n', d')"
  shows "\<exists>fs. Journaled jcfg (hist @ fs) dur n' d' \<and> marks fs \<and> published (f # fs) n n' \<and>
    n_service n' = n_service n \<and> n_timers n' = n_timers n"
proof -
  let ?n1 = "n\<lparr>n_bus := bus_publish f (n_bus n)\<rparr>"
  from m obtain n2 d2 where ms: "maybe_snapshot (env_of now) t (f_seq f) ?n1 d = (Ok (), n2, d2)"
    and n': "d' = d2" "n' = n2\<lparr>n_commit := n_commit n'\<rparr>"
    by (auto simp: finish_frame_def Let_def split: prod.splits result.splits option.splits)
  have "Journaled jcfg hist dur ?n1 d" using inv journaled_cong(2) [of ?n1 n] by simp
  from maybe_snapshot_journaled [OF this s _ ms] state obtain fs where
    fs: "Journaled jcfg (hist @ fs) dur n2 d2" "marks fs" "published fs ?n1 n2"
      "n_service n2 = n_service n" "n_timers n2 = n_timers n" by auto
  then show ?thesis
    using n'(1) commit_fields [OF n'(2)] journaled_cong(2) [of n' n2] by (intro exI [of _ fs]) (auto simp: published_def)
qed

lemma run_step_replay:
  assumes "run_step f st n = (outs, n')"
  shows "n_seq n' = n_seq n" and "n_journal n' = n_journal n" and "n_journal_config n' = n_journal_config n"
    and "n_service_config n' = n_service_config n" and "n_bus n' = n_bus n" and "n_last_timestamp n' = n_last_timestamp n"
    and "(n_service n', n_timers n') = replay_step f st (n_service n, n_timers n)"
  using assms by (auto simp: run_step_def replay_step_def split: prod.splits)

text \<open>
  A data frame: journaled, executed, finished. \<open>W\<close> is the wheel that replay hands to the step.
\<close>

lemma data_frame_live:
  assumes inv: "Live jcfg hist dur n d" and same: "n_journal n1 = n_journal n" "n_seq n1 = n_seq n"
      "n_journal_config n1 = n_journal_config n" "n_service_config n1 = n_service_config n" "n_service n1 = n_service n"
      "n_bus n1 = n_bus n"
    and sq: "sequence_at S t kind payload at n1 d = (Ok f, n2, d2)"
    and step: "run_step f st n2 = (outs, n3)"
    and rep: "length hist + 1 < 2 ^ 64 \<Longrightarrow>
      replay_frame SV f (n_service n, n_timers n) = Ok (replay_step f st (n_service n, n_timers n1))"
    and fin: "finish_frame (env_of now) t f outs n3 d2 = (Ok rel, n', d')"
  shows "\<exists>fs. Live jcfg (hist @ f # fs) dur n' d' \<and> published (f # fs) n n' \<and> marks fs"
proof -
  have "Journaled jcfg hist dur n1 d" using inv same journaled_cong(1) [of n1 n] by (simp add: Live_def Journaled_def)
  note j2 = sequence_at_journaled [OF this sq]
  from sq obtain j' where f: "f = \<lparr>f_seq = seq_next (n_seq n1), f_timestamp = max at (n_last_timestamp n1),
      f_stream_id = n_stream_id n1, f_kind = kind, f_payload = payload\<rparr>"
    and n2: "n2 = n1\<lparr>n_seq := seq_next (n_seq n1), n_last_timestamp := max at (n_last_timestamp n1), n_journal := j'\<rparr>"
    by (rule sequence_at_Ok)
  note rs = run_step_replay [OF step]
  have j3: "Journaled jcfg (hist @ [f]) dur n3 d2" using j2 journaled_cong(2) [of n3 n2] rs(1-4) by simp
  have state: "replay (hist @ [f]) = Ok (n_service n3, n_timers n3)" if "length (hist @ [f]) + 1 < 2 ^ 64"
  proof -
    have "replay hist = Ok (n_service n, n_timers n)" using inv that by (simp add: Live_def applied_def)
    then show ?thesis using rep that rs(7) same(5) n2 by (simp add: replay_frames_append)
  qed
  have seq: "0 < f_seq f \<and> unat (f_seq f) = length (hist @ [f])" if "length (hist @ [f]) + 1 < 2 ^ 64"
  proof -
    have "f_seq f = 1 + of_nat (length hist)"
      using inv that same(2) by (simp add: Live_def journaled_def f seq_next_def)
    moreover have "unat (1 + of_nat (length hist) :: u64) = 1 + length hist"
      using that unat_plus_of_nat [of 1 "length hist"] by simp
    ultimately show ?thesis by (simp add: word_less_nat_alt)
  qed
  from finish_frame_journaled [OF j3 _ _ fin] seq state obtain fs where
    fs: "Journaled jcfg ((hist @ [f]) @ fs) dur n' d'" "marks fs" "published (f # fs) n3 n'"
      "n_service n' = n_service n3" "n_timers n' = n_timers n3" by auto
  have "Live jcfg (hist @ f # fs) dur n' d'"
    using fs state replay_frames_append [of SV "hist @ [f]" fs]
    by (simp add: Live_def Journaled_def applied_def replay_frames_marks)
  moreover have "n_bus n3 = n_bus n" by (simp add: rs(5) n2 same(6))
  ultimately show ?thesis using fs(2,3) by (intro exI [of _ fs]) (simp add: published_def)
qed

lemma Live_wheel_ok: "Live jcfg hist dur n d \<Longrightarrow> length hist + 1 < 2 ^ 64 \<Longrightarrow> wheel_ok (n_timers n)"
  using replay_ok [of hist] by (fastforce simp: Live_def applied_def)

lemma pop_due_is_cancel:
  assumes "wheel_ok w" and "pop_due now w = (Some tid, w')"
  shows "w' = wheel_cancel tid w"
  using pop_due_Some [OF assms] assms(1) by (intro pending_ext) auto

lemma fire_timer_live:
  assumes inv: "Live jcfg hist dur n d" and pop: "pop_due (n_last_timestamp n) (n_timers n) = (Some tid, w)"
    and fire: "fire_timer (env_of now) t tid (n\<lparr>n_timers := w\<rparr>) d = (Ok outs, n', d')"
  shows "\<exists>fs. Live jcfg (hist @ fs) dur n' d' \<and> published fs n n'"
proof -
  let ?n1 = "n\<lparr>n_timers := w\<rparr>"
  from fire obtain f n2 d2 o3 n3 where
    sq: "sequence_at S t TimerFired (encode_to_vec enc_int tid) (n_last_timestamp n) ?n1 d = (Ok f, n2, d2)"
    and step: "run_step f (sv_on_timer SV tid) n2 = (o3, n3)"
    and fin: "finish_frame (env_of now) t f o3 n3 d2 = (Ok outs, n', d')"
    by (auto simp: fire_timer_def split: prod.splits result.splits)
  have kind: "f_kind f = TimerFired" "f_payload f = encode_to_vec enc_int tid"
    using sq by (auto elim: sequence_at_Ok)
  have "replay_frame SV f (n_service n, n_timers n) = Ok (replay_step f (sv_on_timer SV tid) (n_service n, n_timers ?n1))"
    if "length hist + 1 < 2 ^ 64"
    using pop_due_is_cancel [OF Live_wheel_ok [OF inv that] pop] u64c.decode_all_encode [of tid]
    by (simp add: replay_frame_def kind)
  from data_frame_live [OF inv _ _ _ _ _ _ sq step this fin] show ?thesis by (auto intro: exI)
qed

lemma fire_due_timers_live:
  fixes now :: "'k \<Rightarrow> timestamp \<times> 'k" and n :: "('s, 'o, 'c, 'k, 'f) node"
  assumes "fire_due_timers (env_of now) t rel n d = Some (Ok r, n', d')" and "Live jcfg hist dur n d"
  shows "\<exists>fs. Live jcfg (hist @ fs) dur n' d' \<and> published fs n n'"
proof -
  have "\<forall>hist. Live jcfg hist dur n d \<longrightarrow> (\<exists>fs. Live jcfg (hist @ fs) dur n' d' \<and> published fs n n')"
    using assms(1)
  proof (induction rule: fire_due_timers_induct)
    case (idle n d w)
    show ?case by (metis append_Nil2 published_Nil)
  next
    case (fire n d tid w outs n1 d1 n' d')
    show ?case
    proof (intro allI impI)
      fix hist assume "Live jcfg hist dur n d"
      from fire_timer_live [OF this fire(1,2)] obtain fs where
        fs: "Live jcfg (hist @ fs) dur n1 d1" "published fs n n1" by blast
      with fire(3) obtain gs where "Live jcfg ((hist @ fs) @ gs) dur n' d'" "published gs n1 n'" by blast
      with published_trans [OF fs(2)] show "\<exists>fs. Live jcfg (hist @ fs) dur n' d' \<and> published fs n n'"
        by (metis append_assoc)
    qed
  qed
  with assms(2) show ?thesis by blast
qed

end

end
