(* ===== verification/Node_Recovery.thy ===== *)
theory Node_Recovery
  imports Node_Replay
begin

text \<open>
  Every operation of the node keeps the invariant of \<open>Node_Replay\<close>, and recovery, from a
  snapshot and the tail of the journal, restores it after a power loss.
\<close>

context hosted
begin

section \<open>Operations\<close>

lemma sync_journaled:
  assumes inv: "journaled jcfg hist dur n d" and sync: "journal_sync S t (n_journal n) d = (Ok (), j', d')"
  shows "journaled jcfg hist (length hist) (n\<lparr>n_journal := j'\<rparr>) d'"
proof -
  have cfg: "j_config (n_journal n) = jcfg" and snaps: "snaps_of hist (jc_dir jcfg) d" and "backed hist dur (n_journal n) d"
    using inv by (simp_all add: journaled_def)
  then obtain k where k: "k \<le> length hist" "jrepr (drop k hist) (dur - k) (n_journal n) d"
      "k = 0 \<or> (\<exists>s. k \<le> unat s \<and> snap_path (jc_dir jcfg) s \<in> snap_files (jc_dir jcfg) d)"
    unfolding backed_covered by blast
  from sync_jrepr [OF k(2), of t] sync cfg have
    j': "jrepr (drop k hist) (length hist - k) j' d'" "j_config j' = jcfg" "j_last_seq j' = j_last_seq (n_journal n)"
      "untouched (jc_dir jcfg) d d'" by auto
  then have "backed hist (length hist) j' d'"
    using k(1,3) untouched_snap_files(1) [OF j'(4)] unfolding backed_covered by (intro exI [of _ k]) simp
  then show ?thesis using inv j' snaps_of_untouched [OF snaps j'(4)] by (simp add: journaled_def)
qed

lemma node_sync_live:
  assumes inv: "Live jcfg hist dur n d" and sync: "node_sync S t n d = (Ok (), n', d')"
  shows "Live jcfg hist (length hist) n' d' \<and> published [] n n'"
proof -
  from sync obtain j' where j': "journal_sync S t (n_journal n) d = (Ok (), j', d')" "n' = n\<lparr>n_journal := j'\<rparr>"
    by (auto simp: node_sync_def split: prod.splits result.splits)
  then show ?thesis
    using inv sync_journaled [OF _ j'(1), of jcfg hist dur] by (auto simp: Live_def applied_def published_def)
qed

lemma Live_clean:
  assumes inv: "Live jcfg hist dur n d" and clean: "\<not> j_dirty (n_journal n)"
  shows "Live jcfg hist (length hist) n d"
proof -
  have "backed hist (length hist) (n_journal n) d" if "backed hist dur (n_journal n) d"
  proof -
    from that obtain k where k: "k \<le> length hist" "jrepr (drop k hist) (dur - k) (n_journal n) d"
        "k = 0 \<or> (\<exists>s. k \<le> unat s \<and> snap_path (jc_dir (j_config (n_journal n))) s \<in> snap_files (jc_dir (j_config (n_journal n))) d)"
      unfolding backed_covered by blast
    have "jrepr (drop k hist) (length hist - k) (n_journal n) d" using jrepr_clean [OF k(2) clean] by simp
    with k show ?thesis unfolding backed_covered by blast
  qed
  with inv show ?thesis by (simp add: Live_def journaled_def)
qed

lemma submit_live:
  assumes inv: "Live jcfg hist dur n d" and i: "vi input"
    and sub: "submit (env_of now) t input n d = Some (Ok (s, rel), n', d')"
  shows "\<exists>f fs. Live jcfg (hist @ f # fs) dur n' d' \<and> published (f # fs) n n' \<and> f_kind f = Input \<and>
    f_payload f = encode_to_vec (sv_enc_input SV) input \<and> f_seq f = s \<and> s = seq_next (n_seq n)"
proof -
  let ?pl = "encode_to_vec (sv_enc_input SV) input"
  from sub obtain f n2 d2 outs n3 rel1 n4 d4 where
    sf: "sequence_frame (env_of now) t Input ?pl n d = (Ok f, n2, d2)"
    and step: "run_step f (sv_apply SV (f_seq f) input) n2 = (outs, n3)"
    and fin: "finish_frame (env_of now) t f outs n3 d2 = (Ok rel1, n4, d4)"
    and fire: "fire_due_timers (env_of now) t rel1 n4 d4 = Some (Ok rel, n', d')" and s: "f_seq f = s"
    by (auto simp: submit_def after_step_def rbind_Ok_iff split: prod.splits result.splits)
  from sf obtain at n1 where sq: "sequence_at S t Input ?pl at n1 d = (Ok f, n2, d2)"
    and n1: "n1 = n\<lparr>n_clock := snd (now (n_clock n))\<rparr>" by (rule sequence_frame_Ok)
  have f: "f_kind f = Input" "f_payload f = ?pl" "f_seq f = seq_next (n_seq n)"
    using sq by (auto elim!: sequence_at_Ok simp: n1)
  then have "replay_frame SV f (n_service n, n_timers n) =
      Ok (replay_step f (sv_apply SV (f_seq f) input) (n_service n, n_timers n1))"
    using input_roundtrip [OF i] by (simp add: replay_frame_def n1)
  from data_frame_live [OF inv _ _ _ _ _ _ sq step this fin] obtain fs where
    fs: "Live jcfg (hist @ f # fs) dur n4 d4" "published (f # fs) n n4" by (auto simp: n1)
  from fire_due_timers_live [OF fire fs(1)] obtain gs where
    gs: "Live jcfg ((hist @ f # fs) @ gs) dur n' d'" "published gs n4 n'" by blast
  then show ?thesis
    using published_trans [OF fs(2) gs(2)] f s by (intro exI [of _ f] exI [of _ "fs @ gs"]) simp
qed

text \<open>A control frame, and what \<open>maybe_snapshot\<close> adds to it.\<close>

lemma Live_next_seq:
  assumes "Live jcfg hist dur n d" and "length (hist @ [f]) + 1 < 2 ^ 64"
  shows "0 < seq_next (n_seq n) \<and> unat (seq_next (n_seq n)) = length (hist @ [f])"
proof -
  have "seq_next (n_seq n) = 1 + of_nat (length hist)"
    using assms by (simp add: Live_def journaled_def seq_next_def)
  moreover have "unat (1 + of_nat (length hist) :: u64) = 1 + length hist"
    using assms(2) unat_plus_of_nat [of 1 "length hist"] by simp
  ultimately show ?thesis by (simp add: word_less_nat_alt)
qed

lemma control_frame_live:
  assumes inv: "Live jcfg hist dur n d" and sf: "sequence_frame (env_of now) t kind payload n d = (Ok f, n2, d2)"
    and kind: "kind \<noteq> Input" "kind \<noteq> TimerFired"
    and snap: "maybe_snapshot (env_of now) t (f_seq f) (n2\<lparr>n_bus := bus_publish f (n_bus n2)\<rparr>) d2 = (Ok (), n3, d3)"
  shows "\<exists>fs. Live jcfg (hist @ f # fs) dur n3 d3 \<and> published (f # fs) n n3 \<and> marks fs"
proof -
  let ?n2 = "n2\<lparr>n_bus := bus_publish f (n_bus n2)\<rparr>"
  have j: "Journaled jcfg hist dur n d" using inv by (simp add: Live_def Journaled_def)
  note sq = sequence_frame_journaled [OF j sf]
  have ctl: "control f" using sq(2) kind by (simp add: control_def)
  have j2: "Journaled jcfg (hist @ [f]) dur ?n2 d2" using sq(1) journaled_cong(2) [of ?n2 n2] by simp
  have state: "replay (hist @ [f]) = Ok (n_service ?n2, n_timers ?n2)" if "length (hist @ [f]) + 1 < 2 ^ 64"
    using inv that sq(5,6) ctl replay_frames_control [of "[f]" SV]
    by (simp add: Live_def applied_def replay_frames_append)
  have seq: "0 < f_seq f \<and> unat (f_seq f) = length (hist @ [f])" if "length (hist @ [f]) + 1 < 2 ^ 64"
    using Live_next_seq [OF inv that] sq(7) by simp
  from maybe_snapshot_journaled [OF j2 _ _ snap] seq state obtain fs where
    fs: "Journaled jcfg ((hist @ [f]) @ fs) dur n3 d3" "marks fs" "published fs ?n2 n3"
      "n_service n3 = n_service n2" "n_timers n3 = n_timers n2" by auto
  have "Live jcfg (hist @ f # fs) dur n3 d3"
    using fs state replay_frames_append [of SV "hist @ [f]" fs]
    by (simp add: Live_def Journaled_def applied_def replay_frames_marks)
  then show ?thesis using fs(2,3) sq(4) by (intro exI [of _ fs]) (simp add: published_def)
qed

lemma note_self_live:
  "Live jcfg hist dur (node_note_self s n) d = Live jcfg hist dur n d" "n_bus (node_note_self s n) = n_bus n"
  using journaled_cong(1) [of "node_note_self s n" n] by (simp_all add: Live_def applied_def node_note_self_def)

lemma tick_live:
  assumes inv: "Live jcfg hist dur n d" and tick: "node_tick (env_of now) t n d = Some (Ok s, n', d')"
  shows "\<exists>fs. Live jcfg (hist @ fs) dur n' d' \<and> published fs n n'"
proof -
  from tick obtain f n2 d2 n3 d3 r where
    sf: "sequence_frame (env_of now) t Tick [] n d = (Ok f, n2, d2)"
    and snap: "maybe_snapshot (env_of now) t (f_seq f) (n2\<lparr>n_bus := bus_publish f (n_bus n2)\<rparr>) d2 = (Ok (), n3, d3)"
    and fire: "fire_due_timers (env_of now) t [] (node_note_self (f_seq f) n3) d3 = Some (Ok r, n', d')"
    by (auto simp: node_tick_def Let_def rbind_Ok_iff split: prod.splits result.splits)
  from control_frame_live [OF inv sf _ _ snap] obtain fs where
    fs: "Live jcfg (hist @ f # fs) dur n3 d3" "published (f # fs) n n3" by auto
  then have "Live jcfg (hist @ f # fs) dur (node_note_self (f_seq f) n3) d3" by (simp add: note_self_live)
  from fire_due_timers_live [OF fire this] obtain gs where
    gs: "Live jcfg ((hist @ f # fs) @ gs) dur n' d'" "published gs (node_note_self (f_seq f) n3) n'" by blast
  then have "published gs n3 n'" by (simp add: published_def note_self_live)
  from published_trans [OF fs(2) this] gs(1) show ?thesis by (intro exI [of _ "f # fs @ gs"]) simp
qed

lemma fence_live:
  assumes inv: "Live jcfg hist dur n d" and fence: "node_fence (env_of now) t ep n d = (Ok s, n', d')"
  shows "\<exists>fs. Live jcfg (hist @ fs) dur n' d' \<and> published fs n n'"
proof -
  from fence obtain f n2 d2 n3 pl where
    sf: "sequence_frame (env_of now) t EpochChange pl n d = (Ok f, n2, d2)"
    and snap: "maybe_snapshot (env_of now) t (f_seq f) (n2\<lparr>n_bus := bus_publish f (n_bus n2)\<rparr>) d2 = (Ok (), n3, d')"
    and n': "n' = node_note_self (f_seq f) n3"
    by (auto simp: node_fence_def Let_def split: prod.splits result.splits)
  from control_frame_live [OF inv sf _ _ snap] obtain fs where
    "Live jcfg (hist @ f # fs) dur n3 d'" "published (f # fs) n n3" by auto
  then show ?thesis by (intro exI [of _ "f # fs"]) (simp add: n' note_self_live published_def)
qed

lemma record_ack_live:
  assumes "Live jcfg hist dur n d" and "node_record_ack r s n = (rel, n')"
  shows "Live jcfg hist dur n' d \<and> published [] n n'"
  using assms journaled_cong(1) [of n' n]
  by (auto simp: node_record_ack_def Live_def applied_def published_def split: option.splits prod.splits)

section \<open>What recovery finds\<close>

lemma power_loss_snaps:
  assumes "ok d" and "power_loss d d'" and "snaps_of hist dir d"
  shows "snaps_of hist dir d'" and "snap_files dir d' = snap_files dir d"
proof -
  show files: "snap_files dir d' = snap_files dir d" by (rule power_loss_snap_files [OF assms(1,2)])
  have "content d' p = content d p \<and> stable d' p = stable d p" if "p \<in> snap_files dir d" for p
    using assms(3) that power_loss_synced [OF assms(1,2)] unfolding snaps_of_def by metis
  then show "snaps_of hist dir d'" using assms(3) unfolding snaps_of_def files by simp
qed

definition state_at :: "frame list \<Rightarrow> seq \<Rightarrow> 's \<times> wheel" where
  "state_at hist s = (case replay (take (unat s) hist) of Ok sw \<Rightarrow> sw | Err _ \<Rightarrow> (sv_genesis SV scfg, wheel_new))"

definition snapshot_at :: "frame list \<Rightarrow> seq \<Rightarrow> loaded_snapshot" where
  "snapshot_at hist s = \<lparr>ls_seq = s, ls_epoch = 0, ls_payload = snap_payload (state_at hist s)\<rparr>"

lemma snaps_ofD:
  assumes "snaps_of hist dir d" and "snap_path dir s \<in> snap_files dir d"
  shows "0 < s" and "unat s \<le> length hist" and "replay (take (unat s) hist) = Ok (state_at hist s)"
    and "content d (snap_path dir s) = Some (snapshot_bytes s 0 (snap_payload (state_at hist s)))"
proof -
  from assms obtain t sw where t: "0 < t" "unat t \<le> length hist" "snap_path dir s = snap_path dir t"
      "replay (take (unat t) hist) = Ok sw"
      "content d (snap_path dir s) = Some (snapshot_bytes t 0 (snap_payload sw))"
    unfolding snaps_of_def by blast
  then have "t = s" by simp
  with t show "0 < s" "unat s \<le> length hist" "replay (take (unat s) hist) = Ok (state_at hist s)"
    "content d (snap_path dir s) = Some (snapshot_bytes s 0 (snap_payload (state_at hist s)))"
    by (simp_all add: state_at_def)
qed

lemma snap_at_found:
  assumes "ok d" and "snaps_of hist dir d" and "sizes_ok hist" and "snap_path dir s \<in> snap_files dir d" and "s \<le> m"
  shows "snap_at S m d (snap_path dir s) = Some (snapshot_at hist s)"
proof -
  note sn = snaps_ofD [OF assms(2,4)]
  have "length (snap_payload (state_at hist s)) < 2 ^ 32" using assms(3) sn(3) unfolding sizes_ok_def by blast
  from parse_snapshot_bytes [OF this, of s 0 "[]"] show ?thesis
    using sn(4) assms(5) by (simp add: snap_at_def read [OF assms(1)] snapshot_at_def)
qed

lemma sorted_last_le: "sorted xs \<Longrightarrow> x \<in> set xs \<Longrightarrow> x \<le> last xs"
  by (induction xs) auto

lemma fold_max_zero: "fold max as (0 :: u64) = Max (insert 0 (set as))"
  using Max.set_eq_fold [of 0 as] by simp

lemma store_listing:
  assumes ok: "ok d" and snaps: "snaps_of hist dir d" and sizes: "sizes_ok hist"
    and names: "snap_files dir d = snap_path dir ` A"
  shows "\<exists>as. distinct as \<and> set as = A \<and> high_water_seq S dir d = Ok (Max (insert 0 A)) \<and>
    (\<forall>m. (\<forall>a \<in> A. a \<le> m) \<longrightarrow> load_candidates S dir m d = Ok (map (snapshot_at hist) (rev (sort as))))"
proof -
  from snap_listing [OF ok names] obtain as where
    as: "list_snaps S dir d = Ok (map (snap_path dir) as)" "distinct as" "set as = A" by blast
  have "high_water_seq S dir d = Ok (Max (insert 0 A))"
    using as fold_max_zero [of as] by (simp add: high_water_seq_def List.map_filter_def comp_def)
  moreover have "load_candidates S dir m d = Ok (map (snapshot_at hist) (rev (sort as)))" if m: "\<forall>a \<in> A. a \<le> m" for m
  proof -
    have "snap_at S m d (snap_path dir a) = Some (snapshot_at hist a)" if "a \<in> set (rev (sort as))" for a
      using that m as(3) names by (intro snap_at_found [OF ok snaps sizes]) auto
    then have "List.map_filter (snap_at S m d) (map (snap_path dir) (rev (sort as))) = map (snapshot_at hist) (rev (sort as))"
      by (induction "rev (sort as)") (simp_all add: List.map_filter_def)
    then show ?thesis using as(1) sort_snap_paths [OF as(2)] by (simp add: load_candidates_def rev_map)
  qed
  ultimately show ?thesis using as(2,3) by blast
qed

text \<open>The newest snapshot is the anchor, as soon as the journal does not start after it.\<close>

lemma pick_anchor_newest:
  assumes snaps: "snaps_of hist dir d" and sizes: "sizes_ok hist"
    and names: "snap_files dir d = snap_path dir ` set as" and fs: "\<not> Max (insert 0 (set as)) + 1 < first"
  shows "pick_anchor SV scfg first (map (snapshot_at hist) (rev (sort as))) =
    (if as = [] then None
     else let m = Max (insert 0 (set as)) in Some (fst (state_at hist m), snd (state_at hist m), m))"
proof (cases "as = []")
  case False
  let ?m = "Max (insert 0 (set as))"
  have "rev (sort as) \<noteq> []" using False by (metis length_0_conv length_rev length_sort)
  then obtain ys where ys: "rev (sort as) = last (sort as) # ys"
    by (metis hd_rev list.collapse rev_is_Nil_conv)
  have ne: "sort as \<noteq> []" using ys by auto
  have "?m = last (sort as)"
  proof (rule Max_eqI)
    show "y \<le> last (sort as)" if "y \<in> insert 0 (set as)" for y
      using that sorted_last_le [OF sorted_sort, of y as] by auto
    show "last (sort as) \<in> insert 0 (set as)" using last_in_set [OF ne] by simp
  qed simp
  then have "last (sort as) = ?m" by simp
  then have m: "?m \<in> set as" using last_in_set [OF ne] by simp
  then have p: "snap_path dir ?m \<in> snap_files dir d" using names by simp
  note sn = snaps_ofD [OF snaps p]
  have ok: "vs (fst (state_at hist ?m))" "wheel_ok (snd (state_at hist ?m))"
    using replay_ok [OF sn(3)] by simp_all
  moreover have "sz (fst (state_at hist ?m))" "wheel_len (snd (state_at hist ?m)) < 2 ^ 32"
    using sizes sn(3) unfolding sizes_ok_def by blast+
  ultimately show ?thesis
    using False fs \<open>last (sort as) = ?m\<close> snap_payload_decode [of "state_at hist ?m"]
    by (simp add: ys snapshot_at_def Let_def)
qed simp

lemma purge_noop:
  assumes ok: "ok d" and names: "snap_files dir d = snap_path dir ` A" and le: "\<forall>a \<in> A. a \<le> tip"
  shows "\<exists>d'. purge_after S dir tip d = (Ok (), d') \<and> seg_same dir d d' \<and> content d' = content d \<and> stable d' = stable d"
proof -
  from list_dir [OF ok, of dir] obtain ps where
    ps: "st_list_dir S dir d = Ok ps" "set ps = {p. fst p = dir \<and> content d p \<noteq> None}" by blast
  have "\<not> snap_stale tip p" if "p \<in> set ps" for p
  proof
    assume st: "snap_stale tip p"
    then have "p \<in> snap_files dir d" using that ps(2) unfolding snap_files_def snap_stale_def by blast
    with names obtain a where "a \<in> A" "p = snap_path dir a" by blast
    with st le show False by (auto simp: snap_stale_def not_less)
  qed
  then have "filter (snap_stale tip) ps = []" by simp
  moreover from seg_same_sync_dir [OF ok, of dir dir] obtain d' where
    "st_sync_dir S dir d = (Ok (), d')" "seg_same dir d d'" "content d' = content d" "stable d' = stable d" by blast
  ultimately show ?thesis using ps(1) by (simp add: purge_after_def sio_def)
qed

lemma filter_contiguous:
  "contiguous_from a fs \<Longrightarrow> unat a + length fs < 2 ^ 64 \<Longrightarrow>
     filter (\<lambda>f. s < f_seq f) fs = drop (unat s + 1 - unat a) fs"
proof (induction fs arbitrary: a)
  case (Cons f fs)
  have a: "f_seq f = a" "unat (a + 1) = unat a + 1" and cont: "contiguous_from (a + 1) fs"
    using Cons.prems unat_plus_of_nat [of a 1] by simp_all
  from Cons.IH [OF cont] Cons.prems(2) have
    ih: "filter (\<lambda>f. s < f_seq f) fs = drop (unat s + 1 - (unat a + 1)) fs" by (simp add: a(2))
  show ?case
  proof (cases "s < a")
    case True
    then have "unat s < unat a" by (simp add: word_less_nat_alt)
    with True ih a(1) show ?thesis by simp
  next
    case False
    then have "unat s + 1 - unat a = Suc (unat s + 1 - (unat a + 1))" by (simp add: word_less_nat_alt)
    with False ih a(1) show ?thesis by simp
  qed
qed simp

lemma contiguous_drop: "contiguous_from a fs \<Longrightarrow> k \<le> length fs \<Longrightarrow> contiguous_from (a + of_nat k) (drop k fs)"
  using contiguous_append [of a "take k fs" "drop k fs"] by (simp add: min.absorb2)

lemma replay_resumes:
  assumes "replay (take m hist) = Ok sw" and "m \<le> l" and "l \<le> length hist"
  shows "replay_frames SV (drop m (take l hist)) sw = replay (take l hist)"
proof -
  have "take l hist = take m hist @ drop m (take l hist)"
    using assms(2) by (metis append_take_drop_id min.absorb1 take_take)
  then have "replay (take l hist) = rbind (replay (take m hist)) (replay_frames SV (drop m (take l hist)))"
    by (metis replay_frames_append)
  with assms(1) show ?thesis by simp
qed

section \<open>Recovery\<close>

text \<open>The journal and the snapshots after a power loss: the frames \<open>k + 1\<close> to \<open>k + q\<close> of the history.\<close>

lemma recover_journal:
  fixes n :: "('s, 'o, 'c, 'k, 'f) node"
  assumes inv: "journaled jcfg hist dur n d" and pl: "power_loss d d'"
  obtains rec :: "'f recovered" and d1 k q where "journal_open_with S t jcfg d' = (Ok rec, d1)"
    "k + q \<le> length hist" "dur \<le> k + q" "re_frames rec = take q (drop k hist)"
    "jrepr (take q (drop k hist)) q (re_journal rec) d1" "j_config (re_journal rec) = jcfg"
    "re_first_seq rec = 1 + of_nat k" "j_last_seq (re_journal rec) = of_nat (k + q)"
    "snaps_of hist (jc_dir jcfg) d1"
    "k = 0 \<or> (\<exists>s. k \<le> unat s \<and> snap_path (jc_dir jcfg) s \<in> snap_files (jc_dir jcfg) d1)"
proof -
  let ?dir = "jc_dir jcfg" and ?j = "n_journal n"
  have cfg: "j_config ?j = jcfg" and snaps: "snaps_of hist ?dir d" and bk: "backed hist dur ?j d"
    and lst: "j_last_seq ?j = of_nat (length hist)" using inv by (simp_all add: journaled_def)
  from bk cfg obtain k where k: "k \<le> length hist" "jrepr (drop k hist) (dur - k) ?j d"
      "k = 0 \<or> (\<exists>s. k \<le> unat s \<and> snap_path ?dir s \<in> snap_files ?dir d)"
    unfolding backed_covered by blast
  from crash_recovery [OF k(2) pl, of t] cfg obtain rec d1 q where
    r: "journal_open_with S t jcfg d' = (Ok rec, d1)" "dur - k \<le> q" "q \<le> length (drop k hist)"
      "re_frames rec = take q (drop k hist)" "jrepr (take q (drop k hist)) q (re_journal rec) d1"
      "j_config (re_journal rec) = jcfg" "untouched ?dir d' d1"
      "re_first_seq rec = seq_next (j_last_seq ?j) - of_nat (length (drop k hist))"
      "seq_next (j_last_seq (re_journal rec)) = re_first_seq rec + of_nat q" by auto
  have first: "re_first_seq rec = 1 + of_nat k" using r(8) k(1) lst by (simp add: seq_next_def of_nat_diff)
  have last: "j_last_seq (re_journal rec) = of_nat (k + q)" using r(9) first by (simp add: seq_next_def)
  note ps = power_loss_snaps [OF jrepr_ok [OF k(2)] pl snaps]
  have sn: "snaps_of hist ?dir d1" by (rule snaps_of_untouched [OF ps(1) r(7)])
  have files: "snap_files ?dir d1 = snap_files ?dir d" using untouched_snap_files(1) [OF r(7)] ps(2) by simp
  show ?thesis
    by (rule that [OF r(1) _ _ r(4,5,6) first last sn]) (use r(2,3) k(1,3) files in auto)
qed

text \<open>
  The recovered node holds the state after the first \<open>m\<close> frames of the history, where \<open>m\<close> is the
  later of the journal's surviving tail and the newest snapshot, and can continue from there.
\<close>

lemma unat_of_nat_hist: "l + 1 < 2 ^ 64 \<Longrightarrow> unat (of_nat l :: u64) = l"
  by (simp add: unat_of_nat_small)

lemma recovered_backed:
  assumes inv: "contiguous_from 1 hist" "length hist + 1 < 2 ^ 64" and dir: "dir = jc_dir (j_config j)"
    and snaps: "snaps_of hist dir d" and names: "snap_files dir d = snap_path dir ` A"
    and kq: "k + q \<le> length hist" "k = 0 \<or> k \<le> unat (Max (insert 0 A))" and fin: "finite A"
    and m: "m = max (k + q) (unat (Max (insert 0 A)))" and le: "\<forall>a \<in> A. unat a \<le> m" "m \<le> length hist"
    and rep: "if k + q < unat (Max (insert 0 A)) then jrepr [] 0 j d else jrepr (take q (drop k hist)) q j d"
  shows "backed (take m hist) m j d" and "snaps_of (take m hist) dir d"
proof -
  show "snaps_of (take m hist) dir d"
    unfolding snaps_of_def
  proof
    fix p assume p: "p \<in> snap_files dir d"
    then obtain a where a: "a \<in> A" "p = snap_path dir a" using names by blast
    then have "take (unat a) (take m hist) = take (unat a) hist" using le(1) by (simp add: min_def)
    moreover from snaps p obtain s sw where "0 < s" "unat s \<le> length hist" "p = snap_path dir s"
        "replay (take (unat s) hist) = Ok sw" "content d p = Some (snapshot_bytes s 0 (snap_payload sw))" "stable d p = content d p"
      unfolding snaps_of_def by blast
    ultimately show "\<exists>s sw. 0 < s \<and> unat s \<le> length (take m hist) \<and> p = snap_path dir s \<and>
        replay (take (unat s) (take m hist)) = Ok sw \<and>
        content d p = Some (snapshot_bytes s 0 (snap_payload sw)) \<and> stable d p = content d p"
      using a le by (intro exI [of _ s] exI [of _ sw]) simp
  qed
  obtain M where M: "M = Max (insert 0 A)" by blast
  have "M \<in> insert 0 A" unfolding M by (rule Max_in) (simp_all add: fin)
  then have cover: "M = 0 \<or> snap_path dir M \<in> snap_files dir d" using names by blast
  note kq = kq [folded M] and m = m [folded M] and rep = rep [folded M]
  show "backed (take m hist) m j d"
  proof (cases "k + q < unat M")
    case True
    then have mM: "m = unat M" using m by (simp add: max_def)
    have "snap_path dir M \<in> snap_files dir d" using True cover by (metis not_less_zero unat_0)
    then have "\<exists>s. m \<le> unat s \<and> snap_path dir s \<in> snap_files dir d" using mM by (metis order_refl)
    moreover have "jrepr (drop m (take m hist)) (m - m) j d" using rep True by simp
    ultimately show ?thesis
      using le(2) unfolding backed_covered dir [symmetric] by (intro exI [of _ m]) simp
  next
    case False
    then have mm: "m = k + q" using m by simp
    then have "drop k (take m hist) = take q (drop k hist)" by (simp add: drop_take)
    moreover have "k = 0 \<or> (\<exists>s. k \<le> unat s \<and> snap_path dir s \<in> snap_files dir d)"
      using kq(2) cover by auto
    ultimately show ?thesis
      using False rep mm kq(1) unfolding backed_covered dir [symmetric] by (intro exI [of _ k]) simp
  qed
qed

text \<open>The frames after the anchor lead from its state to the tip.\<close>

lemma recovered_tail:
  assumes cont: "contiguous_from 1 hist" and small: "length hist + 1 < 2 ^ 64" and kq: "k + q \<le> length hist"
    and kM: "k \<le> unat M" and stM: "replay (take (unat M) hist) = Ok sw"
  shows "replay_frames SV (filter (\<lambda>f. f_seq f > M) (take q (drop k hist))) sw = replay (take (max (k + q) (unat M)) hist)"
proof -
  have ka: "unat (1 + of_nat k :: u64) = 1 + k" using kq small unat_plus_of_nat [of 1 k] by simp
  have "contiguous_from (1 + of_nat k) (take q (drop k hist))"
    using contiguous_take [OF contiguous_drop [OF cont]] kq by simp
  from filter_contiguous [OF this, of M] ka kq small
  have "filter (\<lambda>f. f_seq f > M) (take q (drop k hist)) = drop (unat M - k) (take q (drop k hist))" by simp
  also have "\<dots> = drop (unat M) (take (k + q) hist)" using kM by (simp add: drop_take add.commute)
  finally have t: "filter (\<lambda>f. f_seq f > M) (take q (drop k hist)) = drop (unat M) (take (k + q) hist)" .
  show ?thesis
  proof (cases "unat M \<le> k + q")
    case True
    with t replay_resumes [OF stM True kq] show ?thesis by simp
  next
    case False
    with t stM show ?thesis by simp
  qed
qed

text \<open>When the anchor lies beyond the journal's tail, the journal is reseated behind it.\<close>

lemma recovered_reseat:
  assumes rep: "jrepr fs q j d" and jc: "j_config j = jcfg" and last: "unat (j_last_seq j) = k + q"
    and kq: "k + q \<le> l" and Ml: "unat M \<le> l" and small: "l + 1 < 2 ^ 64"
  shows "\<exists>j' d'. (if M > j_last_seq j then reseat_to S t (seq_next (max (j_last_seq j) M)) j d else (Ok (), j, d)) = (Ok (), j', d') \<and>
    untouched (jc_dir jcfg) d d' \<and> j_config j' = jcfg \<and> j_last_seq j' = max (j_last_seq j) M \<and>
    (if k + q < unat M then jrepr [] 0 j' d' else jrepr fs q j' d')"
proof (cases "M > j_last_seq j")
  case True
  then have tM: "max (j_last_seq j) M = M" by simp
  have "seq_next (j_last_seq j) < seq_next M"
    using True last Ml kq small unat_plus_of_nat [of M 1] unat_plus_of_nat [of "j_last_seq j" 1]
    by (simp add: seq_next_def word_less_nat_alt)
  from reseat_jrepr [OF rep this, of t] jc obtain j' d' where
    "reseat_to S t (seq_next M) j d = (Ok (), j', d')" "jrepr [] 0 j' d'" "j_config j' = jcfg"
      "j_last_seq j' = seq_next M - 1" "untouched (jc_dir jcfg) d d'" by auto
  moreover have "k + q < unat M" using True last by (simp add: word_less_nat_alt)
  ultimately show ?thesis using True tM by (simp add: seq_next_def)
next
  case False
  then have "max (j_last_seq j) M = j_last_seq j" "\<not> k + q < unat M"
    using last by (simp_all add: not_less max.absorb1) (simp add: word_le_nat_alt)
  with False rep jc show ?thesis by simp
qed

lemma node_open_Ok:
  assumes "journal_open_with S t (nc_journal cfg) d = (Ok rec, d1)"
    and "high_water_seq S (jc_dir (nc_journal cfg)) d1 = Ok hw"
    and "load_candidates S (jc_dir (nc_journal cfg)) (max (j_last_seq (re_journal rec)) hw) d1 = Ok snaps"
    and "pick_anchor SV scfg (re_first_seq rec) snaps = anchor"
    and "anchor = None \<Longrightarrow> re_first_seq rec \<le> 1"
    and "(case anchor of Some a \<Rightarrow> a | None \<Rightarrow> (sv_genesis SV scfg, wheel_new, GENESIS)) = (svc, w, from_seq)"
    and "purge_after S (jc_dir (nc_journal cfg)) (max (j_last_seq (re_journal rec)) from_seq) d1 = (Ok (), d2)"
    and "(if from_seq > j_last_seq (re_journal rec)
          then reseat_to S t (seq_next (max (j_last_seq (re_journal rec)) from_seq)) (re_journal rec) d2
          else (Ok (), re_journal rec, d2)) = (Ok (), j', d3)"
    and "replay_frames SV (filter (\<lambda>f. f_seq f > from_seq) (re_frames rec)) (svc, w) = Ok (svc', w')"
  shows "\<exists>n'. node_open_with (env_of now) t cfg scfg clock d = (Ok n', d3) \<and> n_service n' = svc' \<and> n_timers n' = w' \<and>
    n_journal n' = j' \<and> n_journal_config n' = nc_journal cfg \<and> n_service_config n' = scfg \<and>
    n_seq n' = max (j_last_seq (re_journal rec)) from_seq \<and> n_bus n' = [] \<and> n_clock n' = clock \<and>
    n_snapshot_every n' = nc_snapshot_every cfg"
proof -
  have "\<not> (anchor = None \<and> re_first_seq rec > seq_next GENESIS)"
    using assms(5) by (cases anchor) (auto simp: seq_next_def GENESIS_def not_less)
  then show ?thesis
    using assms(1-4,6-9) by (simp add: node_open_with_def Let_def)
qed

lemma node_recovery:
  fixes n :: "('s, 'o, 'c, 'k, 'f) node"
  assumes inv: "journaled jcfg hist dur n d" and sizes: "sizes_ok hist" and good: "\<exists>sw. replay hist = Ok sw"
    and pl: "power_loss d d'" and cfg: "nc_journal cfg = jcfg"
  shows "\<exists>(n' :: ('s, 'o, 'c, 'k, 'f) node) d'' m. node_open_with (env_of now) t cfg scfg clock d' = (Ok n', d'') \<and>
    dur \<le> m \<and> m \<le> length hist \<and> Live jcfg (take m hist) m n' d'' \<and> n_bus n' = []"
proof -
  let ?dir = "jc_dir jcfg"
  have cont: "contiguous_from 1 hist" and small: "length hist + 1 < 2 ^ 64" using inv by (simp_all add: journaled_def)
  from inv pl obtain rec :: "'f recovered" and d1 k q where
    r: "journal_open_with S t jcfg d' = (Ok rec, d1)" and kq: "k + q \<le> length hist" and dur: "dur \<le> k + q"
    and fr: "re_frames rec = take q (drop k hist)" and rep: "jrepr (take q (drop k hist)) q (re_journal rec) d1"
    and jc: "j_config (re_journal rec) = jcfg" and first: "re_first_seq rec = 1 + of_nat k"
    and last: "j_last_seq (re_journal rec) = of_nat (k + q)" and snaps: "snaps_of hist ?dir d1"
    and cover: "k = 0 \<or> (\<exists>s. k \<le> unat s \<and> snap_path ?dir s \<in> snap_files ?dir d1)"
    by (rule recover_journal)
  from snap_names [OF snaps] obtain A where A: "snap_files ?dir d1 = snap_path ?dir ` A"
      "\<forall>a \<in> A. 0 < a \<and> unat a \<le> length hist" by blast
  define M where "M = Max (insert 0 A)"
  define m where "m = max (k + q) (unat M)"
  from store_listing [OF jrepr_ok [OF rep] snaps sizes A(1)] obtain as where
    as: "distinct as" "set as = A" "high_water_seq S ?dir d1 = Ok M"
      "\<forall>x. (\<forall>a \<in> A. a \<le> x) \<longrightarrow> load_candidates S ?dir x d1 = Ok (map (snapshot_at hist) (rev (sort as)))"
    unfolding M_def by blast
  have fin: "finite A" using as(2) by (metis finite_set)
  have leM: "a \<le> M" if "a \<in> A" for a using that fin by (simp add: M_def)
  have M_in: "M = 0 \<or> M \<in> A" using Max_in [of "insert 0 A"] fin by (auto simp: M_def)
  have Mhist: "unat M \<le> length hist" using M_in A(2) by auto
  have last': "unat (j_last_seq (re_journal rec)) = k + q" 
    using last kq small unat_of_nat_hist [of "k + q"] by (simp del: of_nat_add)
  define tip where "tip = max (j_last_seq (re_journal rec)) M"
  have tip: "unat tip = m" by (simp add: tip_def m_def max_def word_le_nat_alt last')
  have kM: "k \<le> unat M"
  proof -
    have "k \<le> unat a \<Longrightarrow> a \<in> A \<Longrightarrow> k \<le> unat M" for a using leM [of a] by (simp add: word_le_nat_alt)
    then show ?thesis using cover A(1) by auto
  qed
  have mle: "m \<le> length hist" using kq Mhist by (simp add: m_def)
  have Ale: "\<forall>a \<in> A. a \<le> tip" using leM by (auto simp: tip_def le_max_iff_disj)
  have anchor: "pick_anchor SV scfg (re_first_seq rec) (map (snapshot_at hist) (rev (sort as))) =
      (if as = [] then None else Some (fst (state_at hist M), snd (state_at hist M), M))"
  proof -
    have "\<not> M + 1 < 1 + of_nat k"
      using kM Mhist small unat_plus_of_nat [of M 1] unat_plus_of_nat [of 1 k] kq by (simp add: word_less_nat_alt)
    then show ?thesis
      using pick_anchor_newest [OF snaps sizes, of as "re_first_seq rec"] A(1) as(2)
      by (simp add: first M_def Let_def)
  qed
  have start: "(case (if as = [] then None else Some (fst (state_at hist M), snd (state_at hist M), M)) of
      Some a \<Rightarrow> a | None \<Rightarrow> (sv_genesis SV scfg, wheel_new, GENESIS)) = (fst (state_at hist M), snd (state_at hist M), M)"
    using as(2) by (auto simp: M_def GENESIS_def state_at_def)
  have stM: "replay (take (unat M) hist) = Ok (state_at hist M)"
    using M_in snaps_ofD(3) [OF snaps, of M] A(1) by (auto simp: state_at_def)
  obtain d2 where d2: "purge_after S ?dir tip d1 = (Ok (), d2)" "seg_same ?dir d1 d2" "content d2 = content d1" "stable d2 = stable d1"
    using purge_noop [OF jrepr_ok [OF rep] A(1) Ale] by blast
  have rep2: "jrepr (take q (drop k hist)) q (re_journal rec) d2" by (rule jrepr_seg_same [OF rep]) (simp add: jc d2(2))
  have u12: "untouched ?dir d1 d2" using d2(3,4) by (simp add: untouched_def)
  from recovered_reseat [OF rep2 jc last' kq Mhist small, of t] obtain j' d3 where
    d3: "(if M > j_last_seq (re_journal rec) then reseat_to S t (seq_next tip) (re_journal rec) d2
        else (Ok (), re_journal rec, d2)) = (Ok (), j', d3)" "untouched ?dir d2 d3" "j_config j' = jcfg" "j_last_seq j' = tip"
      "if k + q < unat M then jrepr [] 0 j' d3 else jrepr (take q (drop k hist)) q j' d3"
    unfolding tip_def by blast
  have tail: "replay_frames SV (filter (\<lambda>f. f_seq f > M) (re_frames rec)) (state_at hist M) = replay (take m hist)"
    unfolding fr m_def by (rule recovered_tail [OF cont small kq kM stM])
  obtain svc w where sw: "replay (take m hist) = Ok (svc, w)"
    using good replay_frames_append [of SV "take m hist" "drop m hist" "(sv_genesis SV scfg, wheel_new)"]
    by (auto simp: rbind_Ok_iff)
  have "\<exists>n' :: ('s, 'o, 'c, 'k, 'f) node. node_open_with (env_of now) t cfg scfg clock d' = (Ok n', d3) \<and>
      n_service n' = svc \<and> n_timers n' = w \<and> n_journal n' = j' \<and> n_journal_config n' = nc_journal cfg \<and>
      n_service_config n' = scfg \<and> n_seq n' = max (j_last_seq (re_journal rec)) M \<and> n_bus n' = [] \<and> n_clock n' = clock \<and>
      n_snapshot_every n' = nc_snapshot_every cfg"
  proof (rule node_open_Ok [where snaps = "map (snapshot_at hist) (rev (sort as))" and ?d2.0 = d2 and ?d1.0 = d1])
    show "load_candidates S (jc_dir (nc_journal cfg)) (max (j_last_seq (re_journal rec)) M) d1 =
        Ok (map (snapshot_at hist) (rev (sort as)))"
      using as(4) Ale unfolding tip_def cfg by blast
    show "re_first_seq rec \<le> 1" if "(if as = [] then None else Some (fst (state_at hist M), snd (state_at hist M), M)) = None"
      using that kM as(2) by (auto simp: M_def first split: if_splits)
    show "replay_frames SV (filter (\<lambda>f. M < f_seq f) (re_frames rec)) (fst (state_at hist M), snd (state_at hist M)) = Ok (svc, w)"
      using tail sw by simp
  qed (use r as(3) anchor start d2(1) [unfolded tip_def] d3(1) [unfolded tip_def] cfg in \<open>simp_all only:\<close>)
  then obtain n' :: "('s, 'o, 'c, 'k, 'f) node" where
    opened: "node_open_with (env_of now) t cfg scfg clock d' = (Ok n', d3)" and n': "n_service n' = svc" "n_timers n' = w"
      "n_journal n' = j'" "n_journal_config n' = jcfg" "n_service_config n' = scfg" "n_seq n' = tip" "n_bus n' = []"
    using cfg by (auto simp: tip_def)
  have files: "snap_files ?dir d3 = snap_path ?dir ` A" and sn3: "snaps_of hist ?dir d3"
    using untouched_snap_files(1) [OF untouched_trans [OF u12 d3(2)]] A(1)
      snaps_of_untouched [OF snaps untouched_trans [OF u12 d3(2)]] by simp_all
  have "\<forall>a \<in> A. unat a \<le> m" using Ale tip by (auto simp: word_le_nat_alt)
  from recovered_backed [OF cont small _ sn3 files kq _ fin m_def [unfolded M_def] this mle, of j'] kM d3(3,5)
  have bk: "backed (take m hist) m j' d3" "snaps_of (take m hist) ?dir d3" by (auto simp: M_def)
  have "tip = of_nat m" by (simp flip: tip)
  then have "journaled jcfg (take m hist) m n' d3"
    using bk n' d3(3,4) contiguous_take [OF cont] small mle by (simp add: journaled_def)
  moreover have "applied (take m hist) n'" using sw n' by (simp add: applied_def)
  moreover have "dur \<le> m" using dur by (simp add: m_def)
  ultimately show ?thesis using opened n'(7) mle by (intro exI [of _ n'] exI [of _ d3] exI [of _ m]) (simp add: Live_def)
qed

section \<open>Operations that return\<close>

text \<open>With room in a segment, sequencing a frame succeeds.\<close>

lemma sequence_at_returns:
  fixes n :: "('s, 'o, 'c, 'k, 'f) node"
  assumes inv: "journaled jcfg hist dur n d" and small: "length hist + 2 < 2 ^ 64"
    and pl: "length payload \<le> unat MAX_PAYLOAD_LEN"
    and room: "28 + (FRAME_HEADER_LEN + length payload + 4) \<le> jc_segment_bytes jcfg"
  shows "\<exists>f j' d'. sequence_at S t kind payload at n d = (Ok f, n\<lparr>n_seq := seq_next (n_seq n),
      n_last_timestamp := max at (n_last_timestamp n), n_journal := j'\<rparr>, d') \<and> f_seq f = seq_next (n_seq n) \<and>
      f_timestamp f = max at (n_last_timestamp n) \<and> untouched (jc_dir jcfg) d d'"
proof -
  let ?f = "\<lparr>f_seq = seq_next (n_seq n), f_timestamp = max at (n_last_timestamp n), f_stream_id = n_stream_id n,
    f_kind = kind, f_payload = payload\<rparr>" and ?j = "n_journal n"
  have lst: "j_last_seq ?j = of_nat (length hist)" "n_seq n = j_last_seq ?j" and cfg: "j_config ?j = jcfg"
    and "backed hist dur ?j d" using inv by (simp_all add: journaled_def)
  then obtain k where k: "jrepr (drop k hist) (dur - k) ?j d" unfolding backed_def by blast
  have v: "frame_valid ?f" using pl by (simp add: frame_valid_def)
  have cont: "contiguous_from (seq_next (j_last_seq ?j)) [?f]" using v lst(2) by simp
  have "unat (seq_next (j_last_seq ?j)) = 1 + length hist"
    using lst(1) small unat_plus_of_nat [of 1 "length hist"] by (simp add: seq_next_def add.commute)
  then have bound: "unat (seq_next (j_last_seq ?j)) + length [?f] < 2 ^ 64" using small by simp
  have fits: "28 + length (frames_bytes [?f]) \<le> jc_segment_bytes (j_config ?j)"
    using room frame_encoded_len_correct [of ?f] cfg by (simp add: frame_encoded_len_def)
  from batch_jrepr [OF k cont _ bound disjI1 [OF fits], of t] obtain j' d' where
    "journal_append_batch S t [?f] ?j d = (Ok (), j', d')" "untouched (jc_dir jcfg) d d'" using cfg by auto
  then show ?thesis
    using pl by (intro exI [of _ ?f] exI [of _ j'] exI [of _ d'])
      (simp add: sequence_at_def stage_frame_def frame_new_def append_is_batch Let_def)
qed

text \<open>An input that neither arms nor cancels a timer in the given state.\<close>

definition quiet :: "'i \<Rightarrow> 's \<Rightarrow> bool" where
  "quiet i s \<longleftrightarrow> (\<forall>q c. c_timers (snd (sv_apply SV q i s c)) = c_timers c)"

lemma submit_returns:
  fixes n :: "('s, 'o, 'c, 'k, 'f) node"
  assumes inv: "journaled jcfg hist dur n d" and small: "length hist + 2 < 2 ^ 64" and quiet: "quiet i (n_service n)"
    and snap: "n_snapshot_every n = None" and wheel: "n_timers n = wheel_new"
    and pl: "length (encode_to_vec (sv_enc_input SV) i) \<le> unat MAX_PAYLOAD_LEN"
    and room: "28 + (FRAME_HEADER_LEN + length (encode_to_vec (sv_enc_input SV) i) + 4) \<le> jc_segment_bytes jcfg"
  shows "\<exists>rel n' d' f. submit (env_of now) t i n d = Some (Ok (seq_next (n_seq n), rel), n', d') \<and>
    n_snapshot_every n' = None \<and> n_timers n' = wheel_new \<and> published [f] n n'"
proof -
  let ?pl = "encode_to_vec (sv_enc_input SV) i" and ?n1 = "n\<lparr>n_clock := snd (now (n_clock n))\<rparr>"
  have "journaled jcfg hist dur ?n1 d" using inv journaled_cong(1) [of ?n1 n] by simp
  from sequence_at_returns [OF this small pl room, of t Input "fst (now (n_clock n))"] obtain f j2 d2 where
    sq: "sequence_at S t Input ?pl (fst (now (n_clock n))) ?n1 d = (Ok f, ?n1\<lparr>n_seq := seq_next (n_seq ?n1),
      n_last_timestamp := max (fst (now (n_clock n))) (n_last_timestamp ?n1), n_journal := j2\<rparr>, d2)"
      "f_seq f = seq_next (n_seq n)" by auto
  then obtain n2 where sf: "sequence_frame (env_of now) t Input ?pl n d = (Ok f, n2, d2)"
    and n2: "n_snapshot_every n2 = None" "n_timers n2 = wheel_new" "n_bus n2 = n_bus n" "n_service n2 = n_service n"
    using snap wheel by (simp add: sequence_frame_def read_clock_def split_beta)
  obtain outs n3 where step: "run_step f (sv_apply SV (f_seq f) i) n2 = (outs, n3)" by fastforce
  have n3: "n_snapshot_every n3 = None" "n_timers n3 = wheel_new" "n_bus n3 = n_bus n"
  proof -
    have "c_timers (snd (sv_apply SV (f_seq f) i (n_service n2) (ctx_new (f_seq f) (f_timestamp f)))) = []"
      using quiet n2(4) by (simp add: quiet_def ctx_new_def)
    then show "n_snapshot_every n3 = None" "n_timers n3 = wheel_new" "n_bus n3 = n_bus n"
      using step n2 by (auto simp: run_step_def fold_timers_def split_beta)
  qed
  obtain rel n4 where fin: "finish_frame (env_of now) t f outs n3 d2 = (Ok rel, n4, d2)"
      "n_snapshot_every n4 = None" "n_timers n4 = wheel_new" "n_bus n4 = bus_publish f (n_bus n)"
    using n3 by (cases "n_commit n3") (auto simp: finish_frame_def maybe_snapshot_def Let_def split_beta)
  have "pop_due (n_last_timestamp n4) (n_timers n4) = (None, wheel_new)"
    using fin(3) by (simp add: pop_due_def wheel_new_def bt_first_def)
  then have "fire_due_timers (env_of now) t rel n4 d2 = Some (Ok rel, n4, d2)"
    by (subst fire_due_timers.simps) simp
  then show ?thesis
    using sf step fin sq(2) by (intro exI [of _ rel] exI [of _ n4] exI [of _ d2] exI [of _ f])
      (simp add: submit_def after_step_def published_def)
qed

section \<open>The determinism check\<close>

lemma verify_frame_replay: "verify_frame SV f (fst sw) = rbind (replay_frame SV f sw) (\<lambda>sw. Ok (fst sw))"
  by (simp add: replay_frame_def verify_frame_def replay_step_def split_beta split: frame_kind.split result.split)

lemma verify_frames_replay: "verify_frames SV fs (fst sw) = rbind (replay_frames SV fs sw) (\<lambda>sw. Ok (fst sw))"
proof (induction fs arbitrary: sw)
  case (Cons f fs)
  then show ?case by (cases "replay_frame SV f sw") (simp_all add: verify_frame_replay)
qed simp

lemma backed_open:
  assumes "journaled jcfg hist dur n d"
  shows "\<exists>k rec d'. k \<le> length hist \<and> journal_open_with S t jcfg d = (Ok rec, d') \<and> re_frames rec = drop k hist \<and>
    re_first_seq rec = 1 + of_nat k \<and> jrepr (drop k hist) (dur - k) (n_journal n) d"
proof -
  have j: "j_config (n_journal n) = jcfg" "j_last_seq (n_journal n) = of_nat (length hist)" "backed hist dur (n_journal n) d"
    using assms by (simp_all add: journaled_def)
  from j(3) obtain k where k: "k \<le> length hist" "jrepr (drop k hist) (dur - k) (n_journal n) d"
    unfolding backed_def by blast
  from open_frames [OF k(2), of t] obtain rec d' where
    "journal_open_with S t jcfg d = (Ok rec, d')" "re_frames rec = drop k hist"
    and "re_first_seq rec = seq_next (j_last_seq (n_journal n)) - of_nat (length (drop k hist))"
    unfolding j(1) by blast
  moreover from this(3) have "re_first_seq rec = 1 + of_nat k" using k(1) by (simp add: j(2) seq_next_def of_nat_diff)
  ultimately show ?thesis using k by blast
qed

lemma verify_replay_holds:
  assumes inv: "journaled jcfg hist dur n d" and app: "applied hist n"
    and whole: "journal_open_with S t0 jcfg d = (Ok rec, d0)" "re_first_seq rec = 1"
  shows "\<exists>n' d'. verify_replay (env_of now) t n d = (Ok True, n', d')"
proof -
  have small: "length hist + 1 < 2 ^ 64" and cfg: "j_config (n_journal n) = jcfg" "n_journal_config n = jcfg"
      "n_service_config n = scfg" using inv by (simp_all add: journaled_def)
  from backed_open [OF inv, of t0] whole obtain k where
    k: "k \<le> length hist" "(1 :: u64) = 1 + of_nat k" "jrepr (drop k hist) (dur - k) (n_journal n) d" by auto
  have "unat (of_nat k :: u64) = k" using k(1) small by (intro unat_of_nat_hist) simp
  moreover have "(of_nat k :: u64) = 0" using k(2) by simp
  ultimately have "k = 0" by (metis unat_0)
  with k(3) have rep: "jrepr hist dur (n_journal n) d" by simp
  from sync_jrepr [OF rep, of t] obtain j' d' where
    s: "journal_sync S t (n_journal n) d = (Ok (), j', d')" "jrepr hist (length hist) j' d'" "j_config j' = jcfg"
    using cfg by auto
  from open_frames [OF s(2), of t] s(3) obtain rec' d'' where
    "journal_open_with S t jcfg d' = (Ok rec', d'')" "re_frames rec' = hist" by auto
  then obtain j'' meta where o: "open_inner S t jcfg d' = (Ok (j'', meta, hist), d'')"
    by (auto simp: journal_open_with_def sbind_Ok_iff)
  have "verify_frames SV hist (sv_genesis SV scfg) = Ok (n_service n)"
    using app verify_frames_replay [of hist "(sv_genesis SV scfg, wheel_new)"] by (simp add: applied_def)
  with s(1) o cfg show ?thesis by (simp add: verify_replay_def node_sync_def)
qed

end

end
