(* ===== verification/Services.thy ===== *)
theory Services
  imports Node_Recovery
begin

text \<open>
  Three of the services that the repository hosts: the counter of \<open>examples/counter\<close>, the
  key-value store of \<open>examples/kv\<close> and the bank of \<open>ticktape-sim/src/demo.rs\<close>, each as a record of
  the \<open>Service\<close> trait's functions. Each satisfies the laws that the runtime relies on
  (\<open>service_laws\<close>), which is the interpretation that closes its section.
\<close>

text \<open>The default \<open>on_timer\<close> of the trait.\<close>

definition ignore_timer :: "u64 \<Rightarrow> ('s, 'o) step" where
  "ignore_timer tid s c = (s, c)"

text \<open>From a codec of the inputs and of the snapshots to the laws of the service.\<close>

lemma service_lawsI:
  assumes "\<exists>len. codec (sv_enc_input SV) (sv_dec_input SV) len vi" and "\<exists>len. codec (sv_enc_snap SV) (sv_dec_snap SV) len vp"
    and "\<And>s. vs s \<Longrightarrow> sz s \<Longrightarrow> vp (sv_snapshot SV s)"
    and "\<And>s. vs s \<Longrightarrow> sv_restore SV (sv_snapshot SV s) scfg = s" and "vs (sv_genesis SV scfg)"
    and "\<And>s i q c. vs s \<Longrightarrow> vi i \<Longrightarrow> vs (fst (sv_apply SV q i s c))" and "\<And>s tid c. vs s \<Longrightarrow> vs (fst (sv_on_timer SV tid s c))"
  shows "service_laws SV scfg vi vs sz"
proof -
  from assms(1,2) obtain li lp where c: "codec (sv_enc_input SV) (sv_dec_input SV) li vi"
      "codec (sv_enc_snap SV) (sv_dec_snap SV) lp vp" by blast
  show ?thesis
    using assms(3-) codec.decode_all_encode [OF c(1)] codec.decode_all_canonical [OF c(1)]
    by unfold_locales (auto simp: codec.roundtrip [OF c(2)])
qed

section \<open>Counter\<close>

datatype cmd = Add i64 | Reset

datatype evt = Value i64

definition enc_cmd :: "cmd encoder" where
  "enc_cmd = enc_enum (\<lambda>x. case x of Add _ \<Rightarrow> 0 | Reset \<Rightarrow> 1) (\<lambda>x. case x of Add n \<Rightarrow> enc_int n | Reset \<Rightarrow> [])"

definition dec_cmd :: "cmd decoder" where
  "dec_cmd = dec_enum [map_dec Add dec_int, map_dec (\<lambda>_. Reset) dec_unit]"

definition counter_apply :: "seq \<Rightarrow> cmd \<Rightarrow> (i64, evt) step" where
  "counter_apply q cmd value c =
     (let value = (case cmd of Add n \<Rightarrow> value + n | Reset \<Rightarrow> 0) in (value, emit (Value value) c))"

definition counter :: "(i64, cmd, evt, i64, unit) service" where
  "counter = \<lparr>sv_schema_version = 0, sv_genesis = (\<lambda>_. 0), sv_apply = counter_apply, sv_on_timer = ignore_timer,
     sv_snapshot = (\<lambda>v. v), sv_restore = (\<lambda>v _. v), sv_enc_input = enc_cmd, sv_dec_input = dec_cmd,
     sv_enc_snap = enc_int, sv_dec_snap = dec_int\<rparr>"

lemma codec_cmd: "codec enc_cmd dec_cmd (len_enum (\<lambda>x. case x of Add n \<Rightarrow> len_int n | Reset \<Rightarrow> 0)) (\<lambda>_. True)"
  unfolding enc_cmd_def dec_cmd_def
proof (rule codec_enum, goal_cases)
  case (3 i buf x rest)
  then have "i = 0 \<or> i = 1" by auto
  with 3(2) show ?case by (auto simp: map_dec_Ok_iff dec_unit_def dest!: u64c.canonical)
qed (auto simp: map_dec_def u64c.roundtrip dec_unit_def u64c.encoded_len split: cmd.splits)

interpretation counterl: service_laws counter "()" "\<lambda>_. True" "\<lambda>_. True" "\<lambda>_. True"
  by (rule service_lawsI [where vp = "\<lambda>_. True"])
    (use codec_cmd u64c.codec_axioms in \<open>auto simp: counter_def\<close>)

section \<open>Key-value store\<close>

datatype kv_cmd = Put rstring rstring | Del rstring | Get rstring

datatype kv_evt = Ack bool | KvValue "rstring option"

type_synonym kv = "(rstring, rstring) btmap"

definition kv_apply :: "seq \<Rightarrow> kv_cmd \<Rightarrow> (kv, kv_evt) step" where
  "kv_apply q cmd m c =
     (case cmd of
        Put k v \<Rightarrow> (bt_insert k v m, emit (Ack (bt_get m k \<noteq> None)) c)
      | Del k \<Rightarrow> (bt_remove k m, emit (Ack (bt_get m k \<noteq> None)) c)
      | Get k \<Rightarrow> (m, emit (KvValue (bt_get m k)) c))"

definition enc_kv_cmd :: "kv_cmd encoder" where
  "enc_kv_cmd = enc_enum (\<lambda>x. case x of Put _ _ \<Rightarrow> 0 | Del _ \<Rightarrow> 1 | Get _ \<Rightarrow> 2)
     (\<lambda>x. case x of Put k v \<Rightarrow> enc_pair enc_string enc_string (k, v) | Del k \<Rightarrow> enc_string k | Get k \<Rightarrow> enc_string k)"

definition dec_kv_cmd :: "kv_cmd decoder" where
  "dec_kv_cmd = dec_enum [map_dec (\<lambda>(k, v). Put k v) (dec_pair dec_string dec_string), map_dec Del dec_string, map_dec Get dec_string]"

definition kv_service :: "(kv, kv_cmd, kv_evt, (rstring \<times> rstring) list, unit) service" where
  "kv_service = \<lparr>sv_schema_version = 0, sv_genesis = (\<lambda>_. []), sv_apply = kv_apply, sv_on_timer = ignore_timer,
     sv_snapshot = (\<lambda>m. m), sv_restore = (\<lambda>snap _. bt_collect snap), sv_enc_input = enc_kv_cmd, sv_dec_input = dec_kv_cmd,
     sv_enc_snap = enc_vec (enc_pair enc_string enc_string), sv_dec_snap = dec_vec (dec_pair dec_string dec_string)\<rparr>"

text \<open>\<open>check\<close>: the invariant that the simulator evaluates; the snapshot of the model is the entry list.\<close>

definition kv_check :: "kv \<Rightarrow> bool" where
  "kv_check m \<longleftrightarrow> (\<forall>i < length m - 1. fst (m ! i) < fst (m ! Suc i))"

fun wf_kv_cmd :: "kv_cmd \<Rightarrow> bool" where
  "wf_kv_cmd (Put k v) \<longleftrightarrow> wf_string k \<and> wf_string v"
| "wf_kv_cmd (Del k) \<longleftrightarrow> wf_string k"
| "wf_kv_cmd (Get k) \<longleftrightarrow> wf_string k"

definition kv_ok :: "kv \<Rightarrow> bool" where
  "kv_ok m \<longleftrightarrow> bt_ok m \<and> (\<forall>(k, v) \<in> set m. wf_string k \<and> wf_string v)"

lemmas kv_entry = stringc.codec_pair [OF stringc.codec_axioms]

lemma codec_kv_cmd: "codec enc_kv_cmd dec_kv_cmd
  (len_enum (\<lambda>x. case x of Put k v \<Rightarrow> len_pair len_string len_string (k, v) | Del k \<Rightarrow> len_string k | Get k \<Rightarrow> len_string k)) wf_kv_cmd"
  unfolding enc_kv_cmd_def dec_kv_cmd_def
proof (rule codec_enum, goal_cases)
  case (2 x rest)
  then show ?case
    using codec.roundtrip [OF kv_entry] by (cases x) (auto simp: map_dec_def stringc.roundtrip)
next
  case (3 i buf x rest)
  then have "i = 0 \<or> i = 1 \<or> i = 2" by auto
  with 3(2) show ?case by (auto simp: map_dec_Ok_iff dest!: stringc.canonical codec.canonical [OF kv_entry])
next
  case (4 x)
  then show ?case using codec.encoded_len [OF kv_entry] by (cases x) (auto simp: stringc.encoded_len)
qed simp

lemma kv_ok_apply: "kv_ok m \<Longrightarrow> wf_kv_cmd i \<Longrightarrow> kv_ok (fst (kv_apply q i m c))"
  by (cases i) (auto simp: kv_ok_def kv_apply_def set_bt_insert set_bt_remove)

interpretation kvl: service_laws kv_service "()" wf_kv_cmd kv_ok "\<lambda>m. length m < 2 ^ 32"
proof (rule service_lawsI [where vp = "wf_vec (\<lambda>p. wf_string (fst p) \<and> wf_string (snd p))"])
  show "\<exists>len. codec (sv_enc_input kv_service) (sv_dec_input kv_service) len wf_kv_cmd"
    using codec_kv_cmd by (auto simp: kv_service_def)
  show "\<exists>len. codec (sv_enc_snap kv_service) (sv_dec_snap kv_service) len (wf_vec (\<lambda>p. wf_string (fst p) \<and> wf_string (snd p)))"
    using codec.codec_vec [OF kv_entry] by (auto simp: kv_service_def)
qed (auto simp: kv_service_def kv_ok_apply ignore_timer_def, auto simp: kv_ok_def wf_vec_def list_all_iff bt_collect_id)

section \<open>Bank\<close>

definition ACCOUNTS :: u64 where "ACCOUNTS = 8"

definition OPENING_BALANCE :: i64 where "OPENING_BALANCE = 1000"

datatype bank_cmd = Transfer u8 u8 u32

datatype bank_evt = Transferred u8 u8 u32 | Rejected

type_synonym bank = "i64 list"

definition bank_genesis :: "unit \<Rightarrow> bank" where
  "bank_genesis cfg = replicate (unat ACCOUNTS) OPENING_BALANCE"

text \<open>\<open>amount as i64\<close> widens an unsigned number; the comparison of balances is signed.\<close>

fun bank_apply :: "seq \<Rightarrow> bank_cmd \<Rightarrow> (bank, bank_evt) step" where
  "bank_apply q (Transfer from_acct to_acct amount) b c =
     (let f = unat from_acct; t = unat to_acct; a = ucast amount :: i64 in
      if from_acct = to_acct \<or> f \<ge> length b \<or> t \<ge> length b \<or> sint (b ! f) < sint a
      then (b, emit Rejected c)
      else
        let b = b[f := b ! f - a] in
        (b[t := b ! t + a], emit (Transferred from_acct to_acct amount) c))"

definition enc_bank_cmd :: "bank_cmd encoder" where
  "enc_bank_cmd = enc_enum (\<lambda>_. 0)
     (\<lambda>x. case x of Transfer f t a \<Rightarrow> enc_pair enc_int (enc_pair enc_int enc_int) (f, t, a))"

definition dec_bank_cmd :: "bank_cmd decoder" where
  "dec_bank_cmd = dec_enum [map_dec (\<lambda>(f, t, a). Transfer f t a) (dec_pair dec_int (dec_pair dec_int dec_int))]"

definition bank_service :: "(bank, bank_cmd, bank_evt, i64 list, unit) service" where
  "bank_service = \<lparr>sv_schema_version = 0, sv_genesis = bank_genesis, sv_apply = bank_apply, sv_on_timer = ignore_timer,
     sv_snapshot = (\<lambda>b. b), sv_restore = (\<lambda>b _. b), sv_enc_input = enc_bank_cmd, sv_dec_input = dec_bank_cmd,
     sv_enc_snap = enc_vec enc_int, sv_dec_snap = dec_vec dec_int\<rparr>"

text \<open>The simulator's check, with the wrapping sum of the code, and the seeded workload.\<close>

definition bank_check :: "bank \<Rightarrow> bool" where
  "bank_check b \<longleftrightarrow> sum_list b = ucast ACCOUNTS * OPENING_BALANCE \<and> (\<forall>x \<in> set b. \<not> sint x < 0)"

definition gen_transfer :: "rng \<Rightarrow> bank_cmd \<times> rng" where
  "gen_transfer r =
     (let (f, r) = rng_below ACCOUNTS r; (t, r) = rng_below ACCOUNTS r; (a, r) = rng_below 600 r
      in (Transfer (ucast f) (ucast t) (ucast a), r))"

text \<open>Money in the integers: balances are not negative and add up to the opening total.\<close>

definition bank_ok :: "bank \<Rightarrow> bool" where
  "bank_ok b \<longleftrightarrow> length b = 8 \<and> (\<forall>x \<in> set b. 0 \<le> sint x) \<and> sum_list (map sint b) = 8000"

lemma member_le_total:
  fixes xs :: "int list"
  assumes "\<forall>x \<in> set xs. 0 \<le> x" and "x \<in> set xs"
  shows "x \<le> sum_list xs"
  using assms by (induction xs) (auto simp: sum_list_nonneg intro: order_trans)

lemma sum_list_update:
  fixes xs :: "int list"
  shows "i < length xs \<Longrightarrow> sum_list (xs[i := x]) = sum_list xs - xs ! i + x"
  by (induction xs arbitrary: i) (auto split: nat.split)

lemma sint_plus_small: "0 \<le> sint x + sint y \<Longrightarrow> sint x + sint y < 2 ^ 63 \<Longrightarrow> sint (x + y :: i64) = sint x + sint y"
  by (simp add: sint_word_ariths signed_take_bit_int_eq_self)

lemma sint_minus_small: "0 \<le> sint x - sint y \<Longrightarrow> sint x - sint y < 2 ^ 63 \<Longrightarrow> sint (x - y :: i64) = sint x - sint y"
  by (simp add: sint_word_ariths signed_take_bit_int_eq_self)

lemma sint_ucast_u32: "sint (ucast (a :: u32) :: i64) = uint a"
proof -
  have "uint a < 2 ^ 32" using uint_bounded [of a] by simp
  then have "uint (ucast a :: i64) = uint a" by (simp add: unsigned_ucast_eq take_bit_int_eq_self)
  moreover have "signed_take_bit 63 (uint a) = uint a"
  proof (rule signed_take_bit_int_eq_self)
    show "- (2 ^ 63) \<le> uint a" by (rule order_trans [of _ 0]) simp_all
    show "uint a < 2 ^ 63" using \<open>uint a < 2 ^ 32\<close> by simp
  qed
  ultimately show ?thesis by (simp add: sint_uint)
qed

lemma bank_ok_apply:
  assumes "bank_ok b"
  shows "bank_ok (fst (bank_apply q i b c))"
proof -
  obtain fa ta am where i: "i = Transfer fa ta am" by (cases i)
  let ?f = "unat fa" and ?t = "unat ta" and ?a = "ucast am :: i64"
  show ?thesis
  proof (cases "fa = ta \<or> ?f \<ge> length b \<or> ?t \<ge> length b \<or> sint (b ! ?f) < sint ?a")
    case True
    then show ?thesis using assms by (simp add: i Let_def)
  next
    case False
    then have idx: "?f < length b" "?t < length b" "?f \<noteq> ?t" and le: "sint ?a \<le> sint (b ! ?f)"
      using word_unat_eq_iff [of fa ta] by auto
    have a0: "0 \<le> sint ?a" by (simp add: sint_ucast_u32)
    have nn: "\<forall>x \<in> set (map sint b). 0 \<le> x" and tot: "sum_list (map sint b) = 8000" using assms by (simp_all add: bank_ok_def)
    then have bounds: "0 \<le> sint (b ! j) \<and> sint (b ! j) \<le> 8000" if "j < length b" for j
      using member_le_total [OF nn, of "sint (b ! j)"] that by auto
    have s1: "sint (b ! ?f - ?a) = sint (b ! ?f) - sint ?a"
      using a0 le bounds [OF idx(1)] by (intro sint_minus_small) simp_all
    have s2: "sint (b ! ?t + ?a) = sint (b ! ?t) + sint ?a"
      using a0 le bounds [OF idx(1)] bounds [OF idx(2)] by (intro sint_plus_small) simp_all
    let ?b1 = "b[?f := b ! ?f - ?a]"
    let ?b2 = "?b1[?t := b ! ?t + ?a]"
    have res: "fst (bank_apply q i b c) = ?b2" using False idx by (simp add: i Let_def)
    have m: "map sint ?b2 = (map sint b)[?f := sint (b ! ?f) - sint ?a, ?t := sint (b ! ?t) + sint ?a]"
      by (simp add: map_update s1 s2)
    have "sum_list (map sint ?b2) = 8000" unfolding m using idx tot by (simp add: sum_list_update)
    moreover have "0 \<le> x" if "x \<in> set (map sint ?b2)" for x
    proof -
      from that have "x \<in> insert (sint (b ! ?t) + sint ?a) (insert (sint (b ! ?f) - sint ?a) (set (map sint b)))"
        unfolding m using set_update_subset_insert by (metis (no_types, lifting) insert_iff subset_iff)
      then show ?thesis using nn a0 le bounds [OF idx(2)] by auto
    qed
    ultimately show ?thesis using assms by (simp add: res bank_ok_def)
  qed
qed

lemma sum_list_of_int: "sum_list (xs :: i64 list) = of_int (sum_list (map sint xs))"
  by (induction xs) simp_all

lemma bank_ok_check: "bank_ok b \<Longrightarrow> bank_check b"
  by (auto simp: bank_ok_def bank_check_def sum_list_of_int ACCOUNTS_def OPENING_BALANCE_def)

lemma bank_ok_genesis: "bank_ok (bank_genesis cfg)"
  by (simp add: bank_ok_def bank_genesis_def ACCOUNTS_def OPENING_BALANCE_def sum_list_replicate)

lemmas bank_fields = u8c.codec_pair [OF u8c.codec_pair [OF u32c.codec_axioms]]

lemma codec_bank_cmd: "codec enc_bank_cmd dec_bank_cmd (len_enum (\<lambda>x. case x of Transfer f t a \<Rightarrow>
  len_pair len_int (len_pair len_int len_int) (f, t, a))) (\<lambda>_. True)"
  unfolding enc_bank_cmd_def dec_bank_cmd_def
proof (rule codec_enum, goal_cases)
  case (2 x rest)
  then show ?case using codec.roundtrip [OF bank_fields] by (cases x) (auto simp: map_dec_def)
next
  case (3 i buf x rest)
  then show ?case by (auto simp: map_dec_Ok_iff dest!: codec.canonical [OF bank_fields])
next
  case (4 x)
  then show ?case using codec.encoded_len [OF bank_fields] by (cases x) auto
qed simp

interpretation bankl: service_laws bank_service "()" "\<lambda>_. True" bank_ok "\<lambda>_. True"
proof (rule service_lawsI [where vp = "wf_vec (\<lambda>_. True)"])
  show "\<exists>len. codec (sv_enc_input bank_service) (sv_dec_input bank_service) len (\<lambda>_. True)"
    using codec_bank_cmd by (auto simp: bank_service_def)
  show "\<exists>len. codec (sv_enc_snap bank_service) (sv_dec_snap bank_service) len (wf_vec (\<lambda>_. True))"
    using u64c.codec_vec by (auto simp: bank_service_def)
qed (auto simp: bank_service_def bank_ok_apply bank_ok_genesis ignore_timer_def, simp add: bank_ok_def wf_vec_def list_all_iff)

end
