(* ===== verification/Gateway_Wire.thy ===== *)
theory Gateway_Wire
  imports Services
begin

text \<open>
  \<open>ticktape-gateway/src/flow.rs\<close> and \<open>wire.rs\<close>: the admission of client commands, the sequenced
  envelopes, and the length-prefixed messages of the edge protocol. The codecs are those of the
  derive macros, over a codec of the application's commands and events.
\<close>

section \<open>Admission\<close>

datatype admit = Accept | Duplicate | GapAt u64 | Throttled

record session_flow =
  sf_next :: u64
  sf_window :: u32
  sf_outstanding :: u32

definition flow_resume :: "u64 \<Rightarrow> u32 \<Rightarrow> session_flow" where
  "flow_resume last_admitted window = \<lparr>sf_next = last_admitted + 1, sf_window = max window 1, sf_outstanding = 0\<rparr>"

definition flow_new :: "u32 \<Rightarrow> session_flow" where
  "flow_new window = flow_resume 0 window"

definition flow_admit :: "u64 \<Rightarrow> session_flow \<Rightarrow> admit \<times> session_flow" where
  "flow_admit client_seq f =
     (if client_seq < sf_next f then (Duplicate, f)
      else if client_seq > sf_next f then (GapAt (sf_next f), f)
      else if sf_outstanding f \<ge> sf_window f then (Throttled, f)
      else (Accept, f\<lparr>sf_next := sf_next f + 1, sf_outstanding := sf_outstanding f + 1\<rparr>))"

definition flow_on_acked :: "session_flow \<Rightarrow> session_flow" where
  "flow_on_acked f = f\<lparr>sf_outstanding := (if sf_outstanding f = 0 then 0 else sf_outstanding f - 1)\<rparr>"

section \<open>Messages\<close>

datatype 'c gateway_input = Client u64 u64 'c | SessionClosed u64

record 'e addressed =
  ad_session :: u64
  ad_event :: 'e

datatype reject_reason = RejectDuplicate | RejectGap u64 | RejectThrottled

datatype 'c client_msg = Hello u64 u64 | DropCopy u64 u64 | CmdMsg u64 'c

datatype 'e server_msg = AckMsg u64 u64 | EventMsg u64 'e | RejectedMsg u64 reject_reason

definition enc_gateway_input :: "'c encoder \<Rightarrow> 'c gateway_input encoder" where
  "enc_gateway_input ec = enc_enum (\<lambda>x. case x of Client _ _ _ \<Rightarrow> 0 | SessionClosed _ \<Rightarrow> 1)
     (\<lambda>x. case x of Client s q c \<Rightarrow> enc_pair enc_int (enc_pair enc_int ec) (s, q, c) | SessionClosed s \<Rightarrow> enc_int s)"

definition dec_gateway_input :: "'c decoder \<Rightarrow> 'c gateway_input decoder" where
  "dec_gateway_input dc = dec_enum [map_dec (\<lambda>(s, q, c). Client s q c) (dec_pair dec_int (dec_pair dec_int dc)),
     map_dec SessionClosed dec_int]"

definition enc_addressed :: "'e encoder \<Rightarrow> 'e addressed encoder" where
  "enc_addressed ee a = enc_pair enc_int ee (ad_session a, ad_event a)"

definition dec_addressed :: "'e decoder \<Rightarrow> 'e addressed decoder" where
  "dec_addressed de = map_dec (\<lambda>(s, e). \<lparr>ad_session = s, ad_event = e\<rparr>) (dec_pair dec_int de)"

definition enc_reject_reason :: "reject_reason encoder" where
  "enc_reject_reason = enc_enum (\<lambda>x. case x of RejectDuplicate \<Rightarrow> 0 | RejectGap _ \<Rightarrow> 1 | RejectThrottled \<Rightarrow> 2)
     (\<lambda>x. case x of RejectGap e \<Rightarrow> enc_int e | _ \<Rightarrow> [])"

definition dec_reject_reason :: "reject_reason decoder" where
  "dec_reject_reason = dec_enum [map_dec (\<lambda>_. RejectDuplicate) dec_unit, map_dec RejectGap dec_int,
     map_dec (\<lambda>_. RejectThrottled) dec_unit]"

definition enc_client_msg :: "'c encoder \<Rightarrow> 'c client_msg encoder" where
  "enc_client_msg ec = enc_enum (\<lambda>x. case x of Hello _ _ \<Rightarrow> 0 | DropCopy _ _ \<Rightarrow> 1 | CmdMsg _ _ \<Rightarrow> 2)
     (\<lambda>x. case x of Hello s e \<Rightarrow> enc_pair enc_int enc_int (s, e) | DropCopy s e \<Rightarrow> enc_pair enc_int enc_int (s, e)
       | CmdMsg q c \<Rightarrow> enc_pair enc_int ec (q, c))"

definition dec_client_msg :: "'c decoder \<Rightarrow> 'c client_msg decoder" where
  "dec_client_msg dc = dec_enum [map_dec (\<lambda>(s, e). Hello s e) (dec_pair dec_int dec_int),
     map_dec (\<lambda>(s, e). DropCopy s e) (dec_pair dec_int dec_int), map_dec (\<lambda>(q, c). CmdMsg q c) (dec_pair dec_int dc)]"

definition enc_server_msg :: "'e encoder \<Rightarrow> 'e server_msg encoder" where
  "enc_server_msg ee = enc_enum (\<lambda>x. case x of AckMsg _ _ \<Rightarrow> 0 | EventMsg _ _ \<Rightarrow> 1 | RejectedMsg _ _ \<Rightarrow> 2)
     (\<lambda>x. case x of AckMsg q s \<Rightarrow> enc_pair enc_int enc_int (q, s) | EventMsg s e \<Rightarrow> enc_pair enc_int ee (s, e)
       | RejectedMsg q r \<Rightarrow> enc_pair enc_int enc_reject_reason (q, r))"

definition dec_server_msg :: "'e decoder \<Rightarrow> 'e server_msg decoder" where
  "dec_server_msg de = dec_enum [map_dec (\<lambda>(q, s). AckMsg q s) (dec_pair dec_int dec_int),
     map_dec (\<lambda>(s, e). EventMsg s e) (dec_pair dec_int de),
     map_dec (\<lambda>(q, r). RejectedMsg q r) (dec_pair dec_int dec_reject_reason)]"

section \<open>Framing\<close>

datatype msg_error = MessageTruncated | MessageTooLarge | MessageInvalid codec_error

definition write_msg :: "'a encoder \<Rightarrow> 'a \<Rightarrow> bytes" where
  "write_msg enc msg = to_le_bytes (of_nat (length (enc msg)) :: u32) @ enc msg"

text \<open>Reading from the bytes that the peer sent before it closed; \<open>None\<close> is the end of the stream.\<close>

definition read_msg :: "'a decoder \<Rightarrow> bytes \<Rightarrow> ('a option \<times> bytes, msg_error) result" where
  "read_msg dec buf =
     (if length buf < 4 then Ok (None, [])
      else
        let len = unat (from_le_bytes (take 4 buf) :: u32); body = drop 4 buf in
        if len > 16 * 1024 * 1024 then Err MessageTooLarge
        else if length body < len then Err MessageTruncated
        else case decode_all dec (take len body) of
            Ok x \<Rightarrow> Ok (Some x, drop len body)
          | Err e \<Rightarrow> Err (MessageInvalid e))"

section \<open>Round trips\<close>

fun wf_gateway_input :: "('c \<Rightarrow> bool) \<Rightarrow> 'c gateway_input \<Rightarrow> bool" where
  "wf_gateway_input vc (Client _ _ c) \<longleftrightarrow> vc c"
| "wf_gateway_input vc (SessionClosed _) \<longleftrightarrow> True"

lemma codec_gateway_input:
  assumes "codec ec dc lc vc"
  shows "codec (enc_gateway_input ec) (dec_gateway_input dc)
    (len_enum (\<lambda>x. case x of Client s q c \<Rightarrow> len_pair len_int (len_pair len_int lc) (s, q, c) | SessionClosed s \<Rightarrow> len_int s))
    (wf_gateway_input vc)"
proof -
  note p = u64c.codec_pair [OF u64c.codec_pair [OF assms]]
  show ?thesis
    unfolding enc_gateway_input_def dec_gateway_input_def
  proof (rule codec_enum, goal_cases)
    case (2 x rest)
    then show ?case using codec.roundtrip [OF p] by (cases x) (auto simp: map_dec_def u64c.roundtrip)
  next
    case (3 i buf x rest)
    then have "i = 0 \<or> i = 1" by auto
    with 3(2) show ?case by (auto simp: map_dec_Ok_iff dest!: codec.canonical [OF p] u64c.canonical)
  next
    case (4 x)
    then show ?case using codec.encoded_len [OF p] by (cases x) (auto simp: u64c.encoded_len)
  qed simp
qed

lemma codec_reject_reason:
  "codec enc_reject_reason dec_reject_reason (len_enum (\<lambda>x. case x of RejectGap e \<Rightarrow> len_int e | _ \<Rightarrow> 0)) (\<lambda>_. True)"
  unfolding enc_reject_reason_def dec_reject_reason_def
proof (rule codec_enum, goal_cases)
  case (2 x rest)
  then show ?case by (cases x) (auto simp: map_dec_def u64c.roundtrip dec_unit_def)
next
  case (3 i buf x rest)
  then have "i = 0 \<or> i = 1 \<or> i = 2" by auto
  with 3(2) show ?case by (auto simp: map_dec_Ok_iff dec_unit_def dest!: u64c.canonical)
next
  case (4 x)
  then show ?case by (cases x) (auto simp: u64c.encoded_len)
qed simp

fun wf_server_msg :: "('e \<Rightarrow> bool) \<Rightarrow> 'e server_msg \<Rightarrow> bool" where
  "wf_server_msg ve (EventMsg _ e) \<longleftrightarrow> ve e"
| "wf_server_msg ve _ \<longleftrightarrow> True"

lemma codec_server_msg:
  assumes "codec ee de le ve"
  shows "\<exists>len. codec (enc_server_msg ee) (dec_server_msg de) len (wf_server_msg ve)"
proof -
  note p = u64c.codec_pair [OF u64c.codec_axioms] and q = u64c.codec_pair [OF assms] and r = u64c.codec_pair [OF codec_reject_reason]
  let ?len = "\<lambda>x. case x of AckMsg q s \<Rightarrow> len_pair len_int len_int (q, s) | EventMsg s e \<Rightarrow> len_pair len_int le (s, e)
    | RejectedMsg q r \<Rightarrow> len_pair len_int (len_enum (\<lambda>x. case x of RejectGap e \<Rightarrow> len_int e | _ \<Rightarrow> 0)) (q, r)"
  have "codec (enc_server_msg ee) (dec_server_msg de) (len_enum ?len) (wf_server_msg ve)"
    unfolding enc_server_msg_def dec_server_msg_def
  proof (rule codec_enum, goal_cases)
    case (2 x rest)
    then show ?case
      using codec.roundtrip [OF p] codec.roundtrip [OF q] codec.roundtrip [OF r] by (cases x) (auto simp: map_dec_def)
  next
    case (3 i buf x rest)
    then have "i = 0 \<or> i = 1 \<or> i = 2" by auto
    with 3(2) show ?case
      by (auto simp: map_dec_Ok_iff dest!: codec.canonical [OF p] codec.canonical [OF q] codec.canonical [OF r])
  next
    case (4 x)
    then show ?case
      using codec.encoded_len [OF p] codec.encoded_len [OF q] codec.encoded_len [OF r] by (cases x) auto
  qed simp
  then show ?thesis by blast
qed

lemma read_write_msg:
  assumes "codec enc dec len valid" and "valid x" and "length (enc x) \<le> 16 * 1024 * 1024"
  shows "read_msg dec (write_msg enc x @ rest) = Ok (Some x, rest)"
proof -
  have "unat (of_nat (length (enc x)) :: u32) = length (enc x)" using assms(3) by (intro unat_of_nat_small) simp
  with assms(3) codec.decode_all_encode [OF assms(1,2)] show ?thesis
    by (simp add: read_msg_def write_msg_def Let_def encode_to_vec_def)
qed

end
