(* ===== verification/Gateway.thy ===== *)
theory Gateway
  imports Gateway_Wire
begin

text \<open>
  \<open>ticktape-gateway/src/server.rs\<close>: the sequencer thread that owns the node and the sessions, one
  function per request, and what a connection thread turns its messages into. A channel is a
  number; the map of channels says whether its receiver still lives and what was sent to it.
  The interleaving of connections is the order of the requests. \<open>None\<close> is a \<open>submit\<close> that does not
  return.
\<close>

section \<open>State\<close>

record serve_config =
  sg_window :: u32
  sg_resume :: "(u64 \<times> u64) list"
  sg_outbox_capacity :: nat

definition serve_config_default :: serve_config where
  "serve_config_default = \<lparr>sg_window = 64, sg_resume = [], sg_outbox_capacity = 1024\<rparr>"

datatype 'c req =
    Attach u64 u64 nat
  | Watch u64 u64 nat
  | ReqCmd u64 u64 'c
  | CloseReq u64

record session_sinks =
  sk_cmd :: "nat option"
  sk_watchers :: "nat list"
  sk_next_event_seq :: u64
  sk_outbox :: "(u64 \<times> bytes) list"

definition sinks_new :: session_sinks where
  "sinks_new = \<lparr>sk_cmd = None, sk_watchers = [], sk_next_event_seq = 1, sk_outbox = []\<rparr>"

definition replay_after :: "u64 \<Rightarrow> session_sinks \<Rightarrow> bytes list" where
  "replay_after from_seq sk = map snd (filter (\<lambda>(eseq, _). eseq > from_seq) (sk_outbox sk))"

type_synonym chans = "nat \<Rightarrow> bool \<times> bytes list"

record gateway =
  gw_flows :: "(u64, session_flow) btmap"
  gw_sinks :: "(u64, session_sinks) btmap"
  gw_chans :: chans

text \<open>\<open>Sender::send\<close>: an error when the receiver is gone.\<close>

definition chan_send :: "nat \<Rightarrow> bytes \<Rightarrow> chans \<Rightarrow> bool \<times> chans" where
  "chan_send ch bs cs =
     (if fst (cs ch) then (True, cs(ch := (True, snd (cs ch) @ [bs]))) else (False, cs))"

fun send_all :: "nat \<Rightarrow> bytes list \<Rightarrow> chans \<Rightarrow> bool \<times> chans" where
  "send_all ch [] cs = (True, cs)"
| "send_all ch (bs # bss) cs = (case chan_send ch bs cs of (ok, cs) \<Rightarrow> if ok then send_all ch bss cs else (False, cs))"

definition entry_or :: "('k::linorder, 'v) btmap \<Rightarrow> 'k \<Rightarrow> 'v \<Rightarrow> 'v" where
  "entry_or m k v = (case bt_get m k of Some x \<Rightarrow> x | None \<Rightarrow> v)"

section \<open>Requests\<close>

definition handle_attach :: "serve_config \<Rightarrow> u64 \<Rightarrow> u64 \<Rightarrow> nat \<Rightarrow> gateway \<Rightarrow> gateway" where
  "handle_attach cfg session from_event_seq sink g =
     (let flows = bt_insert session (entry_or (gw_flows g) session (flow_new (sg_window cfg))) (gw_flows g);
          entry = (entry_or (gw_sinks g) session sinks_new)\<lparr>sk_cmd := Some sink\<rparr>;
          (alive, cs) = send_all sink (replay_after from_event_seq entry) (gw_chans g);
          entry = (if alive then entry else entry\<lparr>sk_cmd := None\<rparr>)
      in g\<lparr>gw_flows := flows, gw_sinks := bt_insert session entry (gw_sinks g), gw_chans := cs\<rparr>)"

definition handle_watch :: "'e encoder \<Rightarrow> u64 \<Rightarrow> u64 \<Rightarrow> nat \<Rightarrow> gateway \<Rightarrow> gateway" where
  "handle_watch ee session from_event_seq sink g =
     (let (_, cs) = chan_send sink (write_msg (enc_server_msg ee) (AckMsg 0 0)) (gw_chans g);
          entry = entry_or (gw_sinks g) session sinks_new;
          (alive, cs) = send_all sink (replay_after from_event_seq entry) cs;
          entry = (if alive then entry\<lparr>sk_watchers := sk_watchers entry @ [sink]\<rparr> else entry)
      in g\<lparr>gw_sinks := bt_insert session entry (gw_sinks g), gw_chans := cs\<rparr>)"

definition send_to_cmd :: "'e encoder \<Rightarrow> u64 \<Rightarrow> 'e server_msg \<Rightarrow> gateway \<Rightarrow> gateway" where
  "send_to_cmd ee session msg g =
     (case bt_get (gw_sinks g) session of
        None \<Rightarrow> g
      | Some entry \<Rightarrow>
          (case sk_cmd entry of
             None \<Rightarrow> g
           | Some cmd \<Rightarrow>
               (case chan_send cmd (write_msg (enc_server_msg ee) msg) (gw_chans g) of
                  (ok, cs) \<Rightarrow>
                    g\<lparr>gw_sinks := bt_insert session (if ok then entry else entry\<lparr>sk_cmd := None\<rparr>) (gw_sinks g),
                      gw_chans := cs\<rparr>)))"

text \<open>\<open>retain\<close> on the watchers: each live one is sent the bytes, a dead one is dropped.\<close>

fun retain_watchers :: "bytes \<Rightarrow> nat list \<Rightarrow> chans \<Rightarrow> nat list \<times> chans" where
  "retain_watchers bs [] cs = ([], cs)"
| "retain_watchers bs (w # ws) cs =
     (case chan_send w bs cs of
        (ok, cs) \<Rightarrow> (case retain_watchers bs ws cs of (ws', cs) \<Rightarrow> (if ok then w # ws' else ws', cs)))"

function trim_outbox :: "nat \<Rightarrow> 'a list \<Rightarrow> 'a list" where
  "trim_outbox cap xs = (if length xs > cap then trim_outbox cap (tl xs) else xs)"
  by auto
termination by (relation "measure (\<lambda>(cap, xs). length xs)") auto

declare trim_outbox.simps [simp del]

definition route_event :: "'e encoder \<Rightarrow> nat \<Rightarrow> 'e addressed \<Rightarrow> gateway \<Rightarrow> gateway" where
  "route_event ee cap a g =
     (let session = ad_session a; entry = entry_or (gw_sinks g) session sinks_new;
          event_seq = sk_next_event_seq entry;
          bs = write_msg (enc_server_msg ee) (EventMsg event_seq (ad_event a));
          entry = entry\<lparr>sk_next_event_seq := event_seq + 1, sk_outbox := trim_outbox cap (sk_outbox entry @ [(event_seq, bs)])\<rparr>;
          (cmd, cs) = (case sk_cmd entry of
             None \<Rightarrow> (None, gw_chans g)
           | Some c \<Rightarrow> (case chan_send c bs (gw_chans g) of (ok, cs) \<Rightarrow> (if ok then Some c else None, cs)));
          (ws, cs) = retain_watchers bs (sk_watchers entry) cs
      in g\<lparr>gw_sinks := bt_insert session (entry\<lparr>sk_cmd := cmd, sk_watchers := ws\<rparr>) (gw_sinks g), gw_chans := cs\<rparr>)"

definition route_events :: "'e encoder \<Rightarrow> nat \<Rightarrow> 'e addressed list \<Rightarrow> gateway \<Rightarrow> gateway" where
  "route_events ee cap outputs g = fold (route_event ee cap) outputs g"

type_synonym ('s, 'c, 'e, 'p, 'g, 'k, 'd, 'f) genv = "('s, 'c gateway_input, 'e addressed, 'p, 'g, 'k, 'd, 'f) env"
type_synonym ('s, 'e, 'g, 'k, 'f, 'd) gstate = "('s, 'e addressed, 'g, 'k, 'f) node \<times> 'd \<times> gateway"

definition handle_cmd ::
  "('s, 'c, 'e, 'p, 'g, 'k, 'd, 'f) genv \<Rightarrow> 'e encoder \<Rightarrow> serve_config \<Rightarrow> nat \<Rightarrow> u64 \<Rightarrow> u64 \<Rightarrow> 'c \<Rightarrow>
     ('s, 'e, 'g, 'k, 'f, 'd) gstate \<Rightarrow> ('s, 'e, 'g, 'k, 'f, 'd) gstate option"
where
  "handle_cmd E ee cfg t session client_seq cmd st =
     (let (n, d, g) = st;
          (verdict, flow) = flow_admit client_seq (entry_or (gw_flows g) session (flow_new (sg_window cfg)));
          g = g\<lparr>gw_flows := bt_insert session flow (gw_flows g)\<rparr>;
          reject = (\<lambda>reason. Some (n, d, send_to_cmd ee session (RejectedMsg client_seq reason) g))
      in case verdict of
          Accept \<Rightarrow>
            (case submit E t (Client session client_seq cmd) n d of
               None \<Rightarrow> None
             | Some (Ok (s, outputs), n, d) \<Rightarrow>
                 let g = g\<lparr>gw_flows := bt_insert session (flow_on_acked flow) (gw_flows g)\<rparr>
                 in Some (n, d, route_events ee (sg_outbox_capacity cfg) outputs
                      (send_to_cmd ee session (AckMsg client_seq s) g))
             | Some (Err e, n, d) \<Rightarrow> Some (n, d, g\<lparr>gw_sinks := bt_remove session (gw_sinks g)\<rparr>))
        | Duplicate \<Rightarrow> reject RejectDuplicate
        | GapAt expected \<Rightarrow> reject (RejectGap expected)
        | Throttled \<Rightarrow> reject RejectThrottled)"

definition handle_close ::
  "('s, 'c, 'e, 'p, 'g, 'k, 'd, 'f) genv \<Rightarrow> 'e encoder \<Rightarrow> serve_config \<Rightarrow> nat \<Rightarrow> u64 \<Rightarrow>
     ('s, 'e, 'g, 'k, 'f, 'd) gstate \<Rightarrow> ('s, 'e, 'g, 'k, 'f, 'd) gstate option"
where
  "handle_close E ee cfg t session st =
     (let (n, d, g) = st;
          g = (case bt_get (gw_sinks g) session of
             None \<Rightarrow> g
           | Some entry \<Rightarrow> g\<lparr>gw_sinks := bt_insert session (entry\<lparr>sk_cmd := None\<rparr>) (gw_sinks g)\<rparr>)
      in case submit E t (SessionClosed session) n d of
          None \<Rightarrow> None
        | Some (Ok (s, outputs), n, d) \<Rightarrow> Some (n, d, route_events ee (sg_outbox_capacity cfg) outputs g)
        | Some (Err e, n, d) \<Rightarrow> Some (n, d, g))"

fun handle_req ::
  "('s, 'c, 'e, 'p, 'g, 'k, 'd, 'f) genv \<Rightarrow> 'e encoder \<Rightarrow> serve_config \<Rightarrow> nat \<Rightarrow> 'c req \<Rightarrow>
     ('s, 'e, 'g, 'k, 'f, 'd) gstate \<Rightarrow> ('s, 'e, 'g, 'k, 'f, 'd) gstate option"
where
  "handle_req E ee cfg t (Attach session from_event_seq sink) (n, d, g) =
     Some (n, d, handle_attach cfg session from_event_seq sink g)"
| "handle_req E ee cfg t (Watch session from_event_seq sink) (n, d, g) =
     Some (n, d, handle_watch ee session from_event_seq sink g)"
| "handle_req E ee cfg t (ReqCmd session client_seq cmd) st = handle_cmd E ee cfg t session client_seq cmd st"
| "handle_req E ee cfg t (CloseReq session) st = handle_close E ee cfg t session st"

definition gateway_new :: "serve_config \<Rightarrow> chans \<Rightarrow> gateway" where
  "gateway_new cfg cs =
     \<lparr>gw_flows = bt_collect (map (\<lambda>(session, last). (session, flow_resume last (sg_window cfg))) (sg_resume cfg)),
      gw_sinks = [], gw_chans = cs\<rparr>"

text \<open>The loop, over the requests with the time of each.\<close>

fun sequencer_loop ::
  "('s, 'c, 'e, 'p, 'g, 'k, 'd, 'f) genv \<Rightarrow> 'e encoder \<Rightarrow> serve_config \<Rightarrow> (nat \<times> 'c req) list \<Rightarrow>
     ('s, 'e, 'g, 'k, 'f, 'd) gstate \<Rightarrow> ('s, 'e, 'g, 'k, 'f, 'd) gstate option"
where
  "sequencer_loop E ee cfg [] st = Some st"
| "sequencer_loop E ee cfg ((t, r) # reqs) st =
     (case handle_req E ee cfg t r st of None \<Rightarrow> None | Some st \<Rightarrow> sequencer_loop E ee cfg reqs st)"

section \<open>Connections\<close>

text \<open>The requests of one connection: its role is its first message, then only commands.\<close>

fun command_requests :: "u64 \<Rightarrow> 'c client_msg list \<Rightarrow> 'c req list" where
  "command_requests session (CmdMsg client_seq cmd # msgs) = ReqCmd session client_seq cmd # command_requests session msgs"
| "command_requests session _ = [CloseReq session]"

fun connection_loop :: "nat \<Rightarrow> 'c client_msg list \<Rightarrow> 'c req list" where
  "connection_loop sink (Hello session from_event_seq # msgs) =
     Attach session from_event_seq sink # command_requests session msgs"
| "connection_loop sink (DropCopy session from_event_seq # msgs) = [Watch session from_event_seq sink]"
| "connection_loop sink _ = []"

end
