(* ===== verification/Node_Progress.thy ===== *)
theory Node_Progress
  imports Node_Recovery
begin

text \<open>
  Progress of the node: with room for a frame and a snapshot mark in a segment, a submission, a tick and
  a fence succeed in every reachable state, under any snapshot, pruning and compaction policy, when no
  timer is pending and the input arms none. Each adds its own frame and at most one snapshot mark.
\<close>

context hosted
begin

lemma snap_fresh:
  assumes "snaps_of hist dir d" and "length hist < unat s"
  shows "content d (snap_path dir s) = None"
proof (rule ccontr)
  assume "content d (snap_path dir s) \<noteq> None"
  then have "snap_path dir s \<in> snap_files dir d" by (simp add: snap_files_def)
  with assms show False unfolding snaps_of_def by fastforce
qed

lemma journaled_ok: "journaled jcfg hist dur n d \<Longrightarrow> ok d"
  by (auto simp: journaled_def backed_def dest: jrepr_ok)

lemma sequence_frame_returns:
  fixes n :: "('s, 'o, 'c, 'k, 'f) node"
  assumes inv: "journaled jcfg hist dur n d" and small: "length hist + 2 < 2 ^ 64"
    and pl: "length payload \<le> unat MAX_PAYLOAD_LEN"
    and room: "28 + (FRAME_HEADER_LEN + length payload + 4) \<le> jc_segment_bytes jcfg"
  shows "\<exists>f n' d'. sequence_frame (env_of now) t kind payload n d = (Ok f, n', d') \<and> snaps_of hist (jc_dir jcfg) d'"
proof -
  let ?n1 = "n\<lparr>n_clock := snd (now (n_clock n))\<rparr>"
  have "journaled jcfg hist dur ?n1 d" using inv journaled_cong(1) [of ?n1 n] by simp
  from sequence_at_returns [OF this small pl room, of t kind "fst (now (n_clock n))"] obtain f n' d' where
    "sequence_at S t kind payload (fst (now (n_clock n))) ?n1 d = (Ok f, n', d')" "untouched (jc_dir jcfg) d d'" by blast
  moreover have "snaps_of hist (jc_dir jcfg) d" using inv by (simp add: journaled_def)
  ultimately show ?thesis using snaps_of_untouched by (auto simp: sequence_frame_def read_clock_def split_beta)
qed

lemma prune_compact_returns:
  assumes inv: "journaled jcfg hist dur n d"
  shows "\<exists>r d'. prune_keep_newest S (jc_dir jcfg) keep d = (Ok r, d') \<and>
    (case r of None \<Rightarrow> True | Some s \<Rightarrow> \<exists>c d''. compact_below S (saturating_pred s) (n_journal n) d' = (Ok c, d''))"
proof -
  have "snaps_of hist (jc_dir jcfg) d" using inv by (simp add: journaled_def)
  from snap_names [OF this] obtain A where "snap_files (jc_dir jcfg) d = snap_path (jc_dir jcfg) ` A" by blast
  from prune_returns [OF journaled_ok [OF inv] this, of keep] obtain r d' where
    p: "prune_keep_newest S (jc_dir jcfg) keep d = (Ok r, d')" by blast
  have "\<exists>c d''. compact_below S (saturating_pred s) (n_journal n) d' = (Ok c, d'')" if "r = Some s" for s
  proof -
    from prune_journaled [OF inv p] that have j: "journaled jcfg hist dur n d'" "0 < s" by auto
    then obtain k where "jrepr (drop k hist) (dur - k) (n_journal n) d'" by (auto simp: journaled_def backed_def)
    moreover have "saturating_pred s \<noteq> -1" using j(2) by (auto simp: saturating_pred_def)
    ultimately show ?thesis using compact_jrepr by blast
  qed
  with p show ?thesis by (auto split: option.split)
qed

lemma mark_payload: "length (encode_to_vec enc_int (s :: u64)) = 8"
  by (simp add: encode_to_vec_def enc_int_def)

lemma maybe_snapshot_returns:
  fixes n :: "('s, 'o, 'c, 'k, 'f) node"
  assumes inv: "journaled jcfg hist dur n d" and small: "length hist + 2 < 2 ^ 64" and s: "unat s = length hist" "0 < s"
    and fresh: "snaps_of (butlast hist) (jc_dir jcfg) d" and state: "replay hist = Ok (n_service n, n_timers n)"
    and room: "28 + (FRAME_HEADER_LEN + 8 + 4) \<le> jc_segment_bytes jcfg"
  shows "\<exists>n' d'. maybe_snapshot (env_of now) t s n d = (Ok (), n', d')"
proof (cases "n_snapshot_every n = None \<or> s mod max (the (n_snapshot_every n)) 1 \<noteq> 0")
  case True
  then show ?thesis by (cases "n_snapshot_every n") (simp_all add: maybe_snapshot_def)
next
  case False
  let ?dir = "jc_dir jcfg" and ?sw = "(n_service n, n_timers n)"
  have dir: "jc_dir (n_journal_config n) = ?dir" using inv by (simp add: journaled_def)
  have "length hist \<noteq> 0" using s by (auto simp: word_less_nat_alt)
  then have "content d (snap_path ?dir s) = None" using s by (intro snap_fresh [OF fresh]) simp
  from snap_write_ok [OF journaled_ok [OF inv] this, of 0 "snap_payload ?sw"] obtain d1 where
    w: "snap_write S ?dir s 0 (snap_payload ?sw) d = (Ok (), d1)" by blast
  have j1: "journaled jcfg hist dur n d1"
    using snapshot_journaled [OF inv s(2) _ _ w] s(1) state by simp
  from sequence_frame_returns [OF j1 small _ room [folded mark_payload [of s]], of now t SnapshotMark] obtain m n2 d2 where
    sq: "sequence_frame (env_of now) t SnapshotMark (encode_to_vec enc_int s) n d1 = (Ok m, n2, d2)"
    by (auto simp: mark_payload MAX_PAYLOAD_LEN_def)
  have "Journaled jcfg hist dur n d1" using j1 by (simp add: Journaled_def)
  from sequence_frame_journaled(1) [OF this sq] small have j2: "journaled jcfg (hist @ [m]) dur n2 d2" by (simp add: Journaled_def)
  from prune_compact_returns [OF j2, of "n_retain_snapshots n2"] obtain r d3 where
    "prune_keep_newest S ?dir (n_retain_snapshots n2) d2 = (Ok r, d3)"
    "case r of None \<Rightarrow> True | Some s \<Rightarrow> \<exists>c d''. compact_below S (saturating_pred s) (n_journal n2) d3 = (Ok c, d'')" by blast
  then show ?thesis
    using False w sq dir by (auto simp: maybe_snapshot_def Let_def snap_payload_def split: option.splits)
qed

text \<open>The frame that was just sequenced, once its effect is in memory, is finished without an error.\<close>

lemma finish_frame_returns:
  fixes n :: "('s, 'o, 'c, 'k, 'f) node"
  assumes "journaled jcfg (hist @ [f]) dur n d" and "length hist + 3 < 2 ^ 64" and "unat (f_seq f) = length (hist @ [f])" "0 < f_seq f"
    and "snaps_of hist (jc_dir jcfg) d" and "replay (hist @ [f]) = Ok (n_service n, n_timers n)"
    and "28 + (FRAME_HEADER_LEN + 8 + 4) \<le> jc_segment_bytes jcfg"
  shows "\<exists>n' d'. maybe_snapshot (env_of now) t (f_seq f) (n\<lparr>n_bus := b\<rparr>) d = (Ok (), n', d')"
    and "\<exists>rel n' d'. finish_frame (env_of now) t f outs n d = (Ok rel, n', d')"
proof -
  have r: "\<exists>n' d'. maybe_snapshot (env_of now) t (f_seq f) (n\<lparr>n_bus := b\<rparr>) d = (Ok (), n', d')" for b
    by (rule maybe_snapshot_returns [of jcfg "hist @ [f]" dur])
      (use assms journaled_cong(1) [of "n\<lparr>n_bus := b\<rparr>" n] in simp_all)
  then show "\<exists>n' d'. maybe_snapshot (env_of now) t (f_seq f) (n\<lparr>n_bus := b\<rparr>) d = (Ok (), n', d')" .
  from r [of "bus_publish f (n_bus n)"] show "\<exists>rel n' d'. finish_frame (env_of now) t f outs n d = (Ok rel, n', d')"
    by (auto simp: finish_frame_def Let_def split_beta split: option.split)
qed

lemma fire_due_timers_none:
  "n_timers n = wheel_new \<Longrightarrow> fire_due_timers E t rel n d = Some (Ok rel, n, d)"
  by (subst fire_due_timers.simps) (simp add: pop_due_def wheel_new_def bt_first_def)

lemma marks_kept:
  assumes "Live jcfg (hist @ fs @ gs) dur n d" and "marks gs" and "length (hist @ fs @ gs) + 1 < 2 ^ 64" and "replay (hist @ fs) = Ok sw"
  shows "n_timers n = snd sw"
  using assms replay_frames_append [of SV "hist @ fs" gs] by (auto simp: Live_def applied_def replay_frames_marks)

lemma submit_quiet:
  fixes n :: "('s, 'o, 'c, 'k, 'f) node"
  assumes inv: "Live jcfg hist dur n d" and small: "length hist + 3 < 2 ^ 64" and i: "vi i" and quiet: "quiet i (n_service n)"
    and wheel: "n_timers n = wheel_new"
    and pl: "length (encode_to_vec (sv_enc_input SV) i) \<le> unat MAX_PAYLOAD_LEN"
    and room: "28 + (FRAME_HEADER_LEN + length (encode_to_vec (sv_enc_input SV) i) + 4) \<le> jc_segment_bytes jcfg"
    and mark: "28 + (FRAME_HEADER_LEN + 8 + 4) \<le> jc_segment_bytes jcfg"
  shows "\<exists>rel n' d' f fs. submit (env_of now) t i n d = Some (Ok (seq_next (n_seq n), rel), n', d') \<and>
    Live jcfg (hist @ f # fs) dur n' d' \<and> published (f # fs) n n' \<and> f_kind f = Input \<and>
    f_payload f = encode_to_vec (sv_enc_input SV) i \<and> marks fs \<and> n_timers n' = wheel_new"
proof -
  let ?pl = "encode_to_vec (sv_enc_input SV) i"
  have j: "journaled jcfg hist dur n d" "replay hist = Ok (n_service n, n_timers n)"
    using inv small by (simp_all add: Live_def applied_def)
  from sequence_frame_returns [OF j(1) _ pl room, of now t Input] small obtain f n2 d2 where
    sf: "sequence_frame (env_of now) t Input ?pl n d = (Ok f, n2, d2)" and snaps: "snaps_of hist (jc_dir jcfg) d2" by auto
  from sf obtain at n1 where sq: "sequence_at S t Input ?pl at n1 d = (Ok f, n2, d2)"
    and n1: "n1 = n\<lparr>n_clock := snd (now (n_clock n))\<rparr>" by (rule sequence_frame_Ok)
  have "Journaled jcfg hist dur n d" using j(1) by (simp add: Journaled_def)
  note sj = sequence_frame_journaled [OF this sf]
  obtain outs n3 where step: "run_step f (sv_apply SV (f_seq f) i) n2 = (outs, n3)" by fastforce
  note rs = run_step_replay [OF step]
  have rep: "replay_frame SV f (n_service n, n_timers n) = Ok (replay_step f (sv_apply SV (f_seq f) i) (n_service n, n_timers n1))"
    using input_roundtrip [OF i] sj(2,3) by (simp add: replay_frame_def n1)
  then have state: "replay (hist @ [f]) = Ok (n_service n3, n_timers n3)"
    using j(2) rs(7) sj(5,6) by (simp add: replay_frames_append n1)
  have "c_timers (snd (sv_apply SV (f_seq f) i (n_service n2) (ctx_new (f_seq f) (f_timestamp f)))) = []"
    using quiet sj(5) by (simp add: quiet_def ctx_new_def)
  then have w3: "n_timers n3 = wheel_new"
    using step sj(6) wheel by (auto simp: run_step_def fold_timers_def split_beta)
  have j3: "journaled jcfg (hist @ [f]) dur n3 d2"
    using sj(1) small journaled_cong(1) [of n3 n2] rs(1-4) by (simp add: Journaled_def)
  have sq3: "unat (f_seq f) = length (hist @ [f])" "0 < f_seq f"
    using Live_next_seq [OF inv, of f] sj(7) small by simp_all
  from finish_frame_returns(2) [OF j3 small sq3 snaps state mark] obtain rel n4 d4 where
    fin: "finish_frame (env_of now) t f outs n3 d2 = (Ok rel, n4, d4)" by blast
  from data_frame_live [OF inv _ _ _ _ _ _ sq step rep fin] obtain fs where
    fs: "Live jcfg (hist @ f # fs) dur n4 d4" "published (f # fs) n n4" "marks fs" by (auto simp: n1)
  have w4: "n_timers n4 = wheel_new"
    using marks_kept [of jcfg hist "[f]" fs dur n4 d4 "(n_service n3, n_timers n3)"] fs state small w3 by (simp add: marks_def)
  have "submit (env_of now) t i n d = Some (Ok (seq_next (n_seq n), rel), n4, d4)"
    using sf step fin sj(7) fire_due_timers_none [OF w4, of "env_of now" t rel d4] by (simp add: submit_def after_step_def)
  with fs w4 sj(2,3) show ?thesis by blast
qed

lemma tick_quiet:
  fixes n :: "('s, 'o, 'c, 'k, 'f) node"
  assumes inv: "Live jcfg hist dur n d" and small: "length hist + 3 < 2 ^ 64" and wheel: "n_timers n = wheel_new"
    and mark: "28 + (FRAME_HEADER_LEN + 8 + 4) \<le> jc_segment_bytes jcfg"
  shows "\<exists>n' d' f fs. node_tick (env_of now) t n d = Some (Ok (seq_next (n_seq n)), n', d') \<and>
    Live jcfg (hist @ f # fs) dur n' d' \<and> f_kind f = Tick \<and> marks fs \<and> n_timers n' = wheel_new"
proof -
  have j: "journaled jcfg hist dur n d" "replay hist = Ok (n_service n, n_timers n)"
    using inv small by (simp_all add: Live_def applied_def)
  from sequence_frame_returns [OF j(1), of "[]" now t Tick] small mark obtain f n2 d2 where
    sf: "sequence_frame (env_of now) t Tick [] n d = (Ok f, n2, d2)" and snaps: "snaps_of hist (jc_dir jcfg) d2" by auto
  have "Journaled jcfg hist dur n d" using j(1) by (simp add: Journaled_def)
  note sj = sequence_frame_journaled [OF this sf]
  have j2: "journaled jcfg (hist @ [f]) dur n2 d2" using sj(1) small by (simp add: Journaled_def)
  have state: "replay (hist @ [f]) = Ok (n_service n2, n_timers n2)"
    using j(2) sj(2,5,6) by (simp add: replay_frames_append replay_frame_def)
  have sq: "unat (f_seq f) = length (hist @ [f])" "0 < f_seq f"
    using Live_next_seq [OF inv, of f] sj(7) small by simp_all
  from finish_frame_returns(1) [OF j2 small sq snaps state mark] obtain n3 d3 where
    snap: "maybe_snapshot (env_of now) t (f_seq f) (n2\<lparr>n_bus := bus_publish f (n_bus n2)\<rparr>) d2 = (Ok (), n3, d3)" by blast
  from control_frame_live [OF inv sf _ _ snap] obtain fs where
    fs: "Live jcfg (hist @ f # fs) dur n3 d3" "marks fs" by auto
  let ?n' = "node_note_self (f_seq f) n3"
  have live: "Live jcfg (hist @ f # fs) dur ?n' d3" using fs(1) by (simp add: note_self_live)
  then have w: "n_timers ?n' = wheel_new"
    using marks_kept [of jcfg hist "[f]" fs dur ?n' d3 "(n_service n2, n_timers n2)"] fs(2) state small wheel sj(6) by (simp add: marks_def)
  have "node_tick (env_of now) t n d = Some (Ok (seq_next (n_seq n)), ?n', d3)"
    using sf snap sj(7) fire_due_timers_none [OF w, of "env_of now" t "[]" d3] by (simp add: node_tick_def Let_def)
  with live fs(2) w sj(2) show ?thesis by blast
qed

text \<open>The payload of a fence: the epoch, the first number of the epoch and the schema version.\<close>

abbreviation fence_payload :: "u64 \<Rightarrow> ('s, 'o, 'c, 'k, 'f) node \<Rightarrow> bytes" where
  "fence_payload ep n \<equiv> encode_to_vec (enc_pair enc_int (enc_pair enc_int enc_int)) (ep, seq_next (n_seq n), sv_schema_version SV)"

lemma fence_quiet:
  fixes n :: "('s, 'o, 'c, 'k, 'f) node"
  assumes inv: "Live jcfg hist dur n d" and small: "length hist + 3 < 2 ^ 64"
    and room: "28 + (FRAME_HEADER_LEN + 20 + 4) \<le> jc_segment_bytes jcfg"
  shows "\<exists>n' d' f fs. node_fence (env_of now) t ep n d = (Ok (seq_next (n_seq n)), n', d') \<and>
    Live jcfg (hist @ f # fs) dur n' d' \<and> published (f # fs) n n' \<and> f_kind f = EpochChange \<and> f_seq f = seq_next (n_seq n) \<and>
    f_payload f = fence_payload ep n \<and> marks fs"
proof -
  have j: "journaled jcfg hist dur n d" "replay hist = Ok (n_service n, n_timers n)"
    using inv small by (simp_all add: Live_def applied_def)
  have len: "length (fence_payload ep n) = 20" by (simp add: encode_to_vec_def enc_pair_def enc_int_def)
  from sequence_frame_returns [OF j(1), of "fence_payload ep n" now t EpochChange] small room obtain f n2 d2 where
    sf: "sequence_frame (env_of now) t EpochChange (fence_payload ep n) n d = (Ok f, n2, d2)" and snaps: "snaps_of hist (jc_dir jcfg) d2"
    by (auto simp: len MAX_PAYLOAD_LEN_def)
  have "Journaled jcfg hist dur n d" using j(1) by (simp add: Journaled_def)
  note sj = sequence_frame_journaled [OF this sf]
  have j2: "journaled jcfg (hist @ [f]) dur n2 d2" using sj(1) small by (simp add: Journaled_def)
  have state: "replay (hist @ [f]) = Ok (n_service n2, n_timers n2)"
    using j(2) sj(2,5,6) by (simp add: replay_frames_append replay_frame_def)
  have sq: "unat (f_seq f) = length (hist @ [f])" "0 < f_seq f"
    using Live_next_seq [OF inv, of f] sj(7) small by simp_all
  have mark: "28 + (FRAME_HEADER_LEN + 8 + 4) \<le> jc_segment_bytes jcfg" using room by simp
  from finish_frame_returns(1) [OF j2 small sq snaps state mark] obtain n3 d3 where
    snap: "maybe_snapshot (env_of now) t (f_seq f) (n2\<lparr>n_bus := bus_publish f (n_bus n2)\<rparr>) d2 = (Ok (), n3, d3)" by blast
  from control_frame_live [OF inv sf _ _ snap] obtain fs where
    fs: "Live jcfg (hist @ f # fs) dur n3 d3" "published (f # fs) n n3" "marks fs" by auto
  let ?n' = "node_note_self (f_seq f) n3"
  have "Live jcfg (hist @ f # fs) dur ?n' d3" "published (f # fs) n ?n'" using fs(1,2) by (simp_all add: note_self_live published_def)
  moreover have "node_fence (env_of now) t ep n d = (Ok (seq_next (n_seq n)), ?n', d3)"
    using sf snap sj(7) by (simp add: node_fence_def Let_def)
  ultimately show ?thesis using fs(3) sj(2,3,7) by blast
qed

end

end
