(* ===== verification/Node_Props.thy ===== *)
theory Node_Props
  imports Services Node_Progress
begin

text \<open>
  What the node guarantees on the simulated disk, for every service that satisfies
  \<open>service_laws\<close>. \<open>node_run\<close> is the reachable states of a node that one subscriber follows: any
  interleaving of inputs, ticks, fences, acknowledgements, syncs, changes of the clock, and
  power losses with recovery, under any snapshot and compaction policy. \<open>observed\<close> is what the
  subscriber got; the ghost \<open>base\<close> is the history before the last restart and \<open>dur\<close> the number of
  frames that the node may rely on to survive a power loss.
\<close>

section \<open>Reachable states\<close>

definition observed :: "('s, 'o, 'c, 'k, 'f) node \<Rightarrow> frame list" where
  "observed n = (if n_bus n = [] then [] else snd (hd (n_bus n)))"

definition node_subscribe :: "('s, 'o, 'c, 'k, 'f) node \<Rightarrow> ('s, 'o, 'c, 'k, 'f) node" where
  "node_subscribe n = n\<lparr>n_bus := bus_subscribe (n_bus n)\<rparr>"

abbreviation sim_env :: "('s, 'i, 'o, 'p, 'c) service \<Rightarrow> ('k \<Rightarrow> timestamp \<times> 'k) \<Rightarrow>
    ('s, 'i, 'o, 'p, 'c, 'k, sim_disk, sim_file) env" where
  "sim_env SV now \<equiv> \<lparr>e_storage = sim_storage, e_service = SV, e_now = now\<rparr>"

definition durable :: "nat \<Rightarrow> frame list \<Rightarrow> ('s, 'o, 'c, 'k, 'f) node \<Rightarrow> nat" where
  "durable dur hist n = (if j_dirty (n_journal n) then dur else length hist)"

inductive node_run ::
  "('s, 'i, 'o, 'p, 'c) service \<Rightarrow> 'c \<Rightarrow> ('i \<Rightarrow> bool) \<Rightarrow> ('s \<Rightarrow> bool) \<Rightarrow> node_config \<Rightarrow> ('k \<Rightarrow> timestamp \<times> 'k) \<Rightarrow>
     ('s, 'o, 'c, 'k, sim_file) node \<Rightarrow> sim_disk \<Rightarrow> frame list \<Rightarrow> nat \<Rightarrow> bool"
  for SV scfg vi sz cfg now
where
  run_open: "node_open_with (sim_env SV now) t cfg scfg clock sim_new = (Ok n, d) \<Longrightarrow>
    node_run SV scfg vi sz cfg now (node_subscribe n) d [] 0"
| run_submit: "node_run SV scfg vi sz cfg now n d base dur \<Longrightarrow> vi i \<Longrightarrow>
    submit (sim_env SV now) t i n d = Some (Ok r, n', d') \<Longrightarrow> length (base @ observed n') + 1 < 2 ^ 64 \<Longrightarrow>
    node_run SV scfg vi sz cfg now n' d' base (durable dur (base @ observed n') n')"
| run_tick: "node_run SV scfg vi sz cfg now n d base dur \<Longrightarrow>
    node_tick (sim_env SV now) t n d = Some (Ok s, n', d') \<Longrightarrow> length (base @ observed n') + 1 < 2 ^ 64 \<Longrightarrow>
    node_run SV scfg vi sz cfg now n' d' base (durable dur (base @ observed n') n')"
| run_fence: "node_run SV scfg vi sz cfg now n d base dur \<Longrightarrow>
    node_fence (sim_env SV now) t ep n d = (Ok s, n', d') \<Longrightarrow> length (base @ observed n') + 1 < 2 ^ 64 \<Longrightarrow>
    node_run SV scfg vi sz cfg now n' d' base (durable dur (base @ observed n') n')"
| run_ack: "node_run SV scfg vi sz cfg now n d base dur \<Longrightarrow> node_record_ack rep s n = (rel, n') \<Longrightarrow>
    node_run SV scfg vi sz cfg now n' d base dur"
| run_sync: "node_run SV scfg vi sz cfg now n d base dur \<Longrightarrow> node_sync sim_storage t n d = (Ok (), n', d') \<Longrightarrow>
    node_run SV scfg vi sz cfg now n' d' base (length (base @ observed n))"
| run_clock: "node_run SV scfg vi sz cfg now n d base dur \<Longrightarrow> node_run SV scfg vi sz cfg now (n\<lparr>n_clock := k\<rparr>) d base dur"
| run_crash: "node_run SV scfg vi sz cfg now n d base dur \<Longrightarrow> service_laws.sizes_ok SV scfg sz (base @ observed n) \<Longrightarrow>
    node_open_with (sim_env SV now) t cfg scfg clock (fst (sim_crash flip r d)) = (Ok n', d') \<Longrightarrow>
    node_run SV scfg vi sz cfg now (node_subscribe n') d' (take (unat (n_seq n')) (base @ observed n)) (unat (n_seq n'))"

text \<open>A small configuration, and the clock \<open>ManualClock\<close>, which stands still unless it is set.\<close>

definition demo_cfg :: node_config where
  "demo_cfg = node_config_new ''j''"

definition manual_now :: "u64 \<Rightarrow> timestamp \<times> u64" where
  "manual_now k = (k, k)"

locale simulated = service_laws SV scfg vi vs sz
  for SV :: "('s, 'i, 'o, 'p, 'c) service" and scfg vi vs sz

sublocale simulated \<subseteq> hosted sim_storage sim_ok sim_content sim_stable sim_live sim_power_loss SV scfg vi vs sz
  by (intro hosted.intro simc.crashing_storage_axioms service_laws_axioms)

context simulated
begin

definition run_inv :: "node_config \<Rightarrow> frame list \<Rightarrow> nat \<Rightarrow> ('s, 'o, 'c, 'k, sim_file) node \<Rightarrow> sim_disk \<Rightarrow> bool" where
  "run_inv cfg base dur n d \<longleftrightarrow> n_bus n = [(True, observed n)] \<and> length (base @ observed n) + 1 < 2 ^ 64 \<and>
     Live (nc_journal cfg) (base @ observed n) dur n d"

lemma published_observed:
  assumes "published fs n n'" and "n_bus n = [(True, observed n)]"
  shows "n_bus n' = [(True, observed n')]" and "observed n' = observed n @ fs"
proof -
  have pub: "fold bus_publish fs [(True, xs)] = [(True, xs @ fs)]" for xs
    by (induction fs arbitrary: xs) (simp_all add: bus_publish_def)
  with assms have "n_bus n' = [(True, observed n @ fs)]" by (metis published_def)
  then show "n_bus n' = [(True, observed n')]" and "observed n' = observed n @ fs" by (simp_all add: observed_def)
qed

lemma run_inv_step:
  assumes "run_inv cfg base dur n d" and "\<exists>fs. Live (nc_journal cfg) ((base @ observed n) @ fs) dur n' d' \<and> published fs n n'"
    and "length (base @ observed n') + 1 < 2 ^ 64"
  shows "run_inv cfg base (durable dur (base @ observed n') n') n' d'"
proof -
  from assms(2) obtain fs where fs: "Live (nc_journal cfg) ((base @ observed n) @ fs) dur n' d'" "published fs n n'" by blast
  note o = published_observed [OF fs(2)]
  have "Live (nc_journal cfg) (base @ observed n') dur n' d'" using fs(1) o assms(1) by (simp add: run_inv_def)
  with assms(1,3) o Live_clean [OF this] show ?thesis by (simp add: run_inv_def durable_def)
qed

text \<open>On an empty disk the node opens with the genesis state.\<close>

lemma open_fresh:
  fixes now :: "'k \<Rightarrow> timestamp \<times> 'k"
  shows "\<exists>(n :: ('s, 'o, 'c, 'k, sim_file) node) d. node_open_with (env_of now) t cfg scfg clock sim_new = (Ok n, d) \<and>
    Live (nc_journal cfg) [] 0 n d \<and> n_bus n = [] \<and> n_timers n = wheel_new \<and> n_snapshot_every n = nc_snapshot_every cfg \<and>
    n_service n = sv_genesis SV scfg"
proof -
  let ?dir = "jc_dir (nc_journal cfg)"
  from open_empty_jrepr [of sim_new "nc_journal cfg" t] sim_new_empty obtain rec d1 where
    r: "journal_open_with sim_storage t (nc_journal cfg) sim_new = (Ok rec, d1)" "re_frames rec = []"
      "jrepr [] 0 (re_journal rec) d1" "j_config (re_journal rec) = nc_journal cfg" "untouched ?dir sim_new d1"
      "j_last_seq (re_journal rec) = 0" "re_first_seq rec = 1" by auto
  have "snap_files ?dir sim_new = {}" by (simp add: snap_files_def sim_content_def sim_new_def)
  then have none: "snap_files ?dir d1 = snap_path ?dir ` {}" using untouched_snap_files(1) [OF r(5)] by simp
  from snap_listing [OF jrepr_ok [OF r(3)] none] have ls: "list_snaps sim_storage ?dir d1 = Ok []" by auto
  from purge_noop [OF jrepr_ok [OF r(3)] none, of 0] obtain d2 where
    d2: "purge_after sim_storage ?dir 0 d1 = (Ok (), d2)" "seg_same ?dir d1 d2" "sim_content d2 = sim_content d1"
    by auto
  have "\<exists>n' :: ('s, 'o, 'c, 'k, sim_file) node. node_open_with (env_of now) t cfg scfg clock sim_new = (Ok n', d2) \<and> n_service n' = sv_genesis SV scfg \<and>
      n_timers n' = wheel_new \<and> n_journal n' = re_journal rec \<and> n_journal_config n' = nc_journal cfg \<and>
      n_service_config n' = scfg \<and> n_seq n' = max (j_last_seq (re_journal rec)) 0 \<and> n_bus n' = [] \<and> n_clock n' = clock \<and>
      n_snapshot_every n' = nc_snapshot_every cfg"
    by (rule node_open_Ok [OF r(1), where hw = 0 and snaps = "[]" and anchor = None and ?d2.0 = d2])
      (use ls d2(1) r in \<open>simp_all add: high_water_seq_def load_candidates_def List.map_filter_def GENESIS_def\<close>)
  then obtain n :: "('s, 'o, 'c, 'k, sim_file) node" where
    n: "node_open_with (env_of now) t cfg scfg clock sim_new = (Ok n, d2)" "n_service n = sv_genesis SV scfg"
      "n_timers n = wheel_new" "n_journal n = re_journal rec" "n_journal_config n = nc_journal cfg"
      "n_service_config n = scfg" "n_seq n = 0" "n_bus n = []" "n_snapshot_every n = nc_snapshot_every cfg"
    using r(6) by auto
  have "jrepr [] 0 (re_journal rec) d2" by (rule jrepr_seg_same [OF r(3)]) (simp add: r(4) d2(2))
  moreover have "snap_files ?dir d2 = {}" using none d2(3) by (simp add: snap_files_def)
  ultimately show ?thesis
    using n r(4,6) by (intro exI [of _ n] exI [of _ d2]) (simp add: Live_def journaled_def applied_def backed_def snaps_of_def)
qed

lemma node_run_inv:
  assumes "node_run SV scfg vi sz cfg now n d base dur"
  shows "run_inv cfg base dur n d"
  using assms
proof (induction rule: node_run.induct)
  case (run_open t clock n d)
  with open_fresh [of now t cfg clock] have "Live (nc_journal cfg) [] 0 n d \<and> n_bus n = []" by auto
  then show ?case
    using journaled_cong(1) [of "node_subscribe n" n]
    by (simp add: run_inv_def node_subscribe_def observed_def bus_subscribe_def Live_def applied_def)
next
  case (run_submit n d base dur i t r n' d')
  then obtain s rel where "submit (env_of now) t i n d = Some (Ok (s, rel), n', d')" by (cases r) auto
  with run_submit have "\<exists>fs. Live (nc_journal cfg) ((base @ observed n) @ fs) dur n' d' \<and> published fs n n'"
    using submit_live [of "nc_journal cfg" "base @ observed n" dur n d i now t s rel n' d'] unfolding run_inv_def by blast
  with run_submit show ?case by (intro run_inv_step)
next
  case (run_tick n d base dur t s n' d')
  then show ?case by (intro run_inv_step [OF run_tick.IH tick_live]) (auto simp: run_inv_def)
next
  case (run_fence n d base dur t ep s n' d')
  then show ?case by (intro run_inv_step [OF run_fence.IH fence_live]) (auto simp: run_inv_def)
next
  case (run_ack n d base dur rep s rel n')
  then show ?case
    using record_ack_live [of "nc_journal cfg" "base @ observed n" dur n d rep s rel n'] published_observed [of "[]" n n']
    by (simp add: run_inv_def)
next
  case (run_sync n d base dur t n' d')
  then show ?case
    using node_sync_live [of "nc_journal cfg" "base @ observed n" dur n d t n' d'] published_observed [of "[]" n n']
    by (simp add: run_inv_def)
next
  case (run_clock n d base dur k)
  moreover have "observed (n\<lparr>n_clock := k\<rparr>) = observed n" by (simp add: observed_def)
  ultimately show ?case
    using journaled_cong(1) [of "n\<lparr>n_clock := k\<rparr>" n] by (simp add: run_inv_def Live_def applied_def)
next
  case (run_crash n d base dur t clock flip r n' d')
  define hist where "hist = base @ observed n"
  from run_crash.IH have j: "journaled (nc_journal cfg) hist dur n d" "\<exists>sw. replay hist = Ok sw"
    and small: "length hist + 1 < 2 ^ 64"
    by (simp_all add: run_inv_def Live_def applied_def hist_def)
  from node_recovery [OF j(1) run_crash.hyps(2) [folded hist_def] j(2) sim_power_loss_crash refl, of now t clock flip r]
    run_crash.hyps(3)
  obtain m where m: "m \<le> length hist" "Live (nc_journal cfg) (take m hist) m n' d'" "n_bus n' = []" by auto
  have "n_seq n' = of_nat m" using m small by (simp add: Live_def journaled_def)
  then have "unat (n_seq n') = m" using unat_of_nat_hist [of m] m(1) small by simp
  with m small show ?case
    using journaled_cong(1) [of "node_subscribe n'" n'] unfolding hist_def [symmetric]
    by (simp add: run_inv_def node_subscribe_def observed_def bus_subscribe_def Live_def applied_def)
qed

lemma run_crash_safe:
  assumes "node_run SV scfg vi sz cfg now n d base dur" and "sizes_ok (base @ observed n)"
  shows "\<exists>n' d' m. node_open_with (env_of now) t cfg scfg clock (fst (sim_crash flip r d)) = (Ok n', d') \<and>
    dur \<le> m \<and> m \<le> length (base @ observed n) \<and> n_seq n' = of_nat m \<and>
    replay (take m (base @ observed n)) = Ok (n_service n', n_timers n')"
proof -
  define hist where "hist = base @ observed n"
  have j: "journaled (nc_journal cfg) hist dur n d" "\<exists>sw. replay hist = Ok sw" and small: "length hist + 1 < 2 ^ 64"
    using node_run_inv [OF assms(1)] by (simp_all add: run_inv_def Live_def applied_def hist_def)
  from node_recovery [OF j(1) assms(2) [folded hist_def] j(2) sim_power_loss_crash refl, of now t clock flip r]
  obtain n' d' m where m: "node_open_with (env_of now) t cfg scfg clock (fst (sim_crash flip r d)) = (Ok n', d')"
      "dur \<le> m" "m \<le> length hist" "Live (nc_journal cfg) (take m hist) m n' d'" by blast
  then have "n_seq n' = of_nat m \<and> replay (take m hist) = Ok (n_service n', n_timers n')"
    using small by (simp add: Live_def journaled_def applied_def)
  with m show ?thesis unfolding hist_def by blast
qed

lemma run_is_replay:
  assumes "node_run SV scfg vi sz cfg now n d base dur"
  shows "contiguous_from 1 (base @ observed n) \<and> n_seq n = of_nat (length (base @ observed n)) \<and>
    replay (base @ observed n) = Ok (n_service n, n_timers n) \<and> vs (n_service n)"
proof -
  define hist where "hist = base @ observed n"
  have l: "Live (nc_journal cfg) hist dur n d" "length hist + 1 < 2 ^ 64"
    using node_run_inv [OF assms] by (simp_all add: run_inv_def hist_def)
  then have "replay hist = Ok (n_service n, n_timers n)" by (simp add: Live_def applied_def)
  with replay_ok [OF this] l show ?thesis unfolding hist_def [symmetric] by (simp add: Live_def journaled_def)
qed

lemma run_verifies:
  assumes "node_run SV scfg vi sz cfg now n d base dur"
    and "journal_open_with sim_storage t0 (nc_journal cfg) d = (Ok rec, d0)" and "re_first_seq rec = 1"
  shows "\<exists>n' d'. verify_replay (env_of now) t n d = (Ok True, n', d')"
proof -
  have "journaled (nc_journal cfg) (base @ observed n) dur n d" "applied (base @ observed n) n"
    using node_run_inv [OF assms(1)] by (simp_all add: run_inv_def Live_def)
  from verify_replay_holds [OF this assms(2,3)] show ?thesis .
qed

lemma run_submits:
  assumes run: "node_run SV scfg vi sz cfg now n d base dur" and quiet: "quiet i (n_service n)"
    and "n_snapshot_every n = None" and "n_timers n = wheel_new" and "length (base @ observed n) + 2 < 2 ^ 64"
    and "length (encode_to_vec (sv_enc_input SV) i) \<le> unat MAX_PAYLOAD_LEN"
    and "28 + (FRAME_HEADER_LEN + length (encode_to_vec (sv_enc_input SV) i) + 4) \<le> jc_segment_bytes (nc_journal cfg)"
  shows "\<exists>rel n' d' f. submit (env_of now) t i n d = Some (Ok (seq_next (n_seq n), rel), n', d') \<and>
    n_snapshot_every n' = None \<and> n_timers n' = wheel_new \<and> observed n' = observed n @ [f]"
proof -
  have inv: "run_inv cfg base dur n d" by (rule node_run_inv [OF run])
  then have "journaled (nc_journal cfg) (base @ observed n) dur n d"
    by (simp add: run_inv_def Live_def)
  from submit_returns [OF this assms(5) quiet assms(3,4,6,7), of now t] obtain rel n' d' f where
    "submit (env_of now) t i n d = Some (Ok (seq_next (n_seq n), rel), n', d')" "n_snapshot_every n' = None"
      "n_timers n' = wheel_new" "published [f] n n'" by blast
  with published_observed(2) [of "[f]" n n'] inv show ?thesis unfolding run_inv_def by blast
qed

lemma run_submits_any:
  assumes run: "node_run SV scfg vi sz cfg now n d base dur" and i: "vi i" and quiet: "quiet i (n_service n)"
    and "n_timers n = wheel_new" and "length (base @ observed n) + 3 < 2 ^ 64"
    and "length (encode_to_vec (sv_enc_input SV) i) \<le> unat MAX_PAYLOAD_LEN"
    and "28 + (FRAME_HEADER_LEN + length (encode_to_vec (sv_enc_input SV) i) + 4) \<le> jc_segment_bytes (nc_journal cfg)"
    and "28 + (FRAME_HEADER_LEN + 8 + 4) \<le> jc_segment_bytes (nc_journal cfg)"
  shows "\<exists>rel n' d' f fs. submit (env_of now) t i n d = Some (Ok (seq_next (n_seq n), rel), n', d') \<and>
    n_timers n' = wheel_new \<and> observed n' = observed n @ f # fs \<and> f_kind f = Input \<and>
    f_payload f = encode_to_vec (sv_enc_input SV) i \<and> marks fs"
proof -
  have inv: "run_inv cfg base dur n d" by (rule node_run_inv [OF run])
  then have "Live (nc_journal cfg) (base @ observed n) dur n d" by (simp add: run_inv_def)
  from submit_quiet [OF this assms(5) i quiet assms(4,6-8), of now t] obtain rel n' d' f fs where
    "submit (env_of now) t i n d = Some (Ok (seq_next (n_seq n), rel), n', d')" "n_timers n' = wheel_new"
      "published (f # fs) n n'" "f_kind f = Input" "f_payload f = encode_to_vec (sv_enc_input SV) i" "marks fs" by blast
  with published_observed(2) [of "f # fs" n n'] inv show ?thesis unfolding run_inv_def by blast
qed

text \<open>A fresh node, after one small input that arms no timer.\<close>

lemma run_one:
  fixes i :: 'i
  assumes quiet: "quiet i (sv_genesis SV scfg)" and "vi i" and len: "length (encode_to_vec (sv_enc_input SV) i) \<le> 100"
  shows "\<exists>(n :: ('s, 'o, 'c, u64, sim_file) node) d dur. node_run SV scfg vi sz demo_cfg manual_now n d [] dur \<and>
    length (observed n) = 1 \<and> n_snapshot_every n = None \<and> n_timers n = wheel_new"
proof -
  obtain n :: "('s, 'o, 'c, u64, sim_file) node" and d where
    o: "node_open_with (env_of manual_now) 0 demo_cfg scfg 7 sim_new = (Ok n, d)"
      "n_bus n = []" "n_timers n = wheel_new" "n_snapshot_every n = None" "n_service n = sv_genesis SV scfg"
    using open_fresh [of manual_now 0 demo_cfg 7] by (auto simp: demo_cfg_def node_config_new_def)
  let ?n = "node_subscribe n"
  have run: "node_run SV scfg vi sz demo_cfg manual_now ?n d [] 0" by (rule run_open [OF o(1)])
  have n: "n_timers ?n = wheel_new" "n_snapshot_every ?n = None" "observed ?n = []" "quiet i (n_service ?n)"
    using o(2-5) quiet by (simp_all add: node_subscribe_def observed_def bus_subscribe_def)
  from run_submits [OF run n(4,2,1), of 0] obtain rel n' d' where
    s: "submit (env_of manual_now) 0 i ?n d = Some (Ok (seq_next (n_seq ?n), rel), n', d')"
      "n_snapshot_every n' = None" "n_timers n' = wheel_new" "length (observed n') = 1"
    using n(3) len by (auto simp: MAX_PAYLOAD_LEN_def FRAME_HEADER_LEN_def demo_cfg_def node_config_new_def journal_config_new_def)
  from run_submit [OF run assms(2) s(1)] s(2-4) show ?thesis by fastforce
qed

end

lemmas simulatedI = simulated.intro

section \<open>Stamps on the stream\<close>

lemma submit_stamped:
  assumes "stamped n" and "submit E t i n d = Some (Ok r, n', d')"
  shows "stamped n'"
proof -
  from assms(2) obtain f n2 d2 outs n3 rel1 n4 d4 rel pl where
    sf: "sequence_frame E t Input pl n d = (Ok f, n2, d2)"
    and step: "run_step f (sv_apply (e_service E) (f_seq f) i) n2 = (outs, n3)"
    and fin: "finish_frame E t f outs n3 d2 = (Ok rel1, n4, d4)"
    and fire: "fire_due_timers E t rel1 n4 d4 = Some (Ok rel, n', d')"
    by (auto simp: submit_def after_step_def rbind_Ok_iff split: prod.splits result.splits)
  note s2 = sequence_frame_stamped [OF assms(1) sf] and rs = run_step_fields [OF step]
  have "stamped n3" using s2(1) rs by (simp add: stamped_def)
  from finish_frame_stamped(1) [OF this _ fin] s2(2) rs(2) have "stamped n4" by simp
  then show ?thesis by (rule fire_due_timers_stamped [OF fire])
qed

lemma tick_stamped:
  assumes "stamped n" and "node_tick E t n d = Some (Ok s, n', d')"
  shows "stamped n'"
proof -
  from assms(2) obtain f n2 d2 n3 d3 r where
    sf: "sequence_frame E t Tick [] n d = (Ok f, n2, d2)"
    and snap: "maybe_snapshot E t (f_seq f) (n2\<lparr>n_bus := bus_publish f (n_bus n2)\<rparr>) d2 = (Ok (), n3, d3)"
    and fire: "fire_due_timers E t [] (node_note_self (f_seq f) n3) d3 = Some (Ok r, n', d')"
    by (auto simp: node_tick_def Let_def rbind_Ok_iff split: prod.splits result.splits)
  note s2 = sequence_frame_stamped [OF assms(1) sf]
  have "stamped n3" by (rule maybe_snapshot_stamped(1) [OF stamped_publish [OF s2(1,2)] snap])
  then have "stamped (node_note_self (f_seq f) n3)" by (simp add: stamped_def node_note_self_def)
  then show ?thesis by (rule fire_due_timers_stamped [OF fire])
qed

lemma fence_stamped:
  assumes "stamped n" and "node_fence E t ep n d = (Ok s, n', d')"
  shows "stamped n'"
proof -
  from assms(2) obtain f n2 d2 n3 pl where
    sf: "sequence_frame E t EpochChange pl n d = (Ok f, n2, d2)"
    and snap: "maybe_snapshot E t (f_seq f) (n2\<lparr>n_bus := bus_publish f (n_bus n2)\<rparr>) d2 = (Ok (), n3, d')"
    and n': "n' = node_note_self (f_seq f) n3"
    by (auto simp: node_fence_def Let_def split: prod.splits result.splits)
  note s2 = sequence_frame_stamped [OF assms(1) sf]
  have "stamped n3" by (rule maybe_snapshot_stamped(1) [OF stamped_publish [OF s2(1,2)] snap])
  then show ?thesis by (simp add: n' stamped_def node_note_self_def)
qed

lemma stamped_cong: "n_bus n' = n_bus n \<Longrightarrow> n_last_timestamp n' = n_last_timestamp n \<Longrightarrow> stamped n' = stamped n"
  by (simp add: stamped_def)

lemma open_bus: "node_open_with E t cfg scfg clock d = (Ok n, d') \<Longrightarrow> n_bus n = []"
  by (auto simp: node_open_with_def Let_def split: prod.splits result.splits if_splits)

lemma stamped_subscribe: "n_bus n = [] \<Longrightarrow> stamped (node_subscribe n)"
  by (simp add: node_subscribe_def stamped_def bus_subscribe_def)

lemma node_run_stamped: "node_run SV scfg vi sz cfg now n d base dur \<Longrightarrow> stamped n"
proof (induction rule: node_run.induct)
  case (run_ack n d base dur rep s rel n')
  then show ?case using stamped_cong [of n' n] by (auto simp: node_record_ack_def split: option.splits prod.splits)
next
  case (run_sync n d base dur t n' d')
  then show ?case using stamped_cong [of n' n] by (auto simp: node_sync_def split: prod.splits result.splits)
next
  case (run_clock n d base dur k)
  then show ?case by (simp add: stamped_def)
qed (auto intro: submit_stamped tick_stamped fence_stamped stamped_subscribe dest!: open_bus)

lemma stamped_observed: "stamped n \<Longrightarrow> sorted (map f_timestamp (observed n))"
  by (cases "n_bus n") (auto simp: stamped_def observed_def)

section \<open>The counter on a node\<close>

interpretation counters: simulated counter "()" "\<lambda>_. True" "\<lambda>_. True" "\<lambda>_. True"
  by (intro simulated.intro counterl.service_laws_axioms)

lemma counter_genesis: "sv_genesis counter c = 0"
  by (simp add: counter_def)

lemma counter_quiet: "counters.quiet i v"
  unfolding counters.quiet_def by (auto simp: counter_def counter_apply_def emit_def Let_def)

lemma counter_wheel: "replay_frames counter fs (v, wheel_new) = Ok sw \<Longrightarrow> snd sw = wheel_new"
proof (induction fs arbitrary: v)
  case (Cons f fs)
  then obtain sw1 where sw1: "replay_frame counter f (v, wheel_new) = Ok sw1" "replay_frames counter fs sw1 = Ok sw"
    by (auto simp: rbind_Ok_iff)
  have "snd sw1 = wheel_new"
    using sw1(1) by (auto simp: replay_frame_def replay_step_def counter_def counter_apply_def ignore_timer_def emit_def ctx_new_def
        fold_timers_def wheel_cancel_def wheel_new_def bt_get_def Let_def split: frame_kind.splits result.splits)
  with Cons.IH [of "fst sw1"] sw1(2) show ?case by (metis prod.collapse)
qed auto

lemma counter_sizes: "counterl.sizes_ok hist"
  unfolding counterl.sizes_ok_def
proof (intro allI impI)
  fix m sw assume "counterl.replay (take m hist) = Ok sw"
  then have "snd sw = wheel_new" by (rule counter_wheel)
  then show "True \<and> wheel_len (snd sw) < 2 ^ 32 \<and> length (counterl.snap_payload sw) < 2 ^ 32"
    unfolding counterl.snap_payload_def
    by (simp add: wheel_len_def wheel_new_def wheel_snapshot_def counter_def encode_to_vec_def
        enc_pair_def enc_vec_def enc_int_def encode_len_def)
qed

text \<open>A node with the counter, after one input.\<close>

lemma counter_run:
  "\<exists>n d dur. node_run counter () (\<lambda>_. True) (\<lambda>_. True) demo_cfg manual_now n d [] dur \<and> observed n \<noteq> [] \<and>
     n_timers n = wheel_new \<and> length (observed n) + 3 < 2 ^ 64"
proof -
  have "length (encode_to_vec (sv_enc_input counter) (Add 5)) \<le> 100"
    by (simp add: counter_def enc_cmd_def enc_enum_def enc_int_def encode_to_vec_def)
  from counters.run_one [OF counter_quiet TrueI this] show ?thesis by fastforce
qed

section \<open>Properties\<close>

text \<open>
  C1. Crash safety of the node, with any service, snapshot cadence and fsync policy: after a
  power loss at any moment between operations the node opens, and its state and its timers are
  exactly what replaying a prefix of the published history gives. The prefix holds every frame
  that was durable, and the node continues at the next sequence number.
\<close>

theorem node_crash_safe:
  assumes "service_laws SV scfg vi vs sz" and "node_run SV scfg vi sz cfg now n d base dur"
    and "service_laws.sizes_ok SV scfg sz (base @ observed n)"
  shows "\<exists>n' d' m. node_open_with (sim_env SV now) t cfg scfg clock (fst (sim_crash flip r d)) = (Ok n', d') \<and>
    dur \<le> m \<and> m \<le> length (base @ observed n) \<and> n_seq n' = of_nat m \<and>
    replay_frames SV (take m (base @ observed n)) (sv_genesis SV scfg, wheel_new) = Ok (n_service n', n_timers n')"
  by (rule simulated.run_crash_safe [OF simulatedI [OF assms(1)] assms(2,3)])

theorem node_crash_safe_witness:
  "\<exists>n d dur n' d' m. node_run counter () (\<lambda>_. True) (\<lambda>_. True) demo_cfg manual_now n d [] dur \<and> observed n \<noteq> [] \<and>
     node_open_with (sim_env counter manual_now) 1 demo_cfg () 8 (fst (sim_crash True (rng_new 3) d)) = (Ok n', d') \<and>
     dur \<le> m \<and> replay_frames counter (take m (observed n)) (0, wheel_new) = Ok (n_service n', n_timers n')"
proof -
  obtain n d dur where n: "node_run counter () (\<lambda>_. True) (\<lambda>_. True) demo_cfg manual_now n d [] dur" "observed n \<noteq> []"
    using counter_run by blast
  from node_crash_safe [OF counterl.service_laws_axioms n(1) counter_sizes, of 1 8 True "rng_new 3"] n show ?thesis
    unfolding counter_genesis append_Nil by blast
qed

text \<open>
  C3. The state is a projection of the journal: in every reachable state the live service and
  its timers are the replay, from genesis, of the frames that were published, which are numbered
  without a gap from one; the invariant of the service holds.
\<close>

theorem node_state_is_replay:
  assumes "service_laws SV scfg vi vs sz" and "node_run SV scfg vi sz cfg now n d base dur"
  shows "contiguous_from 1 (base @ observed n) \<and> n_seq n = of_nat (length (base @ observed n)) \<and>
    replay_frames SV (base @ observed n) (sv_genesis SV scfg, wheel_new) = Ok (n_service n, n_timers n) \<and> vs (n_service n)"
  by (rule simulated.run_is_replay [OF simulatedI [OF assms(1)] assms(2)])

theorem node_state_is_replay_witness:
  "\<exists>n d dur. node_run counter () (\<lambda>_. True) (\<lambda>_. True) demo_cfg manual_now n d [] dur \<and> observed n \<noteq> [] \<and>
     replay_frames counter (observed n) (0, wheel_new) = Ok (n_service n, n_timers n)"
proof -
  obtain n d dur where n: "node_run counter () (\<lambda>_. True) (\<lambda>_. True) demo_cfg manual_now n d [] dur" "observed n \<noteq> []"
    using counter_run by blast
  from node_state_is_replay [OF counterl.service_laws_axioms n(1)] n show ?thesis
    unfolding counter_genesis append_Nil by blast
qed

text \<open>
  As long as no segment was compacted away, \<open>verify_replay\<close> returns true: the check never
  reports a divergence of a node that ran as it should.
\<close>

theorem node_verify_replay:
  assumes "service_laws SV scfg vi vs sz" and "node_run SV scfg vi sz cfg now n d base dur"
    and "journal_open_with sim_storage t0 (nc_journal cfg) d = (Ok rec, d0)" and "re_first_seq rec = 1"
  shows "\<exists>n' d'. verify_replay (sim_env SV now) t n d = (Ok True, n', d')"
  by (rule simulated.run_verifies [OF simulatedI [OF assms(1)] assms(2-4)])

lemma counter_fresh_first:
  "\<exists>n d rec d'. node_run counter () (\<lambda>_. True) (\<lambda>_. True) demo_cfg manual_now n d [] 0 \<and>
     journal_open_with sim_storage 0 (nc_journal demo_cfg) d = (Ok rec, d') \<and> re_first_seq rec = 1"
proof -
  obtain n d where o: "node_open_with (sim_env counter manual_now) 0 demo_cfg () 7 sim_new = (Ok n, d)"
      "counters.Live (nc_journal demo_cfg) [] 0 n d"
    using counters.open_fresh [of manual_now 0 demo_cfg 7] by blast
  then have "counters.journaled (nc_journal demo_cfg) [] 0 n d" by (simp add: counters.Live_def)
  from counters.backed_open [OF this, of 0] run_open [OF o(1)] show ?thesis by fastforce
qed

theorem node_verify_replay_witness:
  "\<exists>n d n' d'. node_run counter () (\<lambda>_. True) (\<lambda>_. True) demo_cfg manual_now n d [] 0 \<and>
     verify_replay (sim_env counter manual_now) 1 n d = (Ok True, n', d')"
proof -
  obtain n d rec d' where n: "node_run counter () (\<lambda>_. True) (\<lambda>_. True) demo_cfg manual_now n d [] 0"
      "journal_open_with sim_storage 0 (nc_journal demo_cfg) d = (Ok rec, d')" "re_first_seq rec = 1"
    using counter_fresh_first by blast
  from node_verify_replay [OF counterl.service_laws_axioms n, of 1] n(1) show ?thesis by blast
qed

text \<open>
  C29. Sequenced time never runs backwards for a consumer of one incarnation of the node,
  whatever the clock does: the timestamps of the published frames are nondecreasing.
\<close>

theorem node_time_monotonic:
  assumes "node_run SV scfg vi sz cfg now n d base dur"
  shows "sorted (map f_timestamp (observed n)) \<and> (\<forall>f \<in> set (observed n). f_timestamp f \<le> n_last_timestamp n)"
proof -
  have "stamped n" by (rule node_run_stamped [OF assms])
  then show ?thesis using stamped_observed by (cases "n_bus n") (auto simp: stamped_def observed_def)
qed

theorem node_time_monotonic_witness:
  "\<exists>n d dur. node_run counter () (\<lambda>_. True) (\<lambda>_. True) demo_cfg manual_now n d [] dur \<and> observed n \<noteq> [] \<and>
     sorted (map f_timestamp (observed n))"
proof -
  obtain n d dur where n: "node_run counter () (\<lambda>_. True) (\<lambda>_. True) demo_cfg manual_now n d [] dur" "observed n \<noteq> []"
    using counter_run by blast
  from node_time_monotonic [OF n(1)] n show ?thesis by blast
qed

text \<open>
  C31. Progress: on a node with any snapshot, pruning and compaction policy and no pending timers, an input that arms
  no timer in the current state and fits a frame and a segment is accepted, gets the next sequence number, and is
  published as one input frame, followed at most by one snapshot mark.
\<close>

theorem node_submit_succeeds:
  assumes "service_laws SV scfg vi vs sz" and "node_run SV scfg vi sz cfg now n d base dur" and "vi i"
    and "\<And>q c. c_timers (snd (sv_apply SV q i (n_service n) c)) = c_timers c"
    and "n_timers n = wheel_new" and "length (base @ observed n) + 3 < 2 ^ 64"
    and "length (encode_to_vec (sv_enc_input SV) i) \<le> unat MAX_PAYLOAD_LEN"
    and "28 + (FRAME_HEADER_LEN + length (encode_to_vec (sv_enc_input SV) i) + 4) \<le> jc_segment_bytes (nc_journal cfg)"
    and "28 + (FRAME_HEADER_LEN + 8 + 4) \<le> jc_segment_bytes (nc_journal cfg)"
  shows "\<exists>rel n' d' f fs. submit (sim_env SV now) t i n d = Some (Ok (seq_next (n_seq n), rel), n', d') \<and>
    n_timers n' = wheel_new \<and> observed n' = observed n @ f # fs \<and> f_kind f = Input \<and>
    f_payload f = encode_to_vec (sv_enc_input SV) i \<and> marks fs"
proof -
  have h: "hosted sim_storage sim_ok sim_content sim_stable sim_live sim_power_loss SV scfg vi vs sz"
    by (intro hosted.intro simc.crashing_storage_axioms assms(1))
  have "hosted.quiet SV i (n_service n)" using assms(4) by (simp add: hosted.quiet_def [OF h])
  from simulated.run_submits_any [OF simulatedI [OF assms(1)] assms(2,3) this assms(5-)] show ?thesis .
qed

theorem node_submit_succeeds_witness:
  "\<exists>n d rel n' d' f fs. submit (sim_env counter manual_now) 2 (Add 37) n d = Some (Ok (seq_next (n_seq n), rel), n', d') \<and>
     observed n \<noteq> [] \<and> observed n' = observed n @ f # fs \<and> marks fs"
proof -
  obtain n d dur where n: "node_run counter () (\<lambda>_. True) (\<lambda>_. True) demo_cfg manual_now n d [] dur" "observed n \<noteq> []"
      "n_timers n = wheel_new" "length ([] @ observed n) + 3 < 2 ^ 64"
    using counter_run by auto
  have q: "\<And>q c. c_timers (snd (sv_apply counter q (Add 37) (n_service n) c)) = c_timers c"
    by (simp add: counter_def counter_apply_def emit_def Let_def)
  have len: "length (encode_to_vec (sv_enc_input counter) (Add 37)) = 10"
    by (simp add: counter_def enc_cmd_def enc_enum_def enc_int_def encode_to_vec_def)
  have fits: "length (encode_to_vec (sv_enc_input counter) (Add 37)) \<le> unat MAX_PAYLOAD_LEN"
    "28 + (FRAME_HEADER_LEN + length (encode_to_vec (sv_enc_input counter) (Add 37)) + 4) \<le> jc_segment_bytes (nc_journal demo_cfg)"
    "28 + (FRAME_HEADER_LEN + 8 + 4) \<le> jc_segment_bytes (nc_journal demo_cfg)"
    unfolding len by (simp_all add: MAX_PAYLOAD_LEN_def FRAME_HEADER_LEN_def demo_cfg_def node_config_new_def journal_config_new_def)
  from node_submit_succeeds [OF counterl.service_laws_axioms n(1) TrueI q n(3,4) fits, of 2] n(2) show ?thesis by blast
qed

end
