(* ===== verification/Node_Limits.thy ===== *)
theory Node_Limits
  imports Node_Props
begin

text \<open>
  When the node's loops end, what its batch path does to the order of frames, and what a hosted
  bank keeps. \<open>rearming\<close> and \<open>log_service\<close> are services written for these statements: the first
  re-arms its timer, the second records the order in which its steps ran.
\<close>

section \<open>A service that records its steps\<close>

definition log_service :: "(u64 list, u64, unit, u64 list, unit) service" where
  "log_service = \<lparr>sv_schema_version = 0, sv_genesis = (\<lambda>_. []),
     sv_apply = (\<lambda>q i s c. (s @ [i], set_timer 7 0 c)), sv_on_timer = (\<lambda>tid s c. (s @ [99], c)),
     sv_snapshot = (\<lambda>s. s), sv_restore = (\<lambda>s _. s), sv_enc_input = enc_int, sv_dec_input = dec_int,
     sv_enc_snap = enc_vec enc_int, sv_dec_snap = dec_vec dec_int\<rparr>"

definition log_node :: "(u64 list, unit, unit, u64, sim_file) node" where
  "log_node = \<lparr>n_service = [], n_service_config = (), n_journal_config = journal_config_new ''j'',
    n_journal = \<lparr>j_config = journal_config_new ''j'', j_current = None, j_last_seq = 0, j_epoch = 0,
      j_last_sync = 0, j_dirty = False\<rparr>,
    n_snapshot_every = None, n_retain_snapshots = 2, n_clock = 5, n_stream_id = 1, n_seq = 0, n_last_timestamp = 0,
    n_bus = [], n_recovery = \<lparr>ri_snapshot_seq = None, ri_inputs_replayed = 0\<rparr>, n_commit = None, n_timers = wheel_new\<rparr>"

lemma log_node_open: "node_open_with (sim_env log_service manual_now) 0 demo_cfg () 5 sim_new = (Ok log_node, sim_new)"
  by (simp add: node_open_with_def journal_open_with_def open_inner_def sim_run demo_cfg_def node_config_new_def
      journal_config_new_def sim_new_def list_segments_def open_tail_def high_water_seq_def list_snaps_def
      load_candidates_def purge_after_def saturating_pred_def scan_init_def Let_def List.map_filter_def GENESIS_def
      log_service_def log_node_def sio_def seq_next_def)

lemma length_enc_u64 [simp]: "length (enc_int (x :: u64)) = 8"
  by (simp add: enc_int_def)

lemmas stage_eval = submit_batch_def read_clock_def manual_now_def stage_frame_def log_node_def frame_new_def encode_to_vec_def
  log_service_def MAX_PAYLOAD_LEN_def Let_def seq_next_def node_subscribe_def bus_subscribe_def

lemmas journal_eval = journal_append_batch_def sim_run journal_config_new_def sim_new_def SEGMENT_HEADER_LEN_def seq_next_def
  Let_def seg_path_less_iff frame_encoded_len_def FRAME_HEADER_LEN_def

lemmas step_eval = apply_all.simps after_step_def run_step_def finish_frame_def maybe_snapshot_def fire_due_timers.simps
  fire_timer_def sequence_at_def stage_frame_def frame_new_def ctx_new_def set_timer_def fold_timers_def pop_due_def
  wheel_set_def wheel_new_def bus_publish_def bt_first_def bt_get_def bt_remove_def seq_next_def MAX_PAYLOAD_LEN_def
  encode_to_vec_def observed_def

definition log_frames :: "frame list" where
  "log_frames = map (\<lambda>(s, k, x). \<lparr>f_seq = s, f_timestamp = 5, f_stream_id = 1, f_kind = k, f_payload = enc_int (x :: u64)\<rparr>)
     [(1, Input, 1), (3, TimerFired, 7), (2, Input, 2), (4, TimerFired, 7)]"

lemma log_batch:
  "\<exists>r n d. submit_batch (sim_env log_service manual_now) 0 [1, 2] (node_subscribe log_node) sim_new = Some (Ok r, n, d) \<and>
     n_service n = [1, 99, 2, 99] \<and> observed n = log_frames"
  apply (simp add: stage_eval)
  apply (simp add: journal_eval)
  apply (simp add: step_eval journal_eval log_frames_def)
  done

lemma decode_u64 [simp]: "decode_all dec_int (enc_int (x :: u64)) = Ok x"
  using u64c.decode_all_encode [of x] by (simp add: encode_to_vec_def)

lemma log_replay:
  "\<exists>w. replay_frames log_service (sort_key f_seq log_frames) ([], wheel_new) = Ok ([1, 2, 99, 99], w)"
  by (simp add: log_frames_def log_service_def replay_frame_def replay_step_def ctx_new_def set_timer_def)

section \<open>A service that re-arms its timer\<close>

definition rearming :: "(i64, cmd, evt, i64, unit) service" where
  "rearming = counter\<lparr>sv_on_timer := \<lambda>tid s c. (s, set_timer tid (c_now c) c)\<rparr>"

definition rearm_node :: "(i64, evt, unit, u64, sim_file) node" where
  "rearm_node = \<lparr>n_service = 0, n_service_config = (), n_journal_config = journal_config_new ''j'',
    n_journal = \<lparr>j_config = journal_config_new ''j'', j_current = None, j_last_seq = 0, j_epoch = 0,
      j_last_sync = 0, j_dirty = False\<rparr>,
    n_snapshot_every = None, n_retain_snapshots = 2, n_clock = 5, n_stream_id = 1, n_seq = 0, n_last_timestamp = 4,
    n_bus = [], n_recovery = \<lparr>ri_snapshot_seq = None, ri_inputs_replayed = 0\<rparr>, n_commit = None,
    n_timers = wheel_set 3 2 0 wheel_new\<rparr>"

section \<open>A bank on a node\<close>

interpretation banks: simulated bank_service "()" "\<lambda>_. True" bank_ok "\<lambda>_. True"
  by (intro simulated.intro bankl.service_laws_axioms)

lemma bank_quiet: "banks.quiet i b"
proof -
  have "c_timers (snd (bank_apply q i b c)) = c_timers c" for q i b and c :: "bank_evt ctx"
    by (cases i) (simp add: emit_def Let_def)
  then show ?thesis unfolding banks.quiet_def by (simp add: bank_service_def)
qed

section \<open>Properties\<close>

text \<open>
  C30. A service whose timer handler arms no timer cannot hang the sequencer: the loop that
  fires due timers returns, whatever the storage, the clock and the wheel are.
\<close>

theorem timer_loop_ends:
  assumes "\<And>tid s c. c_timers (snd (sv_on_timer (e_service E) tid s c)) = c_timers c"
  shows "\<exists>res. fire_due_timers E t released n d = Some res"
  by (rule fire_due_timers_ends [OF assms])

theorem timer_loop_ends_witness:
  "\<exists>res. fire_due_timers (sim_env counter manual_now) 0 [] rearm_node sim_new = Some res"
  by (rule timer_loop_ends) (simp add: counter_def ignore_timer_def)

text \<open>
  The comment on \<open>Ctx::set_timer\<close> lets a handler arm a timer in the past, to fire at the next
  sequenced frame. A handler that re-arms its timer at the current time is never done: once
  such a timer is due, the loop returns no success, on any storage.
\<close>

theorem timer_loop_rearmed:
  assumes "\<And>tid s c. c_timers (snd (sv_on_timer (e_service E) tid s c)) = c_timers c @ [SetTimer tid (c_now c)]"
    and "wheel_ok (n_timers n)" and "pending (n_timers n) tid = Some (at, s)" and "at \<le> n_last_timestamp n" and "stamped n"
  shows "\<nexists>r n' d'. fire_due_timers E t released n d = Some (Ok r, n', d')"
  using fire_due_timers_rearmed [OF assms(1) _ assms(2-)] by blast

theorem timer_loop_rearmed_witness:
  "\<nexists>r n' d'. fire_due_timers (sim_env rearming manual_now) 0 [] rearm_node sim_new = Some (Ok r, n', d')"
proof (rule timer_loop_rearmed)
  show "c_timers (snd (sv_on_timer (e_service (sim_env rearming manual_now)) tid s c)) = c_timers c @ [SetTimer tid (c_now c)]"
    for tid s c by (simp add: rearming_def set_timer_def)
  show "pending (n_timers rearm_node) 3 = Some (2, 0)" by (simp add: rearm_node_def)
qed (simp_all add: rearm_node_def stamped_def)

text \<open>
  C37. The batch path is not the sequence of its submits. Its frames are numbered before any of
  them is applied, so a timer that the first input makes due is numbered after the whole batch
  but applied and published between the inputs: a subscriber sees the numbers 1, 3, 2, 4, and
  replaying the frames in sequence order gives another state than the live one.
\<close>

theorem batch_timers_out_of_order:
  "\<exists>r n d w replayed.
     node_open_with (sim_env log_service manual_now) 0 demo_cfg () 5 sim_new = (Ok log_node, sim_new) \<and>
     submit_batch (sim_env log_service manual_now) 0 [1, 2] (node_subscribe log_node) sim_new = Some (Ok r, n, d) \<and>
     map f_seq (observed n) = [1, 3, 2, 4] \<and>
     replay_frames log_service (sort_key f_seq (observed n)) ([], wheel_new) = Ok (replayed, w) \<and> replayed \<noteq> n_service n"
proof -
  obtain r n d where b: "submit_batch (sim_env log_service manual_now) 0 [1, 2] (node_subscribe log_node) sim_new = Some (Ok r, n, d)"
      "n_service n = [1, 99, 2, 99]" "observed n = log_frames" using log_batch by blast
  obtain w where "replay_frames log_service (sort_key f_seq (observed n)) ([], wheel_new) = Ok ([1, 2, 99, 99], w)"
    using log_replay b(3) by auto
  moreover have "map f_seq (observed n) = [1, 3, 2, 4]" by (simp add: b(3) log_frames_def)
  moreover have "[1, 2, 99, 99] \<noteq> n_service n" by (simp add: b(2))
  ultimately show ?thesis using b(1) log_node_open by (intro exI conjI)
qed

text \<open>
  Conservation, end to end: in every reachable state of a node that hosts the simulator's
  bank, through crashes, snapshots and compactions, the simulator's check holds: the balances
  add up to the opening total and none is negative.
\<close>

theorem bank_conserved:
  assumes "node_run bank_service () (\<lambda>_. True) (\<lambda>_. True) cfg now n d base dur"
  shows "bank_check (n_service n)"
  using banks.run_is_replay [OF assms] by (simp add: bank_ok_check)

theorem bank_conserved_witness:
  "\<exists>(n :: (bank, bank_evt, unit, u64, sim_file) node) d dur.
     node_run bank_service () (\<lambda>_. True) (\<lambda>_. True) demo_cfg manual_now n d [] dur \<and>
     length (observed n) = 1 \<and> bank_check (n_service n)"
proof -
  have "length (encode_to_vec (sv_enc_input bank_service) (Transfer 1 2 300)) \<le> 100"
    by (simp add: bank_service_def enc_bank_cmd_def enc_enum_def enc_pair_def enc_int_def encode_to_vec_def)
  from banks.run_one [OF bank_quiet TrueI this] bank_conserved show ?thesis by blast
qed

end
