(* ===== verification/Gateway_Props.thy ===== *)
theory Gateway_Props
  imports Gateway Node_Limits
begin

text \<open>
  What the gateway promises its clients: each client number is submitted at most once and in
  order, over any interleaving of connections; a client that reconnects within the retention gets
  exactly the events it missed; and where the code breaks the first promise, after a failed
  submit.
\<close>

section \<open>What reaches the node\<close>

fun node_submits ::
  "('s, 'i, 'o, 'p, 'c, 'k, 'd, 'f) env \<Rightarrow> (nat \<times> 'i) list \<Rightarrow> ('s, 'o, 'c, 'k, 'f) node \<Rightarrow> 'd \<Rightarrow>
     (('s, 'o, 'c, 'k, 'f) node \<times> 'd) option"
where
  "node_submits E [] n d = Some (n, d)"
| "node_submits E ((t, i) # is) n d = (case submit E t i n d of None \<Rightarrow> None | Some (r, n, d) \<Rightarrow> node_submits E is n d)"

fun client_seqs :: "u64 \<Rightarrow> 'c gateway_input list \<Rightarrow> u64 list" where
  "client_seqs session [] = []"
| "client_seqs session (Client s q c # is) = (if s = session then q # client_seqs session is else client_seqs session is)"
| "client_seqs session (SessionClosed s # is) = client_seqs session is"

fun consecutive :: "u64 \<Rightarrow> u64 list \<Rightarrow> bool" where
  "consecutive q [] = True"
| "consecutive q (x # xs) = (x = q \<and> consecutive (q + 1) xs)"

definition expected_seq :: "serve_config \<Rightarrow> gateway \<Rightarrow> u64 \<Rightarrow> u64" where
  "expected_seq cfg g session = sf_next (entry_or (gw_flows g) session (flow_new (sg_window cfg)))"

lemma node_submits_append:
  "node_submits E (xs @ ys) n d = (case node_submits E xs n d of None \<Rightarrow> None | Some (n, d) \<Rightarrow> node_submits E ys n d)"
  by (induction xs arbitrary: n d) (auto split: option.splits)

lemma client_seqs_append [simp]: "client_seqs session (xs @ ys) = client_seqs session xs @ client_seqs session ys"
  by (induction session xs rule: client_seqs.induct) auto

lemma length_client_seqs: "length (client_seqs session xs) \<le> length xs"
  by (induction session xs rule: client_seqs.induct) auto

lemma consecutive_append: "consecutive q (xs @ ys) \<longleftrightarrow> consecutive q xs \<and> consecutive (q + of_nat (length xs)) ys"
  by (induction xs arbitrary: q) (auto simp: add.assoc)

lemma consecutive_nth: "consecutive q xs \<Longrightarrow> i < length xs \<Longrightarrow> xs ! i = q + of_nat i"
proof (induction xs arbitrary: q i)
  case (Cons x xs)
  then show ?case by (cases i) auto
qed simp

lemma consecutive_distinct:
  assumes "consecutive q xs" and "length xs < 2 ^ 64"
  shows "distinct xs"
proof -
  have "i = j" if "i < length xs" "j < length xs" "xs ! i = xs ! j" for i j
  proof -
    have "(of_nat i :: u64) = of_nat j" using that consecutive_nth [OF assms(1)] by simp
    then have "unat (of_nat i :: u64) = unat (of_nat j :: u64)" by simp
    moreover have "unat (of_nat i :: u64) = i" "unat (of_nat j :: u64) = j"
      using that assms(2) by (intro unat_of_nat_small, simp)+
    ultimately show ?thesis by simp
  qed
  then show ?thesis by (simp add: distinct_conv_nth) blast
qed

section \<open>Sessions\<close>

lemma send_to_cmd_flows [simp]: "gw_flows (send_to_cmd ee session msg g) = gw_flows g"
  by (simp add: send_to_cmd_def split: option.splits prod.splits)

lemma route_event_flows [simp]: "gw_flows (route_event ee cap a g) = gw_flows g"
  by (simp add: route_event_def Let_def split: prod.splits)

lemma route_events_flows [simp]: "gw_flows (route_events ee cap outs g) = gw_flows g"
  by (induction outs arbitrary: g) (simp_all add: route_events_def)

lemma entry_or_insert [simp]: "entry_or (bt_insert k v m) k' w = (if k' = k then v else entry_or m k' w)"
  by (simp add: entry_or_def)

lemma flow_acked_next [simp]: "sf_next (flow_on_acked f) = sf_next f"
  by (simp add: flow_on_acked_def)

lemma flow_admit_cases:
  assumes "flow_admit q f = (v, f')"
  shows "v = Accept \<and> q = sf_next f \<and> sf_next f' = sf_next f + 1 \<or> v \<noteq> Accept \<and> f' = f"
  using assms by (auto simp: flow_admit_def split: if_splits)

text \<open>One request: at most one command of one session is submitted, the one that was expected.\<close>

definition admits :: "serve_config \<Rightarrow> 'c req \<Rightarrow> (nat \<times> 'c gateway_input) list \<Rightarrow> gateway \<Rightarrow> gateway \<Rightarrow> bool" where
  "admits cfg r ins g g' \<longleftrightarrow> (\<forall>session. consecutive (expected_seq cfg g session) (client_seqs session (map snd ins)) \<and>
      expected_seq cfg g' session = expected_seq cfg g session + of_nat (length (client_seqs session (map snd ins)))) \<and>
     (\<forall>session q cmd. Client session q cmd \<in> snd ` set ins \<longrightarrow> r = ReqCmd session q cmd)"

lemma admits_none: "gw_flows g' = gw_flows g \<Longrightarrow> admits cfg r [] g g'"
  by (simp add: admits_def expected_seq_def)

lemma handle_cmd_admits:
  assumes "handle_cmd E ee cfg t session q cmd (n, d, g) = Some (n', d', g')"
  shows "\<exists>ins. node_submits E ins n d = Some (n', d') \<and> admits cfg (ReqCmd session q cmd) ins g g'"
proof -
  obtain v flow where a: "flow_admit q (entry_or (gw_flows g) session (flow_new (sg_window cfg))) = (v, flow)" by fastforce
  note c = flow_admit_cases [OF a]
  show ?thesis
  proof (cases v)
    case Accept
    with assms a obtain r where s: "submit E t (Client session q cmd) n d = Some (r, n', d')"
      and g': "\<exists>flow'. sf_next flow' = sf_next flow \<and> (\<forall>k w. entry_or (gw_flows g') k w = (if k = session then flow' else entry_or (gw_flows g) k w))"
      by (auto simp: handle_cmd_def Let_def split: option.splits result.splits prod.splits)
    have "admits cfg (ReqCmd session q cmd) [(t, Client session q cmd)] g g'"
      using g' c Accept by (auto simp: admits_def expected_seq_def)
    with s show ?thesis by (intro exI [of _ "[(t, Client session q cmd)]"]) simp
  next
    case Duplicate
    with assms a c show ?thesis
      by (intro exI [of _ "[]"]) (auto simp: handle_cmd_def Let_def admits_def expected_seq_def)
  next
    case (GapAt e)
    with assms a c show ?thesis
      by (intro exI [of _ "[]"]) (auto simp: handle_cmd_def Let_def admits_def expected_seq_def)
  next
    case Throttled
    with assms a c show ?thesis
      by (intro exI [of _ "[]"]) (auto simp: handle_cmd_def Let_def admits_def expected_seq_def)
  qed
qed

lemma handle_close_admits:
  assumes "handle_close E ee cfg t session (n, d, g) = Some (n', d', g')"
  shows "\<exists>ins. node_submits E ins n d = Some (n', d') \<and> admits cfg (CloseReq session) ins g g'"
proof -
  from assms obtain r where "submit E t (SessionClosed session) n d = Some (r, n', d')" and "gw_flows g' = gw_flows g"
    by (auto simp: handle_close_def Let_def split: option.splits result.splits prod.splits)
  then show ?thesis by (intro exI [of _ "[(t, SessionClosed session)]"]) (simp add: admits_def expected_seq_def)
qed

lemma handle_req_admits:
  assumes "handle_req E ee cfg t r (n, d, g) = Some (n', d', g')"
  shows "\<exists>ins. node_submits E ins n d = Some (n', d') \<and> admits cfg r ins g g'"
proof (cases r)
  case (Attach session from_seq sink)
  with assms show ?thesis
    by (intro exI [of _ "[]"]) (auto simp: handle_attach_def Let_def admits_def expected_seq_def split: prod.splits)
next
  case (Watch session from_seq sink)
  with assms show ?thesis
    by (intro exI [of _ "[]"]) (auto simp: handle_watch_def Let_def admits_def expected_seq_def split: prod.splits)
next
  case (ReqCmd session q cmd)
  with assms handle_cmd_admits show ?thesis by auto
next
  case (CloseReq session)
  with assms handle_close_admits show ?thesis by auto
qed

lemma sequencer_loop_admits:
  assumes "sequencer_loop E ee cfg reqs (n, d, g) = Some (n', d', g')"
  shows "\<exists>ins. node_submits E ins n d = Some (n', d') \<and>
    (\<forall>session. consecutive (expected_seq cfg g session) (client_seqs session (map snd ins))) \<and>
    (\<forall>session q cmd. Client session q cmd \<in> snd ` set ins \<longrightarrow> ReqCmd session q cmd \<in> snd ` set reqs)"
  using assms
proof (induction reqs arbitrary: n d g)
  case Nil
  then show ?case by (intro exI [of _ "[]"]) simp
next
  case (Cons tr reqs)
  obtain t r where tr: "tr = (t, r)" by fastforce
  from Cons.prems obtain n1 d1 g1 where
    h: "handle_req E ee cfg t r (n, d, g) = Some (n1, d1, g1)" "sequencer_loop E ee cfg reqs (n1, d1, g1) = Some (n', d', g')"
    by (auto simp: tr split: option.splits)
  from handle_req_admits [OF h(1)] obtain ins1 where i1: "node_submits E ins1 n d = Some (n1, d1)" "admits cfg r ins1 g g1" by blast
  from Cons.IH [OF h(2)] obtain ins2 where i2: "node_submits E ins2 n1 d1 = Some (n', d')"
      "\<forall>session. consecutive (expected_seq cfg g1 session) (client_seqs session (map snd ins2))"
      "\<forall>session q cmd. Client session q cmd \<in> snd ` set ins2 \<longrightarrow> ReqCmd session q cmd \<in> snd ` set reqs" by blast
  show ?case
  proof (intro exI [of _ "ins1 @ ins2"] conjI allI impI)
    show "node_submits E (ins1 @ ins2) n d = Some (n', d')" using i1(1) i2(1) by (simp add: node_submits_append)
    show "consecutive (expected_seq cfg g session) (client_seqs session (map snd (ins1 @ ins2)))" for session
      using i1(2) i2(2) by (simp add: consecutive_append admits_def)
    fix session q cmd assume "Client session q cmd \<in> snd ` set (ins1 @ ins2)"
    then have "Client session q cmd \<in> snd ` set ins1 \<or> Client session q cmd \<in> snd ` set ins2" by (simp add: image_Un)
    with i1(2) i2(3) have "r = ReqCmd session q cmd \<or> ReqCmd session q cmd \<in> snd ` set reqs" unfolding admits_def by blast
    then show "ReqCmd session q cmd \<in> snd ` set (tr # reqs)" by (auto simp: tr)
  qed
qed

definition last_admitted :: "serve_config \<Rightarrow> u64 \<Rightarrow> u64" where
  "last_admitted cfg session = (case map_of (rev (sg_resume cfg)) session of Some l \<Rightarrow> l | None \<Rightarrow> 0)"

lemma expected_new: "expected_seq cfg (gateway_new cfg cs) session = last_admitted cfg session + 1"
proof -
  have "map_of (rev (map (\<lambda>(s, l). (s, flow_resume l w)) xs)) session = map_option (\<lambda>l. flow_resume l w) (map_of (rev xs) session)"
    for xs :: "(u64 \<times> u64) list" and w
    by (simp add: rev_map map_of_map)
  then show ?thesis
    by (simp add: expected_seq_def gateway_new_def entry_or_def bt_get_collect last_admitted_def flow_new_def flow_resume_def
        split: option.splits)
qed

section \<open>The outbox\<close>

fun numbered :: "'e encoder \<Rightarrow> u64 \<Rightarrow> 'e list \<Rightarrow> (u64 \<times> bytes) list" where
  "numbered ee q [] = []"
| "numbered ee q (e # es) = (q, write_msg (enc_server_msg ee) (EventMsg q e)) # numbered ee (q + 1) es"

definition events_of :: "u64 \<Rightarrow> 'e addressed list \<Rightarrow> 'e list" where
  "events_of session outs = map ad_event (filter (\<lambda>a. ad_session a = session) outs)"

lemma numbered_append: "numbered ee q (xs @ ys) = numbered ee q xs @ numbered ee (q + of_nat (length xs)) ys"
  by (induction xs arbitrary: q) (auto simp: add.assoc)

lemma length_numbered [simp]: "length (numbered ee q xs) = length xs"
  by (induction xs arbitrary: q) auto

lemma fst_numbered: "i < length xs \<Longrightarrow> fst (numbered ee q xs ! i) = q + of_nat i"
proof (induction xs arbitrary: q i)
  case (Cons x xs)
  then show ?case by (cases i) auto
qed simp

lemma trim_outbox_drop: "trim_outbox cap xs = drop (length xs - cap) xs"
proof (induction cap xs rule: trim_outbox.induct)
  case (1 cap xs)
  show ?case
  proof (cases "length xs > cap")
    case True
    then have "drop (length (tl xs) - cap) (tl xs) = drop (length xs - cap) xs"
      by (cases xs) (auto simp: Suc_diff_le)
    with 1 True show ?thesis by (subst trim_outbox.simps) simp
  qed (simp add: trim_outbox.simps)
qed

lemma trim_trim: "trim_outbox cap (trim_outbox cap xs @ ys) = trim_outbox cap (xs @ ys)"
  by (cases "length xs \<le> cap") (auto simp: trim_outbox_drop add.commute)

lemma route_event_entry:
  "\<exists>cmd ws. bt_get (gw_sinks (route_event ee cap a g)) s =
     (if ad_session a = s
      then Some ((entry_or (gw_sinks g) s sinks_new)\<lparr>sk_next_event_seq := sk_next_event_seq (entry_or (gw_sinks g) s sinks_new) + 1,
        sk_outbox := trim_outbox cap (sk_outbox (entry_or (gw_sinks g) s sinks_new) @
          numbered ee (sk_next_event_seq (entry_or (gw_sinks g) s sinks_new)) [ad_event a]), sk_cmd := cmd, sk_watchers := ws\<rparr>)
      else bt_get (gw_sinks g) s)"
  by (auto simp: route_event_def Let_def split: prod.splits)

lemma route_events_entry:
  "sk_next_event_seq (entry_or (gw_sinks (route_events ee cap outs g)) s sinks_new) =
     sk_next_event_seq (entry_or (gw_sinks g) s sinks_new) + of_nat (length (events_of s outs)) \<and>
   trim_outbox cap (sk_outbox (entry_or (gw_sinks (route_events ee cap outs g)) s sinks_new)) =
     trim_outbox cap (sk_outbox (entry_or (gw_sinks g) s sinks_new) @
       numbered ee (sk_next_event_seq (entry_or (gw_sinks g) s sinks_new)) (events_of s outs))"
proof (induction outs arbitrary: g)
  case Nil
  show ?case by (simp add: route_events_def events_of_def)
next
  case (Cons a outs)
  let ?g = "route_event ee cap a g"
  have r: "route_events ee cap (a # outs) g = route_events ee cap outs ?g" by (simp add: route_events_def)
  obtain cmd ws where e: "bt_get (gw_sinks ?g) s =
     (if ad_session a = s
      then Some ((entry_or (gw_sinks g) s sinks_new)\<lparr>sk_next_event_seq := sk_next_event_seq (entry_or (gw_sinks g) s sinks_new) + 1,
        sk_outbox := trim_outbox cap (sk_outbox (entry_or (gw_sinks g) s sinks_new) @
          numbered ee (sk_next_event_seq (entry_or (gw_sinks g) s sinks_new)) [ad_event a]), sk_cmd := cmd, sk_watchers := ws\<rparr>)
      else bt_get (gw_sinks g) s)" using route_event_entry [of ee cap a g s] by blast
  show ?case
  proof (cases "ad_session a = s")
    case True
    have "events_of s (a # outs) = ad_event a # events_of s outs" using True by (simp add: events_of_def)
    moreover have "entry_or (gw_sinks ?g) s sinks_new = (entry_or (gw_sinks g) s sinks_new)
      \<lparr>sk_next_event_seq := sk_next_event_seq (entry_or (gw_sinks g) s sinks_new) + 1,
        sk_outbox := trim_outbox cap (sk_outbox (entry_or (gw_sinks g) s sinks_new) @
          numbered ee (sk_next_event_seq (entry_or (gw_sinks g) s sinks_new)) [ad_event a]), sk_cmd := cmd, sk_watchers := ws\<rparr>"
      using e True by (simp add: entry_or_def)
    ultimately show ?thesis using Cons.IH [of ?g] unfolding r by (simp add: trim_trim add.assoc)
  next
    case False
    then have "events_of s (a # outs) = events_of s outs" "entry_or (gw_sinks ?g) s sinks_new = entry_or (gw_sinks g) s sinks_new"
      using e by (simp_all add: events_of_def entry_or_def)
    with Cons.IH [of ?g] show ?thesis unfolding r by simp
  qed
qed

lemma route_events_cap:
  "length (sk_outbox (entry_or (gw_sinks g) s sinks_new)) \<le> cap \<Longrightarrow>
     length (sk_outbox (entry_or (gw_sinks (route_events ee cap outs g)) s sinks_new)) \<le> cap"
proof (induction outs arbitrary: g)
  case (Cons a outs)
  have "length (sk_outbox (entry_or (gw_sinks (route_event ee cap a g)) s sinks_new)) \<le> cap"
    using route_event_entry [of ee cap a g s] Cons.prems by (auto simp: entry_or_def trim_outbox_drop split: if_splits)
  from Cons.IH [OF this] show ?case by (simp add: route_events_def)
qed (simp add: route_events_def)

lemma filter_numbered:
  assumes "length evs < 2 ^ 64 - 1" and "unat from_seq \<le> length evs" and "k \<le> unat from_seq"
  shows "filter (\<lambda>(e, _). e > from_seq) (drop k (numbered ee 1 evs)) = drop (unat from_seq) (numbered ee 1 evs)"
proof -
  let ?xs = "drop k (numbered ee 1 evs)"
  have "filter (\<lambda>(e, _). e > from_seq) ?xs = drop (unat from_seq - k) ?xs"
  proof (rule filter_eq_drop)
    fix i assume i: "i < length ?xs"
    have "fst (?xs ! i) = 1 + of_nat (k + i)" using i fst_numbered [of "k + i" evs ee 1] by simp
    moreover have "unat (1 + of_nat (k + i) :: u64) = Suc (k + i)"
      using i assms(1) unat_of_nat_small [of "Suc (k + i)", where ?'a = 64] by simp
    ultimately show "(case ?xs ! i of (e, _) \<Rightarrow> e > from_seq) \<longleftrightarrow> unat from_seq - k \<le> i"
      using assms(3) by (auto simp: split_beta word_less_nat_alt)
  qed
  with assms(3) show ?thesis by simp
qed

lemma send_all_alive: "fst (cs ch) \<Longrightarrow> send_all ch bss cs = (True, cs(ch := (True, snd (cs ch) @ bss)))"
proof (induction bss arbitrary: cs)
  case Nil
  then have "cs ch = (True, snd (cs ch))" by (simp add: prod_eq_iff)
  then show ?case by (metis append_Nil2 fun_upd_triv send_all.simps(1) snd_conv)
qed (simp add: chan_send_def)

section \<open>What a session's outbox holds\<close>

text \<open>
  The events of a session as the loop runs: the outputs of the submits that succeed, from the session's own commands, from those of
  others and from closes. A failed submit of a command of the session drops the session's edge state, and with it what was retained: the
  numbering starts again.
\<close>

fun step_events ::
  "('s, 'c, 'e, 'p, 'g, 'k, 'd, 'f) genv \<Rightarrow> serve_config \<Rightarrow> u64 \<Rightarrow> nat \<Rightarrow> 'c req \<Rightarrow> ('s, 'e, 'g, 'k, 'f, 'd) gstate \<Rightarrow> 'e list \<Rightarrow> 'e list"
where
  "step_events E cfg session t (ReqCmd s q cmd) (n, d, g) evs =
     (if fst (flow_admit q (entry_or (gw_flows g) s (flow_new (sg_window cfg)))) \<noteq> Accept then evs
      else case submit E t (Client s q cmd) n d of
          Some (Ok (_, outs), _) \<Rightarrow> evs @ events_of session outs
        | Some (Err _, _) \<Rightarrow> if s = session then [] else evs
        | None \<Rightarrow> evs)"
| "step_events E cfg session t (CloseReq s) (n, d, g) evs =
     (case submit E t (SessionClosed s) n d of
        Some (Ok (_, outs), _) \<Rightarrow> evs @ events_of session outs
      | _ \<Rightarrow> evs)"
| "step_events E cfg session t _ st evs = evs"

fun loop_events ::
  "('s, 'c, 'e, 'p, 'g, 'k, 'd, 'f) genv \<Rightarrow> 'e encoder \<Rightarrow> serve_config \<Rightarrow> u64 \<Rightarrow> (nat \<times> 'c req) list \<Rightarrow>
     ('s, 'e, 'g, 'k, 'f, 'd) gstate \<Rightarrow> 'e list \<Rightarrow> 'e list"
where
  "loop_events E ee cfg session [] st evs = evs"
| "loop_events E ee cfg session ((t, r) # reqs) st evs =
     (case handle_req E ee cfg t r st of
        None \<Rightarrow> evs
      | Some st' \<Rightarrow> loop_events E ee cfg session reqs st' (step_events E cfg session t r st evs))"

definition boxed :: "'e encoder \<Rightarrow> nat \<Rightarrow> u64 \<Rightarrow> 'e list \<Rightarrow> gateway \<Rightarrow> bool" where
  "boxed ee cap session evs g \<longleftrightarrow>
     sk_next_event_seq (entry_or (gw_sinks g) session sinks_new) = 1 + of_nat (length evs) \<and>
     sk_outbox (entry_or (gw_sinks g) session sinks_new) = drop (length evs - cap) (numbered ee 1 evs)"

lemma boxed_cong:
  assumes "sk_next_event_seq (entry_or (gw_sinks g') session sinks_new) = sk_next_event_seq (entry_or (gw_sinks g) session sinks_new)"
    and "sk_outbox (entry_or (gw_sinks g') session sinks_new) = sk_outbox (entry_or (gw_sinks g) session sinks_new)"
  shows "boxed ee cap session evs g' = boxed ee cap session evs g"
  using assms by (simp add: boxed_def)

lemma boxed_new: "bt_get (gw_sinks g) session = None \<Longrightarrow> boxed ee cap session [] g"
  by (simp add: boxed_def entry_or_def sinks_new_def)

lemma boxed_attach: "boxed ee cap session evs (handle_attach cfg s from_seq sink g) = boxed ee cap session evs g"
  by (rule boxed_cong) (auto simp: handle_attach_def Let_def split: prod.splits)

lemma boxed_watch: "boxed ee cap session evs (handle_watch ee' s from_seq sink g) = boxed ee cap session evs g"
  by (rule boxed_cong) (auto simp: handle_watch_def Let_def split: prod.splits)

lemma boxed_send: "boxed ee cap session evs (send_to_cmd ee' s msg g) = boxed ee cap session evs g"
  by (rule boxed_cong) (auto simp: send_to_cmd_def entry_or_def split: option.splits prod.splits)

lemma boxed_flows [simp]: "boxed ee cap session evs (g\<lparr>gw_flows := fl\<rparr>) = boxed ee cap session evs g"
  by (simp add: boxed_def)

lemma boxed_route:
  assumes "boxed ee cap session evs g"
  shows "boxed ee cap session (evs @ events_of session outs) (route_events ee cap outs g)"
proof -
  let ?g = "route_events ee cap outs g"
  let ?box = "sk_outbox (entry_or (gw_sinks g) session sinks_new)" and ?box' = "sk_outbox (entry_or (gw_sinks ?g) session sinks_new)"
  note e = route_events_entry [of ee cap outs g session]
  have "length ?box \<le> cap" using assms by (simp add: boxed_def)
  then have "length ?box' \<le> cap" by (rule route_events_cap)
  then have "?box' = trim_outbox cap ?box'" by (simp add: trim_outbox_drop)
  also have "\<dots> = trim_outbox cap (trim_outbox cap (numbered ee 1 evs) @ numbered ee (1 + of_nat (length evs)) (events_of session outs))"
    using e assms by (simp add: boxed_def trim_outbox_drop)
  also have "\<dots> = trim_outbox cap (numbered ee 1 (evs @ events_of session outs))" by (simp add: trim_trim numbered_append)
  finally show ?thesis using e assms by (simp add: boxed_def trim_outbox_drop add.assoc)
qed

lemma handle_req_boxed:
  assumes "handle_req E ee cfg t r (n, d, g) = Some (n', d', g')" and "boxed ee (sg_outbox_capacity cfg) session evs g"
  shows "boxed ee (sg_outbox_capacity cfg) session (step_events E cfg session t r (n, d, g) evs) g'"
proof (cases r)
  case (Attach s from_seq sink)
  with assms show ?thesis by (auto simp: boxed_attach)
next
  case (Watch s from_seq sink)
  with assms show ?thesis by (auto simp: boxed_watch)
next
  case (CloseReq s)
  define g0 where "g0 = (case bt_get (gw_sinks g) s of None \<Rightarrow> g
      | Some entry \<Rightarrow> g\<lparr>gw_sinks := bt_insert s (entry\<lparr>sk_cmd := None\<rparr>) (gw_sinks g)\<rparr>)"
  have "boxed ee (sg_outbox_capacity cfg) session evs g0 = boxed ee (sg_outbox_capacity cfg) session evs g"
    by (rule boxed_cong) (auto simp: g0_def entry_or_def split: option.splits)
  with assms CloseReq boxed_route [of ee "sg_outbox_capacity cfg" session evs g0] show ?thesis
    by (auto simp: handle_close_def g0_def [symmetric] split: option.splits result.splits prod.splits)
next
  case (ReqCmd s q cmd)
  obtain v flow where a: "flow_admit q (entry_or (gw_flows g) s (flow_new (sg_window cfg))) = (v, flow)" by fastforce
  let ?g = "g\<lparr>gw_flows := bt_insert s flow (gw_flows g)\<rparr>"
  show ?thesis
  proof (cases "v = Accept")
    case False
    with assms ReqCmd a show ?thesis by (cases v) (auto simp: handle_cmd_def Let_def boxed_send)
  next
    case True
    with assms(1) ReqCmd a obtain res where sub: "submit E t (Client s q cmd) n d = Some (res, n', d')"
      by (auto simp: handle_cmd_def Let_def split: option.splits result.splits prod.splits)
    show ?thesis
    proof (cases res)
      case (Ok so)
      obtain sq outs where so: "so = (sq, outs)" by fastforce
      have "g' = route_events ee (sg_outbox_capacity cfg) outs
          (send_to_cmd ee s (AckMsg q sq) (g\<lparr>gw_flows := bt_insert s (flow_on_acked flow) (bt_insert s flow (gw_flows g))\<rparr>))"
        using assms(1) ReqCmd a True sub Ok so by (simp add: handle_cmd_def Let_def)
      moreover have "boxed ee (sg_outbox_capacity cfg) session evs
          (send_to_cmd ee s (AckMsg q sq) (g\<lparr>gw_flows := bt_insert s (flow_on_acked flow) (bt_insert s flow (gw_flows g))\<rparr>))"
        using assms(2) by (simp add: boxed_send)
      ultimately show ?thesis using boxed_route ReqCmd a True sub Ok so by simp
    next
      case (Err e)
      then have g': "gw_sinks g' = bt_remove s (gw_sinks g)" using assms(1) ReqCmd a True sub by (auto simp: handle_cmd_def Let_def)
      show ?thesis
      proof (cases "s = session")
        case True
        have "boxed ee (sg_outbox_capacity cfg) session [] g'" by (rule boxed_new) (simp add: g' True)
        with True ReqCmd a \<open>v = Accept\<close> sub Err show ?thesis by simp
      next
        case False
        then have "boxed ee (sg_outbox_capacity cfg) session evs g'" using assms(2) by (simp add: boxed_def entry_or_def g')
        with False ReqCmd a \<open>v = Accept\<close> sub Err show ?thesis by simp
      qed
    qed
  qed
qed

lemma sequencer_loop_boxed:
  assumes "sequencer_loop E ee cfg reqs (n, d, g) = Some (n', d', g')" and "boxed ee (sg_outbox_capacity cfg) session evs g"
  shows "boxed ee (sg_outbox_capacity cfg) session (loop_events E ee cfg session reqs (n, d, g) evs) g'"
  using assms
proof (induction reqs arbitrary: n d g evs)
  case (Cons tr reqs)
  obtain t r where tr: "tr = (t, r)" by fastforce
  from Cons.prems(1) obtain n1 d1 g1 where
    h: "handle_req E ee cfg t r (n, d, g) = Some (n1, d1, g1)" "sequencer_loop E ee cfg reqs (n1, d1, g1) = Some (n', d', g')"
    by (auto simp: tr split: option.splits)
  from Cons.IH [OF h(2) handle_req_boxed [OF h(1) Cons.prems(2)]] h(1) show ?case by (simp add: tr)
qed simp

section \<open>An echo service behind the gateway\<close>

definition echo :: "(unit, u64 gateway_input, u64 addressed, unit, unit) service" where
  "echo = \<lparr>sv_schema_version = 0, sv_genesis = (\<lambda>_. ()),
     sv_apply = (\<lambda>q i s c. (s, case i of Client session _ x \<Rightarrow> emit \<lparr>ad_session = session, ad_event = x\<rparr> c | SessionClosed _ \<Rightarrow> c)),
     sv_on_timer = ignore_timer, sv_snapshot = (\<lambda>s. s), sv_restore = (\<lambda>s _. s),
     sv_enc_input = enc_gateway_input enc_int, sv_dec_input = dec_gateway_input dec_int, sv_enc_snap = enc_unit, sv_dec_snap = dec_unit\<rparr>"

definition echo_node :: "(unit, u64 addressed, unit, u64, sim_file) node" where
  "echo_node = \<lparr>n_service = (), n_service_config = (), n_journal_config = journal_config_new ''j'',
    n_journal = \<lparr>j_config = journal_config_new ''j'', j_current = None, j_last_seq = 0, j_epoch = 0,
      j_last_sync = 0, j_dirty = False\<rparr>,
    n_snapshot_every = None, n_retain_snapshots = 2, n_clock = 5, n_stream_id = 1, n_seq = 0, n_last_timestamp = 0,
    n_bus = [], n_recovery = \<lparr>ri_snapshot_seq = None, ri_inputs_replayed = 0\<rparr>, n_commit = None, n_timers = wheel_new\<rparr>"

text \<open>A disk that is full: no write succeeds.\<close>

definition full_disk :: "(sim_disk, sim_file) storage" where
  "full_disk = sim_storage\<lparr>st_write_all := \<lambda>h bs d. (Err BrokenPipe, d)\<rparr>"

abbreviation full_env :: "(unit, u64, u64, unit, unit, u64, sim_disk, sim_file) genv" where
  "full_env \<equiv> \<lparr>e_storage = full_disk, e_service = echo, e_now = manual_now\<rparr>"

lemmas submit_eval = submit_def sequence_frame_def sequence_at_def stage_eval echo_def echo_node_def
  enc_gateway_input_def enc_enum_def enc_pair_def enc_int_def

lemma echo_submits: "\<exists>s n d. submit (sim_env echo manual_now) 0 (Client 5 1 42) echo_node sim_new =
    Some (Ok (s, [\<lparr>ad_session = 5, ad_event = 42\<rparr>]), n, d)"
  apply (simp add: submit_eval)
  apply (simp add: journal_eval)
  apply (simp add: step_eval journal_eval emit_def)
  done

section \<open>A disk that refuses writes\<close>

text \<open>No frame gets into the journal: neither into the active segment nor into a new one, whose header is written first.\<close>

lemma refused_sync: "j_last_seq (fst (snd (journal_sync S t j d))) = j_last_seq j"
proof (cases "j_current j")
  case (Some seg)
  then show ?thesis by (cases "fst (st_sync_data S (os_file seg) d)") (simp_all add: journal_sync_def jio_def)
qed (simp add: journal_sync_def)

lemma refused_start:
  assumes "\<forall>h bs d. \<exists>e d'. st_write_all S h bs d = (Err e, d')"
  shows "\<exists>e d'. start_segment S first j d = (Err e, j, d')"
proof (cases "st_create_new S (seg_path (jc_dir (j_config j)) first) d")
  case (Pair res d1)
  show ?thesis
  proof (cases res)
    case (Ok h)
    from assms obtain e d2 where "st_write_all S h (segment_header_bytes first (j_epoch j)) d1 = (Err e, d2)" by blast
    with Pair Ok show ?thesis by (simp add: start_segment_def jio_def)
  qed (use Pair in \<open>simp add: start_segment_def jio_def\<close>)
qed

lemma refused_write:
  assumes "\<forall>h bs d. \<exists>e d'. st_write_all S h bs d = (Err e, d')"
  shows "\<exists>e d'. write_encoded S t buf n q j d = (Err e, j, d')"
proof (cases "j_current j")
  case (Some seg)
  from assms obtain e d' where "st_write_all S (os_file seg) buf d = (Err e, d')" by blast
  with Some show ?thesis by (simp add: write_encoded_def jio_def)
qed (simp add: write_encoded_def)

lemma refused_roll:
  assumes "\<forall>h bs d. \<exists>e d'. st_write_all S h bs d = (Err e, d')"
  shows "\<exists>e j' d'. roll_segment S t first j d = (Err e, j', d') \<and> j_last_seq j' = j_last_seq j"
proof -
  obtain res j1 d1 where s: "journal_sync S t j d = (res, j1, d1)" by (metis prod_cases3)
  then have "j_last_seq j1 = j_last_seq j" using refused_sync [of S t j d] by simp
  with s refused_start [OF assms, of first j1 d1] show ?thesis by (cases res) (auto simp: roll_segment_def)
qed

lemma refused_append:
  assumes "\<forall>h bs d. \<exists>e d'. st_write_all S h bs d = (Err e, d')"
  shows "\<exists>e j' d'. journal_append S t f j d = (Err e, j', d') \<and> j_last_seq j' = j_last_seq j"
  using refused_roll [OF assms, of t "f_seq f" j d] refused_write [OF assms, of t "frame_write f" 1 "f_seq f" j d]
  by (cases "f_seq f = seq_next (j_last_seq j)"; cases "needs_roll j (frame_encoded_len f)") (auto simp: journal_append_def Let_def)

lemma refused_submit:
  assumes "\<forall>h bs d. \<exists>e d'. st_write_all (e_storage E) h bs d = (Err e, d')"
    and "length (encode_to_vec (sv_enc_input (e_service E)) i) \<le> unat MAX_PAYLOAD_LEN"
  shows "\<exists>e n' d'. submit E t i n d = Some (Err e, n', d') \<and> n_service n' = n_service n \<and> n_bus n' = n_bus n \<and>
    j_last_seq (n_journal n') = j_last_seq (n_journal n)"
proof -
  let ?pl = "encode_to_vec (sv_enc_input (e_service E)) i"
  obtain at n1 where c: "read_clock (e_now E) n = (at, n1)" "n_service n1 = n_service n" "n_bus n1 = n_bus n" "n_journal n1 = n_journal n"
    by (cases "e_now E (n_clock n)") (simp add: read_clock_def)
  obtain f n2 where st: "stage_frame Input ?pl at n1 = (Some f, n2)" "n_service n2 = n_service n" "n_bus n2 = n_bus n" "n_journal n2 = n_journal n"
    using assms(2) c(2-4) by (auto simp: stage_frame_def frame_new_def Let_def)
  from refused_append [OF assms(1), of t f "n_journal n2" d] st(4) obtain e j' d' where
    "journal_append (e_storage E) t f (n_journal n2) d = (Err e, j', d')" "j_last_seq j' = j_last_seq (n_journal n)" by auto
  with c(1) st show ?thesis by (simp add: submit_def sequence_frame_def sequence_at_def)
qed

section \<open>Properties\<close>

text \<open>
  C12. Exactly once: for any interleaving of connections, retries and reconnects, the commands of
  a session that the gateway submits carry the client numbers that follow the last admitted one,
  each once and in order, and each is a command that a client sent. Nothing else reaches the
  node but the sequenced session closes.
\<close>

theorem gateway_exactly_once:
  assumes "sequencer_loop E ee cfg reqs (n, d, gateway_new cfg cs) = Some (n', d', g')"
  shows "\<exists>ins. node_submits E ins n d = Some (n', d') \<and>
    (\<forall>session. consecutive (last_admitted cfg session + 1) (client_seqs session (map snd ins)) \<and>
      (length ins < 2 ^ 64 \<longrightarrow> distinct (client_seqs session (map snd ins)))) \<and>
    (\<forall>session q cmd. Client session q cmd \<in> snd ` set ins \<longrightarrow> ReqCmd session q cmd \<in> snd ` set reqs)"
proof -
  from sequencer_loop_admits [OF assms] obtain ins where
    i: "node_submits E ins n d = Some (n', d')"
      "\<forall>session. consecutive (expected_seq cfg (gateway_new cfg cs) session) (client_seqs session (map snd ins))"
      "\<forall>session q cmd. Client session q cmd \<in> snd ` set ins \<longrightarrow> ReqCmd session q cmd \<in> snd ` set reqs" by blast
  have c: "consecutive (last_admitted cfg session + 1) (client_seqs session (map snd ins))" for session
    using i(2) by (simp add: expected_new)
  have "distinct (client_seqs session (map snd ins))" if "length ins < 2 ^ 64" for session
    by (rule consecutive_distinct [OF c]) (use that length_client_seqs [of session "map snd ins"] in simp)
  then show ?thesis by (intro exI [of _ ins] conjI allI impI i(1) c) (use i(3) in simp_all)
qed

theorem gateway_exactly_once_witness:
  "\<exists>n' d' g' ins. sequencer_loop (sim_env echo manual_now) enc_int serve_config_default
       [(0, Attach 5 0 1), (0, ReqCmd 5 1 42), (1, ReqCmd 5 1 42)] (echo_node, sim_new, gateway_new serve_config_default (\<lambda>_. (True, []))) =
       Some (n', d', g') \<and> node_submits (sim_env echo manual_now) ins echo_node sim_new = Some (n', d') \<and>
     consecutive 1 (client_seqs 5 (map snd ins))"
proof -
  obtain s n d where sub: "submit (sim_env echo manual_now) 0 (Client 5 1 42) echo_node sim_new =
      Some (Ok (s, [\<lparr>ad_session = 5, ad_event = 42\<rparr>]), n, d)"
    using echo_submits by blast
  have "\<exists>g'. sequencer_loop (sim_env echo manual_now) enc_int serve_config_default
       [(0, Attach 5 0 1), (0, ReqCmd 5 1 42), (1, ReqCmd 5 1 42)] (echo_node, sim_new, gateway_new serve_config_default (\<lambda>_. (True, []))) =
       Some (n, d, g')"
    by (simp add: handle_cmd_def sub handle_attach_def gateway_new_def serve_config_default_def bt_collect_def flow_new_def
        flow_resume_def flow_admit_def flow_on_acked_def replay_after_def sinks_new_def entry_or_def bt_get_def Let_def)
  then obtain g' where "sequencer_loop (sim_env echo manual_now) enc_int serve_config_default
       [(0, Attach 5 0 1), (0, ReqCmd 5 1 42), (1, ReqCmd 5 1 42)] (echo_node, sim_new, gateway_new serve_config_default (\<lambda>_. (True, []))) =
       Some (n, d, g')" by blast
  from gateway_exactly_once [OF this] this show ?thesis
    by (auto simp: last_admitted_def serve_config_default_def)
qed

text \<open>
  C34. Reconnecting loses nothing within the retention: after any run of the loop (connections of any sessions that come, send commands,
  watch, close and reconnect), a client that attaches and reports the number of the last event it saw is sent exactly the events of
  its session after it, in order and with their numbers, if at most \<open>outbox_capacity\<close> were missed, and its connection is the live one. The events counted
  are those since the last failed submit of a command of the session: such a failure drops what was retained and starts the
  numbers again at 1, so a client that was connected before it is not backfilled across it.
\<close>

theorem gateway_backfill:
  assumes "sequencer_loop E ee cfg reqs (n, d, gateway_new cfg cs) = Some (n', d', g1)"
    and "evs = loop_events E ee cfg session reqs (n, d, gateway_new cfg cs) []" and "length evs < 2 ^ 64 - 1"
    and "unat from_seq \<le> length evs" and "length evs \<le> unat from_seq + sg_outbox_capacity cfg" and "fst (gw_chans g1 sink)"
  shows "\<exists>g2. handle_req E ee cfg t (Attach session from_seq sink) (n', d', g1) = Some (n', d', g2) \<and>
    gw_chans g2 sink = (True, snd (gw_chans g1 sink) @ map snd (drop (unat from_seq) (numbered ee 1 evs))) \<and>
    map_option sk_cmd (bt_get (gw_sinks g2) session) = Some (Some sink)"
proof -
  define entry where "entry = entry_or (gw_sinks g1) session sinks_new"
  have "boxed ee (sg_outbox_capacity cfg) session [] (gateway_new cfg cs)" by (rule boxed_new) (simp add: gateway_new_def)
  from sequencer_loop_boxed [OF assms(1) this] have
    box: "sk_outbox entry = drop (length evs - sg_outbox_capacity cfg) (numbered ee 1 evs)"
    by (simp add: boxed_def entry_def assms(2))
  have "replay_after from_seq (entry\<lparr>sk_cmd := Some sink\<rparr>) = map snd (drop (unat from_seq) (numbered ee 1 evs))"
    using filter_numbered [OF assms(3,4), of "length evs - sg_outbox_capacity cfg" ee] assms(5) by (simp add: replay_after_def box)
  with send_all_alive [of "gw_chans g1" sink] assms(6) show ?thesis
    by (simp add: handle_attach_def Let_def entry_def [symmetric])
qed

text \<open>A client that was attached on one connection and reconnects on another without having seen its event.\<close>

theorem gateway_backfill_witness:
  "\<exists>n' d' g1 g2. sequencer_loop (sim_env echo manual_now) enc_int serve_config_default [(0, Attach 5 0 1), (0, ReqCmd 5 1 42)]
       (echo_node, sim_new, gateway_new serve_config_default (\<lambda>_. (True, []))) = Some (n', d', g1) \<and>
     handle_req (sim_env echo manual_now) enc_int serve_config_default 1 (Attach 5 0 9) (n', d', g1) = Some (n', d', g2) \<and>
     gw_chans g2 9 = (True, snd (gw_chans g1 9) @ [write_msg (enc_server_msg enc_int) (EventMsg 1 (42 :: u64))])"
proof -
  let ?E = "sim_env echo manual_now" and ?cfg = serve_config_default
  let ?st = "(echo_node, sim_new, gateway_new serve_config_default (\<lambda>_. (True, [])))"
  let ?reqs = "[(0, Attach 5 0 1), (0, ReqCmd 5 1 42)]"
  obtain s n d where sub: "submit ?E 0 (Client 5 1 42) echo_node sim_new = Some (Ok (s, [\<lparr>ad_session = 5, ad_event = 42\<rparr>]), n, d)"
    using echo_submits by blast
  note run = handle_cmd_def sub handle_attach_def gateway_new_def serve_config_default_def bt_collect_def flow_new_def
    flow_resume_def flow_admit_def flow_on_acked_def replay_after_def sinks_new_def entry_or_def bt_get_def Let_def
  obtain g1 where loop: "sequencer_loop ?E enc_int ?cfg ?reqs ?st = Some (n, d, g1)" and alive: "fst (gw_chans g1 9)"
    by (simp add: run send_to_cmd_def chan_send_def route_events_def route_event_def)
  have evs: "[42 :: u64] = loop_events ?E enc_int ?cfg 5 ?reqs ?st []" by (simp add: run events_of_def)
  from gateway_backfill [OF loop evs _ _ _ alive, of 0 1] obtain g2 where
    "handle_req ?E enc_int ?cfg 1 (Attach 5 0 9) (n, d, g1) = Some (n, d, g2)"
    "gw_chans g2 9 = (True, snd (gw_chans g1 9) @ [write_msg (enc_server_msg enc_int) (EventMsg 1 (42 :: u64))])"
    by (auto simp: serve_config_default_def)
  with loop show ?thesis by blast
qed

text \<open>
  C40. Where exactly once breaks: admission consumes the client's number before the submit. While the disk refuses writes, the submit of a
  command fails and nothing is sequenced: the service state, the published stream and the journal's position are as before. Yet when the client
  reconnects and sends the command again, the gateway rejects it as a duplicate, whose meaning is that its effect already happened, and
  the node does not see it, even if the disk accepts writes again by then.
\<close>

theorem failed_submit_becomes_duplicate:
  assumes "\<forall>h bs d. \<exists>e d'. st_write_all (e_storage E) h bs d = (Err e, d')"
    and "length (encode_to_vec (sv_enc_input (e_service E)) (Client session q cmd)) \<le> unat MAX_PAYLOAD_LEN"
    and "q = expected_seq cfg g session" and "q \<noteq> -1"
    and "sf_outstanding (entry_or (gw_flows g) session (flow_new (sg_window cfg))) < sf_window (entry_or (gw_flows g) session (flow_new (sg_window cfg)))"
    and "fst (gw_chans g sink)"
  shows "\<exists>n1 d1 g1 g'. sequencer_loop E ee cfg [(t, ReqCmd session q cmd)] (n, d, g) = Some (n1, d1, g1) \<and>
    n_service n1 = n_service n \<and> n_bus n1 = n_bus n \<and> j_last_seq (n_journal n1) = j_last_seq (n_journal n) \<and>
    sequencer_loop E' ee cfg [(t', Attach session 0 sink), (t'', ReqCmd session q cmd)] (n1, d1, g1) = Some (n1, d1, g') \<and>
    snd (gw_chans g' sink) = snd (gw_chans g sink) @ [write_msg (enc_server_msg ee) (RejectedMsg q RejectDuplicate)]"
proof -
  from refused_submit [OF assms(1,2), of t n d] obtain e n1 d1 where
    sub: "submit E t (Client session q cmd) n d = Some (Err e, n1, d1)" "n_service n1 = n_service n" "n_bus n1 = n_bus n"
      "j_last_seq (n_journal n1) = j_last_seq (n_journal n)" by blast
  define flow where "flow = entry_or (gw_flows g) session (flow_new (sg_window cfg))"
  let ?flow = "flow\<lparr>sf_next := q + 1, sf_outstanding := sf_outstanding flow + 1\<rparr>"
  define g1 where "g1 = g\<lparr>gw_flows := bt_insert session ?flow (gw_flows g), gw_sinks := bt_remove session (gw_sinks g)\<rparr>"
  have q: "sf_next flow = q" "\<not> sf_window flow \<le> sf_outstanding flow"
    using assms(3,5) by (simp_all add: flow_def expected_seq_def)
  have one: "handle_cmd E ee cfg t session q cmd (n, d, g) = Some (n1, d1, g1)"
    using sub(1) q by (simp add: handle_cmd_def flow_def [symmetric] flow_admit_def Let_def g1_def)
  let ?entry = "sinks_new\<lparr>sk_cmd := Some sink\<rparr>"
  define g2 where "g2 = g1\<lparr>gw_flows := bt_insert session ?flow (gw_flows g1), gw_sinks := bt_insert session ?entry (gw_sinks g1)\<rparr>"
  have two: "handle_attach cfg session 0 sink g1 = g2"
    by (simp add: handle_attach_def g1_def g2_def entry_or_def replay_after_def sinks_new_def Let_def)
  have "q < q + 1" by (rule less_plus_one [OF assms(4)])
  then have "\<exists>g'. handle_cmd E' ee cfg t'' session q cmd (n1, d1, g2) = Some (n1, d1, g') \<and>
      snd (gw_chans g' sink) = snd (gw_chans g sink) @ [write_msg (enc_server_msg ee) (RejectedMsg q RejectDuplicate)]"
    using assms(6) by (simp add: handle_cmd_def g2_def g1_def flow_admit_def Let_def send_to_cmd_def chan_send_def sinks_new_def)
  with one two sub(2-4) show ?thesis by fastforce
qed

theorem failed_submit_becomes_duplicate_witness:
  "\<exists>n d g1 g'. sequencer_loop full_env enc_int serve_config_default [(0, ReqCmd 5 1 42)]
       (echo_node, sim_new, gateway_new serve_config_default (\<lambda>_. (True, []))) = Some (n, d, g1) \<and> j_last_seq (n_journal n) = 0 \<and>
     sequencer_loop (sim_env echo manual_now) enc_int serve_config_default [(1, Attach 5 0 9), (2, ReqCmd 5 1 42)] (n, d, g1) = Some (n, d, g') \<and>
     snd (gw_chans g' 9) = [write_msg (enc_server_msg enc_int) (RejectedMsg 1 RejectDuplicate :: u64 server_msg)]"
proof -
  let ?g = "gateway_new serve_config_default (\<lambda>_. (True, []))"
  have full: "\<forall>h bs d. \<exists>e d'. st_write_all (e_storage full_env) h bs d = (Err e, d')" by (simp add: full_disk_def)
  have len: "length (encode_to_vec (sv_enc_input (e_service full_env)) (Client 5 1 42)) \<le> unat MAX_PAYLOAD_LEN"
    by (simp add: echo_def enc_gateway_input_def enc_enum_def enc_pair_def enc_int_def encode_to_vec_def MAX_PAYLOAD_LEN_def)
  have new: "bt_get (gw_flows ?g) 5 = None" by (simp add: gateway_new_def serve_config_default_def bt_collect_def)
  then have q: "1 = expected_seq serve_config_default ?g 5"
      "sf_outstanding (entry_or (gw_flows ?g) 5 (flow_new (sg_window serve_config_default))) <
       sf_window (entry_or (gw_flows ?g) 5 (flow_new (sg_window serve_config_default)))" "fst (gw_chans ?g 9)"
    by (simp_all add: expected_seq_def entry_or_def flow_new_def flow_resume_def serve_config_default_def gateway_new_def)
  from failed_submit_becomes_duplicate [OF full len q(1) _ q(2,3), of enc_int 0 echo_node sim_new "sim_env echo manual_now" 1 2]
  show ?thesis by (simp add: echo_node_def gateway_new_def) blast
qed

end
