(* ===== verification/Shm.thy ===== *)
theory Shm
  imports Prelude
begin

text \<open>
  \<open>ticktape-transport/src/shm.rs\<close>: the single-producer single-consumer ring of slots in a mapped
  file. The mapping is a list of bytes that both sides share; a cursor is eight bytes of its
  header. \<open>publish\<close> and \<open>try_recv\<close> are the two operations, \<open>None\<close> where a slice is out of range and the code
  panics. \<open>ring_step\<close> interleaves them byte by byte: every load or store of a cursor is one
  step, and so is every byte copied into or out of a slot. The \<open>Release\<close> stores and \<open>Acquire\<close> loads of the
  cursors are what makes an interleaving of steps the right model of the two threads.
\<close>

section \<open>Memory\<close>

definition poke :: "nat \<Rightarrow> bytes \<Rightarrow> bytes \<Rightarrow> bytes" where
  "poke off bs mem = take off mem @ bs @ drop (off + length bs) mem"

definition load64 :: "nat \<Rightarrow> bytes \<Rightarrow> u64" where
  "load64 off mem = from_le_bytes (slice off (off + 8) mem)"

definition store64 :: "nat \<Rightarrow> u64 \<Rightarrow> bytes \<Rightarrow> bytes" where
  "store64 off v = poke off (to_le_bytes v)"

section \<open>The ring\<close>

definition SHM_MAGIC :: bytes where "SHM_MAGIC = map (of_nat \<circ> of_char) ''TKSM''"
definition SHM_VERSION :: u32 where "SHM_VERSION = 1"
definition HEADER_BYTES :: nat where "HEADER_BYTES = 64"
definition OFF_MAGIC :: nat where "OFF_MAGIC = 0"
definition OFF_VERSION :: nat where "OFF_VERSION = 4"
definition OFF_CAPACITY :: nat where "OFF_CAPACITY = 8"
definition OFF_SLOT_BYTES :: nat where "OFF_SLOT_BYTES = 16"
definition OFF_WRITE_SEQ :: nat where "OFF_WRITE_SEQ = 24"
definition OFF_READ_SEQ :: nat where "OFF_READ_SEQ = 32"

lemmas shm_consts = SHM_VERSION_def HEADER_BYTES_def OFF_MAGIC_def OFF_VERSION_def OFF_CAPACITY_def OFF_SLOT_BYTES_def
  OFF_WRITE_SEQ_def OFF_READ_SEQ_def

record shm_ring =
  sr_capacity :: u64
  sr_slot_bytes :: u64

definition is_power_of_two :: "u64 \<Rightarrow> bool" where
  "is_power_of_two c \<longleftrightarrow> c \<noteq> 0 \<and> c AND (c - 1) = 0"

text \<open>The new file is all zeroes; the system calls that make and map it are taken to succeed.\<close>

definition shm_create :: "u64 \<Rightarrow> nat \<Rightarrow> (shm_ring \<times> bytes) option" where
  "shm_create capacity max_packet =
     (if \<not> is_power_of_two capacity then None
      else
        let slot_bytes = of_nat (4 + max_packet) :: u64;
            total_len = unat (of_nat HEADER_BYTES + capacity * slot_bytes);
            mem = replicate total_len 0
        in if total_len < OFF_READ_SEQ + 8 then None
        else
          let mem = poke OFF_MAGIC SHM_MAGIC mem;
              mem = poke OFF_VERSION (to_le_bytes SHM_VERSION) mem;
              mem = store64 OFF_CAPACITY capacity mem;
              mem = store64 OFF_SLOT_BYTES slot_bytes mem;
              mem = store64 OFF_WRITE_SEQ 0 mem;
              mem = store64 OFF_READ_SEQ 0 mem
          in Some (\<lparr>sr_capacity = capacity, sr_slot_bytes = slot_bytes\<rparr>, mem))"

datatype attach_error = NotARing

definition shm_attach :: "bytes \<Rightarrow> (shm_ring, attach_error) result option" where
  "shm_attach mem =
     (if length mem < OFF_MAGIC + 4 then None
      else if slice OFF_MAGIC (OFF_MAGIC + 4) mem \<noteq> SHM_MAGIC then Some (Err NotARing)
      else if length mem < OFF_SLOT_BYTES + 8 then None
      else Some (Ok \<lparr>sr_capacity = load64 OFF_CAPACITY mem, sr_slot_bytes = load64 OFF_SLOT_BYTES mem\<rparr>))"

definition slot_start :: "shm_ring \<Rightarrow> u64 \<Rightarrow> nat" where
  "slot_start h s = HEADER_BYTES + unat ((s AND (sr_capacity h - 1)) * sr_slot_bytes h)"

definition slot_message :: "bytes \<Rightarrow> bytes" where
  "slot_message packet = to_le_bytes (of_nat (length packet) :: u32) @ packet"

definition shm_publish :: "shm_ring \<Rightarrow> bytes \<Rightarrow> bytes \<Rightarrow> (bool \<times> bytes) option" where
  "shm_publish h packet mem =
     (let write = load64 OFF_WRITE_SEQ mem; read = load64 OFF_READ_SEQ mem in
      if write - read \<ge> sr_capacity h then Some (False, mem)
      else if unat (sr_slot_bytes h) < 4 + length packet then None
      else Some (True, store64 OFF_WRITE_SEQ (write + 1) (poke (slot_start h write) (slot_message packet) mem)))"

text \<open>The caller's buffer matters by its length; the result is what was copied into it.\<close>

definition shm_try_recv :: "shm_ring \<Rightarrow> nat \<Rightarrow> bytes \<Rightarrow> (bytes option \<times> bytes) option" where
  "shm_try_recv h buf_len mem =
     (let read = load64 OFF_READ_SEQ mem; write = load64 OFF_WRITE_SEQ mem in
      if read = write then Some (None, mem)
      else if unat (sr_slot_bytes h) < 4 then None
      else
        let start = slot_start h read;
            len = unat (from_le_bytes (slice start (start + 4) mem) :: u32);
            n = min len buf_len
        in if unat (sr_slot_bytes h) < 4 + n then None
        else Some (Some (slice (start + 4) (start + 4 + n) mem), store64 OFF_READ_SEQ (read + 1) mem))"

text \<open>
  \<open>recv_packet\<close> spins on \<open>try_recv\<close> until the deadline; what the producer does between two
  tries is the list of mappings the tries find. The list ends at the deadline.
\<close>

fun shm_recv_packet :: "shm_ring \<Rightarrow> nat \<Rightarrow> bytes list \<Rightarrow> (bytes option \<times> bytes list) option" where
  "shm_recv_packet h buf_len [] = Some (None, [])"
| "shm_recv_packet h buf_len (mem # mems) =
     (case shm_try_recv h buf_len mem of
        None \<Rightarrow> None
      | Some (Some packet, mem) \<Rightarrow> Some (Some packet, mem # mems)
      | Some (None, mem) \<Rightarrow> shm_recv_packet h buf_len mems)"

definition publish_or_drop :: "shm_ring \<Rightarrow> bytes \<Rightarrow> bytes \<Rightarrow> (bool \<times> bytes) option" where
  "publish_or_drop h packet mem = shm_publish h packet mem"

section \<open>The two threads, byte by byte\<close>

datatype producer =
    PIdle
  | PLoaded bytes u64
  | PWriting bytes u64 nat

datatype consumer =
    CIdle
  | CLoaded nat u64
  | CReading nat u64 bytes

record shm_state =
  sh_mem :: bytes
  sh_producer :: producer
  sh_consumer :: consumer
  sh_sent :: "bytes list"
  sh_got :: "(nat \<times> bytes) list"

text \<open>How many bytes the consumer copies: the length prefix, then what fits its buffer.\<close>

definition copy_len :: "nat \<Rightarrow> bytes \<Rightarrow> nat" where
  "copy_len buf_len acc =
     (if length acc < 4 then 4 else 4 + min (unat (from_le_bytes (take 4 acc) :: u32)) buf_len)"

inductive ring_step :: "shm_ring \<Rightarrow> shm_state \<Rightarrow> shm_state \<Rightarrow> bool" for h where
  p_load: "sh_producer st = PIdle \<Longrightarrow> 4 + length p \<le> unat (sr_slot_bytes h) \<Longrightarrow> length p < 2 ^ 32 \<Longrightarrow>
    ring_step h st (st\<lparr>sh_producer := PLoaded p (load64 OFF_WRITE_SEQ (sh_mem st))\<rparr>)"
| p_full: "sh_producer st = PLoaded p w \<Longrightarrow> w - load64 OFF_READ_SEQ (sh_mem st) \<ge> sr_capacity h \<Longrightarrow>
    ring_step h st (st\<lparr>sh_producer := PIdle\<rparr>)"
| p_claim: "sh_producer st = PLoaded p w \<Longrightarrow> \<not> w - load64 OFF_READ_SEQ (sh_mem st) \<ge> sr_capacity h \<Longrightarrow>
    ring_step h st (st\<lparr>sh_producer := PWriting p w 0\<rparr>)"
| p_write: "sh_producer st = PWriting p w k \<Longrightarrow> k < length (slot_message p) \<Longrightarrow>
    ring_step h st (st\<lparr>sh_mem := (sh_mem st)[slot_start h w + k := slot_message p ! k], sh_producer := PWriting p w (Suc k)\<rparr>)"
| p_store: "sh_producer st = PWriting p w k \<Longrightarrow> k = length (slot_message p) \<Longrightarrow>
    ring_step h st (st\<lparr>sh_mem := store64 OFF_WRITE_SEQ (w + 1) (sh_mem st), sh_producer := PIdle, sh_sent := sh_sent st @ [p]\<rparr>)"
| c_load: "sh_consumer st = CIdle \<Longrightarrow>
    ring_step h st (st\<lparr>sh_consumer := CLoaded n (load64 OFF_READ_SEQ (sh_mem st))\<rparr>)"
| c_empty: "sh_consumer st = CLoaded n r \<Longrightarrow> r = load64 OFF_WRITE_SEQ (sh_mem st) \<Longrightarrow>
    ring_step h st (st\<lparr>sh_consumer := CIdle\<rparr>)"
| c_claim: "sh_consumer st = CLoaded n r \<Longrightarrow> r \<noteq> load64 OFF_WRITE_SEQ (sh_mem st) \<Longrightarrow>
    ring_step h st (st\<lparr>sh_consumer := CReading n r []\<rparr>)"
| c_read: "sh_consumer st = CReading n r acc \<Longrightarrow> length acc < copy_len n acc \<Longrightarrow>
    ring_step h st (st\<lparr>sh_consumer := CReading n r (acc @ [sh_mem st ! (slot_start h r + length acc)])\<rparr>)"
| c_store: "sh_consumer st = CReading n r acc \<Longrightarrow> length acc = copy_len n acc \<Longrightarrow>
    ring_step h st (st\<lparr>sh_mem := store64 OFF_READ_SEQ (r + 1) (sh_mem st), sh_consumer := CIdle,
      sh_got := sh_got st @ [(n, drop 4 acc)]\<rparr>)"

definition ring_start :: "bytes \<Rightarrow> shm_state" where
  "ring_start mem = \<lparr>sh_mem = mem, sh_producer = PIdle, sh_consumer = CIdle, sh_sent = [], sh_got = []\<rparr>"

inductive ring_run :: "u64 \<Rightarrow> nat \<Rightarrow> shm_state \<Rightarrow> bool" for capacity max_packet where
  ring_init: "shm_create capacity max_packet = Some (h, mem) \<Longrightarrow> ring_run capacity max_packet (ring_start mem)"
| ring_next: "ring_run capacity max_packet st \<Longrightarrow> shm_create capacity max_packet = Some (h, mem) \<Longrightarrow> ring_step h st st' \<Longrightarrow>
    ring_run capacity max_packet st'"

end
