(* ===== verification/Shm_Props.thy ===== *)
theory Shm_Props
  imports Shm
begin

text \<open>
  The ring under every interleaving of its two threads: nothing is torn, reordered or lost, also when the
  cursors wrap; and its operations, run one at a time, are those of a bounded queue.
\<close>

section \<open>Memory\<close>

lemma length_poke [simp]: "off + length bs \<le> length mem \<Longrightarrow> length (poke off bs mem) = length mem"
  by (simp add: poke_def)

lemma nth_poke:
  "off + length bs \<le> length mem \<Longrightarrow> i < length mem \<Longrightarrow>
     poke off bs mem ! i = (if off \<le> i \<and> i < off + length bs then bs ! (i - off) else mem ! i)"
  by (auto simp: poke_def nth_append min_def)

lemma slice_poke_other:
  assumes "off + length bs \<le> length mem" and "j \<le> length mem" and "j \<le> off \<or> off + length bs \<le> i"
  shows "slice i j (poke off bs mem) = slice i j mem"
  using assms by (intro nth_equalityI) (auto simp: slice_def nth_poke)

lemma slice_poke_same: "off + length bs \<le> length mem \<Longrightarrow> slice off (off + length bs) (poke off bs mem) = bs"
  by (intro nth_equalityI) (auto simp: slice_def nth_poke)

lemma load64_store64_same: "off + 8 \<le> length mem \<Longrightarrow> load64 off (store64 off v mem) = v"
  using slice_poke_same [of off "to_le_bytes v" mem] by (simp add: load64_def store64_def)

lemma load64_poke_other:
  "off' + length bs \<le> length mem \<Longrightarrow> off + 8 \<le> length mem \<Longrightarrow> off + 8 \<le> off' \<or> off' + length bs \<le> off \<Longrightarrow>
     load64 off (poke off' bs mem) = load64 off mem"
  by (simp add: load64_def slice_poke_other)

lemma length_store64 [simp]: "off + 8 \<le> length mem \<Longrightarrow> length (store64 off v mem) = length mem"
  by (simp add: store64_def)

lemma load64_update_other: "pos < off \<or> off + 8 \<le> pos \<Longrightarrow> load64 off (mem[pos := x]) = load64 off mem"
proof -
  assume "pos < off \<or> off + 8 \<le> pos"
  then have "slice off (off + 8) (mem[pos := x]) = slice off (off + 8) mem"
    by (intro nth_equalityI) (auto simp: slice_def nth_list_update)
  then show ?thesis by (simp add: load64_def)
qed

lemma nth_store64_other:
  "off + 8 \<le> length mem \<Longrightarrow> i < length mem \<Longrightarrow> off + 8 \<le> i \<Longrightarrow> store64 off v mem ! i = mem ! i"
  by (simp add: store64_def nth_poke)

section \<open>Slots\<close>

lemma power_of_two_nat: "0 < (m :: nat) \<Longrightarrow> m AND (m - 1) = 0 \<Longrightarrow> \<exists>n. m = 2 ^ n"
proof (induction m rule: less_induct)
  case (less m)
  show ?case
  proof (cases "even m")
    case True
    then obtain k where k: "m = 2 * k" by blast
    have "(m - 1) div 2 = k - 1" using k by simp
    then have "m AND (m - 1) = 2 * (k AND (k - 1))" using k by (subst and_nat_rec) simp
    with less k obtain n where "k = 2 ^ n" by fastforce
    then show ?thesis using k by (intro exI [of _ "Suc n"]) simp
  next
    case False
    then obtain k where k: "m = 2 * k + 1" by (metis oddE)
    then have "m AND (m - 1) = 2 * k" by (subst and_nat_rec) simp
    then show ?thesis using less.prems k by (intro exI [of _ 0]) simp
  qed
qed

lemma is_power_of_twoD: "is_power_of_two c \<Longrightarrow> \<exists>n < 64. c = 2 ^ n"
proof -
  assume c: "is_power_of_two c"
  then have nz: "c \<noteq> 0" and "unat (c AND (c - 1)) = 0" by (simp_all add: is_power_of_two_def)
  then have "unat c AND (unat c - 1) = 0" by (simp add: unsigned_and_eq unat_minus_one)
  with nz obtain n where n: "unat c = 2 ^ n" using power_of_two_nat [of "unat c"] by (auto simp: unat_gt_0)
  then have "(2 :: nat) ^ n < 2 ^ 64" using unat_bound [of c] by simp
  then have "n < 64" by (rule power_less_imp_less_exp [rotated]) simp
  moreover have "c = 2 ^ n" using arg_cong [OF n, of "of_nat :: nat \<Rightarrow> u64"] by simp
  ultimately show ?thesis by blast
qed

text \<open>The shape of a created ring: \<open>2 ^ n\<close> slots after the header, all addresses below \<open>2 ^ 64\<close>.\<close>

definition ring_geom :: "shm_ring \<Rightarrow> nat \<Rightarrow> bytes \<Rightarrow> bool" where
  "ring_geom h n mem \<longleftrightarrow> n < 64 \<and> sr_capacity h = 2 ^ n \<and> 4 \<le> unat (sr_slot_bytes h) \<and>
     length mem = HEADER_BYTES + 2 ^ n * unat (sr_slot_bytes h) \<and> length mem < 2 ^ 64"

abbreviation slot_at :: "shm_ring \<Rightarrow> nat \<Rightarrow> nat \<Rightarrow> nat" where
  "slot_at h n i \<equiv> HEADER_BYTES + (i mod 2 ^ n) * unat (sr_slot_bytes h)"

lemma slot_start_at:
  assumes "ring_geom h n mem"
  shows "slot_start h (of_nat i) = slot_at h n i"
proof -
  have n: "n < 64" "sr_capacity h = 2 ^ n" using assms by (simp_all add: ring_geom_def)
  have "sr_capacity h - 1 = mask n" using n by (simp add: mask_eq_exp_minus_1)
  then have "unat ((of_nat i :: u64) AND (sr_capacity h - 1)) = take_bit n (take_bit 64 i)"
    by (simp only: take_bit_eq_mask [symmetric] unsigned_take_bit_eq) (simp add: unsigned_of_nat)
  then have idx: "unat ((of_nat i :: u64) AND (sr_capacity h - 1)) = i mod 2 ^ n"
    using n(1) by (simp only: take_bit_take_bit) (simp add: take_bit_eq_mod min_def)
  have "(i mod 2 ^ n) * unat (sr_slot_bytes h) < 2 ^ 64"
  proof -
    have "(i mod 2 ^ n) * unat (sr_slot_bytes h) \<le> 2 ^ n * unat (sr_slot_bytes h)" by (intro mult_le_mono1) (simp add: less_imp_le)
    also have "\<dots> < 2 ^ 64" using assms by (simp add: ring_geom_def)
    finally show ?thesis .
  qed
  then show ?thesis by (simp add: slot_start_def idx unat_mult_lem [THEN iffD1])
qed

lemma slot_in_mem:
  assumes "ring_geom h n mem" and "j < unat (sr_slot_bytes h)"
  shows "slot_at h n i + j < length mem"
proof -
  have "i mod 2 ^ n + 1 \<le> 2 ^ n" by (simp add: Suc_leI)
  then have "(i mod 2 ^ n + 1) * unat (sr_slot_bytes h) \<le> 2 ^ n * unat (sr_slot_bytes h)" by (rule mult_le_mono1)
  then show ?thesis using assms by (simp add: ring_geom_def)
qed

text \<open>Two cursors less than the capacity apart address different slots.\<close>

lemma slots_disjoint:
  assumes "j < unat (sr_slot_bytes h)" and "j' < unat (sr_slot_bytes h)" and "i < i'" and "i' < i + 2 ^ n"
  shows "slot_at h n i + j \<noteq> slot_at h n i' + j'"
proof
  assume eq: "slot_at h n i + j = slot_at h n i' + j'"
  let ?s = "unat (sr_slot_bytes h)"
  have "((i mod 2 ^ n) * ?s + j) div ?s = ((i' mod 2 ^ n) * ?s + j') div ?s" using eq by simp
  then have "i mod 2 ^ n = i' mod 2 ^ n" using assms(1,2) by simp
  then have "2 ^ n dvd i' - i" using assms(3) by (metis less_imp_le mod_eq_dvd_iff_nat)
  then show False using assms(3,4) by (auto dest: dvd_imp_le)
qed

section \<open>The invariant\<close>

lemma length_slot_message [simp]: "length (slot_message p) = 4 + length p"
  by (simp add: slot_message_def)

definition holds :: "shm_ring \<Rightarrow> nat \<Rightarrow> nat \<Rightarrow> nat \<Rightarrow> bytes \<Rightarrow> bytes \<Rightarrow> bool" where
  "holds h n i k p mem \<longleftrightarrow> (\<forall>j < k. mem ! (slot_at h n i + j) = slot_message p ! j)"

text \<open>
  The number of packets sent and received are the true cursors; the words in the header are
  those numbers modulo \<open>2 ^ 64\<close>.
\<close>

definition cursors :: "shm_ring \<Rightarrow> nat \<Rightarrow> bytes list \<Rightarrow> nat \<Rightarrow> bytes \<Rightarrow> bool" where
  "cursors h n ps r mem \<longleftrightarrow> ring_geom h n mem \<and> r \<le> length ps \<and> length ps \<le> r + 2 ^ n \<and>
     load64 OFF_WRITE_SEQ mem = of_nat (length ps) \<and> load64 OFF_READ_SEQ mem = of_nat r \<and>
     (\<forall>p \<in> set ps. 4 + length p \<le> unat (sr_slot_bytes h) \<and> length p < 2 ^ 32) \<and>
     (\<forall>i. r \<le> i \<and> i < length ps \<longrightarrow> holds h n i (4 + length (ps ! i)) (ps ! i) mem)"

definition producer_ok :: "shm_ring \<Rightarrow> nat \<Rightarrow> shm_state \<Rightarrow> bool" where
  "producer_ok h n st \<longleftrightarrow>
     (case sh_producer st of
        PIdle \<Rightarrow> True
      | PLoaded p w \<Rightarrow> w = of_nat (length (sh_sent st)) \<and> 4 + length p \<le> unat (sr_slot_bytes h) \<and> length p < 2 ^ 32
      | PWriting p w k \<Rightarrow> w = of_nat (length (sh_sent st)) \<and> 4 + length p \<le> unat (sr_slot_bytes h) \<and> length p < 2 ^ 32 \<and>
          length (sh_sent st) < length (sh_got st) + 2 ^ n \<and> k \<le> 4 + length p \<and>
          holds h n (length (sh_sent st)) k p (sh_mem st))"

definition consumer_ok :: "shm_state \<Rightarrow> bool" where
  "consumer_ok st \<longleftrightarrow>
     (case sh_consumer st of
        CIdle \<Rightarrow> True
      | CLoaded m r \<Rightarrow> r = of_nat (length (sh_got st))
      | CReading m r acc \<Rightarrow> r = of_nat (length (sh_got st)) \<and> length (sh_got st) < length (sh_sent st) \<and>
          length acc \<le> copy_len m acc \<and>
          acc = take (length acc) (slot_message (sh_sent st ! length (sh_got st))))"

definition ring_inv :: "shm_ring \<Rightarrow> nat \<Rightarrow> shm_state \<Rightarrow> bool" where
  "ring_inv h n st \<longleftrightarrow> cursors h n (sh_sent st) (length (sh_got st)) (sh_mem st) \<and> producer_ok h n st \<and> consumer_ok st \<and>
     (\<forall>i < length (sh_got st). snd (sh_got st ! i) = take (fst (sh_got st ! i)) (sh_sent st ! i))"

lemma holds_cong:
  "(\<And>j. j < k \<Longrightarrow> mem' ! (slot_at h n i + j) = mem ! (slot_at h n i + j)) \<Longrightarrow> holds h n i k p mem' = holds h n i k p mem"
  by (simp add: holds_def)

lemma geom_len: "ring_geom h n mem \<Longrightarrow> length mem' = length mem \<Longrightarrow> ring_geom h n mem'"
  by (simp add: ring_geom_def)

lemma geom_room:
  assumes "ring_geom h n mem"
  shows "HEADER_BYTES + 4 \<le> length mem"
proof -
  have "1 * 4 \<le> (2 :: nat) ^ n * unat (sr_slot_bytes h)" using assms by (intro mult_le_mono) (simp_all add: ring_geom_def)
  then show ?thesis using assms by (simp add: ring_geom_def)
qed

text \<open>Storing a cursor leaves the slots alone.\<close>

lemma holds_store64:
  assumes "ring_geom h n mem" and "off + 8 \<le> HEADER_BYTES" and "k \<le> unat (sr_slot_bytes h)"
  shows "holds h n i k p (store64 off v mem) = holds h n i k p mem"
proof (rule holds_cong)
  fix j assume "j < k"
  then have "slot_at h n i + j < length mem" using assms by (intro slot_in_mem) auto
  then show "store64 off v mem ! (slot_at h n i + j) = mem ! (slot_at h n i + j)"
    using assms(2) geom_room [OF assms(1)] by (intro nth_store64_other) auto
qed

text \<open>Writing a byte of one slot leaves the others alone.\<close>

lemma holds_write_other:
  assumes "i < i'" and "i' < i + 2 ^ n" and "k \<le> unat (sr_slot_bytes h)" and "j < unat (sr_slot_bytes h)"
  shows "holds h n i k p (mem[slot_at h n i' + j := x]) = holds h n i k p mem"
proof (rule holds_cong)
  fix j' assume "j' < k"
  then have "slot_at h n i + j' \<noteq> slot_at h n i' + j" using assms by (intro slots_disjoint) auto
  then show "mem[slot_at h n i' + j := x] ! (slot_at h n i + j') = mem ! (slot_at h n i + j')" by simp
qed

lemma cursor_store:
  assumes "ring_geom h n mem" and "off \<in> {OFF_WRITE_SEQ, OFF_READ_SEQ}" and "off' \<in> {OFF_WRITE_SEQ, OFF_READ_SEQ}"
  shows "load64 off' (store64 off v mem) = (if off' = off then v else load64 off' mem)"
proof -
  have "64 \<le> length mem" using geom_room [OF assms(1)] by (simp add: shm_consts)
  then show ?thesis using assms(2,3) load64_poke_other [of off "to_le_bytes v" mem off']
    by (auto simp: load64_store64_same shm_consts) (auto simp: store64_def)
qed

section \<open>Every step keeps it\<close>

lemma word_diff_cap:
  assumes "r \<le> w" and "w \<le> r + 2 ^ n" and "n < 64"
  shows "(2 ^ n :: u64) \<le> of_nat w - of_nat r \<longleftrightarrow> w = r + 2 ^ n"
proof -
  have lt: "(2 :: nat) ^ n < 2 ^ 64" using assms(3) by (rule power_strict_increasing) simp
  have "of_nat w - of_nat r = (of_nat (w - r) :: u64)" using assms(1) by (simp add: of_nat_diff)
  moreover have "unat (of_nat (w - r) :: u64) = w - r" using assms(2) lt by (intro unat_of_nat_small) simp
  moreover have "unat (2 ^ n :: u64) = 2 ^ n" using unat_of_nat_small [of "2 ^ n", where ?'a = 64] lt by simp
  ultimately show ?thesis using assms(1,2) by (auto simp: word_le_nat_alt)
qed

lemma of_nat_neq:
  assumes "r \<le> w" and "w \<le> r + 2 ^ n" and "n < 64"
  shows "(of_nat r :: u64) = of_nat w \<longleftrightarrow> r = w"
proof
  assume eq: "(of_nat r :: u64) = of_nat w"
  have lt: "(2 :: nat) ^ n < 2 ^ 64" using assms(3) by (rule power_strict_increasing) simp
  have "(of_nat (w - r) :: u64) = 0" using eq assms(1) by (simp add: of_nat_diff)
  moreover have "unat (of_nat (w - r) :: u64) = w - r" using assms(2) lt by (intro unat_of_nat_small) simp
  ultimately show "r = w" using assms(1) by simp
qed simp

lemma cursors_write:
  assumes "cursors h n ps r mem" and "length ps < r + 2 ^ n" and "j < unat (sr_slot_bytes h)"
  shows "cursors h n ps r (mem[slot_at h n (length ps) + j := x])"
proof -
  have geom: "ring_geom h n mem" using assms(1) by (simp add: cursors_def)
  have "holds h n i (4 + length (ps ! i)) (ps ! i) (mem[slot_at h n (length ps) + j := x])" if "r \<le> i" "i < length ps" for i
    using assms that by (subst holds_write_other) (auto simp: cursors_def)
  then show ?thesis using assms(1) geom_len [OF geom, of "mem[_ := x]"]
    by (simp add: cursors_def load64_update_other shm_consts)
qed

lemma cursors_store_write:
  assumes "cursors h n ps r mem" and "length ps < r + 2 ^ n" and "4 + length p \<le> unat (sr_slot_bytes h)" and "length p < 2 ^ 32"
    and "holds h n (length ps) (4 + length p) p mem"
  shows "cursors h n (ps @ [p]) r (store64 OFF_WRITE_SEQ (of_nat (length ps) + 1) mem)"
proof -
  have geom: "ring_geom h n mem" using assms(1) by (simp add: cursors_def)
  have room: "64 \<le> length mem" using geom_room [OF geom] by (simp add: shm_consts)
  let ?mem = "store64 OFF_WRITE_SEQ (of_nat (length ps) + 1) mem"
  have "holds h n i (4 + length ((ps @ [p]) ! i)) ((ps @ [p]) ! i) ?mem" if "r \<le> i" "i < length (ps @ [p])" for i
    using that assms by (subst holds_store64 [OF geom]) (auto simp: cursors_def nth_append less_Suc_eq shm_consts)
  then show ?thesis using assms(1-4) geom_len [OF geom, of ?mem] room
    by (simp add: cursors_def cursor_store [OF geom] shm_consts add.commute)
qed

lemma cursors_store_read:
  assumes "cursors h n ps r mem" and "r < length ps"
  shows "cursors h n ps (Suc r) (store64 OFF_READ_SEQ (of_nat r + 1) mem)"
proof -
  have geom: "ring_geom h n mem" using assms(1) by (simp add: cursors_def)
  have room: "64 \<le> length mem" using geom_room [OF geom] by (simp add: shm_consts)
  let ?mem = "store64 OFF_READ_SEQ (of_nat r + 1) mem"
  have "holds h n i (4 + length (ps ! i)) (ps ! i) ?mem" if "Suc r \<le> i" "i < length ps" for i
    using that assms by (subst holds_store64 [OF geom]) (auto simp: cursors_def shm_consts)
  then show ?thesis using assms geom_len [OF geom, of ?mem] room
    by (simp add: cursors_def cursor_store [OF geom] shm_consts add.commute)
qed

text \<open>A byte that the consumer copies is a byte of the packet, and the prefix it read is the packet's length.\<close>

lemma copied_byte:
  assumes "cursors h n ps r mem" and "r < length ps" and "k < 4 + length (ps ! r)"
  shows "mem ! (slot_at h n r + k) = slot_message (ps ! r) ! k"
  using assms by (auto simp: cursors_def holds_def)

lemma copy_len_le:
  assumes "length p < 2 ^ 32" and "acc = take (length acc) (slot_message p)"
  shows "copy_len m acc = (if length acc < 4 then 4 else 4 + min (length p) m)"
proof (cases "length acc < 4")
  case False
  then have "take 4 acc = take 4 (slot_message p)" using assms(2) by (metis min.absorb1 not_less take_take)
  then have "take 4 acc = to_le_bytes (of_nat (length p) :: u32)" by (simp add: slot_message_def)
  then show ?thesis using assms(1) False unat_of_nat_small [of "length p", where ?'a = 32] by (simp add: copy_len_def)
qed (simp add: copy_len_def)

lemma ring_inv_step:
  assumes "ring_step h st st'" and inv: "ring_inv h n st"
  shows "ring_inv h n st'"
proof -
  note cur = inv [unfolded ring_inv_def, THEN conjunct1]
  have geom: "ring_geom h n (sh_mem st)" and n: "n < 64" and cap: "sr_capacity h = 2 ^ n"
    and wr: "length (sh_got st) \<le> length (sh_sent st)" "length (sh_sent st) \<le> length (sh_got st) + 2 ^ n"
    and ld: "load64 OFF_WRITE_SEQ (sh_mem st) = of_nat (length (sh_sent st))" "load64 OFF_READ_SEQ (sh_mem st) = of_nat (length (sh_got st))"
    using cur by (simp_all add: cursors_def ring_geom_def)
  show ?thesis
    using assms(1)
  proof cases
    case (p_claim p w)
    then have "w = of_nat (length (sh_sent st))" using inv by (simp add: ring_inv_def producer_ok_def)
    then have "length (sh_sent st) < length (sh_got st) + 2 ^ n"
      using p_claim(3) word_diff_cap [OF wr n] wr(2) by (simp add: ld cap)
    then show ?thesis using inv p_claim
      by (auto simp: ring_inv_def producer_ok_def consumer_ok_def holds_def split: consumer.splits)
  next
    case (p_write p w k)
    have p: "w = of_nat (length (sh_sent st))" "4 + length p \<le> unat (sr_slot_bytes h)"
      "length (sh_sent st) < length (sh_got st) + 2 ^ n" "holds h n (length (sh_sent st)) k p (sh_mem st)"
      using inv p_write(2) by (simp_all add: ring_inv_def producer_ok_def)
    have pos: "slot_start h w = slot_at h n (length (sh_sent st))" using slot_start_at [OF geom] p(1) by simp
    have k: "k < unat (sr_slot_bytes h)" using p_write(3) p(2) by simp
    have "cursors h n (sh_sent st) (length (sh_got st)) ((sh_mem st)[slot_start h w + k := slot_message p ! k])"
      unfolding pos by (rule cursors_write [OF cur p(3) k])
    moreover have "holds h n (length (sh_sent st)) (Suc k) p ((sh_mem st)[slot_start h w + k := slot_message p ! k])"
      using p(4) slot_in_mem [OF geom k] unfolding pos by (auto simp: holds_def less_Suc_eq)
    ultimately show ?thesis using inv p_write
      by (auto simp: ring_inv_def producer_ok_def consumer_ok_def split: consumer.splits)
  next
    case (p_store p w k)
    have p: "w = of_nat (length (sh_sent st))" "4 + length p \<le> unat (sr_slot_bytes h)" "length p < 2 ^ 32"
      "length (sh_sent st) < length (sh_got st) + 2 ^ n" "holds h n (length (sh_sent st)) (4 + length p) p (sh_mem st)"
      using inv p_store(2,3) by (simp_all add: ring_inv_def producer_ok_def)
    from cursors_store_write [OF cur p(4,2,3,5)] inv p_store wr(1) show ?thesis
      by (auto simp: ring_inv_def producer_ok_def consumer_ok_def p(1) nth_append split: consumer.split)
  next
    case (c_claim m r)
    then have "length (sh_got st) \<noteq> length (sh_sent st)" using inv by (auto simp: ring_inv_def consumer_ok_def ld)
    then show ?thesis using inv c_claim wr(1)
      by (auto simp: ring_inv_def producer_ok_def consumer_ok_def copy_len_def split: producer.split)
  next
    case (c_read m r acc)
    let ?p = "sh_sent st ! length (sh_got st)"
    have c: "r = of_nat (length (sh_got st))" "length (sh_got st) < length (sh_sent st)" "acc = take (length acc) (slot_message ?p)"
      using inv c_read(2) by (simp_all add: ring_inv_def consumer_ok_def)
    have p: "length ?p < 2 ^ 32" using cur c(2) by (simp add: cursors_def)
    have k: "length acc < 4 + length ?p" using c_read(3) copy_len_le [OF p c(3)] by (auto split: if_splits)
    have "sh_mem st ! (slot_start h r + length acc) = slot_message ?p ! length acc"
      using copied_byte [OF cur c(2) k] slot_start_at [OF geom] c(1) by simp
    then have acc: "acc @ [sh_mem st ! (slot_start h r + length acc)] = take (Suc (length acc)) (slot_message ?p)"
      using k c(3) by (simp add: take_Suc_conv_app_nth)
    have "Suc (length acc) \<le> copy_len m (acc @ [sh_mem st ! (slot_start h r + length acc)])"
      using c_read(3) copy_len_le [OF p c(3), of m] copy_len_le [OF p, of "acc @ [sh_mem st ! (slot_start h r + length acc)]" m] acc
      by (auto split: if_splits)
    moreover have "min (4 + length ?p) (Suc (length acc)) = Suc (length acc)" using k by simp
    ultimately show ?thesis using inv c_read acc c
      by (auto simp: ring_inv_def producer_ok_def consumer_ok_def split: producer.split)
  next
    case (c_store m r acc)
    let ?p = "sh_sent st ! length (sh_got st)"
    have c: "r = of_nat (length (sh_got st))" "length (sh_got st) < length (sh_sent st)" "acc = take (length acc) (slot_message ?p)"
      using inv c_store(2) by (simp_all add: ring_inv_def consumer_ok_def)
    have p: "length ?p < 2 ^ 32" using cur c(2) by (simp add: cursors_def)
    have "length acc = 4 + min (length ?p) m" using c_store(3) copy_len_le [OF p c(3), of m] by (auto split: if_splits)
    then have "drop 4 acc = take (min (length ?p) m) ?p" using c(3) by (metis diff_add_inverse drop_take slot_message_def to_le_bytes_lengths(3) append_eq_conv_conj)
    then have d: "drop 4 acc = take m ?p" by (simp add: min_def)
    have pr: "producer_ok h n st'" using inv c_store
      by (auto simp: ring_inv_def producer_ok_def c(1) holds_store64 [OF geom] shm_consts split: producer.split)
    from cursors_store_read [OF cur c(2)] inv c_store pr d show ?thesis
      by (auto simp: ring_inv_def consumer_ok_def c(1) nth_append less_Suc_eq)
  qed (use inv in \<open>auto simp: ring_inv_def producer_ok_def consumer_ok_def ld holds_def split: producer.split consumer.split\<close>)
qed

lemma shm_create_geom:
  assumes "shm_create capacity max_packet = Some (h, mem)" and "unat capacity * (4 + max_packet) + 64 < 2 ^ 64"
  shows "\<exists>n. cursors h n [] 0 mem \<and> unat capacity = 2 ^ n"
proof -
  have cap: "is_power_of_two capacity" using assms(1) by (auto simp: shm_create_def split: if_splits)
  then obtain n where n: "n < 64" "capacity = 2 ^ n" using is_power_of_twoD by blast
  have u: "unat capacity = 2 ^ n"
    using unat_of_nat_small [of "2 ^ n", where ?'a = 64] n power_strict_increasing [of n 64 "2 :: nat"] by simp
  let ?s = "of_nat (4 + max_packet) :: u64"
  have small: "unat capacity * (4 + max_packet) < 2 ^ 64" using assms(2) by simp
  have "1 * (4 + max_packet) \<le> unat capacity * (4 + max_packet)" using u by (intro mult_le_mono1) simp
  from le_less_trans [OF this small] have s: "unat ?s = 4 + max_packet" by (intro unat_of_nat_small) simp
  have "unat capacity * unat ?s < 2 ^ LENGTH(64)" using small by (simp only: s) simp
  then have "unat (capacity * ?s) = unat capacity * unat ?s" by (rule unat_mult_lem [THEN iffD1])
  moreover have sum: "unat (64 :: u64) + unat (capacity * ?s) < 2 ^ LENGTH(64)" using assms(2) by (simp only: calculation s) simp
  moreover have "unat (64 + capacity * ?s) = unat (64 :: u64) + unat (capacity * ?s)"
    using sum by (rule unat_add_lem [THEN iffD1])
  ultimately have tot: "unat (64 + capacity * ?s) = 64 + 2 ^ n * (4 + max_packet)" by (simp only: s u) simp
  define L where "L = 64 + 2 ^ n * (4 + max_packet)"
  have L: "64 \<le> L" "L < 2 ^ 64" using assms(2) by (simp_all add: L_def u add.commute)
  have h: "h = \<lparr>sr_capacity = capacity, sr_slot_bytes = ?s\<rparr>"
    and mem: "mem = store64 OFF_READ_SEQ 0 (store64 OFF_WRITE_SEQ 0 (store64 OFF_SLOT_BYTES ?s (store64 OFF_CAPACITY capacity
      (poke OFF_VERSION (to_le_bytes SHM_VERSION) (poke OFF_MAGIC SHM_MAGIC (replicate L 0))))))"
    using assms(1) cap L(1) unfolding shm_create_def Let_def HEADER_BYTES_def of_nat_numeral tot L_def [symmetric]
    by (simp_all split: if_splits)
  have len: "length mem = L" using L(1) by (simp add: mem shm_consts SHM_MAGIC_def)
  have geom: "ring_geom h n mem" using L n s by (simp add: ring_geom_def len h HEADER_BYTES_def L_def)
  have "load64 OFF_READ_SEQ mem = 0" unfolding mem using L(1) by (intro load64_store64_same) (simp add: shm_consts SHM_MAGIC_def)
  moreover have "load64 OFF_WRITE_SEQ mem = 0" unfolding mem store64_def [of OFF_READ_SEQ] using L(1)
    by (subst load64_poke_other) (simp_all add: shm_consts SHM_MAGIC_def load64_store64_same)
  ultimately show ?thesis using geom u by (intro exI [of _ n]) (simp add: cursors_def)
qed

section \<open>Runs\<close>

abbreviation ring_fits :: "u64 \<Rightarrow> nat \<Rightarrow> bool" where
  "ring_fits capacity max_packet \<equiv> unat capacity * (4 + max_packet) + 64 < 2 ^ 64"

lemma ring_run_inv:
  assumes "ring_run capacity max_packet st" and "ring_fits capacity max_packet"
  shows "\<exists>h n mem0. shm_create capacity max_packet = Some (h, mem0) \<and> unat capacity = 2 ^ n \<and> ring_inv h n st"
  using assms(1)
proof induction
  case (ring_init h mem)
  from shm_create_geom [OF this assms(2)] obtain n where "cursors h n [] 0 mem" "unat capacity = 2 ^ n" by blast
  then show ?case using ring_init by (auto simp: ring_inv_def ring_start_def producer_ok_def consumer_ok_def)
next
  case (ring_next st h mem st')
  then show ?case using ring_inv_step by fastforce
qed

text \<open>Neither thread waits for the other: a thread alone brings its operation to its end.\<close>

lemma writes_complete:
  assumes "ring_run capacity max_packet st" and "shm_create capacity max_packet = Some (h, mem0)"
    and "sh_producer st = PWriting p w k" and "k \<le> 4 + length p"
  shows "\<exists>st'. ring_run capacity max_packet st' \<and> sh_producer st' = PIdle \<and> sh_sent st' = sh_sent st @ [p] \<and>
    sh_consumer st' = sh_consumer st \<and> sh_got st' = sh_got st"
  using assms
proof (induction "4 + length p - k" arbitrary: st k)
  case 0
  then have "k = length (slot_message p)" by simp
  from ring_next [OF 0(2,3) p_store [OF 0(4) this]] show ?case by force
next
  case (Suc m)
  then have "k < length (slot_message p)" by simp
  from Suc(1) [of "Suc k", OF _ ring_next [OF Suc(3,4) p_write [OF Suc(5) this]] Suc(4)] Suc(2) show ?case by simp
qed

lemma publish_completes:
  assumes run: "ring_run capacity max_packet st" and fits: "ring_fits capacity max_packet"
    and idle: "sh_producer st = PIdle" and room: "length (sh_sent st) < length (sh_got st) + unat capacity"
    and p: "length p \<le> max_packet" "length p < 2 ^ 32"
  shows "\<exists>st'. ring_run capacity max_packet st' \<and> sh_producer st' = PIdle \<and> sh_sent st' = sh_sent st @ [p] \<and>
    sh_consumer st' = sh_consumer st \<and> sh_got st' = sh_got st"
proof -
  from ring_run_inv [OF run fits] obtain h n mem0 where
    c: "shm_create capacity max_packet = Some (h, mem0)" and n: "unat capacity = 2 ^ n" and inv: "ring_inv h n st" by blast
  have h: "sr_slot_bytes h = of_nat (4 + max_packet)" using c by (auto simp: shm_create_def Let_def split: if_splits)
  have small: "unat capacity * (4 + max_packet) < 2 ^ 64" using fits by simp
  have "1 * (4 + max_packet) \<le> unat capacity * (4 + max_packet)" using n by (intro mult_le_mono1) simp
  from le_less_trans [OF this small] have "unat (sr_slot_bytes h) = 4 + max_packet" unfolding h by (intro unat_of_nat_small) simp
  then have fit: "4 + length p \<le> unat (sr_slot_bytes h)" using p(1) by simp
  let ?w = "load64 OFF_WRITE_SEQ (sh_mem st)"
  let ?st1 = "st\<lparr>sh_producer := PLoaded p ?w\<rparr>"
  have cur: "cursors h n (sh_sent st) (length (sh_got st)) (sh_mem st)" using inv by (simp add: ring_inv_def)
  have r1: "ring_run capacity max_packet ?st1" by (rule ring_next [OF run c p_load [OF idle fit p(2)]])
  have "\<not> ?w - load64 OFF_READ_SEQ (sh_mem st) \<ge> sr_capacity h"
    using cur room n word_diff_cap [of "length (sh_got st)" "length (sh_sent st)" n] by (auto simp: cursors_def ring_geom_def)
  then have "ring_step h ?st1 (?st1\<lparr>sh_producer := PWriting p ?w 0\<rparr>)" by (intro p_claim [of _ p ?w]) simp_all
  from writes_complete [OF ring_next [OF r1 c this] c, of p ?w 0] show ?thesis by simp
qed

lemma reads_complete:
  assumes "ring_run capacity max_packet st" and "shm_create capacity max_packet = Some (h, mem0)" and "ring_inv h n st"
    and "sh_consumer st = CReading m r acc"
  shows "\<exists>st'. ring_run capacity max_packet st' \<and> sh_consumer st' = CIdle \<and> sh_producer st' = sh_producer st \<and>
    sh_sent st' = sh_sent st \<and> length (sh_got st') = Suc (length (sh_got st)) \<and> fst (last (sh_got st')) = m"
  using assms
proof (induction "4 + length (sh_sent st ! length (sh_got st)) - length acc" arbitrary: st acc rule: less_induct)
  case less
  let ?p = "sh_sent st ! length (sh_got st)"
  have c: "length (sh_got st) < length (sh_sent st)" "length acc \<le> copy_len m acc" "acc = take (length acc) (slot_message ?p)"
    using less.prems(3,4) by (simp_all add: ring_inv_def consumer_ok_def)
  then have p: "length ?p < 2 ^ 32" using less.prems(3) by (simp add: ring_inv_def cursors_def)
  show ?case
  proof (cases "length acc = copy_len m acc")
    case True
    from ring_next [OF less.prems(1,2) c_store [OF less.prems(4) True]] show ?thesis by force
  next
    case False
    then have lt: "length acc < copy_len m acc" using c(2) by simp
    then have k: "length acc < 4 + length ?p" using copy_len_le [OF p c(3), of m] by (auto split: if_splits)
    note step = c_read [OF less.prems(4) lt, of h]
    from less.hyps [where acc = "acc @ [sh_mem st ! (slot_start h r + length acc)]", OF _ ring_next [OF less.prems(1,2) step] less.prems(2) ring_inv_step [OF step less.prems(3)]] k
    show ?thesis by simp
  qed
qed

lemma recv_completes:
  assumes run: "ring_run capacity max_packet st" and fits: "ring_fits capacity max_packet"
    and idle: "sh_consumer st = CIdle" and more: "length (sh_got st) < length (sh_sent st)"
  shows "\<exists>st'. ring_run capacity max_packet st' \<and> sh_consumer st' = CIdle \<and> sh_producer st' = sh_producer st \<and>
    sh_sent st' = sh_sent st \<and> length (sh_got st') = Suc (length (sh_got st)) \<and> fst (last (sh_got st')) = m"
proof -
  from ring_run_inv [OF run fits] obtain h n mem0 where
    c: "shm_create capacity max_packet = Some (h, mem0)" and inv: "ring_inv h n st" by blast
  have cur: "cursors h n (sh_sent st) (length (sh_got st)) (sh_mem st)" using inv by (simp add: ring_inv_def)
  let ?r = "load64 OFF_READ_SEQ (sh_mem st)"
  let ?st1 = "st\<lparr>sh_consumer := CLoaded m ?r\<rparr>"
  note s1 = c_load [OF idle, of h m]
  have "?r \<noteq> load64 OFF_WRITE_SEQ (sh_mem st)"
    using cur more of_nat_neq [of "length (sh_got st)" "length (sh_sent st)" n] by (auto simp: cursors_def ring_geom_def)
  then have s2: "ring_step h ?st1 (?st1\<lparr>sh_consumer := CReading m ?r []\<rparr>)" by (intro c_claim [of _ m ?r]) simp_all
  from reads_complete [OF ring_next [OF ring_next [OF run c s1] c s2] c ring_inv_step [OF s2 ring_inv_step [OF s1 inv]]]
  show ?thesis by simp
qed

section \<open>One operation at a time: a bounded queue\<close>

text \<open>
  The contract that a caller of \<open>publish\<close> and \<open>try_recv\<close> relies on: a queue that refuses when it is full.
\<close>

locale bounded_queue =
  fixes inv :: "'s \<Rightarrow> bool" and content :: "'s \<Rightarrow> 'a list" and bound :: nat and item :: "'a \<Rightarrow> bool"
    and enq :: "'a \<Rightarrow> 's \<Rightarrow> (bool \<times> 's) option" and deq :: "'s \<Rightarrow> ('a option \<times> 's) option"
  assumes bounded: "inv s \<Longrightarrow> length (content s) \<le> bound"
    and enq_full: "inv s \<Longrightarrow> item x \<Longrightarrow> length (content s) = bound \<Longrightarrow> enq x s = Some (False, s)"
    and enq_room: "inv s \<Longrightarrow> item x \<Longrightarrow> length (content s) < bound \<Longrightarrow>
      \<exists>s'. enq x s = Some (True, s') \<and> inv s' \<and> content s' = content s @ [x]"
    and deq_empty: "inv s \<Longrightarrow> content s = [] \<Longrightarrow> deq s = Some (None, s)"
    and deq_first: "inv s \<Longrightarrow> content s = x # xs \<Longrightarrow> \<exists>s'. deq s = Some (Some x, s') \<and> inv s' \<and> content s' = xs"
begin

fun enq_all :: "'a list \<Rightarrow> 's \<Rightarrow> 's option" where
  "enq_all [] s = Some s"
| "enq_all (x # xs) s = (case enq x s of Some (True, s) \<Rightarrow> enq_all xs s | _ \<Rightarrow> None)"

fun deq_n :: "nat \<Rightarrow> 's \<Rightarrow> ('a list \<times> 's) option" where
  "deq_n 0 s = Some ([], s)"
| "deq_n (Suc n) s =
     (case deq s of Some (Some x, s) \<Rightarrow> map_option (\<lambda>(xs, s). (x # xs, s)) (deq_n n s) | _ \<Rightarrow> None)"

lemma enq_all_content:
  "inv s \<Longrightarrow> list_all item xs \<Longrightarrow> length (content s) + length xs \<le> bound \<Longrightarrow>
     \<exists>s'. enq_all xs s = Some s' \<and> inv s' \<and> content s' = content s @ xs"
proof (induction xs arbitrary: s)
  case (Cons x xs)
  then obtain s1 where s1: "enq x s = Some (True, s1)" "inv s1" "content s1 = content s @ [x]"
    using enq_room [of s x] by auto
  from Cons.IH [OF s1(2)] Cons.prems s1 show ?case by simp
qed simp

lemma deq_n_content:
  "inv s \<Longrightarrow> n \<le> length (content s) \<Longrightarrow> \<exists>s'. deq_n n s = Some (take n (content s), s') \<and> inv s' \<and> content s' = drop n (content s)"
proof (induction n arbitrary: s)
  case (Suc n)
  then obtain x xs where x: "content s = x # xs" by (cases "content s") auto
  from deq_first [OF Suc.prems(1) x] obtain s1 where s1: "deq s = Some (Some x, s1)" "inv s1" "content s1 = xs" by blast
  from Suc.IH [OF s1(2)] Suc.prems(2) x s1 show ?case by auto
qed simp

end

definition slot_packet :: "shm_ring \<Rightarrow> bytes \<Rightarrow> u64 \<Rightarrow> bytes" where
  "slot_packet h mem s =
     (let start = slot_start h s; len = unat (from_le_bytes (slice start (start + 4) mem) :: u32)
      in slice (start + 4) (start + 4 + len) mem)"

definition ring_content :: "shm_ring \<Rightarrow> bytes \<Rightarrow> bytes list" where
  "ring_content h mem =
     map (\<lambda>i. slot_packet h mem (load64 OFF_READ_SEQ mem + of_nat i))
       [0 ..< unat (load64 OFF_WRITE_SEQ mem - load64 OFF_READ_SEQ mem)]"

lemma holds_slice:
  assumes "holds h n i (4 + length p) p mem" and "ring_geom h n mem" and "4 + length p \<le> unat (sr_slot_bytes h)"
  shows "slice (slot_at h n i) (slot_at h n i + 4) mem = to_le_bytes (of_nat (length p) :: u32)"
    and "m \<le> length p \<Longrightarrow> slice (slot_at h n i + 4) (slot_at h n i + 4 + m) mem = take m p"
proof -
  have len: "slot_at h n i + (4 + length p) \<le> length mem"
    using slot_in_mem [OF assms(2), of "3 + length p" i] assms(3) by simp
  show "slice (slot_at h n i) (slot_at h n i + 4) mem = to_le_bytes (of_nat (length p) :: u32)"
    using assms(1) len by (intro nth_equalityI) (auto simp: slice_def holds_def slot_message_def nth_append)
  show "slice (slot_at h n i + 4) (slot_at h n i + 4 + m) mem = take m p" if "m \<le> length p"
  proof (rule nth_equalityI)
    fix j assume "j < length (slice (slot_at h n i + 4) (slot_at h n i + 4 + m) mem)"
    then have j: "j < m" using len that by simp
    then have "mem ! (slot_at h n i + (4 + j)) = slot_message p ! (4 + j)" using assms(1) that unfolding holds_def by auto
    then show "slice (slot_at h n i + 4) (slot_at h n i + 4 + m) mem ! j = take m p ! j"
      using j that len by (simp add: slice_def slot_message_def nth_append ac_simps)
  qed (use len that in simp)
qed

lemma slot_packet_holds:
  assumes "cursors h n ps r mem" and "r \<le> i" and "i < length ps"
  shows "slot_packet h mem (of_nat i) = ps ! i"
proof -
  have geom: "ring_geom h n mem" and p: "4 + length (ps ! i) \<le> unat (sr_slot_bytes h)" "length (ps ! i) < 2 ^ 32"
      and ho: "holds h n i (4 + length (ps ! i)) (ps ! i) mem" using assms by (simp_all add: cursors_def)
  note sl = holds_slice [OF ho geom p(1)]
  have "unat (of_nat (length (ps ! i)) :: u32) = length (ps ! i)" using p(2) by (intro unat_of_nat_small) simp
  then show ?thesis using sl(2) [of "length (ps ! i)"]
    by (simp add: slot_packet_def slot_start_at [OF geom] sl(1) Let_def)
qed

lemma ring_content_cursors:
  assumes "cursors h n ps r mem"
  shows "ring_content h mem = drop r ps"
proof -
  have b: "r \<le> length ps" "length ps \<le> r + 2 ^ n" "n < 64" using assms by (simp_all add: cursors_def ring_geom_def)
  have ld: "load64 OFF_WRITE_SEQ mem = of_nat (length ps)" "load64 OFF_READ_SEQ mem = of_nat r" using assms by (simp_all add: cursors_def)
  have lt: "(2 :: nat) ^ n < 2 ^ 64" using b(3) by (rule power_strict_increasing) simp
  have "(of_nat (length ps) :: u64) - of_nat r = of_nat (length ps - r)" using b(1) by (simp add: of_nat_diff)
  moreover have "unat (of_nat (length ps - r) :: u64) = length ps - r" using b(2) lt by (intro unat_of_nat_small) simp
  ultimately have "unat (load64 OFF_WRITE_SEQ mem - load64 OFF_READ_SEQ mem) = length ps - r" by (simp add: ld)
  moreover have "slot_packet h mem (of_nat r + of_nat i) = ps ! (r + i)" if "i < length ps - r" for i
    using slot_packet_holds [OF assms, of "r + i"] that by simp
  ultimately show ?thesis unfolding ring_content_def ld(2) by (intro nth_equalityI) simp_all
qed

definition packet_fits :: "shm_ring \<Rightarrow> bytes \<Rightarrow> bool" where
  "packet_fits h p \<longleftrightarrow> 4 + length p \<le> unat (sr_slot_bytes h) \<and> length p < 2 ^ 32"

lemma cursors_poke:
  assumes "cursors h n ps r mem" and "length ps < r + 2 ^ n" and "packet_fits h p"
  shows "cursors h n ps r (poke (slot_at h n (length ps)) (slot_message p) mem)"
    and "holds h n (length ps) (4 + length p) p (poke (slot_at h n (length ps)) (slot_message p) mem)"
proof -
  let ?pos = "slot_at h n (length ps)" and ?mem = "poke (slot_at h n (length ps)) (slot_message p) mem"
  have geom: "ring_geom h n mem" using assms(1) by (simp add: cursors_def)
  have p: "4 + length p \<le> unat (sr_slot_bytes h)" using assms(3) by (simp add: packet_fits_def)
  have len: "?pos + length (slot_message p) \<le> length mem" using slot_in_mem [OF geom, of "3 + length p" "length ps"] p by simp
  have other: "holds h n i (4 + length (ps ! i)) (ps ! i) ?mem" if i: "r \<le> i" "i < length ps" for i
  proof -
    have ho: "holds h n i (4 + length (ps ! i)) (ps ! i) mem" and s: "4 + length (ps ! i) \<le> unat (sr_slot_bytes h)"
      using assms(1) i by (simp_all add: cursors_def)
    have "?mem ! (slot_at h n i + j) = mem ! (slot_at h n i + j)" if j: "j < 4 + length (ps ! i)" for j
    proof -
      have "slot_at h n i + j \<noteq> ?pos + j'" if "j' < 4 + length p" for j'
        using i j s p that assms(2) by (intro slots_disjoint) auto
      then have "\<not> (?pos \<le> slot_at h n i + j \<and> slot_at h n i + j < ?pos + length (slot_message p))"
        by (metis add_less_cancel_left le_Suc_ex length_slot_message)
      then have "poke ?pos (slot_message p) mem ! (slot_at h n i + j) = mem ! (slot_at h n i + j)" if "slot_at h n i + j < length mem"
        by (simp only: nth_poke [OF len that] if_False)
      then show ?thesis using slot_in_mem [OF geom, of j i] j s by simp
    qed
    then show ?thesis using ho holds_cong by blast
  qed
  have hd: "64 \<le> ?pos" by (simp add: HEADER_BYTES_def)
  then show "cursors h n ps r ?mem"
    using assms(1) other geom_len [OF geom, of ?mem] len by (simp add: cursors_def load64_poke_other shm_consts)
  show "holds h n (length ps) (4 + length p) p ?mem" using len by (auto simp: holds_def nth_poke)
qed

lemma shm_publish_room:
  assumes "cursors h n ps r mem" and "length ps < r + 2 ^ n" and "packet_fits h p"
  shows "\<exists>mem'. shm_publish h p mem = Some (True, mem') \<and> cursors h n (ps @ [p]) r mem'"
proof -
  let ?mem = "poke (slot_at h n (length ps)) (slot_message p) mem"
  have geom: "ring_geom h n mem" and b: "r \<le> length ps" "length ps \<le> r + 2 ^ n" "n < 64" "sr_capacity h = 2 ^ n"
    using assms(1) by (simp_all add: cursors_def ring_geom_def)
  have ld: "load64 OFF_WRITE_SEQ mem = of_nat (length ps)" "load64 OFF_READ_SEQ mem = of_nat r" using assms(1) by (simp_all add: cursors_def)
  note poked = cursors_poke [OF assms]
  have "\<not> sr_capacity h \<le> of_nat (length ps) - of_nat r" using word_diff_cap [OF b(1-3)] b(4) assms(2) by simp
  then have "shm_publish h p mem = Some (True, store64 OFF_WRITE_SEQ (of_nat (length ps) + 1) ?mem)"
    using assms(3) by (simp add: shm_publish_def ld slot_start_at [OF geom] packet_fits_def)
  moreover have "cursors h n (ps @ [p]) r (store64 OFF_WRITE_SEQ (of_nat (length ps) + 1) ?mem)"
    using assms(3) by (intro cursors_store_write [OF poked(1) assms(2) _ _ poked(2)]) (simp_all add: packet_fits_def)
  ultimately show ?thesis by blast
qed

lemma shm_publish_full:
  assumes "cursors h n ps r mem" and "length ps = r + 2 ^ n"
  shows "shm_publish h p mem = Some (False, mem)"
  using assms word_diff_cap [of r "length ps" n] by (simp add: shm_publish_def cursors_def ring_geom_def)

lemma shm_try_recv_next:
  assumes "cursors h n ps r mem" and "r < length ps"
  shows "\<exists>mem'. shm_try_recv h m mem = Some (Some (take m (ps ! r)), mem') \<and> cursors h n ps (Suc r) mem'"
proof -
  have geom: "ring_geom h n mem" and b: "r \<le> length ps" "length ps \<le> r + 2 ^ n" "n < 64"
    and p: "4 + length (ps ! r) \<le> unat (sr_slot_bytes h)" "length (ps ! r) < 2 ^ 32"
    and ho: "holds h n r (4 + length (ps ! r)) (ps ! r) mem"
    using assms by (simp_all add: cursors_def ring_geom_def)
  have ld: "load64 OFF_WRITE_SEQ mem = of_nat (length ps)" "load64 OFF_READ_SEQ mem = of_nat r" using assms(1) by (simp_all add: cursors_def)
  note sl = holds_slice [OF ho geom p(1)]
  have "unat (of_nat (length (ps ! r)) :: u32) = length (ps ! r)" using p(2) by (intro unat_of_nat_small) simp
  then have len: "unat (from_le_bytes (slice (slot_at h n r) (slot_at h n r + 4) mem) :: u32) = length (ps ! r)" by (simp add: sl(1))
  have ne: "(of_nat r :: u64) \<noteq> of_nat (length ps)" using of_nat_neq [OF b] assms(2) by simp
  have tk: "take (min (length (ps ! r)) m) (ps ! r) = take m (ps ! r)" by (simp add: min_def)
  have "shm_try_recv h m mem = Some (Some (take m (ps ! r)), store64 OFF_READ_SEQ (of_nat r + 1) mem)"
    using p(1) ne sl(2) [of "min (length (ps ! r)) m"]
    by (simp add: shm_try_recv_def ld slot_start_at [OF geom] len tk Let_def)
  with cursors_store_read [OF assms] show ?thesis by blast
qed

interpretation shm: bounded_queue "\<lambda>mem. \<exists>ps r. cursors h n ps r mem" "ring_content h" "2 ^ n" "packet_fits h"
    "shm_publish h" "shm_try_recv h (unat (sr_slot_bytes h))" for h n
proof (unfold_locales, goal_cases)
  case (1 mem)
  then show ?case using ring_content_cursors by (fastforce simp: cursors_def)
next
  case (2 mem p)
  then obtain ps r where c: "cursors h n ps r mem" by blast
  then have "r \<le> length ps" "length ps - r = 2 ^ n" using 2(3) ring_content_cursors [OF c] by (simp_all add: cursors_def)
  then have "length ps = r + 2 ^ n" by arith
  then show ?case by (rule shm_publish_full [OF c])
next
  case (3 mem p)
  then obtain ps r where c: "cursors h n ps r mem" by blast
  then have "length ps < r + 2 ^ n" "r \<le> length ps" using 3(3) ring_content_cursors [OF c] by (auto simp: cursors_def)
  with shm_publish_room [OF c _ 3(2)] c obtain mem' where
    m: "shm_publish h p mem = Some (True, mem')" "cursors h n (ps @ [p]) r mem'" by blast
  then show ?case using ring_content_cursors [OF c] ring_content_cursors [OF m(2)] \<open>r \<le> length ps\<close> by auto
next
  case (4 mem)
  then obtain ps r where c: "cursors h n ps r mem" by blast
  then have "r = length ps" using 4(2) ring_content_cursors [OF c] by (simp add: cursors_def)
  then show ?case using c by (simp add: shm_try_recv_def cursors_def)
next
  case (5 mem p q)
  then obtain ps r where c: "cursors h n ps r mem" by blast
  then have d: "drop r ps = p # q" using 5(2) ring_content_cursors [OF c] by simp
  then have r: "r < length ps" "ps ! r = p" "drop (Suc r) ps = q"
    by (metis drop_all list.discI not_less, metis drop_eq_Nil hd_drop_conv_nth list.discI list.sel(1) not_le, metis drop_Suc list.sel(3) tl_drop)
  have "p \<in> set ps" using r(1,2) nth_mem by blast
  then have "4 + length p \<le> unat (sr_slot_bytes h)" using c by (simp add: cursors_def)
  then have p: "take (unat (sr_slot_bytes h)) p = p" by simp
  from shm_try_recv_next [OF c r(1), of "unat (sr_slot_bytes h)"] obtain mem' where
    "shm_try_recv h (unat (sr_slot_bytes h)) mem = Some (Some p, mem')" "cursors h n ps (Suc r) mem'" unfolding r(2) p by blast
  then show ?case using ring_content_cursors r(3) by blast
qed

section \<open>Property\<close>

text \<open>
  C14. The shared-memory ring is a bounded queue under every interleaving of its two threads, byte
  by byte, and when its cursors wrap: what the consumer received are the packets that were published, in
  order and whole up to the length of its buffer, never more than the capacity behind; what is
  in the ring are exactly the packets not yet received.
\<close>

theorem ring_fifo:
  assumes "ring_run capacity max_packet st" and "unat capacity * (4 + max_packet) + 64 < 2 ^ 64"
  shows "\<exists>h mem0. shm_create capacity max_packet = Some (h, mem0) \<and>
    length (sh_got st) \<le> length (sh_sent st) \<and> length (sh_sent st) \<le> length (sh_got st) + unat capacity \<and>
    (\<forall>i < length (sh_got st). snd (sh_got st ! i) = take (fst (sh_got st ! i)) (sh_sent st ! i)) \<and>
    ring_content h (sh_mem st) = drop (length (sh_got st)) (sh_sent st)"
proof -
  from ring_run_inv [OF assms] obtain h n mem0 where
    h: "shm_create capacity max_packet = Some (h, mem0)" "unat capacity = 2 ^ n" "ring_inv h n st" by blast
  then have "cursors h n (sh_sent st) (length (sh_got st)) (sh_mem st)" by (simp add: ring_inv_def)
  from ring_content_cursors [OF this] this h show ?thesis by (auto simp: ring_inv_def cursors_def)
qed

theorem ring_fifo_witness:
  "\<exists>st. ring_run 4 8 st \<and> sh_sent st = [[1, 2, 3], [4]] \<and> sh_got st = [(2, [1, 2])]"
proof -
  have "is_power_of_two 4" by (simp add: is_power_of_two_def)
  moreover have "unat (64 + 4 * 12 :: u64) = 112" by simp
  ultimately obtain h mem where "shm_create 4 8 = Some (h, mem)" by (auto simp: shm_create_def Let_def shm_consts)
  from ring_init [OF this] obtain st0 where
    st0: "ring_run 4 8 st0" "sh_producer st0 = PIdle" "sh_consumer st0 = CIdle" "sh_sent st0 = []" "sh_got st0 = []"
    by (force simp: ring_start_def)
  from publish_completes [OF st0(1) _ st0(2), of "[1, 2, 3]"] st0 obtain st1 where
    st1: "ring_run 4 8 st1" "sh_producer st1 = PIdle" "sh_consumer st1 = CIdle" "sh_sent st1 = [[1, 2, 3]]" "sh_got st1 = []" by auto
  from publish_completes [OF st1(1) _ st1(2), of "[4]"] st1 obtain st2 where
    st2: "ring_run 4 8 st2" "sh_consumer st2 = CIdle" "sh_sent st2 = [[1, 2, 3], [4]]" "sh_got st2 = []" by auto
  from recv_completes [OF st2(1) _ st2(2), of 2] st2 obtain st3 where
    st3: "ring_run 4 8 st3" "sh_sent st3 = [[1, 2, 3], [4]]" "length (sh_got st3) = 1" "fst (last (sh_got st3)) = 2" by auto
  then obtain g where g: "sh_got st3 = [g]" by (auto simp: length_Suc_conv)
  have "snd g = take (fst g) [1, 2, 3]" using ring_fifo [OF st3(1)] by (auto simp: g st3(2))
  then have "g = (2, [1, 2])" using st3(4) g by (cases g) simp
  then show ?thesis using st3 g by blast
qed

end
