(* ===== verification/Sbe.thy ===== *)
theory Sbe
  imports Codec
begin

text \<open>
  \<open>ticktape-sbe/src/lib.rs\<close>: the message header of the Simple Binary Encoding, the framing of an application
  message under it, and the adapter to the codec. The trait \<open>SbeMessage\<close> is a record of its
  constants and functions, its documented behaviour the locale \<open>sbe_laws\<close>; the message of the
  crate's tests interprets it.
\<close>

section \<open>Header\<close>

record sbe_header =
  sb_block_length :: u16
  sb_template_id :: u16
  sb_schema_id :: u16
  sb_version :: u16

definition HEADER_LEN :: nat where "HEADER_LEN = 8"

definition sbe_header_write :: "sbe_header \<Rightarrow> bytes" where
  "sbe_header_write hdr = to_le_bytes (sb_block_length hdr) @ to_le_bytes (sb_template_id hdr) @
     to_le_bytes (sb_schema_id hdr) @ to_le_bytes (sb_version hdr)"

definition sbe_header_read :: "bytes \<Rightarrow> (sbe_header, codec_error) result" where
  "sbe_header_read buf =
     (if length buf < HEADER_LEN then Err UnexpectedEof
      else Ok \<lparr>sb_block_length = from_le_bytes (slice 0 2 buf), sb_template_id = from_le_bytes (slice 2 4 buf),
        sb_schema_id = from_le_bytes (slice 4 6 buf), sb_version = from_le_bytes (slice 6 8 buf)\<rparr>)"

section \<open>Messages\<close>

record 'm sbe_message =
  sm_template_id :: u16
  sm_schema_id :: u16
  sm_schema_version :: u16
  sm_block_length :: u16
  sm_encode_block :: "'m \<Rightarrow> bytes"
  sm_decode_block :: "bytes \<Rightarrow> ('m, codec_error) result"

definition encode_message :: "'m sbe_message \<Rightarrow> 'm \<Rightarrow> bytes" where
  "encode_message M msg =
     sbe_header_write \<lparr>sb_block_length = sm_block_length M, sb_template_id = sm_template_id M,
       sb_schema_id = sm_schema_id M, sb_version = sm_schema_version M\<rparr> @ sm_encode_block M msg"

definition decode_message :: "'m sbe_message \<Rightarrow> bytes \<Rightarrow> ('m \<times> nat, codec_error) result" where
  "decode_message M buf =
     rbind (sbe_header_read buf) (\<lambda>hdr.
       if sb_template_id hdr \<noteq> sm_template_id M \<or> sb_schema_id hdr \<noteq> sm_schema_id M
       then Err (InvalidValue ''SBE template/schema mismatch'')
       else
         let sender_block = unat (sb_block_length hdr); ours = unat (sm_block_length M) in
         if sender_block < ours then Err (InvalidValue ''SBE block shorter than schema'')
         else if length buf < HEADER_LEN + sender_block then Err UnexpectedEof
         else rbind (sm_decode_block M (slice HEADER_LEN (HEADER_LEN + ours) buf))
                (\<lambda>msg. Ok (msg, HEADER_LEN + sender_block)))"

definition enc_sbe :: "'m sbe_message \<Rightarrow> 'm encoder" where
  "enc_sbe M = encode_message M"

definition len_sbe :: "'m sbe_message \<Rightarrow> 'm \<Rightarrow> nat" where
  "len_sbe M msg = HEADER_LEN + unat (sm_block_length M)"

definition dec_sbe :: "'m sbe_message \<Rightarrow> 'm decoder" where
  "dec_sbe M buf = rbind (decode_message M buf) (\<lambda>(msg, consumed). Ok (msg, drop consumed buf))"

text \<open>The message of the crate's tests.\<close>

record new_order =
  no_order_id :: u64
  no_price :: i64
  no_qty :: u32
  no_side :: u8
  no_ord_type :: u8

definition new_order_message :: "new_order sbe_message" where
  "new_order_message = \<lparr>sm_template_id = 1, sm_schema_id = 91, sm_schema_version = 0, sm_block_length = 22,
     sm_encode_block = (\<lambda>x. to_le_bytes (no_order_id x) @ to_le_bytes (no_price x) @ to_le_bytes (no_qty x) @ [no_side x, no_ord_type x]),
     sm_decode_block = (\<lambda>b. Ok \<lparr>no_order_id = from_le_bytes (slice 0 8 b), no_price = from_le_bytes (slice 8 16 b),
       no_qty = from_le_bytes (slice 16 20 b), no_side = b ! 20, no_ord_type = b ! 21\<rparr>)\<rparr>"

section \<open>The contract of a message type\<close>

locale sbe_laws =
  fixes M :: "'m sbe_message" and valid :: "'m \<Rightarrow> bool"
  assumes block_len: "valid msg \<Longrightarrow> length (sm_encode_block M msg) = unat (sm_block_length M)"
    and block_roundtrip: "valid msg \<Longrightarrow> sm_decode_block M (sm_encode_block M msg) = Ok msg"
begin

text \<open>A message under any header that names it, with a block at least as long as this build's.\<close>

lemma decode_framed:
  assumes "valid msg" and "sb_template_id hdr = sm_template_id M" and "sb_schema_id hdr = sm_schema_id M"
    and "length (sm_encode_block M msg @ extra) = unat (sb_block_length hdr)"
  shows "decode_message M (sbe_header_write hdr @ sm_encode_block M msg @ extra @ rest) = Ok (msg, HEADER_LEN + unat (sb_block_length hdr))"
    and "k < HEADER_LEN + unat (sb_block_length hdr) \<Longrightarrow>
      decode_message M (take k (sbe_header_write hdr @ sm_encode_block M msg @ extra @ rest)) = Err UnexpectedEof"
proof -
  let ?buf = "sbe_header_write hdr @ sm_encode_block M msg @ extra @ rest"
  have len: "length (sbe_header_write hdr) = 8" by (simp add: sbe_header_write_def)
  have read: "sbe_header_read (sbe_header_write hdr @ xs) = Ok hdr" for xs
    by (cases hdr) (simp add: sbe_header_read_def sbe_header_write_def HEADER_LEN_def slice_def)
  have block: "slice HEADER_LEN (HEADER_LEN + unat (sm_block_length M)) ?buf = sm_encode_block M msg"
    using block_len [OF assms(1)] len by (simp add: HEADER_LEN_def slice_def)
  have ge: "unat (sm_block_length M) \<le> unat (sb_block_length hdr)" using assms(4) block_len [OF assms(1)] by simp
  show "decode_message M ?buf = Ok (msg, HEADER_LEN + unat (sb_block_length hdr))"
    using assms(2-4) ge len block by (simp add: decode_message_def read block_roundtrip [OF assms(1)] HEADER_LEN_def Let_def)
  show "decode_message M (take k ?buf) = Err UnexpectedEof" if "k < HEADER_LEN + unat (sb_block_length hdr)"
  proof (cases "k < 8")
    case True
    then have "length (take k ?buf) < HEADER_LEN" by (simp only: length_take HEADER_LEN_def)
    then show ?thesis by (simp only: decode_message_def sbe_header_read_def if_True rbind.simps)
  next
    case False
    then have "take k ?buf = sbe_header_write hdr @ take (k - 8) (sm_encode_block M msg @ extra @ rest)" using len by simp
    moreover have "length (take k ?buf) < HEADER_LEN + unat (sb_block_length hdr)" using that by simp
    ultimately show ?thesis using assms(2,3) ge
      by (simp only: decode_message_def read rbind.simps Let_def) simp
  qed
qed

lemma decode_short:
  assumes "sb_template_id hdr = sm_template_id M" and "sb_schema_id hdr = sm_schema_id M" and "sb_block_length hdr < sm_block_length M"
  shows "decode_message M (sbe_header_write hdr @ rest) = Err (InvalidValue ''SBE block shorter than schema'')"
  using assms by (cases hdr)
    (simp add: decode_message_def sbe_header_read_def sbe_header_write_def HEADER_LEN_def slice_def word_less_nat_alt)

lemma adapter_roundtrip: "valid msg \<Longrightarrow> dec_sbe M (enc_sbe M msg @ rest) = Ok (msg, rest)"
  and adapter_len: "valid msg \<Longrightarrow> len_sbe M msg = length (enc_sbe M msg)"
  using decode_framed(1) [of msg "\<lparr>sb_block_length = sm_block_length M, sb_template_id = sm_template_id M,
      sb_schema_id = sm_schema_id M, sb_version = sm_schema_version M\<rparr>" "[]" rest] block_len [of msg]
  by (simp_all add: dec_sbe_def enc_sbe_def encode_message_def len_sbe_def HEADER_LEN_def sbe_header_write_def)

end

interpretation new_order: sbe_laws new_order_message "\<lambda>_. True"
  by unfold_locales (simp_all add: new_order_message_def slice_def nth_append)

section \<open>Property\<close>

text \<open>
  C27. Schema evolution: a message is read from the block of any newer writer, whatever that
  writer appended to the block, and exactly the advertised block is consumed; every proper prefix
  is reported as the end of the input; the shorter block of an older writer is refused.
\<close>

theorem sbe_schema_evolution:
  assumes "sbe_laws M valid" and "valid msg" and "sb_template_id hdr = sm_template_id M" and "sb_schema_id hdr = sm_schema_id M"
    and "length (sm_encode_block M msg @ extra) = unat (sb_block_length hdr)"
  shows "decode_message M (sbe_header_write hdr @ sm_encode_block M msg @ extra @ rest) = Ok (msg, 8 + unat (sb_block_length hdr)) \<and>
    (k < 8 + unat (sb_block_length hdr) \<longrightarrow>
       decode_message M (take k (sbe_header_write hdr @ sm_encode_block M msg @ extra @ rest)) = Err UnexpectedEof) \<and>
    (older < sm_block_length M \<longrightarrow>
       decode_message M (sbe_header_write (hdr\<lparr>sb_block_length := older\<rparr>) @ rest) = Err (InvalidValue ''SBE block shorter than schema''))"
  using sbe_laws.decode_framed [OF assms] sbe_laws.decode_short [OF assms(1), of "hdr\<lparr>sb_block_length := older\<rparr>" rest] assms(3,4)
  by (simp add: HEADER_LEN_def)

theorem sbe_schema_evolution_witness:
  "decode_message new_order_message (sbe_header_write \<lparr>sb_block_length = 26, sb_template_id = 1, sb_schema_id = 91, sb_version = 1\<rparr> @
     sm_encode_block new_order_message \<lparr>no_order_id = 7, no_price = - 125, no_qty = 500, no_side = 1, no_ord_type = 2\<rparr> @ [4, 3, 2, 1] @ [9]) =
   Ok (\<lparr>no_order_id = 7, no_price = - 125, no_qty = 500, no_side = 1, no_ord_type = 2\<rparr>, 34)"
  using sbe_schema_evolution [OF new_order.sbe_laws_axioms, where msg = "\<lparr>no_order_id = 7, no_price = - 125, no_qty = 500, no_side = 1, no_ord_type = 2\<rparr>"
      and hdr = "\<lparr>sb_block_length = 26, sb_template_id = 1, sb_schema_id = 91, sb_version = 1\<rparr>" and extra = "[4, 3, 2, 1]" and rest = "[9]"]
  by (simp add: new_order_message_def)

end
