(* ===== verification/Raft_Node.thy ===== *)
theory Raft_Node
  imports Services
begin

text \<open>
  \<open>ticktape-raft/src/node.rs\<close>: a service whose inputs are ordered by the library raft-rs instead of the
  native sequencer. The library is a record of the functions the node calls, over an opaque
  state; \<open>None\<close> is where the code unwraps an error of its storage. What the library documents of
  a cluster that is driven through them is the locale \<open>raft_laws\<close>; a cluster of service nodes is shown to drive it that way.
\<close>

section \<open>The library\<close>

record entry =
  en_index :: u64
  en_data :: bytes
  en_normal :: bool

record ('m, 'x) ready =
  rd_messages :: "'m list"
  rd_snapshot :: "'x option"
  rd_committed :: "entry list"
  rd_entries :: "entry list"
  rd_hs :: "'x option"
  rd_persisted_messages :: "'m list"

record 'm light_ready =
  lr_commit_index :: "u64 option"
  lr_messages :: "'m list"
  lr_committed :: "entry list"

record ('r, 'm, 'x) raft_lib =
  rl_tick :: "'r \<Rightarrow> bool \<times> 'r"
  rl_campaign :: "'r \<Rightarrow> (unit, 'x) result \<times> 'r"
  rl_leader :: "'r \<Rightarrow> bool"
  rl_propose :: "bytes \<Rightarrow> 'r \<Rightarrow> (unit, 'x) result \<times> 'r"
  rl_step :: "'m \<Rightarrow> 'r \<Rightarrow> (unit, 'x) result \<times> 'r"
  rl_has_ready :: "'r \<Rightarrow> bool"
  rl_ready :: "'r \<Rightarrow> ('m, 'x) ready \<times> 'r"
  rl_apply_snapshot :: "'x \<Rightarrow> 'r \<Rightarrow> 'r option"
  rl_append :: "entry list \<Rightarrow> 'r \<Rightarrow> 'r option"
  rl_set_hardstate :: "'x \<Rightarrow> 'r \<Rightarrow> 'r"
  rl_advance :: "('m, 'x) ready \<Rightarrow> 'r \<Rightarrow> 'm light_ready \<times> 'r"
  rl_set_commit :: "u64 \<Rightarrow> 'r \<Rightarrow> 'r"
  rl_advance_apply :: "'r \<Rightarrow> 'r"

section \<open>The node\<close>

text \<open>The output buffer is drained after every entry, so it is empty between calls and not part of the state.\<close>

record ('r, 's) service_node =
  sn_raw :: 'r
  sn_service :: 's
  sn_applied :: u64
  sn_timer_ops :: "timer_req list"

text \<open>\<open>ServiceNode::new\<close>, given the library's node for the voters.\<close>

definition service_node_new :: "('s, 'i, 'o, 'p, 'c) service \<Rightarrow> 'c \<Rightarrow> ('r, 'x) result \<Rightarrow> (('r, 's) service_node, 'x) result" where
  "service_node_new SV scfg raw =
     rbind raw (\<lambda>r. Ok \<lparr>sn_raw = r, sn_service = sv_genesis SV scfg, sn_applied = 0, sn_timer_ops = []\<rparr>)"

fun apply_committed :: "('s, 'i, 'o, 'p, 'c) service \<Rightarrow> entry list \<Rightarrow> ('r, 's) service_node \<Rightarrow> ('r, 's) service_node" where
  "apply_committed SV [] n = n"
| "apply_committed SV (e # es) n =
     (let n = n\<lparr>sn_applied := en_index e\<rparr> in
      if en_data e = [] then apply_committed SV es n
      else if \<not> en_normal e then apply_committed SV es n
      else
        case decode_all (sv_dec_input SV) (en_data e) of
          Err _ \<Rightarrow> apply_committed SV es n
        | Ok input \<Rightarrow>
            let (svc, c) = sv_apply SV (en_index e) input (sn_service n) (ctx_new (en_index e) (en_index e))
            in apply_committed SV es (n\<lparr>sn_service := svc, sn_timer_ops := c_timers c\<rparr>))"

definition drive_ready :: "('s, 'i, 'o, 'p, 'c) service \<Rightarrow> ('r, 'm, 'x) raft_lib \<Rightarrow> ('r, 's) service_node \<Rightarrow>
    ('m list \<times> ('r, 's) service_node) option" where
  "drive_ready SV L n =
     (if \<not> rl_has_ready L (sn_raw n) then Some ([], n)
      else
        let (rd, raw) = rl_ready L (sn_raw n); messages = rd_messages rd in
        case (case rd_snapshot rd of None \<Rightarrow> Some raw | Some snap \<Rightarrow> rl_apply_snapshot L snap raw) of
          None \<Rightarrow> None
        | Some raw \<Rightarrow>
            let n = apply_committed SV (rd_committed rd) (n\<lparr>sn_raw := raw\<rparr>) in
            case (if rd_entries rd = [] then Some (sn_raw n) else rl_append L (rd_entries rd) (sn_raw n)) of
              None \<Rightarrow> None
            | Some raw \<Rightarrow>
                let raw = (case rd_hs rd of None \<Rightarrow> raw | Some hs \<Rightarrow> rl_set_hardstate L hs raw);
                    messages = messages @ rd_persisted_messages rd;
                    (light, raw) = rl_advance L (rd\<lparr>rd_messages := [], rd_committed := [], rd_persisted_messages := []\<rparr>) raw;
                    raw = (case lr_commit_index light of None \<Rightarrow> raw | Some commit \<Rightarrow> rl_set_commit L commit raw);
                    messages = messages @ lr_messages light;
                    n = apply_committed SV (lr_committed light) (n\<lparr>sn_raw := raw\<rparr>)
                in Some (messages, n\<lparr>sn_raw := rl_advance_apply L (sn_raw n)\<rparr>))"

definition raft_tick :: "('r, 'm, 'x) raft_lib \<Rightarrow> ('r, 's) service_node \<Rightarrow> bool \<times> ('r, 's) service_node" where
  "raft_tick L n = (let (b, raw) = rl_tick L (sn_raw n) in (b, n\<lparr>sn_raw := raw\<rparr>))"

definition raft_campaign :: "('r, 'm, 'x) raft_lib \<Rightarrow> ('r, 's) service_node \<Rightarrow> (unit, 'x) result \<times> ('r, 's) service_node" where
  "raft_campaign L n = (let (res, raw) = rl_campaign L (sn_raw n) in (res, n\<lparr>sn_raw := raw\<rparr>))"

definition raft_is_leader :: "('r, 'm, 'x) raft_lib \<Rightarrow> ('r, 's) service_node \<Rightarrow> bool" where
  "raft_is_leader L n = rl_leader L (sn_raw n)"

definition raft_propose :: "('s, 'i, 'o, 'p, 'c) service \<Rightarrow> ('r, 'm, 'x) raft_lib \<Rightarrow> 'i \<Rightarrow> ('r, 's) service_node \<Rightarrow>
    (unit, 'x) result \<times> ('r, 's) service_node" where
  "raft_propose SV L input n =
     (let (res, raw) = rl_propose L (encode_to_vec (sv_enc_input SV) input) (sn_raw n) in (res, n\<lparr>sn_raw := raw\<rparr>))"

definition raft_step :: "('r, 'm, 'x) raft_lib \<Rightarrow> 'm \<Rightarrow> ('r, 's) service_node \<Rightarrow> (unit, 'x) result \<times> ('r, 's) service_node" where
  "raft_step L msg n = (let (res, raw) = rl_step L msg (sn_raw n) in (res, n\<lparr>sn_raw := raw\<rparr>))"

section \<open>A cluster, as its library sees it\<close>

text \<open>
  One cycle of the library's documented protocol on its own state: take the \<open>Ready\<close>, store its snapshot, entries and hard state,
  \<open>advance\<close>, store the commit index, \<open>advance_apply\<close>. It gives the messages to send and the committed entries that it hands out,
  those of the \<open>Ready\<close> before those of the \<open>LightReady\<close>.
\<close>

definition drive_raw :: "('r, 'm, 'x) raft_lib \<Rightarrow> 'r \<Rightarrow> ('m list \<times> entry list \<times> 'r) option" where
  "drive_raw L r =
     (if \<not> rl_has_ready L r then Some ([], [], r)
      else
        let (rd, r) = rl_ready L r in
        case (case rd_snapshot rd of None \<Rightarrow> Some r | Some snap \<Rightarrow> rl_apply_snapshot L snap r) of
          None \<Rightarrow> None
        | Some r \<Rightarrow>
            (case (if rd_entries rd = [] then Some r else rl_append L (rd_entries rd) r) of
               None \<Rightarrow> None
             | Some r \<Rightarrow>
                 let r = (case rd_hs rd of None \<Rightarrow> r | Some hs \<Rightarrow> rl_set_hardstate L hs r);
                     (light, r) = rl_advance L (rd\<lparr>rd_messages := [], rd_committed := [], rd_persisted_messages := []\<rparr>) r;
                     r = (case lr_commit_index light of None \<Rightarrow> r | Some commit \<Rightarrow> rl_set_commit L commit r)
                 in Some (rd_messages rd @ rd_persisted_messages rd @ lr_messages light,
                          rd_committed rd @ lr_committed light, rl_advance_apply L r)))"

definition handed_out :: "('r, 'm, 'x) raft_lib \<Rightarrow> 'r \<Rightarrow> entry list" where
  "handed_out L r = (case drive_raw L r of None \<Rightarrow> [] | Some (_, es, _) \<Rightarrow> es)"

text \<open>
  Any interleaving of the library's calls on the nodes of a cluster: ticks, elections, proposals, cycles, and messages that were
  sent, in any order, repeated or lost. \<open>hs i\<close> is what node \<open>i\<close> was handed so far and \<open>net\<close> what was sent; \<open>dest\<close> is a message's addressee.
\<close>

inductive lib_run :: "('r, 'm, 'x) raft_lib \<Rightarrow> ('m \<Rightarrow> nat) \<Rightarrow> (nat \<Rightarrow> 'r) \<Rightarrow> (nat \<Rightarrow> 'r) \<Rightarrow> (nat \<Rightarrow> entry list) \<Rightarrow> 'm set \<Rightarrow> bool"
  for L dest r0 where
  lib_start: "lib_run L dest r0 r0 (\<lambda>i. []) {}"
| lib_tick: "lib_run L dest r0 rs hs net \<Longrightarrow> lib_run L dest r0 (rs(i := snd (rl_tick L (rs i)))) hs net"
| lib_campaign: "lib_run L dest r0 rs hs net \<Longrightarrow> lib_run L dest r0 (rs(i := snd (rl_campaign L (rs i)))) hs net"
| lib_propose: "lib_run L dest r0 rs hs net \<Longrightarrow> lib_run L dest r0 (rs(i := snd (rl_propose L bs (rs i)))) hs net"
| lib_step: "lib_run L dest r0 rs hs net \<Longrightarrow> msg \<in> net \<Longrightarrow>
    lib_run L dest r0 (rs(dest msg := snd (rl_step L msg (rs (dest msg))))) hs net"
| lib_drive: "lib_run L dest r0 rs hs net \<Longrightarrow> drive_raw L (rs i) = Some (msgs, es, r') \<Longrightarrow>
    lib_run L dest r0 (rs(i := r')) (hs(i := hs i @ es)) (net \<union> set msgs)"

text \<open>
  What Raft promises of a cluster that is driven like this and keeps its whole log (the node never compacts its storage, so
  nobody is sent a snapshot): a node is handed the entries in log order from the first one on, each once, and no two nodes are
  handed different entries at the same place of the log (Raft's State Machine Safety).
\<close>

locale raft_laws =
  fixes L :: "('r, 'm, 'x) raft_lib" and dest :: "'m \<Rightarrow> nat" and r0 :: "nat \<Rightarrow> 'r"
  assumes index: "lib_run L dest r0 rs hs net \<Longrightarrow> k < length (hs i) \<Longrightarrow> unat (en_index (hs i ! k)) = k + 1"
    and safety: "lib_run L dest r0 rs hs net \<Longrightarrow> k < length (hs i) \<Longrightarrow> k < length (hs j) \<Longrightarrow> hs i ! k = hs j ! k"
begin

lemma handed_prefix:
  assumes "lib_run L dest r0 rs hs net" and "length (hs i) \<le> length (hs j)"
  shows "take (length (hs i)) (hs j) = hs i"
  using assms(2) safety [OF assms(1), of _ i j] by (intro nth_equalityI) auto

lemma last_index:
  assumes "lib_run L dest r0 rs hs net" and "hs i \<noteq> []"
  shows "unat (en_index (last (hs i))) = length (hs i)"
  using index [OF assms(1), of "length (hs i) - 1" i] assms(2) by (simp add: last_conv_nth)

end

section \<open>A cluster of service nodes\<close>

inductive cluster_run :: "('s, 'i, 'o, 'p, 'c) service \<Rightarrow> ('r, 'm, 'x) raft_lib \<Rightarrow> ('m \<Rightarrow> nat) \<Rightarrow> 'c \<Rightarrow> (nat \<Rightarrow> 'r) \<Rightarrow>
    (nat \<Rightarrow> ('r, 's) service_node) \<Rightarrow> (nat \<Rightarrow> entry list) \<Rightarrow> 'm set \<Rightarrow> bool"
  for SV L dest scfg r0 where
  cluster_new: "\<forall>i. service_node_new SV scfg (Ok (r0 i) :: ('r, 'x) result) = Ok (ns i) \<Longrightarrow>
    cluster_run SV L dest scfg r0 ns (\<lambda>i. []) {}"
| cluster_tick: "cluster_run SV L dest scfg r0 ns hs net \<Longrightarrow>
    cluster_run SV L dest scfg r0 (ns(i := snd (raft_tick L (ns i)))) hs net"
| cluster_campaign: "cluster_run SV L dest scfg r0 ns hs net \<Longrightarrow>
    cluster_run SV L dest scfg r0 (ns(i := snd (raft_campaign L (ns i)))) hs net"
| cluster_propose: "cluster_run SV L dest scfg r0 ns hs net \<Longrightarrow>
    cluster_run SV L dest scfg r0 (ns(i := snd (raft_propose SV L input (ns i)))) hs net"
| cluster_step: "cluster_run SV L dest scfg r0 ns hs net \<Longrightarrow> msg \<in> net \<Longrightarrow>
    cluster_run SV L dest scfg r0 (ns(dest msg := snd (raft_step L msg (ns (dest msg))))) hs net"
| cluster_drive: "cluster_run SV L dest scfg r0 ns hs net \<Longrightarrow> drive_ready SV L (ns i) = Some (msgs, n') \<Longrightarrow>
    cluster_run SV L dest scfg r0 (ns(i := n')) (hs(i := hs i @ handed_out L (sn_raw (ns i)))) (net \<union> set msgs)"

section \<open>The state is the ordered log\<close>

text \<open>The specification: what one entry does to the state.\<close>

definition ordered_apply :: "('s, 'i, 'o, 'p, 'c) service \<Rightarrow> entry \<Rightarrow> 's \<Rightarrow> 's" where
  "ordered_apply SV e s =
     (if en_data e = [] \<or> \<not> en_normal e then s
      else case decode_all (sv_dec_input SV) (en_data e) of
          Err _ \<Rightarrow> s
        | Ok input \<Rightarrow> fst (sv_apply SV (en_index e) input s (ctx_new (en_index e) (en_index e))))"

lemma apply_committed_spec:
  "sn_service (apply_committed SV es n) = fold (ordered_apply SV) es (sn_service n)"
  "sn_raw (apply_committed SV es n) = sn_raw n"
  "sn_applied (apply_committed SV es n) = (if es = [] then sn_applied n else en_index (last es))"
  by (induction SV es n rule: apply_committed.induct)
    (auto simp: ordered_apply_def Let_def split_beta split: result.splits)

declare apply_committed.simps [simp del]

text \<open>
  \<open>drive_ready\<close> is one cycle of the library's protocol, and applies to the service exactly the entries that the cycle hands out.
\<close>

lemma drive_ready_raw:
  assumes "drive_ready SV L n = Some (msgs, n')"
  shows "\<exists>es. drive_raw L (sn_raw n) = Some (msgs, es, sn_raw n') \<and>
    sn_service n' = fold (ordered_apply SV) es (sn_service n) \<and>
    sn_applied n' = (if es = [] then sn_applied n else en_index (last es))"
proof (cases "rl_has_ready L (sn_raw n)")
  case False
  then show ?thesis using assms by (simp add: drive_ready_def drive_raw_def)
next
  case True
  obtain rd r1 where r1: "rl_ready L (sn_raw n) = (rd, r1)" by force
  obtain r2 where r2: "(case rd_snapshot rd of None \<Rightarrow> Some r1 | Some snap \<Rightarrow> rl_apply_snapshot L snap r1) = Some r2"
    using assms True r1 by (auto simp: drive_ready_def split: option.splits)
  let ?n2 = "apply_committed SV (rd_committed rd) (n\<lparr>sn_raw := r2\<rparr>)"
  obtain r3 where r3: "(if rd_entries rd = [] then Some r2 else rl_append L (rd_entries rd) r2) = Some r3"
    using assms True r1 r2 by (cases "if rd_entries rd = [] then Some r2 else rl_append L (rd_entries rd) r2")
      (simp_all add: drive_ready_def apply_committed_spec(2) Let_def split: if_splits)
  define r4 where "r4 = (case rd_hs rd of None \<Rightarrow> r3 | Some hs \<Rightarrow> rl_set_hardstate L hs r3)"
  obtain light r5 where r5: "rl_advance L (rd\<lparr>rd_messages := [], rd_committed := [], rd_persisted_messages := []\<rparr>) r4 = (light, r5)" by force
  define r6 where "r6 = (case lr_commit_index light of None \<Rightarrow> r5 | Some commit \<Rightarrow> rl_set_commit L commit r5)"
  have n': "n' = (apply_committed SV (lr_committed light) (?n2\<lparr>sn_raw := r6\<rparr>))\<lparr>sn_raw := rl_advance_apply L r6\<rparr>"
    and msgs: "msgs = rd_messages rd @ rd_persisted_messages rd @ lr_messages light"
    using assms True r1 r2 r3 r5
    by (simp_all add: drive_ready_def apply_committed_spec(2) Let_def r4_def r6_def cong: if_cong)
  have "drive_raw L (sn_raw n) = Some (msgs, rd_committed rd @ lr_committed light, rl_advance_apply L r6)"
    using True r1 r2 r3 r5 by (simp add: drive_raw_def Let_def msgs r4_def r6_def cong: if_cong)
  then show ?thesis by (simp add: n' apply_committed_spec)
qed

lemmas raft_call_defs = raft_tick_def raft_campaign_def raft_propose_def raft_step_def

lemma cluster_new_node:
  "service_node_new SV scfg (Ok r :: ('r, 'x) result) = Ok n \<Longrightarrow>
     sn_raw n = r \<and> sn_service n = sv_genesis SV scfg \<and> sn_applied n = 0"
  by (auto simp: service_node_new_def)

definition raws :: "(nat \<Rightarrow> ('r, 's) service_node) \<Rightarrow> nat \<Rightarrow> 'r" where
  "raws ns i = sn_raw (ns i)"

lemma raws_upd: "raws (ns(i := n)) = (raws ns)(i := sn_raw n)"
  by (auto simp: raws_def)

lemma raw_calls [simp]:
  "sn_raw (snd (raft_tick L n)) = snd (rl_tick L (sn_raw n))" "sn_raw (snd (raft_campaign L n)) = snd (rl_campaign L (sn_raw n))"
  "sn_raw (snd (raft_propose SV L input n)) = snd (rl_propose L (encode_to_vec (sv_enc_input SV) input) (sn_raw n))"
  "sn_raw (snd (raft_step L m n)) = snd (rl_step L m (sn_raw n))"
  by (simp_all add: raft_call_defs split_beta)

lemma service_calls [simp]:
  "sn_service (snd (raft_tick L n)) = sn_service n" "sn_service (snd (raft_campaign L n)) = sn_service n"
  "sn_service (snd (raft_propose SV L input n)) = sn_service n" "sn_service (snd (raft_step L m n)) = sn_service n"
  "sn_applied (snd (raft_tick L n)) = sn_applied n" "sn_applied (snd (raft_campaign L n)) = sn_applied n"
  "sn_applied (snd (raft_propose SV L input n)) = sn_applied n" "sn_applied (snd (raft_step L m n)) = sn_applied n"
  by (simp_all add: raft_call_defs split_beta)

text \<open>A cluster of service nodes drives its library as the library asks, and every node's state is that of what it was handed.\<close>

lemma cluster_lib_run:
  assumes "cluster_run SV L dest scfg r0 ns hs net"
  shows "lib_run L dest r0 (raws ns) hs net \<and>
    (\<forall>i. sn_service (ns i) = fold (ordered_apply SV) (hs i) (sv_genesis SV scfg) \<and>
       sn_applied (ns i) = (if hs i = [] then 0 else en_index (last (hs i))))"
  using assms
proof induction
  case (cluster_new ns)
  have "\<forall>i. sn_raw (ns i) = r0 i \<and> sn_service (ns i) = sv_genesis SV scfg \<and> sn_applied (ns i) = 0"
    using cluster_new_node [OF spec [OF cluster_new]] by blast
  moreover from this have "raws ns = r0" by (auto simp: raws_def)
  ultimately show ?case using lib_start [of L dest r0] by simp
next
  case (cluster_tick ns hs net i)
  have "lib_run L dest r0 (raws (ns(i := snd (raft_tick L (ns i))))) hs net"
    using lib_tick [of L dest r0 "raws ns" hs net i] cluster_tick by (simp add: raws_upd flip: raws_def)
  then show ?case by (rule conjI) (use cluster_tick.IH in simp)
next
  case (cluster_campaign ns hs net i)
  have "lib_run L dest r0 (raws (ns(i := snd (raft_campaign L (ns i))))) hs net"
    using lib_campaign [of L dest r0 "raws ns" hs net i] cluster_campaign by (simp add: raws_upd flip: raws_def)
  then show ?case by (rule conjI) (use cluster_campaign.IH in simp)
next
  case (cluster_propose ns hs net i input)
  have "lib_run L dest r0 (raws (ns(i := snd (raft_propose SV L input (ns i))))) hs net"
    using lib_propose [of L dest r0 "raws ns" hs net i] cluster_propose by (simp add: raws_upd flip: raws_def)
  then show ?case by (rule conjI) (use cluster_propose.IH in simp)
next
  case (cluster_step ns hs net msg)
  have "lib_run L dest r0 (raws (ns(dest msg := snd (raft_step L msg (ns (dest msg)))))) hs net"
    using lib_step [of L dest r0 "raws ns" hs net msg] cluster_step by (simp add: raws_upd flip: raws_def)
  then show ?case by (rule conjI) (use cluster_step.IH in simp)
next
  case (cluster_drive ns hs net i msgs n')
  from drive_ready_raw [OF cluster_drive.hyps(2)] obtain es where
    es: "drive_raw L (sn_raw (ns i)) = Some (msgs, es, sn_raw n')" "sn_service n' = fold (ordered_apply SV) es (sn_service (ns i))"
      "sn_applied n' = (if es = [] then sn_applied (ns i) else en_index (last es))" by blast
  have "handed_out L (sn_raw (ns i)) = es" using es(1) by (simp add: handed_out_def)
  moreover have "lib_run L dest r0 ((raws ns)(i := sn_raw n')) (hs(i := hs i @ es)) (net \<union> set msgs)"
    using lib_drive [of L dest r0 "raws ns" hs net i msgs es "sn_raw n'"] cluster_drive.IH es(1) by (simp add: raws_def [of ns i])
  ultimately have "lib_run L dest r0 (raws (ns(i := n'))) (hs(i := hs i @ handed_out L (sn_raw (ns i)))) (net \<union> set msgs)"
    by (simp add: raws_upd)
  then show ?case by (rule conjI) (use cluster_drive.IH es(2,3) \<open>handed_out L (sn_raw (ns i)) = es\<close> in simp)
qed

context raft_laws
begin

lemma cluster_state:
  assumes "cluster_run SV L dest scfg r0 ns hs net"
  shows "sn_service (ns i) = fold (ordered_apply SV) (hs i) (sv_genesis SV scfg)" and "unat (sn_applied (ns i)) = length (hs i)"
  using cluster_lib_run [OF assms] last_index [of "raws ns" hs net i] by auto

lemma cluster_behind:
  assumes "cluster_run SV L dest scfg r0 ns hs net" and "sn_applied (ns i) \<le> sn_applied (ns j)"
  shows "hs j = hs i @ drop (length (hs i)) (hs j)"
proof -
  have "length (hs i) \<le> length (hs j)" using assms(2) cluster_state(2) [OF assms(1)] by (simp add: word_le_nat_alt)
  with handed_prefix cluster_lib_run [OF assms(1)] have "take (length (hs i)) (hs j) = hs i" by blast
  then show ?thesis by (metis append_take_drop_id)
qed

end

section \<open>The native sequencer's view\<close>

text \<open>An entry as the frame that the native sequencer would have journaled for the same input.\<close>

definition entry_frame :: "entry \<Rightarrow> frame" where
  "entry_frame e = \<lparr>f_seq = en_index e, f_timestamp = en_index e, f_stream_id = 1, f_kind = Input, f_payload = en_data e\<rparr>"

definition decodes :: "('s, 'i, 'o, 'p, 'c) service \<Rightarrow> entry \<Rightarrow> bool" where
  "decodes SV e \<longleftrightarrow> en_normal e \<and> en_data e \<noteq> [] \<and> is_ok (decode_all (sv_dec_input SV) (en_data e))"

text \<open>An entry that carries no input (the empty one of a new leader, a configuration change) leaves the state alone.\<close>

lemma ordered_skips: "\<not> decodes SV e \<Longrightarrow> ordered_apply SV e s = s"
  by (cases "decode_all (sv_dec_input SV) (en_data e)") (auto simp: decodes_def ordered_apply_def)

lemma ordered_is_replay:
  "\<exists>w'. replay_frames SV (map entry_frame (filter (decodes SV) es)) (s, w) = Ok (fold (ordered_apply SV) es s, w')"
proof (induction es arbitrary: s w)
  case (Cons e es)
  show ?case
  proof (cases "decodes SV e")
    case True
    then obtain i where i: "decode_all (sv_dec_input SV) (en_data e) = Ok i"
      by (cases "decode_all (sv_dec_input SV) (en_data e)") (auto simp: decodes_def)
    obtain w1 where "replay_frame SV (entry_frame e) (s, w) = Ok (ordered_apply SV e s, w1)"
      using i True by (auto simp: replay_frame_def entry_frame_def replay_step_def ordered_apply_def decodes_def split_beta)
    then show ?thesis using Cons.IH [of "ordered_apply SV e s" w1] True by simp
  next
    case False
    then show ?thesis using Cons.IH [of s w] by (simp add: ordered_skips)
  qed
qed simp

section \<open>A library with a fixed leader\<close>

text \<open>
  A small library that keeps these promises and whose proposals matter: node 0 leads nodes 1 and 2. It appends a proposal to its log
  and sends it to both; a follower that gets a log that is not shorter than its own takes it over and acknowledges its length; the
  leader commits what one follower acknowledged, which with itself is a majority, and tells the followers with its next tick.
\<close>

datatype fl_msg = App nat "bytes list" nat | AppResp nat

fun fl_dest :: "fl_msg \<Rightarrow> nat" where
  "fl_dest (App to l c) = to"
| "fl_dest (AppResp k) = 0"

record fl_state =
  fl_id :: nat
  fl_log :: "bytes list"
  fl_commit :: nat
  fl_given :: nat
  fl_out :: "fl_msg list"

definition fl_init :: "nat \<Rightarrow> fl_state" where
  "fl_init i = \<lparr>fl_id = i, fl_log = [], fl_commit = 0, fl_given = 0, fl_out = []\<rparr>"

definition fl_entry :: "nat \<Rightarrow> bytes \<Rightarrow> entry" where
  "fl_entry k bs = \<lparr>en_index = of_nat (k + 1), en_data = bs, en_normal = True\<rparr>"

definition fl_entries :: "bytes list \<Rightarrow> entry list" where
  "fl_entries l = map (\<lambda>(k, bs). fl_entry k bs) (enumerate 0 l)"

definition fl_send :: "fl_state \<Rightarrow> fl_state" where
  "fl_send r = (if fl_id r = 0 then r\<lparr>fl_out := fl_out r @ [App 1 (fl_log r) (fl_commit r), App 2 (fl_log r) (fl_commit r)]\<rparr> else r)"

definition fl_propose :: "bytes \<Rightarrow> fl_state \<Rightarrow> (unit, unit) result \<times> fl_state" where
  "fl_propose bs r =
     (if fl_id r = 0 \<and> length (fl_log r) < 1000 then (Ok (), fl_send (r\<lparr>fl_log := fl_log r @ [bs]\<rparr>)) else (Err (), r))"

fun fl_step :: "fl_msg \<Rightarrow> fl_state \<Rightarrow> (unit, unit) result \<times> fl_state" where
  "fl_step (App to l c) r =
     (if fl_id r = 0 \<or> length l < length (fl_log r) then (Ok (), r)
      else (Ok (), r\<lparr>fl_log := l, fl_commit := max (fl_commit r) (min c (length l)), fl_out := fl_out r @ [AppResp (length l)]\<rparr>))"
| "fl_step (AppResp k) r =
     (if fl_id r = 0 then (Ok (), r\<lparr>fl_commit := max (fl_commit r) (min k (length (fl_log r)))\<rparr>) else (Ok (), r))"

definition fl_ready :: "fl_state \<Rightarrow> (fl_msg, unit) ready \<times> fl_state" where
  "fl_ready r = (\<lparr>rd_messages = fl_out r, rd_snapshot = None,
       rd_committed = drop (fl_given r) (take (fl_commit r) (fl_entries (fl_log r))), rd_entries = [], rd_hs = None,
       rd_persisted_messages = []\<rparr>, r\<lparr>fl_out := [], fl_given := fl_commit r\<rparr>)"

definition fl_lib :: "(fl_state, fl_msg, unit) raft_lib" where
  "fl_lib = \<lparr>rl_tick = (\<lambda>r. (True, fl_send r)), rl_campaign = (\<lambda>r. (Ok (), r)), rl_leader = (\<lambda>r. fl_id r = 0),
     rl_propose = fl_propose, rl_step = fl_step, rl_has_ready = (\<lambda>r. fl_out r \<noteq> [] \<or> fl_given r < fl_commit r),
     rl_ready = fl_ready, rl_apply_snapshot = (\<lambda>x r. Some r), rl_append = (\<lambda>es r. Some r), rl_set_hardstate = (\<lambda>x r. r),
     rl_advance = (\<lambda>rd r. (\<lparr>lr_commit_index = None, lr_messages = [], lr_committed = []\<rparr>, r)),
     rl_set_commit = (\<lambda>c r. r), rl_advance_apply = (\<lambda>r. r)\<rparr>"

lemma fl_lib_sel [simp]:
  "rl_tick fl_lib r = (True, fl_send r)" "rl_campaign fl_lib r = (Ok (), r)" "rl_propose fl_lib bs r = fl_propose bs r"
  "rl_step fl_lib m r = fl_step m r" "rl_has_ready fl_lib r \<longleftrightarrow> fl_out r \<noteq> [] \<or> fl_given r < fl_commit r"
  "rl_ready fl_lib r = fl_ready r" "rl_advance fl_lib rd r = (\<lparr>lr_commit_index = None, lr_messages = [], lr_committed = []\<rparr>, r)"
  "rl_advance_apply fl_lib r = r"
  by (simp_all add: fl_lib_def)

lemma fl_drive_raw:
  "drive_raw fl_lib r = (if fl_out r \<noteq> [] \<or> fl_given r < fl_commit r
     then Some (fl_out r, drop (fl_given r) (take (fl_commit r) (fl_entries (fl_log r))), r\<lparr>fl_out := [], fl_given := fl_commit r\<rparr>)
     else Some ([], [], r))"
  by (simp add: drive_raw_def fl_ready_def)

text \<open>Everything a node knows is a prefix \<open>lg\<close>, the leader's log.\<close>

fun fl_msg_ok :: "bytes list \<Rightarrow> fl_msg \<Rightarrow> bool" where
  "fl_msg_ok lg (App to l c) = (l = take (length l) lg \<and> c \<le> length l)"
| "fl_msg_ok lg (AppResp k) = True"

definition fl_ok :: "bytes list \<Rightarrow> fl_state \<Rightarrow> entry list \<Rightarrow> bool" where
  "fl_ok lg r h \<longleftrightarrow> fl_log r = take (length (fl_log r)) lg \<and> fl_given r \<le> fl_commit r \<and> fl_commit r \<le> length (fl_log r) \<and>
     h = take (fl_given r) (fl_entries lg) \<and> (\<forall>m \<in> set (fl_out r). fl_msg_ok lg m)"

lemma length_fl_entries [simp]: "length (fl_entries l) = length l"
  by (simp add: fl_entries_def)

lemma fl_entries_take: "fl_entries (take k l) = take k (fl_entries l)"
  by (intro nth_equalityI) (auto simp: fl_entries_def nth_enumerate_eq)

lemma fl_entries_nth: "k < length l \<Longrightarrow> fl_entries l ! k = fl_entry k (l ! k)"
  by (simp add: fl_entries_def nth_enumerate_eq)

lemma fl_msg_ok_grow: "fl_msg_ok lg m \<Longrightarrow> fl_msg_ok (lg @ xs) m"
  by (cases m) (auto simp: min_def, metis length_take min.absorb_iff2 take_append)

lemma fl_ok_grow: "fl_ok lg r h \<Longrightarrow> fl_ok (lg @ xs) r h"
proof -
  assume ok: "fl_ok lg r h"
  then have len: "length (fl_log r) \<le> length lg" by (metis fl_ok_def length_take min.absorb_iff2 min.commute)
  moreover have "fl_given r \<le> length lg" using ok len by (simp add: fl_ok_def)
  then have "take (fl_given r) (fl_entries (lg @ xs)) = take (fl_given r) (fl_entries lg)"
    by (metis append_eq_conv_conj fl_entries_take min.absorb1 take_take)
  ultimately show ?thesis using ok by (auto simp: fl_ok_def fl_msg_ok_grow)
qed

lemma fl_ok_send: "fl_ok lg r h \<Longrightarrow> fl_ok lg (fl_send r) h"
  by (auto simp: fl_ok_def fl_send_def)

lemma fl_ok_step: "fl_ok lg r h \<Longrightarrow> fl_msg_ok lg m \<Longrightarrow> fl_ok lg (snd (fl_step m r)) h"
  by (cases m) (auto simp: fl_ok_def)

lemma fl_step_leader: "fl_id r = 0 \<Longrightarrow> fl_log (snd (fl_step m r)) = fl_log r" "fl_id (snd (fl_step m r)) = fl_id r"
  by (cases m; simp)+

lemma fl_send_keeps [simp]: "fl_log (fl_send r) = fl_log r" "fl_id (fl_send r) = fl_id r"
  by (simp_all add: fl_send_def)

lemma fl_drive:
  assumes "drive_raw fl_lib r = Some (msgs, es, r')" and ok: "fl_ok lg r h"
  shows "fl_ok lg r' (h @ es) \<and> (\<forall>m \<in> set msgs. fl_msg_ok lg m) \<and> fl_log r' = fl_log r \<and> fl_id r' = fl_id r"
proof (cases "fl_out r \<noteq> [] \<or> fl_given r < fl_commit r")
  case False
  with assms show ?thesis by (auto simp: fl_drive_raw)
next
  case True
  have "fl_entries (fl_log r) = take (length (fl_log r)) (fl_entries lg)" using ok fl_entries_take [of "length (fl_log r)" lg] by (simp add: fl_ok_def)
  then have "take (fl_commit r) (fl_entries (fl_log r)) = take (fl_commit r) (fl_entries lg)" using ok by (simp add: fl_ok_def min_def)
  moreover have "take (fl_given r) (fl_entries lg) = take (fl_given r) (take (fl_commit r) (fl_entries lg))"
    using ok by (simp add: fl_ok_def min_def)
  moreover have "es = drop (fl_given r) (take (fl_commit r) (fl_entries (fl_log r)))" "r' = r\<lparr>fl_out := [], fl_given := fl_commit r\<rparr>"
      "msgs = fl_out r"
    using assms(1) True by (simp_all add: fl_drive_raw)
  ultimately have "h @ es = take (fl_commit r) (fl_entries lg)" using ok unfolding fl_ok_def by (metis append_take_drop_id)
  with ok \<open>r' = _\<close> \<open>msgs = _\<close> show ?thesis by (simp add: fl_ok_def)
qed

definition fl_inv :: "(nat \<Rightarrow> fl_state) \<Rightarrow> (nat \<Rightarrow> entry list) \<Rightarrow> fl_msg set \<Rightarrow> bool" where
  "fl_inv rs hs net \<longleftrightarrow> (\<forall>i. fl_id (rs i) = i \<and> fl_ok (fl_log (rs 0)) (rs i) (hs i)) \<and>
     (\<forall>m \<in> net. fl_msg_ok (fl_log (rs 0)) m) \<and> length (fl_log (rs 0)) \<le> 1000"

lemma fl_inv_upd:
  assumes "fl_inv rs hs net" and "fl_id r' = fl_id (rs i)" and "i = 0 \<Longrightarrow> fl_log r' = fl_log (rs i)"
    and "fl_ok (fl_log (rs 0)) r' h'" and "\<forall>m \<in> net'. fl_msg_ok (fl_log (rs 0)) m"
  shows "fl_inv (rs(i := r')) (hs(i := h')) (net \<union> net')"
  using assms unfolding fl_inv_def by (cases "i = 0") auto

lemma fl_inv_keep:
  assumes "fl_inv rs hs net" and "fl_id r' = fl_id (rs i)" and "i = 0 \<Longrightarrow> fl_log r' = fl_log (rs i)"
    and "fl_ok (fl_log (rs 0)) r' (hs i)"
  shows "fl_inv (rs(i := r')) hs net"
  using fl_inv_upd [OF assms, of "{}"] by simp

lemma fl_run_inv: "lib_run fl_lib fl_dest fl_init rs hs net \<Longrightarrow> fl_inv rs hs net"
proof (induction rule: lib_run.induct)
  case lib_start
  then show ?case by (simp add: fl_inv_def fl_init_def fl_ok_def)
next
  case (lib_tick rs hs net i)
  then show ?case by (intro fl_inv_keep) (simp_all add: fl_ok_send fl_inv_def)
next
  case (lib_campaign rs hs net i)
  then show ?case by simp
next
  case (lib_propose rs hs net i bs)
  note inv = lib_propose.IH
  show ?case
  proof (cases "i = 0 \<and> length (fl_log (rs 0)) < 1000")
    case False
    then have "snd (rl_propose fl_lib bs (rs i)) = rs i" using inv by (auto simp: fl_propose_def fl_inv_def)
    with inv show ?thesis by simp
  next
    case True
    let ?lg = "fl_log (rs 0)" and ?r = "(rs 0)\<lparr>fl_log := fl_log (rs 0) @ [bs]\<rparr>"
    have "fl_ok (?lg @ [bs]) (rs 0) (hs 0)" using inv fl_ok_grow by (simp add: fl_inv_def)
    then have "fl_ok (?lg @ [bs]) (fl_send ?r) (hs 0)" by (intro fl_ok_send) (auto simp: fl_ok_def)
    moreover have "snd (rl_propose fl_lib bs (rs i)) = fl_send ?r" using True inv by (simp add: fl_propose_def fl_inv_def)
    ultimately show ?thesis using True inv by (auto simp: fl_inv_def intro: fl_ok_grow fl_msg_ok_grow)
  qed
next
  case (lib_step rs hs net msg)
  then show ?case
    by (intro fl_inv_keep) (auto simp: fl_inv_def fl_step_leader intro: fl_ok_step)
next
  case (lib_drive rs hs net i msgs es r')
  have "fl_ok (fl_log (rs 0)) (rs i) (hs i)" using lib_drive.IH by (simp add: fl_inv_def)
  from fl_drive [OF lib_drive.hyps(2) this] lib_drive.IH show ?case by (intro fl_inv_upd) auto
qed

interpretation fixed: raft_laws fl_lib fl_dest fl_init
proof
  fix rs hs net and k i j :: nat
  assume run: "lib_run fl_lib fl_dest fl_init rs hs net" and k: "k < length (hs i)"
  let ?lg = "fl_log (rs 0)"
  have inv: "fl_inv rs hs net" by (rule fl_run_inv [OF run])
  then have at: "hs l ! k = fl_entry k (?lg ! k) \<and> k < 1000" if "k < length (hs l)" for l
    using that by (auto simp: fl_inv_def fl_ok_def fl_entries_nth)
  from at [OF k] show "unat (en_index (hs i ! k)) = k + 1"
    by (simp add: fl_entry_def unat_of_nat_small del: of_nat_Suc of_nat_add)
  assume "k < length (hs j)"
  with at k show "hs i ! k = hs j ! k" by simp
qed

section \<open>Property\<close>

text \<open>
  C26. Raft-ordered replicas agree. Run a cluster of service nodes over a library that keeps Raft's promises, with ticks, elections,
  proposals, \<open>drive_ready\<close> calls and messages that are reordered, repeated or lost, in any interleaving. Then every node has applied
  each entry that it was handed exactly once and in log order, starting at genesis, whatever batches the entries came in; nodes with the same
  applied index have the same state, and a node that is ahead has the state of a node behind it with the entries between applied. The state is
  also the one that the native sequencer's replay computes from the inputs among these entries, with the log index as sequence number and time.
\<close>

theorem raft_replicas_agree:
  assumes "raft_laws L dest r0" and "cluster_run SV L dest scfg r0 ns hs net"
  shows "(\<forall>i. sn_service (ns i) = fold (ordered_apply SV) (hs i) (sv_genesis SV scfg) \<and> unat (sn_applied (ns i)) = length (hs i) \<and>
      (\<exists>w. replay_frames SV (map entry_frame (filter (decodes SV) (hs i))) (sv_genesis SV scfg, wheel_new) = Ok (sn_service (ns i), w))) \<and>
    (\<forall>i j. sn_applied (ns i) = sn_applied (ns j) \<longrightarrow> sn_service (ns i) = sn_service (ns j)) \<and>
    (\<forall>i j. sn_applied (ns i) \<le> sn_applied (ns j) \<longrightarrow>
      sn_service (ns j) = fold (ordered_apply SV) (drop (length (hs i)) (hs j)) (sn_service (ns i)))"
proof -
  note state = raft_laws.cluster_state [OF assms] and behind = raft_laws.cluster_behind [OF assms]
  have later: "sn_service (ns j) = fold (ordered_apply SV) (drop (length (hs i)) (hs j)) (sn_service (ns i))"
    if "sn_applied (ns i) \<le> sn_applied (ns j)" for i j
    using behind [OF that] state(1) [of i] state(1) [of j] by (metis comp_apply fold_append)
  have "sn_service (ns i) = sn_service (ns j)" if "sn_applied (ns i) = sn_applied (ns j)" for i j
    using later [of i j] that state(2) [of i] state(2) [of j] by simp
  moreover have "\<exists>w. replay_frames SV (map entry_frame (filter (decodes SV) (hs i))) (sv_genesis SV scfg, wheel_new) =
      Ok (sn_service (ns i), w)" for i
    unfolding state(1) [of i] by (rule ordered_is_replay)
  ultimately show ?thesis using later state by (intro conjI allI impI)
qed

text \<open>The states that a cluster of counters over this library can reach, as its library sees them.\<close>

definition fl_reach :: "(nat \<Rightarrow> fl_state) \<Rightarrow> (nat \<Rightarrow> entry list) \<Rightarrow> fl_msg set \<Rightarrow> bool" where
  "fl_reach rs hs net \<longleftrightarrow> (\<exists>ns. cluster_run counter fl_lib fl_dest () fl_init ns hs net \<and> (raws ns) = rs)"

lemma fl_reach_start: "fl_reach fl_init (\<lambda>i. []) {}"
  unfolding fl_reach_def
  by (rule exI [of _ "\<lambda>i. \<lparr>sn_raw = fl_init i, sn_service = sv_genesis counter (), sn_applied = 0, sn_timer_ops = []\<rparr>"])
    (auto intro!: cluster_new simp: service_node_new_def raws_def)

lemma fl_reachI: "cluster_run counter fl_lib fl_dest () fl_init ns hs net \<Longrightarrow> raws ns = rs \<Longrightarrow> fl_reach rs hs net"
  unfolding fl_reach_def by blast

lemma fl_reach_tick: "fl_reach rs hs net \<Longrightarrow> fl_reach (rs(i := fl_send (rs i))) hs net"
  by (subst (asm) fl_reach_def) (elim exE conjE, rule fl_reachI [OF cluster_tick [where i = i]], auto simp: raws_upd raws_def)

lemma fl_reach_propose: "fl_reach rs hs net \<Longrightarrow> fl_reach (rs(i := snd (fl_propose (enc_cmd c) (rs i)))) hs net"
  by (subst (asm) fl_reach_def)
    (elim exE conjE, rule fl_reachI [OF cluster_propose [where i = i and input = c]],
      auto simp: raws_upd raws_def encode_to_vec_def, simp add: counter_def)

lemma fl_reach_step: "fl_reach rs hs net \<Longrightarrow> m \<in> net \<Longrightarrow> fl_reach (rs(fl_dest m := snd (fl_step m (rs (fl_dest m))))) hs net"
  by (subst (asm) fl_reach_def) (elim exE conjE, rule fl_reachI [OF cluster_step [where msg = m]], auto simp: raws_upd raws_def)

lemma fl_reach_drive:
  assumes "fl_reach rs hs net" and "drive_raw fl_lib (rs i) = Some (msgs, es, r')"
  shows "fl_reach (rs(i := r')) (hs(i := hs i @ es)) (net \<union> set msgs)"
proof -
  from assms(1) obtain ns where ns: "cluster_run counter fl_lib fl_dest () fl_init ns hs net" "(raws ns) = rs"
    by (auto simp: fl_reach_def)
  then have raw: "sn_raw (ns i) = rs i" by (auto simp: raws_def)
  have "drive_ready counter fl_lib (ns i) \<noteq> None" by (simp add: drive_ready_def fl_ready_def Let_def)
  then obtain ms n' where n': "drive_ready counter fl_lib (ns i) = Some (ms, n')" by auto
  from drive_ready_raw [OF n'] assms(2) raw have "ms = msgs" "sn_raw n' = r'" "handed_out fl_lib (sn_raw (ns i)) = es"
    by (auto simp: handed_out_def)
  with cluster_drive [OF ns(1) n'] show ?thesis using ns(2) by (intro fl_reachI) (auto simp: raws_upd raws_def)
qed

text \<open>One command: proposed at the leader, acknowledged by node 1, applied by the leader, told to node 1 and applied there.\<close>

definition add_five :: bytes where
  "add_five = enc_cmd (Add 5)"

lemma fl_add_five:
  "\<exists>net. fl_reach (fl_init(0 := \<lparr>fl_id = 0, fl_log = [add_five], fl_commit = 1, fl_given = 1, fl_out = []\<rparr>,
       1 := \<lparr>fl_id = 1, fl_log = [add_five], fl_commit = 1, fl_given = 1, fl_out = []\<rparr>))
     ((\<lambda>i. [])(0 := [fl_entry 0 add_five], 1 := [fl_entry 0 add_five])) net"
proof -
  let ?r = "\<lambda>i c g out. \<lparr>fl_id = i, fl_log = [add_five], fl_commit = c, fl_given = g, fl_out = out\<rparr>"
  let ?m = "\<lambda>c. [App 1 [add_five] c, App 2 [add_five] c]" and ?e = "[fl_entry 0 add_five]"
  have "(\<lambda>i :: nat. [] :: entry list)(k := []) = (\<lambda>i. [])" for k by auto
  note run = this fl_propose_def fl_send_def fl_init_def fl_drive_raw fl_entries_def
  have "fl_reach (fl_init(0 := ?r 0 0 0 (?m 0))) (\<lambda>i. []) {}"
    using fl_reach_propose [OF fl_reach_start, of 0 "Add 5"] by (simp add: run flip: add_five_def)
  from fl_reach_drive [OF this, of 0] have "fl_reach (fl_init(0 := ?r 0 0 0 [])) (\<lambda>i. []) (set (?m 0))" by (simp add: run)
  from fl_reach_step [OF this, of "App 1 [add_five] 0"]
  have "fl_reach (fl_init(0 := ?r 0 0 0 [], 1 := ?r 1 0 0 [AppResp 1])) (\<lambda>i. []) (set (?m 0))" by (simp add: fl_init_def)
  from fl_reach_drive [OF this, of 1]
  have "fl_reach (fl_init(0 := ?r 0 0 0 [], 1 := ?r 1 0 0 [])) (\<lambda>i. []) (set (?m 0 @ [AppResp 1]))" by (simp add: run)
  from fl_reach_tick [OF fl_reach_step [OF this, of "AppResp 1"], of 0]
  have "fl_reach (fl_init(0 := ?r 0 1 0 (?m 1), 1 := ?r 1 0 0 [])) (\<lambda>i. []) (set (?m 0 @ [AppResp 1]))"
    by (simp add: fl_send_def fun_upd_twist)
  from fl_reach_drive [OF this, of 0]
  have "fl_reach (fl_init(0 := ?r 0 1 1 [], 1 := ?r 1 0 0 [])) ((\<lambda>i. [])(0 := ?e)) (set (?m 0 @ AppResp 1 # ?m 1))"
    by (simp add: run fun_upd_twist)
  from fl_reach_step [OF this, of "App 1 [add_five] 1"]
  have "fl_reach (fl_init(0 := ?r 0 1 1 [], 1 := ?r 1 1 0 [AppResp 1])) ((\<lambda>i. [])(0 := ?e)) (set (?m 0 @ AppResp 1 # ?m 1))"
    by simp
  from fl_reach_drive [OF this, of 1] show ?thesis by (auto simp: run)
qed

theorem raft_replicas_agree_witness:
  "\<exists>(ns :: nat \<Rightarrow> (fl_state, i64) service_node) hs net. cluster_run counter fl_lib fl_dest () fl_init ns hs net \<and>
    sn_applied (ns 0) = 1 \<and> sn_applied (ns 1) = 1 \<and> sn_service (ns 0) = 5 \<and> sn_service (ns 1) = sn_service (ns 0)"
proof -
  obtain ns hs net where run: "cluster_run counter fl_lib fl_dest () fl_init ns hs net"
    and hs: "hs 0 = [fl_entry 0 add_five]" "hs 1 = [fl_entry 0 add_five]"
    using fl_add_five by (auto simp: fl_reach_def)
  note agree = raft_replicas_agree [OF fixed.raft_laws_axioms run]
  have "unat (sn_applied (ns 0)) = 1" "unat (sn_applied (ns 1)) = 1" using agree hs by auto
  then have a: "sn_applied (ns 0) = 1" "sn_applied (ns 1) = 1" by (simp_all add: word_unat_eq_iff)
  have "length (enc_cmd (Add 5)) = 10" by (simp add: enc_cmd_def enc_enum_def enc_int_def)
  then have "fold (ordered_apply counter) [fl_entry 0 add_five] 0 = 5"
    using codec.decode_all_encode [OF codec_cmd, of "Add 5"]
    by (simp add: fl_entry_def add_five_def ordered_apply_def counter_def counter_apply_def encode_to_vec_def Let_def) force
  moreover have "sn_service (ns 0) = fold (ordered_apply counter) (hs 0) (sv_genesis counter ())" using agree by blast
  ultimately have "sn_service (ns 0) = 5" using hs(1) by (simp add: counter_def)
  moreover have "sn_service (ns 1) = sn_service (ns 0)" using agree a by metis
  ultimately show ?thesis using run a by blast
qed

end
