(* ===== verification/Order_Book.thy ===== *)
theory Order_Book
  imports Services
begin

text \<open>
  \<open>examples/orderbook/src/lib.rs\<close>: a limit order book with price-time priority as a service. A side
  of the book is a \<open>BTreeMap\<close> from prices to FIFO queues. The operations that call \<open>expect\<close> return
  \<open>None\<close> where the code panics. Prices and quantities are \<open>u32\<close>, the share counters wrap like \<open>u64\<close>.
\<close>

section \<open>Data\<close>

type_synonym price = u32
type_synonym qty = u32
type_synonym order_id = u64

datatype side = Buy | Sell

datatype book_cmd =
    Submit order_id side price qty
  | SubmitGtd order_id side price qty u64
  | Cancel order_id

datatype reject = ZeroQty | DuplicateId | UnknownOrder

datatype book_evt =
    Accepted order_id
  | Trade order_id order_id price qty
  | Canceled order_id qty
  | Expired order_id qty
  | OrderRejected order_id reject

record resting =
  rs_id :: order_id
  rs_qty :: qty

type_synonym levels = "(price, resting list) btmap"

record order_book =
  ob_bids :: levels
  ob_asks :: levels
  ob_index :: "(order_id, side \<times> price) btmap"
  ob_accepted_shares :: u64
  ob_traded_shares :: u64
  ob_canceled_shares :: u64

definition side_of :: "side \<Rightarrow> order_book \<Rightarrow> levels" where
  "side_of s b = (case s of Buy \<Rightarrow> ob_bids b | Sell \<Rightarrow> ob_asks b)"

definition set_side :: "side \<Rightarrow> levels \<Rightarrow> order_book \<Rightarrow> order_book" where
  "set_side s m b = (case s of Buy \<Rightarrow> b\<lparr>ob_bids := m\<rparr> | Sell \<Rightarrow> b\<lparr>ob_asks := m\<rparr>)"

definition book_genesis :: "unit \<Rightarrow> order_book" where
  "book_genesis cfg = \<lparr>ob_bids = [], ob_asks = [], ob_index = [], ob_accepted_shares = 0, ob_traded_shares = 0,
     ob_canceled_shares = 0\<rparr>"

section \<open>Matching\<close>

text \<open>
  The loop of \<open>fill_level\<close> over the queue of one price: the taker's remainder, the queue, the ids of
  filled makers, the shares traded. When the front maker is not exhausted the taker is.
\<close>

fun fill_queue :: "price \<Rightarrow> order_id \<Rightarrow> qty \<Rightarrow> resting list \<Rightarrow> book_evt ctx \<Rightarrow>
    qty \<times> resting list \<times> order_id list \<times> u64 \<times> book_evt ctx" where
  "fill_queue price taker q [] c = (q, [], [], 0, c)"
| "fill_queue price taker q (maker # queue) c =
     (if q = 0 then (q, maker # queue, [], 0, c)
      else
        let fill = min q (rs_qty maker);
            maker' = maker\<lparr>rs_qty := rs_qty maker - fill\<rparr>;
            c = emit (Trade taker (rs_id maker) price fill) c
        in if rs_qty maker' = 0
          then (case fill_queue price taker (q - fill) queue c of
              (q, queue, ids, traded, c) \<Rightarrow> (q, queue, rs_id maker # ids, ucast fill + traded, c))
          else (q - fill, maker' # queue, [], ucast fill, c))"

text \<open>The level is updated in place and removed when it is empty.\<close>

definition put_level :: "price \<Rightarrow> resting list \<Rightarrow> levels \<Rightarrow> levels" where
  "put_level p l m = (let m = bt_insert p l m in if l = [] then bt_remove p m else m)"

definition fill_level :: "side \<Rightarrow> price \<Rightarrow> order_id \<Rightarrow> qty \<Rightarrow> order_book \<Rightarrow> book_evt ctx \<Rightarrow>
    (qty \<times> order_book \<times> book_evt ctx) option" where
  "fill_level maker_side price taker q b c =
     (case bt_get (side_of maker_side b) price of
        None \<Rightarrow> None
      | Some level \<Rightarrow>
          (case fill_queue price taker q level c of
             (q, level, filled_ids, traded_here, c) \<Rightarrow>
               let b = b\<lparr>ob_traded_shares := ob_traded_shares b + traded_here,
                         ob_index := fold bt_remove filled_ids (ob_index b)\<rparr>;
                   c = fold cancel_timer filled_ids c
               in Some (q, set_side maker_side (put_level price level (side_of maker_side b)) b, c)))"

definition best_price :: "side \<Rightarrow> order_book \<Rightarrow> price option" where
  "best_price s b = map_option fst (case s of Buy \<Rightarrow> bt_last (ob_bids b) | Sell \<Rightarrow> bt_first (ob_asks b))"

lemma fill_queue_rest: "fill_queue p t q l c = (q', l', ids, tr, c') \<Longrightarrow> q' = 0 \<or> l' = []"
  by (induction p t q l c arbitrary: q' l' ids tr c' rule: fill_queue.induct)
    (auto simp: Let_def min_def split: if_splits prod.splits)

lemma fill_level_progress:
  assumes "fill_level s p t q b c = Some (q', b', c')"
  shows "q' = 0 \<or> length (side_of s b') < length (side_of s b)"
proof -
  obtain level ids tr c1 l' where l: "bt_get (side_of s b) p = Some level" "fill_queue p t q level c = (q', l', ids, tr, c1)"
      "side_of s b' = put_level p l' (side_of s b)"
    using assms by (auto simp: fill_level_def side_of_def set_side_def Let_def split: option.splits prod.splits side.splits)
  have "length (bt_remove p m) < length m" if "bt_get m p = Some level" for m :: levels
    using that by (induction m) (auto simp: bt_get_def bt_remove_def less_Suc_eq_le split: if_splits)
  moreover have "bt_remove p (bt_insert p x m) = bt_remove p m" for x and m :: levels
    by (induction m) (auto simp: bt_remove_def)
  ultimately show ?thesis using fill_queue_rest [OF l(2)] l(1,3) by (auto simp: put_level_def Let_def)
qed

text \<open>The loop of \<open>match_against_asks\<close> and \<open>match_against_bids\<close>; \<open>beyond\<close> is the taker's limit.\<close>

function match_loop :: "side \<Rightarrow> (price \<Rightarrow> bool) \<Rightarrow> order_id \<Rightarrow> qty \<Rightarrow> order_book \<Rightarrow> book_evt ctx \<Rightarrow>
    (qty \<times> order_book \<times> book_evt ctx) option" where
  "match_loop s beyond taker q b c =
     (if q = 0 then Some (q, b, c)
      else case best_price s b of
          None \<Rightarrow> Some (q, b, c)
        | Some best \<Rightarrow>
            if beyond best then Some (q, b, c)
            else (case fill_level s best taker q b c of
                None \<Rightarrow> None
              | Some (q, b, c) \<Rightarrow> match_loop s beyond taker q b c))"
  by pat_completeness auto
termination
  by (relation "measure (\<lambda>(s, beyond, taker, q, b, c). if q = 0 then 0 else Suc (length (side_of s b)))")
    (auto dest: fill_level_progress)

declare match_loop.simps [simp del]

definition match_against_asks :: "order_id \<Rightarrow> price \<Rightarrow> qty \<Rightarrow> order_book \<Rightarrow> book_evt ctx \<Rightarrow>
    (qty \<times> order_book \<times> book_evt ctx) option" where
  "match_against_asks taker limit = match_loop Sell (\<lambda>best. best > limit) taker"

definition match_against_bids :: "order_id \<Rightarrow> price \<Rightarrow> qty \<Rightarrow> order_book \<Rightarrow> book_evt ctx \<Rightarrow>
    (qty \<times> order_book \<times> book_evt ctx) option" where
  "match_against_bids taker limit = match_loop Buy (\<lambda>best. best < limit) taker"

section \<open>Commands\<close>

definition book_submit :: "order_id \<Rightarrow> side \<Rightarrow> price \<Rightarrow> qty \<Rightarrow> timestamp option \<Rightarrow> order_book \<Rightarrow> book_evt ctx \<Rightarrow>
    (order_book \<times> book_evt ctx) option" where
  "book_submit oid s price q expire_at b c =
     (if q = 0 then Some (b, emit (OrderRejected oid ZeroQty) c)
      else if bt_contains (ob_index b) oid then Some (b, emit (OrderRejected oid DuplicateId) c)
      else
        let c = emit (Accepted oid) c;
            b = b\<lparr>ob_accepted_shares := ob_accepted_shares b + ucast q\<rparr>
        in (case (case s of Buy \<Rightarrow> match_against_asks oid price q b c | Sell \<Rightarrow> match_against_bids oid price q b c) of
              None \<Rightarrow> None
            | Some (remaining, b, c) \<Rightarrow>
                if remaining > 0
                then
                  let b = b\<lparr>ob_index := bt_insert oid (s, price) (ob_index b)\<rparr>;
                      level = (case bt_get (side_of s b) price of Some l \<Rightarrow> l | None \<Rightarrow> []);
                      b = set_side s (bt_insert price (level @ [\<lparr>rs_id = oid, rs_qty = remaining\<rparr>]) (side_of s b)) b;
                      c = (case expire_at of Some at \<Rightarrow> set_timer oid at c | None \<Rightarrow> c)
                  in Some (b, c)
                else Some (b, c)))"

text \<open>Taking an indexed order off the book, the common part of \<open>cancel\<close> and \<open>on_timer\<close>.\<close>

definition unrest :: "order_id \<Rightarrow> side \<Rightarrow> price \<Rightarrow> order_book \<Rightarrow> (resting \<times> order_book) option" where
  "unrest oid s price b =
     (let b = b\<lparr>ob_index := bt_remove oid (ob_index b)\<rparr> in
      case bt_get (side_of s b) price of
        None \<Rightarrow> None
      | Some level \<Rightarrow>
          (case find (\<lambda>x. rs_id x = oid) level of
             None \<Rightarrow> None
           | Some order \<Rightarrow>
               let b = set_side s (put_level price (remove1 order level) (side_of s b)) b
               in Some (order, b\<lparr>ob_canceled_shares := ob_canceled_shares b + ucast (rs_qty order)\<rparr>)))"

definition book_cancel :: "order_id \<Rightarrow> order_book \<Rightarrow> book_evt ctx \<Rightarrow> (order_book \<times> book_evt ctx) option" where
  "book_cancel oid b c =
     (case bt_get (ob_index b) oid of
        None \<Rightarrow> Some (b, emit (OrderRejected oid UnknownOrder) c)
      | Some (s, price) \<Rightarrow>
          map_option (\<lambda>(order, b). (b, emit (Canceled oid (rs_qty order)) (cancel_timer oid c))) (unrest oid s price b))"

definition book_on_timer :: "order_id \<Rightarrow> order_book \<Rightarrow> book_evt ctx \<Rightarrow> (order_book \<times> book_evt ctx) option" where
  "book_on_timer oid b c =
     (case bt_get (ob_index b) oid of
        None \<Rightarrow> Some (b, c)
      | Some (s, price) \<Rightarrow> map_option (\<lambda>(order, b). (b, emit (Expired oid (rs_qty order)) c)) (unrest oid s price b))"

fun book_apply :: "book_cmd \<Rightarrow> order_book \<Rightarrow> book_evt ctx \<Rightarrow> (order_book \<times> book_evt ctx) option" where
  "book_apply (Submit oid s price q) b c = book_submit oid s price q None b c"
| "book_apply (SubmitGtd oid s price q expire_at) b c = book_submit oid s price q (Some expire_at) b c"
| "book_apply (Cancel oid) b c = book_cancel oid b c"

section \<open>Snapshots\<close>

record book_snapshot =
  bs_bids :: "(price \<times> (order_id \<times> qty) list) list"
  bs_asks :: "(price \<times> (order_id \<times> qty) list) list"
  bs_accepted_shares :: u64
  bs_traded_shares :: u64
  bs_canceled_shares :: u64

definition serialize_side :: "levels \<Rightarrow> (price \<times> (order_id \<times> qty) list) list" where
  "serialize_side m = map (\<lambda>(p, l). (p, map (\<lambda>x. (rs_id x, rs_qty x)) l)) m"

definition take_snapshot :: "order_book \<Rightarrow> book_snapshot" where
  "take_snapshot b = \<lparr>bs_bids = serialize_side (ob_bids b), bs_asks = serialize_side (ob_asks b),
     bs_accepted_shares = ob_accepted_shares b, bs_traded_shares = ob_traded_shares b, bs_canceled_shares = ob_canceled_shares b\<rparr>"

definition restore_level :: "side \<Rightarrow> price \<times> (order_id \<times> qty) list \<Rightarrow> order_book \<Rightarrow> order_book" where
  "restore_level s pl b =
     (let (p, orders) = pl;
          b = b\<lparr>ob_index := fold (\<lambda>(oid, q). bt_insert oid (s, p)) orders (ob_index b)\<rparr>
      in set_side s (bt_insert p (map (\<lambda>(oid, q). \<lparr>rs_id = oid, rs_qty = q\<rparr>) orders) (side_of s b)) b)"

definition restore_book :: "book_snapshot \<Rightarrow> unit \<Rightarrow> order_book" where
  "restore_book snap cfg =
     (let b = \<lparr>ob_bids = [], ob_asks = [], ob_index = [], ob_accepted_shares = bs_accepted_shares snap,
            ob_traded_shares = bs_traded_shares snap, ob_canceled_shares = bs_canceled_shares snap\<rparr>
      in fold (restore_level Sell) (bs_asks snap) (fold (restore_level Buy) (bs_bids snap) b))"

section \<open>The simulator's check, views and workload\<close>

definition resting_shares :: "order_book \<Rightarrow> u64" where
  "resting_shares b = sum_list (map (\<lambda>x. ucast (rs_qty x)) (concat (map snd (ob_bids b)) @ concat (map snd (ob_asks b))))"

definition book_check :: "order_book \<Rightarrow> bool" where
  "book_check b \<longleftrightarrow>
     (case (best_price Buy b, best_price Sell b) of (Some bid, Some ask) \<Rightarrow> \<not> bid \<ge> ask | _ \<Rightarrow> True) \<and>
     ob_accepted_shares b = 2 * ob_traded_shares b + ob_canceled_shares b + resting_shares b \<and>
     (\<forall>(s, levels) \<in> {(Buy, ob_bids b), (Sell, ob_asks b)}. \<forall>(p, level) \<in> set levels. level \<noteq> [] \<and>
        (\<forall>x \<in> set level. rs_qty x \<noteq> 0 \<and> bt_get (ob_index b) (rs_id x) = Some (s, p))) \<and>
     length (concat (map snd (ob_bids b)) @ concat (map snd (ob_asks b))) = length (ob_index b)"

definition depth :: "nat \<Rightarrow> order_book \<Rightarrow> (price \<times> qty) list \<times> (price \<times> qty) list" where
  "depth n b =
     (let total = (\<lambda>(p, l). (p, sum_list (map rs_qty l)))
      in (map total (take n (rev (ob_bids b))), map total (take n (ob_asks b))))"

definition gen_cmd :: "rng \<Rightarrow> book_cmd \<times> rng" where
  "gen_cmd r =
     (let (cancel, r) = rng_chance 1 5 r in
      if cancel then (let (oid, r) = rng_below 150 r in (Cancel oid, r))
      else
        let (oid, r) = rng_below 150 r; (buy, r) = rng_chance 1 2 r;
            (p, r) = rng_below 21 r; (q, r) = rng_below 50 r
        in (Submit oid (if buy then Buy else Sell) (90 + ucast p) (ucast q), r))"

section \<open>The service\<close>

definition enc_side :: "side encoder" where
  "enc_side = enc_enum (\<lambda>s. case s of Buy \<Rightarrow> 0 | Sell \<Rightarrow> 1) (\<lambda>_. [])"

definition dec_side :: "side decoder" where
  "dec_side = dec_enum [map_dec (\<lambda>_. Buy) dec_unit, map_dec (\<lambda>_. Sell) dec_unit]"

definition enc_book_cmd :: "book_cmd encoder" where
  "enc_book_cmd = enc_enum (\<lambda>x. case x of Submit _ _ _ _ \<Rightarrow> 0 | SubmitGtd _ _ _ _ _ \<Rightarrow> 1 | Cancel _ \<Rightarrow> 2)
     (\<lambda>x. case x of
        Submit i s p q \<Rightarrow> enc_pair enc_int (enc_pair enc_side (enc_pair enc_int enc_int)) (i, s, p, q)
      | SubmitGtd i s p q e \<Rightarrow>
          enc_pair enc_int (enc_pair enc_side (enc_pair enc_int (enc_pair enc_int enc_int))) (i, s, p, q, e)
      | Cancel i \<Rightarrow> enc_int i)"

definition dec_book_cmd :: "book_cmd decoder" where
  "dec_book_cmd = dec_enum
     [map_dec (\<lambda>(i, s, p, q). Submit i s p q) (dec_pair dec_int (dec_pair dec_side (dec_pair dec_int dec_int))),
      map_dec (\<lambda>(i, s, p, q, e). SubmitGtd i s p q e)
        (dec_pair dec_int (dec_pair dec_side (dec_pair dec_int (dec_pair dec_int dec_int)))),
      map_dec Cancel dec_int]"

abbreviation enc_levels :: "(price \<times> (order_id \<times> qty) list) list encoder" where
  "enc_levels \<equiv> enc_vec (enc_pair enc_int (enc_vec (enc_pair enc_int enc_int)))"

abbreviation dec_levels :: "(price \<times> (order_id \<times> qty) list) list decoder" where
  "dec_levels \<equiv> dec_vec (dec_pair dec_int (dec_vec (dec_pair dec_int dec_int)))"

definition enc_book_snapshot :: "book_snapshot encoder" where
  "enc_book_snapshot x = enc_pair enc_levels (enc_pair enc_levels (enc_pair enc_int (enc_pair enc_int enc_int)))
     (bs_bids x, bs_asks x, bs_accepted_shares x, bs_traded_shares x, bs_canceled_shares x)"

definition dec_book_snapshot :: "book_snapshot decoder" where
  "dec_book_snapshot =
     map_dec (\<lambda>(bids, asks, a, t, c). \<lparr>bs_bids = bids, bs_asks = asks, bs_accepted_shares = a, bs_traded_shares = t,
         bs_canceled_shares = c\<rparr>)
       (dec_pair dec_levels (dec_pair dec_levels (dec_pair dec_int (dec_pair dec_int dec_int))))"

text \<open>
  The runtime's handlers are total. A panic would unwind out of the node; here it would leave the
  state alone, and \<open>book_apply_ok\<close> and \<open>book_on_timer_ok\<close> show that it does not happen.
\<close>

definition book_service :: "(order_book, book_cmd, book_evt, book_snapshot, unit) service" where
  "book_service = \<lparr>sv_schema_version = 0, sv_genesis = book_genesis,
     sv_apply = (\<lambda>seq cmd b c. case book_apply cmd b c of Some r \<Rightarrow> r | None \<Rightarrow> (b, c)),
     sv_on_timer = (\<lambda>tid b c. case book_on_timer tid b c of Some r \<Rightarrow> r | None \<Rightarrow> (b, c)),
     sv_snapshot = take_snapshot, sv_restore = restore_book, sv_enc_input = enc_book_cmd, sv_dec_input = dec_book_cmd,
     sv_enc_snap = enc_book_snapshot, sv_dec_snap = dec_book_snapshot\<rparr>"

end
