(* ===== verification/Order_Book_Ok.thy ===== *)
theory Order_Book_Ok
  imports Order_Book "HOL-Library.Multiset"
begin

text \<open>
  The invariant of the order book and its preservation. What a side of the book adds up to (its
  shares, the index entries it accounts for) is one function \<open>bt_sum\<close> into a commutative monoid,
  so that the laws of replacing one price level are proved once.
\<close>

section \<open>Sums over a map\<close>

definition bt_sum :: "('k \<Rightarrow> 'v \<Rightarrow> 'm::comm_monoid_add) \<Rightarrow> ('k, 'v) btmap \<Rightarrow> 'm" where
  "bt_sum F m = sum_list (map (\<lambda>(k, v). F k v) m)"

lemma bt_sum_Nil [simp]: "bt_sum F [] = 0"
  by (simp add: bt_sum_def)

lemma bt_sum_Cons [simp]: "bt_sum F ((k, v) # m) = F k v + bt_sum F m"
  by (simp add: bt_sum_def)

lemma bt_remove_Cons [simp]: "bt_remove k ((k', v) # m) = (if k' = k then bt_remove k m else (k', v) # bt_remove k m)"
  by (simp add: bt_remove_def)

lemma bt_remove_Nil [simp]: "bt_remove k [] = []"
  by (simp add: bt_remove_def)

lemma bt_sum_get:
  "bt_ok m \<Longrightarrow> bt_get m k = Some v \<Longrightarrow> bt_sum F m = F k v + bt_sum F (bt_remove k m)"
proof (induction m)
  case (Cons e m)
  obtain k' v' where e: "e = (k', v')" by force
  show ?case
  proof (cases "k' = k")
    case True
    then have "bt_get m k = None" using Cons.prems(1) by (auto simp: e bt_ok_Cons bt_get_None_iff)
    then show ?thesis using True Cons.prems by (simp add: e bt_get_def bt_remove_absent)
  next
    case False
    then show ?thesis using Cons by (auto simp: e bt_ok_Cons bt_get_def ac_simps)
  qed
qed simp

lemma bt_remove_insert: "bt_ok m \<Longrightarrow> bt_remove k (bt_insert k v m) = bt_remove k m"
  by (rule bt.del_ins)

lemma bt_sum_insert: "bt_ok m \<Longrightarrow> bt_sum F (bt_insert k v m) = F k v + bt_sum F (bt_remove k m)"
  using bt_sum_get [of "bt_insert k v m" k v F] by (simp add: bt_remove_insert)

lemma mset_bt_sum: "mset m = bt_sum (\<lambda>k v. {#(k, v)#}) m"
  by (induction m) auto

lemma fold_bt_remove:
  assumes "bt_ok m" and "mset m = mset (map (\<lambda>k. (k, v)) ks) + M"
  shows "bt_ok (fold bt_remove ks m) \<and> mset (fold bt_remove ks m) = M"
  using assms
proof (induction ks arbitrary: m)
  case (Cons k ks)
  then have "(k, v) \<in># mset m" by simp
  then have "bt_get m k = Some v" using Cons.prems(1) by (simp add: bt_get_Some_iff)
  from bt_sum_get [OF Cons.prems(1) this, of "\<lambda>k v. {#(k, v)#}"] Cons.prems(2)
  have "mset (bt_remove k m) = mset (map (\<lambda>k. (k, v)) ks) + M" by (simp flip: mset_bt_sum)
  from Cons.IH [OF _ this] Cons.prems(1) show ?case by simp
qed simp

lemma fold_bt_remove_None: "bt_get m k = None \<Longrightarrow> bt_get (fold bt_remove ks m) k = None"
  by (induction ks arbitrary: m) simp_all

section \<open>Levels\<close>

definition levels_ok :: "levels \<Rightarrow> bool" where
  "levels_ok m \<longleftrightarrow> bt_ok m \<and> (\<forall>(p, l) \<in> set m. l \<noteq> [] \<and> (\<forall>x \<in> set l. rs_qty x \<noteq> 0))"

definition shares :: "resting list \<Rightarrow> u64" where
  "shares l = sum_list (map (\<lambda>x. ucast (rs_qty x)) l)"

definition level_entries :: "side \<Rightarrow> price \<Rightarrow> resting list \<Rightarrow> (order_id \<times> side \<times> price) multiset" where
  "level_entries s p l = mset (map (\<lambda>x. (rs_id x, s, p)) l)"

abbreviation side_shares :: "levels \<Rightarrow> u64" where
  "side_shares \<equiv> bt_sum (\<lambda>p. shares)"

abbreviation side_entries :: "side \<Rightarrow> levels \<Rightarrow> (order_id \<times> side \<times> price) multiset" where
  "side_entries s \<equiv> bt_sum (level_entries s)"

lemma shares_simps [simp]: "shares [] = 0" "shares (x # l) = ucast (rs_qty x) + shares l"
  "shares (l @ l') = shares l + shares l'"
  by (simp_all add: shares_def)

lemma level_entries_simps [simp]: "level_entries s p [] = {#}"
  "level_entries s p (x # l) = add_mset (rs_id x, s, p) (level_entries s p l)"
  "level_entries s p (l @ l') = level_entries s p l + level_entries s p l'"
  by (simp_all add: level_entries_def)

lemma put_level_sum:
  "bt_ok m \<Longrightarrow> F p [] = 0 \<Longrightarrow> bt_sum F (put_level p l m) = F p l + bt_sum F (bt_remove p m)"
  by (auto simp: put_level_def Let_def bt_sum_insert bt_remove_insert)

lemma level_sum:
  "bt_ok m \<Longrightarrow> F p [] = 0 \<Longrightarrow>
     bt_sum F m = F p (case bt_get m p of Some l \<Rightarrow> l | None \<Rightarrow> []) + bt_sum F (bt_remove p m)"
  by (auto simp: bt_sum_get bt_remove_absent split: option.split)

lemma levels_ok_put:
  assumes "levels_ok m" and "\<forall>x \<in> set l. rs_qty x \<noteq> 0"
  shows "levels_ok (put_level p l m)"
proof -
  have "bt_ok m" using assms(1) by (simp add: levels_ok_def)
  moreover have "bt_remove p (bt_insert p [] m) = bt_remove p m" using calculation by (rule bt_remove_insert)
  ultimately show ?thesis using assms
    by (auto simp: levels_ok_def put_level_def Let_def set_bt_insert set_bt_remove)
qed

lemma put_level_keys: "fst ` set (put_level p l m) \<subseteq> insert p (fst ` set m)"
proof -
  have "fst ` set (bt_remove p (bt_insert p l m)) \<subseteq> fst ` set (bt_insert p l m)"
    unfolding bt_remove_def by (intro image_mono filter_is_subset)
  then show ?thesis by (simp only: put_level_def Let_def fst_set_bt_insert split: if_split) simp
qed

lemma levels_ok_get:
  "levels_ok m \<Longrightarrow> bt_get m p = Some l \<Longrightarrow> l \<noteq> [] \<and> (\<forall>x \<in> set l. rs_qty x \<noteq> 0)"
  by (auto simp: levels_ok_def bt_get_Some_iff)

lemma levels_ok_bt [simp]: "levels_ok m \<Longrightarrow> bt_ok m"
  by (simp add: levels_ok_def)

section \<open>Filling a queue\<close>

lemma unat_ucast_up: "unat (ucast (a :: u32) :: u64) = unat a"
proof -
  have "unat a < 2 ^ 64" by (rule less_trans [OF unsigned_less]) simp
  then show ?thesis by (simp add: unsigned_ucast_eq take_bit_nat_eq_self)
qed

lemma ucast_minus: "(b :: u32) \<le> a \<Longrightarrow> (ucast (a - b) :: u64) = ucast a - ucast b"
proof -
  assume le: "b \<le> a"
  then have "(ucast b :: u64) \<le> ucast a" by (simp add: word_le_nat_alt unat_ucast_up)
  with le show ?thesis by (simp add: word_unat_eq_iff unat_sub unat_ucast_up)
qed

text \<open>The three ways a step of the loop ends, in place of the defining equation.\<close>

lemma fill_queue_zero: "fill_queue p t 0 l c = (0, l, [], 0, c)"
  by (cases l) simp_all

lemma fill_queue_partial:
  "q \<noteq> 0 \<Longrightarrow> q < rs_qty maker \<Longrightarrow> fill_queue p t q (maker # queue) c =
     (0, maker\<lparr>rs_qty := rs_qty maker - q\<rparr> # queue, [], ucast q, emit (Trade t (rs_id maker) p q) c)"
  by (auto simp: Let_def min_def)

lemma fill_queue_full:
  "q \<noteq> 0 \<Longrightarrow> rs_qty maker \<le> q \<Longrightarrow> fill_queue p t q (maker # queue) c =
     (case fill_queue p t (q - rs_qty maker) queue (emit (Trade t (rs_id maker) p (rs_qty maker)) c) of
        (q, queue, ids, traded, c) \<Rightarrow> (q, queue, rs_id maker # ids, ucast (rs_qty maker) + traded, c))"
  by (auto simp: Let_def min_def)

lemma fill_queue_cases [case_names Nil zero partial full]:
  assumes "\<And>q c. P q [] c" and "\<And>l c. P 0 l c" and "\<And>q maker queue c. q \<noteq> 0 \<Longrightarrow> q < rs_qty maker \<Longrightarrow> P q (maker # queue) c"
    and "\<And>q maker queue c. q \<noteq> 0 \<Longrightarrow> rs_qty maker \<le> q \<Longrightarrow>
      P (q - rs_qty maker) queue (emit (Trade t (rs_id maker) p (rs_qty maker)) c) \<Longrightarrow> P q (maker # queue) c"
  shows "P (q :: qty) l (c :: book_evt ctx)"
proof (induction l arbitrary: q c)
  case Nil
  show ?case by (rule assms(1))
next
  case (Cons maker queue)
  show ?case
    by (cases "q = 0"; cases "q < rs_qty maker") (auto intro: assms(2-4) Cons)
qed

declare fill_queue.simps(2) [simp del]

text \<open>
  The makers leave in queue order; the shares that leave the queue are those that leave the taker.
\<close>

lemma fill_queue_laws:
  assumes "fill_queue p t q l c = (q', l', ids, tr, c')" and "\<forall>x \<in> set l. rs_qty x \<noteq> 0"
  shows "map rs_id l = ids @ map rs_id l' \<and> shares l = tr + shares l' \<and> (ucast q :: u64) = tr + ucast q' \<and>
    (\<forall>x \<in> set l'. rs_qty x \<noteq> 0)"
  using assms
proof (induction q l c arbitrary: q' l' ids tr c' rule: fill_queue_cases [where p = p and t = t])
  case (partial q maker queue c)
  then show ?case by (auto simp: fill_queue_partial ucast_minus)
next
  case (full q maker queue c)
  from full.prems show ?case
    by (auto simp: fill_queue_full [OF full.hyps] ucast_minus [OF full.hyps(2)] algebra_simps split: prod.splits dest!: full.IH)
qed (auto simp: fill_queue_zero)

section \<open>The invariant\<close>

fun opp :: "side \<Rightarrow> side" where
  "opp Buy = Sell"
| "opp Sell = Buy"

text \<open>A price of one side does not cross the levels of the other.\<close>

fun fits :: "side \<Rightarrow> price \<Rightarrow> levels \<Rightarrow> bool" where
  "fits Buy p m \<longleftrightarrow> (\<forall>ask \<in> fst ` set m. p < ask)"
| "fits Sell p m \<longleftrightarrow> (\<forall>bid \<in> fst ` set m. bid < p)"

text \<open>
  The invariant while a taker still holds \<open>q\<close> shares; between commands \<open>q\<close> is 0. The index has
  exactly one entry per resting order, and every accepted share is accounted for.
\<close>

definition book_mid :: "qty \<Rightarrow> order_book \<Rightarrow> bool" where
  "book_mid q b \<longleftrightarrow>
     levels_ok (ob_bids b) \<and> levels_ok (ob_asks b) \<and> bt_ok (ob_index b) \<and>
     mset (ob_index b) = side_entries Buy (ob_bids b) + side_entries Sell (ob_asks b) \<and>
     (\<forall>p \<in> fst ` set (ob_bids b). fits Buy p (ob_asks b)) \<and>
     ob_accepted_shares b =
       2 * ob_traded_shares b + ob_canceled_shares b + side_shares (ob_bids b) + side_shares (ob_asks b) + ucast q"

abbreviation book_ok :: "order_book \<Rightarrow> bool" where
  "book_ok \<equiv> book_mid 0"

lemma book_mid_side:
  "book_mid q b \<longleftrightarrow>
     levels_ok (side_of s b) \<and> levels_ok (side_of (opp s) b) \<and> bt_ok (ob_index b) \<and>
     mset (ob_index b) = side_entries s (side_of s b) + side_entries (opp s) (side_of (opp s) b) \<and>
     (\<forall>p \<in> fst ` set (side_of s b). fits s p (side_of (opp s) b)) \<and>
     ob_accepted_shares b =
       2 * ob_traded_shares b + ob_canceled_shares b + side_shares (side_of s b) + side_shares (side_of (opp s) b) + ucast q"
  by (cases s) (auto simp: book_mid_def side_of_def ac_simps)

definition level_at :: "levels \<Rightarrow> price \<Rightarrow> resting list" where
  "level_at m p = (case bt_get m p of Some l \<Rightarrow> l | None \<Rightarrow> [])"

lemma level_at_member: "x \<in> set (level_at m p) \<Longrightarrow> bt_get m p = Some (level_at m p)"
  by (cases "bt_get m p") (simp_all add: level_at_def)

text \<open>Every operation replaces one level of one side: what it has to show for the invariant.\<close>

lemma book_mid_replace:
  assumes "book_mid q b" and "\<forall>x \<in> set l'. rs_qty x \<noteq> 0"
    and "side_of s b' = put_level p l' (side_of s b)" and "side_of (opp s) b' = side_of (opp s) b"
    and "bt_ok (ob_index b')"
    and "mset (ob_index b') + level_entries s p (level_at (side_of s b) p) = mset (ob_index b) + level_entries s p l'"
    and "p \<in> fst ` set (side_of s b) \<or> fits s p (side_of (opp s) b)"
    and "ob_accepted_shares b' - 2 * ob_traded_shares b' - ob_canceled_shares b' - shares l' - ucast q' =
      ob_accepted_shares b - 2 * ob_traded_shares b - ob_canceled_shares b - shares (level_at (side_of s b) p) - ucast q"
  shows "book_mid q' b'"
proof -
  let ?m = "side_of s b" and ?l = "level_at (side_of s b) p"
  note mid = assms(1) [unfolded book_mid_side [of _ _ s]]
  have ok: "bt_ok ?m" using mid by simp
  have sums: "bt_sum F ?m = F p ?l + bt_sum F (bt_remove p ?m)" "bt_sum F (put_level p l' ?m) = F p l' + bt_sum F (bt_remove p ?m)"
    if "F p [] = 0" for F :: "price \<Rightarrow> resting list \<Rightarrow> 'm::comm_monoid_add"
    using level_sum [where F = F and p = p, OF ok that] put_level_sum [where F = F and p = p, OF ok that] by (simp_all add: level_at_def)
  have idx: "mset (ob_index b) = level_entries s p ?l + side_entries s (bt_remove p ?m) + side_entries (opp s) (side_of (opp s) b)"
    using mid sums(1) [of "level_entries s"] by simp
  have "mset (ob_index b') + level_entries s p ?l =
      (level_entries s p l' + side_entries s (bt_remove p ?m) + side_entries (opp s) (side_of (opp s) b)) + level_entries s p ?l"
    unfolding assms(6) idx by (simp add: ac_simps)
  then have idx': "mset (ob_index b') = side_entries s (put_level p l' ?m) + side_entries (opp s) (side_of (opp s) b)"
    using sums(2) [of "level_entries s"] by simp
  have keys: "\<forall>p' \<in> fst ` set (put_level p l' ?m). fits s p' (side_of (opp s) b)"
    using put_level_keys [of p l' ?m] assms(7) mid by blast
  have "side_shares ?m = shares ?l + side_shares (bt_remove p ?m)"
    "side_shares (put_level p l' ?m) = shares l' + side_shares (bt_remove p ?m)" by (simp_all add: sums)
  then have "ob_accepted_shares b' = 2 * ob_traded_shares b' + ob_canceled_shares b' + side_shares (put_level p l' ?m) +
      side_shares (side_of (opp s) b) + ucast q'"
    using mid assms(8) by (simp add: algebra_simps)
  then show ?thesis
    unfolding book_mid_side [of _ _ s] assms(3,4) using assms(2,5) mid idx' keys by (simp add: levels_ok_put)
qed

lemma side_of_set_side [simp]: "side_of s (set_side s m b) = m" "side_of (opp s) (set_side s m b) = side_of (opp s) b"
  by (cases s; simp add: side_of_def set_side_def)+

lemma side_of_other [simp]:
  "side_of s (b\<lparr>ob_index := idx\<rparr>) = side_of s b" "side_of s (b\<lparr>ob_accepted_shares := w\<rparr>) = side_of s b"
  "side_of s (b\<lparr>ob_traded_shares := w\<rparr>) = side_of s b" "side_of s (b\<lparr>ob_canceled_shares := w\<rparr>) = side_of s b"
  by (simp_all add: side_of_def split: side.split)

lemma set_side_other [simp]:
  "ob_index (set_side s m b) = ob_index b" "ob_accepted_shares (set_side s m b) = ob_accepted_shares b"
  "ob_traded_shares (set_side s m b) = ob_traded_shares b" "ob_canceled_shares (set_side s m b) = ob_canceled_shares b"
  by (simp_all add: set_side_def split: side.split)

section \<open>Matching keeps the invariant and never panics\<close>

lemma fill_level_ok:
  assumes "book_mid q b" and "bt_get (side_of s b) p = Some level"
  shows "\<exists>q' b' c'. fill_level s p t q b c = Some (q', b', c') \<and> book_mid q' b' \<and> side_of (opp s) b' = side_of (opp s) b \<and>
    (\<forall>k. bt_get (ob_index b) k = None \<longrightarrow> bt_get (ob_index b') k = None)"
proof -
  note mid = assms(1) [unfolded book_mid_side [of _ _ s]]
  obtain q' l' ids tr c1 where f: "fill_queue p t q level c = (q', l', ids, tr, c1)" by (metis prod_cases5)
  have pos: "\<forall>x \<in> set level. rs_qty x \<noteq> 0" using levels_ok_get [OF _ assms(2)] mid by blast
  note laws = fill_queue_laws [OF f pos]
  define b' where "b' = set_side s (put_level p l' (side_of s b))
    (b\<lparr>ob_traded_shares := ob_traded_shares b + tr, ob_index := fold bt_remove ids (ob_index b)\<rparr>)"
  have res: "fill_level s p t q b c = Some (q', b', fold cancel_timer ids c1)"
    by (simp add: fill_level_def assms(2) f b'_def Let_def)
  have l: "level_at (side_of s b) p = level" by (simp add: level_at_def assms(2))
  have ent: "level_entries s p level = mset (map (\<lambda>k. (k, s, p)) ids) + level_entries s p l'"
  proof -
    have "map (\<lambda>x. (rs_id x, s, p)) level = map (\<lambda>k. (k, s, p)) (map rs_id level)" by simp
    also have "\<dots> = map (\<lambda>k. (k, s, p)) ids @ map (\<lambda>x. (rs_id x, s, p)) l'" using laws by simp
    finally show ?thesis by (simp add: level_entries_def)
  qed
  have "mset (ob_index b) = mset (map (\<lambda>k. (k, s, p)) ids) +
      (level_entries s p l' + side_entries s (bt_remove p (side_of s b)) + side_entries (opp s) (side_of (opp s) b))"
    using mid level_sum [of "side_of s b" "level_entries s" p] by (simp add: assms(2) ent ac_simps)
  from fold_bt_remove [OF _ this] mid have idx: "bt_ok (ob_index b')"
      "mset (ob_index b') + mset (map (\<lambda>k. (k, s, p)) ids) = mset (ob_index b)"
    by (simp_all add: b'_def \<open>mset (ob_index b) = _\<close> ac_simps)
  have "book_mid q' b'"
  proof (rule book_mid_replace [OF assms(1), of l' s b' p])
    show "mset (ob_index b') + level_entries s p (level_at (side_of s b) p) = mset (ob_index b) + level_entries s p l'"
      unfolding l ent idx(2) [symmetric] by (simp add: ac_simps)
    show "p \<in> fst ` set (side_of s b) \<or> fits s p (side_of (opp s) b)"
      using assms(2) mid bt_get_Some_iff [of "side_of s b" p level] by force
    show "ob_accepted_shares b' - 2 * ob_traded_shares b' - ob_canceled_shares b' - shares l' - ucast q' =
        ob_accepted_shares b - 2 * ob_traded_shares b - ob_canceled_shares b - shares (level_at (side_of s b) p) - ucast q"
      using laws by (simp add: b'_def l algebra_simps)
  qed (use laws idx in \<open>simp_all add: b'_def\<close>)
  then show ?thesis using res by (auto simp: b'_def fold_bt_remove_None)
qed

lemma best_price_get: "levels_ok (side_of s b) \<Longrightarrow> best_price s b = Some p \<Longrightarrow> \<exists>l. bt_get (side_of s b) p = Some l"
  by (cases s) (auto simp: best_price_def side_of_def dest: bt_first_min [OF levels_ok_bt] bt_last_max [OF levels_ok_bt])

lemma match_loop_stop:
  "q = 0 \<or> best_price s b = None \<or> (\<exists>p. best_price s b = Some p \<and> beyond p) \<Longrightarrow> match_loop s beyond t q b c = Some (q, b, c)"
  by (subst match_loop.simps) auto

lemma match_loop_go:
  "q \<noteq> 0 \<Longrightarrow> best_price s b = Some p \<Longrightarrow> \<not> beyond p \<Longrightarrow> fill_level s p t q b c = Some (q1, b1, c1) \<Longrightarrow>
     match_loop s beyond t q b c = match_loop s beyond t q1 b1 c1"
  by (subst match_loop.simps) simp

text \<open>
  The loop ends because its measure falls; it returns without a panic, and it leaves the taker
  with shares only when nothing within its limit remains.
\<close>

lemma match_loop_ok:
  assumes "book_mid q b"
  shows "\<exists>q' b' c'. match_loop s beyond t q b c = Some (q', b', c') \<and> book_mid q' b' \<and> side_of (opp s) b' = side_of (opp s) b \<and>
    (\<forall>k. bt_get (ob_index b) k = None \<longrightarrow> bt_get (ob_index b') k = None) \<and>
    (q' = 0 \<or> (\<forall>p. best_price s b' = Some p \<longrightarrow> beyond p))"
  using assms
proof (induction s beyond t q b c rule: match_loop.induct)
  case (1 s beyond t q b c)
  show ?case
  proof (cases "q = 0 \<or> best_price s b = None \<or> (\<exists>p. best_price s b = Some p \<and> beyond p)")
    case True
    then show ?thesis using 1(2) match_loop_stop [OF True, of t c] by auto
  next
    case False
    then obtain p where p: "best_price s b = Some p" "\<not> beyond p" "q \<noteq> 0" by auto
    have "levels_ok (side_of s b)" using 1(2) [unfolded book_mid_side [of _ _ s]] by simp
    then obtain l where "bt_get (side_of s b) p = Some l" using best_price_get p(1) by blast
    from fill_level_ok [OF 1(2) this, of t c] obtain q1 b1 c1 where f: "fill_level s p t q b c = Some (q1, b1, c1)" "book_mid q1 b1"
      "side_of (opp s) b1 = side_of (opp s) b" "\<forall>k. bt_get (ob_index b) k = None \<longrightarrow> bt_get (ob_index b1) k = None" by blast
    have "match_loop s beyond t q b c = match_loop s beyond t q1 b1 c1"
      by (rule match_loop_go [where p = p and beyond = beyond, OF p(3,1,2) f(1)])
    then show ?thesis using 1(1) [OF p(3,1,2) f(1) refl refl f(2)] f(3,4) by auto
  qed
qed

text \<open>The limit of the taker is its own price, so what remains of it does not cross the book.\<close>

lemma matched_fits:
  assumes "book_mid q b" and "\<forall>p. best_price (opp s) b = Some p \<longrightarrow> (case s of Buy \<Rightarrow> p > limit | Sell \<Rightarrow> p < limit)"
  shows "fits s limit (side_of (opp s) b)"
proof (cases s)
  case Buy
  have ok: "bt_ok (ob_asks b)" using assms(1) by (simp add: book_mid_def)
  show ?thesis
  proof (cases "bt_first (ob_asks b)")
    case (Some e)
    then show ?thesis using bt_first_min [OF ok, of "fst e" "snd e"] assms(2) Buy
      by (auto simp: best_price_def side_of_def intro: less_le_trans)
  qed (simp add: Buy side_of_def)
next
  case Sell
  have ok: "bt_ok (ob_bids b)" using assms(1) by (simp add: book_mid_def)
  show ?thesis
  proof (cases "bt_last (ob_bids b)")
    case (Some e)
    then show ?thesis using bt_last_max [OF ok, of "fst e" "snd e"] assms(2) Sell
      by (auto simp: best_price_def side_of_def intro: le_less_trans)
  qed (simp add: Sell side_of_def)
qed

section \<open>Commands keep the invariant and never panic\<close>

lemma insert_is_put: "l \<noteq> [] \<Longrightarrow> bt_insert p l m = put_level p l m"
  by (simp add: put_level_def)

lemma rest_ok:
  assumes "book_mid q b" and "q \<noteq> 0" and "bt_get (ob_index b) oid = None" and "fits s price (side_of (opp s) b)"
  shows "book_ok (set_side s (bt_insert price (level_at (side_of s b) price @ [\<lparr>rs_id = oid, rs_qty = q\<rparr>]) (side_of s b))
    (b\<lparr>ob_index := bt_insert oid (s, price) (ob_index b)\<rparr>))" (is "book_ok ?b'")
proof (rule book_mid_replace [OF assms(1), of "level_at (side_of s b) price @ [\<lparr>rs_id = oid, rs_qty = q\<rparr>]" s _ price])
  note mid = assms(1) [unfolded book_mid_side [of _ _ s]]
  show "\<forall>x \<in> set (level_at (side_of s b) price @ [\<lparr>rs_id = oid, rs_qty = q\<rparr>]). rs_qty x \<noteq> 0"
    using mid levels_ok_get [OF _ level_at_member] assms(2) by auto
  show "bt_ok (ob_index ?b')" using mid by simp
  have "mset (ob_index ?b') = add_mset (oid, s, price) (mset (ob_index b))"
    using bt_sum_insert [of "ob_index b" "\<lambda>k v. {#(k, v)#}" oid "(s, price)"] mid assms(3)
    by (simp add: mset_bt_sum bt_remove_absent)
  then show "mset (ob_index ?b') + level_entries s price (level_at (side_of s b) price) =
      mset (ob_index b) + level_entries s price (level_at (side_of s b) price @ [\<lparr>rs_id = oid, rs_qty = q\<rparr>])" by simp
qed (use assms(4) in \<open>simp_all add: insert_is_put algebra_simps\<close>)

definition past :: "side \<Rightarrow> price \<Rightarrow> price \<Rightarrow> bool" where
  "past s limit best = (case s of Buy \<Rightarrow> best > limit | Sell \<Rightarrow> best < limit)"

definition rested :: "order_id \<Rightarrow> side \<Rightarrow> price \<Rightarrow> qty \<Rightarrow> order_book \<Rightarrow> order_book" where
  "rested oid s price q b =
     (if q = 0 then b
      else set_side s (bt_insert price (level_at (side_of s b) price @ [\<lparr>rs_id = oid, rs_qty = q\<rparr>]) (side_of s b))
        (b\<lparr>ob_index := bt_insert oid (s, price) (ob_index b)\<rparr>))"

text \<open>An accepted order: match, then rest what remains.\<close>

lemma book_submit_matched:
  assumes "q \<noteq> 0" and "\<not> bt_contains (ob_index b) oid"
    and "match_loop (opp s) (past s price) oid q (b\<lparr>ob_accepted_shares := ob_accepted_shares b + ucast q\<rparr>) (emit (Accepted oid) c) =
      Some (q1, b1, c1)"
  shows "book_submit oid s price q expire_at b c = Some (rested oid s price q1 b1,
    case expire_at of Some at \<Rightarrow> if q1 = 0 then c1 else set_timer oid at c1 | None \<Rightarrow> c1)"
proof -
  have "(case s of Buy \<Rightarrow> match_against_asks oid price q (b\<lparr>ob_accepted_shares := ob_accepted_shares b + ucast q\<rparr>) (emit (Accepted oid) c)
      | Sell \<Rightarrow> match_against_bids oid price q (b\<lparr>ob_accepted_shares := ob_accepted_shares b + ucast q\<rparr>) (emit (Accepted oid) c)) =
      Some (q1, b1, c1)"
    using assms(3) by (cases s) (simp_all add: match_against_asks_def match_against_bids_def past_def [abs_def])
  then show ?thesis using assms(1,2)
    by (auto simp: book_submit_def Let_def rested_def level_at_def word_neq_0_conv split: option.split)
qed

lemma book_submit_ok:
  assumes "book_ok b"
  shows "\<exists>b' c'. book_submit oid s price q expire_at b c = Some (b', c') \<and> book_ok b'"
proof (cases "q = 0 \<or> bt_contains (ob_index b) oid")
  case True
  then show ?thesis using assms by (auto simp: book_submit_def)
next
  case False
  let ?b = "b\<lparr>ob_accepted_shares := ob_accepted_shares b + ucast q\<rparr>"
  have "book_mid q ?b" using assms by (simp add: book_mid_def)
  from match_loop_ok [OF this, of "opp s" "past s price" oid "emit (Accepted oid) c"] obtain q1 b1 c1 where
    m: "match_loop (opp s) (past s price) oid q ?b (emit (Accepted oid) c) = Some (q1, b1, c1)" "book_mid q1 b1"
      "\<forall>k. bt_get (ob_index b) k = None \<longrightarrow> bt_get (ob_index b1) k = None"
      "q1 = 0 \<or> (\<forall>p. best_price (opp s) b1 = Some p \<longrightarrow> past s price p)" by auto
  have "book_ok (rested oid s price q1 b1)"
  proof (cases "q1 = 0")
    case q1: False
    have "fits s price (side_of (opp s) b1)" using matched_fits [OF m(2), of s price] m(4) q1 by (simp add: past_def)
    moreover have "bt_get (ob_index b1) oid = None" using m(3) False unfolding bt_contains_def by blast
    ultimately show ?thesis using rest_ok [OF m(2) q1] q1 by (simp add: rested_def)
  qed (use m(2) in \<open>simp add: rested_def\<close>)
  with book_submit_matched [of q b oid s price c q1 b1 c1 expire_at] False m(1) show ?thesis by auto
qed

lemma remove1_level:
  "x \<in> set l \<Longrightarrow> level_entries s p l = add_mset (rs_id x, s, p) (level_entries s p (remove1 x l)) \<and>
     shares l = ucast (rs_qty x) + shares (remove1 x l)"
  by (induction l) (auto simp: add_mset_commute)

text \<open>An indexed order is on its level: neither \<open>expect\<close> of \<open>cancel\<close> and \<open>on_timer\<close> fails.\<close>

lemma unrest_ok:
  assumes "book_ok b" and "bt_get (ob_index b) oid = Some (s, price)"
  shows "\<exists>x b'. unrest oid s price b = Some (x, b') \<and> rs_id x = oid \<and> book_ok b'"
proof -
  note mid = assms(1) [unfolded book_mid_side [of _ _ s]]
  let ?m = "side_of s b"
  let ?l = "level_at ?m price"
  have "(oid, s, price) \<in> set (ob_index b)" using assms(2) mid by (simp add: bt_get_Some_iff)
  then have "(oid, s, price) \<in># side_entries s ?m + side_entries (opp s) (side_of (opp s) b)" using mid by (metis set_mset_mset)
  moreover have no: "(oid, s, price) \<notin># side_entries s (bt_remove price ?m)" "(oid, s, price) \<notin># side_entries (opp s) m" for m
  proof -
    have "e \<in># bt_sum (level_entries s') m' \<Longrightarrow> \<exists>p \<in> fst ` set m'. snd e = (s', p)" for e s' m'
      by (induction m') (auto simp: level_entries_def)
    from this [of "(oid, s, price)" s] this [of "(oid, s, price)" "opp s"]
    show "(oid, s, price) \<notin># side_entries s (bt_remove price ?m)" "(oid, s, price) \<notin># side_entries (opp s) m"
      by (fastforce simp: set_bt_remove, cases s) auto
  qed
  ultimately have "(oid, s, price) \<in># level_entries s price ?l"
    using mid level_sum [of ?m "level_entries s" price] by (auto simp: level_at_def)
  then obtain y where y: "y \<in> set ?l" "rs_id y = oid" by (auto simp: level_entries_def)
  have level: "bt_get ?m price = Some ?l" by (rule level_at_member [OF y(1)])
  obtain x where x: "find (\<lambda>x. rs_id x = oid) ?l = Some x" using y by (cases "find (\<lambda>x. rs_id x = oid) ?l") (auto simp: find_None_iff)
  then have id: "rs_id x = oid" and "x \<in> set ?l" by (auto simp: find_Some_iff)
  then have ent: "level_entries s price ?l = add_mset (oid, s, price) (level_entries s price (remove1 x ?l))"
    and sh: "shares ?l = ucast (rs_qty x) + shares (remove1 x ?l)"
    using remove1_level [of x ?l] id by simp_all
  define b' where "b' = (set_side s (put_level price (remove1 x ?l) ?m) (b\<lparr>ob_index := bt_remove oid (ob_index b)\<rparr>))
    \<lparr>ob_canceled_shares := ob_canceled_shares b + ucast (rs_qty x)\<rparr>"
  have res: "unrest oid s price b = Some (x, b')" by (simp add: unrest_def level x b'_def Let_def)
  have idx: "mset (ob_index b) = add_mset (oid, s, price) (mset (ob_index b'))"
    using bt_sum_get [OF _ assms(2), of "\<lambda>k v. {#(k, v)#}"] mid by (simp add: mset_bt_sum b'_def)
  have "book_ok b'"
  proof (rule book_mid_replace [OF assms(1), of "remove1 x ?l" s _ price])
    show "\<forall>x \<in> set (remove1 x ?l). rs_qty x \<noteq> 0"
      using levels_ok_get [OF _ level] mid by (meson notin_set_remove1)
    show "mset (ob_index b') + level_entries s price ?l = mset (ob_index b) + level_entries s price (remove1 x ?l)"
      by (simp add: ent idx)
    show "price \<in> fst ` set ?m \<or> fits s price (side_of (opp s) b)"
      using level mid bt_get_Some_iff [of ?m price ?l] by force
  qed (use mid in \<open>simp_all add: b'_def sh algebra_simps\<close>)
  then show ?thesis using res id by blast
qed

lemma book_apply_ok: "book_ok b \<Longrightarrow> \<exists>b' c'. book_apply i b c = Some (b', c') \<and> book_ok b'"
  using book_submit_ok by (cases i) (fastforce simp: book_cancel_def dest: unrest_ok split: option.split)+

lemma book_on_timer_ok: "book_ok b \<Longrightarrow> \<exists>b' c'. book_on_timer oid b c = Some (b', c') \<and> book_ok b'"
  by (fastforce simp: book_on_timer_def dest: unrest_ok split: option.split)

lemma book_ok_genesis: "book_ok (book_genesis cfg)"
  by (simp add: book_mid_def book_genesis_def levels_ok_def)

end
