(* ===== verification/Order_Book_Props.thy ===== *)
theory Order_Book_Props
  imports Order_Book_Ok Node_Limits
begin

text \<open>
  The order book as a service on a node, its snapshot, the simulator's check, and the matching
  engine against a flat list of orders in price-time priority.
\<close>

section \<open>The simulator's check\<close>

lemma side_shares_flat: "side_shares m = sum_list (map (\<lambda>x. ucast (rs_qty x)) (concat (map snd m)))"
  by (induction m) (auto simp: shares_def)

definition entry_list :: "side \<Rightarrow> levels \<Rightarrow> (order_id \<times> side \<times> price) list" where
  "entry_list s m = concat (map (\<lambda>(p, l). map (\<lambda>x. (rs_id x, s, p)) l) m)"

lemma side_entries_flat: "side_entries s m = mset (entry_list s m)"
  by (induction m) (auto simp: entry_list_def level_entries_def)

lemma length_entry_list: "length (entry_list s m) = length (concat (map snd m))"
  by (induction m) (auto simp: entry_list_def)

lemma indexed:
  assumes "book_mid q b" and "(p, l) \<in> set (side_of s b)" and "x \<in> set l"
  shows "bt_get (ob_index b) (rs_id x) = Some (s, p)"
proof -
  note mid = assms(1) [unfolded book_mid_side [of _ _ s]]
  have "(rs_id x, s, p) \<in># side_entries s (side_of s b)"
    using assms(2,3) by (force simp: side_entries_flat entry_list_def)
  then have "(rs_id x, s, p) \<in> set (ob_index b)" using mid by (metis set_mset_mset union_iff)
  then show ?thesis using mid by (simp add: bt_get_Some_iff)
qed

lemma book_ok_check:
  assumes "book_ok b"
  shows "book_check b"
proof -
  have ok: "levels_ok (ob_bids b)" "levels_ok (ob_asks b)" using assms by (simp_all add: book_mid_def)
  have "bid < ask" if "best_price Buy b = Some bid" "best_price Sell b = Some ask" for bid ask
    using that assms bt_last_max [OF levels_ok_bt [OF ok(1)]] bt_first_min [OF levels_ok_bt [OF ok(2)]]
    by (fastforce simp: best_price_def book_mid_def bt_get_Some_iff)
  moreover have "length (concat (map snd (ob_bids b)) @ concat (map snd (ob_asks b))) = length (ob_index b)"
  proof -
    have "mset (ob_index b) = mset (entry_list Buy (ob_bids b) @ entry_list Sell (ob_asks b))"
      using assms by (simp add: book_mid_def side_entries_flat)
    from mset_eq_length [OF this] show ?thesis by (simp add: length_entry_list)
  qed
  moreover have "level \<noteq> [] \<and> (\<forall>x \<in> set level. rs_qty x \<noteq> 0 \<and> bt_get (ob_index b) (rs_id x) = Some (s, p))"
    if "(p, level) \<in> set (side_of s b)" for s p level
    using that indexed [OF assms that] ok by (cases s) (auto simp: levels_ok_def side_of_def)
  from this [of _ _ Buy] this [of _ _ Sell] have "\<forall>(s, levels) \<in> {(Buy, ob_bids b), (Sell, ob_asks b)}. \<forall>(p, level) \<in> set levels.
      level \<noteq> [] \<and> (\<forall>x \<in> set level. rs_qty x \<noteq> 0 \<and> bt_get (ob_index b) (rs_id x) = Some (s, p))"
    by (auto simp: side_of_def)
  moreover have "ob_accepted_shares b = 2 * ob_traded_shares b + ob_canceled_shares b + resting_shares b"
    using assms by (simp add: book_mid_def resting_shares_def side_shares_flat)
  ultimately show ?thesis unfolding book_check_def by (auto split: option.split simp: not_le)
qed

section \<open>Snapshots\<close>

lemma set_side_index [simp]: "set_side s m (b\<lparr>ob_index := i\<rparr>) = (set_side s m b)\<lparr>ob_index := i\<rparr>"
  by (simp add: set_side_def split: side.split)

lemma set_side_twice [simp]: "set_side s m (set_side s m' b) = set_side s m b"
  by (simp add: set_side_def split: side.split)

lemma set_side_same [simp]: "set_side s (side_of s b) b = b"
  by (simp add: set_side_def side_of_def split: side.split)

lemma restore_levels:
  "fold (restore_level s) (serialize_side m) b =
     (set_side s (fold (\<lambda>(k, v). bt_insert k v) m (side_of s b)) b)\<lparr>ob_index := fold (\<lambda>(k, v). bt_insert k v) (entry_list s m) (ob_index b)\<rparr>"
proof (induction m arbitrary: b)
  case Nil
  show ?case by (simp add: serialize_side_def entry_list_def)
next
  case (Cons e m)
  obtain p l where e: "e = (p, l)" by force
  have lv: "map ((\<lambda>(oid, q). \<lparr>rs_id = oid, rs_qty = q\<rparr>) \<circ> (\<lambda>x. (rs_id x, rs_qty x))) l = l" by (induction l) simp_all
  have ix: "fold ((\<lambda>(oid, q). bt_insert oid (s, p)) \<circ> (\<lambda>x. (rs_id x, rs_qty x))) l i =
      fold ((\<lambda>(k, v). bt_insert k v) \<circ> (\<lambda>x. (rs_id x, s, p))) l i" for i by (induction l arbitrary: i) simp_all
  have "restore_level s (p, map (\<lambda>x. (rs_id x, rs_qty x)) l) b =
      (set_side s (bt_insert p l (side_of s b)) b)\<lparr>ob_index := fold (\<lambda>(k, v). bt_insert k v) (map (\<lambda>x. (rs_id x, s, p)) l) (ob_index b)\<rparr>"
    by (simp add: restore_level_def Let_def lv ix fold_map)
  with Cons.IH show ?case by (simp add: serialize_side_def entry_list_def e)
qed

lemma restore_take_snapshot:
  assumes "book_ok b"
  shows "restore_book (take_snapshot b) cfg = b"
proof -
  let ?E = "entry_list Buy (ob_bids b) @ entry_list Sell (ob_asks b)"
  have ok: "bt_ok (ob_index b)" and m: "mset ?E = mset (ob_index b)"
    using assms by (simp_all add: book_mid_def side_entries_flat)
  have d: "distinct (map fst (ob_index b))" by (rule bt_ok_distinct [OF ok])
  moreover have "mset (map fst ?E) = mset (map fst (ob_index b))" using m by (metis mset_map)
  ultimately have "distinct (map fst (rev ?E))" by (metis distinct_rev mset_eq_imp_distinct_iff rev_map)
  moreover have "set (rev ?E) = set (ob_index b)" using m by (metis mset_eq_setD set_rev)
  ultimately have "map_of (rev ?E) = map_of (ob_index b)" using d by (simp only: map_of_inject_set)
  then have "bt_get (bt_collect ?E) k = bt_get (ob_index b) k" for k
    by (simp only: bt_get_collect) (simp only: bt_get_def)
  then have idx: "bt_collect ?E = ob_index b" using ok by (intro bt_ext) simp_all
  have "bt_collect (ob_bids b) = ob_bids b" "bt_collect (ob_asks b) = ob_asks b"
    using assms by (auto simp: book_mid_def intro: bt_collect_id)
  then show ?thesis using idx
    by (simp add: restore_book_def take_snapshot_def restore_levels bt_collect_def set_side_def side_of_def Let_def)
qed

section \<open>The laws of the service\<close>

lemma codec_side: "codec enc_side dec_side (len_enum (\<lambda>_. 0)) (\<lambda>_. True)"
  unfolding enc_side_def dec_side_def
proof (rule codec_enum, goal_cases)
  case (2 x rest)
  then show ?case by (cases x) (auto simp: map_dec_def dec_unit_def)
next
  case (3 i buf x rest)
  then have "i = 0 \<or> i = 1" by auto
  with 3(2) show ?case by (auto simp: map_dec_Ok_iff dec_unit_def)
qed simp_all

lemmas price_qty = u32c.codec_pair [OF u32c.codec_axioms]
lemmas submit_fields = u64c.codec_pair [OF codec.codec_pair [OF codec_side price_qty]]
lemmas gtd_fields = u64c.codec_pair [OF codec.codec_pair [OF codec_side u32c.codec_pair [OF u32c.codec_pair [OF u64c.codec_axioms]]]]

lemma codec_book_cmd: "\<exists>len. codec enc_book_cmd dec_book_cmd len (\<lambda>_. True)"
  unfolding enc_book_cmd_def dec_book_cmd_def
proof (rule exI, rule codec_enum [where flen = "\<lambda>x. length (case x of
        Submit i s p q \<Rightarrow> enc_pair enc_int (enc_pair enc_side (enc_pair enc_int enc_int)) (i, s, p, q)
      | SubmitGtd i s p q e \<Rightarrow>
          enc_pair enc_int (enc_pair enc_side (enc_pair enc_int (enc_pair enc_int enc_int))) (i, s, p, q, e)
      | Cancel i \<Rightarrow> enc_int i)"], goal_cases)
  case (2 x rest)
  then show ?case
    by (cases x) (simp_all add: map_dec_def codec.roundtrip [OF submit_fields] codec.roundtrip [OF gtd_fields] u64c.roundtrip)
next
  case (3 i buf x rest)
  then have "i = 0 \<or> i = 1 \<or> i = 2" by auto
  with 3(2) show ?case
    by (auto simp: map_dec_Ok_iff dest!: codec.canonical [OF submit_fields] codec.canonical [OF gtd_fields] u64c.canonical)
qed simp_all

lemmas orders_codec = codec.codec_vec [OF u64c.codec_pair [OF u32c.codec_axioms]]
lemmas levels_codec = codec.codec_vec [OF u32c.codec_pair [OF orders_codec]]
lemmas snapshot_fields =
  codec.codec_pair [OF levels_codec codec.codec_pair [OF levels_codec u64c.codec_pair [OF u64c.codec_pair [OF u64c.codec_axioms]]]]

definition small_side :: "levels \<Rightarrow> bool" where
  "small_side m \<longleftrightarrow> length m < 2 ^ 32 \<and> (\<forall>(p, l) \<in> set m. length l < 2 ^ 32)"

text \<open>What the \<open>u32\<close> length prefixes of the snapshot can hold.\<close>

definition small_book :: "order_book \<Rightarrow> bool" where
  "small_book b \<longleftrightarrow> small_side (ob_bids b) \<and> small_side (ob_asks b)"

definition wf_levels :: "(price \<times> (order_id \<times> qty) list) list \<Rightarrow> bool" where
  "wf_levels = wf_vec (\<lambda>p. True \<and> wf_vec (\<lambda>p. True \<and> True) (snd p))"

lemma codec_book_snapshot:
  "\<exists>len. codec enc_book_snapshot dec_book_snapshot len (\<lambda>x. wf_levels (bs_bids x) \<and> wf_levels (bs_asks x))"
proof (rule exI [of _ "\<lambda>x. length (enc_book_snapshot x)"], rule codec.intro, goal_cases)
  case (1 x rest)
  then show ?case
    by (simp add: enc_book_snapshot_def dec_book_snapshot_def map_dec_def codec.roundtrip [OF snapshot_fields] wf_levels_def)
next
  case (2 buf x rest)
  then show ?case
    by (auto simp: enc_book_snapshot_def dec_book_snapshot_def map_dec_Ok_iff wf_levels_def dest!: codec.canonical [OF snapshot_fields])
next
  case (3 x)
  show ?case by (rule refl)
qed

lemma small_serialized: "small_side m \<Longrightarrow> wf_levels (serialize_side m)"
  by (auto simp: small_side_def wf_levels_def wf_vec_def serialize_side_def list_all_iff)

interpretation bookl: service_laws book_service "()" "\<lambda>_. True" book_ok small_book
proof (rule service_lawsI [where vp = "\<lambda>x. wf_levels (bs_bids x) \<and> wf_levels (bs_asks x)"], goal_cases)
  case 1
  show ?case using codec_book_cmd by (simp add: book_service_def)
next
  case 2
  show ?case using codec_book_snapshot by (simp add: book_service_def)
next
  case (3 s)
  then show ?case by (simp add: book_service_def small_book_def take_snapshot_def small_serialized)
next
  case (4 s)
  then show ?case by (simp add: book_service_def restore_take_snapshot)
next
  case 5
  show ?case by (simp add: book_service_def book_ok_genesis)
next
  case (6 s i q c)
  then show ?case using book_apply_ok [of s i c] by (auto simp: book_service_def)
next
  case (7 s tid c)
  then show ?case using book_on_timer_ok [of s tid c] by (auto simp: book_service_def)
qed

interpretation books: simulated book_service "()" "\<lambda>_. True" book_ok small_book
  by (intro simulated.intro bookl.service_laws_axioms)

section \<open>Price-time priority\<close>

text \<open>
  The resting orders of a side, best price first and in order of arrival within a price, and
  matching against that list: one order after the other, until the taker is filled or the next
  order is beyond its limit.
\<close>

definition flat :: "levels \<Rightarrow> (price \<times> resting) list" where
  "flat m = concat (map (\<lambda>(p, l). map (Pair p) l) m)"

definition priority :: "side \<Rightarrow> order_book \<Rightarrow> (price \<times> resting) list" where
  "priority s b = (case s of Buy \<Rightarrow> flat (rev (ob_bids b)) | Sell \<Rightarrow> flat (ob_asks b))"

fun ref_match :: "(price \<Rightarrow> bool) \<Rightarrow> order_id \<Rightarrow> qty \<Rightarrow> (price \<times> resting) list \<Rightarrow>
    qty \<times> (price \<times> resting) list \<times> book_evt list" where
  "ref_match beyond taker q [] = (q, [], [])"
| "ref_match beyond taker q ((p, x) # xs) =
     (if q = 0 \<or> beyond p then (q, (p, x) # xs, [])
      else if q < rs_qty x then (0, (p, x\<lparr>rs_qty := rs_qty x - q\<rparr>) # xs, [Trade taker (rs_id x) p q])
      else case ref_match beyond taker (q - rs_qty x) xs of
          (q, xs, trades) \<Rightarrow> (q, xs, Trade taker (rs_id x) p (rs_qty x) # trades))"

lemma flat_simps [simp]: "flat [] = []" "flat ((p, l) # m) = map (Pair p) l @ flat m" "flat (m @ m') = flat m @ flat m'"
  by (simp_all add: flat_def)

lemma ref_match_zero [simp]: "ref_match beyond t 0 xs = (0, xs, [])"
  by (cases xs) auto

lemma fill_queue_ref:
  assumes "fill_queue p t q l c = (q', l', ids, tr, c')" and "\<not> beyond p"
  shows "\<exists>ts. c_outputs c' = c_outputs c @ ts \<and>
    ref_match beyond t q (map (Pair p) l @ rest) =
      (case ref_match beyond t q' (map (Pair p) l' @ rest) of (q2, xs, ts2) \<Rightarrow> (q2, xs, ts @ ts2))"
  using assms(1)
proof (induction q l c arbitrary: q' l' ids tr c' rule: fill_queue_cases [where p = p and t = t])
  case (partial q maker queue c)
  then show ?case using assms(2) by (auto simp: fill_queue_partial emit_def)
next
  case (full q maker queue c)
  let ?c = "emit (Trade t (rs_id maker) p (rs_qty maker)) c"
  obtain ids1 tr1 where "fill_queue p t (q - rs_qty maker) queue ?c = (q', l', ids1, tr1, c')"
    using full.prems by (auto simp: fill_queue_full [OF full.hyps] split: prod.splits)
  from full.IH [OF this] obtain ts where ts: "c_outputs c' = c_outputs ?c @ ts"
      "ref_match beyond t (q - rs_qty maker) (map (Pair p) queue @ rest) =
        (case ref_match beyond t q' (map (Pair p) l' @ rest) of (q2, xs, ts2) \<Rightarrow> (q2, xs, ts @ ts2))" by blast
  then show ?case using assms(2) full.hyps
    by (intro exI [of _ "Trade t (rs_id maker) p (rs_qty maker) # ts"]) (auto simp: emit_def not_less split: prod.split)
qed (auto simp: fill_queue_zero)

lemma put_level_split:
  assumes "bt_ok (xs @ (p, l) # ys)"
  shows "put_level p l' (xs @ (p, l) # ys) = (if l' = [] then xs @ ys else xs @ (p, l') # ys)"
proof -
  have lt: "\<forall>k \<in> fst ` set xs. k < p" "\<forall>k \<in> fst ` set ys. p < k" using assms by (auto simp: bt_ok_def sorted_wrt_append)
  then have "bt_insert p l' (xs @ (p, l) # ys) = xs @ (p, l') # ys"
    by (induction xs) (auto simp: less_not_sym split: prod.splits)
  moreover have "bt_remove p (xs @ (p, x) # ys) = xs @ ys" for x
    using lt by (auto simp: bt_remove_def intro!: arg_cong2 [where f = append] filter_True)
  ultimately show ?thesis by (simp add: put_level_def)
qed

text \<open>The best level is the front of the priority list, before and after it is replaced.\<close>

lemma priority_best:
  assumes "levels_ok (side_of s b)" and "best_price s b = Some p" and "bt_get (side_of s b) p = Some l"
  shows "\<exists>rest. priority s b = map (Pair p) l @ rest \<and>
    (\<forall>b' l'. side_of s b' = put_level p l' (side_of s b) \<longrightarrow> priority s b' = map (Pair p) l' @ rest)"
proof (cases s)
  case Sell
  then obtain m where m: "ob_asks b = (p, l) # m"
    using assms(2,3) by (cases "ob_asks b") (auto simp: best_price_def bt_first_def side_of_def bt_get_def)
  then have "bt_ok ([] @ (p, l) # m)" using assms(1) Sell by (auto simp: side_of_def)
  from put_level_split [OF this] m Sell show ?thesis
    by (intro exI [of _ "flat m"]) (auto simp: priority_def side_of_def)
next
  case Buy
  have ok: "bt_ok (ob_bids b)" using assms(1) Buy by (simp add: side_of_def)
  have "ob_bids b \<noteq> []" "fst (last (ob_bids b)) = p" using assms(2) Buy by (auto simp: best_price_def bt_last_def split: list.splits)
  then obtain l1 where l1: "last (ob_bids b) = (p, l1)" by (cases "last (ob_bids b)") auto
  have "last (ob_bids b) \<in> set (ob_bids b)" using \<open>ob_bids b \<noteq> []\<close> by (rule last_in_set)
  then have "bt_get (ob_bids b) p = Some l1" using bt_get_Some_iff [OF ok] l1 by metis
  then have "last (ob_bids b) = (p, l)" using assms(3) Buy l1 by (simp add: side_of_def)
  then obtain m where m: "ob_bids b = m @ [(p, l)]" using \<open>ob_bids b \<noteq> []\<close> by (metis append_butlast_last_id)
  have "bt_ok (m @ (p, l) # [])" using ok m by simp
  from put_level_split [OF this] m Buy show ?thesis
    by (intro exI [of _ "flat (rev m)"]) (auto simp: priority_def side_of_def)
qed

lemma outputs_cancel [simp]: "c_outputs (fold cancel_timer ids c) = c_outputs c"
  by (induction ids arbitrary: c) (simp_all add: cancel_timer_def)

lemma fill_level_parts:
  assumes "fill_level s p t q b c = Some (q', b', c')"
  shows "\<exists>level l' ids tr c1. bt_get (side_of s b) p = Some level \<and> fill_queue p t q level c = (q', l', ids, tr, c1) \<and>
    side_of s b' = put_level p l' (side_of s b) \<and> c_outputs c' = c_outputs c1"
  using assms by (cases "bt_get (side_of s b) p") (auto simp: fill_level_def Let_def split: prod.splits)

lemma match_loop_ref:
  assumes "book_mid q b" and "match_loop s beyond t q b c = Some (q', b', c')"
  shows "\<exists>ts. ref_match beyond t q (priority s b) = (q', priority s b', ts) \<and> c_outputs c' = c_outputs c @ ts"
  using assms
proof (induction s beyond t q b c arbitrary: q' b' c' rule: match_loop.induct)
  case (1 s beyond t q b c)
  have lv: "levels_ok (side_of s b)" using 1(2) [unfolded book_mid_side [of _ _ s]] by simp
  show ?case
  proof (cases "q = 0 \<or> best_price s b = None \<or> (\<exists>p. best_price s b = Some p \<and> beyond p)")
    case True
    have stop: "(q', b', c') = (q, b, c)" using 1(3) match_loop_stop [OF True, of t c] by simp
    have "ref_match beyond t q (priority s b) = (q, priority s b, [])"
    proof (cases "q = 0")
      case False
      with True consider "best_price s b = None" | p where "best_price s b = Some p" "beyond p" by (elim disjE exE conjE) simp_all
      then show ?thesis
      proof cases
        case 1
        then have "side_of s b = []" by (cases s) (auto simp: best_price_def side_of_def)
        then show ?thesis by (cases s) (simp_all add: priority_def side_of_def)
      next
        case 2
        then obtain l where l: "bt_get (side_of s b) p = Some l" using best_price_get [OF lv] by blast
        then obtain x l1 where "l = x # l1" using levels_ok_get [OF lv l] by (cases l) auto
        moreover obtain rest where "priority s b = map (Pair p) l @ rest" using priority_best [OF lv 2(1) l] by blast
        ultimately show ?thesis using 2 by simp
      qed
    qed simp
    with stop show ?thesis by simp
  next
    case False
    then obtain p where p: "best_price s b = Some p" "\<not> beyond p" "q \<noteq> 0" by auto
    obtain l where l: "bt_get (side_of s b) p = Some l" using best_price_get [OF lv p(1)] by blast
    from fill_level_ok [OF 1(2) l, of t c] obtain q1 b1 c1 where f: "fill_level s p t q b c = Some (q1, b1, c1)" "book_mid q1 b1" by blast
    have "match_loop s beyond t q1 b1 c1 = Some (q', b', c')"
      using 1(3) match_loop_go [where p = p and beyond = beyond, OF p(3,1,2) f(1)] by simp
    from 1(1) [OF p(3,1,2) f(1) refl refl f(2) this] obtain ts where
      ts: "ref_match beyond t q1 (priority s b1) = (q', priority s b', ts)" "c_outputs c' = c_outputs c1 @ ts" by blast
    obtain l' ids tr c2 where fl: "fill_queue p t q l c = (q1, l', ids, tr, c2)"
        "side_of s b1 = put_level p l' (side_of s b)" "c_outputs c1 = c_outputs c2"
      using fill_level_parts [OF f(1)] unfolding l option.inject by blast
    obtain rest where r0: "priority s b = map (Pair p) l @ rest"
        "\<forall>b' l'. side_of s b' = put_level p l' (side_of s b) \<longrightarrow> priority s b' = map (Pair p) l' @ rest"
      using priority_best [OF lv p(1) l] by blast
    then have r: "priority s b = map (Pair p) l @ rest" "priority s b1 = map (Pair p) l' @ rest" using fl(2) by simp_all
    obtain ts1 where "c_outputs c2 = c_outputs c @ ts1"
        "ref_match beyond t q (priority s b) = (case ref_match beyond t q1 (priority s b1) of (q2, xs, ts2) \<Rightarrow> (q2, xs, ts1 @ ts2))"
      using fill_queue_ref [where beyond = beyond, OF fl(1) p(2), of rest] unfolding r by blast
    then show ?thesis using ts fl(3) by (intro exI [of _ "ts1 @ ts"]) simp
  qed
qed

lemma priority_sorted:
  assumes "book_ok b"
  shows "sorted_wrt (\<lambda>x y. case s of Buy \<Rightarrow> fst y \<le> fst x | Sell \<Rightarrow> fst x \<le> fst y) (priority s b)"
proof -
  have fl: "fst ` set (flat m) \<subseteq> fst ` set m" for m by (auto simp: flat_def) force
  have up: "sorted_wrt R (map fst m) \<Longrightarrow> reflp R \<Longrightarrow> sorted_wrt (\<lambda>x y. R (fst x) (fst y)) (flat m)" for R m
  proof (induction m)
    case (Cons e m)
    then show ?case using fl [of m]
      by (cases e) (fastforce simp: sorted_wrt_append sorted_wrt_map reflp_def intro: sorted_wrt_mono_rel [OF _ sorted_wrt_true])
  qed simp
  have "bt_ok (ob_bids b)" "bt_ok (ob_asks b)" using assms by (simp_all add: book_mid_def)
  then have "sorted_wrt (\<le>) (map fst (ob_asks b))" "sorted_wrt (\<lambda>x y. y \<le> x) (map fst (rev (ob_bids b)))"
    using bt_ok_sorted by (auto simp: rev_map [symmetric] sorted_wrt_rev)
  from this [THEN up] show ?thesis by (cases s) (simp_all add: priority_def reflp_def)
qed

section \<open>Properties\<close>

text \<open>
  C7. In every reachable state of a node that hosts the order book, through crashes, snapshots and
  compactions, the simulator's check holds: the book is not crossed, every accepted share is traded
  twice over, canceled or resting, no level is empty and the index agrees with the levels. In such a
  state no command and no timer reaches a failing \<open>expect\<close>.
\<close>

theorem book_never_crossed:
  assumes "node_run book_service () (\<lambda>_. True) small_book cfg now n d base dur"
  shows "book_check (n_service n) \<and> book_apply cmd (n_service n) c \<noteq> None \<and> book_on_timer tid (n_service n) c \<noteq> None"
proof -
  have ok: "book_ok (n_service n)" using books.run_is_replay [OF assms] by blast
  then show ?thesis using book_apply_ok [OF ok, of cmd c] book_on_timer_ok [OF ok, of tid c] book_ok_check [OF ok] by auto
qed

theorem book_never_crossed_witness:
  "\<exists>(n :: (order_book, book_evt, unit, u64, sim_file) node) d dur.
     node_run book_service () (\<lambda>_. True) small_book demo_cfg manual_now n d [] dur \<and> length (observed n) = 1 \<and>
     book_check (n_service n) \<and> book_apply (Cancel 7) (n_service n) (ctx_new 2 0) \<noteq> None"
proof -
  have "length (encode_to_vec (sv_enc_input book_service) (Submit 7 Buy 100 5)) \<le> 100"
    by (simp add: book_service_def enc_book_cmd_def enc_enum_def enc_pair_def enc_side_def enc_int_def encode_to_vec_def)
  moreover have "books.quiet (Submit 7 Buy 100 5) (sv_genesis book_service ())"
    unfolding books.quiet_def
    by (simp add: book_service_def book_genesis_def book_submit_def bt_contains_def match_against_asks_def match_loop_stop
        best_price_def bt_first_def emit_def Let_def)
  ultimately obtain n :: "(order_book, book_evt, unit, u64, sim_file) node" and d dur where
    n: "node_run book_service () (\<lambda>_. True) small_book demo_cfg manual_now n d [] dur" "length (observed n) = 1"
    using books.run_one [OF _ TrueI] by blast
  from book_never_crossed [OF n(1), of "Cancel 7" "ctx_new 2 0"] n show ?thesis by blast
qed

text \<open>
  C6. Price-time priority. The two nested loops over price levels and queues do what matching
  against the flat list of resting orders does, best price first and first in first out within a
  price: the same trades at the makers' prices in the same order, the same orders left; what remains of
  the taker joins the back of the queue at its price.
\<close>

theorem matching_is_price_time:
  assumes "book_ok b" and "q \<noteq> 0" and "\<not> bt_contains (ob_index b) oid"
    and "ref_match (past s price) oid q (priority (opp s) b) = (q', xs, trades)"
  shows "\<exists>b' c'. book_apply (Submit oid s price q) b c = Some (b', c') \<and>
    sorted_wrt (\<lambda>x y. case opp s of Buy \<Rightarrow> fst y \<le> fst x | Sell \<Rightarrow> fst x \<le> fst y) (priority (opp s) b) \<and>
    c_outputs c' = c_outputs c @ Accepted oid # trades \<and> priority (opp s) b' = xs \<and>
    (if q' = 0 then side_of s b' = side_of s b
     else level_at (side_of s b') price = level_at (side_of s b) price @ [\<lparr>rs_id = oid, rs_qty = q'\<rparr>])"
proof -
  let ?b = "b\<lparr>ob_accepted_shares := ob_accepted_shares b + ucast q\<rparr>" and ?c = "emit (Accepted oid) c"
  have mid: "book_mid q ?b" using assms(1) by (simp add: book_mid_def)
  from match_loop_ok [OF mid, of "opp s" "past s price" oid ?c] obtain q1 b1 c1 where
    m: "match_loop (opp s) (past s price) oid q ?b ?c = Some (q1, b1, c1)" "side_of (opp (opp s)) b1 = side_of (opp (opp s)) ?b" by blast
  have pr: "priority (opp s) ?b = priority (opp s) b" "priority (opp s) (rested oid s price q1 b1) = priority (opp s) b1"
    by (cases s; simp add: priority_def rested_def set_side_def)+
  have o: "opp (opp s) = s" by (cases s) simp_all
  from match_loop_ref [OF mid m(1)] assms(4) have r: "q1 = q'" "priority (opp s) b1 = xs" "c_outputs c1 = c_outputs ?c @ trades"
    unfolding pr by auto
  have "if q' = 0 then side_of s (rested oid s price q1 b1) = side_of s b
      else level_at (side_of s (rested oid s price q1 b1)) price = level_at (side_of s b) price @ [\<lparr>rs_id = oid, rs_qty = q'\<rparr>]"
    using m(2) by (simp add: r(1) o rested_def level_at_def)
  with book_submit_matched [OF assms(2,3) m(1), of None] priority_sorted [OF assms(1)] r(2,3) pr(2) show ?thesis
    by (simp add: emit_def)
qed

theorem matching_is_price_time_witness:
  "\<exists>b' c'. book_apply (Submit 9 Buy 101 8) \<lparr>ob_bids = [], ob_asks = [(100, [\<lparr>rs_id = 1, rs_qty = 5\<rparr>, \<lparr>rs_id = 2, rs_qty = 7\<rparr>])],
       ob_index = [(1, Sell, 100), (2, Sell, 100)], ob_accepted_shares = 12, ob_traded_shares = 0, ob_canceled_shares = 0\<rparr> (ctx_new 3 0) =
       Some (b', c') \<and>
     c_outputs c' = [Accepted 9, Trade 9 1 100 5, Trade 9 2 100 3] \<and> priority Sell b' = [(100, \<lparr>rs_id = 2, rs_qty = 4\<rparr>)]"
  (is "\<exists>b' c'. book_apply _ ?b _ = _ \<and> _")
proof -
  have "book_ok ?b" by (simp add: book_mid_def levels_ok_def bt_ok_def)
  from matching_is_price_time [OF this, of 8 9 Buy 101 0 "[(100, \<lparr>rs_id = 2, rs_qty = 4\<rparr>)]" "[Trade 9 1 100 5, Trade 9 2 100 3]" "ctx_new 3 0"]
  show ?thesis by (auto simp: bt_contains_def bt_get_def priority_def flat_def past_def ctx_new_def)
qed

end
