(* ===== verification/Exchange.thy ===== *)
theory Exchange
  imports Order_Book_Props Gateway_Wire
begin

text \<open>
  \<open>examples/exchange/src/lib.rs\<close>: the order book behind sessions. Owners of resting orders, the reverse
  index for cancel-on-disconnect and the last command number of each session are part of
  the sequenced state. A set is a map to \<open>unit\<close>. \<open>None\<close> is a panic of the inner book or of the
  \<open>expect\<close> in \<open>restore\<close>.
\<close>

section \<open>State\<close>

type_synonym session = u64

type_synonym idset = "(order_id, unit) btmap"

record exchange =
  ex_book :: order_book
  ex_owners :: "(order_id, session) btmap"
  ex_owned :: "(session, idset) btmap"
  ex_last_client_seq :: "(session, u64) btmap"

definition exchange_genesis :: "unit \<Rightarrow> exchange" where
  "exchange_genesis cfg = \<lparr>ex_book = book_genesis (), ex_owners = [], ex_owned = [], ex_last_client_seq = []\<rparr>"

definition has_order :: "order_book \<Rightarrow> order_id \<Rightarrow> bool" where
  "has_order b oid = bt_contains (ob_index b) oid"

definition resting_orders :: "order_book \<Rightarrow> nat" where
  "resting_orders b = length (ob_index b)"

section \<open>Operations\<close>

text \<open>\<open>run_book\<close>: the inner book runs in a context of its own; only its outputs are returned.\<close>

definition run_book :: "seq \<Rightarrow> book_cmd \<Rightarrow> timestamp \<Rightarrow> exchange \<Rightarrow> (book_evt list \<times> exchange) option" where
  "run_book s cmd now x =
     map_option (\<lambda>(b, c). (c_outputs c, x\<lparr>ex_book := b\<rparr>)) (book_apply cmd (ex_book x) (ctx_new s now))"

definition owned_insert :: "session \<Rightarrow> order_id \<Rightarrow> exchange \<Rightarrow> exchange" where
  "owned_insert ses oid x =
     (let ids = (case bt_get (ex_owned x) ses of Some ids \<Rightarrow> ids | None \<Rightarrow> [])
      in x\<lparr>ex_owned := bt_insert ses (bt_insert oid () ids) (ex_owned x)\<rparr>)"

definition owned_remove :: "session \<Rightarrow> order_id \<Rightarrow> exchange \<Rightarrow> exchange" where
  "owned_remove ses oid x =
     (case bt_get (ex_owned x) ses of
        None \<Rightarrow> x
      | Some ids \<Rightarrow> x\<lparr>ex_owned := bt_insert ses (bt_remove oid ids) (ex_owned x)\<rparr>)"

definition disown :: "order_id \<Rightarrow> exchange \<Rightarrow> exchange" where
  "disown oid x =
     (case bt_get (ex_owners x) oid of
        None \<Rightarrow> x
      | Some owner \<Rightarrow> owned_remove owner oid (x\<lparr>ex_owners := bt_remove oid (ex_owners x)\<rparr>))"

fun route :: "session \<Rightarrow> book_evt \<Rightarrow> exchange \<Rightarrow> book_evt addressed ctx \<Rightarrow> exchange \<times> book_evt addressed ctx" where
  "route origin (Accepted oid) x c =
     (let x = (if has_order (ex_book x) oid
               then owned_insert origin oid (x\<lparr>ex_owners := bt_insert oid origin (ex_owners x)\<rparr>) else x)
      in (x, emit \<lparr>ad_session = origin, ad_event = Accepted oid\<rparr> c))"
| "route origin (Trade taker maker price q) x c =
     (let maker_session = bt_get (ex_owners x) maker;
          x = (if has_order (ex_book x) maker then x else disown maker x);
          c = emit \<lparr>ad_session = origin, ad_event = Trade taker maker price q\<rparr> c;
          c = (case maker_session of
                 Some owner \<Rightarrow> if owner \<noteq> origin then emit \<lparr>ad_session = owner, ad_event = Trade taker maker price q\<rparr> c else c
               | None \<Rightarrow> c)
      in (x, c))"
| "route origin (Canceled oid q) x c = (disown oid x, emit \<lparr>ad_session = origin, ad_event = Canceled oid q\<rparr> c)"
| "route origin (Expired oid q) x c = (disown oid x, emit \<lparr>ad_session = origin, ad_event = Expired oid q\<rparr> c)"
| "route origin (OrderRejected oid why) x c = (x, emit \<lparr>ad_session = origin, ad_event = OrderRejected oid why\<rparr> c)"

fun route_all :: "session \<Rightarrow> book_evt list \<Rightarrow> exchange \<Rightarrow> book_evt addressed ctx \<Rightarrow> exchange \<times> book_evt addressed ctx" where
  "route_all origin [] x c = (x, c)"
| "route_all origin (e # es) x c = (case route origin e x c of (x, c) \<Rightarrow> route_all origin es x c)"

definition run_and_route :: "seq \<Rightarrow> session \<Rightarrow> book_cmd \<Rightarrow> exchange \<Rightarrow> book_evt addressed ctx \<Rightarrow>
    (exchange \<times> book_evt addressed ctx) option" where
  "run_and_route s ses cmd x c = map_option (\<lambda>(events, x). route_all ses events x c) (run_book s cmd (c_now c) x)"

text \<open>\<open>entry(session).or_insert(0)\<close> leaves an entry even for a duplicate.\<close>

definition apply_client :: "seq \<Rightarrow> session \<Rightarrow> u64 \<Rightarrow> book_cmd \<Rightarrow> exchange \<Rightarrow> book_evt addressed ctx \<Rightarrow>
    (exchange \<times> book_evt addressed ctx) option" where
  "apply_client s ses client_seq cmd x c =
     (let lasts = (if bt_contains (ex_last_client_seq x) ses then ex_last_client_seq x
                   else bt_insert ses 0 (ex_last_client_seq x));
          final = (case bt_get lasts ses of Some q \<Rightarrow> q | None \<Rightarrow> 0);
          x = x\<lparr>ex_last_client_seq := lasts\<rparr>
      in if client_seq \<le> final then Some (x, c)
      else
        let x = x\<lparr>ex_last_client_seq := bt_insert ses client_seq lasts\<rparr> in
        case cmd of
          Cancel oid \<Rightarrow>
            if bt_get (ex_owners x) oid \<noteq> Some ses
            then Some (x, emit \<lparr>ad_session = ses, ad_event = OrderRejected oid UnknownOrder\<rparr> c)
            else run_and_route s ses cmd x c
        | _ \<Rightarrow> run_and_route s ses cmd x c)"

fun cancel_all :: "seq \<Rightarrow> session \<Rightarrow> order_id list \<Rightarrow> exchange \<Rightarrow> book_evt addressed ctx \<Rightarrow>
    (exchange \<times> book_evt addressed ctx) option" where
  "cancel_all s ses [] x c = Some (x, c)"
| "cancel_all s ses (oid # oids) x c =
     (case run_and_route s ses (Cancel oid) x c of None \<Rightarrow> None | Some (x, c) \<Rightarrow> cancel_all s ses oids x c)"

definition close_session :: "seq \<Rightarrow> session \<Rightarrow> exchange \<Rightarrow> book_evt addressed ctx \<Rightarrow>
    (exchange \<times> book_evt addressed ctx) option" where
  "close_session s ses x c =
     (let ids = (case bt_get (ex_owned x) ses of Some ids \<Rightarrow> map fst ids | None \<Rightarrow> [])
      in map_option (\<lambda>(x, c). (x\<lparr>ex_owned := bt_remove ses (ex_owned x)\<rparr>, c)) (cancel_all s ses ids x c))"

fun exchange_apply :: "seq \<Rightarrow> book_cmd gateway_input \<Rightarrow> exchange \<Rightarrow> book_evt addressed ctx \<Rightarrow>
    (exchange \<times> book_evt addressed ctx) option" where
  "exchange_apply s (Client ses client_seq cmd) x c = apply_client s ses client_seq cmd x c"
| "exchange_apply s (SessionClosed ses) x c = close_session s ses x c"

section \<open>Snapshots\<close>

type_synonym exchange_snapshot = "bytes \<times> (order_id \<times> session) list \<times> (session \<times> u64) list"

definition exchange_snap :: "exchange \<Rightarrow> exchange_snapshot" where
  "exchange_snap x = (encode_to_vec enc_book_snapshot (take_snapshot (ex_book x)), ex_owners x, ex_last_client_seq x)"

definition rebuild_owned :: "(order_id, session) btmap \<Rightarrow> (session, idset) btmap" where
  "rebuild_owned owners =
     fold (\<lambda>(oid, ses) owned. bt_insert ses (bt_insert oid () (case bt_get owned ses of Some ids \<Rightarrow> ids | None \<Rightarrow> [])) owned) owners []"

definition exchange_restore :: "exchange_snapshot \<Rightarrow> unit \<Rightarrow> exchange option" where
  "exchange_restore snap cfg =
     (case snap of (book, owners, lasts) \<Rightarrow>
        (case decode_all dec_book_snapshot book of
           Err _ \<Rightarrow> None
         | Ok bs \<Rightarrow>
             let owners = bt_collect owners
             in Some \<lparr>ex_book = restore_book bs (), ex_owners = owners, ex_owned = rebuild_owned owners,
                  ex_last_client_seq = bt_collect lasts\<rparr>))"

definition exchange_sessions :: "exchange \<Rightarrow> (session \<times> u64) list" where
  "exchange_sessions x = ex_last_client_seq x"

section \<open>The simulator's check\<close>

definition exchange_check :: "exchange \<Rightarrow> bool" where
  "exchange_check x \<longleftrightarrow> book_check (ex_book x) \<and>
     (\<forall>(oid, owner) \<in> set (ex_owners x). has_order (ex_book x) oid \<and>
        (case bt_get (ex_owned x) owner of Some ids \<Rightarrow> bt_contains ids oid | None \<Rightarrow> False)) \<and>
     length (ex_owners x) = resting_orders (ex_book x) \<and>
     sum_list (map (\<lambda>(ses, ids). length ids) (ex_owned x)) = length (ex_owners x)"

end
