(* ===== verification/Exchange_Props.thy ===== *)
theory Exchange_Props
  imports Exchange
begin

text \<open>
  The exchange keeps ownership and residency in step, and a snapshot restores a state that cannot be told
  from the original.
\<close>

section \<open>What the book reports\<close>

abbreviation resting_ids :: "order_book \<Rightarrow> order_id set" where
  "resting_ids b \<equiv> fst ` set (ob_index b)"

definition makers :: "book_evt list \<Rightarrow> order_id set" where
  "makers es = {m. \<exists>t p q. Trade t m p q \<in> set es}"

definition only_trades :: "book_evt list \<Rightarrow> bool" where
  "only_trades es \<longleftrightarrow> (\<forall>e \<in> set es. \<exists>t m p q. e = Trade t m p q)"

lemma makers_simps [simp]: "makers [] = {}" "makers (Trade t m p q # es) = insert m (makers es)" "makers (es @ fs) = makers es \<union> makers fs"
  by (auto simp: makers_def)

lemma only_trades_simps [simp]: "only_trades []" "only_trades (Trade t m p q # es) = only_trades es"
  "only_trades (es @ fs) \<longleftrightarrow> only_trades es \<and> only_trades fs"
  by (auto simp: only_trades_def)

text \<open>Every order that left the book during matching was reported as the maker of a trade.\<close>

definition traded :: "book_evt list \<Rightarrow> order_id set \<Rightarrow> order_id set \<Rightarrow> bool" where
  "traded ts I J \<longleftrightarrow> only_trades ts \<and> makers ts \<subseteq> I \<and> J \<subseteq> I \<and> I - J \<subseteq> makers ts"

lemma traded_Nil: "traded [] I I"
  by (simp add: traded_def)

lemma traded_trans: "traded ts I J \<Longrightarrow> traded us J K \<Longrightarrow> traded (ts @ us) I K"
  by (auto simp: traded_def)

lemma fill_queue_trades:
  assumes "fill_queue p t q l c = (q', l', ids, tr, c')"
  shows "\<exists>ts. c_outputs c' = c_outputs c @ ts \<and> only_trades ts \<and> set ids \<subseteq> makers ts \<and> makers ts \<subseteq> rs_id ` set l"
  using assms
proof (induction q l c arbitrary: q' l' ids tr c' rule: fill_queue_cases [where p = p and t = t])
  case (partial q maker queue c)
  then show ?case by (intro exI [of _ "[Trade t (rs_id maker) p q]"]) (auto simp: fill_queue_partial emit_def)
next
  case (full q maker queue c)
  let ?c = "emit (Trade t (rs_id maker) p (rs_qty maker)) c"
  obtain ids1 tr1 where f: "fill_queue p t (q - rs_qty maker) queue ?c = (q', l', ids1, tr1, c')" "ids = rs_id maker # ids1"
    using full.prems by (auto simp: fill_queue_full [OF full.hyps] split: prod.splits)
  from full.IH [OF f(1)] obtain ts where "c_outputs c' = c_outputs ?c @ ts" "only_trades ts" "set ids1 \<subseteq> makers ts"
    "makers ts \<subseteq> rs_id ` set queue" by blast
  then show ?case using f(2) by (intro exI [of _ "Trade t (rs_id maker) p (rs_qty maker) # ts"]) (auto simp: emit_def)
qed (auto simp: fill_queue_zero)

lemma keys_fold_remove: "fst ` set (fold bt_remove ks m) = fst ` set m - set ks"
  by (induction ks arbitrary: m) (auto simp: set_bt_remove)

lemma fill_level_trades:
  assumes "book_mid q b" and "fill_level s p t q b c = Some (q', b', c')"
  shows "\<exists>ts. c_outputs c' = c_outputs c @ ts \<and> traded ts (resting_ids b) (resting_ids b')"
proof -
  obtain level l' ids tr c1 where l: "bt_get (side_of s b) p = Some level" "fill_queue p t q level c = (q', l', ids, tr, c1)"
      "ob_index b' = fold bt_remove ids (ob_index b)" "c_outputs c' = c_outputs c1"
    using assms(2) by (cases "bt_get (side_of s b) p") (auto simp: fill_level_def Let_def split: prod.splits)
  have "(p, level) \<in> set (side_of s b)" using l(1) assms(1) [unfolded book_mid_side [of _ _ s]] by (simp add: bt_get_Some_iff)
  then have sub: "rs_id ` set level \<subseteq> resting_ids b"
    using indexed [OF assms(1)] bt_get_None_iff by (metis image_subsetI option.distinct(1))
  obtain ts where ts: "c_outputs c1 = c_outputs c @ ts" "only_trades ts" "set ids \<subseteq> makers ts" "makers ts \<subseteq> rs_id ` set level"
    using fill_queue_trades [OF l(2)] by blast
  have "traded ts (resting_ids b) (resting_ids b')" unfolding traded_def l(3) keys_fold_remove using ts(2-4) sub by blast
  then show ?thesis using ts(1) l(4) by auto
qed

lemma match_loop_trades:
  assumes "book_mid q b" and "match_loop s beyond t q b c = Some (q', b', c')"
  shows "\<exists>ts. c_outputs c' = c_outputs c @ ts \<and> traded ts (resting_ids b) (resting_ids b')"
  using assms
proof (induction s beyond t q b c arbitrary: q' b' c' rule: match_loop.induct)
  case (1 s beyond t q b c)
  show ?case
  proof (cases "q = 0 \<or> best_price s b = None \<or> (\<exists>p. best_price s b = Some p \<and> beyond p)")
    case True
    then show ?thesis using 1(3) match_loop_stop [OF True, of t c] traded_Nil by auto
  next
    case False
    then obtain p where p: "best_price s b = Some p" "\<not> beyond p" "q \<noteq> 0" by auto
    have "levels_ok (side_of s b)" using 1(2) [unfolded book_mid_side [of _ _ s]] by simp
    then obtain l where "bt_get (side_of s b) p = Some l" using best_price_get p(1) by blast
    from fill_level_ok [OF 1(2) this, of t c] obtain q1 b1 c1 where f: "fill_level s p t q b c = Some (q1, b1, c1)" "book_mid q1 b1" by blast
    have "match_loop s beyond t q1 b1 c1 = Some (q', b', c')"
      using 1(3) match_loop_go [where p = p and beyond = beyond, OF p(3,1,2) f(1)] by simp
    from 1(1) [OF p(3,1,2) f(1) refl refl f(2) this] obtain us where
      us: "c_outputs c' = c_outputs c1 @ us" "traded us (resting_ids b1) (resting_ids b')" by blast
    obtain ts where ts: "c_outputs c1 = c_outputs c @ ts" "traded ts (resting_ids b) (resting_ids b1)"
      using fill_level_trades [OF 1(2) f(1)] by blast
    show ?thesis using us(1) ts(1) traded_trans [OF ts(2) us(2)] by (intro exI [of _ "ts @ us"]) simp
  qed
qed

text \<open>The events of a command, and which orders rest afterwards.\<close>

definition submitted :: "order_id \<Rightarrow> book_evt list \<Rightarrow> order_book \<Rightarrow> order_book \<Rightarrow> bool" where
  "submitted oid es b b' \<longleftrightarrow>
     (\<exists>why. es = [OrderRejected oid why]) \<and> b' = b \<or>
     (\<exists>ts J. es = Accepted oid # ts \<and> oid \<notin> resting_ids b \<and> traded ts (resting_ids b) J \<and>
        (resting_ids b' = J \<or> resting_ids b' = insert oid J))"

lemma book_submit_events:
  assumes "book_ok b" and "book_submit oid s price q expire_at b c = Some (b', c')"
  shows "\<exists>es. c_outputs c' = c_outputs c @ es \<and> submitted oid es b b'"
proof (cases "q = 0 \<or> bt_contains (ob_index b) oid")
  case True
  then have "book_submit oid s price q expire_at b c = Some (b, emit (OrderRejected oid (if q = 0 then ZeroQty else DuplicateId)) c)"
    by (auto simp: book_submit_def)
  then show ?thesis using assms(2) by (auto simp: submitted_def emit_def)
next
  case False
  let ?b = "b\<lparr>ob_accepted_shares := ob_accepted_shares b + ucast q\<rparr>"
  have mid: "book_mid q ?b" using assms(1) by (simp add: book_mid_def)
  from match_loop_ok [OF this, of "opp s" "past s price" oid "emit (Accepted oid) c"] obtain q1 b1 c1 where
    m: "match_loop (opp s) (past s price) oid q ?b (emit (Accepted oid) c) = Some (q1, b1, c1)" by blast
  from match_loop_trades [OF mid m] obtain ts where
    ts: "c_outputs c1 = c_outputs c @ Accepted oid # ts" "traded ts (resting_ids b) (resting_ids b1)" by (auto simp: emit_def)
  from book_submit_matched [of q b oid s price c q1 b1 c1 expire_at] False m assms(2)
  have r: "b' = rested oid s price q1 b1" "c_outputs c' = c_outputs c1" by (auto simp: set_timer_def split: option.splits)
  have "resting_ids b' = resting_ids b1 \<or> resting_ids b' = insert oid (resting_ids b1)" by (simp add: r rested_def)
  then show ?thesis using ts r(2) False
    by (intro exI [of _ "Accepted oid # ts"]) (auto simp: submitted_def bt_contains_iff)
qed

lemma unrest_index: "unrest oid s price b = Some (x, b') \<Longrightarrow> ob_index b' = bt_remove oid (ob_index b)"
  by (auto simp: unrest_def Let_def split: option.splits)

lemma book_cancel_events:
  assumes "book_cancel oid b c = Some (b', c')"
  shows "c_outputs c' = c_outputs c @ [OrderRejected oid UnknownOrder] \<and> b' = b \<and> oid \<notin> resting_ids b \<or>
    (\<exists>q. c_outputs c' = c_outputs c @ [Canceled oid q]) \<and> resting_ids b' = resting_ids b - {oid}"
proof (cases "bt_get (ob_index b) oid")
  case None
  then have "b' = b" "c' = emit (OrderRejected oid UnknownOrder) c" using assms by (simp_all add: book_cancel_def)
  then show ?thesis using None by (simp add: emit_def bt_get_None_iff)
next
  case (Some sp)
  obtain s p where sp: "sp = (s, p)" by force
  obtain x where x: "unrest oid s p b = Some (x, b')" "c' = emit (Canceled oid (rs_qty x)) (cancel_timer oid c)"
    using assms Some by (auto simp: book_cancel_def sp)
  have "resting_ids b' = resting_ids b - {oid}" using unrest_index [OF x(1)] by (auto simp: set_bt_remove)
  then show ?thesis using x(2) by (auto simp: emit_def cancel_timer_def)
qed

section \<open>Ownership\<close>

definition owns :: "(session, idset) btmap \<Rightarrow> session \<Rightarrow> order_id \<Rightarrow> bool" where
  "owns m ses oid \<longleftrightarrow> (\<exists>ids. bt_get m ses = Some ids \<and> bt_get ids oid \<noteq> None)"

definition owner_wf :: "exchange \<Rightarrow> bool" where
  "owner_wf x \<longleftrightarrow> bt_ok (ex_owners x) \<and> bt_ok (ex_owned x) \<and> (\<forall>ses ids. bt_get (ex_owned x) ses = Some ids \<longrightarrow> bt_ok ids) \<and>
     (\<forall>ses oid. owns (ex_owned x) ses oid \<longleftrightarrow> bt_get (ex_owners x) oid = Some ses)"

abbreviation owned_ids :: "exchange \<Rightarrow> order_id set" where
  "owned_ids x \<equiv> fst ` set (ex_owners x)"

lemma owner_wf_insert:
  assumes "owner_wf x" and "bt_get (ex_owners x) oid = None"
  shows "owner_wf (owned_insert origin oid (x\<lparr>ex_owners := bt_insert oid origin (ex_owners x)\<rparr>))"
proof -
  let ?ids = "case bt_get (ex_owned x) origin of Some ids \<Rightarrow> ids | None \<Rightarrow> []"
  have "bt_ok ?ids" using assms(1) by (auto simp: owner_wf_def split: option.split)
  moreover have "owns (bt_insert origin (bt_insert oid () ?ids) (ex_owned x)) ses k \<longleftrightarrow>
      (if k = oid then Some origin else bt_get (ex_owners x) k) = Some ses" for ses k
  proof -
    have o: "owns (ex_owned x) ses k \<longleftrightarrow> bt_get (ex_owners x) k = Some ses" for ses k using assms(1) by (simp add: owner_wf_def)
    have "owns (bt_insert origin (bt_insert oid () ?ids) (ex_owned x)) ses k \<longleftrightarrow>
        ses = origin \<and> k = oid \<or> owns (ex_owned x) ses k"
      by (auto simp: owns_def split: option.splits)
    then show ?thesis using o assms(2) by auto
  qed
  ultimately show ?thesis using assms(1) by (simp add: owner_wf_def owned_insert_def Let_def)
qed

lemma owner_wf_disown:
  assumes "owner_wf x"
  shows "owner_wf (disown oid x)" and "owned_ids (disown oid x) = owned_ids x - {oid}"
proof -
  have o: "owns (ex_owned x) ses k \<longleftrightarrow> bt_get (ex_owners x) k = Some ses" for ses k using assms by (simp add: owner_wf_def)
  show "owner_wf (disown oid x)"
  proof (cases "bt_get (ex_owners x) oid")
    case (Some owner)
    then obtain ids where ids: "bt_get (ex_owned x) owner = Some ids" using o [of owner oid] by (auto simp: owns_def)
    have "owns (bt_insert owner (bt_remove oid ids) (ex_owned x)) ses k \<longleftrightarrow> (if k = oid then None else bt_get (ex_owners x) k) = Some ses" for ses k
    proof -
      have "owns (bt_insert owner (bt_remove oid ids) (ex_owned x)) ses k \<longleftrightarrow>
          owns (ex_owned x) ses k \<and> \<not> (ses = owner \<and> k = oid)" using ids by (auto simp: owns_def)
      then show ?thesis using o Some by auto
    qed
    then show ?thesis using assms Some ids by (simp add: owner_wf_def disown_def owned_remove_def)
  qed (use assms in \<open>simp add: disown_def\<close>)
  show "owned_ids (disown oid x) = owned_ids x - {oid}"
    by (cases "bt_get (ex_owners x) oid") (auto simp: disown_def owned_remove_def set_bt_remove bt_get_None_iff split: option.split)
qed

lemma disown_other [simp]: "ex_book (disown oid x) = ex_book x" "ex_last_client_seq (disown oid x) = ex_last_client_seq x"
  by (auto simp: disown_def owned_remove_def split: option.split)

lemma owned_insert_other [simp]: "ex_book (owned_insert ses oid x) = ex_book x"
  "ex_last_client_seq (owned_insert ses oid x) = ex_last_client_seq x" "ex_owners (owned_insert ses oid x) = ex_owners x"
  by (simp_all add: owned_insert_def Let_def)

lemma route_trades:
  assumes "only_trades ts" and "owner_wf x" and "route_all origin ts x c = (x', c')"
  shows "owner_wf x' \<and> ex_book x' = ex_book x \<and> ex_last_client_seq x' = ex_last_client_seq x \<and>
    owned_ids x' = owned_ids x - {m \<in> makers ts. \<not> has_order (ex_book x) m}"
  using assms
proof (induction ts arbitrary: x c)
  case (Cons e ts)
  then obtain t m p q where e: "e = Trade t m p q" by (auto simp: only_trades_def)
  let ?x = "if has_order (ex_book x) m then x else disown m x"
  have wf: "owner_wf ?x" "ex_book ?x = ex_book x" "ex_last_client_seq ?x = ex_last_client_seq x" using Cons.prems(2) by (auto simp: owner_wf_disown)
  obtain c1 where c1: "route_all origin ts ?x c1 = (x', c')" using Cons.prems(3) by (auto simp: e Let_def)
  have "only_trades ts" using Cons.prems(1) by (simp add: e)
  from Cons.IH [OF this wf(1) c1] wf owner_wf_disown(2) [OF Cons.prems(2), of m] show ?case by (auto simp: e)
qed simp

definition ex_ok :: "exchange \<Rightarrow> bool" where
  "ex_ok x \<longleftrightarrow> book_ok (ex_book x) \<and> owner_wf x \<and> owned_ids x = resting_ids (ex_book x) \<and> bt_ok (ex_last_client_seq x)"

lemma submitted_routed:
  assumes "owner_wf x" and "owned_ids x = resting_ids b" and "submitted oid es b (ex_book x)" and "route_all origin es x c = (x', c')"
  shows "owner_wf x' \<and> ex_book x' = ex_book x \<and> ex_last_client_seq x' = ex_last_client_seq x \<and> owned_ids x' = resting_ids (ex_book x)"
proof (cases "\<exists>why. es = [OrderRejected oid why]")
  case True
  then have "ex_book x = b" "x' = x" using assms(3,4) by (auto simp: submitted_def)
  then show ?thesis using assms(1,2) by simp
next
  case False
  then obtain ts J where es: "es = Accepted oid # ts" "oid \<notin> resting_ids b" "traded ts (resting_ids b) J"
      "resting_ids (ex_book x) = J \<or> resting_ids (ex_book x) = insert oid J" using assms(3) by (auto simp: submitted_def)
  define x1 where "x1 = (if has_order (ex_book x) oid then owned_insert origin oid (x\<lparr>ex_owners := bt_insert oid origin (ex_owners x)\<rparr>) else x)"
  have "bt_get (ex_owners x) oid = None" using es(2) assms(2) by (simp add: bt_get_None_iff)
  then have wf: "owner_wf x1" "ex_book x1 = ex_book x" "ex_last_client_seq x1 = ex_last_client_seq x"
    using assms(1) by (auto simp: owner_wf_insert x1_def)
  obtain c1 where c1: "route_all origin ts x1 c1 = (x', c')" using assms(4) by (simp add: es Let_def x1_def [symmetric])
  have tr: "only_trades ts" "makers ts \<subseteq> resting_ids b" "J \<subseteq> resting_ids b" "resting_ids b - J \<subseteq> makers ts"
    using es(3) by (simp_all add: traded_def)
  have res: "has_order (ex_book x) k \<longleftrightarrow> k \<in> resting_ids (ex_book x)" for k by (simp add: has_order_def bt_contains_iff)
  have "owned_ids x1 = (if oid \<in> resting_ids (ex_book x) then insert oid (resting_ids b) else resting_ids b)"
    using assms(2) by (simp add: res x1_def)
  then have "owned_ids x1 - {m \<in> makers ts. m \<notin> resting_ids (ex_book x)} = resting_ids (ex_book x)"
    using tr es(2,4) by (auto split: if_splits)
  with route_trades [OF tr(1) wf(1) c1] wf show ?thesis by (simp add: res)
qed

section \<open>Every input keeps the invariant\<close>

lemma run_submit_ok:
  assumes "ex_ok x" and "\<And>b c. book_apply cmd b c = book_submit oid s price q e b c"
  shows "\<exists>x' c'. run_and_route sq ses cmd x c = Some (x', c') \<and> ex_ok x'"
proof -
  have ok: "book_ok (ex_book x)" "owner_wf x" "owned_ids x = resting_ids (ex_book x)" "bt_ok (ex_last_client_seq x)"
    using assms(1) by (simp_all add: ex_ok_def)
  from book_submit_ok [OF ok(1), of oid s price q e "ctx_new sq (c_now c)"] obtain b' cb where
    b: "book_submit oid s price q e (ex_book x) (ctx_new sq (c_now c)) = Some (b', cb)" "book_ok b'" by blast
  from book_submit_events [OF ok(1) b(1)] have sub: "submitted oid (c_outputs cb) (ex_book x) b'" by (simp add: ctx_new_def)
  let ?x = "x\<lparr>ex_book := b'\<rparr>"
  obtain x' c' where r: "route_all ses (c_outputs cb) ?x c = (x', c')" by force
  have "owner_wf ?x" using ok(2) by (simp add: owner_wf_def)
  from submitted_routed [OF this, of "ex_book x" oid "c_outputs cb" ses c x' c'] sub ok(3) r b(2) ok(4) have "ex_ok x'"
    by (simp add: ex_ok_def)
  then show ?thesis using b(1) r by (simp add: run_and_route_def run_book_def assms(2))
qed

lemma owners_disown: "ex_owners (disown oid x) = bt_remove oid (ex_owners x)"
  by (cases "bt_get (ex_owners x) oid") (auto simp: disown_def owned_remove_def bt_remove_absent split: option.split)

lemma run_cancel_ok:
  assumes "ex_ok x"
  shows "\<exists>x' c'. run_and_route sq ses (Cancel oid) x c = Some (x', c') \<and> ex_ok x' \<and> ex_owners x' = bt_remove oid (ex_owners x)"
proof -
  have ok: "book_ok (ex_book x)" "owner_wf x" "owned_ids x = resting_ids (ex_book x)" "bt_ok (ex_last_client_seq x)"
    using assms by (simp_all add: ex_ok_def)
  from book_apply_ok [OF ok(1), of "Cancel oid" "ctx_new sq (c_now c)"] obtain b' cb where
    b: "book_cancel oid (ex_book x) (ctx_new sq (c_now c)) = Some (b', cb)" "book_ok b'" by auto
  let ?x = "x\<lparr>ex_book := b'\<rparr>"
  have wf: "owner_wf ?x" using ok(2) by (simp add: owner_wf_def)
  from book_cancel_events [OF b(1)] show ?thesis
  proof
    assume r: "c_outputs cb = c_outputs (ctx_new sq (c_now c)) @ [OrderRejected oid UnknownOrder] \<and> b' = ex_book x \<and> oid \<notin> resting_ids (ex_book x)"
    then have "bt_get (ex_owners x) oid = None" using ok(3) by (simp add: bt_get_None_iff)
    then show ?thesis using r b(1) assms by (simp add: run_and_route_def run_book_def ctx_new_def bt_remove_absent)
  next
    assume "(\<exists>q. c_outputs cb = c_outputs (ctx_new sq (c_now c)) @ [Canceled oid q]) \<and> resting_ids b' = resting_ids (ex_book x) - {oid}"
    then obtain q where r: "c_outputs cb = [Canceled oid q]" "resting_ids b' = resting_ids (ex_book x) - {oid}" by (auto simp: ctx_new_def)
    have "ex_ok (disown oid ?x)" using owner_wf_disown [OF wf, of oid] ok(3,4) b(2) r(2) by (simp add: ex_ok_def)
    then show ?thesis using r(1) b(1) owners_disown [of oid ?x] by (simp add: run_and_route_def run_book_def)
  qed
qed

lemma ex_ok_lasts: "ex_ok x \<Longrightarrow> bt_ok m \<Longrightarrow> ex_ok (x\<lparr>ex_last_client_seq := m\<rparr>)"
  by (simp add: ex_ok_def owner_wf_def)

fun cmd_id :: "book_cmd \<Rightarrow> order_id" where
  "cmd_id (Submit oid s p q) = oid"
| "cmd_id (SubmitGtd oid s p q e) = oid"
| "cmd_id (Cancel oid) = oid"

definition client_lasts :: "session \<Rightarrow> exchange \<Rightarrow> (session, u64) btmap" where
  "client_lasts ses x = (if bt_contains (ex_last_client_seq x) ses then ex_last_client_seq x
     else bt_insert ses 0 (ex_last_client_seq x))"

definition client_last :: "session \<Rightarrow> exchange \<Rightarrow> u64" where
  "client_last ses x = (case bt_get (client_lasts ses x) ses of Some q \<Rightarrow> q | None \<Rightarrow> 0)"

definition client_entered :: "session \<Rightarrow> u64 \<Rightarrow> exchange \<Rightarrow> exchange" where
  "client_entered ses n x = x\<lparr>ex_last_client_seq := bt_insert ses n (client_lasts ses x)\<rparr>"

lemma apply_client_cases:
  "apply_client sq ses n cmd x c =
     (if n \<le> client_last ses x then Some (x\<lparr>ex_last_client_seq := client_lasts ses x\<rparr>, c)
      else if \<exists>oid. cmd = Cancel oid \<and> bt_get (ex_owners x) oid \<noteq> Some ses
      then Some (client_entered ses n x, emit \<lparr>ad_session = ses, ad_event = OrderRejected (cmd_id cmd) UnknownOrder\<rparr> c)
      else run_and_route sq ses cmd (client_entered ses n x) c)"
  by (cases cmd) (simp_all add: apply_client_def Let_def client_lasts_def [symmetric] client_last_def [symmetric]
    client_entered_def)

lemma ex_ok_client_lasts: "ex_ok x \<Longrightarrow> bt_ok (client_lasts ses x)"
  by (simp add: client_lasts_def ex_ok_def)

lemma apply_client_ok:
  assumes "ex_ok x"
  shows "\<exists>x' c'. apply_client sq ses n cmd x c = Some (x', c') \<and> ex_ok x'"
proof -
  have ok: "ex_ok (x\<lparr>ex_last_client_seq := client_lasts ses x\<rparr>)" "ex_ok (client_entered ses n x)"
    using ex_ok_client_lasts [OF assms] by (simp_all add: client_entered_def ex_ok_lasts [OF assms])
  have run: "\<exists>x' c'. run_and_route sq ses cmd (client_entered ses n x) c = Some (x', c') \<and> ex_ok x'"
  proof (cases cmd)
    case (Submit oid s price q)
    then show ?thesis by (intro run_submit_ok [OF ok(2)]) simp
  next
    case (SubmitGtd oid s price q e)
    then show ?thesis by (intro run_submit_ok [OF ok(2)]) simp
  next
    case (Cancel oid)
    then show ?thesis using run_cancel_ok [OF ok(2), of sq ses oid c] by blast
  qed
  then show ?thesis unfolding apply_client_cases using ok by (auto split: if_split)
qed

lemma cancel_all_ok:
  assumes "ex_ok x"
  shows "\<exists>x' c'. cancel_all sq ses oids x c = Some (x', c') \<and> ex_ok x' \<and> ex_owners x' = fold bt_remove oids (ex_owners x)"
  using assms
proof (induction oids arbitrary: x c)
  case (Cons oid oids)
  from run_cancel_ok [OF Cons.prems, of sq ses oid c] obtain x1 c1 where
    "run_and_route sq ses (Cancel oid) x c = Some (x1, c1)" "ex_ok x1" "ex_owners x1 = bt_remove oid (ex_owners x)" by blast
  with Cons.IH [of x1 c1] show ?case by auto
qed simp

lemma close_session_ok:
  assumes "ex_ok x"
  shows "\<exists>x' c'. close_session sq ses x c = Some (x', c') \<and> ex_ok x'"
proof -
  let ?ids = "case bt_get (ex_owned x) ses of Some ids \<Rightarrow> map fst ids | None \<Rightarrow> []"
  from cancel_all_ok [OF assms, of sq ses ?ids c] obtain x1 c1 where
    x1: "cancel_all sq ses ?ids x c = Some (x1, c1)" "ex_ok x1" "ex_owners x1 = fold bt_remove ?ids (ex_owners x)" by blast
  have wf: "owns (ex_owned x) s oid \<longleftrightarrow> bt_get (ex_owners x) oid = Some s" for s oid using assms by (simp add: ex_ok_def owner_wf_def)
  have wf1: "owns (ex_owned x1) s oid \<longleftrightarrow> bt_get (ex_owners x1) oid = Some s" for s oid using x1(2) by (simp add: ex_ok_def owner_wf_def)
  have get: "bt_get (fold bt_remove ks m) k = (if k \<in> set ks then None else bt_get m k)" for ks and m :: "(order_id, session) btmap" and k
    by (induction ks arbitrary: m) auto
  have gone: "bt_get (ex_owners x1) oid \<noteq> Some ses" for oid
  proof (cases "bt_get (ex_owners x) oid = Some ses")
    case True
    then obtain ids where "bt_get (ex_owned x) ses = Some ids" "bt_get ids oid \<noteq> None" using wf [of ses oid] by (auto simp: owns_def)
    then have "oid \<in> set ?ids" by (auto simp: bt_get_None_iff)
    then show ?thesis by (simp add: x1(3) get)
  next
    case False
    then show ?thesis by (simp add: x1(3) get)
  qed
  have "owns (bt_remove ses (ex_owned x1)) s oid \<longleftrightarrow> bt_get (ex_owners x1) oid = Some s" for s oid
    using wf1 [of s oid] gone [of oid] by (auto simp: owns_def)
  then have "ex_ok (x1\<lparr>ex_owned := bt_remove ses (ex_owned x1)\<rparr>)" using x1(2) by (auto simp: ex_ok_def owner_wf_def)
  then show ?thesis using x1(1) by (simp add: close_session_def)
qed

lemma exchange_apply_ok: "ex_ok x \<Longrightarrow> \<exists>x' c'. exchange_apply sq i x c = Some (x', c') \<and> ex_ok x'"
  by (cases i) (simp_all only: exchange_apply.simps apply_client_ok close_session_ok)

lemma ex_ok_genesis: "ex_ok (exchange_genesis cfg)"
  using book_ok_genesis by (simp add: ex_ok_def exchange_genesis_def owner_wf_def owns_def) (simp add: book_genesis_def)


section \<open>The invariant implies the check\<close>

definition owned_pairs :: "(session, idset) btmap \<Rightarrow> (order_id \<times> session) list" where
  "owned_pairs m = concat (map (\<lambda>(ses, ids). map (\<lambda>e. (fst e, ses)) ids) m)"

lemma length_owned_pairs: "sum_list (map (\<lambda>(ses, ids). length ids) m) = length (owned_pairs m)"
  by (induction m) (auto simp: owned_pairs_def)

lemma owned_pairs_set: "bt_ok m \<Longrightarrow> (oid, ses) \<in> set (owned_pairs m) \<longleftrightarrow> owns m ses oid"
  by (force simp: owned_pairs_def owns_def bt_get_Some_iff bt_get_None_iff)

lemma distinct_owned_pairs: "bt_ok m \<Longrightarrow> (\<And>ses ids. (ses, ids) \<in> set m \<Longrightarrow> bt_ok ids) \<Longrightarrow> distinct (owned_pairs m)"
proof (induction m)
  case (Cons e m)
  obtain ses ids where e: "e = (ses, ids)" by force
  have ok: "bt_ok m" "\<forall>k \<in> fst ` set m. ses < k" using Cons.prems(1) by (simp_all add: e bt_ok_Cons)
  have "distinct (map fst ids)" using Cons.prems(2) [of ses ids] by (simp add: e bt_ok_distinct)
  then have "distinct (map (\<lambda>e. (fst e, ses)) ids)" by (simp add: distinct_map inj_on_def)
  moreover have "snd p \<in> fst ` set m" if "p \<in> set (owned_pairs m)" for p using that by (force simp: owned_pairs_def)
  moreover have "distinct (owned_pairs m)" using Cons.prems(2) by (intro Cons.IH [OF ok(1)]) auto
  ultimately show ?case using ok(2) by (force simp: owned_pairs_def e)
qed (simp add: owned_pairs_def)

lemma distinct_same_length: "distinct xs \<Longrightarrow> distinct ys \<Longrightarrow> set xs = set ys \<Longrightarrow> length xs = length ys"
  by (metis distinct_card)

lemma bt_same_keys_length: "bt_ok m \<Longrightarrow> bt_ok m' \<Longrightarrow> fst ` set m = fst ` set m' \<Longrightarrow> length m = length m'"
  using distinct_same_length [OF bt_ok_distinct bt_ok_distinct, of m m'] by simp

lemma ex_ok_check:
  assumes "ex_ok x"
  shows "exchange_check x"
proof -
  have ok: "bt_ok (ex_owners x)" "bt_ok (ex_owned x)" "\<And>ses ids. bt_get (ex_owned x) ses = Some ids \<Longrightarrow> bt_ok ids"
    "\<And>ses oid. owns (ex_owned x) ses oid \<longleftrightarrow> bt_get (ex_owners x) oid = Some ses" "book_ok (ex_book x)"
    "owned_ids x = resting_ids (ex_book x)" using assms by (simp_all add: ex_ok_def owner_wf_def)
  have "set (owned_pairs (ex_owned x)) = set (ex_owners x)"
    using owned_pairs_set [OF ok(2)] ok(4) bt_get_Some_iff [OF ok(1)] by auto
  moreover have "distinct (owned_pairs (ex_owned x))"
    using ok(2,3) bt_get_Some_iff [OF ok(2)] by (intro distinct_owned_pairs) auto
  moreover have "distinct (ex_owners x)" using bt_ok_distinct [OF ok(1)] by (simp add: distinct_map)
  ultimately have "length (owned_pairs (ex_owned x)) = length (ex_owners x)" by (intro distinct_same_length) auto
  moreover have "bt_ok (ob_index (ex_book x))" using ok(5) by (simp add: book_mid_def)
  then have "length (ex_owners x) = resting_orders (ex_book x)"
    using bt_same_keys_length [OF ok(1) _ ok(6)] by (simp add: resting_orders_def)
  moreover have "has_order (ex_book x) oid \<and> (case bt_get (ex_owned x) owner of Some ids \<Rightarrow> bt_contains ids oid | None \<Rightarrow> False)"
    if "(oid, owner) \<in> set (ex_owners x)" for oid owner
  proof -
    have "oid \<in> resting_ids (ex_book x)" using that ok(6) by force
    moreover have "owns (ex_owned x) owner oid" using that ok(4) bt_get_Some_iff [OF ok(1)] by simp
    ultimately show ?thesis by (auto simp: has_order_def bt_contains_def owns_def simp flip: bt_contains_iff)
  qed
  ultimately show ?thesis using book_ok_check [OF ok(5)] by (auto simp: exchange_check_def length_owned_pairs)
qed


section \<open>The reverse index carries no information\<close>

definition core :: "exchange \<Rightarrow> exchange" where
  "core x = x\<lparr>ex_owned := []\<rparr>"

lemma core_iff: "core x = core y \<longleftrightarrow> ex_book x = ex_book y \<and> ex_owners x = ex_owners y \<and> ex_last_client_seq x = ex_last_client_seq y"
  by (cases x; cases y) (simp add: core_def)

lemma core_updates [simp]: "core (x\<lparr>ex_owned := m\<rparr>) = core x" "core (owned_insert ses oid x) = core x" "core (owned_remove ses oid x) = core x"
  by (auto simp: core_iff owned_insert_def owned_remove_def Let_def split: option.split)

lemma core_disown: "core x = core y \<Longrightarrow> core (disown oid x) = core (disown oid y)"
  by (cases "bt_get (ex_owners x) oid") (auto simp: core_iff disown_def owned_remove_def split: option.split)

lemma core_route:
  assumes "core x = core y"
  shows "core (fst (route origin e x c)) = core (fst (route origin e y c)) \<and> snd (route origin e x c) = snd (route origin e y c)"
proof -
  have eq: "ex_book x = ex_book y" "ex_owners x = ex_owners y" using assms by (simp_all add: core_iff)
  have own: "core (x\<lparr>ex_owners := m\<rparr>) = core (y\<lparr>ex_owners := m\<rparr>)" for m using assms by (simp add: core_iff)
  note rules = assms own core_disown [OF assms]
  show ?thesis
  proof (cases e)
    case (Accepted oid)
    have "core (if h then owned_insert origin oid (x\<lparr>ex_owners := m\<rparr>) else x) = core (if h then owned_insert origin oid (y\<lparr>ex_owners := m\<rparr>) else y)" for h m
      by (cases h) (simp_all only: rules if_True if_False core_updates)
    then show ?thesis by (simp only: Accepted route.simps Let_def eq fst_conv snd_conv simp_thms)
  next
    case (Trade t m p q)
    have "core (if h then x else disown m x) = core (if h then y else disown m y)" for h
      by (cases h) (simp_all only: rules if_True if_False)
    then show ?thesis by (simp only: Trade route.simps Let_def eq fst_conv snd_conv simp_thms)
  qed (simp_all only: rules route.simps fst_conv snd_conv simp_thms)
qed

lemma core_route_all:
  "core x = core y \<Longrightarrow> core (fst (route_all origin es x c)) = core (fst (route_all origin es y c)) \<and>
     snd (route_all origin es x c) = snd (route_all origin es y c)"
proof (induction es arbitrary: x y c)
  case (Cons e es)
  obtain x1 c1 y1 d1 where r: "route origin e x c = (x1, c1)" "route origin e y c = (y1, d1)" by (meson surj_pair)
  with core_route [OF Cons.prems, of origin e c] have "core x1 = core y1" "c1 = d1" by simp_all
  with Cons.IH [OF this(1), of d1] r show ?case by simp
qed simp

text \<open>Two runs that agree on everything but the reverse index.\<close>

definition same_run :: "(exchange \<times> 'c) option \<Rightarrow> (exchange \<times> 'c) option \<Rightarrow> bool" where
  "same_run r r' \<longleftrightarrow> map_option (map_prod core id) r = map_option (map_prod core id) r'"

lemma same_run_Some [simp]: "same_run (Some (x, c)) (Some (y, d)) \<longleftrightarrow> core x = core y \<and> c = d"
  by (simp add: same_run_def)

lemma core_run_and_route:
  assumes "core x = core y"
  shows "same_run (run_and_route sq ses cmd x c) (run_and_route sq ses cmd y c)"
proof -
  have b: "ex_book x = ex_book y" using assms by (simp add: core_iff)
  show ?thesis
  proof (cases "book_apply cmd (ex_book y) (ctx_new sq (c_now c))")
    case (Some r)
    obtain b' cb where r: "r = (b', cb)" by force
    have "core (x\<lparr>ex_book := b'\<rparr>) = core (y\<lparr>ex_book := b'\<rparr>)" using assms by (simp add: core_iff)
    from core_route_all [OF this, of ses "c_outputs cb" c] show ?thesis
      by (simp add: run_and_route_def run_book_def b Some r same_run_def prod_eq_iff)
  qed (simp add: run_and_route_def run_book_def b same_run_def)
qed

lemma core_apply_client:
  assumes "core x = core y"
  shows "same_run (apply_client sq ses n cmd x c) (apply_client sq ses n cmd y c)"
proof -
  have eq: "ex_owners x = ex_owners y" "client_lasts ses x = client_lasts ses y" "client_last ses x = client_last ses y"
    "core (client_entered ses n x) = core (client_entered ses n y)"
    using assms by (simp_all add: core_iff client_last_def client_lasts_def client_entered_def)
  show ?thesis unfolding apply_client_cases eq(1-3)
    using assms eq(4) core_run_and_route [OF eq(4), of sq ses cmd c] by (auto simp: core_iff)
qed

lemma same_run_cases:
  assumes "same_run r r'"
  obtains "r = None" "r' = None" | x y c where "r = Some (x, c)" "r' = Some (y, c)" "core x = core y"
  using assms by (cases r; cases r') (auto simp: same_run_def)

lemma core_cancel_all: "core x = core y \<Longrightarrow> same_run (cancel_all sq ses oids x c) (cancel_all sq ses oids y c)"
proof (induction oids arbitrary: x y c)
  case (Cons oid oids)
  from core_run_and_route [OF Cons.prems, of sq ses "Cancel oid" c] show ?case
  proof (cases rule: same_run_cases)
    case (2 x1 y1 c1)
    then show ?thesis using Cons.IH [OF 2(3), of c1] by simp
  qed (simp add: same_run_def)
qed simp

definition session_ids :: "session \<Rightarrow> exchange \<Rightarrow> order_id list" where
  "session_ids ses x = (case bt_get (ex_owned x) ses of Some ids \<Rightarrow> map fst ids | None \<Rightarrow> [])"

lemma session_ids_owners:
  assumes "owner_wf x"
  shows "session_ids ses x = map fst (filter (\<lambda>e. snd e = ses) (ex_owners x))"
proof (rule sorted_distinct_set_unique)
  have o: "owns (ex_owned x) ses oid \<longleftrightarrow> (oid, ses) \<in> set (ex_owners x)" for oid
    using assms by (simp add: owner_wf_def bt_get_Some_iff)
  have ids: "bt_ok ids" if "bt_get (ex_owned x) ses = Some ids" for ids using that assms by (simp add: owner_wf_def)
  show "sorted (session_ids ses x)" "distinct (session_ids ses x)"
    using ids by (auto simp: session_ids_def bt_ok_sorted bt_ok_distinct split: option.split)
  have f: "bt_ok (filter (\<lambda>e. snd e = ses) (ex_owners x))" using assms by (simp add: owner_wf_def)
  show "sorted (map fst (filter (\<lambda>e. snd e = ses) (ex_owners x)))" "distinct (map fst (filter (\<lambda>e. snd e = ses) (ex_owners x)))"
    using f by (simp_all add: bt_ok_sorted bt_ok_distinct)
  have "oid \<in> set (session_ids ses x) \<longleftrightarrow> (oid, ses) \<in> set (ex_owners x)" for oid
    unfolding o [symmetric] owns_def session_ids_def
    using bt_get_None_iff [of "the (bt_get (ex_owned x) ses)" oid] by (cases "bt_get (ex_owned x) ses") (simp, simp only: option.simps set_map, metis option.sel)
  then show "set (session_ids ses x) = set (map fst (filter (\<lambda>e. snd e = ses) (ex_owners x)))" by force
qed

lemma core_close_session:
  assumes "owner_wf x" and "owner_wf y" and "core x = core y"
  shows "same_run (close_session sq ses x c) (close_session sq ses y c)"
proof -
  have "session_ids ses x = session_ids ses y" using assms by (simp add: session_ids_owners core_iff)
  with core_cancel_all [OF assms(3), of sq ses "session_ids ses y" c] show ?thesis
    by (elim same_run_cases) (simp_all add: close_session_def session_ids_def [symmetric] same_run_def)
qed

lemma core_apply:
  assumes "ex_ok x" and "ex_ok y" and "core x = core y"
  shows "same_run (exchange_apply sq i x c) (exchange_apply sq i y c)"
  using assms by (cases i) (simp_all add: core_apply_client core_close_session ex_ok_def)


section \<open>Restoring a snapshot\<close>

definition own_step :: "order_id \<times> session \<Rightarrow> (session, idset) btmap \<Rightarrow> (session, idset) btmap" where
  "own_step = (\<lambda>(oid, ses) owned. bt_insert ses (bt_insert oid () (case bt_get owned ses of Some ids \<Rightarrow> ids | None \<Rightarrow> [])) owned)"

definition owned_wf :: "(session, idset) btmap \<Rightarrow> bool" where
  "owned_wf m \<longleftrightarrow> bt_ok m \<and> (\<forall>ses ids. bt_get m ses = Some ids \<longrightarrow> bt_ok ids)"

lemma own_step_wf: "owned_wf m \<Longrightarrow> owned_wf (own_step e m)"
  by (auto simp: owned_wf_def own_step_def split: prod.split option.split)

lemma own_step_owns: "owns (own_step e m) ses oid \<longleftrightarrow> owns m ses oid \<or> e = (oid, ses)"
  by (cases e) (auto simp: owns_def own_step_def split: option.splits)

lemma own_steps: "owned_wf m \<Longrightarrow> owned_wf (fold own_step es m) \<and>
    (\<forall>ses oid. owns (fold own_step es m) ses oid \<longleftrightarrow> owns m ses oid \<or> (oid, ses) \<in> set es)"
  by (induction es arbitrary: m) (auto simp: own_step_wf own_step_owns)

lemma rebuild_owned_wf: "bt_ok m \<Longrightarrow> owned_wf (rebuild_owned m) \<and> (owns (rebuild_owned m) ses oid \<longleftrightarrow> bt_get m oid = Some ses)"
proof -
  assume m: "bt_ok m"
  have "owned_wf []" "\<not> owns [] ses oid" by (simp_all add: owned_wf_def owns_def)
  with own_steps [of "[]" m] show ?thesis
    by (simp add: rebuild_owned_def own_step_def [symmetric] bt_get_Some_iff [OF m])
qed

lemma exchange_restore_snap:
  assumes "ex_ok x" and "small_book (ex_book x)"
  shows "\<exists>y. exchange_restore (exchange_snap x) () = Some y \<and> ex_ok y \<and> core y = core x"
proof -
  have ok: "bt_ok (ex_owners x)" "bt_ok (ex_last_client_seq x)" "book_ok (ex_book x)" "owned_ids x = resting_ids (ex_book x)"
    using assms(1) by (simp_all add: ex_ok_def owner_wf_def)
  obtain len where "codec enc_book_snapshot dec_book_snapshot len (\<lambda>x. wf_levels (bs_bids x) \<and> wf_levels (bs_asks x))"
    using codec_book_snapshot by blast
  then have "decode_all dec_book_snapshot (encode_to_vec enc_book_snapshot (take_snapshot (ex_book x))) = Ok (take_snapshot (ex_book x))"
    by (rule codec.decode_all_encode) (use assms(2) in \<open>simp add: take_snapshot_def small_book_def small_serialized\<close>)
  then have r: "exchange_restore (exchange_snap x) () = Some (x\<lparr>ex_owned := rebuild_owned (ex_owners x)\<rparr>)" (is "_ = Some ?y")
    using ok by (cases x) (simp add: exchange_restore_def exchange_snap_def restore_take_snapshot bt_collect_id)
  have "ex_ok ?y" using rebuild_owned_wf [OF ok(1)] ok by (simp add: ex_ok_def owner_wf_def owned_wf_def)
  with r show ?thesis by (intro exI [of _ ?y]) simp
qed

section \<open>Runs of the exchange\<close>

text \<open>A state of the exchange: genesis, any sequenced input, a restart from the exchange's own snapshot.\<close>

inductive exchange_run :: "exchange \<Rightarrow> bool" where
  start: "exchange_run (exchange_genesis ())"
| input: "exchange_run x \<Longrightarrow> exchange_apply sq i x c = Some (x', c') \<Longrightarrow> exchange_run x'"
| restart: "exchange_run x \<Longrightarrow> small_book (ex_book x) \<Longrightarrow> exchange_restore (exchange_snap x) () = Some y \<Longrightarrow> exchange_run y"

lemma exchange_run_ok: "exchange_run x \<Longrightarrow> ex_ok x"
proof (induction rule: exchange_run.induct)
  case start
  show ?case by (rule ex_ok_genesis)
next
  case (input x sq i c x' c')
  then show ?case using exchange_apply_ok [of x sq i c] by auto
next
  case (restart x y)
  then show ?case using exchange_restore_snap [of x] by auto
qed

text \<open>The outputs of a sequence of inputs, each with its sequence number and frame time.\<close>

fun exchange_feed :: "(seq \<times> timestamp \<times> book_cmd gateway_input) list \<Rightarrow> exchange \<Rightarrow> (book_evt addressed list list \<times> exchange) option" where
  "exchange_feed [] x = Some ([], x)"
| "exchange_feed ((sq, t, i) # ins) x =
     (case exchange_apply sq i x (ctx_new sq t) of
        None \<Rightarrow> None
      | Some (x, c) \<Rightarrow> map_option (\<lambda>(outs, x). (c_outputs c # outs, x)) (exchange_feed ins x))"

lemma core_feed:
  assumes "ex_ok x" and "ex_ok y" and "core x = core y"
  shows "\<exists>outs x' y'. exchange_feed ins x = Some (outs, x') \<and> exchange_feed ins y = Some (outs, y') \<and> core x' = core y'"
  using assms
proof (induction ins arbitrary: x y)
  case (Cons e ins)
  obtain sq t i where e: "e = (sq, t, i)" by (cases e)
  obtain x1 c1 y1 d1 where a: "exchange_apply sq i x (ctx_new sq t) = Some (x1, c1)" "ex_ok x1"
      "exchange_apply sq i y (ctx_new sq t) = Some (y1, d1)" "ex_ok y1"
    using exchange_apply_ok [OF Cons.prems(1)] exchange_apply_ok [OF Cons.prems(2)] by meson
  have "core x1 = core y1" "c1 = d1" using core_apply [OF Cons.prems, of sq i "ctx_new sq t"] a by simp_all
  with Cons.IH [OF a(2,4)] a(1,3) show ?case by (auto simp: e)
qed simp


lemma exchange_run_feed: "exchange_run x \<Longrightarrow> exchange_feed ins x = Some (outs, x') \<Longrightarrow> exchange_run x'"
proof (induction ins arbitrary: x outs)
  case (Cons e ins)
  obtain sq t i where e: "e = (sq, t, i)" by (cases e)
  with Cons.prems(2) obtain x1 c1 outs1 where "exchange_apply sq i x (ctx_new sq t) = Some (x1, c1)" "exchange_feed ins x1 = Some (outs1, x')"
    by (auto split: option.splits)
  then show ?case using Cons.IH exchange_run.input [OF Cons.prems(1)] by blast
qed simp

definition demo_submit :: "(seq \<times> timestamp \<times> book_cmd gateway_input) list" where
  "demo_submit = [(1, 0, Client 5 1 (Submit 7 Buy 100 10))]"

text \<open>C15. Ownership and residency never diverge: in every state the exchange can be in, through any sequence of
  client commands, disconnects, duplicates and restarts from its own snapshots, the invariant the simulator
  checks holds (every order of the owner map rests in the book and is in its owner's set, every resting
  order has exactly one owner, the reverse index holds nothing else, and the book itself is consistent), and no
  further input makes it panic.\<close>

theorem exchange_ownership:
  assumes "exchange_run x"
  shows "exchange_check x \<and> exchange_apply sq i x c \<noteq> None"
  using ex_ok_check [OF exchange_run_ok [OF assms]] exchange_apply_ok [OF exchange_run_ok [OF assms], of sq i c] by auto

theorem exchange_ownership_witness:
  "\<exists>x. exchange_run x \<and> ex_owners x = [(7, 5)] \<and> exchange_check x \<and> exchange_apply 2 (SessionClosed 5) x (ctx_new 2 0) \<noteq> None"
proof -
  have "map_option (\<lambda>r. ex_owners (snd r)) (exchange_feed demo_submit (exchange_genesis ())) = Some [(7, 5)]" by code_simp
  then obtain outs x where x: "exchange_feed demo_submit (exchange_genesis ()) = Some (outs, x)" "ex_owners x = [(7, 5)]" by auto
  have "exchange_run x" by (rule exchange_run_feed [OF exchange_run.start x(1)])
  with exchange_ownership [OF this, of 2 "SessionClosed 5" "ctx_new 2 0"] x(2) show ?thesis by blast
qed

text \<open>A restart is invisible: the state restored from a snapshot may differ in its reverse index (live
  states keep empty sets for sessions without orders), yet it answers every further sequence of inputs
  with the same addressed events, and its next snapshot is the same value.\<close>

theorem exchange_restart_invisible:
  assumes "exchange_run x" and "small_book (ex_book x)"
  shows "\<exists>y outs x' y'. exchange_restore (exchange_snap x) () = Some y \<and> exchange_feed ins x = Some (outs, x') \<and>
    exchange_feed ins y = Some (outs, y') \<and> exchange_snap x' = exchange_snap y'"
proof -
  have ok: "ex_ok x" by (rule exchange_run_ok [OF assms(1)])
  obtain y where y: "exchange_restore (exchange_snap x) () = Some y" "ex_ok y" "core y = core x"
    using exchange_restore_snap [OF ok assms(2)] by blast
  obtain outs x' y' where f: "exchange_feed ins x = Some (outs, x')" "exchange_feed ins y = Some (outs, y')" "core x' = core y'"
    using core_feed [OF ok y(2) y(3) [symmetric], of ins] by blast
  have "exchange_snap x' = exchange_snap y'" using f(3) by (simp add: core_iff exchange_snap_def)
  then show ?thesis using y(1) f(1,2) by blast
qed

theorem exchange_restart_invisible_witness:
  "\<exists>x y outs x' y'. exchange_run x \<and> ex_owned x = [(5, [])] \<and> exchange_restore (exchange_snap x) () = Some y \<and>
     exchange_feed [(3, 0, SessionClosed 5)] x = Some (outs, x') \<and> exchange_feed [(3, 0, SessionClosed 5)] y = Some (outs, y') \<and>
     exchange_snap x' = exchange_snap y'"
proof -
  have "map_option (\<lambda>r. (ex_owned (snd r), ob_bids (ex_book (snd r)), ob_asks (ex_book (snd r))))
      (exchange_feed (demo_submit @ [(2, 0, Client 5 2 (Cancel 7))]) (exchange_genesis ())) = Some ([(5, [])], [], [])" by code_simp
  then obtain outs x where x: "exchange_feed (demo_submit @ [(2, 0, Client 5 2 (Cancel 7))]) (exchange_genesis ()) = Some (outs, x)"
    "ex_owned x = [(5, [])]" "small_book (ex_book x)" by (auto simp: small_book_def small_side_def)
  have run: "exchange_run x" by (rule exchange_run_feed [OF exchange_run.start x(1)])
  from exchange_restart_invisible [OF run x(3), of "[(3, 0, SessionClosed 5)]"] obtain y outs' x' y' where
    "exchange_restore (exchange_snap x) () = Some y" "exchange_feed [(3, 0, SessionClosed 5)] x = Some (outs', x')"
    "exchange_feed [(3, 0, SessionClosed 5)] y = Some (outs', y')" "exchange_snap x' = exchange_snap y'" by (elim exE conjE)
  with run x(2) show ?thesis by (intro exI conjI)
qed


section \<open>What routing leaves alone\<close>

text \<open>Neither the sessions' command numbers nor the caller's timer requests.\<close>

definition frame_kept :: "exchange \<Rightarrow> 'o ctx \<Rightarrow> exchange \<times> 'o ctx \<Rightarrow> bool" where
  "frame_kept x c r \<longleftrightarrow> ex_last_client_seq (fst r) = ex_last_client_seq x \<and> c_timers (snd r) = c_timers c"

lemma frame_kept_refl [simp]: "frame_kept x c (x, c)"
  by (simp add: frame_kept_def)

lemma frame_kept_trans: "frame_kept x c (y, d) \<Longrightarrow> frame_kept y d r \<Longrightarrow> frame_kept x c r"
  by (simp add: frame_kept_def)

lemma route_kept: "frame_kept x c (route origin e x c)"
  by (cases e) (auto simp: frame_kept_def emit_def Let_def split: option.split)

lemma route_all_kept: "frame_kept x c (route_all origin es x c)"
proof (induction es arbitrary: x c)
  case (Cons e es)
  obtain y d where r: "route origin e x c = (y, d)" by force
  show ?case using frame_kept_trans [OF _ Cons.IH [of y d]] route_kept [of x c origin e] by (simp add: r)
qed simp

lemma run_and_route_kept: "run_and_route sq ses cmd x c = Some r \<Longrightarrow> frame_kept x c r"
proof -
  assume "run_and_route sq ses cmd x c = Some r"
  then obtain b es where "r = route_all ses es (x\<lparr>ex_book := b\<rparr>) c" by (auto simp: run_and_route_def run_book_def)
  then show ?thesis using route_all_kept [of "x\<lparr>ex_book := b\<rparr>" c ses es] by (simp add: frame_kept_def)
qed

lemma cancel_all_kept: "cancel_all sq ses oids x c = Some r \<Longrightarrow> frame_kept x c r"
proof (induction oids arbitrary: x c)
  case (Cons oid oids)
  then obtain y d where "run_and_route sq ses (Cancel oid) x c = Some (y, d)" "cancel_all sq ses oids y d = Some r"
    by (auto split: option.splits)
  then show ?case using run_and_route_kept Cons.IH frame_kept_trans by blast
qed auto

lemma exchange_apply_timers: "pred_option (\<lambda>r. c_timers (snd r) = c_timers c) (exchange_apply sq i x c)"
proof (cases i)
  case (Client ses n cmd)
  then show ?thesis using run_and_route_kept [of sq ses cmd "client_entered ses n x" c]
    by (auto simp: apply_client_cases frame_kept_def emit_def option.pred_set)
next
  case (SessionClosed ses)
  then show ?thesis using cancel_all_kept [of sq ses "session_ids ses x" x c]
    by (auto simp: close_session_def session_ids_def [symmetric] frame_kept_def option.pred_set)
qed

section \<open>Disconnects\<close>

abbreviation cancel_notice :: "session \<Rightarrow> order_id \<Rightarrow> qty \<Rightarrow> book_evt addressed" where
  "cancel_notice ses oid q \<equiv> \<lparr>ad_session = ses, ad_event = Canceled oid q\<rparr>"

text \<open>The quantity that an order has resting in the book.\<close>

definition resting_qty :: "order_book \<Rightarrow> order_id \<Rightarrow> qty" where
  "resting_qty b oid =
     (case find (\<lambda>e. rs_id (snd e) = oid) (priority Buy b @ priority Sell b) of Some e \<Rightarrow> rs_qty (snd e) | None \<Rightarrow> 0)"

lemma filter_is_remove1:
  assumes "x \<in> set l" and "\<not> Q x" and "\<forall>y \<in> set (remove1 x l). Q y"
  shows "filter Q l = remove1 x l"
proof -
  have "remove1 x (filter Q l) = filter Q l" using assms(2) by (intro remove1_idem) simp
  then have "filter Q l = filter Q (remove1 x l)" by (simp add: filter_remove1)
  also have "\<dots> = remove1 x l" using assms(3) by (intro filter_True) blast
  finally show ?thesis .
qed

lemma find_Some_in: "find P xs = Some x \<Longrightarrow> P x \<and> x \<in> set xs"
  by (induction xs) (auto split: if_splits)

lemma find_filter: "(\<And>x. P x \<Longrightarrow> Q x) \<Longrightarrow> find P (filter Q xs) = find P xs"
  by (induction xs) auto

lemma flat_member: "(p, x) \<in> set (flat m) \<longleftrightarrow> (\<exists>l. (p, l) \<in> set m \<and> x \<in> set l)"
  by (auto simp: flat_def)

lemma priority_member: "set (priority s b) = set (flat (side_of s b))"
  by (cases s) (auto simp: priority_def side_of_def flat_def)

lemma priority_indexed:
  assumes "book_mid q b" and "(p, x) \<in> set (priority s b)"
  shows "bt_get (ob_index b) (rs_id x) = Some (s, p)"
  using assms(2) indexed [OF assms(1)] by (auto simp: priority_member flat_member)

text \<open>Taking an order off the book leaves every other order where it was, on both sides.\<close>

lemma unrest_priority:
  assumes "book_ok b" and "bt_get (ob_index b) oid = Some (s, p)" and "unrest oid s p b = Some (x, b')"
  shows "priority t b' = filter (\<lambda>e. rs_id (snd e) \<noteq> oid) (priority t b)" and "resting_qty b oid = rs_qty x" and "book_ok b'"
proof -
  obtain l where l: "bt_get (side_of s b) p = Some l" "find (\<lambda>x. rs_id x = oid) l = Some x"
      "side_of s b' = put_level p (remove1 x l) (side_of s b)" "\<forall>u. u \<noteq> s \<longrightarrow> side_of u b' = side_of u b"
      "ob_index b' = bt_remove oid (ob_index b)"
    using assms(3) by (cases s) (auto simp: unrest_def Let_def side_of_def set_side_def split: option.splits side.splits)
  have x: "x \<in> set l" "rs_id x = oid" using l(2) by (auto simp: find_Some_iff)
  show ok': "book_ok b'" using unrest_ok [OF assms(1,2)] assms(3) by auto
  have gone: "rs_id y \<noteq> oid" if "(q, y) \<in> set (priority u b')" for u q y
    using priority_indexed [OF ok' that] by (auto simp: l(5))
  have mok: "bt_ok (side_of s b)" using assms(1) [unfolded book_mid_side [of _ _ s]] by simp
  then have "(p, l) \<in> set (side_of s b)" using l(1) by (simp add: bt_get_Some_iff)
  then obtain us vs where m: "side_of s b = us @ (p, l) # vs" by (meson split_list)
  have "bt_ok (us @ (p, l) # vs)" using mok m by simp
  from put_level_split [OF this, of "remove1 x l"] l(3) m
  have m': "flat (side_of s b') = flat us @ map (Pair p) (remove1 x l) @ flat vs"
    "flat (rev (side_of s b')) = flat (rev vs) @ map (Pair p) (remove1 x l) @ flat (rev us)" by auto
  have mem: "set (priority s b') = set (flat us) \<union> Pair p ` set (remove1 x l) \<union> set (flat vs)"
    by (auto simp: priority_member m'(1))
  have "rs_id y \<noteq> oid" if "y \<in> set (remove1 x l)" for y using gone [of p y s] that by (simp add: mem)
  then have rm: "filter (\<lambda>y. rs_id y \<noteq> oid) l = remove1 x l" using x by (intro filter_is_remove1) auto
  let ?Q = "\<lambda>e :: price \<times> resting. rs_id (snd e) \<noteq> oid"
  have "set (flat us) \<union> set (flat vs) \<subseteq> set (priority s b')" by (auto simp: mem)
  then have "?Q e" if "e \<in> set (flat us) \<union> set (flat vs)" for e using gone [of "fst e" "snd e" s] that by auto
  moreover have "set (flat (rev m)) = set (flat m)" for m by (simp add: flat_def)
  ultimately have keep: "filter ?Q (flat us) = flat us" "filter ?Q (flat vs) = flat vs"
      "filter ?Q (flat (rev us)) = flat (rev us)" "filter ?Q (flat (rev vs)) = flat (rev vs)"
    by (simp_all add: filter_True)
  have mid: "filter ?Q (map (Pair p) l) = map (Pair p) (remove1 x l)" by (simp add: filter_map comp_def rm)
  show pr: "priority t b' = filter ?Q (priority t b)" for t
  proof (cases "t = s")
    case True
    then show ?thesis using m m' keep mid by (cases s) (simp_all add: priority_def side_of_def)
  next
    case False
    then have "side_of t b' = side_of t b" using l(4) by blast
    then have "priority t b' = priority t b" by (cases t) (simp_all add: priority_def side_of_def)
    moreover have "?Q e" if "e \<in> set (priority t b')" for e using gone [of "fst e" "snd e" t] that by simp
    ultimately show ?thesis by (simp add: filter_True)
  qed
  have only: "y = x" if "(q, y) \<in> set (priority u b)" "rs_id y = oid" for u q y
  proof -
    have "u = s" "q = p" using priority_indexed [OF assms(1) that(1)] that(2) assms(2) by simp_all
    then have "(p, y) \<in> set (flat us) \<union> Pair p ` set l \<union> set (flat vs)" using that(1) by (auto simp: priority_member m)
    then have "y \<in> set l" using gone [of p y s] that(2) by (auto simp: mem)
    then show ?thesis using gone [of p y s] that(2) by (metis UnI1 UnI2 image_eqI in_set_remove1 mem)
  qed
  have "(p, x) \<in> set (priority s b)" using x(1) by (auto simp: priority_member m)
  then have "find (\<lambda>e. rs_id (snd e) = oid) (priority Buy b @ priority Sell b) \<noteq> None"
    using x(2) by (cases s) (auto simp: find_None_iff)
  then obtain e where e: "find (\<lambda>e. rs_id (snd e) = oid) (priority Buy b @ priority Sell b) = Some e" by auto
  have "rs_id (snd e) = oid" "e \<in> set (priority Buy b @ priority Sell b)" using find_Some_in [OF e] by simp_all
  then have "snd e = x" using only by (cases e) auto
  then show "resting_qty b oid = rs_qty x" using e by (simp add: resting_qty_def)
qed

lemma run_cancel_resting:
  assumes "ex_ok x" and "oid \<in> owned_ids x"
  shows "\<exists>x'. run_and_route sq ses (Cancel oid) x c = Some (x', emit (cancel_notice ses oid (resting_qty (ex_book x) oid)) c) \<and> ex_ok x' \<and>
    ex_owners x' = bt_remove oid (ex_owners x) \<and> ob_index (ex_book x') = bt_remove oid (ob_index (ex_book x)) \<and>
    (\<forall>t. priority t (ex_book x') = filter (\<lambda>e. rs_id (snd e) \<noteq> oid) (priority t (ex_book x)))"
proof -
  from run_cancel_ok [OF assms(1)] obtain x' c' where
    r: "run_and_route sq ses (Cancel oid) x c = Some (x', c')" "ex_ok x'" "ex_owners x' = bt_remove oid (ex_owners x)" by blast
  have ok: "book_ok (ex_book x)" and "oid \<in> resting_ids (ex_book x)" using assms by (simp_all add: ex_ok_def)
  then obtain s p where sp: "bt_get (ob_index (ex_book x)) oid = Some (s, p)"
    using bt_get_None_iff [of "ob_index (ex_book x)" oid] by (cases "bt_get (ob_index (ex_book x)) oid") auto
  from unrest_ok [OF ok sp] obtain y b' where u: "unrest oid s p (ex_book x) = Some (y, b')" by blast
  note pr = unrest_priority [OF ok sp u]
  have "x' = disown oid (x\<lparr>ex_book := b'\<rparr>)" "c' = emit (cancel_notice ses oid (rs_qty y)) c"
    using r(1) sp u by (auto simp: run_and_route_def run_book_def book_cancel_def emit_def cancel_timer_def ctx_new_def)
  then show ?thesis using r pr(1,2) unrest_index [OF u] by (intro exI [of _ x']) simp
qed

lemma resting_qty_other:
  assumes "\<forall>t. priority t b' = filter (\<lambda>e. rs_id (snd e) \<noteq> oid) (priority t b)" and "k \<noteq> oid"
  shows "resting_qty b' k = resting_qty b k"
proof -
  have "priority Buy b' @ priority Sell b' = filter (\<lambda>e. rs_id (snd e) \<noteq> oid) (priority Buy b @ priority Sell b)" using assms(1) by simp
  moreover have "find (\<lambda>e. rs_id (snd e) = k) (filter (\<lambda>e. rs_id (snd e) \<noteq> oid) es) = find (\<lambda>e. rs_id (snd e) = k) es" for es :: "(price \<times> resting) list"
    using assms(2) by (intro find_filter) auto
  ultimately show ?thesis unfolding resting_qty_def by metis
qed

lemma cancel_all_resting:
  assumes "ex_ok x" and "distinct oids" and "set oids \<subseteq> owned_ids x"
  shows "\<exists>x' c'. cancel_all sq ses oids x c = Some (x', c') \<and>
    ob_index (ex_book x') = fold bt_remove oids (ob_index (ex_book x)) \<and>
    (\<forall>t. priority t (ex_book x') = filter (\<lambda>e. rs_id (snd e) \<notin> set oids) (priority t (ex_book x))) \<and>
    c_outputs c' = c_outputs c @ map (\<lambda>oid. cancel_notice ses oid (resting_qty (ex_book x) oid)) oids"
  using assms
proof (induction oids arbitrary: x c)
  case (Cons oid oids)
  have "oid \<in> owned_ids x" using Cons.prems(3) by simp
  let ?c = "emit (cancel_notice ses oid (resting_qty (ex_book x) oid)) c"
  from run_cancel_resting [OF Cons.prems(1) \<open>oid \<in> owned_ids x\<close>] obtain x1 where
    r: "run_and_route sq ses (Cancel oid) x c = Some (x1, ?c)" "ex_ok x1"
      "ex_owners x1 = bt_remove oid (ex_owners x)" "ob_index (ex_book x1) = bt_remove oid (ob_index (ex_book x))"
      "\<forall>t. priority t (ex_book x1) = filter (\<lambda>e. rs_id (snd e) \<noteq> oid) (priority t (ex_book x))" by blast
  have "set oids \<subseteq> owned_ids x1" using Cons.prems(2,3) by (force simp: r(3) set_bt_remove)
  moreover have "distinct oids" using Cons.prems(2) by simp
  ultimately obtain x' c' where ih: "cancel_all sq ses oids x1 ?c = Some (x', c')"
      "ob_index (ex_book x') = fold bt_remove oids (ob_index (ex_book x1))"
      "\<forall>t. priority t (ex_book x') = filter (\<lambda>e. rs_id (snd e) \<notin> set oids) (priority t (ex_book x1))"
      "c_outputs c' = c_outputs ?c @ map (\<lambda>oid. cancel_notice ses oid (resting_qty (ex_book x1) oid)) oids"
    using Cons.IH [OF r(2), of ?c] by blast
  have "resting_qty (ex_book x1) k = resting_qty (ex_book x) k" if "k \<in> set oids" for k
    using that Cons.prems(2) by (intro resting_qty_other [OF r(5)]) auto
  then show ?case using r(1,4,5) ih by (simp add: emit_def conj_commute)
qed simp

text \<open>C25. Cancel on disconnect: closing a session of a reachable exchange takes exactly the resting orders that the session owns off the
  book, each reported once to it as cancelled with the quantity that it had resting, in ascending order of the ids. On both sides the book
  keeps every other order, with its quantity and its place in the priority order; the index and the owner map lose the same orders
  and nothing else, the session's own set is gone, and nobody else hears of it.\<close>

theorem cancel_on_disconnect:
  assumes "exchange_run x"
  shows "\<exists>x' c'. exchange_apply sq (SessionClosed ses) x c = Some (x', c') \<and>
    (\<forall>s. priority s (ex_book x') = filter (\<lambda>e. bt_get (ex_owners x) (rs_id (snd e)) \<noteq> Some ses) (priority s (ex_book x))) \<and>
    ob_index (ex_book x') = filter (\<lambda>e. bt_get (ex_owners x) (fst e) \<noteq> Some ses) (ob_index (ex_book x)) \<and>
    ex_owners x' = filter (\<lambda>e. snd e \<noteq> ses) (ex_owners x) \<and> bt_get (ex_owned x') ses = None \<and>
    ex_last_client_seq x' = ex_last_client_seq x \<and>
    c_outputs c' = c_outputs c @ map (\<lambda>oid. \<lparr>ad_session = ses, ad_event = Canceled oid (resting_qty (ex_book x) oid)\<rparr>)
      (map fst (filter (\<lambda>e. snd e = ses) (ex_owners x))) \<and> sorted (map fst (ex_owners x))"
proof -
  have ok: "ex_ok x" by (rule exchange_run_ok [OF assms])
  have ids: "session_ids ses x = map fst (filter (\<lambda>e. snd e = ses) (ex_owners x))"
    using ok by (simp add: ex_ok_def session_ids_owners)
  have m: "bt_ok (ex_owners x)" using ok by (simp add: ex_ok_def owner_wf_def)
  have owner: "oid \<in> set (session_ids ses x) \<longleftrightarrow> bt_get (ex_owners x) oid = Some ses" for oid
    using m by (force simp: ids bt_get_Some_iff)
  have "distinct (session_ids ses x)" "set (session_ids ses x) \<subseteq> owned_ids x" using m by (auto simp: ids bt_ok_distinct)
  then obtain x1 c' where r: "cancel_all sq ses (session_ids ses x) x c = Some (x1, c')"
      "ob_index (ex_book x1) = fold bt_remove (session_ids ses x) (ob_index (ex_book x))"
      "\<forall>t. priority t (ex_book x1) = filter (\<lambda>e. rs_id (snd e) \<notin> set (session_ids ses x)) (priority t (ex_book x))"
      "c_outputs c' = c_outputs c @ map (\<lambda>oid. cancel_notice ses oid (resting_qty (ex_book x) oid)) (session_ids ses x)"
    using cancel_all_resting [OF ok] by blast
  have o: "ex_owners x1 = fold bt_remove (session_ids ses x) (ex_owners x)" using cancel_all_ok [OF ok, of sq ses "session_ids ses x" c] r(1) by auto
  have rm: "fold bt_remove ks m = filter (\<lambda>e. fst e \<notin> set ks) m" for ks and m :: "(order_id, 'z) btmap"
    by (induction ks arbitrary: m) (auto simp: bt_remove_def conj_commute)
  have "ex_owners x1 = filter (\<lambda>e. fst e \<notin> set (session_ids ses x)) (ex_owners x)" by (simp add: o rm)
  also have "\<dots> = filter (\<lambda>e. snd e \<noteq> ses) (ex_owners x)"
    using m by (auto simp: owner bt_get_Some_iff intro!: filter_cong) (metis bt_get_Some_iff option.inject)
  finally have "ex_owners x1 = filter (\<lambda>e. snd e \<noteq> ses) (ex_owners x)" .
  moreover have "ob_index (ex_book x1) = filter (\<lambda>e. bt_get (ex_owners x) (fst e) \<noteq> Some ses) (ob_index (ex_book x))"
    by (simp add: r(2) rm owner)
  moreover have "ex_last_client_seq x1 = ex_last_client_seq x" using cancel_all_kept [OF r(1)] by (simp add: frame_kept_def)
  moreover have "\<forall>t. priority t (ex_book x1) = filter (\<lambda>e. bt_get (ex_owners x) (rs_id (snd e)) \<noteq> Some ses) (priority t (ex_book x))"
    using r(3) by (simp add: owner)
  ultimately show ?thesis using r(1,4) m unfolding ids
    by (intro exI [of _ "x1\<lparr>ex_owned := bt_remove ses (ex_owned x1)\<rparr>"] exI [of _ c'])
      (simp add: close_session_def session_ids_def [symmetric] ids bt_ok_sorted)
qed

text \<open>Two sessions with orders on the same side: the one that closes loses its order, the other keeps its own.\<close>

definition demo_two :: "(seq \<times> timestamp \<times> book_cmd gateway_input) list" where
  "demo_two = [(1, 0, Client 5 1 (Submit 7 Buy 100 10)), (2, 0, Client 6 1 (Submit 8 Buy 100 4))]"

theorem cancel_on_disconnect_witness:
  "\<exists>x x' c'. exchange_run x \<and> priority Buy (ex_book x) = [(100, \<lparr>rs_id = 7, rs_qty = 10\<rparr>), (100, \<lparr>rs_id = 8, rs_qty = 4\<rparr>)] \<and>
     exchange_apply 3 (SessionClosed 5) x (ctx_new 3 0) = Some (x', c') \<and>
     priority Buy (ex_book x') = [(100, \<lparr>rs_id = 8, rs_qty = 4\<rparr>)] \<and>
     c_outputs c' = [\<lparr>ad_session = 5, ad_event = Canceled 7 10\<rparr>]"
proof -
  have "map_option (\<lambda>r. (ex_owners (snd r), priority Buy (ex_book (snd r)), resting_qty (ex_book (snd r)) 7))
      (exchange_feed demo_two (exchange_genesis ())) =
    Some ([(7, 5), (8, 6)], [(100, \<lparr>rs_id = 7, rs_qty = 10\<rparr>), (100, \<lparr>rs_id = 8, rs_qty = 4\<rparr>)], 10)" by code_simp
  then obtain outs x where x: "exchange_feed demo_two (exchange_genesis ()) = Some (outs, x)" "ex_owners x = [(7, 5), (8, 6)]"
    "priority Buy (ex_book x) = [(100, \<lparr>rs_id = 7, rs_qty = 10\<rparr>), (100, \<lparr>rs_id = 8, rs_qty = 4\<rparr>)]" "resting_qty (ex_book x) 7 = 10" by auto
  have run: "exchange_run x" by (rule exchange_run_feed [OF exchange_run.start x(1)])
  from cancel_on_disconnect [OF run, of 3 5 "ctx_new 3 0"] obtain x' c' where
    r: "exchange_apply 3 (SessionClosed 5) x (ctx_new 3 0) = Some (x', c')"
      "priority Buy (ex_book x') = filter (\<lambda>e. bt_get (ex_owners x) (rs_id (snd e)) \<noteq> Some 5) (priority Buy (ex_book x))"
      "c_outputs c' = map (\<lambda>oid. \<lparr>ad_session = 5, ad_event = Canceled oid (resting_qty (ex_book x) oid)\<rparr>) [7]"
    by (auto simp: x(2) ctx_new_def)
  have "priority Buy (ex_book x') = [(100, \<lparr>rs_id = 8, rs_qty = 4\<rparr>)]" using r(2) by (simp add: x(2,3) bt_get_def)
  moreover have "c_outputs c' = [\<lparr>ad_session = 5, ad_event = Canceled 7 10\<rparr>]" using r(3) x(4) by simp
  ultimately show ?thesis using run x(3) r(1) by blast
qed

section \<open>Good-till-date orders\<close>

text \<open>A good-till-date order never expires at the exchange: \<open>run_book\<close> gives the inner book a timer list of its
  own and drops it, so a \<open>SubmitGtd\<close> has the effect of a \<open>Submit\<close> with the same fields whatever its expiry
  time, and no input of the exchange ever requests a timer.\<close>

theorem exchange_gtd_is_submit:
  "exchange_apply sq (Client ses n (SubmitGtd oid s price q expire_at)) x c = exchange_apply sq (Client ses n (Submit oid s price q)) x c \<and>
   pred_option (\<lambda>r. c_timers (snd r) = c_timers c) (exchange_apply sq i x c)"
proof -
  have "run_book sq (SubmitGtd oid s price q expire_at) t y = run_book sq (Submit oid s price q) t y" for t y
    by (auto simp: run_book_def book_submit_def Let_def set_timer_def split: side.split option.split)
  then show ?thesis using exchange_apply_timers by (simp add: apply_client_cases run_and_route_def)
qed

end
