(* ===== verification/Transport_Wire.thy ===== *)
theory Transport_Wire
  imports Journal_Props
begin

text \<open>
  \<open>ticktape-transport/src/wire.rs\<close> and the publishing half of \<open>net.rs\<close>: packets of frames,
  heartbeats, retransmit requests, the packing of frames into packets and the \<open>Publisher\<close>.
  The sockets are the parameter \<open>send_to\<close>. An index out of range, which panics, is \<open>None\<close>.
\<close>

section \<open>Layout\<close>

datatype transport_error =
    TransportIo io_error
  | TransportCorrupt string
  | TransportFrame frame_error
  | SessionMismatch u64 u64
  | GapUnrecoverable u64 u64

definition PACKET_MAGIC :: bytes where
  "PACKET_MAGIC = [0x54, 0x4B, 0x54, 0x57]"

definition RETRANSMIT_MAGIC :: bytes where
  "RETRANSMIT_MAGIC = [0x54, 0x4B, 0x54, 0x52]"

definition PACKET_HEADER_LEN :: nat where "PACKET_HEADER_LEN = 27"

definition REQUEST_LEN :: nat where "REQUEST_LEN = 28"

definition MAX_PACKET_BYTES :: nat where "MAX_PACKET_BYTES = 1400"

definition KIND_DATA :: u8 where "KIND_DATA = 0"

definition KIND_HEARTBEAT :: u8 where "KIND_HEARTBEAT = 1"

datatype packet =
    Data u64 "frame list"
  | HeartbeatPacket u64 seq

fun packet_session :: "packet \<Rightarrow> u64" where
  "packet_session (Data s _) = s"
| "packet_session (HeartbeatPacket s _) = s"

definition encode_header_into :: "u8 \<Rightarrow> u16 \<Rightarrow> u64 \<Rightarrow> u64 \<Rightarrow> bytes" where
  "encode_header_into kind count session first_seq =
     (let h = PACKET_MAGIC @ [kind] @ to_le_bytes count @ to_le_bytes session @ to_le_bytes first_seq
      in h @ to_le_bytes (crc32c h))"

definition data_packet_len :: "frame list \<Rightarrow> nat" where
  "data_packet_len frames = PACKET_HEADER_LEN + sum_list (map frame_encoded_len frames)"

text \<open>\<open>frames[0]\<close> of an empty slice panics.\<close>

definition encode_data_into :: "u64 \<Rightarrow> frame list \<Rightarrow> bytes option" where
  "encode_data_into session frames =
     (case frames of
        [] \<Rightarrow> None
      | f # _ \<Rightarrow>
          Some (encode_header_into KIND_DATA (of_nat (length frames)) session (f_seq f) @
            concat (map frame_write frames)))"

fun packet_encode :: "packet \<Rightarrow> bytes option" where
  "packet_encode (Data session frames) = encode_data_into session frames"
| "packet_encode (HeartbeatPacket session next_seq) = Some (encode_header_into KIND_HEARTBEAT 0 session next_seq)"

text \<open>The loop over \<open>0..count\<close>: the frames read and the rest of the buffer.\<close>

fun decode_frames :: "u64 \<Rightarrow> nat \<Rightarrow> bytes \<Rightarrow> (frame list \<times> bytes, transport_error) result" where
  "decode_frames expected 0 cursor = Ok ([], cursor)"
| "decode_frames expected (Suc n) cursor =
     (case frame_read cursor of
        Err e \<Rightarrow> Err (TransportFrame e)
      | Ok (f, cursor) \<Rightarrow>
          if f_seq f \<noteq> expected then Err (TransportCorrupt ''non-contiguous frames in packet'')
          else rbind (decode_frames (expected + 1) n cursor) (\<lambda>(fs, cursor). Ok (f # fs, cursor)))"

definition packet_decode :: "bytes \<Rightarrow> (packet, transport_error) result" where
  "packet_decode bs =
     (if length bs < PACKET_HEADER_LEN then Err (TransportCorrupt ''short packet header'')
      else if take 4 bs \<noteq> PACKET_MAGIC then Err (TransportCorrupt ''bad packet magic'')
      else if crc32c (take 23 bs) \<noteq> from_le_bytes (slice 23 27 bs)
      then Err (TransportCorrupt ''packet header CRC mismatch'')
      else
        let kind = bs ! 4; count = from_le_bytes (slice 5 7 bs) :: u16;
            session = from_le_bytes (slice 7 15 bs); first_seq = from_le_bytes (slice 15 23 bs)
        in if kind = KIND_HEARTBEAT then Ok (HeartbeatPacket session first_seq)
        else if kind = KIND_DATA
        then if count = 0 then Err (TransportCorrupt ''data packet with zero frames'')
          else rbind (decode_frames first_seq (unat count) (drop PACKET_HEADER_LEN bs)) (\<lambda>(frames, cursor).
            if cursor \<noteq> [] then Err (TransportCorrupt ''trailing bytes after frames'') else Ok (Data session frames))
        else Err (TransportCorrupt ''unknown packet kind''))"

record retransmit_request =
  rr_session :: u64
  rr_from :: seq
  rr_count :: u32

definition retransmit_encode :: "retransmit_request \<Rightarrow> bytes" where
  "retransmit_encode r =
     (let h = RETRANSMIT_MAGIC @ to_le_bytes (rr_session r) @ to_le_bytes (rr_from r) @ to_le_bytes (rr_count r)
      in h @ to_le_bytes (crc32c h))"

definition retransmit_decode :: "bytes \<Rightarrow> (retransmit_request, transport_error) result" where
  "retransmit_decode bs =
     (if length bs < REQUEST_LEN then Err (TransportCorrupt ''short retransmit request'')
      else if take 4 bs \<noteq> RETRANSMIT_MAGIC then Err (TransportCorrupt ''bad request magic'')
      else if crc32c (take 24 bs) \<noteq> from_le_bytes (slice 24 28 bs) then Err (TransportCorrupt ''request CRC mismatch'')
      else Ok \<lparr>rr_session = from_le_bytes (slice 4 12 bs), rr_from = from_le_bytes (slice 12 20 bs),
               rr_count = from_le_bytes (slice 20 24 bs)\<rparr>)"

section \<open>Packing and publishing\<close>

text \<open>\<open>window_end frames start end\<close>: the inner loop of \<open>pack_windows\<close>.\<close>

function window_end :: "frame list \<Rightarrow> nat \<Rightarrow> nat \<Rightarrow> nat" where
  "window_end frames start e =
     (if e < length frames then
        if e > start \<and> data_packet_len (slice start (e + 1) frames) > MAX_PACKET_BYTES then e
        else window_end frames start (e + 1)
      else e)"
  by auto
termination by (relation "measure (\<lambda>(frames, start, e). length frames - e)") auto

declare window_end.simps [simp del]

lemma window_end_ge: "e \<le> window_end frames start e"
proof (induction frames start e rule: window_end.induct)
  case (1 frames start e)
  show ?case by (subst window_end.simps) (use 1 in \<open>auto dest: Suc_leD\<close>)
qed

lemma window_end_progress: "start < length frames \<Longrightarrow> start < window_end frames start start"
  by (subst window_end.simps) (simp add: window_end_ge Suc_le_lessD)

function pack_windows :: "frame list \<Rightarrow> nat \<Rightarrow> frame list list" where
  "pack_windows frames start =
     (if start \<ge> length frames then []
      else let e = window_end frames start start in slice start e frames # pack_windows frames e)"
  by auto
termination
  by (relation "measure (\<lambda>(frames, start). length frames - start)")
    (auto intro!: diff_less_mono2 window_end_progress)

declare pack_windows.simps [simp del]

record 'a publisher_config =
  pc_session :: u64
  pc_dest_a :: 'a
  pc_dest_b :: "'a option"

record 'a publisher =
  pu_config :: "'a publisher_config"
  pu_next_seq :: u64

type_synonym ('a, 'w) send_to = "bytes \<Rightarrow> 'a \<Rightarrow> 'w \<Rightarrow> (unit, io_error) result \<times> 'w"

definition publisher_new :: "'a publisher_config \<Rightarrow> 'a publisher" where
  "publisher_new cfg = \<lparr>pu_config = cfg, pu_next_seq = 1\<rparr>"

definition send_buf :: "('a, 'w) send_to \<Rightarrow> 'a publisher_config \<Rightarrow> bytes \<Rightarrow> 'w \<Rightarrow> (unit, transport_error) result \<times> 'w" where
  "send_buf send cfg buf w =
     (case send buf (pc_dest_a cfg) w of
        (Err e, w) \<Rightarrow> (Err (TransportIo e), w)
      | (Ok _, w) \<Rightarrow>
          (case pc_dest_b cfg of
             None \<Rightarrow> (Ok (), w)
           | Some dest_b \<Rightarrow> (case send buf dest_b w of (r, w) \<Rightarrow> (map_err TransportIo r, w))))"

definition send_one :: "('a, 'w) send_to \<Rightarrow> 'a \<Rightarrow> bytes \<Rightarrow> 'w \<Rightarrow> (unit, transport_error) result \<times> 'w" where
  "send_one send dest buf w = (case send buf dest w of (r, w) \<Rightarrow> (map_err TransportIo r, w))"

text \<open>
  Publishing one frame, one window and a run of windows; \<open>out\<close> is how the buffer leaves, on
  both channels (\<open>publish\<close>, \<open>publish_batch\<close>) or to one destination (\<open>publish_to\<close>, \<open>publish_batch_to\<close>).
\<close>

definition publish_window ::
  "(bytes \<Rightarrow> 'w \<Rightarrow> (unit, transport_error) result \<times> 'w) \<Rightarrow> frame list \<Rightarrow> 'a publisher \<Rightarrow> 'w \<Rightarrow>
     ((unit, transport_error) result \<times> 'a publisher \<times> 'w) option"
where
  "publish_window out window pu w =
     (case encode_data_into (pc_session (pu_config pu)) window of
        None \<Rightarrow> None
      | Some buf \<Rightarrow> (case out buf w of (r, w) \<Rightarrow> Some (r, pu\<lparr>pu_next_seq := f_seq (last window) + 1\<rparr>, w)))"

fun publish_windows ::
  "(bytes \<Rightarrow> 'w \<Rightarrow> (unit, transport_error) result \<times> 'w) \<Rightarrow> frame list list \<Rightarrow> 'a publisher \<Rightarrow> 'w \<Rightarrow>
     ((unit, transport_error) result \<times> 'a publisher \<times> 'w) option"
where
  "publish_windows out [] pu w = Some (Ok (), pu, w)"
| "publish_windows out (window # windows) pu w =
     (case publish_window out window pu w of
        None \<Rightarrow> None
      | Some (Err e, pu, w) \<Rightarrow> Some (Err e, pu, w)
      | Some (Ok _, pu, w) \<Rightarrow> publish_windows out windows pu w)"

definition publish :: "('a, 'w) send_to \<Rightarrow> frame \<Rightarrow> 'a publisher \<Rightarrow> 'w \<Rightarrow>
    ((unit, transport_error) result \<times> 'a publisher \<times> 'w) option" where
  "publish send f pu = publish_window (send_buf send (pu_config pu)) [f] pu"

definition publish_to :: "('a, 'w) send_to \<Rightarrow> frame \<Rightarrow> 'a \<Rightarrow> 'a publisher \<Rightarrow> 'w \<Rightarrow>
    ((unit, transport_error) result \<times> 'a publisher \<times> 'w) option" where
  "publish_to send f dest = publish_window (send_one send dest) [f]"

definition publish_batch :: "('a, 'w) send_to \<Rightarrow> frame list \<Rightarrow> 'a publisher \<Rightarrow> 'w \<Rightarrow>
    ((unit, transport_error) result \<times> 'a publisher \<times> 'w) option" where
  "publish_batch send frames pu = publish_windows (send_buf send (pu_config pu)) (pack_windows frames 0) pu"

definition publish_batch_to :: "('a, 'w) send_to \<Rightarrow> frame list \<Rightarrow> 'a \<Rightarrow> 'a publisher \<Rightarrow> 'w \<Rightarrow>
    ((unit, transport_error) result \<times> 'a publisher \<times> 'w) option" where
  "publish_batch_to send frames dest = publish_windows (send_one send dest) (pack_windows frames 0)"

definition publisher_heartbeat :: "('a, 'w) send_to \<Rightarrow> 'a publisher \<Rightarrow> 'w \<Rightarrow> (unit, transport_error) result \<times> 'w" where
  "publisher_heartbeat send pu =
     send_buf send (pu_config pu) (encode_header_into KIND_HEARTBEAT 0 (pc_session (pu_config pu)) (pu_next_seq pu))"

definition publisher_heartbeat_to ::
  "('a, 'w) send_to \<Rightarrow> 'a \<Rightarrow> 'a publisher \<Rightarrow> 'w \<Rightarrow> (unit, transport_error) result \<times> 'w" where
  "publisher_heartbeat_to send dest pu =
     send_one send dest (encode_header_into KIND_HEARTBEAT 0 (pc_session (pu_config pu)) (pu_next_seq pu))"

section \<open>Round trips\<close>

text \<open>The packets that can be on the wire.\<close>

fun wf_packet :: "packet \<Rightarrow> bool" where
  "wf_packet (Data session frames) \<longleftrightarrow> frames \<noteq> [] \<and> length frames < 2 ^ 16 \<and> contiguous_from (f_seq (hd frames)) frames"
| "wf_packet (HeartbeatPacket session next_seq) \<longleftrightarrow> True"

lemma length_header [simp]: "length (encode_header_into k c s q) = 27"
  by (simp add: encode_header_into_def PACKET_MAGIC_def Let_def)

lemma header_slices:
  "take 4 (encode_header_into k c s q @ rest) = PACKET_MAGIC"
  "from_le_bytes (slice 23 27 (encode_header_into k c s q @ rest)) = crc32c (take 23 (encode_header_into k c s q @ rest))"
  "(encode_header_into k c s q @ rest) ! 4 = k"
  "from_le_bytes (slice 5 7 (encode_header_into k c s q @ rest)) = c"
  "from_le_bytes (slice 7 15 (encode_header_into k c s q @ rest)) = s"
  "from_le_bytes (slice 15 23 (encode_header_into k c s q @ rest)) = q"
  "drop 27 (encode_header_into k c s q @ rest) = rest"
  by (simp_all add: encode_header_into_def PACKET_MAGIC_def Let_def slice_def nth_append)

lemma decode_frames_append:
  "contiguous_from s fs \<Longrightarrow> decode_frames s (length fs) (concat (map frame_write fs) @ rest) = Ok (fs, rest)"
  by (induction fs arbitrary: s) (simp_all add: frame_read_write)

lemma decode_frames_Ok:
  "decode_frames s n bs = Ok (fs, rest) \<Longrightarrow> length fs = n \<and> contiguous_from s fs \<and> bs = concat (map frame_write fs) @ rest"
proof (induction n arbitrary: s bs fs)
  case (Suc n)
  from Suc.prems obtain f cur gs where f: "frame_read bs = Ok (f, cur)" "f_seq f = s"
      "decode_frames (s + 1) n cur = Ok (gs, rest)" "fs = f # gs"
    by (auto simp: rbind_Ok_iff split: result.splits prod.splits if_splits)
  with Suc.IH [OF f(3)] frame_read_canonical [OF f(1)] show ?case by simp
qed simp

lemma packet_decode_header:
  "packet_decode (encode_header_into k c s q @ rest) =
     (if k = KIND_HEARTBEAT then Ok (HeartbeatPacket s q)
      else if k = KIND_DATA
      then if c = 0 then Err (TransportCorrupt ''data packet with zero frames'')
        else rbind (decode_frames q (unat c) rest) (\<lambda>(frames, cursor).
          if cursor \<noteq> [] then Err (TransportCorrupt ''trailing bytes after frames'') else Ok (Data s frames))
      else Err (TransportCorrupt ''unknown packet kind''))"
  unfolding packet_decode_def header_slices PACKET_HEADER_LEN_def by simp

lemma packet_decode_encode: "wf_packet p \<Longrightarrow> \<exists>bs. packet_encode p = Some bs \<and> packet_decode bs = Ok p"
proof (induction p rule: packet.induct)
  case (Data session frames)
  then obtain f fs where fs: "frames = f # fs" "length frames < 2 ^ 16" "contiguous_from (f_seq f) frames"
    by (cases frames) auto
  have "(of_nat (length frames) :: u16) \<noteq> 0" and "unat (of_nat (length frames) :: u16) = length frames"
    using fs(1,2) unat_of_nat_small [of "length frames", where ?'a = 16] by (auto simp: word_unat_eq_iff)
  with decode_frames_append [OF fs(3), of "[]"] fs(1) show ?case
    by (simp add: encode_data_into_def packet_decode_header KIND_DATA_def KIND_HEARTBEAT_def)
next
  case (HeartbeatPacket session next_seq)
  show ?case using packet_decode_header [of KIND_HEARTBEAT 0 session next_seq "[]"] by simp
qed

lemma packet_decode_wf:
  assumes "packet_decode bs = Ok p"
  shows "wf_packet p"
proof (cases p)
  case (Data session frames)
  with assms obtain q and c :: u16 where c: "decode_frames q (unat c) (drop 27 bs) = Ok (frames, [])" "c \<noteq> 0"
    by (auto simp: packet_decode_def Let_def rbind_Ok_iff PACKET_HEADER_LEN_def split: if_splits)
  have "unat c < 2 ^ 16" using unat_bound [of c] by simp
  moreover have "unat c \<noteq> 0" using c(2) by (simp add: word_unat_eq_iff)
  ultimately show ?thesis using decode_frames_Ok [OF c(1)] by (cases frames) (auto simp: Data)
qed simp

lemma retransmit_decode_encode: "retransmit_decode (retransmit_encode r) = Ok r"
  by (simp add: retransmit_decode_def retransmit_encode_def Let_def RETRANSMIT_MAGIC_def REQUEST_LEN_def slice_def)

lemma length_retransmit_encode [simp]: "length (retransmit_encode r) = REQUEST_LEN"
  by (simp add: retransmit_encode_def Let_def RETRANSMIT_MAGIC_def REQUEST_LEN_def)

section \<open>Packing\<close>

lemma window_end_le: "e \<le> length frames \<Longrightarrow> window_end frames start e \<le> length frames"
proof (induction frames start e rule: window_end.induct)
  case (1 frames start e)
  show ?case by (subst window_end.simps) (use 1 in auto)
qed

lemma window_end_fits:
  assumes "start \<le> e" and "e \<le> length frames"
    and "e \<le> start + 1 \<or> data_packet_len (slice start e frames) \<le> MAX_PACKET_BYTES"
  shows "window_end frames start e \<le> start + 1 \<or>
    data_packet_len (slice start (window_end frames start e) frames) \<le> MAX_PACKET_BYTES"
  using assms
proof (induction frames start e rule: window_end.induct)
  case (1 frames start e)
  have "window_end frames start (e + 1) \<le> start + 1 \<or>
      data_packet_len (slice start (window_end frames start (e + 1)) frames) \<le> MAX_PACKET_BYTES"
    if "e < length frames" "\<not> (e > start \<and> data_packet_len (slice start (e + 1) frames) > MAX_PACKET_BYTES)"
    using 1(1) [OF that] 1(2-3) that by (auto simp: not_less)
  with 1(2-) show ?case by (subst (1 2) window_end.simps) auto
qed

lemma pack_windows_concat: "concat (pack_windows frames start) = drop start frames"
proof (induction frames start rule: pack_windows.induct)
  case (1 frames start)
  show ?case
  proof (cases "start \<ge> length frames")
    case False
    let ?e = "window_end frames start start"
    have e: "start < ?e" using False window_end_progress by simp
    have "slice start ?e frames @ drop ?e frames = drop start frames"
      using e by (simp add: slice_def) (metis append_take_drop_id drop_drop le_add_diff_inverse2 less_imp_le_nat)
    with 1 [OF False refl] False show ?thesis by (subst pack_windows.simps) (simp add: Let_def)
  qed (simp add: pack_windows.simps)
qed

lemma pack_windows_sizes:
  "window \<in> set (pack_windows frames start) \<Longrightarrow>
     window \<noteq> [] \<and> (length window = 1 \<or> data_packet_len window \<le> MAX_PACKET_BYTES)"
proof (induction frames start rule: pack_windows.induct)
  case (1 frames start)
  then have lt: "start < length frames" by (cases "start < length frames") (simp_all add: pack_windows.simps)
  let ?e = "window_end frames start start"
  have e: "start < ?e" "?e \<le> length frames" using lt window_end_progress window_end_le by simp_all
  from window_end_fits [of start start frames] lt have
    fits: "?e \<le> start + 1 \<or> data_packet_len (slice start ?e frames) \<le> MAX_PACKET_BYTES" by simp
  have "window = slice start ?e frames \<or> window \<in> set (pack_windows frames ?e)"
    using 1(2) lt by (subst (asm) pack_windows.simps) (simp add: Let_def)
  then show ?case
  proof
    assume "window = slice start ?e frames"
    with e fits show ?thesis by (auto simp flip: length_0_conv)
  qed (use 1(1) lt in auto)
qed

lemma data_packet_len_count: "data_packet_len fs \<ge> 27 + 32 * length fs"
  by (induction fs) (auto simp: data_packet_len_def PACKET_HEADER_LEN_def frame_encoded_len_def FRAME_HEADER_LEN_def)

end
