(* ===== verification/Reassembler.thy ===== *)
theory Reassembler
  imports Transport_Wire
begin

text \<open>
  \<open>ticktape-transport/src/reassembler.rs\<close> and the receiving half of \<open>net.rs\<close>: the reassembler, the
  receiver's poll loop with gap filling, the frame stores and the retransmitter. Sockets and
  clock are parameters of type \<open>net\<close> over a world \<open>'w\<close>. \<open>poll\<close> is a partial function: \<open>None\<close> is a
  loop that never reaches its deadline.
\<close>

section \<open>Reassembler\<close>

definition PENDING_CAP :: nat where "PENDING_CAP = 64 * 1024"

record reassembler =
  ra_session :: "u64 option"
  ra_next :: u64
  ra_pending :: "(u64, frame) btmap"
  ra_announced_next :: u64
  ra_packets_seen :: u64

definition reassembler_new :: "seq \<Rightarrow> reassembler" where
  "reassembler_new from_seq =
     (let start = max from_seq 1 in
      \<lparr>ra_session = None, ra_next = start, ra_pending = [], ra_announced_next = start, ra_packets_seen = 0\<rparr>)"

definition announced_high_water :: "reassembler \<Rightarrow> seq" where
  "announced_high_water r = saturating_pred (ra_announced_next r)"

text \<open>The body of the loop over the frames of a data packet.\<close>

definition ingest_frame :: "frame \<Rightarrow> reassembler \<Rightarrow> reassembler" where
  "ingest_frame f r =
     (let s = f_seq f; r = r\<lparr>ra_announced_next := max (ra_announced_next r) (s + 1)\<rparr> in
      if s < ra_next r \<or> bt_contains (ra_pending r) s then r
      else r\<lparr>ra_pending := bt_insert s f (ra_pending r)\<rparr>)"

text \<open>\<open>pop_last\<close> until the bound holds.\<close>

function trim_pending :: "(u64, frame) btmap \<Rightarrow> (u64, frame) btmap" where
  "trim_pending m = (if length m > PENDING_CAP then trim_pending (butlast m) else m)"
  by auto
termination by (relation "measure length") auto

declare trim_pending.simps [simp del]

definition ingest :: "packet \<Rightarrow> reassembler \<Rightarrow> (unit, transport_error) result \<times> reassembler" where
  "ingest p r =
     (let accept = (\<lambda>r.
        let r = r\<lparr>ra_packets_seen := ra_packets_seen r + 1\<rparr> in
        case p of
          HeartbeatPacket _ next_seq \<Rightarrow> (Ok (), r\<lparr>ra_announced_next := max (ra_announced_next r) next_seq\<rparr>)
        | Data _ frames \<Rightarrow>
            let r = fold ingest_frame frames r
            in (Ok (), r\<lparr>ra_pending := trim_pending (ra_pending r)\<rparr>)) in
      case ra_session r of
        None \<Rightarrow> accept (r\<lparr>ra_session := Some (packet_session p)\<rparr>)
      | Some expected \<Rightarrow>
          if expected \<noteq> packet_session p then (Err (SessionMismatch expected (packet_session p)), r)
          else accept r)"

definition next_frame :: "reassembler \<Rightarrow> frame option \<times> reassembler" where
  "next_frame r =
     (case bt_get (ra_pending r) (ra_next r) of
        None \<Rightarrow> (None, r)
      | Some f \<Rightarrow> (Some f, r\<lparr>ra_pending := bt_remove (ra_next r) (ra_pending r), ra_next := ra_next r + 1\<rparr>))"

definition gap :: "reassembler \<Rightarrow> (seq \<times> u64) option" where
  "gap r =
     (let until = (case bt_first (ra_pending r) of Some (k, _) \<Rightarrow> k | None \<Rightarrow> ra_announced_next r) in
      if until > ra_next r then Some (ra_next r, until - ra_next r) else None)"

section \<open>Receiver\<close>

record ('a, 'w) net =
  nt_recv_a :: "'w \<Rightarrow> (bytes option, io_error) result \<times> 'w"
  nt_recv_b :: "('w \<Rightarrow> (bytes option, io_error) result \<times> 'w) option"
  nt_exchange :: "'a \<Rightarrow> bytes \<Rightarrow> 'w \<Rightarrow> (bytes, io_error) result \<times> 'w"
  nt_expired :: "'w \<Rightarrow> bool \<times> 'w"

type_synonym ('b, 'w) rres = "('b, transport_error) result \<times> reassembler \<times> 'w"

definition saturating_sub :: "'a::len word \<Rightarrow> 'a word \<Rightarrow> 'a word" where
  "saturating_sub a b = (if b \<le> a then a - b else 0)"

text \<open>The loop over the length-prefixed packets of one reply: how many frames it served.\<close>

function ingest_reply :: "bytes \<Rightarrow> u64 \<Rightarrow> reassembler \<Rightarrow> (u64, transport_error) result \<times> reassembler" where
  "ingest_reply reply served r =
     (if reply = [] then (Ok served, r)
      else if length reply < 4 then (Err (TransportCorrupt ''truncated retransmit reply''), r)
      else
        let len = unat (from_le_bytes (take 4 reply) :: u32); body = drop 4 reply in
        if length body < len then (Err (TransportCorrupt ''truncated retransmit packet''), r)
        else case packet_decode (take len body) of
            Err e \<Rightarrow> (Err e, r)
          | Ok p \<Rightarrow>
              (case ingest p r of
                 (Err e, r) \<Rightarrow> (Err e, r)
               | (Ok _, r) \<Rightarrow>
                   ingest_reply (drop len body)
                     (case p of Data _ frames \<Rightarrow> served + of_nat (length frames) | _ \<Rightarrow> served) r))"
  by pat_completeness auto
termination by (relation "measure (\<lambda>(reply, served, r). length reply)") auto

declare ingest_reply.simps [simp del]

function fill_gap_loop ::
  "('a, 'w) net \<Rightarrow> 'a \<Rightarrow> u64 \<Rightarrow> seq \<Rightarrow> u64 \<Rightarrow> reassembler \<Rightarrow> 'w \<Rightarrow> (unit, 'w) rres"
where
  "fill_gap_loop N addr session wanted remaining r w =
     (if remaining = 0 then (Ok (), r, w)
      else
        let chunk = ucast (min remaining 0xFFFFFFFF) :: u32;
            request = \<lparr>rr_session = session, rr_from = wanted, rr_count = chunk\<rparr>
        in case nt_exchange N addr (retransmit_encode request) w of
            (Err e, w) \<Rightarrow> (Err (TransportIo e), r, w)
          | (Ok reply, w) \<Rightarrow>
              if reply = [] then (Err (GapUnrecoverable wanted remaining), r, w)
              else (case ingest_reply reply 0 r of
                  (Err e, r) \<Rightarrow> (Err e, r, w)
                | (Ok served, r) \<Rightarrow>
                    if served = 0 then (Err (GapUnrecoverable wanted remaining), r, w)
                    else fill_gap_loop N addr session (wanted + served) (saturating_sub remaining served) r w))"
  by pat_completeness auto
termination
  by (relation "measure (\<lambda>(N, addr, session, wanted, remaining, r, w). unat remaining)")
    (auto simp: saturating_sub_def unat_sub word_le_nat_alt word_unat_eq_iff)

declare fill_gap_loop.simps [simp del]

definition fill_gap :: "('a, 'w) net \<Rightarrow> 'a option \<Rightarrow> seq \<Rightarrow> u64 \<Rightarrow> reassembler \<Rightarrow> 'w \<Rightarrow> (unit, 'w) rres" where
  "fill_gap N retransmitter from_seq count r w =
     (case retransmitter of
        None \<Rightarrow> (Err (GapUnrecoverable from_seq count), r, w)
      | Some addr \<Rightarrow>
          fill_gap_loop N addr (case ra_session r of Some s \<Rightarrow> s | None \<Rightarrow> 0) from_seq count r w)"

definition recv_into ::
  "('w \<Rightarrow> (bytes option, io_error) result \<times> 'w) \<Rightarrow> reassembler \<Rightarrow> 'w \<Rightarrow> (unit, 'w) rres"
where
  "recv_into recv r w =
     (case recv w of
        (Err e, w) \<Rightarrow> (Err (TransportIo e), r, w)
      | (Ok None, w) \<Rightarrow> (Ok (), r, w)
      | (Ok (Some bs), w) \<Rightarrow>
          (case packet_decode bs of
             Err e \<Rightarrow> (Err e, r, w)
           | Ok p \<Rightarrow> (case ingest p r of (res, r) \<Rightarrow> (res, r, w))))"

text \<open>One turn of the poll loop: \<open>Some\<close> is a returned frame.\<close>

definition poll_turn :: "('a, 'w) net \<Rightarrow> 'a option \<Rightarrow> reassembler \<Rightarrow> 'w \<Rightarrow> (frame option, 'w) rres" where
  "poll_turn N retransmitter r w =
     (case recv_into (nt_recv_a N) r w of
        (Err e, r, w) \<Rightarrow> (Err e, r, w)
      | (Ok _, r, w) \<Rightarrow>
        (case (case nt_recv_b N of None \<Rightarrow> (Ok (), r, w) | Some recv_b \<Rightarrow> recv_into recv_b r w) of
           (Err e, r, w) \<Rightarrow> (Err e, r, w)
         | (Ok _, r, w) \<Rightarrow>
           (case next_frame r of
              (Some f, r) \<Rightarrow> (Ok (Some f), r, w)
            | (None, r) \<Rightarrow>
              (case gap r of
                 None \<Rightarrow> (Ok None, r, w)
               | Some (from_seq, count) \<Rightarrow>
                   (case fill_gap N retransmitter from_seq count r w of
                      (Err e, r, w) \<Rightarrow> (Err e, r, w)
                    | (Ok _, r, w) \<Rightarrow> (case next_frame r of (f, r) \<Rightarrow> (Ok f, r, w)))))))"

partial_function (option) poll_loop ::
  "('a, 'w) net \<Rightarrow> 'a option \<Rightarrow> reassembler \<Rightarrow> 'w \<Rightarrow> (frame option, 'w) rres option"
where
  "poll_loop N retransmitter r w =
     (case poll_turn N retransmitter r w of
        (Err e, r, w) \<Rightarrow> Some (Err e, r, w)
      | (Ok (Some f), r, w) \<Rightarrow> Some (Ok (Some f), r, w)
      | (Ok None, r, w) \<Rightarrow>
          (case nt_expired N w of
             (expired, w) \<Rightarrow> if expired then Some (Ok None, r, w) else poll_loop N retransmitter r w))"

definition poll :: "('a, 'w) net \<Rightarrow> 'a option \<Rightarrow> reassembler \<Rightarrow> 'w \<Rightarrow> (frame option, 'w) rres option" where
  "poll N retransmitter r w =
     (case next_frame r of
        (Some f, r) \<Rightarrow> Some (Ok (Some f), r, w)
      | (None, r) \<Rightarrow> poll_loop N retransmitter r w)"

section \<open>Stores and the retransmitter\<close>

record mem_store =
  ms_frames :: "frame list"
  ms_capacity :: nat

definition mem_with_capacity :: "nat \<Rightarrow> mem_store" where
  "mem_with_capacity capacity = \<lparr>ms_frames = [], ms_capacity = max capacity 1\<rparr>"

definition mem_new :: mem_store where
  "mem_new = mem_with_capacity (256 * 1024)"

text \<open>\<open>pop_front\<close> until the capacity holds.\<close>

function trim_front :: "nat \<Rightarrow> frame list \<Rightarrow> frame list" where
  "trim_front capacity fs = (if length fs > capacity then trim_front capacity (tl fs) else fs)"
  by auto
termination by (relation "measure (\<lambda>(capacity, fs). length fs)") auto

declare trim_front.simps [simp del]

definition mem_record :: "frame \<Rightarrow> mem_store \<Rightarrow> mem_store" where
  "mem_record f ms = ms\<lparr>ms_frames := trim_front (ms_capacity ms) (ms_frames ms @ [f])\<rparr>"

definition mem_range :: "seq \<Rightarrow> nat \<Rightarrow> mem_store \<Rightarrow> frame list" where
  "mem_range from_seq count ms =
     (case ms_frames ms of
        [] \<Rightarrow> []
      | f # _ \<Rightarrow> if from_seq < f_seq f then [] else take count (drop (unat (from_seq - f_seq f)) (ms_frames ms)))"

definition mem_high_water :: "mem_store \<Rightarrow> seq" where
  "mem_high_water ms = (if ms_frames ms = [] then 0 else f_seq (last (ms_frames ms)))"

definition mem_low_water :: "mem_store \<Rightarrow> seq" where
  "mem_low_water ms = (case ms_frames ms of [] \<Rightarrow> 1 | f # _ \<Rightarrow> f_seq f)"

text \<open>The rewinder opens the journal for each request, which may change the disk.\<close>

definition rewinder_range ::
  "('d, 'f) storage \<Rightarrow> nat \<Rightarrow> journal_config \<Rightarrow> seq \<Rightarrow> nat \<Rightarrow> 'd \<Rightarrow> frame list \<times> 'd"
where
  "rewinder_range S t cfg from_seq count d =
     (case journal_open_with S t cfg d of
        (Err _, d) \<Rightarrow> ([], d)
      | (Ok rec, d) \<Rightarrow> (take count (filter (\<lambda>f. f_seq f \<ge> from_seq) (re_frames rec)), d))"

definition rewinder_high_water :: "('d, 'f) storage \<Rightarrow> nat \<Rightarrow> journal_config \<Rightarrow> 'd \<Rightarrow> seq \<times> 'd" where
  "rewinder_high_water S t cfg d =
     (case journal_open_with S t cfg d of (Err _, d) \<Rightarrow> (GENESIS, d) | (Ok rec, d) \<Rightarrow> (j_last_seq (re_journal rec), d))"

definition rewinder_low_water :: "('d, 'f) storage \<Rightarrow> nat \<Rightarrow> journal_config \<Rightarrow> 'd \<Rightarrow> seq \<times> 'd" where
  "rewinder_low_water S t cfg d =
     (case journal_open_with S t cfg d of (Err _, d) \<Rightarrow> (1, d) | (Ok rec, d) \<Rightarrow> (re_first_seq rec, d))"

text \<open>A chain of two stores; a store is its \<open>range\<close> on its state.\<close>

type_synonym 's frame_range = "seq \<Rightarrow> nat \<Rightarrow> 's \<Rightarrow> frame list \<times> 's"

definition chain_range :: "'p frame_range \<Rightarrow> 'q frame_range \<Rightarrow> ('p \<times> 'q) frame_range" where
  "chain_range primary secondary from_seq count st =
     (let (fs, p) = primary from_seq count (fst st) in
      if map_option f_seq (case fs of [] \<Rightarrow> None | f # _ \<Rightarrow> Some f) = Some from_seq then (fs, p, snd st)
      else (let (fs, q) = secondary from_seq count (snd st) in (fs, p, q)))"

text \<open>\<open>chunks(8)\<close>, whose chunks are never empty, and the reply to one request.\<close>

function chunks :: "nat \<Rightarrow> 'b list \<Rightarrow> 'b list list" where
  "chunks n xs = (if xs = [] \<or> n = 0 then [] else take n xs # chunks n (drop n xs))"
  by auto
termination by (relation "measure (\<lambda>(n, xs). length xs)") auto

declare chunks.simps [simp del]

definition reply_packet :: "u64 \<Rightarrow> frame list \<Rightarrow> bytes" where
  "reply_packet session chunk =
     (case packet_encode (Data session chunk) of
        None \<Rightarrow> []
      | Some bs \<Rightarrow> to_le_bytes (of_nat (length bs) :: u32) @ bs)"

definition retransmitter_serve ::
  "'s frame_range \<Rightarrow> u64 \<Rightarrow> bytes \<Rightarrow> 's \<Rightarrow> (bytes, transport_error) result \<times> 's"
where
  "retransmitter_serve store session request_bytes st =
     (case retransmit_decode request_bytes of
        Err e \<Rightarrow> (Err e, st)
      | Ok request \<Rightarrow>
          if rr_session request \<noteq> session then (Err (SessionMismatch session (rr_session request)), st)
          else (case store (rr_from request) (unat (rr_count request)) st of
              (frames, st) \<Rightarrow> (Ok (concat (map (reply_packet session) (chunks 8 frames))), st)))"

text \<open>
  \<open>serve_forever\<close> ignores the result: a refused request closes the connection, and the client
  reads an empty reply.
\<close>

definition serve_exchange :: "'s frame_range \<Rightarrow> u64 \<Rightarrow> bytes \<Rightarrow> 's \<Rightarrow> (bytes, io_error) result \<times> 's" where
  "serve_exchange store session request_bytes st =
     (case retransmitter_serve store session request_bytes st of
        (Ok reply, st) \<Rightarrow> (Ok reply, st)
      | (Err _, st) \<Rightarrow> (Ok [], st))"

end
