(* ===== verification/Transport.thy ===== *)
theory Transport
  imports Reassembler
begin

text \<open>
  What the transport promises. The locale \<open>stream\<close> fixes the history that the sequencer
  published; a packet is genuine when what it says is true of that history. Loss, duplication
  and reordering are the freedom of the steps of \<open>ra_run\<close>. The locale \<open>frame_store\<close> is the contract
  of the stores that serve retransmissions, interpreted for the window in memory, the
  rewinder on the journal and the chain of the two.
\<close>

section \<open>The published history\<close>

definition genuine :: "frame list \<Rightarrow> packet \<Rightarrow> bool" where
  "genuine hist p \<longleftrightarrow>
     (case p of Data _ frames \<Rightarrow> set frames \<subseteq> set hist | HeartbeatPacket _ next_seq \<Rightarrow> unat next_seq \<le> length hist + 1)"

inductive ra_run :: "frame list \<Rightarrow> seq \<Rightarrow> reassembler \<Rightarrow> frame list \<Rightarrow> bool" for hist from_seq where
  ra_new: "ra_run hist from_seq (reassembler_new from_seq) []"
| ra_ingest: "ra_run hist from_seq r out \<Longrightarrow> genuine hist p \<Longrightarrow> ingest p r = (res, r') \<Longrightarrow> ra_run hist from_seq r' out"
| ra_next: "ra_run hist from_seq r out \<Longrightarrow> next_frame r = (Some f, r') \<Longrightarrow> ra_run hist from_seq r' (out @ [f])"

lemma unat_max_one: "1 \<le> unat (max s (1 :: u64))"
  by (simp add: max_def word_le_nat_alt)

locale stream =
  fixes hist :: "frame list"
  assumes contiguous: "contiguous_from 1 hist" and bounded: "length hist + 1 < 2 ^ 64"
begin

lemma seq_nth: "i < length hist \<Longrightarrow> unat (f_seq (hist ! i)) = Suc i"
  using contiguous_nth [OF contiguous, of i] bounded unat_of_nat_small [of "Suc i", where ?'a = 64] by simp

lemma hist_at: "f \<in> set hist \<Longrightarrow> hist ! (unat (f_seq f) - 1) = f \<and> 1 \<le> unat (f_seq f) \<and> unat (f_seq f) \<le> length hist"
  by (auto simp: in_set_conv_nth seq_nth)

lemma seq_inj: "f \<in> set hist \<Longrightarrow> g \<in> set hist \<Longrightarrow> f_seq f = f_seq g \<Longrightarrow> f = g"
  using hist_at by metis

lemma seq_succ: "f \<in> set hist \<Longrightarrow> unat (f_seq f + 1) = Suc (unat (f_seq f))"
  using hist_at [of f] bounded by (intro unat_plus_one) (auto simp: unsigned_minus_1_eq_mask mask_eq_exp_minus_1)

text \<open>What a reassembler holds: frames of the history at their numbers, not yet delivered, and announced.\<close>

definition holds :: "reassembler \<Rightarrow> bool" where
  "holds r \<longleftrightarrow> bt_ok (ra_pending r) \<and>
     (\<forall>(k, f) \<in> set (ra_pending r). f \<in> set hist \<and> k = f_seq f \<and> ra_next r \<le> k \<and> k < ra_announced_next r)"

lemma trim_pending_take: "trim_pending m = take PENDING_CAP m"
proof (induction m rule: trim_pending.induct)
  case (1 m)
  show ?case
  proof (cases "length m > PENDING_CAP")
    case True
    then have "take PENDING_CAP (butlast m) = take PENDING_CAP m" by (simp add: butlast_conv_take)
    with 1 True show ?thesis by (subst trim_pending.simps) simp
  qed (simp add: trim_pending.simps)
qed

text \<open>Feeding a reassembler delivers nothing and forgets neither an announcement nor the next frame.\<close>

definition fed :: "reassembler \<Rightarrow> reassembler \<Rightarrow> bool" where
  "fed r r' \<longleftrightarrow> ra_next r' = ra_next r \<and> ra_announced_next r \<le> ra_announced_next r' \<and>
     unat (ra_announced_next r') \<le> max (unat (ra_announced_next r)) (length hist + 1) \<and>
     (bt_contains (ra_pending r) (ra_next r) \<longrightarrow> bt_contains (ra_pending r') (ra_next r))"

lemma fed_refl [simp]: "fed r r"
  by (simp add: fed_def)

lemma fed_trans: "fed r r' \<Longrightarrow> fed r' r'' \<Longrightarrow> fed r r''"
  by (auto simp: fed_def)

lemma ingest_frame_fed:
  assumes "holds r" and "f \<in> set hist"
  shows "holds (ingest_frame f r)" and "fed r (ingest_frame f r)" and "f_seq f < ra_announced_next (ingest_frame f r)"
    and "ra_session (ingest_frame f r) = ra_session r"
    and "f_seq f = ra_next r \<Longrightarrow> bt_contains (ra_pending (ingest_frame f r)) (ra_next r)"
proof -
  have lt: "f_seq f < f_seq f + 1" and le: "unat (f_seq f + 1) \<le> length hist + 1"
    using seq_succ [OF assms(2)] hist_at [OF assms(2)] by (simp_all add: word_less_nat_alt)
  show "holds (ingest_frame f r)"
    using assms lt by (auto simp: ingest_frame_def holds_def Let_def set_bt_insert less_max_iff_disj not_less)
  show "f_seq f < ra_announced_next (ingest_frame f r)"
    using lt by (auto simp: ingest_frame_def Let_def less_max_iff_disj)
  show "fed r (ingest_frame f r)"
    using le by (auto simp: fed_def ingest_frame_def Let_def bt_contains_def max_def)
  show "f_seq f = ra_next r \<Longrightarrow> bt_contains (ra_pending (ingest_frame f r)) (ra_next r)"
    by (auto simp: ingest_frame_def bt_contains_def Let_def)
qed (simp add: ingest_frame_def Let_def)

lemma fold_fed:
  assumes "holds r" and "set fs \<subseteq> set hist"
  shows "holds (fold ingest_frame fs r) \<and> fed r (fold ingest_frame fs r) \<and>
    ra_session (fold ingest_frame fs r) = ra_session r \<and>
    (\<forall>f \<in> set fs. f_seq f < ra_announced_next (fold ingest_frame fs r) \<and>
      (f_seq f = ra_next r \<longrightarrow> bt_contains (ra_pending (fold ingest_frame fs r)) (ra_next r)))"
  using assms
proof (induction fs arbitrary: r)
  case (Cons f fs)
  have f: "f \<in> set hist" using Cons.prems by simp
  note h = ingest_frame_fed [OF Cons.prems(1) f]
  let ?r = "ingest_frame f r"
  have ih: "holds (fold ingest_frame fs ?r)" "fed ?r (fold ingest_frame fs ?r)"
      "ra_session (fold ingest_frame fs ?r) = ra_session ?r"
      "\<forall>f \<in> set fs. f_seq f < ra_announced_next (fold ingest_frame fs ?r) \<and>
        (f_seq f = ra_next ?r \<longrightarrow> bt_contains (ra_pending (fold ingest_frame fs ?r)) (ra_next ?r))"
    using Cons.IH [OF h(1)] Cons.prems(2) by auto
  have n: "ra_next ?r = ra_next r" using h(2) by (simp add: fed_def)
  have "f_seq f < ra_announced_next (fold ingest_frame fs ?r)"
    using h(3) ih(2) by (auto simp: fed_def elim: less_le_trans)
  moreover have "f_seq f = ra_next r \<longrightarrow> bt_contains (ra_pending (fold ingest_frame fs ?r)) (ra_next r)"
    using h(5) ih(2) n by (auto simp: fed_def)
  ultimately show ?case using ih(1,3,4) fed_trans [OF h(2) ih(2)] h(4) n by simp
qed simp

text \<open>Trimming keeps the least entries, and the next frame is the least of all.\<close>

lemma trim_keeps_next:
  assumes "holds r" and "bt_contains (ra_pending r) (ra_next r)"
  shows "bt_contains (trim_pending (ra_pending r)) (ra_next r)"
proof -
  from assms obtain f where f: "(ra_next r, f) \<in> set (ra_pending r)" by (auto simp: bt_contains_iff)
  then obtain k g m where m: "ra_pending r = (k, g) # m" by (cases "ra_pending r") auto
  have "ra_next r \<le> k" using assms(1) by (auto simp: holds_def m)
  moreover have "k \<le> ra_next r" using f assms(1) by (force simp: holds_def m bt_ok_Cons)
  ultimately have "k = ra_next r" by simp
  then show ?thesis by (simp add: trim_pending_take m bt_contains_iff PENDING_CAP_def)
qed

lemma holds_trim: "holds r \<Longrightarrow> holds (r\<lparr>ra_pending := trim_pending (ra_pending r)\<rparr>)"
  by (auto simp: holds_def trim_pending_take bt_ok_def take_map [symmetric] sorted_wrt_take dest!: in_set_takeD)

lemma ingest_accepts:
  assumes "ra_session r \<in> {None, Some (packet_session p)}"
  shows "ingest p r = (Ok (),
    let q = r\<lparr>ra_session := Some (packet_session p), ra_packets_seen := ra_packets_seen r + 1\<rparr> in
    case p of
      HeartbeatPacket _ next_seq \<Rightarrow> q\<lparr>ra_announced_next := max (ra_announced_next q) next_seq\<rparr>
    | Data _ fs \<Rightarrow> (let r = fold ingest_frame fs q in r\<lparr>ra_pending := trim_pending (ra_pending r)\<rparr>))"
  using assms by (cases r) (auto simp: ingest_def Let_def split: packet.split)

text \<open>One genuine packet, accepted or refused.\<close>

lemma ingest_fed:
  assumes "holds r" and "length (ra_pending r) \<le> PENDING_CAP" and "genuine hist p" and "ingest p r = (res, r')"
  shows "holds r' \<and> length (ra_pending r') \<le> PENDING_CAP \<and> fed r r'"
proof (cases "ra_session r \<in> {None, Some (packet_session p)}")
  case True
  define q where "q = r\<lparr>ra_session := Some (packet_session p), ra_packets_seen := ra_packets_seen r + 1\<rparr>"
  have q: "holds q" "fed r q" "length (ra_pending q) \<le> PENDING_CAP"
    using assms(1,2) by (simp_all add: q_def holds_def fed_def)
  show ?thesis
  proof (cases p)
    case (Data s fs)
    have sub: "set fs \<subseteq> set hist" using assms(3) by (simp add: genuine_def Data)
    note f = fold_fed [OF q(1) sub]
    let ?r = "fold ingest_frame fs q"
    have "r' = ?r\<lparr>ra_pending := trim_pending (ra_pending ?r)\<rparr>"
      using assms(4) ingest_accepts [OF True] by (simp add: Data q_def Let_def)
    moreover have "fed q (?r\<lparr>ra_pending := trim_pending (ra_pending ?r)\<rparr>)"
      using f trim_keeps_next [of ?r] by (auto simp: fed_def)
    ultimately show ?thesis
      using f holds_trim [of ?r] fed_trans [OF q(2)] by (auto simp: trim_pending_take)
  next
    case (HeartbeatPacket s nx)
    have "r' = q\<lparr>ra_announced_next := max (ra_announced_next q) nx\<rparr>"
      using assms(4) ingest_accepts [OF True] by (simp add: HeartbeatPacket q_def Let_def)
    with q assms(3) show ?thesis
      by (auto simp: holds_def fed_def genuine_def HeartbeatPacket less_max_iff_disj max_def)
  qed
next
  case False
  with assms show ?thesis by (auto simp: ingest_def Let_def split: option.splits if_splits)
qed

lemma ingest_data:
  assumes "holds r" and "set fs \<subseteq> set hist" and "ra_session r = Some session"
  shows "\<exists>r'. ingest (Data session fs) r = (Ok (), r') \<and> ra_session r' = Some session \<and>
    ((\<exists>f \<in> set fs. f_seq f = ra_next r) \<longrightarrow> bt_contains (ra_pending r') (ra_next r))"
proof -
  define q where "q = r\<lparr>ra_packets_seen := ra_packets_seen r + 1\<rparr>"
  have q: "holds q" using assms(1) by (simp add: q_def holds_def)
  let ?r = "fold ingest_frame fs q"
  have "ingest (Data session fs) r = (Ok (), ?r\<lparr>ra_pending := trim_pending (ra_pending ?r)\<rparr>)"
    using assms(3) by (simp add: ingest_def q_def Let_def)
  with fold_fed [OF q assms(2)] trim_keeps_next [of ?r] assms(3) show ?thesis by (auto simp: q_def fed_def)
qed

text \<open>Delivery of one frame.\<close>

lemma next_frame_Some:
  assumes "holds r" and "next_frame r = (Some f, r')"
  shows "f \<in> set hist" and "f_seq f = ra_next r" and "holds r'" and "unat (ra_next r') = Suc (unat (ra_next r))"
    and "ra_announced_next r' = ra_announced_next r" and "ra_next r < ra_announced_next r"
    and "length (ra_pending r') \<le> length (ra_pending r)"
proof -
  have n: "bt_get (ra_pending r) (ra_next r) = Some f"
      and r': "r' = r\<lparr>ra_pending := bt_remove (ra_next r) (ra_pending r), ra_next := ra_next r + 1\<rparr>"
    using assms(2) by (auto simp: next_frame_def split: option.splits)
  then have "(ra_next r, f) \<in> set (ra_pending r)" using assms(1) by (simp add: holds_def bt_get_Some_iff)
  then show f: "f \<in> set hist" "f_seq f = ra_next r" and lt: "ra_next r < ra_announced_next r"
    using assms(1) by (auto simp: holds_def)
  show u: "unat (ra_next r') = Suc (unat (ra_next r))" using seq_succ [OF f(1)] f(2) by (simp add: r')
  have "\<And>k. ra_next r \<le> k \<Longrightarrow> k \<noteq> ra_next r \<Longrightarrow> ra_next r + 1 \<le> k"
    using u by (auto simp: r' word_le_nat_alt word_unat_eq_iff)
  then show "holds r'" using assms(1) by (auto simp: holds_def r' set_bt_remove)
  show "ra_announced_next r' = ra_announced_next r" "length (ra_pending r') \<le> length (ra_pending r)"
    by (simp_all add: r' bt_remove_def)
qed

lemma next_frame_None: "next_frame r = (None, r') \<longleftrightarrow> r' = r \<and> \<not> bt_contains (ra_pending r) (ra_next r)"
  by (auto simp: next_frame_def bt_contains_def split: option.splits)

definition ra_inv :: "seq \<Rightarrow> reassembler \<Rightarrow> frame list \<Rightarrow> bool" where
  "ra_inv from_seq r out \<longleftrightarrow> holds r \<and> length (ra_pending r) \<le> PENDING_CAP \<and> ra_next r \<le> ra_announced_next r \<and>
     unat (ra_announced_next r) \<le> max (unat (max from_seq 1)) (length hist + 1) \<and>
     unat (ra_next r) = unat (max from_seq 1) + length out \<and> out = take (length out) (drop (unat (max from_seq 1) - 1) hist)"

lemma ra_inv_next:
  assumes "ra_inv from_seq r out" and "next_frame r = (Some f, r')"
  shows "ra_inv from_seq r' (out @ [f])"
proof -
  have h: "holds r" using assms(1) by (simp add: ra_inv_def)
  note n = next_frame_Some [OF h assms(2)]
  let ?s = "unat (max from_seq 1)"
  have s: "1 \<le> ?s" by (rule unat_max_one)
  have u: "unat (ra_next r) = ?s + length out" and out: "out = take (length out) (drop (?s - 1) hist)"
    using assms(1) by (simp_all add: ra_inv_def)
  have at: "hist ! (?s + length out - 1) = f" "?s + length out \<le> length hist"
    using hist_at [OF n(1)] n(2) u by auto
  then have "take (Suc (length out)) (drop (?s - 1) hist) = take (length out) (drop (?s - 1) hist) @ [f]"
    using s by (subst take_Suc_conv_app_nth) auto
  with out have "out @ [f] = take (length (out @ [f])) (drop (?s - 1) hist)" by simp
  moreover have "ra_next r' \<le> ra_announced_next r'"
    using n(4-6) by (simp add: word_le_nat_alt word_less_nat_alt)
  moreover have "unat (ra_next r') = ?s + length (out @ [f])" using n(4) u by simp
  moreover have "length (ra_pending r') \<le> PENDING_CAP" using assms(1) n(7) by (simp add: ra_inv_def)
  ultimately show ?thesis unfolding ra_inv_def using assms(1) n(3,5) by (simp only: ra_inv_def)
qed

lemma ra_run_inv: "ra_run hist from_seq r out \<Longrightarrow> ra_inv from_seq r out"
proof (induction rule: ra_run.induct)
  case ra_new
  show ?case by (simp add: ra_inv_def holds_def reassembler_new_def Let_def)
next
  case (ra_ingest r out p res r')
  then have "holds r' \<and> length (ra_pending r') \<le> PENDING_CAP \<and> fed r r'" by (intro ingest_fed) (auto simp: ra_inv_def)
  with ra_ingest.IH show ?case by (auto simp: ra_inv_def fed_def)
next
  case (ra_next r out f r')
  then show ?case by (intro ra_inv_next)
qed

text \<open>The gap that a reassembler reports.\<close>

lemma gap_Some:
  assumes "holds r" and "gap r = Some (s, c)"
  shows "s = ra_next r" and "0 < c" and "unat s + unat c \<le> unat (ra_announced_next r)"
    and "\<And>k. unat k < unat s + unat c \<Longrightarrow> \<not> bt_contains (ra_pending r) k"
proof -
  define u where "u = (case bt_first (ra_pending r) of Some (k, _) \<Rightarrow> k | None \<Rightarrow> ra_announced_next r)"
  have g: "s = ra_next r" "c = u - ra_next r" "ra_next r < u"
    using assms(2) by (auto simp: gap_def Let_def u_def [symmetric] split: if_splits)
  have sum: "unat s + unat c = unat u" using g by (simp add: unat_sub word_less_nat_alt word_le_nat_alt)
  have u: "u \<le> ra_announced_next r \<and> (\<forall>(k, f) \<in> set (ra_pending r). u \<le> k)"
    using assms(1) by (cases "ra_pending r") (fastforce simp: u_def bt_first_def holds_def bt_ok_Cons)+
  then show "unat s + unat c \<le> unat (ra_announced_next r)" by (simp add: sum word_le_nat_alt)
  show "\<not> bt_contains (ra_pending r) k" if "unat k < unat s + unat c" for k
    using u that by (auto simp: sum bt_contains_iff word_le_nat_alt)
  show "s = ra_next r" "0 < c" using g by (simp_all add: word_gt_0)
qed

lemma gap_None:
  assumes "holds r" and "ra_next r \<le> ra_announced_next r" and "gap r = None" and "next_frame r = (None, r')"
  shows "ra_announced_next r = ra_next r"
proof (cases "ra_pending r")
  case Nil
  with assms(2,3) show ?thesis by (auto simp: gap_def bt_first_def Let_def split: if_splits)
next
  case (Cons e m)
  obtain k f where e: "e = (k, f)" by fastforce
  have "k \<le> ra_next r" using assms(3) by (auto simp: gap_def bt_first_def Cons e Let_def split: if_splits)
  moreover have "ra_next r \<le> k" using assms(1) by (auto simp: holds_def Cons e)
  ultimately have "k = ra_next r" by simp
  with assms(4) show ?thesis by (simp add: next_frame_None bt_contains_iff Cons e)
qed

text \<open>A reply of the retransmitter is read back packet by packet.\<close>

definition ready :: "u64 \<Rightarrow> reassembler \<Rightarrow> bool" where
  "ready session r \<longleftrightarrow> holds r \<and> length (ra_pending r) \<le> PENDING_CAP \<and> ra_session r = Some session"

lemma ingest_ready:
  assumes "ready session r" and "set fs \<subseteq> set hist"
  shows "\<exists>r'. ingest (Data session fs) r = (Ok (), r') \<and> ready session r' \<and> fed r r' \<and>
    ((\<exists>f \<in> set fs. f_seq f = ra_next r) \<longrightarrow> bt_contains (ra_pending r') (ra_next r))"
proof -
  have r: "holds r" "length (ra_pending r) \<le> PENDING_CAP" "ra_session r = Some session" using assms(1) by (simp_all add: ready_def)
  from ingest_data [OF r(1) assms(2) r(3)] obtain r' where r': "ingest (Data session fs) r = (Ok (), r')" "ra_session r' = Some session"
      "(\<exists>f \<in> set fs. f_seq f = ra_next r) \<longrightarrow> bt_contains (ra_pending r') (ra_next r)" by blast
  moreover have "holds r' \<and> length (ra_pending r') \<le> PENDING_CAP \<and> fed r r'"
    by (rule ingest_fed [OF r(1,2) _ r'(1)]) (simp add: genuine_def assms(2))
  ultimately show ?thesis by (auto simp: ready_def)
qed

lemma ingest_reply_packet:
  assumes "packet_encode p = Some bs" and "packet_decode bs = Ok p" and "length bs < 2 ^ 32"
    and "ingest p r = (Ok (), r')"
  shows "ingest_reply ((to_le_bytes (of_nat (length bs) :: u32) @ bs) @ rest) served r =
    ingest_reply rest (case p of Data _ frames \<Rightarrow> served + of_nat (length frames) | _ \<Rightarrow> served) r'"
proof -
  have "unat (of_nat (length bs) :: u32) = length bs" using assms(3) by (intro unat_of_nat_small) simp
  moreover have "to_le_bytes (of_nat (length bs) :: u32) \<noteq> []" by (simp flip: length_0_conv)
  ultimately show ?thesis using assms by (subst ingest_reply.simps) (simp add: Let_def)
qed

lemma data_packet_bound:
  assumes "list_all frame_valid fs" and "length fs \<le> 8" and "packet_encode (Data session fs) = Some bs"
  shows "length bs < 2 ^ 32"
proof -
  have "length (concat (map frame_write fs)) \<le> length fs * 67108896"
    using assms(1) by (induction fs) (auto simp: frame_valid_def)
  also have "\<dots> \<le> 8 * 67108896" using assms(2) by (intro mult_right_mono) simp_all
  finally show ?thesis using assms(3) by (cases fs) (auto simp: encode_data_into_def simp del: concat.simps list.map)
qed

lemma ingest_reply_chunks:
  assumes "ready session r" and "set fs \<subseteq> set hist" and "contiguous_from q fs"
  shows "\<exists>r'. ingest_reply (concat (map (reply_packet session) (chunks 8 fs))) served r = (Ok (served + of_nat (length fs)), r') \<and>
    ready session r' \<and> fed r r' \<and> ((\<exists>f \<in> set fs. f_seq f = ra_next r) \<longrightarrow> bt_contains (ra_pending r') (ra_next r))"
  using assms
proof (induction "8 :: nat" fs arbitrary: r q served rule: chunks.induct)
  case (1 fs)
  show ?case
  proof (cases "fs = []")
    case True
    with 1(2) show ?thesis by (simp add: chunks.simps [of _ "[]"] ingest_reply.simps)
  next
    case False
    let ?c = "take 8 fs"
    have cont: "contiguous_from q ?c" "contiguous_from (q + of_nat (length ?c)) (drop 8 fs)"
      using 1(4) contiguous_append [of q ?c "drop 8 fs"] by simp_all
    have wf: "wf_packet (Data session ?c)" using cont(1) False by (cases fs) auto
    from packet_decode_encode [OF this] obtain bs where
      bs: "packet_encode (Data session ?c) = Some bs" "packet_decode bs = Ok (Data session ?c)" by blast
    have len: "length bs < 2 ^ 32"
      using data_packet_bound [OF _ _ bs(1)] contiguous_valid [OF cont(1)] by (simp add: list_all_iff)
    have sub: "set ?c \<subseteq> set hist" "set (drop 8 fs) \<subseteq> set hist"
      using 1(3) set_take_subset set_drop_subset by fastforce+
    from ingest_ready [OF 1(2) sub(1)] obtain r1 where
      r1: "ingest (Data session ?c) r = (Ok (), r1)" "ready session r1" "fed r r1"
        "(\<exists>f \<in> set ?c. f_seq f = ra_next r) \<longrightarrow> bt_contains (ra_pending r1) (ra_next r)" by blast
    from 1(1) [OF _ r1(2) sub(2) cont(2), of "served + of_nat (length ?c)"] False obtain r2 where
      r2: "ingest_reply (concat (map (reply_packet session) (chunks 8 (drop 8 fs)))) (served + of_nat (length ?c)) r1 =
          (Ok (served + of_nat (length ?c) + of_nat (length (drop 8 fs))), r2)" "ready session r2" "fed r1 r2"
        "(\<exists>f \<in> set (drop 8 fs). f_seq f = ra_next r1) \<longrightarrow> bt_contains (ra_pending r2) (ra_next r1)" by auto
    have n: "ra_next r1 = ra_next r" using r1(3) by (simp add: fed_def)
    have sum: "served + of_nat (length ?c) + of_nat (length (drop 8 fs)) = served + of_nat (length fs)"
      by (simp only: add.assoc of_nat_add [symmetric] length_append [symmetric] append_take_drop_id)
    have "concat (map (reply_packet session) (chunks 8 fs)) =
        (to_le_bytes (of_nat (length bs) :: u32) @ bs) @ concat (map (reply_packet session) (chunks 8 (drop 8 fs)))"
      using False bs(1) by (subst chunks.simps) (simp add: reply_packet_def)
    then have "ingest_reply (concat (map (reply_packet session) (chunks 8 fs))) served r = (Ok (served + of_nat (length fs)), r2)"
      using ingest_reply_packet [OF bs len r1(1)] r2(1) unfolding sum by simp
    moreover have "(\<exists>f \<in> set fs. f_seq f = ra_next r) \<longrightarrow> bt_contains (ra_pending r2) (ra_next r)"
    proof
      assume "\<exists>f \<in> set fs. f_seq f = ra_next r"
      moreover have "set fs = set ?c \<union> set (drop 8 fs)" by (metis append_take_drop_id set_append)
      ultimately show "bt_contains (ra_pending r2) (ra_next r)" using r1(4) r2(3,4) n by (auto simp: fed_def)
    qed
    ultimately show ?thesis using r2(2) fed_trans [OF r1(3) r2(3)] by blast
  qed
qed

end

section \<open>Stores\<close>

text \<open>
  A store returns runs of the history, at most as many frames as asked for, and starts at the
  number asked for when it covers it. Serving does not change what it covers.
\<close>

locale frame_store = stream hist for hist +
  fixes range :: "'s frame_range" and covers :: "'s \<Rightarrow> seq \<Rightarrow> bool" and ok :: "'s \<Rightarrow> bool"
  assumes range_ok: "ok st \<Longrightarrow> range s n st = (fs, st') \<Longrightarrow> ok st' \<and> covers st' = covers st"
    and range_run: "ok st \<Longrightarrow> range s n st = (fs, st') \<Longrightarrow> length fs \<le> n \<and> (\<exists>i. fs = take (length fs) (drop i hist))"
    and range_covers: "ok st \<Longrightarrow> covers st s \<Longrightarrow> 0 < n \<Longrightarrow> range s n st = (fs, st') \<Longrightarrow> \<exists>f gs. fs = f # gs \<and> f_seq f = s"
begin

lemma range_facts:
  assumes "ok st" and "range s n st = (fs, st')"
  shows "set fs \<subseteq> set hist" and "length fs \<le> n" and "fs \<noteq> [] \<Longrightarrow> contiguous_from (f_seq (hd fs)) fs"
proof -
  from range_run [OF assms] obtain i where i: "length fs \<le> n" "fs = take (length fs) (drop i hist)" by blast
  then show "set fs \<subseteq> set hist" "length fs \<le> n" by (metis in_set_dropD in_set_takeD subsetI, simp)
  have "contiguous_from (1 + of_nat i) (drop i hist)" if "i \<le> length hist"
    using contiguous that contiguous_append [of 1 "take i hist" "drop i hist"] by simp
  then have "\<exists>q. contiguous_from q fs" by (metis contiguous_take i(2) contiguous_from.simps(1) drop_all linorder_not_le less_imp_le_nat take_Nil)
  then show "contiguous_from (f_seq (hd fs)) fs" if "fs \<noteq> []" using that by (cases fs) auto
qed

text \<open>One request: what is asked for is served from its first number on, and read back.\<close>

lemma exchange_serves:
  assumes "ok st" and "ready session r" and "covers st wanted" and "0 < count"
  shows "\<exists>reply m r' st'. serve_exchange range session
      (retransmit_encode \<lparr>rr_session = session, rr_from = wanted, rr_count = count\<rparr>) st = (Ok reply, st') \<and>
    reply \<noteq> [] \<and> ingest_reply reply 0 r = (Ok (of_nat m), r') \<and> 0 < m \<and> m \<le> unat count \<and>
    ready session r' \<and> fed r r' \<and> ok st' \<and> covers st' = covers st \<and>
    (wanted = ra_next r \<longrightarrow> bt_contains (ra_pending r') (ra_next r))"
proof -
  obtain fs st' where rg: "range wanted (unat count) st = (fs, st')" by fastforce
  have "0 < unat count" using assms(4) by (simp add: word_gt_0 unat_gt_0)
  from range_covers [OF assms(1,3) this rg] obtain f gs where f: "fs = f # gs" "f_seq f = wanted" by blast
  note facts = range_facts [OF assms(1) rg] range_ok [OF assms(1) rg]
  have cont: "contiguous_from (f_seq f) fs" using facts(3) f(1) by simp
  from ingest_reply_chunks [OF assms(2) facts(1) cont, of 0] obtain r' where
    r': "ingest_reply (concat (map (reply_packet session) (chunks 8 fs))) 0 r = (Ok (of_nat (length fs)), r')"
      "ready session r'" "fed r r'" "(\<exists>f \<in> set fs. f_seq f = ra_next r) \<longrightarrow> bt_contains (ra_pending r') (ra_next r)" by auto
  have "reply_packet session (take 8 fs) \<noteq> []"
    by (simp add: reply_packet_def encode_data_into_def f(1) flip: length_0_conv)
  then have "concat (map (reply_packet session) (chunks 8 fs)) \<noteq> []" by (subst chunks.simps) (simp add: f(1))
  moreover have "serve_exchange range session (retransmit_encode \<lparr>rr_session = session, rr_from = wanted, rr_count = count\<rparr>) st =
      (Ok (concat (map (reply_packet session) (chunks 8 fs))), st')"
    by (simp add: serve_exchange_def retransmitter_serve_def retransmit_decode_encode rg)
  moreover have "0 < length fs" "wanted = ra_next r \<longrightarrow> bt_contains (ra_pending r') (ra_next r)" using f r'(4) by simp_all
  ultimately show ?thesis
    using r'(1-3) facts(2,4) by blast
qed

lemma fill_gap_loop_fills:
  assumes "nt_exchange N addr = serve_exchange range session" and "ready session r" and "ok st"
    and "\<And>k. unat wanted \<le> unat k \<Longrightarrow> unat k < unat wanted + unat remaining \<Longrightarrow> covers st k"
    and "unat wanted + unat remaining < 2 ^ 64"
  shows "\<exists>r' st'. fill_gap_loop N addr session wanted remaining r st = (Ok (), r', st') \<and> ready session r' \<and> fed r r' \<and>
    (wanted = ra_next r \<longrightarrow> 0 < remaining \<longrightarrow> bt_contains (ra_pending r') (ra_next r))"
  using assms(2-)
proof (induction "unat remaining" arbitrary: wanted remaining r st rule: less_induct)
  case less
  show ?case
  proof (cases "remaining = 0")
    case True
    with less(2) show ?thesis by (subst fill_gap_loop.simps) simp
  next
    case False
    define count where "count = (ucast (min remaining 0xFFFFFFFF) :: u32)"
    have "unat (min remaining 0xFFFFFFFF) < 2 ^ 32" by (simp add: min_def word_le_nat_alt)
    then have uc: "unat count = unat (min remaining 0xFFFFFFFF)" by (simp add: count_def unsigned_ucast_eq take_bit_nat_eq_self)
    have pos: "0 < count" and le: "unat count \<le> unat remaining"
      using uc False by (auto simp: word_gt_0 word_unat_eq_iff min_def word_le_nat_alt split: if_splits)
    have cov: "covers st wanted" using less(4) [of wanted] False by (simp add: unat_gt_0)
    from exchange_serves [OF less(3,2) cov pos] obtain reply m r1 st1 where
      x: "serve_exchange range session (retransmit_encode \<lparr>rr_session = session, rr_from = wanted, rr_count = count\<rparr>) st = (Ok reply, st1)"
        "reply \<noteq> []" "ingest_reply reply 0 r = (Ok (of_nat m), r1)" "0 < m" "m \<le> unat count"
        "ready session r1" "fed r r1" "ok st1" "covers st1 = covers st"
        "wanted = ra_next r \<longrightarrow> bt_contains (ra_pending r1) (ra_next r)" by blast
    let ?n = "of_nat m :: u64"
    have small: "m \<le> unat remaining" using x(5) le by simp
    then have un: "unat ?n = m" using less(5) by (intro unat_of_nat_small) simp
    have rem: "unat (saturating_sub remaining ?n) = unat remaining - m"
      using small by (simp add: saturating_sub_def word_le_nat_alt un unat_sub)
    have wan: "unat (wanted + ?n) = unat wanted + m"
      using less(5) small by (simp add: unat_word_ariths un)
    have lt: "unat (saturating_sub remaining ?n) < unat remaining" using rem x(4) small by simp
    have cov': "covers st1 k" if "unat (wanted + ?n) \<le> unat k" "unat k < unat (wanted + ?n) + unat (saturating_sub remaining ?n)" for k
      unfolding x(9) by (rule less(4)) (use that [unfolded wan rem] small in simp_all)
    have "unat (wanted + ?n) + unat (saturating_sub remaining ?n) < 2 ^ 64" unfolding wan rem using less(5) small by simp
    from less(1) [OF lt x(6,8) cov' this] obtain r2 st2 where ih: "fill_gap_loop N addr session (wanted + ?n) (saturating_sub remaining ?n) r1 st1 = (Ok (), r2, st2)"
        "ready session r2" "fed r1 r2" by blast
    have "?n \<noteq> 0" using un x(4) by (auto simp: word_unat_eq_iff)
    then have "fill_gap_loop N addr session wanted remaining r st = (Ok (), r2, st2)"
      using False x(1-3) ih(1) assms(1) by (subst fill_gap_loop.simps) (simp add: Let_def count_def [symmetric])
    moreover have "wanted = ra_next r \<longrightarrow> bt_contains (ra_pending r2) (ra_next r)"
      using x(7,10) ih(3) by (auto simp: fed_def)
    ultimately show ?thesis using ih(2) fed_trans [OF x(7) ih(3)] by blast
  qed
qed

text \<open>A gap that the store covers is filled, and the missing frame is the next one delivered.\<close>

lemma fill_gap_delivers:
  assumes "nt_exchange N addr = serve_exchange range session" and "ready session r" and "ok st" and "gap r = Some (s, c)"
    and "unat (ra_announced_next r) \<le> length hist + 1"
    and "\<And>k. unat s \<le> unat k \<Longrightarrow> unat k < unat s + unat c \<Longrightarrow> covers st k"
  shows "\<exists>r' st' f r''. fill_gap N (Some addr) s c r st = (Ok (), r', st') \<and> next_frame r' = (Some f, r'') \<and>
    f = hist ! (unat (ra_next r) - 1)"
proof -
  have h: "holds r" "ra_session r = Some session" using assms(2) by (simp_all add: ready_def)
  note g = gap_Some [OF h(1) assms(4)]
  have bound: "unat s + unat c < 2 ^ 64" using g(3) assms(5) bounded by simp
  from fill_gap_loop_fills [OF assms(1-3,6) bound] obtain r' st' where
    r': "fill_gap_loop N addr session s c r st = (Ok (), r', st')" "ready session r'" "fed r r'"
      "s = ra_next r \<longrightarrow> 0 < c \<longrightarrow> bt_contains (ra_pending r') (ra_next r)" by blast
  have n: "ra_next r' = ra_next r" "holds r'" using r'(2,3) by (simp_all add: fed_def ready_def)
  have "bt_contains (ra_pending r') (ra_next r')" using r'(4) g(1,2) n(1) by simp
  then obtain f r'' where nf: "next_frame r' = (Some f, r'')"
    by (cases "next_frame r'"; cases "fst (next_frame r')") (auto simp: next_frame_None)
  with next_frame_Some(1,2) [OF n(2) nf] hist_at n(1) have "f = hist ! (unat (ra_next r) - 1)" by metis
  with r'(1) nf h(2) show ?thesis by (simp add: fill_gap_def)
qed

end

text \<open>The window in memory.\<close>

abbreviation mem_serve :: "mem_store frame_range" where
  "mem_serve s n ms \<equiv> (mem_range s n ms, ms)"

definition mem_covers :: "mem_store \<Rightarrow> seq \<Rightarrow> bool" where
  "mem_covers ms s \<longleftrightarrow> ms_frames ms \<noteq> [] \<and> mem_low_water ms \<le> s \<and> s \<le> mem_high_water ms"

definition mem_ok :: "frame list \<Rightarrow> mem_store \<Rightarrow> bool" where
  "mem_ok hist ms \<longleftrightarrow> (\<exists>n i. ms_frames ms = take n (drop i hist))"

lemma take_drop_run: "\<exists>i. take n (drop m (take k (drop j xs))) = take (length (take n (drop m (take k (drop j xs))))) (drop i xs)"
proof -
  have "take n (drop m (take k (drop j xs))) = take (min n (k - m)) (drop (j + m) xs)"
    by (simp add: drop_take add.commute)
  then show ?thesis by (metis append_eq_conv_conj append_take_drop_id)
qed

sublocale stream \<subseteq> mem: frame_store hist mem_serve mem_covers "mem_ok hist"
proof unfold_locales
  fix ms s n fs st'
  assume ok: "mem_ok hist ms" and r: "mem_serve s n ms = (fs, st')"
  show "mem_ok hist st' \<and> mem_covers st' = mem_covers ms" using ok r by simp
  from ok obtain k j where w: "ms_frames ms = take k (drop j hist)" by (auto simp: mem_ok_def)
  have fs: "fs = [] \<or> (\<exists>m. fs = take n (drop m (take k (drop j hist))))"
    using r w by (auto simp: mem_range_def split: list.splits if_splits)
  then show "length fs \<le> n \<and> (\<exists>i. fs = take (length fs) (drop i hist))" using take_drop_run [of n _ k j hist] by auto
  assume cov: "mem_covers ms s" and n: "0 < n"
  from cov obtain f gs where f: "ms_frames ms = f # gs" "f_seq f \<le> s" "s \<le> f_seq (last (f # gs))"
    by (cases "ms_frames ms") (auto simp: mem_covers_def mem_low_water_def mem_high_water_def)
  note e = w [unfolded f(1)]
  have len: "length (f # gs) = min k (length hist - j)" by (simp only: e length_take length_drop min.commute)
  have nth: "unat (f_seq ((f # gs) ! x)) = Suc (j + x)" if "x < length (f # gs)" for x
  proof -
    have x: "x < k" "j + x < length hist" using that unfolding len by linarith+
    have "(f # gs) ! x = hist ! (j + x)" using x by (simp only: e) simp
    with seq_nth [OF x(2)] show ?thesis by simp
  qed
  have f0: "unat (f_seq f) = Suc j" using nth [of 0] by simp
  have "unat (f_seq (last (f # gs))) = Suc (j + length gs)" using nth [of "length gs"] last_conv_nth [of "f # gs"] by simp
  then have idx: "unat (s - f_seq f) < length (f # gs)" "Suc (j + unat (s - f_seq f)) = unat s"
    using f(2,3) f0 by (auto simp: unat_sub word_le_nat_alt)
  have "fs = take n (drop (unat (s - f_seq f)) (f # gs))" using r f(1,2) by (auto simp: mem_range_def)
  then have "hd fs = (f # gs) ! unat (s - f_seq f)" and "fs \<noteq> []" using n idx(1) by (simp_all add: hd_drop_conv_nth)
  moreover have "unat (f_seq ((f # gs) ! unat (s - f_seq f))) = unat s" using nth [OF idx(1)] idx(2) by simp
  ultimately show "\<exists>f gs. fs = f # gs \<and> f_seq f = s" by (cases fs) (auto simp: word_unat_eq_iff)
qed

text \<open>The rewinder, on a journal of the simulated disk whose frames are a tail of the history and synced.\<close>

definition rewinder_frames :: "nat \<Rightarrow> journal_config \<Rightarrow> sim_disk \<Rightarrow> frame list" where
  "rewinder_frames t cfg d = (case journal_open_with sim_storage t cfg d of (Ok rec, _) \<Rightarrow> re_frames rec | _ \<Rightarrow> [])"

definition rewinder_covers :: "nat \<Rightarrow> journal_config \<Rightarrow> sim_disk \<Rightarrow> seq \<Rightarrow> bool" where
  "rewinder_covers t cfg d s \<longleftrightarrow> s \<in> f_seq ` set (rewinder_frames t cfg d)"

definition rewinder_ok :: "journal_config \<Rightarrow> frame list \<Rightarrow> sim_disk \<Rightarrow> bool" where
  "rewinder_ok cfg hist d \<longleftrightarrow> (\<exists>m j dur. sim.jrepr (drop m hist) dur j d \<and> \<not> j_dirty j \<and> j_config j = cfg)"

lemma rewinder_open:
  assumes "sim.jrepr fs dur j d" and "\<not> j_dirty j" and "j_config j = cfg"
  shows "\<exists>rec d'. journal_open_with sim_storage t cfg d = (Ok rec, d') \<and> re_frames rec = fs \<and> rewinder_frames t cfg d = fs \<and>
    rewinder_frames t cfg d' = fs \<and>
    (\<exists>j' dur'. sim.jrepr fs dur' j' d' \<and> \<not> j_dirty j' \<and> j_config j' = cfg)"
proof -
  from sim.reopen_jrepr [OF assms(1,2), of t] assms(3) obtain rec d' where
    o: "journal_open_with sim_storage t cfg d = (Ok rec, d')" "re_frames rec = fs"
      "sim.jrepr fs (length fs) (re_journal rec) d'" "j_config (re_journal rec) = cfg" "\<not> j_dirty (re_journal rec)" by auto
  from sim.reopen_jrepr [OF o(3,5), of t] o(4) have "rewinder_frames t cfg d' = fs" by (auto simp: rewinder_frames_def)
  with o show ?thesis by (auto simp: rewinder_frames_def)
qed

context stream
begin

lemma filter_from: "filter (\<lambda>f. f_seq f \<ge> s) (drop m hist) = drop (max m (unat s - 1)) hist"
proof -
  let ?xs = "drop m hist"
  have ge: "f_seq (?xs ! i) \<ge> s \<longleftrightarrow> unat s \<le> Suc (m + i)" if "i < length ?xs" for i
    using seq_nth [of "m + i"] that by (simp add: word_le_nat_alt)
  have "filter (\<lambda>f. f_seq f \<ge> s) ?xs = drop (unat s - 1 - m) ?xs"
  proof (rule filter_eq_drop)
    show "i < length ?xs \<Longrightarrow> f_seq (?xs ! i) \<ge> s \<longleftrightarrow> unat s - 1 - m \<le> i" for i using ge [of i] by auto
  qed
  moreover have "unat s - 1 - m + m = max m (unat s - 1)" by simp
  ultimately show ?thesis by (simp only: drop_drop)
qed

end

sublocale stream \<subseteq> rewinder: frame_store hist "rewinder_range sim_storage t cfg" "rewinder_covers t cfg" "rewinder_ok cfg hist" for t cfg
proof unfold_locales
  fix d s n fs d'
  assume ok: "rewinder_ok cfg hist d" and r: "rewinder_range sim_storage t cfg s n d = (fs, d')"
  from ok obtain m j dur where j: "sim.jrepr (drop m hist) dur j d" "\<not> j_dirty j" "j_config j = cfg"
    by (auto simp: rewinder_ok_def)
  from rewinder_open [OF this, of t] obtain rec d1 where
    o: "journal_open_with sim_storage t cfg d = (Ok rec, d1)" "re_frames rec = drop m hist"
      "rewinder_frames t cfg d = drop m hist" "rewinder_frames t cfg d1 = drop m hist"
      "\<exists>j' dur'. sim.jrepr (drop m hist) dur' j' d1 \<and> \<not> j_dirty j' \<and> j_config j' = cfg" by blast
  have fs: "fs = take n (drop (max m (unat s - 1)) hist)" "d' = d1"
    using r o(1,2) by (auto simp: rewinder_range_def filter_from)
  show "rewinder_ok cfg hist d' \<and> rewinder_covers t cfg d' = rewinder_covers t cfg d"
    using o(3-5) unfolding fs(2) rewinder_ok_def rewinder_covers_def by auto
  show "length fs \<le> n \<and> (\<exists>i. fs = take (length fs) (drop i hist))"
    unfolding fs(1) by (metis length_take min.cobounded2 append_eq_conv_conj append_take_drop_id)
  assume cov: "rewinder_covers t cfg d s" and n: "0 < n"
  then obtain i where i': "i < length hist - m" "s = f_seq (hist ! (m + i))"
    by (auto simp: rewinder_covers_def o(3) in_set_conv_nth)
  then have i: "m + i < length hist" "s = f_seq (hist ! (m + i))" by linarith+
  have "max m (unat s - 1) = m + i" using seq_nth [OF i(1)] by (simp add: i(2))
  with fs(1) n i show "\<exists>f gs. fs = f # gs \<and> f_seq f = s"
    by (cases n) (auto simp: Cons_nth_drop_Suc [symmetric])
qed

text \<open>The chain: the first store where it covers the number, the second otherwise.\<close>

locale chained =
  p: frame_store hist range1 covers1 ok1 + q: frame_store hist range2 covers2 ok2
  for hist and range1 :: "'p frame_range" and covers1 ok1 and range2 :: "'q frame_range" and covers2 ok2

sublocale chained \<subseteq> chain: frame_store hist "chain_range range1 range2"
    "\<lambda>st s. covers1 (fst st) s \<or> covers2 (snd st) s" "\<lambda>st. ok1 (fst st) \<and> ok2 (snd st)"
proof unfold_locales
  fix st s n fs st'
  assume ok: "ok1 (fst st) \<and> ok2 (snd st)" and r: "chain_range range1 range2 s n st = (fs, st')"
  obtain f1 s1 where r1: "range1 s n (fst st) = (f1, s1)" by fastforce
  obtain f2 s2 where r2: "range2 s n (snd st) = (f2, s2)" by fastforce
  have st': "(\<exists>f gs. f1 = f # gs \<and> f_seq f = s) \<and> fs = f1 \<and> st' = (s1, snd st) \<or>
      \<not> (\<exists>f gs. f1 = f # gs \<and> f_seq f = s) \<and> fs = f2 \<and> st' = (s1, s2)"
    using r by (auto simp: chain_range_def r1 r2 Let_def split: list.splits if_splits)
  note o1 = p.range_ok [OF _ r1] and o2 = q.range_ok [OF _ r2]
  show "(ok1 (fst st') \<and> ok2 (snd st')) \<and>
      (\<lambda>s. covers1 (fst st') s \<or> covers2 (snd st') s) = (\<lambda>s. covers1 (fst st) s \<or> covers2 (snd st) s)"
    using st' ok o1 o2 by auto
  show "length fs \<le> n \<and> (\<exists>i. fs = take (length fs) (drop i hist))"
    using st' ok p.range_run [OF _ r1] q.range_run [OF _ r2] by auto
  assume "covers1 (fst st) s \<or> covers2 (snd st) s" and "0 < n"
  then show "\<exists>f gs. fs = f # gs \<and> f_seq f = s"
    using st' ok p.range_covers [OF _ _ _ r1] q.range_covers [OF _ _ _ r2] by auto
qed

context chained
begin

lemma chain_store: "frame_store hist (chain_range range1 range2) (\<lambda>st s. covers1 (fst st) s \<or> covers2 (snd st) s)
    (\<lambda>st. ok1 (fst st) \<and> ok2 (snd st))"
  by unfold_locales

end

context stream
begin

lemma window_then_journal: "frame_store hist (chain_range mem_serve (rewinder_range sim_storage t cfg))
    (\<lambda>st s. mem_covers (fst st) s \<or> rewinder_covers t cfg (snd st) s) (\<lambda>st. mem_ok hist (fst st) \<and> rewinder_ok cfg hist (snd st))"
  by (rule chained.chain_store, intro chained.intro) unfold_locales

end

section \<open>The receiver\<close>

text \<open>A network that may lose, repeat and reorder, but carries only genuine packets and replies.\<close>

definition genuine_bytes :: "frame list \<Rightarrow> bytes \<Rightarrow> bool" where
  "genuine_bytes hist bs \<longleftrightarrow> (case packet_decode bs of Ok p \<Rightarrow> genuine hist p | Err _ \<Rightarrow> True)"

function genuine_reply :: "frame list \<Rightarrow> bytes \<Rightarrow> bool" where
  "genuine_reply hist reply =
     (if length reply < 4 then True
      else let len = unat (from_le_bytes (take 4 reply) :: u32); body = drop 4 reply in
        length body < len \<or> genuine_bytes hist (take len body) \<and> genuine_reply hist (drop len body))"
  by pat_completeness auto
termination by (relation "measure (\<lambda>(hist, reply). length reply)") auto

declare genuine_reply.simps [simp del]

definition genuine_net :: "frame list \<Rightarrow> ('a, 'w) net \<Rightarrow> bool" where
  "genuine_net hist N \<longleftrightarrow>
     (\<forall>w bs w'. nt_recv_a N w = (Ok (Some bs), w') \<longrightarrow> genuine_bytes hist bs) \<and>
     (\<forall>recv w bs w'. nt_recv_b N = Some recv \<longrightarrow> recv w = (Ok (Some bs), w') \<longrightarrow> genuine_bytes hist bs) \<and>
     (\<forall>addr req w reply w'. nt_exchange N addr req w = (Ok reply, w') \<longrightarrow> genuine_reply hist reply)"

lemma recv_into_run:
  assumes "ra_run hist from_seq r out" and "\<And>bs w'. recv w = (Ok (Some bs), w') \<Longrightarrow> genuine_bytes hist bs"
    and "recv_into recv r w = (res, r', w')"
  shows "ra_run hist from_seq r' out"
  using assms
  by (auto simp: recv_into_def genuine_bytes_def intro: ra_ingest split: prod.splits result.splits option.splits)

lemma ingest_reply_run:
  "ra_run hist from_seq r out \<Longrightarrow> genuine_reply hist reply \<Longrightarrow> ingest_reply reply served r = (res, r') \<Longrightarrow> ra_run hist from_seq r' out"
proof (induction reply served r rule: ingest_reply.induct)
  case (1 reply served r)
  define len body where "len = unat (from_le_bytes (take 4 reply) :: u32)" and "body = drop 4 reply"
  show ?case
  proof (cases "length reply < 4 \<or> length body < len \<or> (\<exists>e. packet_decode (take len body) = Err e)")
    case True
    with 1(2,4) show ?thesis by (auto simp: ingest_reply.simps [of reply served r] Let_def len_def body_def split: if_splits)
  next
    case False
    then obtain p where p: "packet_decode (take len body) = Ok p" by (cases "packet_decode (take len body)") auto
    obtain ri r1 where ri: "ingest p r = (ri, r1)" by fastforce
    have g: "genuine hist p" "genuine_reply hist (drop len body)"
      using 1(3) False p by (subst (asm) genuine_reply.simps; simp add: Let_def len_def body_def genuine_bytes_def)+
    have run: "ra_run hist from_seq r1 out" by (rule ra_ingest [OF 1(2) g(1) ri])
    have eq: "ingest_reply reply served r = (case ri of Err e \<Rightarrow> (Err e, r1)
        | Ok _ \<Rightarrow> ingest_reply (drop len body) (case p of Data _ frames \<Rightarrow> served + of_nat (length frames) | _ \<Rightarrow> served) r1)"
      using False p ri by (subst ingest_reply.simps) (auto simp: Let_def len_def body_def split: result.splits)
    show ?thesis
    proof (cases ri)
      case (Ok u)
      have ne: "reply \<noteq> []" "\<not> length reply < 4" "\<not> length body < len" using False by auto
      from 1(1) [OF ne(1,2) len_def body_def ne(3) p ri [symmetric] Ok run g(2)] show ?thesis
        using 1(4) unfolding eq Ok by simp
    qed (use run 1(4) in \<open>auto simp: eq\<close>)
  qed
qed

lemma fill_gap_loop_run:
  assumes "genuine_net hist N"
  shows "ra_run hist from_seq r out \<Longrightarrow> fill_gap_loop N addr session wanted remaining r w = (res, r', w') \<Longrightarrow> ra_run hist from_seq r' out"
proof (induction "unat remaining" arbitrary: wanted remaining r w rule: less_induct)
  case less
  define req where "req = retransmit_encode \<lparr>rr_session = session, rr_from = wanted, rr_count = ucast (min remaining 0xFFFFFFFF)\<rparr>"
  obtain rx w1 where x: "nt_exchange N addr req w = (rx, w1)" by fastforce
  show ?case
  proof (cases "remaining = 0 \<or> (\<forall>reply. rx = Ok reply \<longrightarrow> reply = [])")
    case True
    with less(2,3) x show ?thesis
      by (cases rx) (auto simp: fill_gap_loop.simps [of N addr session wanted remaining] req_def Let_def split: if_splits)
  next
    case False
    then obtain reply where reply: "rx = Ok reply" "reply \<noteq> []" by blast
    obtain ri r1 where ri: "ingest_reply reply 0 r = (ri, r1)" by fastforce
    have "genuine_reply hist reply" using assms x reply(1) unfolding genuine_net_def by blast
    from ingest_reply_run [OF less(2) this ri] have run: "ra_run hist from_seq r1 out" .
    have eq: "fill_gap_loop N addr session wanted remaining r w = (case ri of Err e \<Rightarrow> (Err e, r1, w1)
        | Ok served \<Rightarrow> if served = 0 then (Err (GapUnrecoverable wanted remaining), r1, w1)
            else fill_gap_loop N addr session (wanted + served) (saturating_sub remaining served) r1 w1)"
      using False x reply ri
      by (subst fill_gap_loop.simps) (auto simp: req_def Let_def split: result.splits)
    show ?thesis
    proof (cases "\<exists>served. ri = Ok served \<and> served \<noteq> 0")
      case True
      then obtain served where s: "ri = Ok served" "served \<noteq> 0" by blast
      have "unat (saturating_sub remaining served) < unat remaining"
        using s(2) False by (auto simp: saturating_sub_def unat_sub word_le_nat_alt word_unat_eq_iff)
      from less(1) [OF this run] show ?thesis using less(3) s unfolding eq by simp
    qed (use run less(3) in \<open>auto simp: eq split: result.splits if_splits\<close>)
  qed
qed

lemma next_frame_same: "next_frame r = (None, r') \<Longrightarrow> r' = r"
  by (auto simp: next_frame_def split: option.splits)

lemma poll_turn_run:
  assumes "genuine_net hist N" and "ra_run hist from_seq r out" and "poll_turn N rt r w = (res, r', w')"
  shows "ra_run hist from_seq r' (out @ (case res of Ok (Some f) \<Rightarrow> [f] | _ \<Rightarrow> []))"
proof -
  obtain r1 w1 a where a: "recv_into (nt_recv_a N) r w = (a, r1, w1)" by (metis prod_cases3)
  have run1: "ra_run hist from_seq r1 out"
    by (rule recv_into_run [OF assms(2) _ a]) (use assms(1) in \<open>auto simp: genuine_net_def\<close>)
  obtain r2 w2 b where b: "(case nt_recv_b N of None \<Rightarrow> (Ok (), r1, w1) | Some recv_b \<Rightarrow> recv_into recv_b r1 w1) = (b, r2, w2)"
    by (metis prod_cases3)
  have run2: "ra_run hist from_seq r2 out"
  proof (cases "nt_recv_b N")
    case (Some recv_b)
    have g: "genuine_bytes hist bs" if "recv_b w1 = (Ok (Some bs), w')" for bs w'
      using assms(1) Some that unfolding genuine_net_def by blast
    from b Some have "recv_into recv_b r1 w1 = (b, r2, w2)" by simp
    from recv_into_run [OF run1 g this] show ?thesis .
  qed (use b run1 in auto)
  have fill: "ra_run hist from_seq r3 out" if "fill_gap N rt s c r2 w2 = (x, r3, w3)" for s c x r3 w3
    using that fill_gap_loop_run [OF assms(1) run2] run2 by (auto simp: fill_gap_def split: option.splits)
  show ?thesis
    using assms(3) run1 run2 unfolding poll_turn_def a
    by (auto simp: b split: result.splits prod.splits option.splits dest!: next_frame_same intro: ra_next fill)
qed

lemma poll_loop_run:
  fixes w :: 'w and N :: "('a, 'w) net"
  assumes "genuine_net hist N" and "ra_run hist from_seq r out" and "poll_loop N rt r w = Some (res, r', w')"
  shows "ra_run hist from_seq r' (out @ (case res of Ok (Some f) \<Rightarrow> [f] | _ \<Rightarrow> []))"
proof -
  let ?P = "\<lambda>M rt r w (x :: (frame option, 'w) rres). M = N \<longrightarrow> ra_run hist from_seq r out \<longrightarrow>
      ra_run hist from_seq (fst (snd x)) (out @ (case fst x of Ok (Some f) \<Rightarrow> [f] | _ \<Rightarrow> []))"
  have "?P N rt r w (res, r', w')"
  proof (rule poll_loop.raw_induct [where P = ?P, OF _ assms(3)])
    fix go M rt r w x
    assume ih: "\<And>M rt r w y. go M rt r w = Some y \<Longrightarrow> ?P M rt r w y"
      and step: "(case poll_turn M rt r w of
        (Err e, r, w) \<Rightarrow> Some (Err e, r, w)
      | (Ok (Some f), r, w) \<Rightarrow> Some (Ok (Some f), r, w)
      | (Ok None, r, w) \<Rightarrow>
          (case nt_expired M w of
             (expired, w) \<Rightarrow> if expired then Some (Ok None, r, w) else go M rt r w)) = Some x"
    show "?P M rt r w x"
    proof (intro impI)
      assume a: "M = N" "ra_run hist from_seq r out"
      obtain t r1 w1 where t: "poll_turn N rt r w = (t, r1, w1)" by (metis prod_cases3)
      obtain e w2 where e: "nt_expired N w1 = (e, w2)" by fastforce
      note run = poll_turn_run [OF assms(1) a(2) t]
      show "ra_run hist from_seq (fst (snd x)) (out @ (case fst x of Ok (Some f) \<Rightarrow> [f] | _ \<Rightarrow> []))"
      proof (cases "t = Ok None \<and> \<not> e")
        case True
        then have "go N rt r1 w2 = Some x" using step t e a(1) by simp
        from ih [OF this] run True show ?thesis by simp
      next
        case False
        then have "fst x = t \<and> fst (snd x) = r1"
          using step e unfolding a(1) t by (cases t) (auto split: option.splits)
        with run show ?thesis by simp
      qed
    qed
  qed
  with assms(2) show ?thesis by simp
qed

lemma poll_run:
  assumes "genuine_net hist N" and "ra_run hist from_seq r out" and "poll N rt r w = Some (res, r', w')"
  shows "ra_run hist from_seq r' (out @ (case res of Ok (Some f) \<Rightarrow> [f] | _ \<Rightarrow> []))"
proof (cases "next_frame r")
  case (Pair f r1)
  show ?thesis
  proof (cases f)
    case None
    then have "r1 = r" using Pair by (auto simp: next_frame_def split: option.splits)
    with None Pair assms poll_loop_run show ?thesis by (fastforce simp: poll_def)
  next
    case (Some g)
    with Pair assms ra_next show ?thesis by (fastforce simp: poll_def)
  qed
qed

section \<open>A receiver of two frames\<close>

abbreviation demo_hist :: "frame list" where
  "demo_hist \<equiv> [demo_frame 1, demo_frame 2]"

lemma demo_contiguous: "contiguous_from 1 demo_hist" "length demo_hist + 1 < 2 ^ 64"
  by (simp_all add: demo_frame_def frame_valid_def)

text \<open>A network whose first channel always carries the packet \<open>bs\<close>, and whose server is \<open>server\<close>.\<close>

definition demo_net :: "bytes \<Rightarrow> (bytes \<Rightarrow> 'w \<Rightarrow> (bytes, io_error) result \<times> 'w) \<Rightarrow> (unit, 'w) net" where
  "demo_net bs server = \<lparr>nt_recv_a = (\<lambda>w. (Ok (Some bs), w)), nt_recv_b = None, nt_exchange = (\<lambda>_. server),
     nt_expired = (\<lambda>w. (True, w))\<rparr>"

definition demo_packet :: packet where
  "demo_packet = Data 7 [demo_frame 1]"

lemma demo_packet_bytes: "\<exists>bs. packet_encode demo_packet = Some bs \<and> packet_decode bs = Ok demo_packet"
  by (rule packet_decode_encode) (simp add: demo_packet_def demo_frame_def frame_valid_def)

lemma ingest_first:
  "f_seq f = 1 \<Longrightarrow> ingest (Data 7 [f]) (reassembler_new 1) = (Ok (), \<lparr>ra_session = Some 7, ra_next = 1, ra_pending = [(1, f)],
     ra_announced_next = 2, ra_packets_seen = 1\<rparr>)"
  by (simp add: ingest_def reassembler_new_def ingest_frame_def Let_def bt_contains_def trim_pending.simps PENDING_CAP_def)

lemma demo_seq: "f_seq (demo_frame s) = s"
  by (simp add: demo_frame_def)

text \<open>A receiver that got the first frame.\<close>

lemma first_delivered:
  assumes "f \<in> set hist" and "f_seq f = 1"
  shows "\<exists>r. ra_run hist 1 r [f]"
proof -
  have "genuine hist (Data 7 [f])" using assms(1) by (simp add: genuine_def)
  from ra_next [OF ra_ingest [OF ra_new this ingest_first [OF assms(2)]]] show ?thesis
    by (auto simp: next_frame_def bt_get_def)
qed

lemma demo_poll:
  assumes "packet_decode bs = Ok demo_packet"
  shows "\<exists>r'. poll (demo_net bs server) None (reassembler_new 1) w = Some (Ok (Some (demo_frame 1)), r', w)"
proof -
  have "next_frame (reassembler_new 1) = (None, reassembler_new 1)" by (simp add: next_frame_def reassembler_new_def bt_get_def)
  moreover have "\<exists>r'. poll_turn (demo_net bs server) None (reassembler_new 1) w = (Ok (Some (demo_frame 1)), r', w)"
    by (simp add: poll_turn_def recv_into_def demo_net_def assms [unfolded demo_packet_def] ingest_first demo_seq next_frame_def bt_get_def)
  ultimately show ?thesis by (auto simp: poll_def poll_loop.simps)
qed

lemma demo_genuine:
  assumes "packet_decode bs = Ok demo_packet" and "\<And>req w. server req w = (Ok [], w)"
  shows "genuine_net demo_hist (demo_net bs server)"
proof -
  have "genuine_reply demo_hist []" by (simp add: genuine_reply.simps)
  with assms show ?thesis by (auto simp: genuine_net_def demo_net_def genuine_bytes_def genuine_def demo_packet_def)
qed

section \<open>Properties\<close>

text \<open>
  The wire format: every well-formed packet (frames numbered without a gap) and every
  retransmit request decodes to what was encoded, and whatever decodes is well-formed, so the
  receiver never sees a data packet that is empty or has a gap inside.
\<close>

theorem wire_roundtrip:
  "(wf_packet p \<longrightarrow> (\<exists>bs. packet_encode p = Some bs \<and> packet_decode bs = Ok p)) \<and>
   (\<forall>bs. packet_decode bs = Ok p \<longrightarrow> wf_packet p) \<and> retransmit_decode (retransmit_encode req) = Ok req"
  using packet_decode_encode packet_decode_wf retransmit_decode_encode by blast

theorem wire_roundtrip_witness:
  "\<exists>bs. packet_encode (Data 7 [demo_frame 1, demo_frame 2]) = Some bs \<and> packet_decode bs = Ok (Data 7 [demo_frame 1, demo_frame 2])"
  using wire_roundtrip [of "Data 7 [demo_frame 1, demo_frame 2]"] by (simp add: demo_frame_def frame_valid_def)

text \<open>
  C33. Packing for the wire: the windows are the frames in order, none is empty, and each fits the
  packet budget of 1400 bytes unless it is a single frame, so no packet's count overflows its
  16 bits.
\<close>

theorem packing_bounds:
  "concat (pack_windows frames 0) = frames \<and>
   (\<forall>window \<in> set (pack_windows frames 0). window \<noteq> [] \<and> (length window = 1 \<or> data_packet_len window \<le> MAX_PACKET_BYTES) \<and>
      unat (of_nat (length window) :: u16) = length window)"
proof (intro conjI ballI)
  show "concat (pack_windows frames 0) = frames" by (simp add: pack_windows_concat)
  fix window assume w: "window \<in> set (pack_windows frames 0)"
  note s = pack_windows_sizes [OF w]
  show "window \<noteq> []" "length window = 1 \<or> data_packet_len window \<le> MAX_PACKET_BYTES" using s by simp_all
  have "length window < 2 ^ 16" using s data_packet_len_count [of window] by (auto simp: MAX_PACKET_BYTES_def)
  then show "unat (of_nat (length window) :: u16) = length window" by (intro unat_of_nat_small) simp
qed

theorem packing_bounds_witness: "concat (pack_windows [demo_frame 1, demo_frame 2] 0) = [demo_frame 1, demo_frame 2]"
  using packing_bounds by blast

text \<open>
  C11. Exact delivery: whatever a network that loses, repeats and reorders genuine packets does, on
  both channels and in replies to gap requests, the frames that a receiver has returned so far
  are exactly the published history from its starting number on, in order, and it never buffers
  more than the bound; this is the abstract channel: a cursor that moves over the history.
\<close>

theorem receiver_delivers_history:
  assumes "contiguous_from 1 hist" and "length hist + 1 < 2 ^ 64" and "genuine_net hist N" and "ra_run hist from_seq r out"
    and "poll N rt r w = Some (res, r', w')"
  shows "let out' = out @ (case res of Ok (Some f) \<Rightarrow> [f] | _ \<Rightarrow> []) in
    ra_run hist from_seq r' out' \<and> out' = take (length out') (drop (unat (max from_seq 1) - 1) hist) \<and>
    unat (ra_next r') = unat (max from_seq 1) + length out' \<and> length (ra_pending r') \<le> PENDING_CAP"
proof -
  have "stream hist" by (rule stream.intro [OF assms(1,2)])
  note run = poll_run [OF assms(3-5)]
  from stream.ra_run_inv [OF \<open>stream hist\<close> run] run show ?thesis
    unfolding stream.ra_inv_def [OF \<open>stream hist\<close>] Let_def by blast
qed

theorem receiver_delivers_history_witness:
  "\<exists>bs r'. packet_encode demo_packet = Some bs \<and>
     poll (demo_net bs (\<lambda>_ w. (Ok [], w))) None (reassembler_new 1) () = Some (Ok (Some (demo_frame 1)), r', ()) \<and>
     ra_run demo_hist 1 r' [demo_frame 1] \<and> length (ra_pending r') \<le> PENDING_CAP"
proof -
  obtain bs where bs: "packet_encode demo_packet = Some bs" "packet_decode bs = Ok demo_packet" using demo_packet_bytes by blast
  obtain r' where p: "poll (demo_net bs (\<lambda>_ w. (Ok [], w))) None (reassembler_new 1) () = Some (Ok (Some (demo_frame 1)), r', ())"
    using demo_poll [OF bs(2), of "\<lambda>_ w. (Ok [], w)" "()"] by auto
  have "genuine_net demo_hist (demo_net bs (\<lambda>_ w. (Ok [], w)))" by (rule demo_genuine [OF bs(2)]) simp
  from receiver_delivers_history [OF demo_contiguous this ra_new p] bs(1) p show ?thesis by (auto simp: Let_def)
qed

text \<open>
  C32. Gap filling, end to end: when a receiver finds a gap, its request is answered by a
  retransmitter whose store is the window in memory with the rewinder on the journal behind
  it, the journal is synced and reaches back to the gap, then filling the gap succeeds and the
  next frame delivered is the one that was missing.
\<close>

theorem gap_filled_from_journal:
  assumes "contiguous_from 1 hist" and "length hist + 1 < 2 ^ 64" and "ra_run hist from_seq r out"
    and "unat from_seq \<le> length hist + 1" and "ra_session r = Some session" and "gap r = Some (s, c)"
    and "ms_frames ms = take n (drop i hist)" and "jrun cfg j d (drop m hist) dur" and "\<not> j_dirty j" and "m < unat s"
    and "nt_exchange N addr = serve_exchange (chain_range mem_serve (rewinder_range sim_storage t cfg)) session"
  shows "\<exists>r' w' r''. fill_gap N (Some addr) s c r (ms, d) = (Ok (), r', w') \<and> unat s \<le> length hist \<and>
    next_frame r' = (Some (hist ! (unat s - 1)), r'')"
proof -
  have str: "stream hist" by (rule stream.intro [OF assms(1,2)])
  note j = jrun_jrepr [OF assms(8)]
  have inv: "stream.ra_inv hist from_seq r out" by (rule stream.ra_run_inv [OF str assms(3)])
  have "unat (max from_seq 1) \<le> length hist + 1" using assms(4) by (simp add: max_def)
  with inv assms(5) have ready: "stream.ready hist session r" and ann: "unat (ra_announced_next r) \<le> length hist + 1"
    by (auto simp: stream.ra_inv_def [OF str] stream.ready_def [OF str])
  then have h: "stream.holds hist r" by (simp add: stream.ready_def [OF str])
  note g = stream.gap_Some [OF str h assms(6)]
  have frames: "rewinder_frames t cfg d = drop m hist" using rewinder_open [of "drop m hist" dur j d cfg t] j assms(9) by blast
  have cov: "rewinder_covers t cfg d k" if "unat s \<le> unat k" "unat k < unat s + unat c" for k
  proof -
    have k: "m \<le> unat k - 1" "unat k - 1 < length hist" "unat k \<noteq> 0" using that g(3) ann assms(10) by linarith+
    then have "hist ! (unat k - 1) \<in> set (drop m hist)"
      by (auto simp: in_set_conv_nth intro!: exI [of _ "unat k - 1 - m"])
    moreover have "f_seq (hist ! (unat k - 1)) = k"
      using stream.seq_nth [OF str k(2)] k(3) by (simp add: word_unat_eq_iff)
    ultimately show ?thesis unfolding rewinder_covers_def frames by force
  qed
  have ok: "mem_ok hist ms \<and> rewinder_ok cfg hist d"
    using assms(7,9) j unfolding mem_ok_def rewinder_ok_def by blast
  from frame_store.fill_gap_delivers [OF stream.window_then_journal [OF str] assms(11) ready _ assms(6) ann, of "(ms, d)"] ok cov obtain r' w' f r'' where
    f: "fill_gap N (Some addr) s c r (ms, d) = (Ok (), r', w')" "next_frame r' = (Some f, r'')" "f = hist ! (unat (ra_next r) - 1)"
    by auto
  moreover have "0 < unat c" using g(2) by (simp add: word_less_nat_alt)
  then have "unat s \<le> length hist" using g(3) ann by linarith
  ultimately show ?thesis using g(1) by blast
qed

theorem gap_filled_from_journal_witness:
  "\<exists>r r' w' r''. ra_run demo_hist 1 r [] \<and> gap r = Some (1, 2) \<and>
     fill_gap (demo_net [] (serve_exchange (chain_range mem_serve (rewinder_range sim_storage 0 small_cfg)) 7)) (Some ()) 1 2 r
       (mem_new, small_disk) = (Ok (), r', w') \<and> next_frame r' = (Some (demo_frame 1), r'')"
proof -
  let ?N = "demo_net [] (serve_exchange (chain_range mem_serve (rewinder_range sim_storage 0 small_cfg)) 7)"
  let ?r = "(reassembler_new 1)\<lparr>ra_session := Some 7, ra_announced_next := 3, ra_packets_seen := 1\<rparr>"
  have i: "ingest (HeartbeatPacket 7 3) (reassembler_new 1) = (Ok (), ?r)"
    by (simp add: ingest_def reassembler_new_def Let_def)
  have run: "ra_run demo_hist 1 ?r []" by (rule ra_ingest [OF ra_new _ i]) (simp add: genuine_def)
  have g: "gap ?r = Some (1, 2)" by (simp add: gap_def reassembler_new_def bt_first_def Let_def)
  have "\<exists>r' w' r''. fill_gap ?N (Some ()) 1 2 ?r (mem_new, small_disk) = (Ok (), r', w') \<and> unat (1 :: u64) \<le> length demo_hist \<and>
      next_frame r' = (Some (demo_hist ! (unat (1 :: u64) - 1)), r'')"
  proof (rule gap_filled_from_journal [OF demo_contiguous run _ _ g, where n = 0 and i = 0 and m = 0 and session = 7])
    show "jrun small_cfg (small_journal 2) small_disk (drop 0 demo_hist) 2" using small_run by simp
  qed (simp_all add: mem_new_def mem_with_capacity_def small_journal_def demo_net_def)
  with run g show ?thesis by auto
qed

end
