(* ===== verification/Election.thy ===== *)
theory Election
  imports Commit
begin

text \<open>
  \<open>ticktape-cluster/src/election.rs\<close>, \<open>epoch.rs\<close> and the vote messages of \<open>net.rs\<close>: epoch
  leases by majority grant. The step relation \<open>el_step\<close> runs any number of candidates against
  a set of acceptors over a network that loses, duplicates and reorders replies. The proofs
  rest on the interpretation \<open>maj\<close> of the quorum contract.
\<close>

section \<open>Acceptors and elections\<close>

datatype vote_reply = Grant u64 seq | Reject u64

record acceptor =
  ac_promised :: u64
  ac_high_water :: seq

definition acceptor_new :: acceptor where
  "acceptor_new = \<lparr>ac_promised = 0, ac_high_water = 0\<rparr>"

definition observe_seq :: "seq \<Rightarrow> acceptor \<Rightarrow> acceptor" where
  "observe_seq s a = a\<lparr>ac_high_water := max (ac_high_water a) s\<rparr>"

definition reset_high_water :: "seq \<Rightarrow> acceptor \<Rightarrow> acceptor" where
  "reset_high_water s a = a\<lparr>ac_high_water := s\<rparr>"

definition acceptor_handle :: "u64 \<Rightarrow> acceptor \<Rightarrow> vote_reply \<times> acceptor" where
  "acceptor_handle epoch a =
     (if epoch > ac_promised a
      then (Grant epoch (ac_high_water a), a\<lparr>ac_promised := epoch\<rparr>)
      else (Reject (ac_promised a), a))"

datatype election_outcome = Pending | Won u64 seq | Lost u64

record election =
  el_epoch :: u64
  el_needed :: nat
  el_granters :: "(u32, unit) btmap"
  el_sync_to :: seq
  el_highest_promised :: u64
  el_lost :: bool

definition election_new :: "u64 \<Rightarrow> nat \<Rightarrow> election" where
  "election_new epoch voters = \<lparr>el_epoch = epoch, el_needed = majority voters, el_granters = [],
     el_sync_to = GENESIS, el_highest_promised = 0, el_lost = False\<rparr>"

definition election_outcome_of :: "election \<Rightarrow> election_outcome" where
  "election_outcome_of el =
     (if length (el_granters el) \<ge> el_needed el then Won (el_epoch el) (el_sync_to el)
      else if el_lost el then Lost (el_highest_promised el)
      else Pending)"

definition on_reply :: "u32 \<Rightarrow> vote_reply \<Rightarrow> election \<Rightarrow> election_outcome \<times> election" where
  "on_reply from reply el =
     (let el = (case reply of
          Grant epoch hw \<Rightarrow>
            if epoch = el_epoch el
            then el\<lparr>el_granters := bt_insert from () (el_granters el), el_sync_to := max (el_sync_to el) hw\<rparr>
            else el
        | Reject promised \<Rightarrow>
            el\<lparr>el_highest_promised := max (el_highest_promised el) promised,
               el_lost := el_lost el \<or> promised \<ge> el_epoch el\<rparr>)
      in (election_outcome_of el, el))"

text \<open>
  \<open>run_election\<close>: the acceptors in turn, \<open>reply i\<close> being what the \<open>i\<close>-th answered (\<open>None\<close> when it
  was unreachable or its answer malformed); it stops at the first majority.
\<close>

fun tally :: "(nat \<Rightarrow> vote_reply option) \<Rightarrow> nat list \<Rightarrow> election \<Rightarrow> election_outcome" where
  "tally reply [] el = election_outcome_of el"
| "tally reply (i # is) el =
     (case reply i of
        None \<Rightarrow> tally reply is el
      | Some r \<Rightarrow>
          let (outcome, el) = on_reply (of_nat i) r el
          in (case outcome of Won e s \<Rightarrow> Won e s | _ \<Rightarrow> tally reply is el))"

definition run_election :: "u64 \<Rightarrow> nat \<Rightarrow> (nat \<Rightarrow> vote_reply option) \<Rightarrow> election_outcome" where
  "run_election epoch n reply = tally reply [0..<n] (election_new epoch n)"

section \<open>The epoch fence\<close>

record epoch_change =
  ec_epoch :: u64
  ec_first_seq :: seq
  ec_schema_version :: u32

abbreviation enc_fence :: "(u64 \<times> u64 \<times> u32) encoder" where
  "enc_fence \<equiv> enc_pair enc_int (enc_pair enc_int enc_int)"

abbreviation dec_fence :: "(u64 \<times> u64 \<times> u32) decoder" where
  "dec_fence \<equiv> dec_pair dec_int (dec_pair dec_int dec_int)"

definition epoch_to_frame :: "epoch_change \<Rightarrow> timestamp \<Rightarrow> u16 \<Rightarrow> frame option" where
  "epoch_to_frame ec ts sid =
     frame_new (ec_first_seq ec) ts sid EpochChange
       (encode_to_vec enc_fence (ec_epoch ec, ec_first_seq ec, ec_schema_version ec))"

definition epoch_from_frame :: "frame \<Rightarrow> (epoch_change, codec_error) result" where
  "epoch_from_frame f =
     (if length (f_payload f) \<ge> 20
      then rbind (decode_all dec_fence (f_payload f)) (\<lambda>(e, s, v).
             Ok \<lparr>ec_epoch = e, ec_first_seq = s, ec_schema_version = v\<rparr>)
      else rbind (decode_all (dec_pair dec_int dec_int) (f_payload f)) (\<lambda>(e, s).
             Ok \<lparr>ec_epoch = e, ec_first_seq = s, ec_schema_version = 0\<rparr>))"

section \<open>Vote messages\<close>

definition REQUEST_MAGIC :: bytes where
  "REQUEST_MAGIC = [0x54, 0x4B, 0x56, 0x51]"

definition REPLY_MAGIC :: bytes where
  "REPLY_MAGIC = [0x54, 0x4B, 0x56, 0x52]"

definition encode_request :: "u64 \<Rightarrow> bytes" where
  "encode_request epoch = (let h = REQUEST_MAGIC @ to_le_bytes epoch in h @ to_le_bytes (crc32c h))"

definition decode_request :: "bytes \<Rightarrow> u64 option" where
  "decode_request bs =
     (if take 4 bs \<noteq> REQUEST_MAGIC then None
      else if crc32c (take 12 bs) \<noteq> from_le_bytes (slice 12 16 bs) then None
      else Some (from_le_bytes (slice 4 12 bs)))"

definition encode_reply :: "vote_reply \<Rightarrow> bytes" where
  "encode_reply reply =
     (let (kind, a, b) = (case reply of Grant e hw \<Rightarrow> (0 :: u8, e, hw) | Reject p \<Rightarrow> (1, p, 0));
          h = REPLY_MAGIC @ [kind] @ to_le_bytes a @ to_le_bytes b
      in h @ to_le_bytes (crc32c h))"

definition decode_reply :: "bytes \<Rightarrow> vote_reply option" where
  "decode_reply bs =
     (if take 4 bs \<noteq> REPLY_MAGIC then None
      else if crc32c (take 21 bs) \<noteq> from_le_bytes (slice 21 25 bs) then None
      else
        let a = from_le_bytes (slice 5 13 bs); b = from_le_bytes (slice 13 21 bs)
        in if bs ! 4 = 0 then Some (Grant a b) else if bs ! 4 = 1 then Some (Reject a) else None)"

section \<open>Any number of candidates\<close>

text \<open>
  An attempt \<open>c\<close> is one \<open>Election\<close>; a retry is a new attempt. \<open>cl_net\<close> holds every reply ever
  sent, to the attempt that asked for it: a reply may be delivered late, repeatedly or never.
  A \<open>reset_high_water\<close> after a fence goes no lower than \<open>low\<close>.
\<close>

record 'c cluster =
  cl_acceptors :: "u32 \<Rightarrow> acceptor"
  cl_elections :: "'c \<Rightarrow> election option"
  cl_net :: "(u32 \<times> 'c \<times> vote_reply) set"

inductive el_step :: "u32 set \<Rightarrow> seq \<Rightarrow> 'c cluster \<Rightarrow> 'c cluster \<Rightarrow> bool" for U :: "u32 set" and low :: seq where
  el_start: "cl_elections s c = None \<Longrightarrow>
    el_step U low s (s\<lparr>cl_elections := (cl_elections s)(c \<mapsto> election_new e (card U))\<rparr>)"
| el_vote: "cl_elections s c = Some el \<Longrightarrow> i \<in> U \<Longrightarrow>
    acceptor_handle (el_epoch el) (cl_acceptors s i) = (reply, a) \<Longrightarrow>
    el_step U low s (s\<lparr>cl_acceptors := (cl_acceptors s)(i := a), cl_net := insert (i, c, reply) (cl_net s)\<rparr>)"
| el_deliver: "(i, c, reply) \<in> cl_net s \<Longrightarrow> cl_elections s c = Some el \<Longrightarrow>
    on_reply i reply el = (outcome, el') \<Longrightarrow>
    el_step U low s (s\<lparr>cl_elections := (cl_elections s)(c \<mapsto> el')\<rparr>)"
| el_observe: "i \<in> U \<Longrightarrow>
    el_step U low s (s\<lparr>cl_acceptors := (cl_acceptors s)(i := observe_seq n (cl_acceptors s i))\<rparr>)"
| el_reset: "i \<in> U \<Longrightarrow> low \<le> n \<Longrightarrow>
    el_step U low s (s\<lparr>cl_acceptors := (cl_acceptors s)(i := reset_high_water n (cl_acceptors s i))\<rparr>)"

definition cluster_init :: "'c cluster" where
  "cluster_init = \<lparr>cl_acceptors = (\<lambda>_. acceptor_new), cl_elections = Map.empty, cl_net = {}\<rparr>"

definition grants_promised :: "u32 set \<Rightarrow> 'c cluster \<Rightarrow> bool" where
  "grants_promised U s \<longleftrightarrow>
     (\<forall>i c e h. (i, c, Grant e h) \<in> cl_net s \<longrightarrow> i \<in> U \<and> e \<le> ac_promised (cl_acceptors s i))"

definition replies_known :: "'c cluster \<Rightarrow> bool" where
  "replies_known s \<longleftrightarrow> (\<forall>i c r. (i, c, r) \<in> cl_net s \<longrightarrow> cl_elections s c \<noteq> None)"

definition grants_once :: "'c cluster \<Rightarrow> bool" where
  "grants_once s \<longleftrightarrow>
     (\<forall>i c c' e h h'. (i, c, Grant e h) \<in> cl_net s \<longrightarrow> (i, c', Grant e h') \<in> cl_net s \<longrightarrow> c = c')"

definition tally_ok :: "u32 set \<Rightarrow> (u32 \<times> 'c \<times> vote_reply) set \<Rightarrow> 'c \<Rightarrow> election \<Rightarrow> bool" where
  "tally_ok U net c el \<longleftrightarrow> bt_ok (el_granters el) \<and> el_needed el = majority (card U) \<and>
     (\<forall>i \<in> fst ` set (el_granters el). \<exists>h. (i, c, Grant (el_epoch el) h) \<in> net \<and> h \<le> el_sync_to el)"

definition el_inv :: "u32 set \<Rightarrow> 'c cluster \<Rightarrow> bool" where
  "el_inv U s \<longleftrightarrow> grants_promised U s \<and> replies_known s \<and> grants_once s \<and>
     (\<forall>c el. cl_elections s c = Some el \<longrightarrow> tally_ok U (cl_net s) c el)"

lemmas el_inv_defs = el_inv_def grants_promised_def replies_known_def grants_once_def

lemma el_inv_init: "el_inv U cluster_init"
  by (simp add: el_inv_defs cluster_init_def)

lemma tally_ok_mono: "tally_ok U net c el \<Longrightarrow> net \<subseteq> net' \<Longrightarrow> tally_ok U net' c el"
  unfolding tally_ok_def by blast

lemma tally_ok_new: "tally_ok U net c (election_new e (card U))"
  by (simp add: tally_ok_def election_new_def)

lemma on_reply_epoch: "on_reply i r el = (out, el') \<Longrightarrow> el_epoch el' = el_epoch el \<and> el_needed el' = el_needed el"
  by (auto simp: on_reply_def Let_def split: vote_reply.splits if_splits)

lemma on_reply_granters:
  assumes "on_reply i r el = (out, el')" and "bt_ok (el_granters el)"
  shows "bt_ok (el_granters el') \<and> el_sync_to el \<le> el_sync_to el' \<and>
    (\<forall>j \<in> fst ` set (el_granters el'). j \<in> fst ` set (el_granters el) \<or>
       (j = i \<and> (\<exists>h. r = Grant (el_epoch el) h \<and> h \<le> el_sync_to el')))"
proof (cases "\<exists>h. r = Grant (el_epoch el) h")
  case True
  then obtain h where h: "r = Grant (el_epoch el) h" by blast
  then have "el' = el\<lparr>el_granters := bt_insert i () (el_granters el), el_sync_to := max (el_sync_to el) h\<rparr>"
    using assms(1) by (simp add: on_reply_def Let_def)
  moreover have "fst ` set (bt_insert i () (el_granters el)) = insert i (fst ` set (el_granters el))" by simp
  ultimately show ?thesis using assms(2) h by simp
next
  case False
  then have "el_granters el' = el_granters el" "el_sync_to el' = el_sync_to el"
    using assms(1) by (auto simp: on_reply_def Let_def split: vote_reply.splits if_splits)
  with assms(2) show ?thesis by simp
qed

lemma tally_ok_reply:
  assumes "tally_ok U net c el" and "on_reply i r el = (out, el')" and "(i, c, r) \<in> net"
  shows "tally_ok U net c el'"
proof -
  have ep: "el_epoch el' = el_epoch el" "el_needed el' = el_needed el" using on_reply_epoch [OF assms(2)] by simp_all
  have ok: "bt_ok (el_granters el)" using assms(1) by (simp add: tally_ok_def)
  note gr = on_reply_granters [OF assms(2) ok]
  have "\<exists>h. (j, c, Grant (el_epoch el') h) \<in> net \<and> h \<le> el_sync_to el'" if "j \<in> fst ` set (el_granters el')" for j
  proof -
    from gr that consider "j \<in> fst ` set (el_granters el)" | h where "j = i" "r = Grant (el_epoch el) h" "h \<le> el_sync_to el'"
      by blast
    then show ?thesis
    proof cases
      case 1
      then obtain h where "(j, c, Grant (el_epoch el) h) \<in> net" "h \<le> el_sync_to el"
        using assms(1) unfolding tally_ok_def by blast
      with gr ep(1) show ?thesis by (metis order_trans)
    next
      case 2
      with assms(3) ep(1) show ?thesis by auto
    qed
  qed
  with gr ep assms(1) show ?thesis by (simp add: tally_ok_def)
qed

lemma el_inv_vote:
  assumes inv: "el_inv U s" and el: "cl_elections s c = Some el" and i: "i \<in> U"
    and h: "acceptor_handle (el_epoch el) (cl_acceptors s i) = (reply, a)"
  shows "el_inv U (s\<lparr>cl_acceptors := (cl_acceptors s)(i := a), cl_net := insert (i, c, reply) (cl_net s)\<rparr>)"
    (is "el_inv U ?s")
proof -
  have p: "ac_promised (cl_acceptors s i) \<le> ac_promised a"
    and g: "\<And>e h. reply = Grant e h \<Longrightarrow> e = ac_promised a \<and> ac_promised (cl_acceptors s i) < e"
    using h by (auto simp: acceptor_handle_def split: if_splits)
  have old: "j \<in> U \<and> e \<le> ac_promised (cl_acceptors s j)" if "(j, c', Grant e h) \<in> cl_net s" for j c' e h
    using that inv unfolding el_inv_def grants_promised_def by blast
  have "j \<in> U \<and> e \<le> ac_promised (cl_acceptors ?s j)" if "(j, c', Grant e h) \<in> cl_net ?s" for j c' e h
    using that old [of j c' e h] p g i by (auto intro: order_trans)
  then have "grants_promised U ?s" by (simp only: grants_promised_def) blast
  moreover have "grants_once ?s"
    unfolding grants_once_def
  proof (intro allI impI)
    fix j c1 c2 e h1 h2
    assume m: "(j, c1, Grant e h1) \<in> cl_net ?s" "(j, c2, Grant e h2) \<in> cl_net ?s"
    have new: "False" if "reply = Grant e h" "(i, c', Grant e h') \<in> cl_net s" for c' h h'
      using old [OF that(2)] g [OF that(1)] by auto
    have keep: "c1 = c2" if "(j, c1, Grant e h1) \<in> cl_net s" "(j, c2, Grant e h2) \<in> cl_net s"
      using that inv unfolding el_inv_def grants_once_def by blast
    have cases: "(j = i \<and> c' = c \<and> reply = Grant e h) \<or> (j, c', Grant e h) \<in> cl_net s"
      if "(j, c', Grant e h) \<in> cl_net ?s" for c' h using that by auto
    from cases [OF m(1)] cases [OF m(2)] show "c1 = c2"
    proof (elim disjE conjE)
      assume "(j, c1, Grant e h1) \<in> cl_net s" "j = i" "reply = Grant e h2"
      then show ?thesis using new by blast
    next
      assume "(j, c2, Grant e h2) \<in> cl_net s" "j = i" "reply = Grant e h1"
      then show ?thesis using new by blast
    qed (simp, rule keep)
  qed
  moreover have "replies_known ?s"
  proof -
    have "\<forall>i c r. (i, c, r) \<in> cl_net s \<longrightarrow> cl_elections s c \<noteq> None"
      using inv unfolding el_inv_def replies_known_def by blast
    with el show ?thesis unfolding replies_known_def by auto
  qed
  moreover have "tally_ok U (cl_net ?s) c' e" if "cl_elections ?s c' = Some e" for c' e
  proof -
    have "tally_ok U (cl_net s) c' e" using that inv by (simp add: el_inv_def)
    then show ?thesis by (rule tally_ok_mono) auto
  qed
  ultimately show ?thesis by (simp only: el_inv_def) blast
qed

lemma el_inv_acceptors:
  assumes "el_inv U s" and "cl_net s' = cl_net s" and "cl_elections s' = cl_elections s"
    and "\<And>i. ac_promised (cl_acceptors s' i) = ac_promised (cl_acceptors s i)"
  shows "el_inv U s'"
  using assms(1) by (simp only: el_inv_defs assms(2-4))

lemma el_inv_elections:
  assumes inv: "el_inv U s" and "tally_ok U (cl_net s) c el'"
  shows "el_inv U (s\<lparr>cl_elections := (cl_elections s)(c \<mapsto> el')\<rparr>)" (is "el_inv U ?s")
proof -
  have "grants_promised U ?s" "grants_once ?s"
    using inv unfolding el_inv_def grants_promised_def grants_once_def by simp_all
  moreover have "replies_known ?s" using inv unfolding el_inv_def replies_known_def by auto
  moreover have "tally_ok U (cl_net ?s) c' e" if "cl_elections ?s c' = Some e" for c' e
    using that inv assms(2) unfolding el_inv_def by (cases "c' = c") auto
  ultimately show ?thesis by (simp only: el_inv_def) blast
qed

lemma el_inv_step: "el_step U low s s' \<Longrightarrow> el_inv U s \<Longrightarrow> el_inv U s'"
proof (induction rule: el_step.induct)
  case (el_start s c e)
  then show ?case by (intro el_inv_elections tally_ok_new)
next
  case (el_vote s c el i reply a)
  then show ?case by (intro el_inv_vote)
next
  case (el_deliver i c reply s el outcome el')
  then have "tally_ok U (cl_net s) c el" by (simp add: el_inv_def)
  with el_deliver show ?case by (blast intro: el_inv_elections tally_ok_reply)
next
  case (el_observe i s n)
  then show ?case by (elim el_inv_acceptors) (simp_all add: observe_seq_def)
next
  case (el_reset i n s)
  then show ?case by (elim el_inv_acceptors) (simp_all add: reset_high_water_def)
qed

lemma el_inv_steps: "(el_step U low)\<^sup>*\<^sup>* s s' \<Longrightarrow> el_inv U s \<Longrightarrow> el_inv U s'"
  by (induction rule: rtranclp_induct) (auto dest: el_inv_step)

text \<open>The granters of a won election are a quorum.\<close>

lemma won_quorum:
  assumes "el_inv U s" and "finite U" and "cl_elections s c = Some el" and "election_outcome_of el = Won e t"
  shows "e = el_epoch el \<and> t = el_sync_to el \<and> majority_of U (fst ` set (el_granters el)) \<and>
    (\<forall>i \<in> fst ` set (el_granters el). \<exists>h. (i, c, Grant e h) \<in> cl_net s \<and> h \<le> t)"
proof -
  have t: "tally_ok U (cl_net s) c el" using assms(1,3) by (simp add: el_inv_def)
  have w: "el_needed el \<le> length (el_granters el)" "e = el_epoch el" "t = el_sync_to el"
    using assms(4) by (auto simp: election_outcome_of_def split: if_splits)
  have "card (fst ` set (el_granters el)) = length (el_granters el)"
    using t distinct_card [of "map fst (el_granters el)"] by (simp add: tally_ok_def bt_ok_distinct)
  moreover have "fst ` set (el_granters el) \<subseteq> U"
    using t assms(1) unfolding tally_ok_def el_inv_def grants_promised_def by blast
  ultimately show ?thesis
    using t w assms(2) by (simp add: majority_of_def tally_ok_def)
qed

section \<open>A winner holds what was committed\<close>

text \<open>
  From a state in which the acceptors of \<open>P\<close> all hold everything up to \<open>low\<close>, what they vote
  in any later attempt reports at least \<open>low\<close>.
\<close>

definition committed_inv :: "u32 set \<Rightarrow> seq \<Rightarrow> ('c \<Rightarrow> bool) \<Rightarrow> 'c cluster \<Rightarrow> bool" where
  "committed_inv P low later s \<longleftrightarrow> (\<forall>i \<in> P. low \<le> ac_high_water (cl_acceptors s i)) \<and>
     (\<forall>i c e h. (i, c, Grant e h) \<in> cl_net s \<longrightarrow> i \<in> P \<longrightarrow> later c \<longrightarrow> low \<le> h)"

lemma committed_step:
  "el_step U low s s' \<Longrightarrow> committed_inv P low later s \<Longrightarrow> committed_inv P low later s'"
proof (induction rule: el_step.induct)
  case (el_start s c e)
  then show ?case by (simp add: committed_inv_def)
next
  case (el_vote s c el i reply a)
  have hw: "ac_high_water a = ac_high_water (cl_acceptors s i)"
    "\<And>e h. reply = Grant e h \<Longrightarrow> h = ac_high_water (cl_acceptors s i)"
    using el_vote.hyps(3) by (auto simp: acceptor_handle_def split: if_splits)
  have old: "\<forall>j \<in> P. low \<le> ac_high_water (cl_acceptors s j)"
    "\<And>j c e h. (j, c, Grant e h) \<in> cl_net s \<Longrightarrow> j \<in> P \<Longrightarrow> later c \<Longrightarrow> low \<le> h"
    using el_vote.prems unfolding committed_inv_def by blast+
  show ?case
    unfolding committed_inv_def using old(1) hw by (auto dest: old(2))
next
  case (el_deliver i c reply s el outcome el')
  then show ?case by (simp add: committed_inv_def)
next
  case (el_observe i s n)
  then show ?case unfolding committed_inv_def by (auto simp: observe_seq_def le_max_iff_disj)
next
  case (el_reset i n s)
  then show ?case unfolding committed_inv_def by (auto simp: reset_high_water_def)
qed

lemma committed_steps:
  "(el_step U low)\<^sup>*\<^sup>* s s' \<Longrightarrow> committed_inv P low later s \<Longrightarrow> committed_inv P low later s'"
  by (induction rule: rtranclp_induct) (auto dest: committed_step)

section \<open>Messages\<close>

interpretation fence_tail: codec "enc_pair enc_int enc_int" "dec_pair dec_int dec_int" "len_pair len_int len_int"
    "\<lambda>p :: u64 \<times> u32. True"
  using u64c.codec_pair [OF u32c.codec_axioms] by simp

interpretation fencec: codec enc_fence dec_fence "len_pair len_int (len_pair len_int len_int)"
    "\<lambda>p :: u64 \<times> u64 \<times> u32. True"
  using u64c.codec_pair [OF fence_tail.codec_axioms] by simp

lemma decode_request_encode: "decode_request (encode_request e) = Some e"
  by (simp add: decode_request_def encode_request_def Let_def REQUEST_MAGIC_def slice_def)

lemma decode_reply_encode: "decode_reply (encode_reply r) = Some r"
  by (cases r) (simp_all add: decode_reply_def encode_reply_def Let_def REPLY_MAGIC_def slice_def)

lemma epoch_roundtrip_frame:
  assumes "epoch_to_frame ec ts sid = Some f"
  shows "epoch_from_frame f = Ok ec \<and> f_kind f = EpochChange \<and> f_seq f = ec_first_seq ec"
proof -
  have f: "f = \<lparr>f_seq = ec_first_seq ec, f_timestamp = ts, f_stream_id = sid, f_kind = EpochChange,
      f_payload = encode_to_vec enc_fence (ec_epoch ec, ec_first_seq ec, ec_schema_version ec)\<rparr>"
    using assms by (simp add: epoch_to_frame_def frame_new_def split: if_splits)
  have "length (f_payload f) = 20" by (simp add: f encode_to_vec_def enc_pair_def enc_int_def)
  moreover have "decode_all dec_fence (f_payload f) = Ok (ec_epoch ec, ec_first_seq ec, ec_schema_version ec)"
    by (simp add: f fencec.decode_all_encode)
  ultimately show ?thesis by (simp add: epoch_from_frame_def f)
qed

section \<open>A bid that reaches a majority wins\<close>

lemma quick_win:
  assumes U: "0 \<in> U" "1 \<in> U" "card U = 3" and c: "cl_elections s c = None"
    and p: "ac_promised (cl_acceptors s 0) < e" "ac_promised (cl_acceptors s 1) < e"
  shows "\<exists>s' el. (el_step U low)\<^sup>*\<^sup>* s s' \<and> cl_elections s' c = Some el \<and>
    election_outcome_of el = Won e (max (ac_high_water (cl_acceptors s 0)) (ac_high_water (cl_acceptors s 1)))"
proof -
  let ?h0 = "ac_high_water (cl_acceptors s 0)" and ?h1 = "ac_high_water (cl_acceptors s 1)"
  let ?g0 = "(0, c, Grant e ?h0)" and ?g1 = "(1, c, Grant e ?h1)"
  let ?el0 = "election_new e (card U)"
  define s1 where "s1 = s\<lparr>cl_elections := (cl_elections s)(c \<mapsto> ?el0)\<rparr>"
  define s2 where "s2 = s1\<lparr>cl_acceptors := (cl_acceptors s1)(0 := (cl_acceptors s1 0)\<lparr>ac_promised := e\<rparr>), cl_net := insert ?g0 (cl_net s1)\<rparr>"
  define s3 where "s3 = s2\<lparr>cl_acceptors := (cl_acceptors s2)(1 := (cl_acceptors s2 1)\<lparr>ac_promised := e\<rparr>), cl_net := insert ?g1 (cl_net s2)\<rparr>"
  define el1 where "el1 = snd (on_reply 0 (Grant e ?h0) ?el0)"
  define el2 where "el2 = snd (on_reply 1 (Grant e ?h1) el1)"
  define s4 where "s4 = s3\<lparr>cl_elections := (cl_elections s3)(c \<mapsto> el1)\<rparr>"
  define s5 where "s5 = s4\<lparr>cl_elections := (cl_elections s4)(c \<mapsto> el2)\<rparr>"
  have "el_step U low s s1" unfolding s1_def by (rule el_start) (rule c)
  moreover have "el_step U low s1 s2"
    unfolding s2_def using U p by (intro el_vote [of _ c ?el0]) (simp_all add: s1_def acceptor_handle_def election_new_def)
  moreover have "el_step U low s2 s3"
    unfolding s3_def using U p by (intro el_vote [of _ c ?el0]) (simp_all add: s2_def s1_def acceptor_handle_def election_new_def)
  moreover have "el_step U low s3 s4"
    unfolding s4_def el1_def
    by (rule el_deliver [of 0 c "Grant e ?h0" _ ?el0 "fst (on_reply 0 (Grant e ?h0) ?el0)"]) (simp_all add: s3_def s2_def s1_def)
  moreover have "el_step U low s4 s5"
    unfolding s5_def el2_def
    by (rule el_deliver [of 1 c "Grant e ?h1" _ el1 "fst (on_reply 1 (Grant e ?h1) el1)"]) (simp_all add: s4_def s3_def s2_def s1_def)
  ultimately have run: "(el_step U low)\<^sup>*\<^sup>* s s5" by (meson converse_rtranclp_into_rtranclp rtranclp.rtrancl_refl)
  have "election_outcome_of el2 = Won e (max ?h0 ?h1)"
    using U(3) by (simp add: el2_def el1_def on_reply_def election_new_def election_outcome_of_def majority_def GENESIS_def Let_def)
  moreover have "cl_elections s5 c = Some el2" by (simp add: s5_def)
  ultimately show ?thesis using run by blast
qed

section \<open>Properties\<close>

text \<open>
  C8. At most one leader per epoch: however many candidates bid for whatever epochs, however
  requests and replies interleave, are lost, repeated or reordered, two elections that are
  won for the same epoch are the same election.
\<close>

theorem one_leader_per_epoch:
  assumes "(el_step U 0)\<^sup>*\<^sup>* cluster_init s" and "finite U"
    and "cl_elections s a = Some ea" and "election_outcome_of ea = Won e ta"
    and "cl_elections s b = Some eb" and "election_outcome_of eb = Won e tb"
  shows "a = b"
proof -
  have inv: "el_inv U s" using el_inv_steps [OF assms(1) el_inv_init] .
  note wa = won_quorum [OF inv assms(2,3,4)] and wb = won_quorum [OF inv assms(2,5,6)]
  show ?thesis
  proof (rule maj.quorum_unique [where votes = "\<lambda>i c. \<exists>h. (i, c, Grant e h) \<in> cl_net s"])
    show "majority_of U (fst ` set (el_granters ea))" "majority_of U (fst ` set (el_granters eb))"
      using wa wb by blast+
    show "c = c'" if "\<exists>h. (i, c, Grant e h) \<in> cl_net s" "\<exists>h. (i, c', Grant e h) \<in> cl_net s" for i c c'
      using that inv unfolding el_inv_def grants_once_def by blast
  qed (use wa wb in blast)+
qed

theorem one_leader_per_epoch_witness:
  "\<exists>s el. (el_step {0, 1, 2} 0)\<^sup>*\<^sup>* cluster_init s \<and> cl_elections s ''a'' = Some el \<and>
    election_outcome_of el = Won 5 0 \<and>
    {b. \<exists>eb tb. cl_elections s b = Some eb \<and> election_outcome_of eb = Won 5 tb} = {''a''}"
proof -
  have "\<exists>s el. (el_step {0, 1, 2} 0)\<^sup>*\<^sup>* cluster_init s \<and> cl_elections s ''a'' = Some el \<and> election_outcome_of el = Won 5 0"
    using quick_win [of "{0, 1, 2}" "cluster_init :: string cluster" "''a''" 5 0]
    by (simp add: cluster_init_def acceptor_new_def)
  then obtain s el where s: "(el_step {0, 1, 2} 0)\<^sup>*\<^sup>* cluster_init s" "cl_elections s ''a'' = Some el"
    "election_outcome_of el = Won 5 0" by blast
  have "b = ''a''" if "cl_elections s b = Some eb" "election_outcome_of eb = Won 5 tb" for b eb tb
    using one_leader_per_epoch [OF s(1) _ s(2,3) that] by simp
  with s show ?thesis by blast
qed

text \<open>
  C17. No committed input is lost on failover: once a majority of the replicas hold
  everything up to \<open>low\<close>, every election that starts later and is won tells its winner to sync
  to at least \<open>low\<close>, as long as no replica discards frames at or below \<open>low\<close>.
\<close>

theorem winner_covers_commit:
  assumes "(el_step U 0)\<^sup>*\<^sup>* cluster_init s0" and "finite U"
    and "majority_of U P" and "\<forall>i \<in> P. low \<le> ac_high_water (cl_acceptors s0 i)"
    and "(el_step U low)\<^sup>*\<^sup>* s0 s" and "cl_elections s0 c = None"
    and "cl_elections s c = Some el" and "election_outcome_of el = Won e sync_to"
  shows "low \<le> sync_to"
proof -
  have inv0: "el_inv U s0" using el_inv_steps [OF assms(1) el_inv_init] .
  have inv: "el_inv U s" by (rule el_inv_steps [OF assms(5) inv0])
  have "(i, c, r) \<notin> cl_net s0" for i r
    using inv0 assms(6) unfolding el_inv_def replies_known_def by blast
  then have "committed_inv P low (\<lambda>c'. c' = c) s0" using assms(4) by (simp add: committed_inv_def)
  from committed_steps [OF assms(5) this] have
    held: "(i, c, Grant e' h) \<in> cl_net s \<Longrightarrow> i \<in> P \<Longrightarrow> low \<le> h" for i e' h
    unfolding committed_inv_def by blast
  from won_quorum [OF inv assms(2,7,8)] obtain Q where
    Q: "majority_of U Q" "\<forall>i \<in> Q. \<exists>h. (i, c, Grant e h) \<in> cl_net s \<and> h \<le> sync_to" by blast
  from maj.quorum_meet [OF assms(3) Q(1)] obtain i where "i \<in> P" "i \<in> Q" by blast
  with Q(2) held show ?thesis by (meson order_trans)
qed

theorem winner_covers_commit_witness:
  "\<exists>s0 s el sync_to. (el_step {0, 1, 2} 7)\<^sup>*\<^sup>* s0 s \<and> cl_elections s ''b'' = Some el \<and>
    election_outcome_of el = Won 9 sync_to \<and> 7 \<le> sync_to"
proof -
  let ?U = "{0, 1, 2} :: u32 set" and ?i = "cluster_init :: string cluster"
  define s1 where "s1 = ?i\<lparr>cl_acceptors := (cl_acceptors ?i)(0 := observe_seq 7 (cl_acceptors ?i 0))\<rparr>"
  define s0 where "s0 = s1\<lparr>cl_acceptors := (cl_acceptors s1)(1 := observe_seq 8 (cl_acceptors s1 1))\<rparr>"
  have "el_step ?U 0 ?i s1" "el_step ?U 0 s1 s0"
    unfolding s0_def s1_def by (intro el_observe; simp)+
  then have r: "(el_step ?U 0)\<^sup>*\<^sup>* ?i s0" by (meson converse_rtranclp_into_rtranclp rtranclp.rtrancl_refl)
  have st: "cl_elections s0 ''b'' = None" "ac_promised (cl_acceptors s0 0) < 9" "ac_promised (cl_acceptors s0 1) < 9"
    "\<forall>i \<in> {0, 1}. 7 \<le> ac_high_water (cl_acceptors s0 i)"
    by (simp_all add: s0_def s1_def cluster_init_def observe_seq_def acceptor_new_def)
  have maj: "majority_of ?U {0, 1}" by (simp add: majority_of_def majority_def)
  from quick_win [of ?U s0 "''b''" 9 7] st obtain s el t where
    s: "(el_step ?U 7)\<^sup>*\<^sup>* s0 s" "cl_elections s ''b'' = Some el" "election_outcome_of el = Won 9 t" by auto
  from winner_covers_commit [OF r _ maj st(4) s(1) st(1) s(2,3)] s show ?thesis by auto
qed

text \<open>
  The messages of an election and of a failover mean the same on both sides: a vote
  request, a vote reply and an epoch fence decode to what was encoded, and a fence written
  before the schema version existed decodes with version 0.
\<close>

theorem cluster_messages_roundtrip:
  "decode_request (encode_request e) = Some e \<and> decode_reply (encode_reply r) = Some r \<and>
   (case epoch_to_frame ec ts sid of Some f \<Rightarrow> epoch_from_frame f = Ok ec | None \<Rightarrow> False) \<and>
   epoch_from_frame \<lparr>f_seq = s, f_timestamp = ts, f_stream_id = sid, f_kind = EpochChange,
       f_payload = encode_to_vec (enc_pair enc_int enc_int) (ep, s)\<rparr> =
     Ok \<lparr>ec_epoch = ep, ec_first_seq = s, ec_schema_version = 0\<rparr>"
proof -
  have "epoch_to_frame ec ts sid \<noteq> None"
    by (simp add: epoch_to_frame_def frame_new_def encode_to_vec_def enc_pair_def enc_int_def)
  then obtain f where f: "epoch_to_frame ec ts sid = Some f" by blast
  have legacy: "decode_all (dec_pair dec_int dec_int) (encode_to_vec (enc_pair enc_int enc_int) (ep, s)) = Ok (ep, s)"
    using codec.decode_all_encode [OF u64c.codec_pair [OF u64c.codec_axioms], of "(ep, s)"] by simp
  have short: "length (encode_to_vec (enc_pair enc_int enc_int) (ep, s)) = 16"
    by (simp add: encode_to_vec_def enc_pair_def enc_int_def)
  show ?thesis
    using decode_request_encode decode_reply_encode epoch_roundtrip_frame [OF f] f legacy short
    by (simp add: epoch_from_frame_def)
qed

end
