(* ===== verification/Replica.thy ===== *)
theory Replica
  imports Node_Props Transport Election
begin

text \<open>
  \<open>ticktape-transport/src/replica.rs\<close>: a follower applies the delivered frames to its own copy of
  the service. With the node and the receiver this gives the promise of replication: what a
  follower has applied is the leader's state after the same frames.
\<close>

section \<open>State and operations\<close>

datatype replica_error =
    OutOfOrder seq seq
  | ReplicaCorruptInput seq codec_error
  | SchemaMismatch u32 u32 seq

record 's replica =
  rp_service :: 's
  rp_seq :: seq

definition replica_new :: "('s, 'i, 'o, 'p, 'c) service \<Rightarrow> 'c \<Rightarrow> 's replica" where
  "replica_new SV cfg = \<lparr>rp_service = sv_genesis SV cfg, rp_seq = GENESIS\<rparr>"

definition replica_from_snapshot :: "('s, 'i, 'o, 'p, 'c) service \<Rightarrow> 'p \<Rightarrow> seq \<Rightarrow> 'c \<Rightarrow> 's replica" where
  "replica_from_snapshot SV snap s cfg = \<lparr>rp_service = sv_restore SV snap cfg, rp_seq = s\<rparr>"

text \<open>The timer requests of a step are dropped.\<close>

definition replica_step :: "frame \<Rightarrow> ('s, 'o) step \<Rightarrow> 's replica \<Rightarrow> 'o list \<times> 's replica" where
  "replica_step f st rp =
     (let (svc, c) = st (rp_service rp) (ctx_new (f_seq f) (f_timestamp f)) in (c_outputs c, rp\<lparr>rp_service := svc\<rparr>))"

definition replica_apply ::
  "('s, 'i, 'o, 'p, 'c) service \<Rightarrow> frame \<Rightarrow> 's replica \<Rightarrow> ('o list, replica_error) result \<times> 's replica"
where
  "replica_apply SV f rp =
     (let expected = seq_next (rp_seq rp) in
      if f_seq f \<noteq> expected then (Err (OutOfOrder expected (f_seq f)), rp)
      else
        let rp = rp\<lparr>rp_seq := f_seq f\<rparr> in
        case f_kind f of
          Input \<Rightarrow>
            (case decode_all (sv_dec_input SV) (f_payload f) of
               Err e \<Rightarrow> (Err (ReplicaCorruptInput (f_seq f) e), rp)
             | Ok input \<Rightarrow> let (outs, rp) = replica_step f (sv_apply SV (f_seq f) input) rp in (Ok outs, rp))
        | TimerFired \<Rightarrow>
            (case decode_all dec_int (f_payload f) of
               Err e \<Rightarrow> (Err (ReplicaCorruptInput (f_seq f) e), rp)
             | Ok tid \<Rightarrow> let (outs, rp) = replica_step f (sv_on_timer SV tid) rp in (Ok outs, rp))
        | EpochChange \<Rightarrow>
            if length (f_payload f) \<ge> 20
            then (case decode_all (dec_pair dec_int (dec_pair dec_int dec_int)) (f_payload f) of
                    Err e \<Rightarrow> (Err (ReplicaCorruptInput (f_seq f) e), rp)
                  | Ok (epoch :: u64, first :: u64, theirs :: u32) \<Rightarrow>
                      if theirs \<noteq> sv_schema_version SV
                      then (Err (SchemaMismatch theirs (sv_schema_version SV) (f_seq f)), rp)
                      else (Ok [], rp))
            else (Ok [], rp)
        | _ \<Rightarrow> (Ok [], rp))"

text \<open>A follower's loop: each delivered frame is applied, until one is refused.\<close>

fun replica_run ::
  "('s, 'i, 'o, 'p, 'c) service \<Rightarrow> frame list \<Rightarrow> 's replica \<Rightarrow> ('o list list, replica_error) result \<times> 's replica"
where
  "replica_run SV [] rp = (Ok [], rp)"
| "replica_run SV (f # fs) rp =
     (case replica_apply SV f rp of
        (Err e, rp) \<Rightarrow> (Err e, rp)
      | (Ok outs, rp) \<Rightarrow> (case replica_run SV fs rp of (r, rp) \<Rightarrow> (rbind r (\<lambda>os. Ok (outs # os)), rp)))"

section \<open>The fences of a node\<close>

definition fence_ok :: "('s, 'i, 'o, 'p, 'c) service \<Rightarrow> frame \<Rightarrow> bool" where
  "fence_ok SV f \<longleftrightarrow> (f_kind f = EpochChange \<longrightarrow>
     (\<exists>ep s. f_payload f = encode_to_vec (enc_pair enc_int (enc_pair enc_int enc_int)) (ep :: u64, s :: u64, sv_schema_version SV)))"

definition bus_all :: "(frame \<Rightarrow> bool) \<Rightarrow> ('s, 'o, 'c, 'k, 'f) node \<Rightarrow> bool" where
  "bus_all P n \<longleftrightarrow> (\<forall>ch \<in> set (n_bus n). \<forall>f \<in> set (snd ch). P f)"

lemma bus_all_publish: "bus_all P n \<Longrightarrow> P f \<Longrightarrow> bus_all P (n\<lparr>n_bus := bus_publish f (n_bus n)\<rparr>)"
  by (auto simp: bus_all_def bus_publish_def)

lemma bus_all_cong: "n_bus n' = n_bus n \<Longrightarrow> bus_all P n' = bus_all P n"
  by (simp add: bus_all_def)

lemma sequence_at_frame:
  assumes "sequence_at S t kind pl at n d = (Ok f, n', d')"
  shows "f_kind f = kind" "f_payload f = pl" "n_bus n' = n_bus n"
  using assms by (auto simp: sequence_at_def stage_frame_def frame_new_def Let_def split: prod.splits result.splits option.splits if_splits)

lemma sequence_frame_frame:
  assumes "sequence_frame E t kind pl n d = (Ok f, n', d')"
  shows "f_kind f = kind" "f_payload f = pl" "n_bus n' = n_bus n"
  using assms sequence_at_frame by (fastforce simp: sequence_frame_def read_clock_def split: prod.splits)+

lemma fence_ok_other: "f_kind f \<noteq> EpochChange \<Longrightarrow> fence_ok SV f"
  by (simp add: fence_ok_def)

lemma publish_bus:
  assumes "bus_all (fence_ok SV) n" and "n_bus n2 = n_bus n" and "f_kind f \<noteq> EpochChange"
  shows "bus_all (fence_ok SV) (n2\<lparr>n_bus := bus_publish f (n_bus n2)\<rparr>)"
  using assms bus_all_cong [of n2 n] by (intro bus_all_publish) (auto intro: fence_ok_other)

lemma maybe_snapshot_bus:
  assumes "maybe_snapshot E t s n d = (Ok u, n', d')" and "bus_all (fence_ok SV) n"
  shows "bus_all (fence_ok SV) n'"
proof -
  from assms(1) consider "n' = n"
    | mark n2 d1 d2 pl where "sequence_frame E t SnapshotMark pl n d1 = (Ok mark, n2, d2)"
        "n' = n2\<lparr>n_bus := bus_publish mark (n_bus n2)\<rparr>"
    by (auto simp: maybe_snapshot_def Let_def split: option.splits prod.splits result.splits if_splits)
  then show ?thesis
  proof cases
    case (2 mark n2 d1 d2 pl)
    note f = sequence_frame_frame [OF 2(1)]
    show ?thesis unfolding 2(2) by (rule publish_bus [OF assms(2) f(3)]) (simp add: f(1))
  qed (use assms(2) in simp)
qed

lemma finish_frame_bus:
  assumes "finish_frame E t f outs n d = (Ok rel, n', d')" and "bus_all (fence_ok SV) n" and "f_kind f \<noteq> EpochChange"
  shows "bus_all (fence_ok SV) n'"
proof -
  from assms(1) obtain n2 d2 where m: "maybe_snapshot E t (f_seq f) (n\<lparr>n_bus := bus_publish f (n_bus n)\<rparr>) d = (Ok (), n2, d2)"
    and n': "n_bus n' = n_bus n2"
    by (auto simp: finish_frame_def Let_def split: prod.splits result.splits option.splits)
  from maybe_snapshot_bus [OF m publish_bus [OF assms(2) refl assms(3)]] bus_all_cong [OF n'] show ?thesis by simp
qed

lemma run_step_bus: "run_step f st n = (outs, n') \<Longrightarrow> n_bus n' = n_bus n"
  by (auto simp: run_step_def split: prod.splits)

lemma fire_due_timers_bus:
  assumes "fire_due_timers E t rel n d = Some (Ok r, n', d')" and "bus_all (fence_ok SV) n"
  shows "bus_all (fence_ok SV) n'"
proof -
  have "bus_all (fence_ok SV) n \<longrightarrow> bus_all (fence_ok SV) n'"
    using assms(1)
  proof (induction rule: fire_due_timers_induct)
    case (fire n d tid w outs n1 d1 n' d')
    from fire(2) obtain f n2 d2 o3 n3 pl where
      sq: "sequence_at (e_storage E) t TimerFired pl (n_last_timestamp n) (n\<lparr>n_timers := w\<rparr>) d = (Ok f, n2, d2)"
      and step: "run_step f (sv_on_timer (e_service E) tid) n2 = (o3, n3)"
      and fin: "finish_frame E t f o3 n3 d2 = (Ok outs, n1, d1)"
      by (auto simp: fire_timer_def split: prod.splits result.splits)
    have "n_bus n3 = n_bus n" using run_step_bus [OF step] sequence_at_frame(3) [OF sq] by simp
    with finish_frame_bus [OF fin] sequence_at_frame(1) [OF sq] bus_all_cong fire(3) show ?case by fastforce
  qed simp
  with assms(2) show ?thesis by blast
qed

lemma submit_bus:
  assumes "submit E t i n d = Some (Ok r, n', d')" and "bus_all (fence_ok SV) n"
  shows "bus_all (fence_ok SV) n'"
proof -
  from assms(1) obtain f n2 d2 outs n3 rel1 n4 d4 rel pl where
    sf: "sequence_frame E t Input pl n d = (Ok f, n2, d2)"
    and step: "run_step f (sv_apply (e_service E) (f_seq f) i) n2 = (outs, n3)"
    and fin: "finish_frame E t f outs n3 d2 = (Ok rel1, n4, d4)"
    and fire: "fire_due_timers E t rel1 n4 d4 = Some (Ok rel, n', d')"
    by (auto simp: submit_def after_step_def rbind_Ok_iff split: prod.splits result.splits)
  have "n_bus n3 = n_bus n" using run_step_bus [OF step] sequence_frame_frame(3) [OF sf] by simp
  then have "bus_all (fence_ok SV) n3" using assms(2) bus_all_cong by metis
  from fire_due_timers_bus [OF fire finish_frame_bus [OF fin this]] sequence_frame_frame(1) [OF sf] show ?thesis by simp
qed

lemma tick_bus:
  assumes "node_tick E t n d = Some (Ok s, n', d')" and "bus_all (fence_ok SV) n"
  shows "bus_all (fence_ok SV) n'"
proof -
  from assms(1) obtain f n2 d2 n3 d3 r where
    sf: "sequence_frame E t Tick [] n d = (Ok f, n2, d2)"
    and snap: "maybe_snapshot E t (f_seq f) (n2\<lparr>n_bus := bus_publish f (n_bus n2)\<rparr>) d2 = (Ok (), n3, d3)"
    and fire: "fire_due_timers E t [] (node_note_self (f_seq f) n3) d3 = Some (Ok r, n', d')"
    by (auto simp: node_tick_def Let_def rbind_Ok_iff split: prod.splits result.splits)
  have "bus_all (fence_ok SV) n3"
    using maybe_snapshot_bus [OF snap publish_bus [OF assms(2)]] sequence_frame_frame [OF sf] by simp
  then have "bus_all (fence_ok SV) (node_note_self (f_seq f) n3)" by (simp add: bus_all_def node_note_self_def)
  then show ?thesis by (rule fire_due_timers_bus [OF fire])
qed

lemma fence_bus:
  assumes "node_fence E t ep n d = (Ok s, n', d')" and "bus_all (fence_ok (e_service E)) n"
  shows "bus_all (fence_ok (e_service E)) n'"
proof -
  from assms(1) obtain f n2 d2 n3 where
    sf: "sequence_frame E t EpochChange (encode_to_vec (enc_pair enc_int (enc_pair enc_int enc_int))
        (ep, seq_next (n_seq n), sv_schema_version (e_service E))) n d = (Ok f, n2, d2)"
    and snap: "maybe_snapshot E t (f_seq f) (n2\<lparr>n_bus := bus_publish f (n_bus n2)\<rparr>) d2 = (Ok (), n3, d')"
    and n': "n' = node_note_self (f_seq f) n3"
    by (auto simp: node_fence_def Let_def split: prod.splits result.splits)
  note f = sequence_frame_frame [OF sf]
  have "fence_ok (e_service E) f" using f(2) by (auto simp: fence_ok_def)
  moreover have "bus_all (fence_ok (e_service E)) n2" using f(3) assms(2) bus_all_cong by metis
  ultimately have "bus_all (fence_ok (e_service E)) n3" using maybe_snapshot_bus [OF snap bus_all_publish] by blast
  then show ?thesis by (simp add: n' bus_all_def node_note_self_def)
qed

lemma bus_all_observed: "bus_all P n \<Longrightarrow> f \<in> set (observed n) \<Longrightarrow> P f"
  by (cases "n_bus n") (auto simp: bus_all_def observed_def)

lemma node_run_fences:
  "node_run SV scfg vi sz cfg now n d base dur \<Longrightarrow> bus_all (fence_ok SV) n \<and> (\<forall>f \<in> set base. fence_ok SV f)"
proof (induction rule: node_run.induct)
  case (run_open t clock n d)
  then show ?case by (auto simp: node_subscribe_def bus_subscribe_def bus_all_def dest: open_bus)
next
  case (run_submit n d base dur i t r n' d')
  then show ?case by (auto intro: submit_bus)
next
  case (run_tick n d base dur t s n' d')
  then show ?case by (auto intro: tick_bus)
next
  case (run_fence n d base dur t ep s n' d')
  then show ?case using fence_bus [of "sim_env SV now"] by auto
next
  case (run_ack n d base dur rep s rel n')
  then show ?case using bus_all_cong [of n' n] by (auto simp: node_record_ack_def split: option.splits prod.splits)
next
  case (run_sync n d base dur t n' d')
  then show ?case using bus_all_cong [of n' n] by (auto simp: node_sync_def split: prod.splits result.splits)
next
  case (run_clock n d base dur k)
  then show ?case by (simp add: bus_all_def)
next
  case (run_crash n d base dur t clock flip r n' d')
  then show ?case
    using bus_all_observed [of "fence_ok SV" n]
    by (auto simp: node_subscribe_def bus_subscribe_def bus_all_def dest!: open_bus in_set_takeD)
qed

section \<open>A follower replays\<close>

lemma replica_apply_replay:
  assumes "replay_frame SV f (s, w) = Ok (s', w')" and "fence_ok SV f" and "f_seq f = q + 1"
  shows "\<exists>outs. replica_apply SV f \<lparr>rp_service = s, rp_seq = q\<rparr> = (Ok outs, \<lparr>rp_service = s', rp_seq = q + 1\<rparr>)"
proof (cases "f_kind f = EpochChange")
  case True
  with assms(2) obtain ep first where
    pl: "f_payload f = encode_to_vec (enc_pair enc_int (enc_pair enc_int enc_int)) (ep :: u64, first :: u64, sv_schema_version SV)"
    by (auto simp: fence_ok_def)
  have "decode_all (dec_pair dec_int (dec_pair dec_int dec_int)) (f_payload f) = Ok (ep, first, sv_schema_version SV)"
    unfolding pl by (rule fencec.decode_all_encode) simp
  with assms(1,3) True show ?thesis by (simp add: replica_apply_def replay_frame_def seq_next_def Let_def)
next
  case False
  with assms(1,3) show ?thesis
    by (cases "f_kind f") (auto simp: replica_apply_def replay_frame_def replica_step_def replay_step_def seq_next_def Let_def
        split: result.splits prod.splits)
qed

lemma replica_run_replay:
  assumes "replay_frames SV fs (s, w) = Ok (s', w')" and "\<forall>f \<in> set fs. fence_ok SV f" and "contiguous_from (q + 1) fs"
  shows "\<exists>outs. replica_run SV fs \<lparr>rp_service = s, rp_seq = q\<rparr> = (Ok outs, \<lparr>rp_service = s', rp_seq = q + of_nat (length fs)\<rparr>)"
  using assms
proof (induction fs arbitrary: s w q)
  case (Cons f fs)
  from Cons.prems(1) obtain s1 w1 where r1: "replay_frame SV f (s, w) = Ok (s1, w1)" "replay_frames SV fs (s1, w1) = Ok (s', w')"
    by (auto simp: rbind_Ok_iff)
  from replica_apply_replay [OF r1(1)] Cons.prems(2,3) obtain outs where
    a: "replica_apply SV f \<lparr>rp_service = s, rp_seq = q\<rparr> = (Ok outs, \<lparr>rp_service = s1, rp_seq = q + 1\<rparr>)" by auto
  from Cons.IH [OF r1(2), of "q + 1"] Cons.prems(2,3) a show ?case by (auto simp: add.assoc)
qed simp

section \<open>A leader that syncs every frame\<close>

text \<open>
  With \<open>FsyncPolicy::EveryFrame\<close> every call that returns has synced the journal, so that nothing that was published
  can be lost.
\<close>

definition settled :: "('s, 'o, 'c, 'k, 'f) node \<Rightarrow> bool" where
  "settled n \<longleftrightarrow> (jc_fsync (j_config (n_journal n)) = EveryFrame \<longrightarrow> \<not> j_dirty (n_journal n))"

lemma settled_cong: "n_journal n' = n_journal n \<Longrightarrow> settled n' = settled n"
  by (simp add: settled_def)

lemma sequence_at_settled:
  assumes "sequence_at S t kind pl at n d = (Ok f, n', d')"
  shows "settled n'"
  using assms every_frame_clean [of S t "[f]"]
  by (auto simp: sequence_at_def append_is_batch settled_def split: prod.splits result.splits option.splits)

lemma sequence_frame_settled:
  assumes "sequence_frame E t kind pl n d = (Ok f, n', d')"
  shows "settled n'"
  using assms sequence_at_settled by (fastforce simp: sequence_frame_def split: prod.splits)

lemma maybe_snapshot_settled:
  assumes "maybe_snapshot E t s n d = (Ok u, n', d')" and "settled n"
  shows "settled n'"
proof -
  from assms(1) consider "n' = n"
    | mark n2 d1 d2 pl where "sequence_frame E t SnapshotMark pl n d1 = (Ok mark, n2, d2)"
        "n' = n2\<lparr>n_bus := bus_publish mark (n_bus n2)\<rparr>"
    by (auto simp: maybe_snapshot_def Let_def split: option.splits prod.splits result.splits if_splits)
  then show ?thesis
  proof cases
    case (2 mark n2 d1 d2 pl)
    with sequence_frame_settled [OF 2(1)] show ?thesis by (simp add: settled_def)
  qed (use assms(2) in simp)
qed

lemma finish_frame_settled:
  assumes "finish_frame E t f outs n d = (Ok rel, n', d')" and "settled n"
  shows "settled n'"
proof -
  from assms(1) obtain n2 d2 where m: "maybe_snapshot E t (f_seq f) (n\<lparr>n_bus := bus_publish f (n_bus n)\<rparr>) d = (Ok (), n2, d2)"
    and n': "n_journal n' = n_journal n2"
    by (auto simp: finish_frame_def Let_def split: prod.splits result.splits option.splits)
  from maybe_snapshot_settled [OF m] assms(2) settled_cong [OF n'] show ?thesis by (simp add: settled_def)
qed

lemma run_step_journal: "run_step f st n = (outs, n') \<Longrightarrow> n_journal n' = n_journal n"
  by (auto simp: run_step_def split: prod.splits)

lemma fire_due_timers_settled:
  assumes "fire_due_timers E t rel n d = Some (Ok r, n', d')" and "settled n"
  shows "settled n'"
proof -
  have "settled n \<longrightarrow> settled n'"
    using assms(1)
  proof (induction rule: fire_due_timers_induct)
    case (fire n d tid w outs n1 d1 n' d')
    from fire(2) obtain f n2 d2 o3 n3 pl where
      sq: "sequence_at (e_storage E) t TimerFired pl (n_last_timestamp n) (n\<lparr>n_timers := w\<rparr>) d = (Ok f, n2, d2)"
      and step: "run_step f (sv_on_timer (e_service E) tid) n2 = (o3, n3)"
      and fin: "finish_frame E t f o3 n3 d2 = (Ok outs, n1, d1)"
      by (auto simp: fire_timer_def split: prod.splits result.splits)
    have "settled n3" using sequence_at_settled [OF sq] settled_cong [OF run_step_journal [OF step]] by simp
    with finish_frame_settled [OF fin] fire(3) show ?case by blast
  qed simp
  with assms(2) show ?thesis by blast
qed

lemma submit_settled:
  assumes "submit E t i n d = Some (Ok r, n', d')"
  shows "settled n'"
proof -
  from assms(1) obtain f n2 d2 outs n3 rel1 n4 d4 rel pl where
    sf: "sequence_frame E t Input pl n d = (Ok f, n2, d2)"
    and step: "run_step f (sv_apply (e_service E) (f_seq f) i) n2 = (outs, n3)"
    and fin: "finish_frame E t f outs n3 d2 = (Ok rel1, n4, d4)"
    and fire: "fire_due_timers E t rel1 n4 d4 = Some (Ok rel, n', d')"
    by (auto simp: submit_def after_step_def rbind_Ok_iff split: prod.splits result.splits)
  have "settled n3" using sequence_frame_settled [OF sf] settled_cong [OF run_step_journal [OF step]] by simp
  from fire_due_timers_settled [OF fire finish_frame_settled [OF fin this]] show ?thesis .
qed

lemma tick_settled:
  assumes "node_tick E t n d = Some (Ok s, n', d')"
  shows "settled n'"
proof -
  from assms(1) obtain f n2 d2 n3 d3 r where
    sf: "sequence_frame E t Tick [] n d = (Ok f, n2, d2)"
    and snap: "maybe_snapshot E t (f_seq f) (n2\<lparr>n_bus := bus_publish f (n_bus n2)\<rparr>) d2 = (Ok (), n3, d3)"
    and fire: "fire_due_timers E t [] (node_note_self (f_seq f) n3) d3 = Some (Ok r, n', d')"
    by (auto simp: node_tick_def Let_def rbind_Ok_iff split: prod.splits result.splits)
  have "settled n3" using maybe_snapshot_settled [OF snap] sequence_frame_settled [OF sf] by (simp add: settled_def)
  then have "settled (node_note_self (f_seq f) n3)" by (simp add: settled_def node_note_self_def)
  then show ?thesis by (rule fire_due_timers_settled [OF fire])
qed

lemma fence_settled:
  assumes "node_fence E t ep n d = (Ok s, n', d')"
  shows "settled n'"
proof -
  from assms(1) obtain f n2 d2 n3 pl where
    sf: "sequence_frame E t EpochChange pl n d = (Ok f, n2, d2)"
    and snap: "maybe_snapshot E t (f_seq f) (n2\<lparr>n_bus := bus_publish f (n_bus n2)\<rparr>) d2 = (Ok (), n3, d')"
    and n': "n' = node_note_self (f_seq f) n3"
    by (auto simp: node_fence_def Let_def split: prod.splits result.splits)
  have "settled n3" using maybe_snapshot_settled [OF snap] sequence_frame_settled [OF sf] by (simp add: settled_def)
  then show ?thesis by (simp add: n' settled_def node_note_self_def)
qed

section \<open>A leader and its follower\<close>

text \<open>One step of the leader: the steps of \<open>node_run\<close>, among them a power loss with the recovery from the disk.\<close>

inductive leader_step :: "('s, 'i, 'o, 'p, 'c) service \<Rightarrow> 'c \<Rightarrow> ('i \<Rightarrow> bool) \<Rightarrow> ('s \<Rightarrow> bool) \<Rightarrow> node_config \<Rightarrow>
    ('k \<Rightarrow> timestamp \<times> 'k) \<Rightarrow> ('s, 'o, 'c, 'k, sim_file) node \<Rightarrow> sim_disk \<Rightarrow> frame list \<Rightarrow> nat \<Rightarrow>
    ('s, 'o, 'c, 'k, sim_file) node \<Rightarrow> sim_disk \<Rightarrow> frame list \<Rightarrow> nat \<Rightarrow> bool"
  for SV scfg vi sz cfg now n d base dur
where
  step_submit: "vi i \<Longrightarrow> submit (sim_env SV now) t i n d = Some (Ok r, n', d') \<Longrightarrow> length (base @ observed n') + 1 < 2 ^ 64 \<Longrightarrow>
    leader_step SV scfg vi sz cfg now n d base dur n' d' base (durable dur (base @ observed n') n')"
| step_tick: "node_tick (sim_env SV now) t n d = Some (Ok s, n', d') \<Longrightarrow> length (base @ observed n') + 1 < 2 ^ 64 \<Longrightarrow>
    leader_step SV scfg vi sz cfg now n d base dur n' d' base (durable dur (base @ observed n') n')"
| step_fence: "node_fence (sim_env SV now) t ep n d = (Ok s, n', d') \<Longrightarrow> length (base @ observed n') + 1 < 2 ^ 64 \<Longrightarrow>
    leader_step SV scfg vi sz cfg now n d base dur n' d' base (durable dur (base @ observed n') n')"
| step_ack: "node_record_ack rep s n = (rel, n') \<Longrightarrow> leader_step SV scfg vi sz cfg now n d base dur n' d base dur"
| step_sync: "node_sync sim_storage t n d = (Ok (), n', d') \<Longrightarrow>
    leader_step SV scfg vi sz cfg now n d base dur n' d' base (length (base @ observed n))"
| step_clock: "leader_step SV scfg vi sz cfg now n d base dur (n\<lparr>n_clock := k\<rparr>) d base dur"
| step_crash: "service_laws.sizes_ok SV scfg sz (base @ observed n) \<Longrightarrow>
    node_open_with (sim_env SV now) t cfg scfg clock (fst (sim_crash flip r d)) = (Ok n', d') \<Longrightarrow>
    leader_step SV scfg vi sz cfg now n d base dur (node_subscribe n') d'
      (take (unat (n_seq n')) (base @ observed n)) (unat (n_seq n'))"

lemma leader_step_run:
  assumes "leader_step SV scfg vi sz cfg now n d base dur n' d' base' dur'" and "node_run SV scfg vi sz cfg now n d base dur"
  shows "node_run SV scfg vi sz cfg now n' d' base' dur'"
  using assms
proof induction
  case (step_submit i t r n' d')
  show ?case by (rule run_submit [OF step_submit(4,1-3)])
next
  case (step_tick t s n' d')
  show ?case by (rule run_tick [OF step_tick(3,1,2)])
next
  case (step_fence t ep s n' d')
  show ?case by (rule run_fence [OF step_fence(3,1,2)])
next
  case (step_ack rep s rel n')
  show ?case by (rule run_ack [OF step_ack(2,1)])
next
  case (step_sync t n' d')
  show ?case by (rule run_sync [OF step_sync(2,1)])
next
  case (step_clock k)
  show ?case by (rule run_clock [OF step_clock(1)])
next
  case (step_crash t clock flip r n' d')
  show ?case by (rule run_crash [OF step_crash(3,1,2)])
qed

text \<open>
  A follower beside the leader: it starts at any moment with an empty state, and then keeps what it received while the leader goes on,
  loses power and recovers. It ingests packets that tell the truth about what the leader has published so far, in any order,
  repeated or lost, and takes the frames that are next in line.
\<close>

inductive followed :: "('s, 'i, 'o, 'p, 'c) service \<Rightarrow> 'c \<Rightarrow> ('i \<Rightarrow> bool) \<Rightarrow> ('s \<Rightarrow> bool) \<Rightarrow> node_config \<Rightarrow>
    ('k \<Rightarrow> timestamp \<times> 'k) \<Rightarrow> ('s, 'o, 'c, 'k, sim_file) node \<Rightarrow> sim_disk \<Rightarrow> frame list \<Rightarrow> nat \<Rightarrow>
    reassembler \<Rightarrow> frame list \<Rightarrow> bool"
  for SV scfg vi sz cfg now
where
  fo_start: "node_run SV scfg vi sz cfg now n d base dur \<Longrightarrow>
    followed SV scfg vi sz cfg now n d base dur (reassembler_new 1) []"
| fo_leader: "followed SV scfg vi sz cfg now n d base dur r out \<Longrightarrow>
    leader_step SV scfg vi sz cfg now n d base dur n' d' base' dur' \<Longrightarrow>
    followed SV scfg vi sz cfg now n' d' base' dur' r out"
| fo_ingest: "followed SV scfg vi sz cfg now n d base dur r out \<Longrightarrow> genuine (base @ observed n) p \<Longrightarrow>
    ingest p r = (res, r') \<Longrightarrow> followed SV scfg vi sz cfg now n d base dur r' out"
| fo_next: "followed SV scfg vi sz cfg now n d base dur r out \<Longrightarrow> next_frame r = (Some f, r') \<Longrightarrow>
    followed SV scfg vi sz cfg now n d base dur r' (out @ [f])"

lemma genuine_mono: "genuine hist p \<Longrightarrow> genuine (hist @ xs) p"
  by (auto simp: genuine_def split: packet.splits)

lemma ra_run_mono: "ra_run hist s r out \<Longrightarrow> ra_run (hist @ xs) s r out"
  by (induction rule: ra_run.induct) (auto intro: ra_run.intros genuine_mono)

context simulated
begin

lemma run_settled:
  assumes "node_run SV scfg vi sz cfg now n d base dur" and "jc_fsync (nc_journal cfg) = EveryFrame" and "settled n"
  shows "durable k (base @ observed n) n = length (base @ observed n)"
  using node_run_inv [OF assms(1)] assms(2,3) by (simp add: run_inv_def Live_def journaled_def settled_def durable_def)

lemma node_run_synced:
  "node_run SV scfg vi sz cfg now n d base dur \<Longrightarrow> jc_fsync (nc_journal cfg) = EveryFrame \<Longrightarrow> dur = length (base @ observed n)"
proof (induction rule: node_run.induct)
  case (run_open t clock n d)
  then show ?case by (auto simp: node_subscribe_def observed_def bus_subscribe_def dest!: open_bus)
next
  case (run_submit n d base dur i t r n' d')
  from run_settled [OF node_run.run_submit [OF run_submit.hyps] run_submit.prems submit_settled [OF run_submit.hyps(3)]] show ?case .
next
  case (run_tick n d base dur t s n' d')
  from run_settled [OF node_run.run_tick [OF run_tick.hyps] run_tick.prems tick_settled [OF run_tick.hyps(2)]] show ?case .
next
  case (run_fence n d base dur t ep s n' d')
  from run_settled [OF node_run.run_fence [OF run_fence.hyps] run_fence.prems fence_settled [OF run_fence.hyps(2)]] show ?case .
next
  case (run_ack n d base dur rep s rel n')
  then show ?case by (auto simp: node_record_ack_def observed_def split: option.splits prod.splits)
next
  case (run_sync n d base dur t n' d')
  then show ?case by (auto simp: node_sync_def observed_def split: prod.splits result.splits)
next
  case (run_clock n d base dur k)
  then show ?case by (simp add: observed_def)
next
  case (run_crash n d base dur t clock flip r n' d')
  from run_crash_safe [OF run_crash.hyps(1,2), of t clock flip r] run_crash.hyps(3) obtain m where
    m: "m \<le> length (base @ observed n)" "n_seq n' = of_nat m" by auto
  have "length (base @ observed n) + 1 < 2 ^ 64" using node_run_inv [OF run_crash.hyps(1)] by (simp add: run_inv_def)
  with m have "unat (n_seq n') \<le> length (base @ observed n)" using unat_of_nat_hist [of m] by simp
  moreover have "observed (node_subscribe n') = []"
    using open_bus [OF run_crash.hyps(3)] by (simp add: node_subscribe_def observed_def bus_subscribe_def)
  ultimately show ?case by simp
qed

text \<open>The published history of such a leader only grows, through power losses too.\<close>

lemma leader_step_extends:
  assumes "leader_step SV scfg vi sz cfg now n d base dur n' d' base' dur'" and run: "node_run SV scfg vi sz cfg now n d base dur"
    and sync: "jc_fsync (nc_journal cfg) = EveryFrame"
  shows "\<exists>xs. base' @ observed n' = (base @ observed n) @ xs"
proof -
  have inv: "run_inv cfg base dur n d" by (rule node_run_inv [OF run])
  then have live: "Live (nc_journal cfg) (base @ observed n) dur n d" and bus: "n_bus n = [(True, observed n)]"
    by (simp_all add: run_inv_def)
  show ?thesis
    using assms(1)
  proof cases
    case (step_submit i t r)
    then obtain s rel where "submit (env_of now) t i n d = Some (Ok (s, rel), n', d')" by (cases r) auto
    from submit_live [OF live step_submit(3) this] published_observed(2) [OF _ bus] step_submit(1) show ?thesis by fastforce
  next
    case (step_tick t s)
    with tick_live [OF live step_tick(3)] published_observed(2) [OF _ bus] show ?thesis by fastforce
  next
    case (step_fence t ep s)
    with fence_live [OF live step_fence(3)] published_observed(2) [OF _ bus] show ?thesis by fastforce
  next
    case (step_ack rep s rel)
    with record_ack_live [OF live step_ack(4)] published_observed(2) [OF _ bus] show ?thesis by fastforce
  next
    case (step_sync t)
    with node_sync_live [OF live step_sync(3)] published_observed(2) [OF _ bus] show ?thesis by fastforce
  next
    case (step_clock k)
    then show ?thesis by (simp add: observed_def)
  next
    case (step_crash t clock flip r n0)
    from run_crash_safe [OF run step_crash(4), of t clock flip r] step_crash(5) obtain m where
      m: "dur \<le> m" "m \<le> length (base @ observed n)" "n_seq n0 = of_nat m" by auto
    have "length (base @ observed n) + 1 < 2 ^ 64" using inv by (simp add: run_inv_def)
    with m node_run_synced [OF run sync] have "unat (n_seq n0) = length (base @ observed n)" using unat_of_nat_hist [of m] by simp
    moreover have "observed n' = []"
      using open_bus [OF step_crash(5)] step_crash(1) by (simp add: node_subscribe_def observed_def bus_subscribe_def)
    ultimately show ?thesis using step_crash(2) by simp
  qed
qed

lemma followed_run:
  assumes "followed SV scfg vi sz cfg now n d base dur r out" and "jc_fsync (nc_journal cfg) = EveryFrame"
  shows "node_run SV scfg vi sz cfg now n d base dur \<and> ra_run (base @ observed n) 1 r out"
  using assms(1)
proof induction
  case (fo_start n d base dur)
  then show ?case by (simp add: ra_new)
next
  case (fo_leader n d base dur r out n' d' base' dur')
  from leader_step_extends [OF fo_leader.hyps(2) _ assms(2)] fo_leader.IH obtain xs where
    "base' @ observed n' = (base @ observed n) @ xs" by blast
  with ra_run_mono [of "base @ observed n" 1 r out xs] leader_step_run [OF fo_leader.hyps(2)] fo_leader.IH show ?case by simp
next
  case (fo_ingest n d base dur r out p res r')
  then show ?case by (blast intro: ra_ingest)
next
  case (fo_next n d base dur r out f r')
  then show ?case by (blast intro: ra_next)
qed

end

section \<open>Properties\<close>

text \<open>
  C4. Replication: take a leader that syncs every frame (\<open>FsyncPolicy::EveryFrame\<close>) and a follower that receives its stream over the
  lossy transport from the first frame on, while the leader takes inputs, snapshots, fences, loses power and recovers, any number
  of times. The follower never refuses a frame; what it received is a prefix of the leader's history, and its service is at every moment
  the replay of that prefix, numbered like the leader's stream; once it has received everything it has the leader's state. So no power
  loss of such a leader takes back a frame that the follower applied. (With a lazier policy the leader may lose published frames, and a
  follower that applied them is not a prefix any more: that case is not claimed.)
\<close>

theorem replica_mirrors_leader:
  assumes "service_laws SV scfg vi vs sz" and "jc_fsync (nc_journal cfg) = EveryFrame"
    and "followed SV scfg vi sz cfg now n d base dur r out"
  shows "\<exists>outs rp w. replica_run SV out (replica_new SV scfg) = (Ok outs, rp) \<and> rp_seq rp = of_nat (length out) \<and>
    out = take (length out) (base @ observed n) \<and>
    replay_frames SV out (sv_genesis SV scfg, wheel_new) = Ok (rp_service rp, w) \<and>
    (length out = length (base @ observed n) \<longrightarrow> rp_service rp = n_service n \<and> rp_seq rp = n_seq n)"
proof -
  note lead = simulated.followed_run [OF simulatedI [OF assms(1)] assms(3,2)]
  note node = conjunct1 [OF lead]
  define hist where "hist = base @ observed n"
  have run: "contiguous_from 1 hist" "n_seq n = of_nat (length hist)"
      "replay_frames SV hist (sv_genesis SV scfg, wheel_new) = Ok (n_service n, n_timers n)"
    using simulated.run_is_replay [OF simulatedI [OF assms(1)] node] by (auto simp: hist_def)
  have "length hist + 1 < 2 ^ 64"
    using simulated.node_run_inv [OF simulatedI [OF assms(1)] node]
    by (simp add: simulated.run_inv_def [OF simulatedI [OF assms(1)]] hist_def)
  with run(1) have str: "stream hist" by (rule stream.intro)
  have "stream.ra_inv hist 1 r out" using stream.ra_run_inv [OF str] lead by (simp add: hist_def)
  then have out: "out = take (length out) hist" by (simp add: stream.ra_inv_def [OF str])
  have ok: "\<forall>f \<in> set out. fence_ok SV f"
    using node_run_fences [OF node] bus_all_observed out by (metis hist_def Un_iff in_set_takeD set_append)
  have cont: "contiguous_from (0 + 1) out" using run(1) contiguous_take out by (metis add_0)
  have "rbind (replay_frames SV out (sv_genesis SV scfg, wheel_new)) (replay_frames SV (drop (length out) hist)) = Ok (n_service n, n_timers n)"
    using run(3) out replay_frames_append by (metis append_take_drop_id)
  then obtain s w where sw: "replay_frames SV out (sv_genesis SV scfg, wheel_new) = Ok (s, w)" by (auto simp: rbind_Ok_iff)
  from replica_run_replay [OF sw ok cont] obtain outs where
    rp: "replica_run SV out (replica_new SV scfg) = (Ok outs, \<lparr>rp_service = s, rp_seq = of_nat (length out)\<rparr>)"
    by (auto simp: replica_new_def GENESIS_def)
  have "length out = length hist \<longrightarrow> s = n_service n" using out sw run(3) by auto
  with rp sw run(2) out show ?thesis unfolding hist_def [symmetric] by (metis replica.select_convs(1,2))
qed

text \<open>A leader that took one input, which its follower received; then the leader lost power and recovered.\<close>

definition every_cfg :: node_config where
  "every_cfg = demo_cfg\<lparr>nc_journal := (nc_journal demo_cfg)\<lparr>jc_fsync := EveryFrame\<rparr>\<rparr>"

lemma every_run:
  "\<exists>(n :: (i64, evt, unit, u64, sim_file) node) d dur f. node_run counter () (\<lambda>_. True) (\<lambda>_. True) every_cfg manual_now n d [] dur \<and>
     observed n = [f]"
proof -
  obtain n :: "(i64, evt, unit, u64, sim_file) node" and d where
    op: "node_open_with (sim_env counter manual_now) 0 every_cfg () 7 sim_new = (Ok n, d)"
      "n_bus n = []" "n_timers n = wheel_new" "n_snapshot_every n = None"
    using counters.open_fresh [of manual_now 0 every_cfg 7] by (auto simp: every_cfg_def demo_cfg_def node_config_new_def)
  let ?n = "node_subscribe n"
  have run: "node_run counter () (\<lambda>_. True) (\<lambda>_. True) every_cfg manual_now ?n d [] 0" by (rule run_open [OF op(1)])
  have n: "n_snapshot_every ?n = None" "n_timers ?n = wheel_new" "observed ?n = []"
    using op(2-4) by (simp_all add: node_subscribe_def observed_def bus_subscribe_def)
  have "length (encode_to_vec (sv_enc_input counter) (Add 5)) \<le> 100"
    by (simp add: counter_def enc_cmd_def enc_enum_def enc_int_def encode_to_vec_def)
  then obtain rel n' d' f where
    "submit (sim_env counter manual_now) 0 (Add 5) ?n d = Some (Ok (seq_next (n_seq ?n), rel), n', d')" "observed n' = [f]"
    using counters.run_submits [OF run counter_quiet n(1,2), of "Add 5" 0] n(3)
    by (auto simp: MAX_PAYLOAD_LEN_def FRAME_HEADER_LEN_def every_cfg_def demo_cfg_def node_config_new_def journal_config_new_def)
  then show ?thesis using run_submit [OF run TrueI] by fastforce
qed

theorem replica_mirrors_leader_witness:
  "\<exists>(n :: (i64, evt, unit, u64, sim_file) node) d dur r f outs rp.
     followed counter () (\<lambda>_. True) (\<lambda>_. True) every_cfg manual_now n d [f] dur r [f] \<and> observed n = [] \<and>
     replica_run counter [f] (replica_new counter ()) = (Ok outs, rp) \<and> rp_service rp = n_service n \<and> rp_seq rp = 1"
proof -
  let ?F = "followed counter () (\<lambda>_. True) (\<lambda>_. True) every_cfg manual_now"
  obtain n :: "(i64, evt, unit, u64, sim_file) node" and d dur f where
    n: "node_run counter () (\<lambda>_. True) (\<lambda>_. True) every_cfg manual_now n d [] dur" "observed n = [f]" using every_run by blast
  have sync: "jc_fsync (nc_journal every_cfg) = EveryFrame" by (simp add: every_cfg_def)
  have "f_seq f = 1" using counters.run_is_replay [OF n(1)] n(2) by simp
  have "genuine ([] @ observed n) (Data 7 [f])" using n(2) by (simp add: genuine_def)
  from fo_next [OF fo_ingest [OF fo_start [OF n(1)] this ingest_first [OF \<open>f_seq f = 1\<close>]]]
  obtain r where r: "?F n d [] dur r [f]" by (auto simp: next_frame_def bt_get_def)
  from counters.run_crash_safe [OF n(1), of 1 8 True "rng_new 3"] counter_sizes obtain n' d' m where
    c: "node_open_with (sim_env counter manual_now) 1 every_cfg () 8 (fst (sim_crash True (rng_new 3) d)) = (Ok n', d')"
      "dur \<le> m" "m \<le> 1" "n_seq n' = of_nat m" using n(2) by auto
  have "dur = 1" using counters.node_run_synced [OF n(1) sync] n(2) by simp
  with c have "unat (n_seq n') = 1" by simp
  with fo_leader [OF r step_crash [OF _ c(1)]] counter_sizes n(2)
  have f1: "?F (node_subscribe n') d' [f] 1 r [f]" by simp
  have "observed (node_subscribe n') = []" using open_bus [OF c(1)] by (simp add: node_subscribe_def observed_def bus_subscribe_def)
  note gone = this
  with replica_mirrors_leader [OF counterl.service_laws_axioms sync f1] obtain outs rp where
    "replica_run counter [f] (replica_new counter ()) = (Ok outs, rp)" "rp_service rp = n_service (node_subscribe n')" "rp_seq rp = 1"
    by (auto simp del: replica_run.simps)
  with f1 gone show ?thesis by blast
qed

end
