(* ===== verification/Persist.thy ===== *)
theory Persist
  imports Election Snapshot
begin

text \<open>
  \<open>ticktape-cluster/src/persist.rs\<close>: the acceptor whose promise survives crashes, over any
  storage, and \<open>AcceptorServer::serve_one\<close> of \<open>net.rs\<close>. The relation \<open>pa_run\<close> interleaves
  vote requests with power losses, also in the middle of the durable write.
\<close>

section \<open>The record\<close>

definition ACCEPTOR_MAGIC :: bytes where
  "ACCEPTOR_MAGIC = [0x54, 0x4B, 0x41, 0x50]"

datatype persist_reason = WrongLength | BadAcceptorMagic | CrcMismatch

datatype persist_error = PersistIo io_error | PersistCorrupt persist_reason

definition acceptor_record :: "u64 \<Rightarrow> bytes" where
  "acceptor_record promised =
     (let h = ACCEPTOR_MAGIC @ to_le_bytes promised in h @ to_le_bytes (crc32c h))"

definition parse_record :: "bytes \<Rightarrow> (u64, persist_error) result" where
  "parse_record bs =
     (if length bs \<noteq> 16 then Err (PersistCorrupt WrongLength)
      else if take 4 bs \<noteq> ACCEPTOR_MAGIC then Err (PersistCorrupt BadAcceptorMagic)
      else if crc32c (take 12 bs) \<noteq> from_le_bytes (slice 12 16 bs) then Err (PersistCorrupt CrcMismatch)
      else Ok (from_le_bytes (slice 4 12 bs)))"

section \<open>Operations\<close>

definition pa_open :: "('d, 'f) storage \<Rightarrow> path \<Rightarrow> 'd \<Rightarrow> (acceptor, persist_error) result" where
  "pa_open S p d =
     (case st_read S p d of
        Ok bs \<Rightarrow>
          rbind (parse_record bs) (\<lambda>promised.
            Ok (if promised > 0 then snd (acceptor_handle promised acceptor_new) else acceptor_new))
      | Err e \<Rightarrow> if e = NotFound then Ok acceptor_new else Err (PersistIo e))"

text \<open>
  \<open>persist\<close> in two parts: the file is made empty (\<open>create_new\<close>, or \<open>truncate\<close> and
  \<open>open_append\<close> when it exists), then the record is written and synced.
\<close>

definition pa_reset :: "('d, 'f) storage \<Rightarrow> path \<Rightarrow> 'd \<Rightarrow> ('f, io_error) result \<times> 'd" where
  "pa_reset S p d =
     (case st_create_new S p d of
        (Ok f, d) \<Rightarrow> (Ok f, d)
      | (Err e, d) \<Rightarrow>
          if e = AlreadyExists
          then sbind (st_truncate S p 0 d) (\<lambda>_ d. (st_open_append S p d, d))
          else (Err e, d))"

definition pa_persist :: "('d, 'f) storage \<Rightarrow> path \<Rightarrow> u64 \<Rightarrow> 'd \<Rightarrow> (unit, io_error) result \<times> 'd" where
  "pa_persist S p promised d =
     sbind (pa_reset S p d) (\<lambda>f d.
     sbind (st_write_all S f (acceptor_record promised) d) (\<lambda>_ d.
       st_sync_data S f d))"

definition pa_handle ::
  "('d, 'f) storage \<Rightarrow> path \<Rightarrow> u64 \<Rightarrow> acceptor \<Rightarrow> 'd \<Rightarrow> (vote_reply, persist_error) result \<times> acceptor \<times> 'd"
where
  "pa_handle S p epoch a d =
     (let (reply, a') = acceptor_handle epoch a in
      if ac_promised a' > ac_promised a
      then (case pa_persist S p (ac_promised a') d of
              (Ok _, d) \<Rightarrow> (Ok reply, a', d)
            | (Err e, d) \<Rightarrow> (Err (PersistIo e), a', d))
      else (Ok reply, a', d))"

text \<open>One connection of the acceptor server: the bytes read, the bytes written back.\<close>

definition serve_one ::
  "('d, 'f) storage \<Rightarrow> path \<Rightarrow> bytes \<Rightarrow> acceptor \<Rightarrow> 'd \<Rightarrow> bytes option \<times> acceptor \<times> 'd"
where
  "serve_one S p req a d =
     (case decode_request req of
        None \<Rightarrow> (None, a, d)
      | Some epoch \<Rightarrow>
          (case pa_handle S p epoch a d of
             (Ok reply, a, d) \<Rightarrow> (Some (encode_reply reply), a, d)
           | (Err _, a, d) \<Rightarrow> (None, a, d)))"

section \<open>Records and crashes\<close>

lemma acceptor_record_block: "acceptor_record p = crc_block (ACCEPTOR_MAGIC @ to_le_bytes p)"
  by (simp add: acceptor_record_def crc_block_def Let_def)

lemma length_acceptor_record [simp]: "length (acceptor_record p) = 16"
  by (simp add: acceptor_record_def Let_def ACCEPTOR_MAGIC_def)

lemma parse_acceptor_record [simp]: "parse_record (acceptor_record p) = Ok p"
  by (simp add: parse_record_def acceptor_record_def Let_def ACCEPTOR_MAGIC_def slice_def)

lemma parse_record_damaged:
  assumes "damaged (acceptor_record p) x" and "parse_record x = Ok q"
  shows "x = acceptor_record p \<and> q = p"
proof -
  let ?h = "ACCEPTOR_MAGIC @ to_le_bytes p"
  have h: "length ?h = 12" by (simp add: ACCEPTOR_MAGIC_def)
  have len: "length x = 16" and crc: "crc32c (take 12 x) = from_le_bytes (slice 12 16 x)"
    using assms(2) by (auto simp: parse_record_def split: if_splits)
  have "x = crc_block ?h"
  proof (rule ccontr)
    assume "x \<noteq> crc_block ?h"
    with damaged_block [of ?h x] assms(1) len h crc show False
      by (simp add: acceptor_record_block slice_def)
  qed
  then have "x = acceptor_record p" by (simp add: acceptor_record_block)
  with assms(2) show ?thesis by simp
qed

lemma handle_promised:
  "ac_promised (snd (acceptor_handle e a)) = max (ac_promised a) e"
  "fst (acceptor_handle e a) = Grant g h \<Longrightarrow> g = e \<and> ac_promised a < e"
  by (auto simp: acceptor_handle_def split: if_splits)

lemma reopened_promised:
  "ac_promised (if q > 0 then snd (acceptor_handle q acceptor_new) else acceptor_new) = q"
  by (simp add: handle_promised) (simp add: acceptor_new_def word_gt_0)

context storage_laws
begin

text \<open>The durable record agrees with the promise.\<close>

definition pa_inv :: "path \<Rightarrow> u64 \<Rightarrow> 'd \<Rightarrow> bool" where
  "pa_inv p promised d \<longleftrightarrow> ok d \<and> content d p = stable d p \<and>
     (content d p = Some (acceptor_record promised) \<or> content d p = None \<and> promised = 0)"

lemma pa_open_cases:
  assumes "ok d" and "pa_open S p d = Ok a"
  shows "content d p = None \<and> ac_promised a = 0 \<or>
    (\<exists>bs. content d p = Some bs \<and> parse_record bs = Ok (ac_promised a))"
proof (cases "content d p")
  case None
  with assms(2) read [OF assms(1), of p] show ?thesis by (auto simp: pa_open_def acceptor_new_def)
next
  case (Some bs)
  with assms(2) read [OF assms(1), of p] obtain q where
    "parse_record bs = Ok q" "a = (if q > 0 then snd (acceptor_handle q acceptor_new) else acceptor_new)"
    by (auto simp: pa_open_def rbind_Ok_iff)
  with Some reopened_promised [of q] show ?thesis by simp
qed

lemma pa_reset_ok:
  assumes "ok d"
  shows "\<exists>f d'. pa_reset S p d = (Ok f, d') \<and> ok d' \<and> live f d' = Some p \<and>
    content d' = (content d)(p \<mapsto> []) \<and> stable d' = (stable d)(p \<mapsto> [])"
proof (cases "content d p")
  case None
  from create_new_fresh [OF assms this] show ?thesis by (auto simp: pa_reset_def)
next
  case (Some bs)
  from truncate [OF assms Some, of 0] obtain d' where
    d': "st_truncate S p 0 d = (Ok (), d')" "ok d'" "content d' = (content d)(p \<mapsto> [])" "stable d' = (stable d)(p \<mapsto> [])"
    by auto
  have "content d' p \<noteq> None" using d'(3) by simp
  from open_append [OF d'(2) this] obtain f where "st_open_append S p d' = Ok f" "live f d' = Some p" by blast
  with d' create_new_exists [OF assms, of p] Some show ?thesis by (simp add: pa_reset_def)
qed

lemma pa_persist_steps:
  assumes "ok d"
  shows "\<exists>f d1 d2 d3. pa_reset S p d = (Ok f, d1) \<and> st_write_all S f (acceptor_record n) d1 = (Ok (), d2) \<and>
    pa_persist S p n d = (Ok (), d3) \<and> ok d1 \<and> ok d2 \<and> pa_inv p n d3 \<and>
    content d1 p = Some [] \<and> stable d1 p = Some [] \<and>
    content d2 p = Some (acceptor_record n) \<and> stable d2 p = Some []"
proof -
  from pa_reset_ok [OF assms, of p] obtain f d1 where
    d1: "pa_reset S p d = (Ok f, d1)" "ok d1" "live f d1 = Some p" "content d1 p = Some []" "stable d1 p = Some []" by auto
  from write_all [OF d1(2,3,4), of "acceptor_record n"] obtain d2 where
    d2: "st_write_all S f (acceptor_record n) d1 = (Ok (), d2)" "ok d2" "content d2 p = Some (acceptor_record n)"
      "stable d2 p = Some []" "live f d2 = Some p" using d1(3,5) by auto
  from sync_data [OF d2(2,5)] obtain d3 where
    "st_sync_data S f d2 = (Ok (), d3)" "ok d3" "content d3 = content d2" "stable d3 = (stable d2)(p := content d2 p)" by blast
  with d1 d2 show ?thesis
    by (intro exI [of _ f] exI [of _ d1] exI [of _ d2] exI [of _ d3]) (simp add: pa_persist_def pa_inv_def)
qed

lemma pa_handle_inv:
  assumes inv: "pa_inv p (ac_promised a) d"
  shows "\<exists>a' d'. pa_handle S p e a d = (Ok (fst (acceptor_handle e a)), a', d') \<and> pa_inv p (ac_promised a') d' \<and>
    a' = snd (acceptor_handle e a)"
proof (cases "ac_promised (snd (acceptor_handle e a)) > ac_promised a")
  case True
  have "ok d" using inv by (simp add: pa_inv_def)
  from pa_persist_steps [OF this, of p "ac_promised (snd (acceptor_handle e a))"] True show ?thesis
    by (auto simp: pa_handle_def split_beta Let_def)
next
  case False
  then have "snd (acceptor_handle e a) = a" by (auto simp: acceptor_handle_def split: if_splits)
  with False inv show ?thesis by (simp add: pa_handle_def split_beta Let_def)
qed

end

context crashing_storage
begin

lemma pa_crash_inv:
  assumes "pa_inv p n d" and pl: "power_loss d d'" and "pa_open S p d' = Ok a"
  shows "pa_inv p (ac_promised a) d' \<and> ac_promised a = n"
proof -
  have okd: "ok d" and cs: "content d p = stable d p" using assms(1) by (simp_all add: pa_inv_def)
  have okd': "ok d'" by (rule power_loss_ok [OF okd pl])
  have c: "content d' p = content d p" "stable d' p = content d p"
    using power_loss_synced [OF okd pl cs] cs by simp_all
  from assms(1) have pc: "content d p = Some (acceptor_record n) \<or> content d p = None \<and> n = 0"
    unfolding pa_inv_def by blast
  with pa_open_cases [OF okd' assms(3)] c have n: "ac_promised a = n" by auto
  show ?thesis unfolding pa_inv_def c n using okd' pc by blast
qed

text \<open>Power lost inside \<open>persist\<close>: if the acceptor opens at all, it remembers the new promise.\<close>

lemma pa_torn_inv:
  assumes "ok d" and "content d p = Some (acceptor_record n) \<or> content d p = Some []" and "stable d p = Some []"
    and pl: "power_loss d d'" and "pa_open S p d' = Ok a"
  shows "pa_inv p (ac_promised a) d' \<and> ac_promised a = n"
proof -
  have okd': "ok d'" by (rule power_loss_ok [OF assms(1) pl])
  obtain bs where bs: "content d p = Some bs" "bs = acceptor_record n \<or> bs = []" using assms(2) by auto
  from power_loss_content [OF assms(1) pl bs(1) assms(3)] obtain x where
    x: "content d' p = Some x" "stable d' p = Some x" "survives [] ([] @ bs) x" by auto
  have dam: "damaged bs x" using survives_damaged [OF x(3)] by simp
  from pa_open_cases [OF okd' assms(5)] x(1) obtain q where q: "parse_record x = Ok q" "ac_promised a = q" by auto
  have "bs \<noteq> []"
  proof
    assume "bs = []"
    with dam have "x = []" by (auto simp: damaged_def)
    with q(1) show False by (simp add: parse_record_def)
  qed
  with bs(2) dam have "damaged (acceptor_record n) x" by simp
  from parse_record_damaged [OF this q(1)] q(2) okd' x show ?thesis by (simp add: pa_inv_def)
qed

end

section \<open>Reachable states\<close>

text \<open>
  One acceptor with its disk and the epochs it granted, oldest first. A crash may strike
  between requests, or inside \<open>persist\<close> after the file was emptied or after the record was
  written but not synced; in these cases no grant was sent. After a crash the run continues
  only if the acceptor opens.
\<close>

inductive pa_run :: "path \<Rightarrow> acceptor \<Rightarrow> sim_disk \<Rightarrow> u64 list \<Rightarrow> bool" for p :: path where
  pa_start: "pa_open sim_storage p sim_new = Ok a \<Longrightarrow> pa_run p a sim_new []"
| pa_grant: "pa_run p a d gs \<Longrightarrow> pa_handle sim_storage p e a d = (Ok (Grant g h), a', d') \<Longrightarrow> pa_run p a' d' (gs @ [g])"
| pa_reject: "pa_run p a d gs \<Longrightarrow> pa_handle sim_storage p e a d = (Ok (Reject q), a', d') \<Longrightarrow> pa_run p a' d' gs"
| pa_observe: "pa_run p a d gs \<Longrightarrow> pa_run p (observe_seq n a) d gs"
| pa_reset_hw: "pa_run p a d gs \<Longrightarrow> pa_run p (reset_high_water n a) d gs"
| pa_crash: "pa_run p a d gs \<Longrightarrow> pa_open sim_storage p (fst (sim_crash flip r d)) = Ok a' \<Longrightarrow>
    pa_run p a' (fst (sim_crash flip r d)) gs"
| pa_crash_emptied: "pa_run p a d gs \<Longrightarrow> ac_promised a < e \<Longrightarrow> pa_reset sim_storage p d = (Ok f, d1) \<Longrightarrow>
    pa_open sim_storage p (fst (sim_crash flip r d1)) = Ok a' \<Longrightarrow> pa_run p a' (fst (sim_crash flip r d1)) gs"
| pa_crash_written: "pa_run p a d gs \<Longrightarrow> ac_promised a < e \<Longrightarrow> pa_reset sim_storage p d = (Ok f, d1) \<Longrightarrow>
    sim_write_all f (acceptor_record e) d1 = (Ok (), d2) \<Longrightarrow>
    pa_open sim_storage p (fst (sim_crash flip r d2)) = Ok a' \<Longrightarrow> pa_run p a' (fst (sim_crash flip r d2)) gs"

lemma pa_run_inv: "pa_run p a d gs \<Longrightarrow>
   sim.pa_inv p (ac_promised a) d \<and> sorted_wrt (<) gs \<and> (\<forall>g \<in> set gs. g \<le> ac_promised a)"
proof (induction rule: pa_run.induct)
  case (pa_start a)
  have c: "sim_ok sim_new" "sim_content sim_new p = None" "sim_stable sim_new p = None"
    by (simp_all add: sim_new_def sim_ok_def sim_content_def sim_stable_def)
  with sim.pa_open_cases [OF c(1) pa_start] show ?case by (simp add: sim.pa_inv_def)
next
  case (pa_grant a d gs e g h a' d')
  from sim.pa_handle_inv [of p a d e] pa_grant have
    i: "sim.pa_inv p (ac_promised a') d'" "fst (acceptor_handle e a) = Grant g h" "a' = snd (acceptor_handle e a)" by auto
  have "g = e" "ac_promised a < e" using handle_promised(2) [OF i(2)] by simp_all
  moreover have "ac_promised a' = e" using i(3) handle_promised(1) [of e a] calculation by simp
  ultimately show ?case using pa_grant.IH i(1) by (auto simp: sorted_wrt_append intro: le_less_trans order.strict_implies_order)
next
  case (pa_reject a d gs e q a' d')
  from sim.pa_handle_inv [of p a d e] pa_reject have
    i: "sim.pa_inv p (ac_promised a') d'" "a' = snd (acceptor_handle e a)" by auto
  then have "ac_promised a \<le> ac_promised a'" by (simp add: handle_promised)
  with i pa_reject.IH show ?case by (auto intro: order_trans)
next
  case (pa_observe a d gs n)
  then show ?case by (simp add: observe_seq_def)
next
  case (pa_reset_hw a d gs n)
  then show ?case by (simp add: reset_high_water_def)
next
  case (pa_crash a d gs flip r a')
  then show ?case using simc.pa_crash_inv [of p "ac_promised a" d "fst (sim_crash flip r d)" a'] by auto
next
  case (pa_crash_emptied a d gs e f d1 flip r a')
  have "sim_ok d" using pa_crash_emptied.IH by (simp add: sim.pa_inv_def)
  from sim.pa_persist_steps [OF this, of p e] pa_crash_emptied.hyps(3) have
    "sim_ok d1" "sim_content d1 p = Some []" "sim_stable d1 p = Some []" by auto
  then have "sim.pa_inv p (ac_promised a') (fst (sim_crash flip r d1)) \<and> ac_promised a' = e"
    using pa_crash_emptied.hyps(4) by (intro simc.pa_torn_inv [of d1]) auto
  with pa_crash_emptied show ?case by (auto intro: order_trans order.strict_implies_order)
next
  case (pa_crash_written a d gs e f d1 d2 flip r a')
  have "sim_ok d" using pa_crash_written.IH by (simp add: sim.pa_inv_def)
  from sim.pa_persist_steps [OF this, of p e] pa_crash_written.hyps(3,4) have
    "sim_ok d2" "sim_content d2 p = Some (acceptor_record e)" "sim_stable d2 p = Some []"
    by (auto simp: sim_storage_def)
  then have "sim.pa_inv p (ac_promised a') (fst (sim_crash flip r d2)) \<and> ac_promised a' = e"
    using pa_crash_written.hyps(5) by (intro simc.pa_torn_inv [of d2]) auto
  with pa_crash_written show ?case by (auto intro: order_trans order.strict_implies_order)
qed

section \<open>Properties\<close>

text \<open>
  C13. An acceptor never grants an epoch twice, not even across power losses that strike while
  it persists its promise: the epochs it granted in its whole life are strictly ascending.
\<close>

theorem acceptor_never_grants_twice:
  assumes "pa_run p a d granted"
  shows "sorted_wrt (<) granted \<and> (\<forall>g \<in> set granted. g \<le> ac_promised a)"
  using pa_run_inv [OF assms] by simp

theorem acceptor_never_grants_twice_witness:
  "\<exists>a d. pa_run (''n'', ''acceptor'') a d [4, 9] \<and> sorted_wrt (<) [4, 9 :: u64] \<and> 9 \<le> ac_promised a"
proof -
  let ?p = "(''n'', ''acceptor'')"
  have "pa_open sim_storage ?p sim_new = Ok acceptor_new"
    by (simp add: pa_open_def sim_storage_def sim_read_def sim_new_def)
  from pa_start [OF this] have r0: "pa_run ?p acceptor_new sim_new []" .
  have step: "\<exists>a' d'. pa_run ?p a' d' (gs @ [e]) \<and> ac_promised a' = e" if "pa_run ?p a d gs" "ac_promised a < e" for a d gs e
  proof -
    from sim.pa_handle_inv [OF conjunct1 [OF pa_run_inv [OF that(1)]], of e] obtain d' where
      "pa_handle sim_storage ?p e a d = (Ok (fst (acceptor_handle e a)), snd (acceptor_handle e a), d')" by blast
    with that(2) have h: "pa_handle sim_storage ?p e a d = (Ok (Grant e (ac_high_water a)), snd (acceptor_handle e a), d')"
      by (simp add: acceptor_handle_def)
    show ?thesis using pa_grant [OF that(1) h] that(2) by (auto simp: acceptor_handle_def)
  qed
  from step [OF r0, of 4] obtain a1 d1 where r1: "pa_run ?p a1 d1 [4]" "ac_promised a1 = 4" by (auto simp: acceptor_new_def)
  from step [OF r1(1), of 9] r1(2) obtain a2 d2 where r2: "pa_run ?p a2 d2 [4, 9]" by auto
  from acceptor_never_grants_twice [OF r2] r2 show ?thesis by auto
qed

end
