(* ===== verification/Server.thy ===== *)
theory Server
  imports Replica Persist
begin

text \<open>
  \<open>ticktape-server/src/lib.rs\<close> and \<open>config.rs\<close>: one replicated server, a leader that owns a node and publishes
  its stream, or a follower that journals and applies what it receives and may be promoted.
  Every server hosts a durable acceptor. Sockets, deadlines and the wall clock are the parameters
  of \<open>server_net\<close>; times are in milliseconds. \<open>None\<close> is a panic or a loop that does not end.
\<close>

section \<open>Configuration\<close>

record 'a peer_addrs =
  pe_acceptor :: 'a
  pe_feed :: 'a
  pe_retx :: 'a

record 'a cluster_config =
  cf_peers :: "'a peer_addrs list"
  cf_session :: u64
  cf_leader_hint :: nat
  cf_failover_timeout :: nat
  cf_failover_stagger :: nat
  cf_heartbeat_interval :: nat

definition cluster_config_new :: "'a peer_addrs list \<Rightarrow> u64 \<Rightarrow> 'a cluster_config" where
  "cluster_config_new peers session = \<lparr>cf_peers = peers, cf_session = session, cf_leader_hint = 0,
     cf_failover_timeout = 500, cf_failover_stagger = 150, cf_heartbeat_interval = 100\<rparr>"

datatype server_error =
    ServerIo io_error
  | ServerNode node_error
  | ServerPersist persist_error
  | ServerTransport transport_error
  | ElectionLost u64
  | WrongRole string

datatype role = RoleLeader | RoleFollower

section \<open>The failure detector\<close>

record failure_detector =
  det_last_packets_seen :: u64
  det_last_progress :: nat
  det_timeout :: nat

definition detector_new :: "nat \<Rightarrow> u64 \<Rightarrow> nat \<Rightarrow> failure_detector" where
  "detector_new timeout packets_seen now =
     \<lparr>det_last_packets_seen = packets_seen, det_last_progress = now, det_timeout = timeout\<rparr>"

definition detector_observe :: "u64 \<Rightarrow> nat \<Rightarrow> failure_detector \<Rightarrow> failure_detector" where
  "detector_observe packets_seen now det =
     (if packets_seen > det_last_packets_seen det
      then det\<lparr>det_last_packets_seen := packets_seen, det_last_progress := now\<rparr> else det)"

definition detector_suspects :: "nat \<Rightarrow> failure_detector \<Rightarrow> bool" where
  "detector_suspects now det \<longleftrightarrow> now - det_last_progress det \<ge> det_timeout det"

definition detector_reset :: "u64 \<Rightarrow> nat \<Rightarrow> failure_detector \<Rightarrow> failure_detector" where
  "detector_reset packets_seen now det = det\<lparr>det_last_packets_seen := packets_seen, det_last_progress := now\<rparr>"

section \<open>State\<close>

text \<open>The leader's \<open>stream\<close> is the channel of the node's bus with this index.\<close>

record ('s, 'o, 'c, 'k, 'f, 'a) leader_mode =
  lm_node :: "('s, 'o, 'c, 'k, 'f) node"
  lm_publisher :: "'a publisher"
  lm_repeater :: mem_store
  lm_stream :: nat

record ('s, 'f, 'a) follower_mode =
  fm_receiver :: reassembler
  fm_retransmitter :: "'a option"
  fm_journal :: "'f journal"
  fm_replica :: "'s replica"
  fm_applied :: seq
  fm_detector :: failure_detector

datatype ('s, 'o, 'c, 'k, 'f, 'a) server_mode =
    Leader "('s, 'o, 'c, 'k, 'f, 'a) leader_mode"
  | Follower "('s, 'f, 'a) follower_mode"
  | Transitioning

record ('s, 'o, 'c, 'k, 'f, 'a) server =
  sr_idx :: nat
  sr_config :: "'a cluster_config"
  sr_service_config :: 'c
  sr_journal_dir :: string
  sr_acceptor :: acceptor
  sr_epoch :: u64
  sr_mode :: "('s, 'o, 'c, 'k, 'f, 'a) server_mode"
  sr_retx_addr :: "'a option"

record ('a, 'w) server_net =
  sn_feed :: "('a, 'w) net"
  sn_bind_acceptor :: "'a \<Rightarrow> 'w \<Rightarrow> (unit, io_error) result \<times> 'w"
  sn_bind_feed :: "'a \<Rightarrow> 'w \<Rightarrow> (unit, io_error) result \<times> 'w"
  sn_bind_publisher :: "'w \<Rightarrow> (unit, io_error) result \<times> 'w"
  sn_bind_retx :: "'a \<Rightarrow> 'w \<Rightarrow> ('a, io_error) result \<times> 'w"
  sn_send :: "('a, 'w) send_to"
  sn_expired :: "'w \<Rightarrow> bool \<times> 'w"
  sn_now :: "'w \<Rightarrow> nat \<times> 'w"

text \<open>The machine a server runs on: its network and its disk.\<close>

type_synonym ('b, 's, 'o, 'c, 'k, 'f, 'a, 'w, 'd) sres =
  "(('b, server_error) result \<times> ('s, 'o, 'c, 'k, 'f, 'a) server \<times> 'w \<times> 'd) option"

section \<open>Opening a follower\<close>

definition acceptor_path :: "string \<Rightarrow> path" where
  "acceptor_path dir = (dir, ''acceptor.state'')"

definition follower_journal_config :: "string \<Rightarrow> journal_config" where
  "follower_journal_config dir = (journal_config_new dir)\<lparr>jc_fsync := EveryFrame\<rparr>"

text \<open>Rebuilding the replica from the recovered frames; errors are ignored.\<close>

definition replica_rebuild :: "('s, 'i, 'o, 'p, 'c) service \<Rightarrow> frame list \<Rightarrow> 's replica \<Rightarrow> 's replica" where
  "replica_rebuild SV fs rp = fold (\<lambda>f rp. snd (replica_apply SV f rp)) fs rp"

definition build_follower ::
  "('s, 'i, 'o, 'p, 'c, 'k, 'd, 'f) env \<Rightarrow> ('a, 'w) server_net \<Rightarrow> nat \<Rightarrow> nat \<Rightarrow> 'a cluster_config \<Rightarrow> string \<Rightarrow>
     acceptor \<Rightarrow> 'c \<Rightarrow> 'w \<Rightarrow> 'd \<Rightarrow> (('s, 'f, 'a) follower_mode \<times> acceptor, server_error) result \<times> 'w \<times> 'd"
where
  "build_follower E N t idx config dir acc scfg w d =
     (case journal_open_with (e_storage E) t (follower_journal_config dir) d of
        (Err e, d) \<Rightarrow> (Err (ServerNode (NodeJournal e)), w, d)
      | (Ok rec, d) \<Rightarrow>
          let applied = j_last_seq (re_journal rec);
              replica = replica_rebuild (e_service E) (re_frames rec) (replica_new (e_service E) scfg);
              acc = observe_seq applied acc
          in (case sn_bind_feed N (pe_feed (cf_peers config ! idx)) w of
                (Err e, w) \<Rightarrow> (Err (ServerIo e), w, d)
              | (Ok _, w) \<Rightarrow>
                  let receiver = reassembler_new (seq_next applied);
                      timeout = cf_failover_timeout config + cf_failover_stagger config * idx;
                      (now, w) = sn_now N w;
                      detector = detector_new timeout (ra_packets_seen receiver) now
                  in (Ok (\<lparr>fm_receiver = receiver, fm_retransmitter = None, fm_journal = re_journal rec,
                           fm_replica = replica, fm_applied = applied, fm_detector = detector\<rparr>, acc), w, d)))"

text \<open>\<open>open_follower\<close> always starts at epoch 1, whatever the journal and the acceptor say.\<close>

definition open_follower ::
  "('s, 'i, 'o, 'p, 'c, 'k, 'd, 'f) env \<Rightarrow> ('a, 'w) server_net \<Rightarrow> nat \<Rightarrow> nat \<Rightarrow> 'a cluster_config \<Rightarrow> 'c \<Rightarrow> string \<Rightarrow>
     'w \<Rightarrow> 'd \<Rightarrow> ((('s, 'o, 'c, 'k, 'f, 'a) server, server_error) result \<times> 'w \<times> 'd) option"
where
  "open_follower E N t idx config scfg dir w d =
     (case pa_open (e_storage E) (acceptor_path dir) d of
        Err e \<Rightarrow> Some (Err (ServerPersist e), w, d)
      | Ok acc \<Rightarrow>
          if idx \<ge> length (cf_peers config) then None
          else
            (case sn_bind_acceptor N (pe_acceptor (cf_peers config ! idx)) w of
               (Err e, w) \<Rightarrow> Some (Err (ServerIo e), w, d)
             | (Ok _, w) \<Rightarrow>
                 (case build_follower E N t idx config dir acc scfg w d of
                    (Err e, w, d) \<Rightarrow> Some (Err e, w, d)
                  | (Ok (f, acc), w, d) \<Rightarrow>
                      Some (Ok \<lparr>sr_idx = idx, sr_config = config, sr_service_config = scfg, sr_journal_dir = dir,
                        sr_acceptor = acc, sr_epoch = 1, sr_mode = Follower f, sr_retx_addr = None\<rparr>, w, d))))"

section \<open>Views\<close>

definition server_role :: "('s, 'o, 'c, 'k, 'f, 'a) server \<Rightarrow> role" where
  "server_role sr = (case sr_mode sr of Leader _ \<Rightarrow> RoleLeader | _ \<Rightarrow> RoleFollower)"

definition set_leader_hint :: "nat \<Rightarrow> ('s, 'o, 'c, 'k, 'f, 'a) server \<Rightarrow> ('s, 'o, 'c, 'k, 'f, 'a) server" where
  "set_leader_hint leader_idx sr = sr\<lparr>sr_config := (sr_config sr)\<lparr>cf_leader_hint := leader_idx\<rparr>\<rparr>"

definition server_seq :: "('s, 'o, 'c, 'k, 'f, 'a) server \<Rightarrow> seq" where
  "server_seq sr = (case sr_mode sr of Leader l \<Rightarrow> n_seq (lm_node l) | Follower f \<Rightarrow> fm_applied f | Transitioning \<Rightarrow> GENESIS)"

definition latest_snapshot_seq :: "('d, 'f) storage \<Rightarrow> ('s, 'o, 'c, 'k, 'f) node \<Rightarrow> 'd \<Rightarrow> seq option" where
  "latest_snapshot_seq S n d =
     (case high_water_seq S (jc_dir (n_journal_config n)) d of
        Ok s \<Rightarrow> if s > GENESIS then Some s else None
      | Err _ \<Rightarrow> None)"

record server_stats =
  st_node :: nat
  st_role :: string
  st_epoch :: u64
  st_seq :: u64
  st_lag :: u64
  st_snapshot_seq :: u64
  st_journal_segments :: nat

definition stats :: "('d, 'f) storage \<Rightarrow> ('s, 'o, 'c, 'k, 'f, 'a) server \<Rightarrow> 'd \<Rightarrow> server_stats" where
  "stats S sr d =
     (let (role, s, lag, snapshot_seq, segments) =
        (case sr_mode sr of
           Leader l \<Rightarrow>
             (''leader'', n_seq (lm_node l), 0, (case latest_snapshot_seq S (lm_node l) d of Some s \<Rightarrow> s | None \<Rightarrow> 0),
              segment_count S (n_journal (lm_node l)) d)
         | Follower f \<Rightarrow>
             (''follower'', fm_applied f, saturating_sub (announced_high_water (fm_receiver f)) (fm_applied f), 0,
              segment_count S (fm_journal f) d)
         | Transitioning \<Rightarrow> (''follower'', 0, 0, 0, 0))
      in \<lparr>st_node = sr_idx sr, st_role = role, st_epoch = sr_epoch sr, st_seq = s, st_lag = lag,
          st_snapshot_seq = snapshot_seq, st_journal_segments = segments\<rparr>)"

definition server_snapshot_bytes :: "('s, 'i, 'o, 'p, 'c) service \<Rightarrow> ('s, 'o, 'c, 'k, 'f, 'a) server \<Rightarrow> bytes" where
  "server_snapshot_bytes SV sr =
     (case sr_mode sr of
        Leader l \<Rightarrow> encode_to_vec (sv_enc_snap SV) (sv_snapshot SV (n_service (lm_node l)))
      | Follower f \<Rightarrow> encode_to_vec (sv_enc_snap SV) (sv_snapshot SV (rp_service (fm_replica f)))
      | Transitioning \<Rightarrow> [])"

section \<open>Publishing\<close>

text \<open>\<open>publish_to_all\<close>: each peer but the server itself, in order, until one fails.\<close>

fun publish_peers ::
  "('a, 'w) send_to \<Rightarrow> nat \<Rightarrow> frame \<Rightarrow> (nat \<times> 'a peer_addrs) list \<Rightarrow> 'a publisher \<Rightarrow> 'w \<Rightarrow>
     ((unit, transport_error) result \<times> 'a publisher \<times> 'w) option"
where
  "publish_peers send idx f [] pu w = Some (Ok (), pu, w)"
| "publish_peers send idx f ((i, peer) # peers) pu w =
     (if i = idx then publish_peers send idx f peers pu w
      else case publish_to send f (pe_feed peer) pu w of
          None \<Rightarrow> None
        | Some (Err e, pu, w) \<Rightarrow> Some (Err e, pu, w)
        | Some (Ok _, pu, w) \<Rightarrow> publish_peers send idx f peers pu w)"

definition publish_to_all ::
  "('a, 'w) send_to \<Rightarrow> 'a cluster_config \<Rightarrow> nat \<Rightarrow> frame \<Rightarrow> 'a publisher \<Rightarrow> 'w \<Rightarrow>
     ((unit, transport_error) result \<times> 'a publisher \<times> 'w) option"
where
  "publish_to_all send config idx f = publish_peers send idx f (enumerate 0 (cf_peers config))"

text \<open>
  The loop over \<open>stream.try_iter()\<close>: each frame enters the repeater and goes to every follower. The last
  component is what is still in the channel when it stops.
\<close>

fun drain_stream ::
  "('a, 'w) send_to \<Rightarrow> 'a cluster_config \<Rightarrow> nat \<Rightarrow> frame list \<Rightarrow> mem_store \<Rightarrow> 'a publisher \<Rightarrow> 'w \<Rightarrow>
     ((unit, transport_error) result \<times> mem_store \<times> 'a publisher \<times> 'w \<times> frame list) option"
where
  "drain_stream send config idx [] ms pu w = Some (Ok (), ms, pu, w, [])"
| "drain_stream send config idx (f # fs) ms pu w =
     (case publish_to_all send config idx f pu w of
        None \<Rightarrow> None
      | Some (Err e, pu, w) \<Rightarrow> Some (Err e, mem_record f ms, pu, w, fs)
      | Some (Ok _, pu, w) \<Rightarrow> drain_stream send config idx fs (mem_record f ms) pu w)"

definition set_channel :: "nat \<Rightarrow> frame list \<Rightarrow> ('s, 'o, 'c, 'k, 'f) node \<Rightarrow> ('s, 'o, 'c, 'k, 'f) node" where
  "set_channel k fs n = n\<lparr>n_bus := (n_bus n)[k := (fst (n_bus n ! k), fs)]\<rparr>"


section \<open>Leading\<close>

definition leader_node_config :: "string \<Rightarrow> node_config" where
  "leader_node_config dir =
     (let cfg = node_config_new dir
      in cfg\<lparr>nc_journal := (nc_journal cfg)\<lparr>jc_fsync := EveryFrame\<rparr>, nc_snapshot_every := Some 500\<rparr>)"

text \<open>The last part of \<open>become_leader\<close>: fence, then publish what the fence sequenced.\<close>

definition fence_and_publish ::
  "('s, 'i, 'o, 'p, 'c, 'k, 'd, 'f) env \<Rightarrow> ('a, 'w) server_net \<Rightarrow> nat \<Rightarrow> u64 \<Rightarrow> nat \<Rightarrow> 'a publisher \<Rightarrow>
     ('s, 'o, 'c, 'k, 'f) node \<Rightarrow> ('s, 'o, 'c, 'k, 'f, 'a) server \<Rightarrow> 'w \<Rightarrow> 'd \<Rightarrow>
     (('s, 'o, 'c, 'k, 'f, 'a) leader_mode, 's, 'o, 'c, 'k, 'f, 'a, 'w, 'd) sres"
where
  "fence_and_publish E N t epoch k pu n sr w d =
     (case node_fence E t epoch n d of
        (Err e, n, d) \<Rightarrow> Some (Err (ServerNode e), sr, w, d)
      | (Ok _, n, d) \<Rightarrow>
          (case drain_stream (sn_send N) (sr_config sr) (sr_idx sr) (snd (n_bus n ! k)) (mem_with_capacity (64 * 1024)) pu w of
             None \<Rightarrow> None
           | Some (Err e, ms, pu, w, rest) \<Rightarrow> Some (Err (ServerTransport e), sr, w, d)
           | Some (Ok _, ms, pu, w, rest) \<Rightarrow>
               Some (Ok \<lparr>lm_node = set_channel k rest n, lm_publisher = pu, lm_repeater = ms, lm_stream = k\<rparr>, sr, w, d)))"

definition become_leader ::
  "('s, 'i, 'o, 'p, 'c, 'k, 'd, 'f) env \<Rightarrow> ('a, 'w) server_net \<Rightarrow> nat \<Rightarrow> 'k \<Rightarrow> u64 \<Rightarrow>
     ('s, 'o, 'c, 'k, 'f, 'a) server \<Rightarrow> 'w \<Rightarrow> 'd \<Rightarrow>
     (('s, 'o, 'c, 'k, 'f, 'a) leader_mode, 's, 'o, 'c, 'k, 'f, 'a, 'w, 'd) sres"
where
  "become_leader E N t clock epoch sr w d =
     (case node_open_with E t (leader_node_config (sr_journal_dir sr)) (sr_service_config sr) clock d of
        (Err e, d) \<Rightarrow> Some (Err (ServerNode e), sr, w, d)
      | (Ok n, d) \<Rightarrow>
          let k = length (n_bus n);
              n = n\<lparr>n_bus := bus_subscribe (n_bus n)\<rparr>;
              peers = cf_peers (sr_config sr)
          in if sr_idx sr \<ge> length peers then None
          else
            (case sn_bind_publisher N w of
               (Err e, w) \<Rightarrow> Some (Err (ServerIo e), sr, w, d)
             | (Ok _, w) \<Rightarrow>
                 let pu = publisher_new \<lparr>pc_session = cf_session (sr_config sr),
                       pc_dest_a = pe_feed (peers ! ((sr_idx sr + 1) mod length peers)), pc_dest_b = None\<rparr>
                 in (case sn_bind_retx N (pe_retx (peers ! sr_idx sr)) w of
                       (Err e, w) \<Rightarrow> Some (Err (ServerIo e), sr, w, d)
                     | (Ok addr, w) \<Rightarrow> fence_and_publish E N t epoch k pu n (sr\<lparr>sr_retx_addr := Some addr\<rparr>) w d)))"

definition start_as_leader ::
  "('s, 'i, 'o, 'p, 'c, 'k, 'd, 'f) env \<Rightarrow> ('a, 'w) server_net \<Rightarrow> nat \<Rightarrow> 'k \<Rightarrow>
     ('s, 'o, 'c, 'k, 'f, 'a) server \<Rightarrow> 'w \<Rightarrow> 'd \<Rightarrow> (unit, 's, 'o, 'c, 'k, 'f, 'a, 'w, 'd) sres"
where
  "start_as_leader E N t clock sr w d =
     (case become_leader E N t clock 1 sr w d of
        None \<Rightarrow> None
      | Some (Err e, sr, w, d) \<Rightarrow> Some (Err e, sr, w, d)
      | Some (Ok l, sr, w, d) \<Rightarrow> Some (Ok (), sr\<lparr>sr_mode := Leader l, sr_epoch := 1\<rparr>, w, d))"

definition server_submit ::
  "('s, 'i, 'o, 'p, 'c, 'k, 'd, 'f) env \<Rightarrow> ('a, 'w) server_net \<Rightarrow> nat \<Rightarrow> 'i \<Rightarrow>
     ('s, 'o, 'c, 'k, 'f, 'a) server \<Rightarrow> 'w \<Rightarrow> 'd \<Rightarrow> (seq \<times> 'o list, 's, 'o, 'c, 'k, 'f, 'a, 'w, 'd) sres"
where
  "server_submit E N t input sr w d =
     (case sr_mode sr of
        Leader l \<Rightarrow>
          (case submit E t input (lm_node l) d of
             None \<Rightarrow> None
           | Some (Err e, n, d) \<Rightarrow> Some (Err (ServerNode e), sr\<lparr>sr_mode := Leader (l\<lparr>lm_node := n\<rparr>)\<rparr>, w, d)
           | Some (Ok r, n, d) \<Rightarrow>
               (case drain_stream (sn_send N) (sr_config sr) (sr_idx sr) (snd (n_bus n ! lm_stream l)) (lm_repeater l) (lm_publisher l) w of
                  None \<Rightarrow> None
                | Some (res, ms, pu, w, rest) \<Rightarrow>
                    let l = l\<lparr>lm_node := set_channel (lm_stream l) rest n, lm_publisher := pu, lm_repeater := ms\<rparr>
                    in Some (rbind (map_err ServerTransport res) (\<lambda>_. Ok r), sr\<lparr>sr_mode := Leader l\<rparr>, w, d)))
      | _ \<Rightarrow> Some (Err (WrongRole ''submit requires leader''), sr, w, d))"

fun heartbeat_peers ::
  "('a, 'w) send_to \<Rightarrow> nat \<Rightarrow> (nat \<times> 'a peer_addrs) list \<Rightarrow> 'a publisher \<Rightarrow> 'w \<Rightarrow> (unit, transport_error) result \<times> 'w"
where
  "heartbeat_peers send idx [] pu w = (Ok (), w)"
| "heartbeat_peers send idx ((i, peer) # peers) pu w =
     (if i = idx then heartbeat_peers send idx peers pu w
      else case publisher_heartbeat_to send (pe_feed peer) pu w of
          (Err e, w) \<Rightarrow> (Err e, w)
        | (Ok _, w) \<Rightarrow> heartbeat_peers send idx peers pu w)"

definition server_heartbeat ::
  "('a, 'w) server_net \<Rightarrow> ('s, 'o, 'c, 'k, 'f, 'a) server \<Rightarrow> 'w \<Rightarrow> (unit, server_error) result \<times> 'w"
where
  "server_heartbeat N sr w =
     (case sr_mode sr of
        Leader l \<Rightarrow>
          (case heartbeat_peers (sn_send N) (sr_idx sr) (enumerate 0 (cf_peers (sr_config sr))) (lm_publisher l) w of
             (r, w) \<Rightarrow> (map_err ServerTransport r, w))
      | _ \<Rightarrow> (Ok (), w))"

section \<open>Following\<close>

text \<open>One received frame: journalled, applied (errors ignored), observed by the acceptor.\<close>

definition adopt_epoch :: "frame \<Rightarrow> u64 \<Rightarrow> u64" where
  "adopt_epoch f epoch =
     (if f_kind f = EpochChange
      then case epoch_from_frame f of Ok change \<Rightarrow> max epoch (ec_epoch change) | Err _ \<Rightarrow> epoch
      else epoch)"

definition pump_frame ::
  "('s, 'i, 'o, 'p, 'c, 'k, 'd, 'f) env \<Rightarrow> nat \<Rightarrow> frame \<Rightarrow> ('s, 'f, 'a) follower_mode \<Rightarrow>
     ('s, 'o, 'c, 'k, 'f, 'a) server \<Rightarrow> 'd \<Rightarrow>
     (nat, server_error) result \<times> ('s, 'f, 'a) follower_mode \<times> ('s, 'o, 'c, 'k, 'f, 'a) server \<times> 'd"
where
  "pump_frame E t frame f sr d =
     (if f_seq frame \<noteq> seq_next (fm_applied f) then (Ok 0, f, sr, d)
      else case journal_append (e_storage E) t frame (fm_journal f) d of
          (Err e, j, d) \<Rightarrow> (Err (ServerNode (NodeJournal e)), f\<lparr>fm_journal := j\<rparr>, sr, d)
        | (Ok _, j, d) \<Rightarrow>
            (Ok 1, f\<lparr>fm_journal := j, fm_replica := snd (replica_apply (e_service E) frame (fm_replica f)), fm_applied := f_seq frame\<rparr>,
             sr\<lparr>sr_acceptor := observe_seq (f_seq frame) (sr_acceptor sr), sr_epoch := adopt_epoch frame (sr_epoch sr)\<rparr>, d))"

partial_function (option) pump_loop ::
  "('s, 'i, 'o, 'p, 'c, 'k, 'd, 'f) env \<Rightarrow> ('a, 'w) server_net \<Rightarrow> nat \<Rightarrow> nat \<Rightarrow> ('s, 'f, 'a) follower_mode \<Rightarrow>
     ('s, 'o, 'c, 'k, 'f, 'a) server \<Rightarrow> 'w \<Rightarrow> 'd \<Rightarrow>
     ((nat, server_error) result \<times> ('s, 'f, 'a) follower_mode \<times> ('s, 'o, 'c, 'k, 'f, 'a) server \<times> 'w \<times> 'd) option"
where
  "pump_loop E N t count f sr w d =
     (case poll (sn_feed N) (fm_retransmitter f) (fm_receiver f) w of
        None \<Rightarrow> None
      | Some (Err e, r, w) \<Rightarrow> Some (Err (ServerTransport e), f\<lparr>fm_receiver := r\<rparr>, sr, w, d)
      | Some (Ok (Some frame), r, w) \<Rightarrow>
          (case pump_frame E t frame (f\<lparr>fm_receiver := r\<rparr>) sr d of
             (Err e, f, sr, d) \<Rightarrow> Some (Err e, f, sr, w, d)
           | (Ok k, f, sr, d) \<Rightarrow> pump_loop E N t (count + k) f sr w d)
      | Some (Ok None, r, w) \<Rightarrow>
          (case sn_expired N w of
             (expired, w) \<Rightarrow>
               if expired then Some (Ok count, f\<lparr>fm_receiver := r\<rparr>, sr, w, d)
               else pump_loop E N t count (f\<lparr>fm_receiver := r\<rparr>) sr w d))"

definition pump ::
  "('s, 'i, 'o, 'p, 'c, 'k, 'd, 'f) env \<Rightarrow> ('a, 'w) server_net \<Rightarrow> nat \<Rightarrow> ('s, 'o, 'c, 'k, 'f, 'a) server \<Rightarrow> 'w \<Rightarrow> 'd \<Rightarrow>
     (nat, 's, 'o, 'c, 'k, 'f, 'a, 'w, 'd) sres"
where
  "pump E N t sr w d =
     (if cf_leader_hint (sr_config sr) \<ge> length (cf_peers (sr_config sr)) then None
      else
        let leader_retx = pe_retx (cf_peers (sr_config sr) ! cf_leader_hint (sr_config sr)) in
        case sr_mode sr of
          Follower f \<Rightarrow>
            (case pump_loop E N t 0 (f\<lparr>fm_retransmitter := Some leader_retx\<rparr>) sr w d of
               None \<Rightarrow> None
             | Some (Err e, f, sr, w, d) \<Rightarrow> Some (Err e, sr\<lparr>sr_mode := Follower f\<rparr>, w, d)
             | Some (Ok count, f, sr, w, d) \<Rightarrow>
                 let (now, w) = sn_now N w;
                     f = f\<lparr>fm_detector := detector_observe (ra_packets_seen (fm_receiver f)) now (fm_detector f)\<rparr>
                 in Some (Ok count, sr\<lparr>sr_mode := Follower f\<rparr>, w, d))
        | _ \<Rightarrow> Some (Ok 0, sr, w, d))"

section \<open>Promotion and failover\<close>

text \<open>
  \<open>mem::replace\<close> leaves \<open>Transitioning\<close> behind before anything else is decided; only the refusal of a
  follower that lags puts the old mode back.
\<close>

definition finish_promotion ::
  "('s, 'i, 'o, 'p, 'c, 'k, 'd, 'f) env \<Rightarrow> ('a, 'w) server_net \<Rightarrow> nat \<Rightarrow> 'k \<Rightarrow> u64 \<Rightarrow> seq \<Rightarrow>
     ('s, 'o, 'c, 'k, 'f, 'a) server \<Rightarrow> 'w \<Rightarrow> 'd \<Rightarrow> (unit, 's, 'o, 'c, 'k, 'f, 'a, 'w, 'd) sres"
where
  "finish_promotion E N t clock epoch sync_to sr w d =
     (case sr_mode sr of
        Follower f \<Rightarrow>
          if fm_applied f < sync_to then Some (Err (ElectionLost epoch), sr, w, d)
          else
            (case become_leader E N t clock epoch (sr\<lparr>sr_mode := Transitioning\<rparr>) w d of
               None \<Rightarrow> None
             | Some (Err e, sr, w, d) \<Rightarrow> Some (Err e, sr, w, d)
             | Some (Ok l, sr, w, d) \<Rightarrow> Some (Ok (), sr\<lparr>sr_mode := Leader l, sr_epoch := epoch\<rparr>, w, d))
      | _ \<Rightarrow> Some (Err (WrongRole ''promote requires follower''), sr\<lparr>sr_mode := Transitioning\<rparr>, w, d))"

text \<open>\<open>replies i\<close> is what the acceptor of peer \<open>i\<close> answers to the request for this server's next epoch.\<close>

definition promote ::
  "('s, 'i, 'o, 'p, 'c, 'k, 'd, 'f) env \<Rightarrow> ('a, 'w) server_net \<Rightarrow> nat \<Rightarrow> 'k \<Rightarrow> (nat \<Rightarrow> vote_reply option) \<Rightarrow>
     ('s, 'o, 'c, 'k, 'f, 'a) server \<Rightarrow> 'w \<Rightarrow> 'd \<Rightarrow> (unit, 's, 'o, 'c, 'k, 'f, 'a, 'w, 'd) sres"
where
  "promote E N t clock replies sr w d =
     (let target = sr_epoch sr + 1 in
      case run_election target (length (cf_peers (sr_config sr))) replies of
        Won epoch sync_to \<Rightarrow> finish_promotion E N t clock epoch sync_to sr w d
      | Lost highest_promised \<Rightarrow> Some (Err (ElectionLost highest_promised), sr, w, d)
      | Pending \<Rightarrow> Some (Err (ElectionLost target), sr, w, d))"

definition leader_suspected :: "nat \<Rightarrow> ('s, 'o, 'c, 'k, 'f, 'a) server \<Rightarrow> bool" where
  "leader_suspected now sr = (case sr_mode sr of Follower f \<Rightarrow> detector_suspects now (fm_detector f) | _ \<Rightarrow> False)"

text \<open>The rotation past the server's own index.\<close>

partial_function (option) skip_self :: "nat \<Rightarrow> nat \<Rightarrow> nat \<Rightarrow> nat option" where
  "skip_self idx n cand = (if cand = idx then skip_self idx n ((cand + 1) mod n) else Some cand)"

definition repoint_after_failed_promotion ::
  "nat \<Rightarrow> ('s, 'o, 'c, 'k, 'f, 'a) server \<Rightarrow> ('s, 'o, 'c, 'k, 'f, 'a) server option"
where
  "repoint_after_failed_promotion now sr =
     (let peers = cf_peers (sr_config sr); n = length peers in
      if n = 0 then None
      else
        (case skip_self (sr_idx sr) n ((cf_leader_hint (sr_config sr) + 1) mod n) of
           None \<Rightarrow> None
         | Some cand \<Rightarrow>
             let sr = set_leader_hint cand sr in
             Some (case sr_mode sr of
                 Follower f \<Rightarrow>
                   sr\<lparr>sr_mode := Follower (f\<lparr>fm_retransmitter := Some (pe_retx (peers ! cand)),
                      fm_detector := detector_reset (ra_packets_seen (fm_receiver f)) now (fm_detector f)\<rparr>)\<rparr>
               | _ \<Rightarrow> sr)))"

text \<open>\<open>now\<close> is when the detector is asked, \<open>later\<close> when it is reset after a lost election.\<close>

definition maybe_failover ::
  "('s, 'i, 'o, 'p, 'c, 'k, 'd, 'f) env \<Rightarrow> ('a, 'w) server_net \<Rightarrow> nat \<Rightarrow> nat \<Rightarrow> nat \<Rightarrow> 'k \<Rightarrow> (nat \<Rightarrow> vote_reply option) \<Rightarrow>
     ('s, 'o, 'c, 'k, 'f, 'a) server \<Rightarrow> 'w \<Rightarrow> 'd \<Rightarrow> (role, 's, 'o, 'c, 'k, 'f, 'a, 'w, 'd) sres"
where
  "maybe_failover E N t now later clock replies sr w d =
     (if \<not> leader_suspected now sr then Some (Ok (server_role sr), sr, w, d)
      else case promote E N t clock replies sr w d of
          None \<Rightarrow> None
        | Some (Ok _, sr, w, d) \<Rightarrow> Some (Ok RoleLeader, sr, w, d)
        | Some (Err e, sr, w, d) \<Rightarrow>
            (case e of
               ElectionLost _ \<Rightarrow>
                 map_option (\<lambda>sr. (Ok RoleFollower, sr, w, d)) (repoint_after_failed_promotion later sr)
             | _ \<Rightarrow> Some (Err e, sr, w, d)))"

end
