(* ===== verification/Server_Failover.thy ===== *)
theory Server_Failover
  imports Server
begin

text \<open>
  Automatic failover of a whole deployment: the servers' acceptors answer the candidate's requests in
  turn, each request or its reply may be lost. What a promotion can leave behind.
\<close>

section \<open>A deployment\<close>

datatype contact = Unreachable | ReplyLost | Answered

definition ask_vote ::
  "('d, 'f) storage \<Rightarrow> contact \<Rightarrow> u64 \<Rightarrow> ('s, 'o, 'c, 'k, 'f, 'a) server \<times> 'd \<Rightarrow>
     vote_reply option \<times> ('s, 'o, 'c, 'k, 'f, 'a) server \<times> 'd"
where
  "ask_vote S c epoch sd =
     (if c = Unreachable then (None, sd)
      else case pa_handle S (acceptor_path (sr_journal_dir (fst sd))) epoch (sr_acceptor (fst sd)) (snd sd) of
          (r, a, d) \<Rightarrow>
            ((case r of Ok reply \<Rightarrow> if c = Answered then Some reply else None | Err _ \<Rightarrow> None),
             (fst sd)\<lparr>sr_acceptor := a\<rparr>, d))"

text \<open>The requests of \<open>run_election\<close>, one acceptor after the other until a majority has granted.\<close>

fun vote_round ::
  "('d, 'f) storage \<Rightarrow> (nat \<Rightarrow> contact) \<Rightarrow> u64 \<Rightarrow> nat \<Rightarrow> (('s, 'o, 'c, 'k, 'f, 'a) server \<times> 'd) list \<Rightarrow> election \<Rightarrow>
     vote_reply option list \<times> (('s, 'o, 'c, 'k, 'f, 'a) server \<times> 'd) list"
where
  "vote_round S contacts epoch i [] el = ([], [])"
| "vote_round S contacts epoch i (sd # sds) el =
     (case ask_vote S (contacts i) epoch sd of
        (None, sd) \<Rightarrow> (case vote_round S contacts epoch (Suc i) sds el of (rs, sds) \<Rightarrow> (None # rs, sd # sds))
      | (Some r, sd) \<Rightarrow>
          (case on_reply (of_nat i) r el of
             (Won _ _, el) \<Rightarrow> ([Some r], sd # sds)
           | (_, el) \<Rightarrow> (case vote_round S contacts epoch (Suc i) sds el of (rs, sds) \<Rightarrow> (Some r # rs, sd # sds))))"

definition replies_of :: "vote_reply option list \<Rightarrow> nat \<Rightarrow> vote_reply option" where
  "replies_of rs i = (if i < length rs then rs ! i else None)"

text \<open>One server's \<open>maybe_failover\<close> within the deployment.\<close>

definition failover_attempt ::
  "('s, 'i, 'o, 'p, 'c, 'k, 'd, 'f) env \<Rightarrow> ('a, 'w) server_net \<Rightarrow> nat \<Rightarrow> nat \<Rightarrow> nat \<Rightarrow> 'k \<Rightarrow> (nat \<Rightarrow> contact) \<Rightarrow> nat \<Rightarrow> 'w \<Rightarrow>
     (('s, 'o, 'c, 'k, 'f, 'a) server \<times> 'd) list \<Rightarrow>
     ((role, server_error) result \<times> (('s, 'o, 'c, 'k, 'f, 'a) server \<times> 'd) list) option"
where
  "failover_attempt E N t now later clock contacts i w dep =
     (let (rs, dep) =
        (if leader_suspected now (fst (dep ! i))
         then let epoch = sr_epoch (fst (dep ! i)) + 1
              in vote_round (e_storage E) contacts epoch 0 dep (election_new epoch (length dep))
         else ([], dep))
      in case maybe_failover E N t now later clock (replies_of rs) (fst (dep ! i)) w (snd (dep ! i)) of
          None \<Rightarrow> None
        | Some (res, sr, w, d) \<Rightarrow> Some (res, dep[i := (sr, d)]))"

section \<open>Counting grants\<close>

definition granting :: "(nat \<Rightarrow> vote_reply option) \<Rightarrow> nat \<Rightarrow> bool" where
  "granting reply i \<longleftrightarrow> (\<exists>e h. reply i = Some (Grant e h))"

lemma length_bt_insert: "length (bt_insert k v m) \<le> Suc (length m)"
  by (induction k v m rule: bt_insert.induct) auto

lemma on_reply_granted_by:
  assumes "on_reply i r el = (outcome, el')"
  shows "el_needed el' = el_needed el \<and> outcome = election_outcome_of el' \<and>
    length (el_granters el') \<le> length (el_granters el) + (if \<exists>e h. r = Grant e h then 1 else 0)"
  using assms length_bt_insert [of i "()" "el_granters el"]
  by (cases r) (auto simp: on_reply_def Let_def)

lemma outcome_won: "election_outcome_of el = Won e s \<Longrightarrow> el_needed el \<le> length (el_granters el)"
  by (auto simp: election_outcome_of_def split: if_splits)

lemma tally_won:
  "tally reply is el = Won e s \<Longrightarrow> el_needed el \<le> length (el_granters el) + length (filter (granting reply) is)"
proof (induction "is" arbitrary: el)
  case Nil
  then show ?case by (simp add: outcome_won)
next
  case (Cons i "is")
  show ?case
  proof (cases "reply i")
    case None
    then show ?thesis using Cons by (auto simp: granting_def)
  next
    case (Some r)
    obtain outcome el1 where o: "on_reply (of_nat i) r el = (outcome, el1)" by (meson surj_pair)
    note g = on_reply_granted_by [OF o]
    have gr: "granting reply i \<longleftrightarrow> (\<exists>e h. r = Grant e h)" by (simp add: granting_def Some)
    show ?thesis
    proof (cases "\<exists>e s. outcome = Won e s")
      case True
      then have "el_needed el1 \<le> length (el_granters el1)" using g outcome_won [of el1] by metis
      then show ?thesis using g gr by (auto split: if_splits)
    next
      case False
      then have "tally reply is el1 = Won e s" using Cons.prems by (auto simp: Some o split: election_outcome.splits)
      from Cons.IH [OF this] g gr show ?thesis by (auto split: if_splits)
    qed
  qed
qed

lemma run_election_won: "run_election epoch n reply = Won e s \<Longrightarrow> majority n \<le> length (filter (granting reply) [0..<n])"
  using tally_won [of reply "[0..<n]" "election_new epoch n" e s] by (simp add: run_election_def election_new_def)

section \<open>Who can still grant\<close>

definition willing :: "u64 \<Rightarrow> ('s, 'o, 'c, 'k, 'f, 'a) server \<times> 'd \<Rightarrow> bool" where
  "willing epoch sd \<longleftrightarrow> ac_promised (sr_acceptor (fst sd)) < epoch"

lemma pa_handle_promised:
  assumes "pa_handle S p epoch a d = (r, a', d')"
  shows "ac_promised a \<le> ac_promised a'" and "r = Ok (Grant e h) \<Longrightarrow> ac_promised a < epoch"
  using assms by (auto simp: pa_handle_def acceptor_handle_def Let_def split: if_splits result.splits prod.splits)

text \<open>A vote changes a server's acceptor only.\<close>

definition same_server :: "('s, 'o, 'c, 'k, 'f, 'a) server \<times> 'd \<Rightarrow> ('s, 'o, 'c, 'k, 'f, 'a) server \<times> 'd \<Rightarrow> bool" where
  "same_server sd sd' \<longleftrightarrow> fst sd' = (fst sd)\<lparr>sr_acceptor := sr_acceptor (fst sd')\<rparr> \<and>
     ac_promised (sr_acceptor (fst sd)) \<le> ac_promised (sr_acceptor (fst sd'))"

lemma same_server_refl [simp]: "same_server sd sd"
  by (simp add: same_server_def)

lemma ask_vote_same:
  assumes "ask_vote S c epoch sd = (r, sd')"
  shows "same_server sd sd'" and "r = Some (Grant e h) \<Longrightarrow> willing epoch sd"
  using assms pa_handle_promised [of S "acceptor_path (sr_journal_dir (fst sd))" epoch "sr_acceptor (fst sd)" "snd sd"]
  by (auto simp: ask_vote_def same_server_def willing_def split: if_splits prod.splits result.splits)

lemma list_all2_same_server: "list_all2 same_server sds sds"
  by (simp add: list_all2_conv_all_nth)

lemma vote_round_same:
  assumes "vote_round S contacts epoch i sds el = (rs, sds')"
  shows "list_all2 same_server sds sds' \<and> length rs \<le> length sds \<and>
    length (filter (\<lambda>r. \<exists>e h. r = Some (Grant e h)) rs) \<le> length (filter (willing epoch) sds)"
  using assms
proof (induction S contacts epoch i sds el arbitrary: rs sds' rule: vote_round.induct)
  case (2 S contacts epoch i sd sds el)
  obtain r sd1 where a: "ask_vote S (contacts i) epoch sd = (r, sd1)" by (meson surj_pair)
  note s = ask_vote_same [OF a]
  show ?case
  proof (cases r)
    case None
    obtain rs1 sds1 where v: "vote_round S contacts epoch (Suc i) sds el = (rs1, sds1)" by (meson surj_pair)
    have "rs = None # rs1" "sds' = sd1 # sds1" using 2(4) by (simp_all add: a None v)
    then show ?thesis using 2(1) [OF a [symmetric] None v] s(1) by (auto simp: le_SucI)
  next
    case (Some reply)
    obtain outcome el1 where o: "on_reply (of_nat i) reply el = (outcome, el1)" by (meson surj_pair)
    have w: "willing epoch sd" if "\<exists>e h. reply = Grant e h" using that s(2) Some by blast
    show ?thesis
    proof (cases "\<exists>e t. outcome = Won e t")
      case True
      then have "rs = [Some reply]" "sds' = sd1 # sds" using 2(4) by (auto simp: a Some o)
      then show ?thesis using s(1) w list_all2_same_server by auto
    next
      case False
      obtain rs1 sds1 where v: "vote_round S contacts epoch (Suc i) sds el1 = (rs1, sds1)" by (meson surj_pair)
      have r: "rs = Some reply # rs1" "sds' = sd1 # sds1" using 2(4) False by (cases outcome; simp add: a Some o v)+
      have "list_all2 same_server sds sds1 \<and> length rs1 \<le> length sds \<and>
          length (filter (\<lambda>r. \<exists>e h. r = Some (Grant e h)) rs1) \<le> length (filter (willing epoch) sds)"
        using 2(2,3) [OF a [symmetric] Some o [symmetric] _ v] False by (cases outcome) auto
      then show ?thesis using s(1) w r by (auto simp: le_SucI)
    qed
  qed
qed simp


section \<open>A deployment that cannot elect\<close>

text \<open>
  No server leads, and for each of them fewer than a majority of the acceptors would grant the one epoch
  it stands for.
\<close>

definition stuck :: "(('s, 'o, 'c, 'k, 'f, 'a) server \<times> 'd) list \<Rightarrow> bool" where
  "stuck dep \<longleftrightarrow> (\<forall>(sr, d) \<in> set dep. (\<exists>f. sr_mode sr = Follower f) \<and> length (cf_peers (sr_config sr)) = length dep \<and>
     length (filter (willing (sr_epoch sr + 1)) dep) < majority (length dep))"

lemma willing_same: "same_server sd sd' \<Longrightarrow> willing epoch sd' \<Longrightarrow> willing epoch sd"
  by (auto simp: same_server_def willing_def)

lemma length_filter_mono2: "list_all2 R xs ys \<Longrightarrow> (\<And>x y. R x y \<Longrightarrow> P y \<Longrightarrow> P x) \<Longrightarrow> length (filter P ys) \<le> length (filter P xs)"
  by (induction rule: list_all2_induct) (auto simp: le_SucI)

lemma stuck_same:
  assumes "stuck dep" and "list_all2 same_server dep dep'"
  shows "stuck dep'"
  unfolding stuck_def
proof
  fix sd' assume "sd' \<in> set dep'"
  then obtain i where i: "i < length dep'" "sd' = dep' ! i" by (auto simp: in_set_conv_nth)
  have len: "length dep' = length dep" using assms(2) by (simp add: list_all2_lengthD)
  have s: "same_server (dep ! i) sd'" using assms(2) i len by (simp add: list_all2_conv_all_nth)
  have "dep ! i \<in> set dep" using i len by simp
  with assms(1) have "(\<exists>f. sr_mode (fst (dep ! i)) = Follower f) \<and> length (cf_peers (sr_config (fst (dep ! i)))) = length dep \<and>
      length (filter (willing (sr_epoch (fst (dep ! i)) + 1)) dep) < majority (length dep)"
    by (auto simp: stuck_def split_beta)
  moreover have "sr_mode (fst sd') = sr_mode (fst (dep ! i))" "sr_config (fst sd') = sr_config (fst (dep ! i))"
      "sr_epoch (fst sd') = sr_epoch (fst (dep ! i))" using s by (simp_all add: same_server_def) (metis server.select_convs server.update_convs(5) server.surjective)+
  moreover have "length (filter (willing e) dep') \<le> length (filter (willing e) dep)" for e
    by (rule length_filter_mono2 [OF assms(2)]) (rule willing_same)
  ultimately show "case sd' of (sr, d) \<Rightarrow> (\<exists>f. sr_mode sr = Follower f) \<and> length (cf_peers (sr_config sr)) = length dep' \<and>
      length (filter (willing (sr_epoch sr + 1)) dep') < majority (length dep')"
    by (auto simp: split_beta len intro: order.strict_trans1)
qed

lemma granting_count:
  assumes "length rs \<le> n"
  shows "length (filter (granting (replies_of rs)) [0..<n]) = length (filter (\<lambda>r. \<exists>e h. r = Some (Grant e h)) rs)"
proof -
  have "[0..<n] = [0..<length rs] @ [length rs..<n]" using assms by (metis le_add_diff_inverse plus_nat.add_0 upt_add_eq_append zero_le)
  moreover have "filter (granting (replies_of rs)) [length rs..<n] = []" by (auto simp: filter_empty_conv granting_def replies_of_def)
  moreover have "length (filter (granting (replies_of rs)) [0..<length rs]) =
      length (filter (\<lambda>r. \<exists>e h. r = Some (Grant e h)) (map ((!) rs) [0..<length rs]))"
    unfolding filter_map length_map by (intro arg_cong [of _ _ length] filter_cong) (auto simp: granting_def replies_of_def)
  ultimately show ?thesis by (simp add: map_nth)
qed

lemma lost_promotion:
  assumes "\<And>e s. run_election (sr_epoch sr + 1) (length (cf_peers (sr_config sr))) replies \<noteq> Won e s"
  shows "\<exists>hp. promote E N t clock replies sr w d = Some (Err (ElectionLost hp), sr, w, d)"
  using assms by (auto simp: promote_def Let_def split: election_outcome.split)

text \<open>What an unsuccessful candidate keeps.\<close>

definition same_candidate :: "('s, 'o, 'c, 'k, 'f, 'a) server \<Rightarrow> ('s, 'o, 'c, 'k, 'f, 'a) server \<Rightarrow> bool" where
  "same_candidate sr sr' \<longleftrightarrow> sr_epoch sr' = sr_epoch sr \<and> sr_acceptor sr' = sr_acceptor sr \<and>
     cf_peers (sr_config sr') = cf_peers (sr_config sr) \<and> (\<exists>f'. sr_mode sr' = Follower f')"

lemma repoint_same:
  "repoint_after_failed_promotion now sr = Some sr' \<Longrightarrow> sr_mode sr = Follower f \<Longrightarrow> same_candidate sr sr'"
  by (auto simp: repoint_after_failed_promotion_def same_candidate_def set_leader_hint_def Let_def split: if_splits option.splits)

lemma lost_failover:
  assumes "sr_mode sr = Follower f" and "\<And>e s. run_election (sr_epoch sr + 1) (length (cf_peers (sr_config sr))) replies \<noteq> Won e s"
    and "maybe_failover E N t now later clock replies sr w d = Some (res, sr', w', d')"
  shows "res = Ok RoleFollower \<and> same_candidate sr sr'"
proof (cases "leader_suspected now sr")
  case True
  obtain hp where "promote E N t clock replies sr w d = Some (Err (ElectionLost hp), sr, w, d)"
    using lost_promotion [OF assms(2), of E N t clock w d] by blast
  then show ?thesis using assms(1,3) True by (auto simp: maybe_failover_def repoint_same)
next
  case False
  then show ?thesis using assms(1,3) by (simp add: maybe_failover_def same_candidate_def server_role_def)
qed

lemma stuck_replace:
  assumes "stuck dep" and "i < length dep" and "same_candidate (fst (dep ! i)) sr"
  shows "stuck (dep[i := (sr, d)])"
proof -
  have "length (filter (willing e) (dep[i := (sr, d)])) = length (filter (willing e) dep)" for e
  proof -
    have "map (willing e) (dep[i := (sr, d)]) = map (willing e) dep"
      using assms(2,3) by (simp add: map_update willing_def same_candidate_def list_update_same_conv)
    then have "length (filter id (map (willing e) (dep[i := (sr, d)]))) = length (filter id (map (willing e) dep))" by simp
    then show ?thesis by (simp add: filter_map)
  qed
  moreover have "dep ! i \<in> set dep" using assms(2) by simp
  ultimately show ?thesis using assms unfolding stuck_def same_candidate_def
    by (auto simp: split_beta dest!: set_update_subset_insert [THEN subsetD])
qed

lemma stuck_attempt:
  assumes "stuck dep" and "i < length dep" and "failover_attempt E N t now later clock contacts i w dep = Some (res, dep')"
  shows "res = Ok RoleFollower \<and> stuck dep' \<and> length dep' = length dep"
proof -
  define epoch where "epoch = sr_epoch (fst (dep ! i)) + 1"
  obtain rs dep1 where r: "(if leader_suspected now (fst (dep ! i))
      then vote_round (e_storage E) contacts epoch 0 dep (election_new epoch (length dep)) else ([], dep)) = (rs, dep1)" by (meson surj_pair)
  have v: "list_all2 same_server dep dep1 \<and> length rs \<le> length dep \<and>
      length (filter (\<lambda>r. \<exists>e h. r = Some (Grant e h)) rs) \<le> length (filter (willing epoch) dep)"
    using r vote_round_same [of "e_storage E" contacts epoch 0 dep "election_new epoch (length dep)"] list_all2_same_server
    by (auto split: if_splits)
  have len: "length dep1 = length dep" using v list_all2_lengthD by metis
  have st: "stuck dep1" using stuck_same [OF assms(1)] v by blast
  have same: "same_server (dep ! i) (dep1 ! i)" using v assms(2) by (simp add: list_all2_conv_all_nth)
  let ?sr = "fst (dep1 ! i)"
  have ep: "sr_epoch ?sr + 1 = epoch" using same by (simp add: same_server_def epoch_def) (metis server.select_convs(6) server.surjective server.update_convs(5))
  have "dep1 ! i \<in> set dep1" "dep ! i \<in> set dep" using assms(2) len by simp_all
  then obtain f where f: "sr_mode ?sr = Follower f" "length (cf_peers (sr_config ?sr)) = length dep"
      "length (filter (willing epoch) dep) < majority (length dep)"
    using st assms(1) len unfolding stuck_def epoch_def by (fastforce simp: split_beta)
  have lost: "run_election (sr_epoch ?sr + 1) (length (cf_peers (sr_config ?sr))) (replies_of rs) \<noteq> Won e s" for e s
    using run_election_won [of epoch "length dep" "replies_of rs" e s] v f(2,3) granting_count [of rs "length dep"] by (auto simp: ep)
  obtain sr w' d' where m: "maybe_failover E N t now later clock (replies_of rs) ?sr w (snd (dep1 ! i)) = Some (res, sr, w', d')"
      "dep' = dep1[i := (sr, d')]"
    using assms(3) unfolding failover_attempt_def Let_def epoch_def [symmetric] r by (auto split: option.splits)
  from lost_failover [OF f(1) lost m(1)] stuck_replace [OF st, of i sr d'] assms(2) len show ?thesis by (simp add: m(2))
qed


text \<open>Any number of attempts, by any servers in any order, with any pattern of lost messages.\<close>

inductive attempts ::
  "('s, 'i, 'o, 'p, 'c, 'k, 'd, 'f) env \<Rightarrow> ('a, 'w) server_net \<Rightarrow> (('s, 'o, 'c, 'k, 'f, 'a) server \<times> 'd) list \<Rightarrow>
     (role, server_error) result list \<Rightarrow> (('s, 'o, 'c, 'k, 'f, 'a) server \<times> 'd) list \<Rightarrow> bool"
  for E :: "('s, 'i, 'o, 'p, 'c, 'k, 'd, 'f) env" and N :: "('a, 'w) server_net"
    and start :: "(('s, 'o, 'c, 'k, 'f, 'a) server \<times> 'd) list"
where
  none: "attempts E N start [] start"
| attempt: "attempts E N start rs dep \<Longrightarrow> i < length dep \<Longrightarrow>
    failover_attempt E N t now later clock contacts i w dep = Some (res, dep') \<Longrightarrow> attempts E N start (rs @ [res]) dep'"

lemma stuck_attempts: "attempts E N dep rs dep' \<Longrightarrow> stuck dep \<Longrightarrow> stuck dep' \<and> (\<forall>r \<in> set rs. r = Ok RoleFollower)"
proof (induction rule: attempts.induct)
  case (attempt rs dep1 i t now later clock contacts w res dep')
  then show ?case using stuck_attempt [OF _ attempt.hyps(2,3)] by auto
qed simp

section \<open>Properties\<close>

text \<open>C35. A deployment can lose its leader for good: once every server stands for an epoch that a majority of
  acceptors has already promised, no sequence of automatic failovers, by any servers, with all
  messages delivered or not, ever elects a leader. A server stands for its own epoch plus one; losing
  does not raise that epoch, although the reply names the promise that must be exceeded.\<close>

theorem failover_deadlock:
  assumes "stuck dep" and "attempts E N dep rs dep'"
  shows "stuck dep' \<and> (\<forall>r \<in> set rs. r = Ok RoleFollower) \<and> (\<forall>(sr, d) \<in> set dep'. server_role sr = RoleFollower)"
  using stuck_attempts [OF assms(2,1)] by (fastforce simp: stuck_def server_role_def split_beta)


text \<open>Three fresh followers whose leader, the server 0, is silent.\<close>

definition demo_net3 :: "(unit, unit) server_net" where
  "demo_net3 = \<lparr>sn_feed = demo_net [] (\<lambda>_ w. (Ok [], w)), sn_bind_acceptor = (\<lambda>_ w. (Ok (), w)), sn_bind_feed = (\<lambda>_ w. (Ok (), w)),
     sn_bind_publisher = (\<lambda>w. (Ok (), w)), sn_bind_retx = (\<lambda>a w. (Ok a, w)), sn_send = (\<lambda>_ _ w. (Ok (), w)),
     sn_expired = (\<lambda>w. (True, w)), sn_now = (\<lambda>w. (0, w))\<rparr>"

abbreviation no_addrs :: "unit peer_addrs" where
  "no_addrs \<equiv> \<lparr>pe_acceptor = (), pe_feed = (), pe_retx = ()\<rparr>"

definition demo_follower :: "nat \<Rightarrow> acceptor \<Rightarrow> nat \<Rightarrow> nat \<Rightarrow> (i64, evt, unit, u64, sim_file, unit) server" where
  "demo_follower i acc hint reset_at =
     \<lparr>sr_idx = i, sr_config = (cluster_config_new [no_addrs, no_addrs, no_addrs] 7)\<lparr>cf_leader_hint := hint\<rparr>,
      sr_service_config = (), sr_journal_dir = ''j'', sr_acceptor = acc, sr_epoch = 1,
      sr_mode = Follower \<lparr>fm_receiver = reassembler_new 1, fm_retransmitter = Some (), fm_journal = small_journal 0,
        fm_replica = replica_new counter (), fm_applied = 0, fm_detector = detector_new (500 + 150 * i) 0 reset_at\<rparr>,
      sr_retx_addr = None\<rparr>"

definition voted_disk :: sim_disk where
  "voted_disk = \<lparr>d_files = [(acceptor_path ''j'', \<lparr>fd_synced = acceptor_record 2, fd_unsynced = []\<rparr>)], d_epoch = 0\<rparr>"

abbreviation promised_two :: acceptor where
  "promised_two \<equiv> acceptor_new\<lparr>ac_promised := 2\<rparr>"

definition trio :: "((i64, evt, unit, u64, sim_file, unit) server \<times> sim_disk) list" where
  "trio = [(demo_follower 0 acceptor_new 0 0, sim_new), (demo_follower 1 acceptor_new 0 0, sim_new), (demo_follower 2 acceptor_new 0 0, sim_new)]"

definition trio1 :: "((i64, evt, unit, u64, sim_file, unit) server \<times> sim_disk) list" where
  "trio1 = [(demo_follower 0 acceptor_new 0 0, sim_new), (demo_follower 1 promised_two 2 1000, voted_disk), (demo_follower 2 acceptor_new 0 0, sim_new)]"

definition trio2 :: "((i64, evt, unit, u64, sim_file, unit) server \<times> sim_disk) list" where
  "trio2 = [(demo_follower 0 acceptor_new 0 0, sim_new), (demo_follower 1 promised_two 2 1000, voted_disk), (demo_follower 2 promised_two 1 1001, voted_disk)]"

definition trio3 :: "((i64, evt, unit, u64, sim_file, unit) server \<times> sim_disk) list" where
  "trio3 = [(demo_follower 0 promised_two 0 0, voted_disk), (demo_follower 1 promised_two 0 2000, voted_disk), (demo_follower 2 promised_two 1 1001, voted_disk)]"

abbreviation "counter_env \<equiv> sim_env counter manual_now"

lemma skip_self_other: "cand \<noteq> idx \<Longrightarrow> skip_self idx n cand = Some cand"
  by (subst skip_self.simps) simp

lemma skip_self_self:
  assumes "2 \<le> n" and "idx < n"
  shows "skip_self idx n idx = Some ((idx + 1) mod n)"
proof -
  have "(idx + 1) mod n \<noteq> idx" using assms by (cases "idx + 1 = n") auto
  then show ?thesis by (subst skip_self.simps) (simp add: skip_self_other)
qed

lemma demo_persist: "pa_persist sim_storage (acceptor_path ''j'') 2 sim_new = (Ok (), voted_disk)"
  by (simp add: pa_persist_def pa_reset_def sim_storage_def sim_ops sim_new_def voted_disk_def bt_contains_def bt_get_def)

lemma demo_grant: "pa_handle sim_storage (acceptor_path ''j'') 2 acceptor_new sim_new = (Ok (Grant 2 0), promised_two, voted_disk)"
  by (simp add: pa_handle_def acceptor_handle_def demo_persist acceptor_new_def GENESIS_def Let_def)

lemma demo_reject: "pa_handle sim_storage p 2 promised_two d = (Ok (Reject 2), promised_two, d)"
  by (simp add: pa_handle_def acceptor_handle_def acceptor_new_def Let_def)

lemma upto_three: "[0..<3] = [0, 1, 2]" "[0..<Suc (Suc (Suc 0))] = [0, 1, 2]"
  by (simp_all add: upt_conv_Cons)

lemmas demo_attempt = failover_attempt_def maybe_failover_def leader_suspected_def promote_def ask_vote_def
  demo_follower_def detector_suspects_def detector_new_def detector_reset_def cluster_config_new_def run_election_def
  election_new_def election_outcome_of_def on_reply_def replies_of_def majority_def upto_three
  repoint_after_failed_promotion_def set_leader_hint_def skip_self_other skip_self_self reassembler_new_def Let_def

lemma first_attempt:
  "failover_attempt counter_env demo_net3 0 1000 1000 0 (\<lambda>i. if i = 1 then Answered else Unreachable) 1 () trio = Some (Ok RoleFollower, trio1)"
  unfolding trio_def trio1_def by (simp add: demo_attempt demo_grant)

lemma second_attempt:
  "failover_attempt counter_env demo_net3 0 1001 1001 0 (\<lambda>i. if i = 0 then Unreachable else Answered) 2 () trio1 = Some (Ok RoleFollower, trio2)"
  unfolding trio1_def trio2_def by (simp add: demo_attempt demo_grant demo_reject)


lemma third_attempt:
  "failover_attempt counter_env demo_net3 0 2000 2000 0 (\<lambda>i. Answered) 1 () trio2 = Some (Ok RoleFollower, trio3)"
  unfolding trio2_def trio3_def by (simp add: demo_attempt demo_grant demo_reject)

lemma trio2_stuck: "stuck trio2"
  unfolding trio2_def stuck_def
  by (auto simp: demo_follower_def cluster_config_new_def willing_def majority_def acceptor_new_def)

theorem failover_deadlock_witness:
  "\<exists>dep dep'. attempts counter_env demo_net3 trio [Ok RoleFollower, Ok RoleFollower] dep \<and> stuck dep \<and>
     attempts counter_env demo_net3 dep [Ok RoleFollower] dep' \<and> stuck dep' \<and> (\<forall>(sr, d) \<in> set dep'. server_role sr = RoleFollower)"
proof -
  have "attempts counter_env demo_net3 trio [Ok RoleFollower] trio1"
    using attempts.attempt [OF attempts.none _ first_attempt] by (simp add: trio_def)
  from attempts.attempt [OF this _ second_attempt] have two: "attempts counter_env demo_net3 trio [Ok RoleFollower, Ok RoleFollower] trio2"
    by (simp add: trio1_def)
  have one: "attempts counter_env demo_net3 trio2 [Ok RoleFollower] trio3"
    using attempts.attempt [OF attempts.none _ third_attempt] by (simp add: trio2_def)
  note dead = failover_deadlock [OF trio2_stuck one]
  show ?thesis by (rule exI [of _ trio2], rule exI [of _ trio3]) (intro conjI two one trio2_stuck dead [THEN conjunct1] dead [THEN conjunct2, THEN conjunct2])
qed

lemma skip_self_alone: "skip_self 0 1 0 = None"
proof -
  have "idx = 0 \<longrightarrow> n = 1 \<longrightarrow> cand = 0 \<longrightarrow> False" if "skip_self idx n cand = Some r" for idx n cand r
  proof (rule skip_self.raw_induct [where P = "\<lambda>idx n cand r. idx = 0 \<longrightarrow> n = 1 \<longrightarrow> cand = 0 \<longrightarrow> False", OF _ that], goal_cases)
    case (1 go idx n cand r)
    then have "go 0 1 0 = Some r \<Longrightarrow> False" by blast
    then show ?case using 1(2) by (auto split: if_splits)
  qed
  then show ?thesis by (cases "skip_self 0 1 0") auto
qed

lemma skip_self_two: "2 \<le> n \<Longrightarrow> idx < n \<Longrightarrow> cand < n \<Longrightarrow> \<exists>c < n. c \<noteq> idx \<and> skip_self idx n cand = Some c"
proof (cases "cand = idx")
  case True
  assume a: "2 \<le> n" "idx < n"
  then have "(idx + 1) mod n \<noteq> idx" by (cases "idx + 1 = n") auto
  then show ?thesis using a True skip_self_self [OF a] by (intro exI [of _ "(idx + 1) mod n"]) simp
qed (auto simp: skip_self_other)

text \<open>The rotation to another peer after a lost election ends exactly when the deployment has another server:
  it then points at a peer in range that is not the server itself, and the server follows on in the
  same epoch; alone in its deployment, a server that loses an election never returns from it.\<close>

theorem repoint_rotates:
  assumes "sr_idx sr < length (cf_peers (sr_config sr))"
  shows "if length (cf_peers (sr_config sr)) = 1 then repoint_after_failed_promotion now sr = None
    else \<exists>sr'. repoint_after_failed_promotion now sr = Some sr' \<and> cf_leader_hint (sr_config sr') < length (cf_peers (sr_config sr)) \<and>
      cf_leader_hint (sr_config sr') \<noteq> sr_idx sr \<and> sr_epoch sr' = sr_epoch sr \<and> server_role sr' = server_role sr"
proof (cases "length (cf_peers (sr_config sr)) = 1")
  case True
  then show ?thesis using assms skip_self_alone by (simp add: repoint_after_failed_promotion_def Let_def)
next
  case False
  let ?n = "length (cf_peers (sr_config sr))"
  have n: "2 \<le> ?n" using assms False by linarith
  then have "(cf_leader_hint (sr_config sr) + 1) mod ?n < ?n" by (intro mod_less_divisor) linarith
  from skip_self_two [OF n assms this] obtain c where c: "c < ?n" "c \<noteq> sr_idx sr"
    "skip_self (sr_idx sr) ?n ((cf_leader_hint (sr_config sr) + 1) mod ?n) = Some c" by blast
  then show ?thesis using False assms
    by (cases "sr_mode sr") (auto simp: repoint_after_failed_promotion_def Let_def set_leader_hint_def server_role_def)
qed

theorem repoint_rotates_witness:
  "\<exists>sr'. repoint_after_failed_promotion 5 (demo_follower 1 acceptor_new 0 0) = Some sr' \<and> cf_leader_hint (sr_config sr') < 3 \<and>
     cf_leader_hint (sr_config sr') \<noteq> 1"
  using repoint_rotates [of "demo_follower 1 acceptor_new 0 0" 5] by (auto simp: demo_follower_def cluster_config_new_def)

section \<open>A promotion that fails half-way\<close>

text \<open>A server in \<open>Transitioning\<close> is lost: it is left behind when a leader is promoted again and wins, its node is
  dropped, and from then on it refuses every input, receives nothing, is never suspected to
  need a failover, and every further promotion fails.\<close>

theorem promoted_leader_is_lost:
  assumes "sr_mode sr = Leader l" and "run_election (sr_epoch sr + 1) (length (cf_peers (sr_config sr))) replies = Won epoch sync_to"
  shows "\<exists>sr'. promote E N t clock replies sr w d = Some (Err (WrongRole ''promote requires follower''), sr', w, d) \<and>
    sr_mode sr' = Transitioning \<and>
    server_submit E N t input sr' w d = Some (Err (WrongRole ''submit requires leader''), sr', w, d) \<and>
    pump E N t sr' w d \<in> {None, Some (Ok 0, sr', w, d)} \<and>
    maybe_failover E N t now later clock replies' sr' w d = Some (Ok RoleFollower, sr', w, d) \<and>
    (\<exists>e. promote E N t clock replies' sr' w d = Some (Err e, sr', w, d))"
proof -
  let ?sr = "sr\<lparr>sr_mode := Transitioning\<rparr>"
  have "promote E N t clock replies sr w d = Some (Err (WrongRole ''promote requires follower''), ?sr, w, d)"
    using assms by (simp add: promote_def finish_promotion_def)
  moreover have "\<exists>e. promote E N t clock replies' ?sr w d = Some (Err e, ?sr, w, d)"
    by (auto simp: promote_def finish_promotion_def Let_def split: election_outcome.split)
  ultimately show ?thesis
    by (intro exI [of _ ?sr]) (simp add: server_submit_def pump_def maybe_failover_def leader_suspected_def server_role_def Let_def)
qed


theorem promoted_leader_is_lost_witness:
  "\<exists>l sr'. promote counter_env demo_net3 0 0 (\<lambda>i. Some (Grant 2 0)) ((demo_follower 0 acceptor_new 0 0)\<lparr>sr_mode := Leader l\<rparr>) () sim_new =
      Some (Err (WrongRole ''promote requires follower''), sr', (), sim_new) \<and> sr_mode sr' = Transitioning \<and>
      server_submit counter_env demo_net3 0 (Add 5) sr' () sim_new = Some (Err (WrongRole ''submit requires leader''), sr', (), sim_new)"
proof -
  have won: "run_election (sr_epoch (demo_follower 0 acceptor_new 0 0) + 1) (length (cf_peers (sr_config (demo_follower 0 acceptor_new 0 0))))
      (\<lambda>i. Some (Grant 2 0)) = Won 2 0"
    by (simp add: demo_follower_def cluster_config_new_def run_election_def election_new_def on_reply_def election_outcome_of_def
        majority_def upto_three Let_def GENESIS_def)
  obtain n :: "(i64, evt, unit, u64, sim_file) node" where True by blast
  define l :: "(i64, evt, unit, u64, sim_file, unit) leader_mode" where
    "l = \<lparr>lm_node = n, lm_publisher = publisher_new \<lparr>pc_session = 7, pc_dest_a = (), pc_dest_b = None\<rparr>, lm_repeater = mem_new, lm_stream = 0\<rparr>"
  have "run_election (sr_epoch ((demo_follower 0 acceptor_new 0 0)\<lparr>sr_mode := Leader l\<rparr>) + 1)
      (length (cf_peers (sr_config ((demo_follower 0 acceptor_new 0 0)\<lparr>sr_mode := Leader l\<rparr>)))) (\<lambda>i. Some (Grant 2 0)) = Won 2 0"
    using won by simp
  from promoted_leader_is_lost [OF _ this, of l counter_env demo_net3 0 0 "()" sim_new "Add 5"]
  show ?thesis by (intro exI [of _ l]) (simp, blast)
qed

end
