(* ===== verification/Server_Props.thy ===== *)
theory Server_Props
  imports Server_Failover
begin

text \<open>
  A follower is a replica that journals: its journal, its replica, its acceptor and its receiver agree at every
  moment, through lossy delivery, votes, lost elections and crashes. A follower that wins an election and has
  caught up is promoted, and leads from exactly the state it had replicated, behind a fence.
\<close>

section \<open>What a vote leaves alone on the disk\<close>

context storage_laws
begin

lemma reopen_journal:
  assumes "jrepr hist dur j d" and "\<not> j_dirty j"
  shows "\<exists>rec d'. journal_open_with S now (j_config j) d = (Ok rec, d') \<and> re_frames rec = hist \<and>
    jrepr hist (length hist) (re_journal rec) d' \<and> j_last_seq (re_journal rec) = j_last_seq j \<and>
    re_first_seq rec = seq_next (j_last_seq j) - of_nat (length hist) \<and> untouched (jc_dir (j_config j)) d d' \<and>
    j_config (re_journal rec) = j_config j"
  using assms(1)
proof (cases rule: jrepr_cases)
  case 1
  with open_empty_jrepr [of d "j_config j" now] show ?thesis by (auto simp: jempty_def seq_next_def)
next
  case (2 s gs act k)
  then have k: "k = length (sg_frames act)" using assms(2) by (simp add: jinv_def)
  have "on_disk (jc_dir (j_config j)) gs act k [] d" "wf_layout s (gs @ [act])" "torn []"
    using 2(1) by (simp_all add: jinv_def torn_def)
  from open_inner_layout [OF this, of now] k 2(2) obtain j' meta d' where
    o: "open_inner S now (j_config j) d = (Ok (j', meta, hist), d')" "jinv s gs act k j' d'"
      "untouched (jc_dir (j_config j)) d d'" "rm_first_seq meta = s" "j_config j' = j_config j" by blast
  have "jrepr hist (length hist) j' d'"
    using jrepr_jinvI [OF o(2), of "length hist"] 2(2) k by simp
  moreover have "seq_next (j_last_seq j) = s + of_nat (length hist)" "seq_next (j_last_seq j') = s + of_nat (length hist)"
    using 2(1,2) o(2) by (simp_all add: jinv_def)
  moreover from this have "j_last_seq j' = j_last_seq j" by (simp add: seq_next_def) (metis add_right_cancel)
  ultimately show ?thesis using o by (simp add: journal_open_with_def)
qed

lemma pa_persist_frame:
  assumes "ok d"
  shows "\<exists>d'. pa_persist S p n d = (Ok (), d') \<and> ok d' \<and> content d' = (content d)(p \<mapsto> acceptor_record n) \<and>
    stable d' = (stable d)(p \<mapsto> acceptor_record n) \<and> (\<forall>g q. live g d = Some q \<longrightarrow> live g d' = Some q)"
proof -
  obtain f d1 where d1: "pa_reset S p d = (Ok f, d1)" "ok d1" "live f d1 = Some p" "content d1 = (content d)(p \<mapsto> [])"
      "stable d1 = (stable d)(p \<mapsto> [])" "\<forall>g q. live g d = Some q \<longrightarrow> live g d1 = Some q"
  proof (cases "content d p")
    case None
    from create_new_fresh [OF assms this] that show ?thesis by (auto simp: pa_reset_def)
  next
    case (Some bs)
    from truncate [OF assms Some, of 0] obtain d' where
      d': "st_truncate S p 0 d = (Ok (), d')" "ok d'" "content d' = (content d)(p \<mapsto> [])" "stable d' = (stable d)(p \<mapsto> [])"
        "\<forall>g. live g d' = live g d" by auto
    have "content d' p \<noteq> None" using d'(3) by simp
    from open_append [OF d'(2) this] obtain f where "st_open_append S p d' = Ok f" "live f d' = Some p" by blast
    then show ?thesis using that d' create_new_exists [OF assms, of p] Some by (simp add: pa_reset_def)
  qed
  have "content d1 p = Some []" using d1(4) by simp
  from write_all [OF d1(2,3) this, of "acceptor_record n"] obtain d2 where
    d2: "st_write_all S f (acceptor_record n) d1 = (Ok (), d2)" "ok d2" "content d2 = (content d1)(p \<mapsto> acceptor_record n)"
      "stable d2 = stable d1" "\<forall>g. live g d2 = live g d1" by auto
  from sync_data [OF d2(2), of f p] d1(3) d2(5) obtain d3 where
    "st_sync_data S f d2 = (Ok (), d3)" "ok d3" "content d3 = content d2" "stable d3 = (stable d2)(p := content d2 p)"
      "\<forall>g. live g d3 = live g d2" by auto
  with d1 d2 show ?thesis by (intro exI [of _ d3]) (auto simp: pa_persist_def)
qed

lemma pa_handle_disk:
  assumes "ok d" and "pa_handle S p e a d = (r, a', d')" and "extension p \<noteq> Some ''seg''" and "extension p \<noteq> Some ''snap''"
  shows "seg_same dir d d' \<and> snap_files dir d' = snap_files dir d \<and> ac_high_water a' = ac_high_water a"
proof -
  have hw: "ac_high_water (snd (acceptor_handle e a)) = ac_high_water a" by (simp add: acceptor_handle_def)
  show ?thesis
  proof (cases "ac_promised (snd (acceptor_handle e a)) > ac_promised a")
    case True
    from pa_persist_frame [OF assms(1), of p "ac_promised (snd (acceptor_handle e a))"] obtain d1 where
      d1: "pa_persist S p (ac_promised (snd (acceptor_handle e a))) d = (Ok (), d1)" "ok d1" "content d1 = (content d)(p \<mapsto> acceptor_record (ac_promised (snd (acceptor_handle e a))))"
        "stable d1 = (stable d)(p \<mapsto> acceptor_record (ac_promised (snd (acceptor_handle e a))))" "\<forall>g q. live g d = Some q \<longrightarrow> live g d1 = Some q" by blast
    then have "d' = d1" "a' = snd (acceptor_handle e a)" using assms(2) True by (auto simp: pa_handle_def split_beta Let_def)
    then show ?thesis using d1 hw assms(3,4) unfolding seg_same_def snap_files_def by auto
  next
    case False
    then have "d' = d" "a' = snd (acceptor_handle e a)" using assms(2) by (auto simp: pa_handle_def split_beta Let_def split: if_splits)
    then show ?thesis using seg_same_refl [OF assms(1)] hw by simp
  qed
qed

end

lemma acceptor_path_extension: "extension (acceptor_path dir) = Some ''state''"
  by (simp add: acceptor_path_def extension_def)


section \<open>The follower's invariant\<close>

text \<open>What a leader's stream looks like to its followers.\<close>

definition leader_stream :: "('s, 'i, 'o, 'p, 'c) service \<Rightarrow> 'c \<Rightarrow> frame list \<Rightarrow> bool" where
  "leader_stream SV scfg hist \<longleftrightarrow> contiguous_from 1 hist \<and> length hist + 1 < 2 ^ 64 \<and> (\<forall>f \<in> set hist. fence_ok SV f) \<and>
     (\<exists>sw. replay_frames SV hist (sv_genesis SV scfg, wheel_new) = Ok sw)"

definition replicated :: "('s, 'i, 'o, 'p, 'c) service \<Rightarrow> 'c \<Rightarrow> frame list \<Rightarrow> nat \<Rightarrow> 's replica \<Rightarrow> bool" where
  "replicated SV scfg hist m rp \<longleftrightarrow> rp_seq rp = of_nat m \<and>
     (\<exists>w. replay_frames SV (take m hist) (sv_genesis SV scfg, wheel_new) = Ok (rp_service rp, w))"

text \<open>The follower has received, journalled, applied and reported the first \<open>m\<close> frames.\<close>

definition follows :: "('s, 'i, 'o, 'p, 'c) service \<Rightarrow> 'c \<Rightarrow> frame list \<Rightarrow> string \<Rightarrow> nat \<Rightarrow>
    ('s, sim_file, 'a) follower_mode \<Rightarrow> acceptor \<Rightarrow> sim_disk \<Rightarrow> bool" where
  "follows SV scfg hist dir m f a d \<longleftrightarrow> m \<le> length hist \<and>
     sim.jrepr (take m hist) m (fm_journal f) d \<and> \<not> j_dirty (fm_journal f) \<and>
     j_config (fm_journal f) = follower_journal_config dir \<and> j_last_seq (fm_journal f) = of_nat m \<and> sim.snap_files dir d = {} \<and>
     fm_applied f = of_nat m \<and> ac_high_water a = of_nat m \<and> replicated SV scfg hist m (fm_replica f) \<and>
     (\<exists>m0 out. m = m0 + length out \<and> ra_run hist (of_nat m0 + 1) (fm_receiver f) out)"

lemma stream_of: "leader_stream SV scfg hist \<Longrightarrow> stream hist"
  by (simp add: leader_stream_def stream.intro)

lemma replay_prefix:
  assumes "leader_stream SV scfg hist"
  shows "\<exists>s w. replay_frames SV (take m hist) (sv_genesis SV scfg, wheel_new) = Ok (s, w)"
  using assms replay_frames_append [of SV "take m hist" "drop m hist" "(sv_genesis SV scfg, wheel_new)"]
  by (auto simp: leader_stream_def rbind_Ok_iff)

lemma frame_at:
  assumes "leader_stream SV scfg hist" and "m < length hist"
  shows "f_seq (hist ! m) = of_nat m + 1" and "fence_ok SV (hist ! m)" and "frame_valid (hist ! m)"
  using assms contiguous_nth [of 1 hist m] contiguous_valid [of 1 hist "hist ! m"] by (auto simp: leader_stream_def)

lemma replicated_next:
  assumes "leader_stream SV scfg hist" and "m < length hist" and "replicated SV scfg hist m rp"
  shows "replicated SV scfg hist (Suc m) (snd (replica_apply SV (hist ! m) rp))"
proof -
  obtain w where w: "replay_frames SV (take m hist) (sv_genesis SV scfg, wheel_new) = Ok (rp_service rp, w)" "rp_seq rp = of_nat m"
    using assms(3) by (auto simp: replicated_def)
  obtain s' w' where s': "replay_frames SV (take (Suc m) hist) (sv_genesis SV scfg, wheel_new) = Ok (s', w')"
    using replay_prefix [OF assms(1)] by blast
  have "take (Suc m) hist = take m hist @ [hist ! m]" using assms(2) by (simp add: take_Suc_conv_app_nth)
  with s' w(1) have "replay_frame SV (hist ! m) (rp_service rp, w) = Ok (s', w')" by (simp add: replay_frames_append rbind_Ok_iff)
  from replica_apply_replay [OF this frame_at(2) [OF assms(1,2)], of "of_nat m"] frame_at(1) [OF assms(1,2)] w(2)
  have "snd (replica_apply SV (hist ! m) rp) = \<lparr>rp_service = s', rp_seq = of_nat m + 1\<rparr>" by (cases rp) auto
  then show ?thesis using s' by (auto simp: replicated_def add.commute)
qed

lemma replicated_rebuild:
  assumes "leader_stream SV scfg hist" and "m \<le> length hist"
  shows "replicated SV scfg hist m (replica_rebuild SV (take m hist) (replica_new SV scfg))"
  using assms(2)
proof (induction m)
  case 0
  show ?case by (simp add: replicated_def replica_rebuild_def replica_new_def GENESIS_def)
next
  case (Suc m)
  then show ?case using replicated_next [OF assms(1), of m] by (simp add: take_Suc_conv_app_nth replica_rebuild_def)
qed

lemma jc_dir_follower [simp]: "jc_dir (follower_journal_config dir) = dir"
  by (simp add: follower_journal_config_def journal_config_new_def)

lemma valid_fits: "frame_valid f \<Longrightarrow> 28 + length (frames_bytes [f]) \<le> jc_segment_bytes (follower_journal_config dir)"
  by (simp add: frame_valid_def follower_journal_config_def journal_config_new_def)

lemma follows_frame:
  assumes str: "leader_stream SV scfg hist" and inv: "follows SV scfg hist dir m f a d" and m: "m < length hist"
  shows "\<exists>j d'. journal_append sim_storage t (hist ! m) (fm_journal f) d = (Ok (), j, d') \<and>
    sim.jrepr (take (Suc m) hist) (Suc m) j d' \<and> \<not> j_dirty j \<and> j_config j = follower_journal_config dir \<and>
    j_last_seq j = of_nat (Suc m) \<and> sim.snap_files dir d' = {}"
proof -
  have f: "sim.jrepr (take m hist) m (fm_journal f) d" "j_config (fm_journal f) = follower_journal_config dir"
      "j_last_seq (fm_journal f) = of_nat m" "sim.snap_files dir d = {}" using inv by (simp_all add: follows_def)
  note fr = frame_at [OF str m]
  have small: "length hist + 1 < 2 ^ 64" using str by (simp add: leader_stream_def)
  have "unat (of_nat m + 1 :: u64) = m + 1" using m small unat_plus_of_nat [of 1 m] by (simp add: add.commute)
  then have "unat (seq_next (j_last_seq (fm_journal f))) + length [hist ! m] < 2 ^ 64" using m small by (simp add: f(3) seq_next_def)
  moreover have "contiguous_from (seq_next (j_last_seq (fm_journal f))) [hist ! m]" using fr by (simp add: f(3) seq_next_def)
  ultimately obtain j d' where
    b: "journal_append_batch sim_storage t [hist ! m] (fm_journal f) d = (Ok (), j, d')"
      "sim.jrepr (take m hist @ [hist ! m]) (if j_dirty j then m else length (take m hist @ [hist ! m])) j d'"
      "j_config j = j_config (fm_journal f)" "sim.untouched (jc_dir (j_config (fm_journal f))) d d'"
    using sim.batch_jrepr [OF f(1), of "[hist ! m]" t] valid_fits [OF fr(3), of dir] f(2) by auto
  have clean: "\<not> j_dirty j" by (rule every_frame_clean [OF b(1)]) (simp_all add: b(3) f(2) follower_journal_config_def)
  have last: "j_last_seq j = of_nat (Suc m)" using batch_last_seq [OF b(1)] fr(1) by (simp add: add.commute)
  have "take (Suc m) hist = take m hist @ [hist ! m]" using m by (simp add: take_Suc_conv_app_nth)
  then show ?thesis
    using b clean last f(2,4) m sim.untouched_snap_files(1) [OF b(4)] by (simp add: append_is_batch)
qed


text \<open>The frame that the receiver hands out is the next one.\<close>

lemma follows_delivers:
  assumes str: "leader_stream SV scfg hist" and inv: "follows SV scfg hist dir m f a d" and net: "genuine_net hist N"
    and p: "poll N rt (fm_receiver f) w = Some (res, r, w')"
  shows "case res of Ok (Some frame) \<Rightarrow> m < length hist \<and> frame = hist ! m \<and> (\<exists>m0 out. Suc m = m0 + length out \<and> ra_run hist (of_nat m0 + 1) r out)
    | _ \<Rightarrow> follows SV scfg hist dir m (f\<lparr>fm_receiver := r\<rparr>) a d"
proof -
  obtain m0 out where o: "m = m0 + length out" "ra_run hist (of_nat m0 + 1) (fm_receiver f) out" using inv by (auto simp: follows_def)
  note run = poll_run [OF net o(2) p]
  show ?thesis
  proof (cases "\<exists>frame. res = Ok (Some frame)")
    case True
    then obtain frame where res: "res = Ok (Some frame)" by blast
    have small: "length hist + 1 < 2 ^ 64" using str by (simp add: leader_stream_def)
    have m0: "unat (of_nat m0 + 1 :: u64) = m0 + 1"
      using inv o(1) small unat_plus_of_nat [of 1 m0] by (simp add: follows_def add.commute)
    then have "max (of_nat m0 + 1) (1 :: u64) = of_nat m0 + 1" by (simp add: max_def word_le_nat_alt)
    then have n: "out @ [frame] = take (Suc (length out)) (drop m0 hist)"
      using stream.ra_run_inv [OF stream_of [OF str] run] m0 by (simp add: stream.ra_inv_def [OF stream_of [OF str]] res)
    then have "length out < length (drop m0 hist)" by (metis length_append_singleton length_take lessI min.strict_boundedE)
    then have "m < length hist" using o(1) by simp
    moreover have "frame = drop m0 hist ! length out" using n by (metis nth_append_length nth_take lessI)
    ultimately have "frame = drop m0 hist ! length out" "m < length hist" by simp_all
    then show ?thesis using o(1) run res inv by (auto simp: follows_def intro!: exI [of _ m0] exI [of _ "out @ [frame]"])
  next
    case False
    then have "ra_run hist (of_nat m0 + 1) r out" using run by (auto split: result.splits option.splits)
    then have "follows SV scfg hist dir m (f\<lparr>fm_receiver := r\<rparr>) a d" using inv o(1) unfolding follows_def by auto
    then show ?thesis using False by (auto split: result.splits option.splits)
  qed
qed

text \<open>The parts of a server that following does not touch.\<close>

definition same_base :: "('s, 'o, 'c, 'k, 'f, 'a) server \<Rightarrow> ('s, 'o, 'c, 'k, 'f, 'a) server \<Rightarrow> bool" where
  "same_base sr sr' \<longleftrightarrow> sr_idx sr' = sr_idx sr \<and> sr_config sr' = sr_config sr \<and> sr_service_config sr' = sr_service_config sr \<and>
     sr_journal_dir sr' = sr_journal_dir sr"

lemma same_base_refl [simp]: "same_base sr sr" and same_base_trans: "same_base sr sr' \<Longrightarrow> same_base sr' sr'' \<Longrightarrow> same_base sr sr''"
  by (simp_all add: same_base_def)

lemma pump_frame_follows:
  assumes str: "leader_stream SV scfg hist" and inv: "follows SV scfg hist dir m f (sr_acceptor sr) d" and m: "m < length hist"
    and r: "\<exists>m0 out. Suc m = m0 + length out \<and> ra_run hist (of_nat m0 + 1) r out"
  shows "\<exists>f' sr' d'. pump_frame (sim_env SV now) t (hist ! m) (f\<lparr>fm_receiver := r\<rparr>) sr d = (Ok 1, f', sr', d') \<and>
    follows SV scfg hist dir (Suc m) f' (sr_acceptor sr') d' \<and> same_base sr sr'"
proof -
  from follows_frame [OF str inv m, of t] obtain j d' where
    j: "journal_append sim_storage t (hist ! m) (fm_journal f) d = (Ok (), j, d')" "sim.jrepr (take (Suc m) hist) (Suc m) j d'"
      "\<not> j_dirty j" "j_config j = follower_journal_config dir" "j_last_seq j = of_nat (Suc m)" "sim.snap_files dir d' = {}" by blast
  have f: "fm_applied f = of_nat m" "ac_high_water (sr_acceptor sr) = of_nat m" "replicated SV scfg hist m (fm_replica f)"
    using inv by (simp_all add: follows_def)
  have s: "f_seq (hist ! m) = of_nat (Suc m)" using frame_at(1) [OF str m] by (simp add: add.commute)
  have small: "length hist + 1 < 2 ^ 64" using str by (simp add: leader_stream_def)
  have "max (of_nat m) (of_nat (Suc m)) = (of_nat (Suc m) :: u64)"
    using m small by (simp add: max_def word_le_nat_alt unat_of_nat_small unat_plus_of_nat del: of_nat_Suc)
  then have hw: "ac_high_water (observe_seq (f_seq (hist ! m)) (sr_acceptor sr)) = of_nat (Suc m)"
    by (simp add: observe_seq_def f(2) s max.commute del: of_nat_Suc)
  let ?f = "f\<lparr>fm_receiver := r, fm_journal := j, fm_replica := snd (replica_apply SV (hist ! m) (fm_replica f)), fm_applied := f_seq (hist ! m)\<rparr>"
  let ?sr = "sr\<lparr>sr_acceptor := observe_seq (f_seq (hist ! m)) (sr_acceptor sr), sr_epoch := adopt_epoch (hist ! m) (sr_epoch sr)\<rparr>"
  have "pump_frame (sim_env SV now) t (hist ! m) (f\<lparr>fm_receiver := r\<rparr>) sr d = (Ok 1, ?f, ?sr, d')"
    using j(1) s f(1) by (simp add: pump_frame_def seq_next_def add.commute)
  moreover have "follows SV scfg hist dir (Suc m) ?f (sr_acceptor ?sr) d'"
    using j(2-6) hw s m r replicated_next [OF str m f(3)] by (simp add: follows_def)
  ultimately show ?thesis by (auto simp: same_base_def)
qed

lemma pump_loop_follows:
  fixes N :: "('a, 'w) server_net" and SV :: "('s, 'i, 'o, 'p, 'c) service" and now :: "'k \<Rightarrow> timestamp \<times> 'k"
  assumes str: "leader_stream SV scfg hist" and net: "genuine_net hist (sn_feed N)"
    and inv: "follows SV scfg hist dir m f (sr_acceptor sr) d"
    and run: "pump_loop (sim_env SV now) N t c f sr w d = Some (res, f', sr', w', d')"
  shows "\<exists>m'. follows SV scfg hist dir m' f' (sr_acceptor sr') d' \<and> same_base sr sr'"
proof -
  let ?P = "\<lambda>E M t c f sr w d (x :: (nat, server_error) result \<times> ('s, sim_file, 'a) follower_mode \<times> ('s, 'o, 'c, 'k, sim_file, 'a) server \<times> 'w \<times> sim_disk).
      E = sim_env SV now \<longrightarrow> M = N \<longrightarrow> (\<forall>m. follows SV scfg hist dir m f (sr_acceptor sr) d \<longrightarrow>
      (\<exists>m'. follows SV scfg hist dir m' (fst (snd x)) (sr_acceptor (fst (snd (snd x)))) (snd (snd (snd (snd x)))) \<and> same_base sr (fst (snd (snd x)))))"
  have "?P (sim_env SV now) N t c f sr w d (res, f', sr', w', d')"
  proof (rule pump_loop.raw_induct [where P = ?P, OF _ run])
    fix go E M t c f sr w d x
    assume ih: "\<And>E M t c f sr w d y. go E M t c f sr w d = Some y \<Longrightarrow> ?P E M t c f sr w d y"
      and step: "(case poll (sn_feed M) (fm_retransmitter f) (fm_receiver f) w of
        None \<Rightarrow> None
      | Some (Err e, r, w) \<Rightarrow> Some (Err (ServerTransport e), f\<lparr>fm_receiver := r\<rparr>, sr, w, d)
      | Some (Ok (Some frame), r, w) \<Rightarrow>
          (case pump_frame E t frame (f\<lparr>fm_receiver := r\<rparr>) sr d of
             (Err e, f, sr, d) \<Rightarrow> Some (Err e, f, sr, w, d)
           | (Ok k, f, sr, d) \<Rightarrow> go E M t (c + k) f sr w d)
      | Some (Ok None, r, w) \<Rightarrow>
          (case sn_expired M w of
             (expired, w) \<Rightarrow>
               if expired then Some (Ok c, f\<lparr>fm_receiver := r\<rparr>, sr, w, d)
               else go E M t c (f\<lparr>fm_receiver := r\<rparr>) sr w d)) = Some x"
    show "?P E M t c f sr w d x"
    proof (intro impI allI)
      fix m assume E: "E = sim_env SV now" "M = N" and inv: "follows SV scfg hist dir m f (sr_acceptor sr) d"
      obtain res r w1 where p: "poll (sn_feed N) (fm_retransmitter f) (fm_receiver f) w = Some (res, r, w1)"
        using step E by (cases "poll (sn_feed N) (fm_retransmitter f) (fm_receiver f) w") auto
      note del = follows_delivers [OF str inv net p]
      obtain ex w2 where ex: "sn_expired N w1 = (ex, w2)" by force
      show "\<exists>m'. follows SV scfg hist dir m' (fst (snd x)) (sr_acceptor (fst (snd (snd x)))) (snd (snd (snd (snd x)))) \<and> same_base sr (fst (snd (snd x)))"
      proof (cases "\<exists>frame. res = Ok (Some frame)")
        case True
        then have d: "m < length hist" "res = Ok (Some (hist ! m))" "\<exists>m0 out. Suc m = m0 + length out \<and> ra_run hist (of_nat m0 + 1) r out"
          using del by auto
        from pump_frame_follows [OF str inv d(1,3), of now t] obtain f1 sr1 d1 where
          pf: "pump_frame (sim_env SV now) t (hist ! m) (f\<lparr>fm_receiver := r\<rparr>) sr d = (Ok 1, f1, sr1, d1)"
            "follows SV scfg hist dir (Suc m) f1 (sr_acceptor sr1) d1" "same_base sr sr1" by blast
        have "go E M t (c + 1) f1 sr1 w1 d1 = Some x" using step unfolding E p d(2) by (simp add: pf(1))
        from ih [OF this] E pf(2,3) show ?thesis using same_base_trans by blast
      next
        case False
        then have k: "follows SV scfg hist dir m (f\<lparr>fm_receiver := r\<rparr>) (sr_acceptor sr) d" using del by (auto split: result.splits option.splits)
        show ?thesis
        proof (cases "res = Ok None \<and> \<not> ex")
          case True
          then have "go E M t c (f\<lparr>fm_receiver := r\<rparr>) sr w2 d = Some x" using step unfolding E p by (simp add: ex)
          from ih [OF this] E k show ?thesis by blast
        next
          case no: False
          then have "fst (snd x) = f\<lparr>fm_receiver := r\<rparr>" "fst (snd (snd x)) = sr" "snd (snd (snd (snd x))) = d"
            using step False unfolding E p by (cases res; auto simp: ex split: option.splits)+
          with k show ?thesis by auto
        qed
      qed
    qed
  qed
  with inv show ?thesis by auto
qed


section \<open>Opening and restarting\<close>

lemma pa_open_high_water: "pa_open S p d = Ok a \<Longrightarrow> ac_high_water a = 0"
  by (auto simp: pa_open_def rbind_Ok_iff acceptor_handle_def acceptor_new_def GENESIS_def split: result.splits if_splits)

lemma open_follower_follows:
  assumes str: "leader_stream SV scfg hist" and "m \<le> length hist"
    and j: "journal_open_with sim_storage t (follower_journal_config dir) d = (Ok rec, d1)" "re_frames rec = take m hist"
      "sim.jrepr (take m hist) m (re_journal rec) d1" "\<not> j_dirty (re_journal rec)"
      "j_config (re_journal rec) = follower_journal_config dir" "j_last_seq (re_journal rec) = of_nat m" "sim.snap_files dir d1 = {}"
    and o: "open_follower (sim_env SV now) N t idx config scfg dir w d = Some (Ok sr, w', d')"
  shows "\<exists>f. sr_mode sr = Follower f \<and> follows SV scfg hist dir m f (sr_acceptor sr) d' \<and> sr_journal_dir sr = dir \<and>
    sr_service_config sr = scfg \<and> sr_idx sr < length (cf_peers (sr_config sr))"
proof -
  from o obtain a where a: "pa_open sim_storage (acceptor_path dir) d = Ok a" by (auto simp: open_follower_def split: result.splits)
  have hw: "ac_high_water (observe_seq (of_nat m) a) = of_nat m" using pa_open_high_water [OF a] by (simp add: observe_seq_def max_def)
  have rep: "replicated SV scfg hist m (replica_rebuild SV (take m hist) (replica_new SV scfg))" by (rule replicated_rebuild [OF str assms(2)])
  have ra: "\<exists>m0 out. m = m0 + length out \<and> ra_run hist (of_nat m0 + 1) (reassembler_new (of_nat m + 1)) out"
    by (rule exI [of _ m], rule exI [of _ "[]"]) (simp add: ra_new)
  obtain x w1 where x: "sn_bind_acceptor N (pe_acceptor (cf_peers config ! idx)) w = (x, w1)" by force
  obtain y w2 where y: "sn_bind_feed N (pe_feed (cf_peers config ! idx)) w1 = (y, w2)" by force
  obtain tm w3 where tm: "sn_now N w2 = (tm, w3)" by force
  let ?f = "\<lparr>fm_receiver = reassembler_new (of_nat m + 1), fm_retransmitter = None, fm_journal = re_journal rec,
      fm_replica = replica_rebuild SV (take m hist) (replica_new SV scfg), fm_applied = of_nat m,
      fm_detector = detector_new (cf_failover_timeout config + cf_failover_stagger config * idx) (ra_packets_seen (reassembler_new (of_nat m + 1))) tm\<rparr>"
  have "idx < length (cf_peers config)" "x = Ok ()" "y = Ok ()"
    using o by (auto simp: open_follower_def a x y tm build_follower_def j(1) Let_def not_le split: if_splits result.splits)
  then have sr: "sr = \<lparr>sr_idx = idx, sr_config = config, sr_service_config = scfg, sr_journal_dir = dir, sr_acceptor = observe_seq (of_nat m) a,
      sr_epoch = 1, sr_mode = Follower ?f, sr_retx_addr = None\<rparr>" "d' = d1"
    using o by (auto simp: open_follower_def a x y tm build_follower_def j(1,2,6) Let_def seq_next_def)
  have "follows SV scfg hist dir m ?f (observe_seq (of_nat m) a) d1" using hw rep ra j(3-7) assms(2) by (simp add: follows_def)
  with \<open>idx < length (cf_peers config)\<close> show ?thesis by (simp add: sr)
qed

lemma open_follower_fresh:
  assumes "leader_stream SV scfg hist" and "open_follower (sim_env SV now) N t idx config scfg dir w sim_new = Some (Ok sr, w', d')"
  shows "\<exists>f. sr_mode sr = Follower f \<and> follows SV scfg hist dir 0 f (sr_acceptor sr) d' \<and> sr_journal_dir sr = dir \<and>
    sr_service_config sr = scfg \<and> sr_idx sr < length (cf_peers (sr_config sr))"
proof -
  from sim.open_empty_jrepr [of sim_new "follower_journal_config dir" t] sim_new_empty obtain rec d1 where
    r: "journal_open_with sim_storage t (follower_journal_config dir) sim_new = (Ok rec, d1)" "re_frames rec = []"
      "sim.jrepr [] 0 (re_journal rec) d1" "\<not> j_dirty (re_journal rec)" "j_config (re_journal rec) = follower_journal_config dir"
      "sim.untouched dir sim_new d1" "j_last_seq (re_journal rec) = 0" by auto
  have "sim.snap_files dir sim_new = {}" by (simp add: sim.snap_files_def sim_content_def sim_new_def)
  then have "sim.snap_files dir d1 = {}" using sim.untouched_snap_files(1) [OF r(6)] by simp
  with r show ?thesis by (intro open_follower_follows [OF assms(1) _ r(1) _ _ _ _ _ _ assms(2)]) simp_all
qed

lemma open_follower_restart:
  assumes str: "leader_stream SV scfg hist" and inv: "follows SV scfg hist dir m f a d"
    and o: "open_follower (sim_env SV now) N t idx config scfg dir w (fst (sim_crash flip r d)) = Some (Ok sr, w', d')"
  shows "\<exists>f. sr_mode sr = Follower f \<and> follows SV scfg hist dir m f (sr_acceptor sr) d' \<and> sr_journal_dir sr = dir \<and>
    sr_service_config sr = scfg \<and> sr_idx sr < length (cf_peers (sr_config sr))"
proof -
  have f: "sim.jrepr (take m hist) m (fm_journal f) d" "j_config (fm_journal f) = follower_journal_config dir"
      "j_last_seq (fm_journal f) = of_nat m" "sim.snap_files dir d = {}" "m \<le> length hist" using inv by (simp_all add: follows_def)
  have pl: "sim_power_loss d (fst (sim_crash flip r d))" by (auto simp: sim_power_loss_def)
  have len: "length (take m hist) = m" using f(5) by simp
  from simc.crash_recovery [OF f(1) pl, of t, unfolded f(2,3) len jc_dir_follower] obtain rec d1 n where
    r: "journal_open_with sim_storage t (follower_journal_config dir) (fst (sim_crash flip r d)) = (Ok rec, d1)" "m \<le> n" "n \<le> m"
      "re_frames rec = take n (take m hist)" "sim.jrepr (take n (take m hist)) n (re_journal rec) d1"
      "j_config (re_journal rec) = follower_journal_config dir" "sim.untouched dir (fst (sim_crash flip r d)) d1" "\<not> j_dirty (re_journal rec)"
      "re_first_seq rec = seq_next (of_nat m) - of_nat m" "seq_next (j_last_seq (re_journal rec)) = re_first_seq rec + of_nat n"
    by blast
  have n: "n = m" using r(2,3) by simp
  have "sim.snap_files dir d1 = {}"
    using simc.power_loss_snap_files [OF sim.jrepr_ok [OF f(1)] pl, of dir] sim.untouched_snap_files(1) [OF r(7)] f(4) by simp
  moreover have "j_last_seq (re_journal rec) = of_nat m" using r(9,10) by (simp add: seq_next_def n)
  ultimately show ?thesis using r(4-6,8) n f(5)
    by (intro open_follower_follows [OF str f(5) r(1) _ _ _ _ _ _ o]) simp_all
qed

section \<open>Runs of a follower\<close>

text \<open>
  Opened on an empty disk, then in any order: polling the feed, voting, being pointed at a leader, a failover
  that was lost, and a power loss with a restart.
\<close>

inductive follower_run ::
  "('s, 'i, 'o, 'p, 'c) service \<Rightarrow> 'c \<Rightarrow> ('k \<Rightarrow> timestamp \<times> 'k) \<Rightarrow> ('a, 'w) server_net \<Rightarrow> string \<Rightarrow>
     ('s, 'o, 'c, 'k, sim_file, 'a) server \<Rightarrow> sim_disk \<Rightarrow> bool"
  for SV :: "('s, 'i, 'o, 'p, 'c) service" and scfg :: 'c and now :: "'k \<Rightarrow> timestamp \<times> 'k" and N :: "('a, 'w) server_net" and dir :: string
where
  fo_open: "open_follower (sim_env SV now) N t idx config scfg dir w sim_new = Some (Ok sr, w', d) \<Longrightarrow> follower_run SV scfg now N dir sr d"
| fo_pump: "follower_run SV scfg now N dir sr d \<Longrightarrow> pump (sim_env SV now) N t sr w d = Some (res, sr', w', d') \<Longrightarrow>
    follower_run SV scfg now N dir sr' d'"
| fo_vote: "follower_run SV scfg now N dir sr d \<Longrightarrow> pa_handle sim_storage (acceptor_path dir) e (sr_acceptor sr) d = (r, a, d') \<Longrightarrow>
    follower_run SV scfg now N dir (sr\<lparr>sr_acceptor := a\<rparr>) d'"
| fo_hint: "follower_run SV scfg now N dir sr d \<Longrightarrow> follower_run SV scfg now N dir (set_leader_hint i sr) d"
| fo_lost: "follower_run SV scfg now N dir sr d \<Longrightarrow>
    maybe_failover (sim_env SV now) N t at later clock replies sr w d = Some (Ok RoleFollower, sr', w', d') \<Longrightarrow>
    follower_run SV scfg now N dir sr' d'"
| fo_restart: "follower_run SV scfg now N dir sr d \<Longrightarrow>
    open_follower (sim_env SV now) N t idx config scfg dir w (fst (sim_crash flip r d)) = Some (Ok sr', w', d') \<Longrightarrow>
    follower_run SV scfg now N dir sr' d'"

definition follower_inv :: "('s, 'i, 'o, 'p, 'c) service \<Rightarrow> 'c \<Rightarrow> frame list \<Rightarrow> string \<Rightarrow>
    ('s, 'o, 'c, 'k, sim_file, 'a) server \<Rightarrow> sim_disk \<Rightarrow> bool" where
  "follower_inv SV scfg hist dir sr d \<longleftrightarrow> sr_journal_dir sr = dir \<and> sr_service_config sr = scfg \<and> sr_idx sr < length (cf_peers (sr_config sr)) \<and>
     (\<exists>m f. sr_mode sr = Follower f \<and> follows SV scfg hist dir m f (sr_acceptor sr) d)"

lemma follower_pump:
  assumes "leader_stream SV scfg hist" and "genuine_net hist (sn_feed N)" and "follower_inv SV scfg hist dir sr d"
    and "pump (sim_env SV now) N t sr w d = Some (res, sr', w', d')"
  shows "follower_inv SV scfg hist dir sr' d'"
proof -
  obtain m f where f: "sr_mode sr = Follower f" "follows SV scfg hist dir m f (sr_acceptor sr) d" using assms(3) by (auto simp: follower_inv_def)
  let ?f = "f\<lparr>fm_retransmitter := Some (pe_retx (cf_peers (sr_config sr) ! cf_leader_hint (sr_config sr)))\<rparr>"
  have inv: "follows SV scfg hist dir m ?f (sr_acceptor sr) d" using f(2) by (simp add: follows_def)
  have hint: "\<not> length (cf_peers (sr_config sr)) \<le> cf_leader_hint (sr_config sr)" using assms(4) by (auto simp: pump_def)
  obtain res1 f1 sr1 w1 d1 where l: "pump_loop (sim_env SV now) N t 0 ?f sr w d = Some (res1, f1, sr1, w1, d1)"
    using assms(4) hint by (cases "pump_loop (sim_env SV now) N t 0 ?f sr w d") (auto simp: pump_def Let_def f(1))
  obtain tm w2 where tm: "sn_now N w1 = (tm, w2)" by force
  have sr': "\<exists>det. sr' = sr1\<lparr>sr_mode := Follower (f1\<lparr>fm_detector := det\<rparr>)\<rparr>" "d' = d1"
  proof -
    have "sr1\<lparr>sr_mode := Follower f1\<rparr> = sr1\<lparr>sr_mode := Follower (f1\<lparr>fm_detector := fm_detector f1\<rparr>)\<rparr>" by simp
    then have "\<exists>det. sr1\<lparr>sr_mode := Follower f1\<rparr> = sr1\<lparr>sr_mode := Follower (f1\<lparr>fm_detector := det\<rparr>)\<rparr>" by (rule exI)
    then show "\<exists>det. sr' = sr1\<lparr>sr_mode := Follower (f1\<lparr>fm_detector := det\<rparr>)\<rparr>"
      using assms(4) hint by (cases res1) (auto simp: pump_def Let_def f(1) l tm)
    show "d' = d1" using assms(4) hint by (cases res1) (auto simp: pump_def Let_def f(1) l tm)
  qed
  from pump_loop_follows [OF assms(1,2) inv l] obtain m' where m': "follows SV scfg hist dir m' f1 (sr_acceptor sr1) d1" "same_base sr sr1" by blast
  then have fol: "follows SV scfg hist dir m' (f1\<lparr>fm_detector := det\<rparr>) (sr_acceptor sr1) d'" for det by (simp add: follows_def sr'(2))
  obtain det where det: "sr' = sr1\<lparr>sr_mode := Follower (f1\<lparr>fm_detector := det\<rparr>)\<rparr>" using sr'(1) by blast
  show ?thesis using m'(2) assms(3) fol [of det] by (auto simp: follower_inv_def same_base_def det)
qed


lemma follower_vote:
  assumes "follower_inv SV scfg hist dir sr d" and "pa_handle sim_storage (acceptor_path dir) e (sr_acceptor sr) d = (r, a, d')"
  shows "follower_inv SV scfg hist dir (sr\<lparr>sr_acceptor := a\<rparr>) d'"
proof -
  obtain m f where f: "sr_mode sr = Follower f" "follows SV scfg hist dir m f (sr_acceptor sr) d" using assms(1) by (auto simp: follower_inv_def)
  have j: "sim.jrepr (take m hist) m (fm_journal f) d" "j_config (fm_journal f) = follower_journal_config dir" using f(2) by (simp_all add: follows_def)
  have v: "sim.seg_same dir d d' \<and> sim.snap_files dir d' = sim.snap_files dir d \<and> ac_high_water a = ac_high_water (sr_acceptor sr)"
    by (rule sim.pa_handle_disk [OF sim.jrepr_ok [OF j(1)] assms(2)]) (simp_all add: acceptor_path_extension)
  have "sim.jrepr (take m hist) m (fm_journal f) d'" by (rule sim.jrepr_seg_same [OF j(1)]) (simp add: j(2) v)
  then have "follows SV scfg hist dir m f a d'" using f(2) v unfolding follows_def by simp
  then show ?thesis using assms(1) f(1) by (auto simp: follower_inv_def)
qed

lemma promote_role:
  assumes "sr_mode sr = Follower f" and "promote E N t clock replies sr w d = Some (Err (ElectionLost hp), sr', w', d')"
  shows "sr' = sr \<and> d' = d"
proof -
  have b: "become_leader E N t clock epoch sr1 w d = Some (Err (ElectionLost hp), sr2, w2, d2) \<Longrightarrow> False" for epoch sr1 sr2 w2 d2
    by (auto simp: become_leader_def fence_and_publish_def Let_def split: prod.splits result.splits if_splits option.splits)
  show ?thesis using assms
    by (auto dest: b simp: promote_def finish_promotion_def Let_def split: election_outcome.splits if_splits option.splits prod.splits result.splits)
qed

lemma follower_lost:
  assumes "follower_inv SV scfg hist dir sr d"
    and "maybe_failover E N t at later clock replies sr w d = Some (Ok RoleFollower, sr', w', d')"
  shows "follower_inv SV scfg hist dir sr' d'"
proof -
  obtain m f where f: "sr_mode sr = Follower f" "follows SV scfg hist dir m f (sr_acceptor sr) d" using assms(1) by (auto simp: follower_inv_def)
  show ?thesis
  proof (cases "leader_suspected at sr")
    case False
    then show ?thesis using assms by (simp add: maybe_failover_def)
  next
    case True
    then obtain hp sr1 where p: "promote E N t clock replies sr w d = Some (Err (ElectionLost hp), sr1, w', d')"
        "repoint_after_failed_promotion later sr1 = Some sr'"
      using assms(2) by (auto simp: maybe_failover_def split: option.splits prod.splits result.splits server_error.splits)
    have sr1: "sr1 = sr" "d' = d" using promote_role [OF f(1) p(1)] by simp_all
    obtain cand det rt where "sr' = (set_leader_hint cand sr)\<lparr>sr_mode := Follower (f\<lparr>fm_retransmitter := rt, fm_detector := det\<rparr>)\<rparr>"
      using p(2) f(1) by (auto simp: repoint_after_failed_promotion_def sr1 set_leader_hint_def Let_def split: if_splits option.splits)
    moreover have "follows SV scfg hist dir m (f\<lparr>fm_retransmitter := rt, fm_detector := det\<rparr>) (sr_acceptor sr) d"
      using f(2) by (simp add: follows_def)
    ultimately show ?thesis using assms(1) sr1(2) by (auto simp: follower_inv_def set_leader_hint_def)
  qed
qed


lemma follower_run_inv:
  assumes "follower_run SV scfg now N dir sr d" and "leader_stream SV scfg hist" and "genuine_net hist (sn_feed N)"
  shows "follower_inv SV scfg hist dir sr d"
  using assms(1)
proof (induction rule: follower_run.induct)
  case (fo_open t idx config w sr w' d)
  then show ?case using open_follower_fresh [OF assms(2) fo_open] by (auto simp: follower_inv_def)
next
  case (fo_pump sr d t w res sr' w' d')
  show ?case by (rule follower_pump [OF assms(2,3) fo_pump.IH fo_pump.hyps(2)])
next
  case (fo_vote sr d e r a d')
  show ?case by (rule follower_vote [OF fo_vote.IH fo_vote.hyps(2)])
next
  case (fo_hint sr d i)
  then show ?case by (auto simp: follower_inv_def set_leader_hint_def)
next
  case (fo_lost sr d t at later clock replies w sr' w' d')
  show ?case by (rule follower_lost [OF fo_lost.IH fo_lost.hyps(2)])
next
  case (fo_restart sr d t idx config w flip r sr' w' d')
  then obtain m f where "sr_mode sr = Follower f" "follows SV scfg hist dir m f (sr_acceptor sr) d" by (auto simp: follower_inv_def)
  from open_follower_restart [OF assms(2) this(2) fo_restart.hyps(2)] show ?case by (auto simp: follower_inv_def)
qed

section \<open>Promotion\<close>

lemma leader_journal_config: "nc_journal (leader_node_config dir) = follower_journal_config dir"
  by (simp add: leader_node_config_def node_config_new_def follower_journal_config_def Let_def)

lemma leader_snapshot_every: "nc_snapshot_every (leader_node_config dir) = Some 500"
  by (simp add: leader_node_config_def Let_def)

context simulated
begin

lemma promotion_opens:
  fixes now :: "'k \<Rightarrow> timestamp \<times> 'k"
  assumes str: "leader_stream SV scfg hist" and inv: "follows SV scfg hist dir m f a d"
  shows "\<exists>(n :: ('s, 'o, 'c, 'k, sim_file) node) d'. node_open_with (sim_env SV now) t (leader_node_config dir) scfg clock d = (Ok n, d') \<and>
    n_service n = rp_service (fm_replica f) \<and> n_seq n = of_nat m \<and> n_bus n = [] \<and> n_snapshot_every n = Some 500 \<and>
    Live (follower_journal_config dir) (take m hist) m n d'"
proof -
  have f: "sim.jrepr (take m hist) m (fm_journal f) d" "j_config (fm_journal f) = follower_journal_config dir" "\<not> j_dirty (fm_journal f)"
      "j_last_seq (fm_journal f) = of_nat m" "sim.snap_files dir d = {}" "m \<le> length hist" using inv by (simp_all add: follows_def)
  obtain w where w: "replay_frames SV (take m hist) (sv_genesis SV scfg, wheel_new) = Ok (rp_service (fm_replica f), w)"
    using inv by (auto simp: follows_def replicated_def)
  from sim.reopen_journal [OF f(1,3), of t] f(2,4,6) obtain rec d1 where
    r: "journal_open_with sim_storage t (follower_journal_config dir) d = (Ok rec, d1)" "re_frames rec = take m hist"
      "sim.jrepr (take m hist) m (re_journal rec) d1" "j_last_seq (re_journal rec) = of_nat m"
      "re_first_seq rec = seq_next (of_nat m) - of_nat m" "sim.untouched dir d d1" "j_config (re_journal rec) = follower_journal_config dir" by auto
  have none: "sim.snap_files dir d1 = snap_path dir ` {}" using sim.untouched_snap_files(1) [OF r(6)] f(5) by simp
  note ok = sim.jrepr_ok [OF r(3)]
  have ls: "list_snaps sim_storage dir d1 = Ok []" using sim.list_snaps_files [OF ok, of dir] none by auto
  from purge_noop [OF ok none, of "of_nat m"] obtain d2 where
    d2: "purge_after sim_storage dir (of_nat m) d1 = (Ok (), d2)" "sim.seg_same dir d1 d2" "sim_content d2 = sim_content d1" by auto
  have con: "contiguous_from 1 (take m hist)" using str by (auto simp: leader_stream_def intro: contiguous_take)
  have small: "length hist + 1 < 2 ^ 64" using str by (simp add: leader_stream_def)
  from con have pos: "filter (\<lambda>f. 0 < f_seq f) (take m hist) = take m hist"
    using stream.hist_at [OF stream_of [OF str]] by (intro filter_True) (fastforce simp: word_gt_0 dest: in_set_takeD)
  have "\<exists>n :: ('s, 'o, 'c, 'k, sim_file) node. node_open_with (sim_env SV now) t (leader_node_config dir) scfg clock d = (Ok n, d2) \<and>
      n_service n = rp_service (fm_replica f) \<and> n_timers n = w \<and> n_journal n = re_journal rec \<and>
      n_journal_config n = nc_journal (leader_node_config dir) \<and> n_service_config n = scfg \<and>
      n_seq n = max (j_last_seq (re_journal rec)) 0 \<and> n_bus n = [] \<and> n_clock n = clock \<and> n_snapshot_every n = nc_snapshot_every (leader_node_config dir)"
    by (rule node_open_Ok [where rec = rec and ?d1.0 = d1 and hw = 0 and snaps = "[]" and anchor = None and ?d2.0 = d2])
      (use r ls d2 w pos in \<open>simp_all add: leader_journal_config high_water_seq_def load_candidates_def List.map_filter_def GENESIS_def seq_next_def\<close>)
  then obtain n :: "('s, 'o, 'c, 'k, sim_file) node" where
    n: "node_open_with (sim_env SV now) t (leader_node_config dir) scfg clock d = (Ok n, d2)" "n_service n = rp_service (fm_replica f)"
      "n_timers n = w" "n_journal n = re_journal rec" "n_journal_config n = follower_journal_config dir" "n_service_config n = scfg"
      "n_seq n = of_nat m" "n_bus n = []" "n_snapshot_every n = Some 500"
    using r(4) by (auto simp: max_def leader_journal_config leader_snapshot_every)
  have "sim.jrepr (take m hist) m (re_journal rec) d2" by (rule sim.jrepr_seg_same [OF r(3)]) (simp add: r(7) d2(2))
  moreover have "sim.snap_files dir d2 = {}" using none d2(3) by (simp add: sim.snap_files_def)
  ultimately have "Live (follower_journal_config dir) (take m hist) m n d2"
    using n(2-7) r(4,7) f(6) con small w
    by (simp add: Live_def journaled_def applied_def backed_def snaps_of_def)
  with n show ?thesis by blast
qed

end

text \<open>Every node opened to lead takes a snapshot after each 500th frame; the mark of the snapshot is a frame too.\<close>

definition fence_frames :: "seq \<Rightarrow> seq" where
  "fence_frames s = (if (s + 1) mod 500 = 0 then 2 else 1)"

lemma fence_effect:
  assumes "node_fence E t ep n d = (Ok s, n', d')" and "n_snapshot_every n = Some 500"
  shows "n_service n' = n_service n" and "n_seq n' = n_seq n + fence_frames (n_seq n)"
proof -
  have seq: "n_service n2 = n_service n1 \<and> n_seq n2 = n_seq n1 + 1 \<and> f_seq fr = n_seq n1 + 1 \<and> n_snapshot_every n2 = n_snapshot_every n1"
    if "sequence_frame E t k pl n1 d1 = (Ok fr, n2, d2)" for k pl n1 d1 fr n2 d2
    using that by (auto simp: sequence_frame_def sequence_at_def stage_frame_def frame_new_def read_clock_def seq_next_def Let_def
        split: prod.splits result.splits option.splits if_splits)
  have snap: "n_service n2 = n_service n1 \<and> n_seq n2 = n_seq n1 + (if q mod 500 = 0 then 1 else 0)"
    if "maybe_snapshot E t q n1 d1 = (Ok u, n2, d2)" "n_snapshot_every n1 = Some 500" for q n1 d1 u n2 d2
    using that seq by (auto simp: maybe_snapshot_def Let_def split: option.splits prod.splits result.splits if_splits)
  obtain pl fr n1 d1 n2 where sf: "sequence_frame E t EpochChange pl n d = (Ok fr, n1, d1)"
      "maybe_snapshot E t (f_seq fr) (n1\<lparr>n_bus := bus_publish fr (n_bus n1)\<rparr>) d1 = (Ok (), n2, d')" "n' = node_note_self (f_seq fr) n2"
    using assms by (auto simp: node_fence_def Let_def split: prod.splits result.splits)
  note e = seq [OF sf(1)] snap [OF sf(2)]
  then show "n_service n' = n_service n" "n_seq n' = n_seq n + fence_frames (n_seq n)"
    using sf(3) assms(2) by (auto simp: node_note_self_def fence_frames_def)
qed

text \<open>A network that lets the new leader bind its sockets and send to its peers.\<close>

definition reliable :: "('a, 'w) server_net \<Rightarrow> bool" where
  "reliable N \<longleftrightarrow> (\<forall>w. fst (sn_bind_publisher N w) = Ok ()) \<and> (\<forall>a w. \<exists>b. fst (sn_bind_retx N a w) = Ok b) \<and>
     (\<forall>bs a w. fst (sn_send N bs a w) = Ok ())"

lemma publish_peers_reliable:
  "reliable N \<Longrightarrow> \<exists>pu' w'. publish_peers (sn_send N) idx f peers pu w = Some (Ok (), pu', w')"
proof (induction peers arbitrary: pu w)
  case (Cons p peers)
  obtain i peer where p: "p = (i, peer)" by fastforce
  obtain buf where buf: "encode_data_into (pc_session (pu_config pu)) [f] = Some buf" by (simp add: encode_data_into_def)
  have "fst (sn_send N buf (pe_feed peer) w) = Ok ()" using Cons.prems unfolding reliable_def by blast
  then obtain w1 where "sn_send N buf (pe_feed peer) w = (Ok (), w1)" by (cases "sn_send N buf (pe_feed peer) w") simp
  then have "publish_to (sn_send N) f (pe_feed peer) pu w = Some (Ok (), pu\<lparr>pu_next_seq := f_seq f + 1\<rparr>, w1)"
    by (simp add: publish_to_def publish_window_def buf send_one_def)
  then show ?case using Cons by (simp add: p)
qed simp

lemma drain_reliable:
  "reliable N \<Longrightarrow> \<exists>pu' w'. drain_stream (sn_send N) config idx fs ms pu w = Some (Ok (), fold mem_record fs ms, pu', w', [])"
proof (induction fs arbitrary: ms pu w)
  case (Cons f fs)
  from publish_peers_reliable [OF Cons.prems] obtain pu1 w1 where
    "publish_to_all (sn_send N) config idx f pu w = Some (Ok (), pu1, w1)" unfolding publish_to_all_def by blast
  then show ?case using Cons by simp
qed simp

text \<open>What a follower that had applied \<open>applied\<close> is once it leads \<open>epoch\<close>.\<close>

definition leads_from :: "('s, 'i, 'o, 'p, 'c) service \<Rightarrow> u64 \<Rightarrow> seq \<Rightarrow> 's \<Rightarrow> ('s, 'o, 'c, 'k, 'f, 'a) leader_mode \<Rightarrow> bool" where
  "leads_from SV epoch applied s l \<longleftrightarrow> n_service (lm_node l) = s \<and> n_seq (lm_node l) = applied + fence_frames applied \<and>
     j_last_seq (n_journal (lm_node l)) = n_seq (lm_node l) \<and>
     (\<exists>fence fs. lm_repeater l = fold mem_record (fence # fs) (mem_with_capacity (64 * 1024)) \<and> marks fs \<and> f_kind fence = EpochChange \<and>
        f_seq fence = applied + 1 \<and>
        epoch_from_frame fence = Ok \<lparr>ec_epoch = epoch, ec_first_seq = applied + 1, ec_schema_version = sv_schema_version SV\<rparr>)"

lemma fence_decodes:
  assumes "f_payload f = encode_to_vec enc_fence (ep, s, v)"
  shows "epoch_from_frame f = Ok \<lparr>ec_epoch = ep, ec_first_seq = s, ec_schema_version = v\<rparr>"
proof -
  have "length (f_payload f) = 20" by (simp add: assms encode_to_vec_def enc_pair_def enc_int_def)
  moreover have "decode_all dec_fence (f_payload f) = Ok (ep, s, v)" by (simp add: assms fencec.decode_all_encode)
  ultimately show ?thesis by (simp add: epoch_from_frame_def)
qed

lemma fence_fits: "28 + (FRAME_HEADER_LEN + 20 + 4) \<le> jc_segment_bytes (follower_journal_config dir)"
  by (simp add: follower_journal_config_def journal_config_new_def FRAME_HEADER_LEN_def)

context simulated
begin

lemma fence_and_publish_leads:
  fixes n :: "('s, 'o, 'c, 'k, sim_file) node"
  assumes live: "Live (follower_journal_config dir) hist dur n d" and small: "length hist + 3 < 2 ^ 64" and net: "reliable N"
    and n: "n_bus n = [(True, [])]" "n_snapshot_every n = Some 500"
  shows "\<exists>l w' d'. fence_and_publish (env_of now) N t epoch 0 pu n sr w d = Some (Ok l, sr, w', d') \<and>
    leads_from SV epoch (n_seq n) (n_service n) l"
proof -
  from fence_quiet [OF live small fence_fits, of now t epoch] obtain n1 d1 f fs where
    f: "node_fence (env_of now) t epoch n d = (Ok (seq_next (n_seq n)), n1, d1)"
      "Live (follower_journal_config dir) (hist @ f # fs) dur n1 d1" "published (f # fs) n n1" "f_kind f = EpochChange"
      "f_seq f = seq_next (n_seq n)" "f_payload f = fence_payload epoch n" "marks fs" by blast
  note e = fence_effect [OF f(1) n(2)]
  have bus: "fold bus_publish gs [(True, xs)] = [(True, xs @ gs)]" for gs xs
    by (induction gs arbitrary: xs) (simp_all add: bus_publish_def)
  have "n_bus n1 = [(True, f # fs)]" using f(3) bus [of "f # fs" "[]"] by (simp add: published_def n(1))
  moreover from drain_reliable [OF net] obtain pu' w' where
    "drain_stream (sn_send N) (sr_config sr) (sr_idx sr) (f # fs) (mem_with_capacity (64 * 1024)) pu w =
      Some (Ok (), fold mem_record (f # fs) (mem_with_capacity (64 * 1024)), pu', w', [])" by blast
  ultimately have "fence_and_publish (env_of now) N t epoch 0 pu n sr w d =
      Some (Ok \<lparr>lm_node = set_channel 0 [] n1, lm_publisher = pu', lm_repeater = fold mem_record (f # fs) (mem_with_capacity (64 * 1024)),
        lm_stream = 0\<rparr>, sr, w', d1)"
    by (simp add: fence_and_publish_def f(1) del: drain_stream.simps fold_simps)
  moreover have "length fs \<le> 1" using f(7) by (simp add: marks_def)
  then have "j_last_seq (n_journal n1) = n_seq n1" using f(2) small by (simp add: Live_def journaled_def)
  moreover have "epoch_from_frame f = Ok \<lparr>ec_epoch = epoch, ec_first_seq = n_seq n + 1, ec_schema_version = sv_schema_version SV\<rparr>"
    using fence_decodes [OF f(6)] by (simp add: seq_next_def)
  ultimately show ?thesis
    using e f(4,5,7) by (auto simp: leads_from_def set_channel_def seq_next_def intro!: exI [of _ f] exI [of _ fs] simp del: fold_simps)
qed

lemma become_leader_leads:
  fixes now :: "'k \<Rightarrow> timestamp \<times> 'k" and sr :: "('s, 'o, 'c, 'k, sim_file, 'a) server"
  assumes str: "leader_stream SV scfg hist" and inv: "follows SV scfg hist dir m f a d" and small: "length hist + 3 < 2 ^ 64"
    and net: "reliable N" and sr: "sr_journal_dir sr = dir" "sr_service_config sr = scfg" "sr_idx sr < length (cf_peers (sr_config sr))"
  shows "\<exists>l addr w' d'. become_leader (env_of now) N t clock epoch sr w d = Some (Ok l, sr\<lparr>sr_retx_addr := Some addr\<rparr>, w', d') \<and>
    leads_from SV epoch (of_nat m) (rp_service (fm_replica f)) l"
proof -
  from promotion_opens [OF str inv, of now t clock] obtain n :: "('s, 'o, 'c, 'k, sim_file) node" and d1 where
    n: "node_open_with (env_of now) t (leader_node_config dir) scfg clock d = (Ok n, d1)" "n_service n = rp_service (fm_replica f)"
      "n_seq n = of_nat m" "n_bus n = []" "n_snapshot_every n = Some 500" "Live (follower_journal_config dir) (take m hist) m n d1" by blast
  let ?n = "n\<lparr>n_bus := [(True, [])]\<rparr>"
  have live: "Live (follower_journal_config dir) (take m hist) m ?n d1"
    using n(6) journaled_cong(1) [of ?n n] by (simp add: Live_def applied_def)
  obtain w1 where w1: "sn_bind_publisher N w = (Ok (), w1)" using net unfolding reliable_def by (metis prod.collapse)
  obtain addr w2 where w2: "sn_bind_retx N (pe_retx (cf_peers (sr_config sr) ! sr_idx sr)) w1 = (Ok addr, w2)"
    using net unfolding reliable_def by (metis prod.collapse)
  have "length (take m hist) + 3 < 2 ^ 64" using small by simp
  from fence_and_publish_leads [OF live this net, of now t epoch _ "sr\<lparr>sr_retx_addr := Some addr\<rparr>" w2] n(2,3,5) show ?thesis
    using sr by (simp add: become_leader_def n(1,4) bus_subscribe_def w1 w2 Let_def) blast
qed

end

lemma run_election_epoch: "run_election target n replies = Won epoch sync_to \<Longrightarrow> epoch = target"
proof -
  have "tally replies is el = Won epoch sync_to \<Longrightarrow> epoch = el_epoch el" for "is" el
  proof (induction "is" arbitrary: el)
    case Nil
    then show ?case by (auto simp: election_outcome_of_def split: if_splits)
  next
    case (Cons i "is")
    have "el_epoch (snd (on_reply k r el)) = el_epoch el" "fst (on_reply k r el) = Won e s \<Longrightarrow> e = el_epoch el" for k r e s
      by (auto simp: on_reply_def election_outcome_of_def Let_def split: vote_reply.splits if_splits)
    then show ?case using Cons by (fastforce simp: split_beta Let_def split: option.splits election_outcome.splits)
  qed
  then show "run_election target n replies = Won epoch sync_to \<Longrightarrow> epoch = target" by (fastforce simp: run_election_def election_new_def)
qed

lemma leader_streams:
  assumes "service_laws SV scfg vi vs sz" and "node_run SV scfg vi sz cfg now n d base dur"
  shows "leader_stream SV scfg (base @ observed n)"
proof -
  note sim = simulatedI [OF assms(1)]
  have "\<forall>f \<in> set (base @ observed n). fence_ok SV f" using node_run_fences [OF assms(2)] bus_all_observed by fastforce
  then show ?thesis
    using simulated.run_is_replay [OF sim assms(2)] simulated.node_run_inv [OF sim assms(2)]
    by (auto simp: leader_stream_def simulated.run_inv_def [OF sim])
qed

section \<open>A follower of one frame\<close>

definition feed_net :: "bytes \<Rightarrow> (unit, unit) server_net" where
  "feed_net bs = demo_net3\<lparr>sn_feed := demo_net bs (\<lambda>_ w. (Ok [], w))\<rparr>"

abbreviation duo_config :: "unit cluster_config" where
  "duo_config \<equiv> cluster_config_new [no_addrs, no_addrs] 7"

abbreviation got_one :: "u64 \<Rightarrow> reassembler" where
  "got_one packets \<equiv> \<lparr>ra_session = Some 7, ra_next = 2, ra_pending = [], ra_announced_next = 2, ra_packets_seen = packets\<rparr>"

lemma feed_genuine: "packet_decode bs = Ok (Data 7 [fr]) \<Longrightarrow> genuine_net [fr] (sn_feed (feed_net bs))"
  by (auto simp: feed_net_def genuine_net_def demo_net_def genuine_bytes_def genuine_def genuine_reply.simps)

lemma feed_poll:
  assumes "packet_decode bs = Ok (Data 7 [fr])" and "f_seq fr = 1"
  shows "poll (sn_feed (feed_net bs)) rt (reassembler_new 1) () = Some (Ok (Some fr), (got_one 1), ())"
    and "poll (sn_feed (feed_net bs)) rt (got_one 1) () =
      Some (Ok None, (got_one 2), ())"
proof -
  have "next_frame (reassembler_new 1) = (None, reassembler_new 1)" by (simp add: next_frame_def reassembler_new_def bt_get_def)
  then show "poll (sn_feed (feed_net bs)) rt (reassembler_new 1) () = Some (Ok (Some fr), (got_one 1), ())"
    by (simp add: poll_def poll_loop.simps poll_turn_def recv_into_def feed_net_def demo_net_def assms ingest_first next_frame_def bt_get_def bt_remove_def)
  show "poll (sn_feed (feed_net bs)) rt (got_one 1) () =
      Some (Ok None, (got_one 2), ())"
    by (simp add: poll_def poll_loop.simps poll_turn_def recv_into_def feed_net_def demo_net_def assms next_frame_def bt_get_def
        ingest_def ingest_frame_def gap_def trim_pending.simps bt_first_def Let_def)
qed

lemma follower_of_one:
  fixes SV :: "('s, 'i, 'o, 'p, 'c) service" and now :: "'k \<Rightarrow> timestamp \<times> 'k"
  assumes str: "leader_stream SV scfg [fr]" and bs: "packet_decode bs = Ok (Data 7 [fr])"
  shows "\<exists>(sr :: ('s, 'o, 'c, 'k, sim_file, unit) server) d f. follower_run SV scfg now (feed_net bs) ''j'' sr d \<and> sr_mode sr = Follower f \<and> fm_applied f = 1 \<and> sr_config sr = duo_config"
proof -
  have seq: "f_seq fr = 1" using str by (simp add: leader_stream_def)
  obtain sr :: "('s, 'o, 'c, 'k, sim_file, unit) server" and d f where
    o: "open_follower (sim_env SV now) (feed_net bs) 0 0 duo_config scfg ''j'' () sim_new = Some (Ok sr, (), d)"
      "sr_config sr = duo_config" "sr_mode sr = Follower f" "fm_receiver f = reassembler_new 1"
  proof -
    have a: "pa_open sim_storage (acceptor_path ''j'') sim_new = Ok acceptor_new" by (simp add: pa_open_def sim_storage_def sim_read_def sim_new_def)
    obtain rec d1 where r: "journal_open_with sim_storage 0 (follower_journal_config ''j'') sim_new = (Ok rec, d1)" "j_last_seq (re_journal rec) = 0"
      using sim.open_empty_jrepr [of sim_new "follower_journal_config ''j''" 0] sim_new_empty by auto
    then show ?thesis using that by (simp add: open_follower_def build_follower_def a feed_net_def demo_net3_def cluster_config_new_def Let_def seq_next_def)
  qed
  from open_follower_fresh [OF str o(1)] o(3) have fol: "follows SV scfg [fr] ''j'' 0 f (sr_acceptor sr) d" by auto
  let ?f = "f\<lparr>fm_retransmitter := Some ()\<rparr>"
  have fol': "follows SV scfg [fr] ''j'' 0 ?f (sr_acceptor sr) d" using fol by (simp add: follows_def)
  note p = feed_poll [OF bs seq]
  have pp: "poll (sn_feed (feed_net bs)) None (fm_receiver ?f) () = Some (Ok (Some fr), (got_one 1), ())" by (simp add: o(4) p(1))
  from follows_delivers [OF str fol' feed_genuine [OF bs] pp] have one: "\<exists>m0 out. Suc 0 = m0 + length out \<and>
      ra_run [fr] (of_nat m0 + 1) (got_one 1) out" by simp
  from pump_frame_follows [OF str fol' _ one, of now 0] obtain f1 sr1 d1 where
    pf: "pump_frame (sim_env SV now) 0 fr (?f\<lparr>fm_receiver := (got_one 1)\<rparr>) sr d =
        (Ok 1, f1, sr1, d1)" "follows SV scfg [fr] ''j'' (Suc 0) f1 (sr_acceptor sr1) d1" "sr_config sr1 = duo_config"
    using o(2) by (auto simp: same_base_def)
  have rec: "fm_receiver f1 = (got_one 1)" "fm_retransmitter f1 = Some ()"
    using pf(1) by (auto simp: pump_frame_def split: if_splits prod.splits result.splits)
  let ?f2 = "f1\<lparr>fm_receiver := (got_one 2)\<rparr>"
  have ex: "sn_expired (feed_net bs) () = (True, ())" "sn_now (feed_net bs) () = (0, ())" by (simp_all add: feed_net_def demo_net3_def)
  have "pump_loop (sim_env SV now) (feed_net bs) 0 0 ?f sr () d = Some (Ok 1, ?f2, sr1, (), d1)"
    by (subst pump_loop.simps, simp add: o(4) p(1) pf(1)) (subst pump_loop.simps, simp add: rec p(2) ex(1))
  then have "pump (sim_env SV now) (feed_net bs) 0 sr () d =
      Some (Ok 1, sr1\<lparr>sr_mode := Follower (?f2\<lparr>fm_detector := detector_observe 2 0 (fm_detector f1)\<rparr>)\<rparr>, (), d1)"
    by (simp add: pump_def o(2,3) cluster_config_new_def ex(2) Let_def)
  from fo_pump [OF fo_open [OF o(1)] this] pf(2,3) show ?thesis
    by (intro exI [of _ "sr1\<lparr>sr_mode := Follower (?f2\<lparr>fm_detector := detector_observe 2 0 (fm_detector f1)\<rparr>)\<rparr>"] exI [of _ d1]
        exI [of _ "?f2\<lparr>fm_detector := detector_observe 2 0 (fm_detector f1)\<rparr>"]) (simp add: follows_def)
qed

lemma demo_leader:
  "\<exists>(n :: (i64, evt, unit, u64, sim_file) node) d dur fr bs. node_run counter () (\<lambda>_. True) (\<lambda>_. True) demo_cfg manual_now n d [] dur \<and>
     observed n = [fr] \<and> packet_decode bs = Ok (Data 7 [fr])"
proof -
  have "length (encode_to_vec (sv_enc_input counter) (Add 5)) \<le> 100"
    by (simp add: counter_def enc_cmd_def enc_enum_def enc_int_def encode_to_vec_def)
  from counters.run_one [OF counter_quiet TrueI this] obtain n :: "(i64, evt, unit, u64, sim_file) node" and d dur where
    n: "node_run counter () (\<lambda>_. True) (\<lambda>_. True) demo_cfg manual_now n d [] dur" "length (observed n) = 1" by blast
  then obtain fr where fr: "observed n = [fr]" by (auto simp: length_Suc_conv)
  have "wf_packet (Data 7 [fr])" using counters.run_is_replay [OF n(1)] fr by simp
  with packet_decode_encode [of "Data 7 [fr]"] n(1) fr show ?thesis by blast
qed

section \<open>Properties\<close>

text \<open>C10. A follower's journal, replica and acceptor agree: at every moment of its life (lossy delivery, votes, lost
  elections, power losses and restarts included) it has applied the same prefix of the leader's
  stream as its replica holds, its acceptor reports exactly that number as its high water, and its
  journal reopens with exactly these frames.\<close>

theorem follower_consistent:
  assumes "service_laws SV scfg vi vs sz" and "node_run SV scfg vi sz cfg now n d base dur"
    and "genuine_net (base @ observed n) (sn_feed N)" and "follower_run SV scfg now' N dir sr d'"
  shows "\<exists>f m w rec d''. sr_mode sr = Follower f \<and> m \<le> length (base @ observed n) \<and> fm_applied f = of_nat m \<and>
    ac_high_water (sr_acceptor sr) = of_nat m \<and> rp_seq (fm_replica f) = of_nat m \<and>
    replay_frames SV (take m (base @ observed n)) (sv_genesis SV scfg, wheel_new) = Ok (rp_service (fm_replica f), w) \<and>
    journal_open_with sim_storage t (follower_journal_config dir) d' = (Ok rec, d'') \<and> re_frames rec = take m (base @ observed n)"
proof -
  define hist where "hist = base @ observed n"
  have str: "leader_stream SV scfg hist" unfolding hist_def by (rule leader_streams [OF assms(1,2)])
  have "genuine_net hist (sn_feed N)" using assms(3) by (simp add: hist_def)
  from follower_run_inv [OF assms(4) str this] obtain m f where
    f: "sr_mode sr = Follower f" "follows SV scfg hist dir m f (sr_acceptor sr) d'" by (auto simp: follower_inv_def)
  have j: "sim.jrepr (take m hist) m (fm_journal f) d'" "\<not> j_dirty (fm_journal f)" "j_config (fm_journal f) = follower_journal_config dir"
    using f(2) by (simp_all add: follows_def)
  from sim.reopen_journal [OF j(1,2), of t] j(3) obtain rec d'' where
    r: "journal_open_with sim_storage t (follower_journal_config dir) d' = (Ok rec, d'')" "re_frames rec = take m hist" by auto
  obtain w where "replay_frames SV (take m hist) (sv_genesis SV scfg, wheel_new) = Ok (rp_service (fm_replica f), w)" "rp_seq (fm_replica f) = of_nat m"
    using f(2) by (auto simp: follows_def replicated_def)
  with f r show ?thesis unfolding hist_def [symmetric]
    by (intro exI [of _ f] exI [of _ m] exI [of _ w] exI [of _ rec] exI [of _ d'']) (simp add: follows_def)
qed

theorem follower_consistent_witness:
  "\<exists>(n :: (i64, evt, unit, u64, sim_file) node) d dur (N :: (unit, unit) server_net) (sr :: (i64, evt, unit, u64, sim_file, unit) server) d' f m rec d''.
     node_run counter () (\<lambda>_. True) (\<lambda>_. True) demo_cfg manual_now n d [] dur \<and> follower_run counter () manual_now N ''j'' sr d' \<and>
     sr_mode sr = Follower f \<and> fm_applied f = 1 \<and> ac_high_water (sr_acceptor sr) = 1 \<and>
     journal_open_with sim_storage 0 (follower_journal_config ''j'') d' = (Ok rec, d'') \<and> re_frames rec = take m (observed n)"
proof -
  obtain n :: "(i64, evt, unit, u64, sim_file) node" and d dur fr bs where
    n: "node_run counter () (\<lambda>_. True) (\<lambda>_. True) demo_cfg manual_now n d [] dur" "observed n = [fr]" "packet_decode bs = Ok (Data 7 [fr])"
    using demo_leader by blast
  have str: "leader_stream counter () [fr]" using leader_streams [OF counterl.service_laws_axioms n(1)] n(2) by simp
  from follower_of_one [OF str n(3), of manual_now] obtain sr :: "(i64, evt, unit, u64, sim_file, unit) server" and d' f where
    f: "follower_run counter () manual_now (feed_net bs) ''j'' sr d'" "sr_mode sr = Follower f" "fm_applied f = 1" by blast
  have net: "genuine_net ([] @ observed n) (sn_feed (feed_net bs))" using feed_genuine [OF n(3)] n(2) by simp
  from follower_consistent [OF counterl.service_laws_axioms n(1) net f(1), of 0] f(2,3) obtain m rec d'' where
    "ac_high_water (sr_acceptor sr) = 1" "journal_open_with sim_storage 0 (follower_journal_config ''j'') d' = (Ok rec, d'')"
      "re_frames rec = take m (observed n)" by auto
  with n(1) f show ?thesis by blast
qed

text \<open>C9. Promotion is exact. A follower stands for the epoch after its own. If the election is not won, or the voters
  reported a number it has not applied, it is refused and nothing changes. Otherwise it has
  caught up, and on a network that lets it bind its sockets and reach its peers the promotion succeeds: the
  server leads that epoch from the very state and number it had replicated, and the first frame of its
  term is a fence of that epoch, journalled and in the retransmission store. If the socket of the
  publisher cannot be bound the follower is not restored: the server is left in transition.\<close>

theorem promotion_exact:
  assumes "service_laws SV scfg vi vs sz" and "node_run SV scfg vi sz cfg now n d base dur"
    and "genuine_net (base @ observed n) (sn_feed N)" and "follower_run SV scfg now' N dir sr d'" and "sr_mode sr = Follower f"
    and "length (base @ observed n) + 3 < 2 ^ 64"
  shows "case run_election (sr_epoch sr + 1) (length (cf_peers (sr_config sr))) replies of
      Pending \<Rightarrow> promote (sim_env SV now') N t clock replies sr w d' = Some (Err (ElectionLost (sr_epoch sr + 1)), sr, w, d')
    | Lost promised \<Rightarrow> promote (sim_env SV now') N t clock replies sr w d' = Some (Err (ElectionLost promised), sr, w, d')
    | Won epoch sync_to \<Rightarrow> epoch = sr_epoch sr + 1 \<and>
        (if fm_applied f < sync_to
         then promote (sim_env SV now') N t clock replies sr w d' = Some (Err (ElectionLost epoch), sr, w, d')
         else (reliable N \<longrightarrow> (\<exists>sr' l w' d''. promote (sim_env SV now') N t clock replies sr w d' = Some (Ok (), sr', w', d'') \<and>
             sr_mode sr' = Leader l \<and> sr_epoch sr' = epoch \<and> sr_acceptor sr' = sr_acceptor sr \<and>
             leads_from SV epoch (fm_applied f) (rp_service (fm_replica f)) l)) \<and>
           (\<forall>e w'. sn_bind_publisher N w = (Err e, w') \<longrightarrow>
             (\<exists>d''. promote (sim_env SV now') N t clock replies sr w d' = Some (Err (ServerIo e), sr\<lparr>sr_mode := Transitioning\<rparr>, w', d''))))"
proof -
  define hist where "hist = base @ observed n"
  note sim = simulatedI [OF assms(1)]
  have str: "leader_stream SV scfg hist" unfolding hist_def by (rule leader_streams [OF assms(1,2)])
  have "genuine_net hist (sn_feed N)" using assms(3) by (simp add: hist_def)
  from follower_run_inv [OF assms(4) str this] assms(5) obtain m where
    f: "follows SV scfg hist dir m f (sr_acceptor sr) d'" and
    sr: "sr_journal_dir sr = dir" "sr_service_config sr = scfg" "sr_idx sr < length (cf_peers (sr_config sr))" by (auto simp: follower_inv_def)
  have ap: "fm_applied f = of_nat m" using f by (simp add: follows_def)
  show ?thesis
  proof (cases "run_election (sr_epoch sr + 1) (length (cf_peers (sr_config sr))) replies")
    case (Won epoch sync_to)
    have epoch: "epoch = sr_epoch sr + 1" by (rule run_election_epoch [OF Won])
    have go: "promote (sim_env SV now') N t clock replies sr w d' = finish_promotion (sim_env SV now') N t clock epoch sync_to sr w d'"
      by (simp add: promote_def Won)
    let ?sr = "sr\<lparr>sr_mode := Transitioning\<rparr>"
    have leads: "\<exists>sr' l w' d''. promote (sim_env SV now') N t clock replies sr w d' = Some (Ok (), sr', w', d'') \<and>
        sr_mode sr' = Leader l \<and> sr_epoch sr' = epoch \<and> sr_acceptor sr' = sr_acceptor sr \<and> leads_from SV epoch (fm_applied f) (rp_service (fm_replica f)) l"
      if lag: "\<not> fm_applied f < sync_to" and rel: "reliable N"
    proof -
      obtain l addr w1 d1 where b: "become_leader (sim_env SV now') N t clock epoch ?sr w d' = Some (Ok l, ?sr\<lparr>sr_retx_addr := Some addr\<rparr>, w1, d1)"
          "leads_from SV epoch (of_nat m) (rp_service (fm_replica f)) l"
        using simulated.become_leader_leads [OF sim str f assms(6) [folded hist_def] rel, of ?sr now' t clock epoch w] sr by auto
      then show ?thesis unfolding go using lag assms(5) ap by (auto simp: finish_promotion_def)
    qed
    have stops: "\<exists>d''. promote (sim_env SV now') N t clock replies sr w d' = Some (Err (ServerIo e), ?sr, w', d'')"
      if "\<not> fm_applied f < sync_to" "sn_bind_publisher N w = (Err e, w')" for e w'
      using simulated.promotion_opens [OF sim str f, of now' t clock] that assms(5) sr
      unfolding go by (auto simp: finish_promotion_def become_leader_def Let_def)
    show ?thesis using leads stops epoch go assms(5) by (simp add: Won finish_promotion_def)
  qed (simp_all add: promote_def)
qed

theorem promotion_exact_witness:
  "\<exists>(N :: (unit, unit) server_net) (sr :: (i64, evt, unit, u64, sim_file, unit) server) d' f sr' l w' d''.
     follower_run counter () manual_now N ''j'' sr d' \<and> sr_mode sr = Follower f \<and> fm_applied f = 1 \<and>
     promote (sim_env counter manual_now) N 0 7 (\<lambda>_. Some (Grant (sr_epoch sr + 1) 1)) sr () d' = Some (Ok (), sr', w', d'') \<and>
     sr_mode sr' = Leader l \<and> sr_epoch sr' = sr_epoch sr + 1 \<and> n_service (lm_node l) = rp_service (fm_replica f) \<and> n_seq (lm_node l) = 2 \<and>
     promote (sim_env counter manual_now) N 0 7 (\<lambda>_. Some (Grant (sr_epoch sr + 1) 2)) sr () d' = Some (Err (ElectionLost (sr_epoch sr + 1)), sr, (), d')"
proof -
  obtain n :: "(i64, evt, unit, u64, sim_file) node" and d dur fr bs where
    n: "node_run counter () (\<lambda>_. True) (\<lambda>_. True) demo_cfg manual_now n d [] dur" "observed n = [fr]" "packet_decode bs = Ok (Data 7 [fr])"
    using demo_leader by blast
  have str: "leader_stream counter () [fr]" using leader_streams [OF counterl.service_laws_axioms n(1)] n(2) by simp
  from follower_of_one [OF str n(3), of manual_now] obtain sr :: "(i64, evt, unit, u64, sim_file, unit) server" and d' f where
    f: "follower_run counter () manual_now (feed_net bs) ''j'' sr d'" "sr_mode sr = Follower f" "fm_applied f = 1" "sr_config sr = duo_config" by blast
  have net: "genuine_net ([] @ observed n) (sn_feed (feed_net bs))" using feed_genuine [OF n(3)] n(2) by simp
  have small: "length ([] @ observed n) + 3 < 2 ^ 64" using n(2) by simp
  have won: "run_election (sr_epoch sr + 1) (length (cf_peers (sr_config sr))) (\<lambda>_. Some (Grant (sr_epoch sr + 1) h)) = Won (sr_epoch sr + 1) h" for h
    by (simp add: f(4) cluster_config_new_def run_election_def election_new_def on_reply_def election_outcome_of_def majority_def
        GENESIS_def Let_def upt_conv_Cons max_def)
  note e = promotion_exact [OF counterl.service_laws_axioms n(1) net f(1,2) small, of 0 7 _ "()"]
  have rel: "reliable (feed_net bs)" by (simp add: reliable_def feed_net_def demo_net3_def)
  have "\<exists>sr' l w' d''. promote (sim_env counter manual_now) (feed_net bs) 0 7 (\<lambda>_. Some (Grant (sr_epoch sr + 1) 1)) sr () d' = Some (Ok (), sr', w', d'') \<and>
      sr_mode sr' = Leader l \<and> sr_epoch sr' = sr_epoch sr + 1 \<and> sr_acceptor sr' = sr_acceptor sr \<and>
      leads_from counter (sr_epoch sr + 1) 1 (rp_service (fm_replica f)) l"
    using e [of "\<lambda>_. Some (Grant (sr_epoch sr + 1) 1)"] rel by (simp add: won f(3))
  then obtain sr' l w' d'' where "promote (sim_env counter manual_now) (feed_net bs) 0 7 (\<lambda>_. Some (Grant (sr_epoch sr + 1) 1)) sr () d' = Some (Ok (), sr', w', d'')"
      "sr_mode sr' = Leader l" "sr_epoch sr' = sr_epoch sr + 1" "leads_from counter (sr_epoch sr + 1) 1 (rp_service (fm_replica f)) l" by blast
  moreover have "promote (sim_env counter manual_now) (feed_net bs) 0 7 (\<lambda>_. Some (Grant (sr_epoch sr + 1) 2)) sr () d' =
      Some (Err (ElectionLost (sr_epoch sr + 1)), sr, (), d')"
    using e [of "\<lambda>_. Some (Grant (sr_epoch sr + 1) 2)"] by (simp add: won f(3))
  moreover from calculation(4) have "n_service (lm_node l) = rp_service (fm_replica f)" "n_seq (lm_node l) = 2" by (simp_all add: leads_from_def fence_frames_def)
  ultimately show ?thesis using f(1-3) by blast
qed

end
