(* ===== verification/Sim_Harness.thy ===== *)
theory Sim_Harness
  imports Node_Props
begin

text \<open>
  The simulation driver, \<open>ticktape-sim/src/lib.rs\<close>: a seeded run of a node over the simulated disk with
  crashes, syncs, ticks and inputs, the checklist after every recovery, and the loop over seeds that shrinks a
  failure. The outer option is \<open>None\<close> where the code does not return: the timer loop of the node, or an
  index out of range. The application's \<open>Invariants::check\<close> and the workload \<open>gen_input\<close> are
  parameters. A violation is a value of a datatype in place of its message.
\<close>

section \<open>Configuration, clock and results\<close>

definition sim_now :: "u64 \<Rightarrow> timestamp \<times> u64" where
  "sim_now nanos = (nanos, nanos)"

definition clock_advance :: "u64 \<Rightarrow> u64 \<Rightarrow> u64" where
  "clock_advance nanos clock = clock + nanos"

record sim_config =
  sc_seed :: u64
  sc_steps :: u32
  sc_crash_per_mille :: u32
  sc_sync_per_mille :: u32
  sc_tick_per_mille :: u32
  sc_segment_bytes :: u64
  sc_torn_tails :: bool
  sc_snapshot_every :: "u64 option"

definition sim_config_new :: "u64 \<Rightarrow> sim_config" where
  "sim_config_new seed = \<lparr>sc_seed = seed, sc_steps = 400, sc_crash_per_mille = 30, sc_sync_per_mille = 100,
     sc_tick_per_mille = 80, sc_segment_bytes = 512, sc_torn_tails = True, sc_snapshot_every = Some 20\<rparr>"

definition sim_node_config :: "sim_config \<Rightarrow> node_config" where
  "sim_node_config cfg =
     (let nc = node_config_new ''/sim/journal''
      in nc\<lparr>nc_journal := (nc_journal nc)\<lparr>jc_segment_bytes := unat (sc_segment_bytes cfg), jc_fsync := Never\<rparr>,
            nc_snapshot_every := sc_snapshot_every cfg\<rparr>)"

record sim_stats =
  stat_inputs :: u64
  stat_ticks :: u64
  stat_syncs :: u64
  stat_crashes :: u64

definition no_stats :: sim_stats where
  "no_stats = \<lparr>stat_inputs = 0, stat_ticks = 0, stat_syncs = 0, stat_crashes = 0\<rparr>"

datatype 'v violation =
    InitialOpenFailed node_error
  | SyncFailed node_error
  | TickFailed node_error
  | SubmitFailed node_error
  | RecoveryFailed node_error
  | DurabilityViolated nat nat
  | PhantomFrames nat nat
  | RereadFailed journal_error
  | TotalOrderBroken nat seq u64
  | BeyondTip u64 nat
  | FrameMismatch seq
  | NoAnchor nat u64 "seq option"
  | ShadowUndecodable seq codec_error
  | DeterminismViolated
  | AppInvariant 'v

record 'v sim_failure =
  fl_seed :: u64
  fl_step :: u32
  fl_violation :: "'v violation"

section \<open>The shadow of the journal\<close>

datatype expected = ExpInput bytes | ExpTick | ExpMark

definition push_marks :: "seq \<Rightarrow> seq \<Rightarrow> expected list \<Rightarrow> expected list" where
  "push_marks before after exps = exps @ replicate (unat (after - before) - 1) ExpMark"

fun frame_matches :: "expected \<Rightarrow> frame \<Rightarrow> bool" where
  "frame_matches (ExpInput bytes) f = (f_kind f = Input \<and> f_payload f = bytes)"
| "frame_matches ExpTick f = (f_kind f = Tick)"
| "frame_matches ExpMark f = (f_kind f = SnapshotMark)"

fun check_survivors ::
  "u64 \<Rightarrow> nat \<Rightarrow> expected list \<Rightarrow> nat \<Rightarrow> frame list \<Rightarrow> (unit, 'v violation) result option"
where
  "check_survivors first recovered exps i [] = Some (Ok ())"
| "check_survivors first recovered exps i (f # fs) =
     (let s = first + of_nat i in
      if f_seq f \<noteq> s then Some (Err (TotalOrderBroken i (f_seq f) s))
      else if s > of_nat recovered then Some (Err (BeyondTip s recovered))
      else if s = 0 \<or> length exps < unat s then None
      else if frame_matches (exps ! (unat s - 1)) f then check_survivors first recovered exps (Suc i) fs
      else Some (Err (FrameMismatch (f_seq f))))"

fun shadow_replay ::
  "('s, 'i, 'o, 'p, 'c) service \<Rightarrow> nat \<Rightarrow> expected list \<Rightarrow> timer_req list \<Rightarrow> 's \<Rightarrow> ('s, 'v violation) result"
where
  "shadow_replay SV i [] ops svc = Ok svc"
| "shadow_replay SV i (ExpInput bytes # exps) ops svc =
     (let s = of_nat i + 1 in
      case decode_all (sv_dec_input SV) bytes of
        Err e \<Rightarrow> Err (ShadowUndecodable s e)
      | Ok input \<Rightarrow>
          let (svc, c) = sv_apply SV s input svc ((ctx_new s 0)\<lparr>c_timers := ops\<rparr>)
          in shadow_replay SV (Suc i) exps (c_timers c) svc)"
| "shadow_replay SV i (_ # exps) ops svc = shadow_replay SV (Suc i) exps ops svc"

section \<open>Recovery and its checklist\<close>

definition journal_drop :: "nat \<Rightarrow> sim_file journal \<Rightarrow> sim_disk \<Rightarrow> sim_disk" where
  "journal_drop t j d = snd (snd (journal_sync sim_storage t j d))"

type_synonym ('s, 'o, 'c) sim_node = "('s, 'o, 'c, u64, sim_file) node"

definition recover_and_check ::
  "('s, 'i, 'o, 'p, 'c) service \<Rightarrow> ('s \<Rightarrow> (unit, 'v) result) \<Rightarrow> nat \<Rightarrow> sim_config \<Rightarrow> 'c \<Rightarrow> u32 \<Rightarrow> u64 \<Rightarrow>
     expected list \<Rightarrow> nat \<Rightarrow> ('s, 'o, 'c) sim_node \<Rightarrow> sim_disk \<Rightarrow>
     (('s, 'o, 'c) sim_node \<times> sim_disk \<times> expected list \<times> nat, 'v sim_failure) result option"
where
  "recover_and_check SV check t cfg scfg step clock exps synced old d =
     (let failed = (\<lambda>v. Some (Err \<lparr>fl_seed = sc_seed cfg, fl_step = step, fl_violation = v\<rparr>));
          ncfg = sim_node_config cfg
      in case node_open_with (sim_env SV sim_now) t ncfg scfg clock (journal_drop t (n_journal old) d) of
           (Err e, d) \<Rightarrow> failed (RecoveryFailed e)
         | (Ok n, d) \<Rightarrow>
             let recovered = unat (n_seq n) in
             if recovered < synced then failed (DurabilityViolated synced recovered)
             else if recovered > length exps then failed (PhantomFrames (length exps) recovered)
             else (case journal_open_with sim_storage t (nc_journal ncfg) d of
                     (Err e, d) \<Rightarrow> failed (RereadFailed e)
                   | (Ok re, d) \<Rightarrow>
                       (case check_survivors (re_first_seq re) recovered exps 0 (re_frames re) of
                          None \<Rightarrow> None
                        | Some (Err v) \<Rightarrow> failed v
                        | Some (Ok _) \<Rightarrow>
                            let journal_last = (if re_frames re = [] then saturating_pred (re_first_seq re) else f_seq (last (re_frames re)));
                                anchored = (case ri_snapshot_seq (n_recovery n) of Some s \<Rightarrow> s \<ge> journal_last | None \<Rightarrow> False)
                            in if of_nat recovered > journal_last \<and> \<not> anchored
                               then failed (NoAnchor recovered journal_last (ri_snapshot_seq (n_recovery n)))
                               else (case shadow_replay SV 0 (take recovered exps) [] (sv_genesis SV scfg) of
                                       Err v \<Rightarrow> failed v
                                     | Ok fresh \<Rightarrow>
                                         if encode_to_vec (sv_enc_snap SV) (sv_snapshot SV (n_service n)) \<noteq>
                                            encode_to_vec (sv_enc_snap SV) (sv_snapshot SV fresh)
                                         then failed DeterminismViolated
                                         else (case check (n_service n) of
                                                 Err v \<Rightarrow> failed (AppInvariant v)
                                               | Ok _ \<Rightarrow> Some (Ok (n, journal_drop t (re_journal re) d, take recovered exps, recovered)))))))"

section \<open>One run\<close>

record ('s, 'o, 'c) sim_state =
  sx_node :: "('s, 'o, 'c) sim_node"
  sx_disk :: sim_disk
  sx_clock :: u64
  sx_rng :: rng
  sx_expected :: "expected list"
  sx_synced :: nat
  sx_stats :: sim_stats

text \<open>The clock is one cell, shared with the node: advancing it is seen by the node's next reading.\<close>

definition sim_step ::
  "('s, 'i, 'o, 'p, 'c) service \<Rightarrow> ('s \<Rightarrow> (unit, 'v) result) \<Rightarrow> (rng \<Rightarrow> 'i \<times> rng) \<Rightarrow> nat \<Rightarrow> sim_config \<Rightarrow> 'c \<Rightarrow> u32 \<Rightarrow>
     ('s, 'o, 'c) sim_state \<Rightarrow> (('s, 'o, 'c) sim_state, 'v sim_failure) result option"
where
  "sim_step SV check gen_input t cfg scfg step st =
     (let failed = (\<lambda>v. Some (Err \<lparr>fl_seed = sc_seed cfg, fl_step = step, fl_violation = v\<rparr>));
          (nanos, r) = rng_below 1000000000 (sx_rng st);
          clock = clock_advance nanos (sx_clock st);
          (roll, r) = rng_below 1000 r;
          dice = (ucast roll :: u32);
          n = (sx_node st)\<lparr>n_clock := clock\<rparr>; d = sx_disk st; exps = sx_expected st; stats = sx_stats st
      in if dice < sc_crash_per_mille cfg then
           (let (d, r) = sim_crash (sc_torn_tails cfg) r d in
            case recover_and_check SV check t cfg scfg step clock exps (sx_synced st) n d of
              None \<Rightarrow> None
            | Some (Err f) \<Rightarrow> Some (Err f)
            | Some (Ok (n, d, exps, synced)) \<Rightarrow>
                Some (Ok \<lparr>sx_node = n, sx_disk = d, sx_clock = clock, sx_rng = r, sx_expected = exps, sx_synced = synced,
                          sx_stats = stats\<lparr>stat_crashes := stat_crashes stats + 1\<rparr>\<rparr>))
         else if dice < sc_crash_per_mille cfg + sc_sync_per_mille cfg then
           (case node_sync sim_storage t n d of
              (Err e, n, d) \<Rightarrow> failed (SyncFailed e)
            | (Ok _, n, d) \<Rightarrow>
                Some (Ok \<lparr>sx_node = n, sx_disk = d, sx_clock = clock, sx_rng = r, sx_expected = exps, sx_synced = length exps,
                          sx_stats = stats\<lparr>stat_syncs := stat_syncs stats + 1\<rparr>\<rparr>))
         else if dice < sc_crash_per_mille cfg + sc_sync_per_mille cfg + sc_tick_per_mille cfg then
           (case node_tick (sim_env SV sim_now) t n d of
              None \<Rightarrow> None
            | Some (Err e, n, d) \<Rightarrow> failed (TickFailed e)
            | Some (Ok _, n', d) \<Rightarrow>
                Some (Ok \<lparr>sx_node = n', sx_disk = d, sx_clock = clock, sx_rng = r,
                          sx_expected = push_marks (n_seq n) (n_seq n') (exps @ [ExpTick]), sx_synced = sx_synced st,
                          sx_stats = stats\<lparr>stat_ticks := stat_ticks stats + 1\<rparr>\<rparr>))
         else
           (let (input, r) = gen_input r in
            case submit (sim_env SV sim_now) t input n d of
              None \<Rightarrow> None
            | Some (Err e, n, d) \<Rightarrow> failed (SubmitFailed e)
            | Some (Ok _, n', d) \<Rightarrow>
                (case check (n_service n') of
                   Err v \<Rightarrow> failed (AppInvariant v)
                 | Ok _ \<Rightarrow>
                     Some (Ok \<lparr>sx_node = n', sx_disk = d, sx_clock = clock, sx_rng = r,
                               sx_expected = push_marks (n_seq n) (n_seq n') (exps @ [ExpInput (encode_to_vec (sv_enc_input SV) input)]),
                               sx_synced = sx_synced st, sx_stats = stats\<lparr>stat_inputs := stat_inputs stats + 1\<rparr>\<rparr>))))"

text \<open>The loop over the steps, with \<open>k\<close> steps to go.\<close>

fun sim_loop ::
  "('s, 'i, 'o, 'p, 'c) service \<Rightarrow> ('s \<Rightarrow> (unit, 'v) result) \<Rightarrow> (rng \<Rightarrow> 'i \<times> rng) \<Rightarrow> nat \<Rightarrow> sim_config \<Rightarrow> 'c \<Rightarrow>
     nat \<Rightarrow> u32 \<Rightarrow> ('s, 'o, 'c) sim_state \<Rightarrow> (('s, 'o, 'c) sim_state, 'v sim_failure) result option"
where
  "sim_loop SV check gen_input t cfg scfg 0 step st = Some (Ok st)"
| "sim_loop SV check gen_input t cfg scfg (Suc k) step st =
     (case sim_step SV check gen_input t cfg scfg step st of
        None \<Rightarrow> None
      | Some (Err f) \<Rightarrow> Some (Err f)
      | Some (Ok st) \<Rightarrow> sim_loop SV check gen_input t cfg scfg k (step + 1) st)"

definition final_crash ::
  "('s, 'i, 'o, 'p, 'c) service \<Rightarrow> ('s \<Rightarrow> (unit, 'v) result) \<Rightarrow> nat \<Rightarrow> sim_config \<Rightarrow> 'c \<Rightarrow>
     ('s, 'o, 'c) sim_state \<Rightarrow> (sim_stats, 'v sim_failure) result option"
where
  "final_crash SV check t cfg scfg st =
     (let (d, r) = sim_crash (sc_torn_tails cfg) (sx_rng st) (sx_disk st);
          stats = (sx_stats st)\<lparr>stat_crashes := stat_crashes (sx_stats st) + 1\<rparr>;
          last_step = (if sc_steps cfg = 0 then 0 else sc_steps cfg - 1)
      in case recover_and_check SV check t cfg scfg last_step (sx_clock st) (sx_expected st) (sx_synced st) (sx_node st) d of
           None \<Rightarrow> None
         | Some (Err f) \<Rightarrow> Some (Err f)
         | Some (Ok _) \<Rightarrow> Some (Ok stats))"

definition simulate ::
  "('s, 'i, 'o, 'p, 'c) service \<Rightarrow> ('s \<Rightarrow> (unit, 'v) result) \<Rightarrow> (rng \<Rightarrow> 'i \<times> rng) \<Rightarrow> nat \<Rightarrow> sim_config \<Rightarrow> 'c \<Rightarrow>
     (sim_stats, 'v sim_failure) result option"
where
  "simulate SV check gen_input t cfg scfg =
     (let clock = clock_advance 1000000000 0 in
      case node_open_with (sim_env SV sim_now) t (sim_node_config cfg) scfg clock sim_new of
        (Err e, d) \<Rightarrow> Some (Err \<lparr>fl_seed = sc_seed cfg, fl_step = 0, fl_violation = InitialOpenFailed e\<rparr>)
      | (Ok n, d) \<Rightarrow>
          (case sim_loop SV check gen_input t cfg scfg (unat (sc_steps cfg)) 0
                  \<lparr>sx_node = n, sx_disk = d, sx_clock = clock, sx_rng = rng_new (sc_seed cfg), sx_expected = [],
                   sx_synced = 0, sx_stats = no_stats\<rparr> of
             None \<Rightarrow> None
           | Some (Err f) \<Rightarrow> Some (Err f)
           | Some (Ok st) \<Rightarrow> final_crash SV check t cfg scfg st))"

section \<open>The loop over seeds\<close>

record 'v shrunk_failure =
  sh_failure :: "'v sim_failure"
  sh_min_steps :: u32

definition add_stats :: "sim_stats \<Rightarrow> sim_stats \<Rightarrow> sim_stats" where
  "add_stats totals stats =
     \<lparr>stat_inputs = stat_inputs totals + stat_inputs stats, stat_ticks = stat_ticks totals + stat_ticks stats,
      stat_syncs = stat_syncs totals + stat_syncs stats, stat_crashes = stat_crashes totals + stat_crashes stats\<rparr>"

fun vopr_from ::
  "('s, 'i, 'o, 'p, 'c) service \<Rightarrow> ('s \<Rightarrow> (unit, 'v) result) \<Rightarrow> (rng \<Rightarrow> 'i \<times> rng) \<Rightarrow> nat \<Rightarrow> sim_config \<Rightarrow> 'c \<Rightarrow>
     u64 list \<Rightarrow> sim_stats \<Rightarrow> (sim_stats, 'v shrunk_failure) result option"
where
  "vopr_from SV check gen_input t base scfg [] totals = Some (Ok totals)"
| "vopr_from SV check gen_input t base scfg (seed # seeds) totals =
     (let cfg = base\<lparr>sc_seed := seed\<rparr> in
      case simulate SV check gen_input t cfg scfg of
        None \<Rightarrow> None
      | Some (Ok stats) \<Rightarrow> vopr_from SV check gen_input t base scfg seeds (add_stats totals stats)
      | Some (Err f) \<Rightarrow>
          let min_steps = fl_step f + 1 in
          (case simulate SV check gen_input t (cfg\<lparr>sc_steps := min_steps\<rparr>) scfg of
             None \<Rightarrow> None
           | Some again \<Rightarrow>
               let confirmed = (case again of Err g \<Rightarrow> fl_violation g = fl_violation f | Ok _ \<Rightarrow> False)
               in Some (Err \<lparr>sh_failure = f, sh_min_steps = (if confirmed then min_steps else sc_steps cfg)\<rparr>)))"

definition vopr ::
  "('s, 'i, 'o, 'p, 'c) service \<Rightarrow> ('s \<Rightarrow> (unit, 'v) result) \<Rightarrow> (rng \<Rightarrow> 'i \<times> rng) \<Rightarrow> nat \<Rightarrow> sim_config \<Rightarrow> 'c \<Rightarrow>
     u64 list \<Rightarrow> (sim_stats, 'v shrunk_failure) result option"
where
  "vopr SV check gen_input t base scfg seeds = vopr_from SV check gen_input t base scfg seeds no_stats"

end
