(* ===== verification/Sim_Props.thy ===== *)
theory Sim_Props
  imports Sim_Harness Node_Limits
begin

text \<open>
  What the simulation driver reports. For a service that keeps the laws, arms no timers and does not look at
  the clock, every run passes: no seed, no configuration and no length of the run makes the driver report a violation. For any
  service, the shrunk schedule that \<open>vopr\<close> reports reproduces the failure.
\<close>

section \<open>Reopening a journal that is not torn\<close>

lemma scan_segment_clean:
  "scan_segment S a b p sc d = (Ok sc', d') \<Longrightarrow> \<not> sc_truncated sc' \<Longrightarrow> d' = d \<and> \<not> sc_truncated sc"
  by (auto simp: scan_segment_def Let_def split: result.splits prod.splits if_splits option.splits)

lemma scan_segments_clean:
  "scan_segments S a ps sc d = (Ok sc', d') \<Longrightarrow> \<not> sc_truncated sc' \<Longrightarrow> d' = d \<and> \<not> sc_truncated sc"
proof (induction ps arbitrary: a sc d)
  case (Cons p ps)
  then obtain sc1 d1 where s: "scan_segment S a (ps = []) p sc d = (Ok sc1, d1)" "scan_segments S False ps sc1 d1 = (Ok sc', d')"
    by (auto simp: sbind_Ok_iff)
  from Cons.IH [OF s(2) Cons.prems(2)] scan_segment_clean [OF s(1)] show ?case by simp
qed simp

lemma open_clean:
  assumes "journal_open_with sim_storage t cfg d = (Ok rec, d')"
  shows "\<not> j_dirty (re_journal rec)" and "\<not> re_truncated_torn_tail rec \<Longrightarrow> d' = d"
proof -
  have cd: "st_create_dir_all sim_storage (jc_dir cfg) d = (Ok (), d)" by (simp add: sim_storage_def sim_create_dir_all_def)
  from assms obtain j meta fs where o: "open_inner sim_storage t cfg d = (Ok (j, meta, fs), d')" and
    rec: "re_journal rec = j" "re_truncated_torn_tail rec = rm_truncated_torn_tail meta"
    by (auto simp: journal_open_with_def sbind_Ok_iff)
  from o cd obtain ps where ps: "list_segments sim_storage (jc_dir cfg) d = Ok ps"
    by (cases "list_segments sim_storage (jc_dir cfg) d") (auto simp: open_inner_def)
  obtain sc d1 where sc: "scan_segments sim_storage True (sort ps) scan_init d = (Ok sc, d1)"
    using o cd ps by (auto simp: open_inner_def sbind_Ok_iff Let_def)
  obtain cur where cur: "open_tail sim_storage (sort ps) (length (sc_frames sc)) d1 = Ok cur"
    using o cd ps sc by (cases "open_tail sim_storage (sort ps) (length (sc_frames sc)) d1") (auto simp: open_inner_def Let_def)
  have "\<not> j_dirty j" "rm_truncated_torn_tail meta = sc_truncated sc" "d' = d1"
    using o cd ps sc cur by (auto simp: open_inner_def Let_def)
  then show "\<not> j_dirty (re_journal rec)" and "\<not> re_truncated_torn_tail rec \<Longrightarrow> d' = d"
    using rec scan_segments_clean [OF sc] by simp_all
qed

lemma drop_clean: "\<not> j_dirty j \<Longrightarrow> journal_drop t j d = d"
  by (simp add: journal_drop_def journal_sync_def split: option.split)

context storage_laws
begin

lemma open_untorn:
  assumes "jrepr hist dur j d" and "journal_open_with S now (j_config j) d = (Ok rec, d')"
  shows "\<not> re_truncated_torn_tail rec"
  using assms(1)
proof (cases rule: jrepr_cases)
  case 1
  then have "ok d" "seg_files (jc_dir (j_config j)) d = {}" by (simp_all add: jempty_def)
  from open_inner_empty [OF this, of now] assms(2) show ?thesis by (auto simp: journal_open_with_def)
next
  case (2 s gs act k)
  then have "on_disk (jc_dir (j_config j)) gs act k [] d" "wf_layout s (gs @ [act])" "torn []"
    by (simp_all add: jinv_def torn_def)
  from open_inner_on_disk [OF this, of now] assms(2) show ?thesis by (auto simp: journal_open_with_def)
qed

end

section \<open>The shadow and the history\<close>

definition stats_total :: "sim_stats \<Rightarrow> u64" where
  "stats_total s = stat_inputs s + stat_ticks s + stat_syncs s + stat_crashes s"

text \<open>A service that the driver is meant for, a check that its states satisfy, and a workload that fits the segments.\<close>

locale simulatable = simulated SV scfg vi vs sz
  for SV :: "('s, 'i, 'o, 'p, 'c) service" and scfg vi vs sz +
  fixes check :: "'s \<Rightarrow> (unit, 'v) result" and gen_input :: "rng \<Rightarrow> 'i \<times> rng" and room :: nat
  assumes no_timers: "c_timers (snd (sv_apply SV q i s c)) = c_timers c"
    and no_clock: "fst (sv_apply SV q i s c) = fst (sv_apply SV q i s c')"
    and small_state: "vs s \<Longrightarrow> sz s \<and> length (snap_payload (s, wheel_new)) < 2 ^ 32"
    and check_ok: "vs s \<Longrightarrow> check s = Ok ()"
    and gen_valid: "vi (fst (gen_input r))"
    and gen_fits: "length (encode_to_vec (sv_enc_input SV) (fst (gen_input r))) \<le> unat MAX_PAYLOAD_LEN"
      "28 + (FRAME_HEADER_LEN + length (encode_to_vec (sv_enc_input SV) (fst (gen_input r))) + 4) \<le> room"
    and mark_fits: "28 + (FRAME_HEADER_LEN + 8 + 4) \<le> room"
begin

abbreviation shadows :: "expected list \<Rightarrow> frame list \<Rightarrow> bool" where
  "shadows \<equiv> list_all2 frame_matches"

lemma shadow_replay_frames:
  assumes "shadows exps fs" and "contiguous_from (of_nat i + 1) fs" and "replay_frames SV fs (svc, wheel_new) = Ok (svc', w)"
  shows "w = wheel_new \<and> shadow_replay SV i exps ops svc = (Ok svc' :: ('s, 'v violation) result)"
  using assms
proof (induction exps fs arbitrary: i ops svc rule: list_all2_induct)
  case (Cons e exps f fs)
  have next_i: "contiguous_from (of_nat (Suc i) + 1) fs" "f_seq f = of_nat i + 1" using Cons.prems(1) by (simp_all add: add.commute)
  show ?case
  proof (cases e)
    case (ExpInput bytes)
    with Cons.hyps(1) Cons.prems(2) obtain input where
      d: "decode_all (sv_dec_input SV) bytes = Ok input" and k: "f_kind f = Input" "f_payload f = bytes"
      by (auto simp: replay_frame_def split: result.splits)
    let ?r = "\<lambda>c. sv_apply SV (f_seq f) input svc c"
    obtain svc1 c1 where r1: "?r (ctx_new (f_seq f) (f_timestamp f)) = (svc1, c1)" by fastforce
    obtain svc2 c2 where r2: "?r ((ctx_new (f_seq f) 0)\<lparr>c_timers := ops\<rparr>) = (svc2, c2)" by fastforce
    have "svc2 = svc1" using no_clock [of "f_seq f" input svc] r1 r2 by (metis fst_conv)
    moreover have "c_timers c1 = []" using no_timers [of "f_seq f" input svc "ctx_new (f_seq f) (f_timestamp f)"] r1
      by (simp add: ctx_new_def)
    ultimately have "replay_frames SV fs (svc2, wheel_new) = Ok (svc', w)"
      using Cons.prems(2) d k r1 by (simp add: replay_frame_def replay_step_def fold_timers_def)
    from Cons.IH [OF next_i(1) this] show ?thesis using ExpInput d r2 next_i(2) by simp
  next
    case ExpTick
    with Cons.IH [OF next_i(1), of svc] Cons.prems(2) Cons.hyps(1) show ?thesis by (simp add: replay_frame_def)
  next
    case ExpMark
    with Cons.IH [OF next_i(1), of svc] Cons.prems(2) Cons.hyps(1) show ?thesis by (simp add: replay_frame_def)
  qed
qed simp

lemma shadow_sizes:
  assumes "shadows exps hist" and "contiguous_from 1 hist"
  shows "sizes_ok hist"
  unfolding sizes_ok_def
proof (intro allI impI)
  fix m sw assume r: "replay (take m hist) = Ok sw"
  obtain svc w where sw: "sw = (svc, w)" by force
  have "w = wheel_new" using shadow_replay_frames [of "take m exps" "take m hist" 0 "sv_genesis SV scfg" svc w "[]"] assms r sw
    by (simp add: list_all2_takeI contiguous_take)
  moreover have "vs svc" using replay_ok [OF r] sw by simp
  ultimately show "sz (fst sw) \<and> wheel_len (snd sw) < 2 ^ 32 \<and> length (snap_payload sw) < 2 ^ 32"
    using small_state [of svc] sw by (simp add: wheel_len_def wheel_new_def)
qed

definition survivor_ok :: "u64 \<Rightarrow> nat \<Rightarrow> expected list \<Rightarrow> nat \<Rightarrow> frame \<Rightarrow> bool" where
  "survivor_ok first m exps i f \<longleftrightarrow> f_seq f = first + of_nat i \<and> f_seq f \<noteq> 0 \<and> f_seq f \<le> of_nat m \<and>
     unat (f_seq f) \<le> length exps \<and> frame_matches (exps ! (unat (f_seq f) - 1)) f"

lemma check_survivors_ok:
  assumes "\<And>j. j < length fs \<Longrightarrow> survivor_ok first m exps (i + j) (fs ! j)"
  shows "check_survivors first m exps i fs = (Some (Ok ()) :: (unit, 'v violation) result option)"
  using assms
proof (induction fs arbitrary: i)
  case (Cons f fs)
  have "check_survivors first m exps (Suc i) fs = (Some (Ok ()) :: (unit, 'v violation) result option)"
  proof (rule Cons.IH)
    fix j assume "j < length fs"
    with Cons.prems [of "Suc j"] show "survivor_ok first m exps (Suc i + j) (fs ! j)" by simp
  qed
  moreover have "survivor_ok first m exps i f" using Cons.prems [of 0] by simp
  then have "first + of_nat i = f_seq f" "f_seq f \<noteq> 0" "\<not> of_nat m < f_seq f" "\<not> length exps < unat (f_seq f)"
      "frame_matches (exps ! (unat (f_seq f) - 1)) f"
    unfolding survivor_ok_def by (metis not_le)+
  ultimately show ?case by (simp add: Let_def)
qed simp

text \<open>The journal of a node that just recovered, against the shadow from before the crash.\<close>

lemma survivors_match:
  assumes j: "journaled jcfg (take m hist) dur n d" and exps: "shadows exps hist" and m: "m \<le> length hist"
    and op: "journal_open_with sim_storage t jcfg d = (Ok rec, d')"
  shows "check_survivors (re_first_seq rec) m exps 0 (re_frames rec) = (Some (Ok ()) :: (unit, 'v violation) result option)"
    and "(if re_frames rec = [] then saturating_pred (re_first_seq rec) else f_seq (last (re_frames rec))) = of_nat m"
    and "d' = d" and "\<not> j_dirty (re_journal rec)"
proof -
  have cont: "contiguous_from 1 (take m hist)" and small: "m + 1 < 2 ^ 64" and cfg: "j_config (n_journal n) = jcfg"
    using j m by (simp_all add: journaled_def)
  from backed_open [OF j, of t] op m obtain k where k: "k \<le> m" "re_frames rec = drop k (take m hist)" "re_first_seq rec = 1 + of_nat k"
      "jrepr (drop k (take m hist)) (dur - k) (n_journal n) d" by auto
  have seq: "f_seq (hist ! i) = 1 + of_nat i" "unat (1 + of_nat i :: u64) = i + 1" if "i < m" for i
    using contiguous_nth [OF cont, of i] that m small unat_plus_of_nat [of 1 i] by simp_all
  have len: "length exps = length hist" using exps by (rule list_all2_lengthD)
  have mm: "unat (of_nat m :: u64) = m" using small by (intro unat_of_nat_hist) simp
  show "check_survivors (re_first_seq rec) m exps 0 (re_frames rec) = (Some (Ok ()) :: (unit, 'v violation) result option)"
  proof (rule check_survivors_ok)
    fix i assume "i < length (re_frames rec)"
    then have i: "k + i < m" using k(1,2) m by simp
    have f: "re_frames rec ! i = hist ! (k + i)" using i k(2) m by simp
    have "frame_matches (exps ! (k + i)) (hist ! (k + i))" using exps i m len by (simp add: list_all2_nthD)
    moreover have "f_seq (hist ! (k + i)) \<noteq> 0" using seq [OF i] by (metis add_is_0 unat_0 zero_neq_one)
    moreover have "f_seq (hist ! (k + i)) \<le> of_nat m" using seq [OF i] i mm by (simp add: word_le_nat_alt del: of_nat_add)
    moreover have "f_seq (hist ! (k + i)) = re_first_seq rec + of_nat i" using seq(1) [OF i] by (simp add: k(3))
    ultimately show "survivor_ok (re_first_seq rec) m exps (0 + i) (re_frames rec ! i)"
      using seq [OF i] i m len unfolding survivor_ok_def f by (simp del: of_nat_add)
  qed
  show "(if re_frames rec = [] then saturating_pred (re_first_seq rec) else f_seq (last (re_frames rec))) = of_nat m"
  proof (cases "k = m")
    case True
    have "(1 + of_nat m :: u64) \<noteq> 0" using small unat_plus_of_nat [of 1 m] by (metis add_is_0 one_neq_zero unat_0 unat_1 add.commute)
    with True show ?thesis using k(2,3) m by (simp add: saturating_pred_def)
  next
    case False
    then have "k < m" "re_frames rec \<noteq> []" using k(1,2) m by auto
    moreover from this have "last (re_frames rec) = hist ! (m - 1)" using k(2) m by (simp add: last_conv_nth)
    ultimately show ?thesis using seq(1) [of "m - 1"] by (simp add: of_nat_diff)
  qed
  show "d' = d" by (rule open_clean(2) [OF op]) (use open_untorn [OF k(4), of t rec d'] op cfg in simp)
  show "\<not> j_dirty (re_journal rec)" by (rule open_clean(1) [OF op])
qed

lemma drop_fenced:
  assumes "journaled jcfg hist dur n d"
  shows "journal_drop t (n_journal n) (fst (sim_crash flip r d)) = fst (sim_crash flip r d)"
proof -
  obtain k where "jrepr (drop k hist) (dur - k) (n_journal n) d" using assms by (auto simp: journaled_def backed_def)
  then have "j_current (n_journal n) = Some seg \<Longrightarrow> sf_epoch (os_file seg) = d_epoch d" for seg
    by (auto simp: jrepr_def jempty_def jinv_def at_tail_def sim_live_def split: if_splits)
  moreover have "d_epoch (fst (sim_crash flip r d)) = d_epoch d + 1" by (simp add: sim_crash_def split_beta)
  ultimately show ?thesis
    by (auto simp: journal_drop_def journal_sync_def jio_def sim_storage_def sim_sync_data_def with_data_def split: option.split)
qed

lemma recover_result:
  fixes n :: "('s, 'o, 'c) sim_node"
  assumes live: "Live (nc_journal (sim_node_config cfg)) hist dur n d" and small: "length hist + 1 < 2 ^ 64"
    and exps: "shadows exps hist" and synced: "synced \<le> dur"
  shows "\<exists>n' d' m. (\<forall>check'. recover_and_check SV check' t cfg scfg step clock exps synced n (fst (sim_crash flip r d)) =
        (case check' (n_service n') of Ok _ \<Rightarrow> Some (Ok (n', d', take m exps, m))
         | Err v \<Rightarrow> Some (Err \<lparr>fl_seed = sc_seed cfg, fl_step = step, fl_violation = AppInvariant (v :: 'v)\<rparr>))) \<and>
      Live (nc_journal (sim_node_config cfg)) (take m hist) m n' d' \<and> m \<le> length hist \<and> n_timers n' = wheel_new \<and> vs (n_service n')"
proof -
  let ?nc = "sim_node_config cfg"
  have j: "journaled (nc_journal ?nc) hist dur n d" "\<exists>sw. replay hist = Ok sw"
    using live small by (simp_all add: Live_def applied_def)
  then have cont: "contiguous_from 1 hist" by (simp add: journaled_def)
  from node_recovery [OF j(1) shadow_sizes [OF exps cont] j(2) sim_power_loss_crash refl, of sim_now t clock flip r]
  obtain n' :: "('s, 'o, 'c) sim_node" and d' m where
    o: "node_open_with (env_of sim_now) t ?nc scfg clock (fst (sim_crash flip r d)) = (Ok n', d')"
    and m: "dur \<le> m" "m \<le> length hist" and live': "Live (nc_journal ?nc) (take m hist) m n' d'" by blast
  have j': "journaled (nc_journal ?nc) (take m hist) m n' d'" and ap: "replay (take m hist) = Ok (n_service n', n_timers n')"
    using live' small m(2) by (simp_all add: Live_def applied_def)
  have seq: "unat (n_seq n') = m" "n_seq n' = of_nat m" using j' m small unat_of_nat_hist [of m] by (simp_all add: journaled_def)
  from backed_open [OF j', of t] obtain rec d1 where
    op: "journal_open_with sim_storage t (nc_journal ?nc) d' = (Ok rec, d1)" by blast
  note sv = survivors_match [OF j' exps m(2) op]
  have "shadows (take m exps) (take m hist)" using exps by (rule list_all2_takeI)
  from shadow_replay_frames [OF this _ ap, of 0 "[]"] contiguous_take [OF cont]
  have sh: "n_timers n' = wheel_new" "shadow_replay SV 0 (take m exps) [] (sv_genesis SV scfg) = (Ok (n_service n') :: ('s, 'v violation) result)" by simp_all
  have "recover_and_check SV check' t cfg scfg step clock exps synced n (fst (sim_crash flip r d)) =
      (case check' (n_service n') of Ok _ \<Rightarrow> Some (Ok (n', d', take m exps, m))
       | Err v \<Rightarrow> Some (Err \<lparr>fl_seed = sc_seed cfg, fl_step = step, fl_violation = AppInvariant (v :: 'v)\<rparr>))" for check'
    using o op sv sh(2) seq synced m list_all2_lengthD [OF exps] drop_fenced [OF j(1), of t flip r] drop_clean [OF sv(4)]
    by (simp add: recover_and_check_def Let_def split: result.split)
  moreover have "vs (n_service n')" using replay_ok [OF ap] by simp
  ultimately show ?thesis using live' m(2) sh(1) by blast
qed

lemma recover_passes:
  fixes n :: "('s, 'o, 'c) sim_node"
  assumes "Live (nc_journal (sim_node_config cfg)) hist dur n d" and "length hist + 1 < 2 ^ 64"
    and "shadows exps hist" and "synced \<le> dur"
  shows "\<exists>n' d' m. recover_and_check SV check t cfg scfg step clock exps synced n (fst (sim_crash flip r d)) =
      Some (Ok (n', d', take m exps, m)) \<and> Live (nc_journal (sim_node_config cfg)) (take m hist) m n' d' \<and>
      m \<le> length hist \<and> n_timers n' = wheel_new"
proof -
  from recover_result [OF assms, of t step clock flip r] obtain n' d' m where
    r: "\<forall>check'. recover_and_check SV check' t cfg scfg step clock exps synced n (fst (sim_crash flip r d)) =
        (case check' (n_service n') of Ok _ \<Rightarrow> Some (Ok (n', d', take m exps, m))
         | Err v \<Rightarrow> Some (Err \<lparr>fl_seed = sc_seed cfg, fl_step = step, fl_violation = AppInvariant (v :: 'v)\<rparr>))"
      "Live (nc_journal (sim_node_config cfg)) (take m hist) m n' d'" "m \<le> length hist" "n_timers n' = wheel_new" "vs (n_service n')"
    by (elim exE conjE)
  from r(1) [rule_format, of check] check_ok [OF r(5)] r(2-4) show ?thesis by (intro exI conjI) simp_all
qed

section \<open>A step, and a run\<close>

definition on_track :: "sim_config \<Rightarrow> nat \<Rightarrow> ('s, 'o, 'c) sim_state \<Rightarrow> bool" where
  "on_track cfg k st \<longleftrightarrow> (\<exists>hist dur. Live (nc_journal (sim_node_config cfg)) hist dur (sx_node st) (sx_disk st) \<and>
     shadows (sx_expected st) hist \<and> sx_synced st \<le> dur \<and> n_timers (sx_node st) = wheel_new \<and> length hist + 2 * k + 3 < 2 ^ 64)"

lemma on_trackI:
  "Live (nc_journal (sim_node_config cfg)) hist dur (sx_node st) (sx_disk st) \<Longrightarrow> shadows (sx_expected st) hist \<Longrightarrow>
     sx_synced st \<le> dur \<Longrightarrow> n_timers (sx_node st) = wheel_new \<Longrightarrow> length hist + 2 * k + 3 < 2 ^ 64 \<Longrightarrow> on_track cfg k st"
  unfolding on_track_def by blast

lemma Live_clock: "Live jcfg hist dur (n\<lparr>n_clock := k\<rparr>) d = Live jcfg hist dur n d"
  using journaled_cong(1) [of "n\<lparr>n_clock := k\<rparr>" n] by (simp add: Live_def applied_def)

lemma push_marks_shadows:
  assumes "Live jcfg hist dur n d" and "Live jcfg (hist @ f # fs) dur n' d'" and "length (hist @ f # fs) + 1 < 2 ^ 64"
    and "shadows exps hist" and "frame_matches e f" and "marks fs"
  shows "shadows (push_marks (n_seq n) (n_seq n') (exps @ [e])) (hist @ f # fs)"
proof -
  have "n_seq n' - n_seq n = of_nat (Suc (length fs))" using assms(1-3) by (simp add: Live_def journaled_def)
  moreover have "unat (of_nat (Suc (length fs)) :: u64) = Suc (length fs)"
    using assms(3) by (intro unat_of_nat_hist) simp
  ultimately have "push_marks (n_seq n) (n_seq n') (exps @ [e]) = exps @ e # replicate (length fs) ExpMark"
    by (simp add: push_marks_def del: of_nat_Suc)
  moreover have "shadows (replicate (length fs) ExpMark) fs"
    using assms(6) by (simp add: list_all2_conv_all_nth marks_def)
  ultimately show ?thesis using assms(4,5) by (simp add: list_all2_appendI)
qed

lemma sim_step_passes:
  assumes ok: "on_track cfg (Suc k) st" and room: "room \<le> unat (sc_segment_bytes cfg)"
  shows "\<exists>st'. sim_step SV check gen_input t cfg scfg step st = Some (Ok st') \<and> on_track cfg k st' \<and>
    stats_total (sx_stats st') = stats_total (sx_stats st) + 1"
proof -
  let ?jc = "nc_journal (sim_node_config cfg)"
  from ok obtain hist dur where live0: "Live ?jc hist dur (sx_node st) (sx_disk st)" and sh: "shadows (sx_expected st) hist"
    and syn: "sx_synced st \<le> dur" and wh: "n_timers (sx_node st) = wheel_new" and small: "length hist + 2 * Suc k + 3 < 2 ^ 64"
    unfolding on_track_def by blast
  obtain nanos r1 where r1: "rng_below 1000000000 (sx_rng st) = (nanos, r1)" by fastforce
  obtain roll r2 where r2: "rng_below 1000 r1 = (roll, r2)" by fastforce
  define clock where "clock = clock_advance nanos (sx_clock st)"
  define n where "n = (sx_node st)\<lparr>n_clock := clock\<rparr>"
  define dice where "dice = (ucast roll :: u32)"
  have live: "Live ?jc hist dur n (sx_disk st)" and whn: "n_timers n = wheel_new" using live0 wh by (simp_all add: n_def Live_clock)
  have seg: "jc_segment_bytes ?jc = unat (sc_segment_bytes cfg)" by (simp add: sim_node_config_def Let_def)
  note start = sim_step_def r1 r2 Let_def clock_def [symmetric] n_def [symmetric] dice_def [symmetric] split_beta
  consider (crash) "dice < sc_crash_per_mille cfg"
    | (sync) "\<not> dice < sc_crash_per_mille cfg" "dice < sc_crash_per_mille cfg + sc_sync_per_mille cfg"
    | (tick) "\<not> dice < sc_crash_per_mille cfg" "\<not> dice < sc_crash_per_mille cfg + sc_sync_per_mille cfg"
        "dice < sc_crash_per_mille cfg + sc_sync_per_mille cfg + sc_tick_per_mille cfg"
    | (input) "\<not> dice < sc_crash_per_mille cfg" "\<not> dice < sc_crash_per_mille cfg + sc_sync_per_mille cfg"
        "\<not> dice < sc_crash_per_mille cfg + sc_sync_per_mille cfg + sc_tick_per_mille cfg" by blast
  then show ?thesis
  proof cases
    case crash
    from recover_passes [OF live _ sh syn, of t step clock "sc_torn_tails cfg" r2] small obtain n' d' m where
      r: "recover_and_check SV check t cfg scfg step clock (sx_expected st) (sx_synced st) n (fst (sim_crash (sc_torn_tails cfg) r2 (sx_disk st))) =
        Some (Ok (n', d', take m (sx_expected st), m))" "Live ?jc (take m hist) m n' d'" "m \<le> length hist" "n_timers n' = wheel_new" by auto
    then have "shadows (take m (sx_expected st)) (take m hist) \<and> m \<le> m \<and> length (take m hist) + 2 * k + 3 < 2 ^ 64"
      using sh small by (simp add: list_all2_takeI)
    with r show ?thesis using crash by (auto simp: start stats_total_def intro!: on_trackI [of cfg "take m hist" m])
  next
    case sync
    have "journaled ?jc hist dur n (sx_disk st)" using live small by (simp add: Live_def)
    then obtain k' where "jrepr (drop k' hist) (dur - k') (n_journal n) (sx_disk st)" by (auto simp: journaled_def backed_def)
    from sync_jrepr [OF this, of t] obtain n' d' where s: "node_sync sim_storage t n (sx_disk st) = (Ok (), n', d')" "n_timers n' = wheel_new"
      using whn by (auto simp: node_sync_def)
    from node_sync_live [OF live s(1)] have "Live ?jc hist (length hist) n' d'" by simp
    with s sync sh small list_all2_lengthD [OF sh] show ?thesis
      by (auto simp: start stats_total_def intro!: on_trackI [of cfg hist "length hist"])
  next
    case tick
    from tick_quiet [OF live _ whn, of sim_now t] small mark_fits room seg obtain n' d' f fs where
      s: "node_tick (env_of sim_now) t n (sx_disk st) = Some (Ok (seq_next (n_seq n)), n', d')" "Live ?jc (hist @ f # fs) dur n' d'"
        "f_kind f = Tick" "marks fs" "n_timers n' = wheel_new" by auto
    have small': "length (hist @ f # fs) + 2 * k + 3 < 2 ^ 64" using small s(4) by (simp add: marks_def)
    have "shadows (push_marks (n_seq n) (n_seq n') (sx_expected st @ [ExpTick])) (hist @ f # fs)"
      by (rule push_marks_shadows [OF live s(2) _ sh _ s(4)]) (use small' s(3) in simp_all)
    with s tick syn small' show ?thesis
      by (auto simp: start stats_total_def intro!: on_trackI [of cfg "hist @ f # fs" dur])
  next
    case input
    let ?i = "fst (gen_input r2)"
    have "quiet ?i (n_service n)" by (simp add: quiet_def no_timers)
    from submit_quiet [OF live _ gen_valid this whn gen_fits(1), of sim_now t] small gen_fits(2) [of r2] mark_fits room seg obtain rel n' d' f fs where
      s: "submit (env_of sim_now) t ?i n (sx_disk st) = Some (Ok (seq_next (n_seq n), rel), n', d')" "Live ?jc (hist @ f # fs) dur n' d'"
        "f_kind f = Input" "f_payload f = encode_to_vec (sv_enc_input SV) ?i" "marks fs" "n_timers n' = wheel_new" by auto
    have small': "length (hist @ f # fs) + 2 * k + 3 < 2 ^ 64" using small s(5) by (simp add: marks_def)
    then have "replay (hist @ f # fs) = Ok (n_service n', n_timers n')" using s(2) by (simp add: Live_def applied_def)
    then have "check (n_service n') = Ok ()" using replay_ok check_ok by (metis fst_conv)
    moreover have "shadows (push_marks (n_seq n) (n_seq n') (sx_expected st @ [ExpInput (encode_to_vec (sv_enc_input SV) ?i)])) (hist @ f # fs)"
      by (rule push_marks_shadows [OF live s(2) _ sh _ s(5)]) (use small' s(3,4) in simp_all)
    ultimately show ?thesis using s input syn small'
      by (auto simp: start stats_total_def intro!: on_trackI [of cfg "hist @ f # fs" dur])
  qed
qed

lemma sim_loop_passes:
  assumes "on_track cfg k st" and room: "room \<le> unat (sc_segment_bytes cfg)"
  shows "\<exists>st'. sim_loop SV check gen_input t cfg scfg k step st = Some (Ok st') \<and> on_track cfg 0 st' \<and>
    stats_total (sx_stats st') = stats_total (sx_stats st) + of_nat k"
  using assms(1)
proof (induction k arbitrary: step st)
  case (Suc k)
  from sim_step_passes [OF Suc.prems room, of t step] obtain st1 where
    st1: "sim_step SV check gen_input t cfg scfg step st = Some (Ok st1)" "on_track cfg k st1"
      "stats_total (sx_stats st1) = stats_total (sx_stats st) + 1" by blast
  from Suc.IH [OF st1(2), of "step + 1"] st1(1,3) show ?case by auto
qed simp

lemma simulate_passes:
  assumes room: "room \<le> unat (sc_segment_bytes cfg)"
  shows "\<exists>stats. simulate SV check gen_input t cfg scfg = Some (Ok stats) \<and> stats_total stats = ucast (sc_steps cfg) + 1"
proof -
  let ?nc = "sim_node_config cfg" and ?k = "unat (sc_steps cfg)"
  from open_fresh [of sim_now t ?nc "clock_advance 1000000000 0"] obtain n :: "('s, 'o, 'c) sim_node" and d where
    n: "node_open_with (env_of sim_now) t ?nc scfg (clock_advance 1000000000 0) sim_new = (Ok n, d)"
      "Live (nc_journal ?nc) [] 0 n d" "n_timers n = wheel_new" by blast
  define st where "st = \<lparr>sx_node = n, sx_disk = d, sx_clock = clock_advance 1000000000 0, sx_rng = rng_new (sc_seed cfg),
    sx_expected = [], sx_synced = 0, sx_stats = no_stats\<rparr>"
  have "?k < 2 ^ 32" using unsigned_less [of "sc_steps cfg", where 'a = nat] by simp
  then have "on_track cfg ?k st" using n(2,3) by (intro on_trackI [of cfg "[]" 0]) (simp_all add: st_def)
  from sim_loop_passes [OF this room, of t 0] obtain st' where
    l: "sim_loop SV check gen_input t cfg scfg ?k 0 st = Some (Ok st')" "on_track cfg 0 st'"
      "stats_total (sx_stats st') = of_nat ?k" by (auto simp: st_def stats_total_def no_stats_def)
  from l(2) obtain hist dur where h: "Live (nc_journal ?nc) hist dur (sx_node st') (sx_disk st')" "length hist + 1 < 2 ^ 64"
      "shadows (sx_expected st') hist" "sx_synced st' \<le> dur" by (auto simp: on_track_def)
  from recover_passes [OF h, of t "if sc_steps cfg = 0 then 0 else sc_steps cfg - 1" "sx_clock st'" "sc_torn_tails cfg" "sx_rng st'"]
  have "\<exists>stats. final_crash SV check t cfg scfg st' = Some (Ok stats) \<and> stats_total stats = stats_total (sx_stats st') + 1"
    by (auto simp: final_crash_def Let_def split_beta stats_total_def)
  then show ?thesis using n(1) l(1,3) by (simp add: simulate_def st_def unsigned_of_nat)
qed

end

section \<open>The demonstration bank\<close>

definition bank_invariant :: "bank \<Rightarrow> (unit, unit) result" where
  "bank_invariant b = (if bank_check b then Ok () else Err ())"

interpretation bank_sim: simulatable bank_service "()" "\<lambda>_. True" bank_ok "\<lambda>_. True" bank_invariant gen_transfer 512
proof
  show "c_timers (snd (sv_apply bank_service q i s c)) = c_timers c" for q i s and c :: "bank_evt ctx"
    using bank_quiet [of i s] by (simp add: banks.quiet_def)
  show "fst (sv_apply bank_service q i s c) = fst (sv_apply bank_service q i s c')" for q i s and c c' :: "bank_evt ctx"
    by (cases i) (simp add: bank_service_def Let_def)
  show "True \<and> length (bankl.snap_payload (s, wheel_new)) < 2 ^ 32" if "bank_ok s" for s
    using that unfolding bankl.snap_payload_def
    by (simp add: bank_ok_def bank_service_def encode_to_vec_def enc_pair_def enc_vec_def enc_int_def encode_len_def
        wheel_snapshot_def wheel_new_def length_concat comp_def sum_list_triv)
  show "bank_invariant s = Ok ()" if "bank_ok s" for s using bank_ok_check [OF that] by (simp add: bank_invariant_def)
  have len: "length (encode_to_vec (sv_enc_input bank_service) (fst (gen_transfer r))) = 8" for r
    by (simp add: gen_transfer_def split_beta Let_def bank_service_def enc_bank_cmd_def enc_enum_def enc_pair_def enc_int_def encode_to_vec_def)
  show "length (encode_to_vec (sv_enc_input bank_service) (fst (gen_transfer r))) \<le> unat MAX_PAYLOAD_LEN" for r
    unfolding len by (simp add: MAX_PAYLOAD_LEN_def)
  show "28 + (FRAME_HEADER_LEN + length (encode_to_vec (sv_enc_input bank_service) (fst (gen_transfer r))) + 4) \<le> 512" for r
    unfolding len by (simp add: FRAME_HEADER_LEN_def)
qed (simp_all add: FRAME_HEADER_LEN_def)

section \<open>Shrinking\<close>

text \<open>The schedule of a step does not depend on the length of the run.\<close>

lemma steps_fields:
  "sc_seed (cfg\<lparr>sc_steps := k\<rparr>) = sc_seed cfg" "sc_crash_per_mille (cfg\<lparr>sc_steps := k\<rparr>) = sc_crash_per_mille cfg"
  "sc_sync_per_mille (cfg\<lparr>sc_steps := k\<rparr>) = sc_sync_per_mille cfg" "sc_tick_per_mille (cfg\<lparr>sc_steps := k\<rparr>) = sc_tick_per_mille cfg"
  "sc_torn_tails (cfg\<lparr>sc_steps := k\<rparr>) = sc_torn_tails cfg" "sim_node_config (cfg\<lparr>sc_steps := k\<rparr>) = sim_node_config cfg"
  by (simp_all add: sim_node_config_def)

lemma sim_steps_irrelevant:
  "recover_and_check SV check t (cfg\<lparr>sc_steps := k\<rparr>) scfg step clock exps synced n d = recover_and_check SV check t cfg scfg step clock exps synced n d"
  "sim_step SV check gen_input t (cfg\<lparr>sc_steps := k\<rparr>) scfg step st = sim_step SV check gen_input t cfg scfg step st"
proof -
  show recover: "recover_and_check SV check t (cfg\<lparr>sc_steps := k\<rparr>) scfg step clock exps synced n d =
      recover_and_check SV check t cfg scfg step clock exps synced n d" for step clock exps synced n d
    unfolding recover_and_check_def steps_fields ..
  show "sim_step SV check gen_input t (cfg\<lparr>sc_steps := k\<rparr>) scfg step st = sim_step SV check gen_input t cfg scfg step st"
    unfolding sim_step_def steps_fields recover ..
qed

lemma sim_loop_steps: "sim_loop SV check gen_input t (cfg\<lparr>sc_steps := k\<rparr>) scfg j step st = sim_loop SV check gen_input t cfg scfg j step st"
  by (induction j arbitrary: step st) (simp_all add: sim_steps_irrelevant split: option.split result.split)

lemma recover_failure:
  "recover_and_check SV check t cfg scfg step clock exps synced n d = Some (Err f) \<Longrightarrow> fl_step f = step \<and> fl_seed f = sc_seed cfg"
  by (auto simp: recover_and_check_def Let_def split: prod.splits result.splits option.splits if_splits)

lemma step_failure:
  assumes "sim_step SV check gen_input t cfg scfg step st = Some (Err f)"
  shows "fl_step f = step \<and> fl_seed f = sc_seed cfg"
  using assms
  by (auto simp: sim_step_def Let_def split: prod.splits result.splits option.splits if_splits dest: recover_failure)

lemma loop_failure:
  assumes "sim_loop SV check gen_input t cfg scfg k step st = Some (Err f)"
  shows "\<exists>j < k. fl_step f = step + of_nat j \<and> fl_seed f = sc_seed cfg \<and>
    sim_loop SV check gen_input t cfg scfg (Suc j) step st = Some (Err f)"
  using assms
proof (induction k arbitrary: step st)
  case (Suc k)
  show ?case
  proof (cases "sim_step SV check gen_input t cfg scfg step st")
    case (Some r)
    show ?thesis
    proof (cases r)
      case (Ok st1)
      with Suc.IH [of "step + 1" st1] Suc.prems Some obtain j where
        "j < k" "fl_step f = step + 1 + of_nat j" "fl_seed f = sc_seed cfg" "sim_loop SV check gen_input t cfg scfg (Suc j) (step + 1) st1 = Some (Err f)" by auto
      with Some Ok show ?thesis by (intro exI [of _ "Suc j"]) (simp add: add.assoc)
    next
      case (Err g)
      with Suc.prems Some step_failure [of SV check gen_input t cfg scfg step st g] show ?thesis by (intro exI [of _ 0]) simp
    qed
  qed (use Suc.prems in simp)
qed simp

lemma simulate_shrinks:
  assumes fails: "simulate SV check gen_input t cfg scfg = Some (Err f)" and pos: "0 < sc_steps cfg"
  shows "fl_step f < sc_steps cfg \<and> fl_seed f = sc_seed cfg \<and>
    simulate SV check gen_input t (cfg\<lparr>sc_steps := fl_step f + 1\<rparr>) scfg = Some (Err f)"
proof -
  let ?clock = "clock_advance 1000000000 0"
  obtain res d where o: "node_open_with (sim_env SV sim_now) t (sim_node_config cfg) scfg ?clock sim_new = (res, d)" by fastforce
  show ?thesis
  proof (cases res)
    case (Err e)
    then show ?thesis using fails pos o by (auto simp: simulate_def steps_fields)
  next
    case (Ok n)
    define st where "st = \<lparr>sx_node = n, sx_disk = d, sx_clock = ?clock, sx_rng = rng_new (sc_seed cfg), sx_expected = [],
      sx_synced = 0, sx_stats = no_stats\<rparr>"
    have sim: "simulate SV check gen_input t (cfg\<lparr>sc_steps := k\<rparr>) scfg =
        (case sim_loop SV check gen_input t cfg scfg (unat k) 0 st of None \<Rightarrow> None | Some (Err f) \<Rightarrow> Some (Err f)
         | Some (Ok st) \<Rightarrow> final_crash SV check t (cfg\<lparr>sc_steps := k\<rparr>) scfg st)" for k
      using o Ok by (simp add: simulate_def steps_fields sim_loop_steps st_def)
    have "cfg\<lparr>sc_steps := sc_steps cfg\<rparr> = cfg" by simp
    note run = sim [of "sc_steps cfg", unfolded this fails]
    consider (loop) "sim_loop SV check gen_input t cfg scfg (unat (sc_steps cfg)) 0 st = Some (Err f)"
      | (final) st' where "final_crash SV check t cfg scfg st' = Some (Err f)"
      using run [symmetric] by (simp del: sim_loop.simps split: option.split_asm result.split_asm)
    then show ?thesis
    proof cases
      case loop
      from loop_failure [OF loop] obtain j where j: "j < unat (sc_steps cfg)" "fl_step f = of_nat j" "fl_seed f = sc_seed cfg"
          "sim_loop SV check gen_input t cfg scfg (Suc j) 0 st = Some (Err f)" by auto
      have "unat (sc_steps cfg) < 2 ^ 32" using unsigned_less [of "sc_steps cfg", where 'a = nat] by simp
      then have u: "unat (of_nat i :: u32) = i" if "i \<le> unat (sc_steps cfg)" for i using that by (intro unat_of_nat_small) simp
      have lt: "fl_step f < sc_steps cfg" using j(1,2) u [of j] by (simp add: word_less_nat_alt)
      have "unat (fl_step f + 1) = Suc j" using j(1,2) u [of "Suc j"] by (simp add: add.commute)
      then have "simulate SV check gen_input t (cfg\<lparr>sc_steps := fl_step f + 1\<rparr>) scfg = Some (Err f)"
        unfolding sim j(4) [symmetric] by (simp only: j(4) option.case result.case)
      with j(3) lt show ?thesis by blast
    next
      case final
      then have "fl_step f = sc_steps cfg - 1 \<and> fl_seed f = sc_seed cfg"
        using pos by (auto simp: final_crash_def Let_def word_gt_0 split: prod.splits option.splits result.splits dest!: recover_failure)
      moreover have "sc_steps cfg \<noteq> 0" "0 < unat (sc_steps cfg)" using pos by (auto simp: word_less_nat_alt)
      then have "sc_steps cfg - 1 < sc_steps cfg" by (simp add: word_less_nat_alt unat_minus_one)
      ultimately show ?thesis using fails by simp
    qed
  qed
qed

lemma vopr_failure:
  assumes "vopr_from SV check gen_input t base scfg seeds totals = Some (Err sf)" and "0 < sc_steps base"
  shows "fl_seed (sh_failure sf) \<in> set seeds \<and> fl_step (sh_failure sf) < sc_steps base \<and>
    sh_min_steps sf = fl_step (sh_failure sf) + 1 \<and>
    simulate SV check gen_input t (base\<lparr>sc_seed := fl_seed (sh_failure sf), sc_steps := sh_min_steps sf\<rparr>) scfg = Some (Err (sh_failure sf))"
  using assms(1)
proof (induction seeds arbitrary: totals)
  case (Cons seed seeds)
  let ?cfg = "base\<lparr>sc_seed := seed\<rparr>"
  from Cons.prems obtain r where r: "simulate SV check gen_input t ?cfg scfg = Some r"
    by (cases "simulate SV check gen_input t ?cfg scfg") (auto simp: Let_def)
  show ?case
  proof (cases r)
    case (Ok stats)
    with Cons.prems r have "vopr_from SV check gen_input t base scfg seeds (add_stats totals stats) = Some (Err sf)" by simp
    from Cons.IH [OF this] show ?thesis by auto
  next
    case (Err f)
    note sh = simulate_shrinks [OF r [unfolded Err]]
    with Cons.prems r Err assms(2) have "sf = \<lparr>sh_failure = f, sh_min_steps = fl_step f + 1\<rparr>" by (auto simp: Let_def)
    with sh assms(2) show ?thesis by simp
  qed
qed simp

text \<open>A run in which a check that always fails is reported by the first recovery.\<close>

definition always_crash :: sim_config where
  "always_crash = (sim_config_new 7)\<lparr>sc_steps := 1, sc_crash_per_mille := 1000\<rparr>"

lemma failing_run:
  "simulate bank_service (\<lambda>_. Err ()) gen_transfer 0 always_crash () = Some (Err \<lparr>fl_seed = 7, fl_step = 0, fl_violation = AppInvariant ()\<rparr>)"
proof -
  let ?nc = "sim_node_config always_crash" and ?clock = "clock_advance 1000000000 0"
  from banks.open_fresh [of sim_now 0 ?nc ?clock] obtain n :: "(bank, bank_evt, unit) sim_node" and d where
    n: "node_open_with (sim_env bank_service sim_now) 0 ?nc () ?clock sim_new = (Ok n, d)" "banks.Live (nc_journal ?nc) [] 0 n d" by blast
  obtain nanos r1 where r1: "rng_below 1000000000 (rng_new (sc_seed always_crash)) = (nanos, r1)" by fastforce
  obtain roll r2 where r2: "rng_below 1000 r1 = (roll, r2)" by fastforce
  have "roll < 1000" using rng_below_less [of 1000 r1] r2 by simp
  then have "unat roll < 1000" by (simp add: word_less_nat_alt)
  moreover have "unat (ucast roll :: u32) \<le> unat roll" by (simp add: unsigned_ucast_eq unsigned_take_bit_eq take_bit_nat_less_eq_self)
  ultimately have "unat (ucast roll :: u32) < 1000" by simp
  then have dice: "(ucast roll :: u32) < sc_crash_per_mille always_crash" by (simp add: always_crash_def word_less_nat_alt)
  have "banks.Live (nc_journal ?nc) [] 0 (n\<lparr>n_clock := clock_advance nanos ?clock\<rparr>) d" using n(2) by (simp add: bank_sim.Live_clock)
  from bank_sim.recover_result [OF this, of "[]" 0 0 0 "clock_advance nanos ?clock" True r2]
  have fail: "recover_and_check bank_service (\<lambda>_. Err ()) 0 always_crash () 0 (clock_advance nanos ?clock) [] 0 (n\<lparr>n_clock := clock_advance nanos ?clock\<rparr>)
      (fst (sim_crash True r2 d)) = Some (Err \<lparr>fl_seed = sc_seed always_crash, fl_step = 0, fl_violation = AppInvariant ()\<rparr>)" by auto
  have "sc_torn_tails always_crash" "sc_seed always_crash = 7" "unat (sc_steps always_crash) = Suc 0"
    by (simp_all add: always_crash_def sim_config_new_def)
  with n(1) r1 r2 dice fail show ?thesis by (simp add: simulate_def sim_step_def Let_def split_beta)
qed

lemma vopr_from_passes:
  assumes "\<And>seed. \<exists>stats. simulate SV check gen_input t (base\<lparr>sc_seed := seed\<rparr>) scfg = Some (Ok stats)"
  shows "\<exists>totals'. vopr_from SV check gen_input t base scfg seeds totals = Some (Ok totals')"
proof (induction seeds arbitrary: totals)
  case (Cons seed seeds)
  from assms [of seed] Cons show ?case by auto
qed simp

section \<open>Properties\<close>

text \<open>
  C5. The simulator cannot fail a correct service. For a service that keeps the laws, arms no timers and does not read the
  clock, whose workload fits the segments, every run of \<open>simulate\<close> returns, passes every check (recovery, durability,
  total order, determinism, the application's invariant) and performs every step, whatever the seed, the dials, the
  snapshot cadence and the torn tails; so does the loop over any list of seeds.
\<close>

theorem simulation_passes:
  assumes "simulatable SV scfg vi vs sz check gen_input room" and "room \<le> unat (sc_segment_bytes cfg)"
  shows "(\<exists>stats. simulate SV check gen_input t cfg scfg = Some (Ok stats) \<and>
      stat_inputs stats + stat_ticks stats + stat_syncs stats + stat_crashes stats = ucast (sc_steps cfg) + 1) \<and>
    (\<exists>totals. vopr SV check gen_input t cfg scfg seeds = Some (Ok totals))"
proof -
  have "\<exists>stats. simulate SV check gen_input t (cfg\<lparr>sc_seed := seed\<rparr>) scfg = Some (Ok stats)" for seed
    using simulatable.simulate_passes [OF assms(1), of "cfg\<lparr>sc_seed := seed\<rparr>" t] assms(2) by auto
  from vopr_from_passes [of SV check gen_input t cfg scfg, OF this] simulatable.simulate_passes [OF assms, of t]
  show ?thesis by (simp add: vopr_def stats_total_def)
qed

theorem simulation_passes_witness:
  "\<exists>stats totals. simulate bank_service bank_invariant gen_transfer 0 (sim_config_new 42) () = Some (Ok stats) \<and>
     stat_inputs stats + stat_ticks stats + stat_syncs stats + stat_crashes stats = 401 \<and>
     vopr bank_service bank_invariant gen_transfer 0 (sim_config_new 0) () [1, 2, 3] = Some (Ok totals)"
  using simulation_passes [OF bank_sim.simulatable_axioms, of "sim_config_new 42" 0]
    simulation_passes [OF bank_sim.simulatable_axioms, of "sim_config_new 0" 0 "[1, 2, 3]"]
  by (simp add: sim_config_new_def)

text \<open>
  C28. A failing seed is its own reproduction. For any service, check and workload, what \<open>vopr\<close> reports is a
  failure of one of its seeds, and running that seed for the reported number of steps fails in the same way, at the same step: the
  shrunk schedule is always confirmed, also when the failure surfaced in the crash at the end of the run.
\<close>

theorem vopr_reproduces:
  assumes "vopr SV check gen_input t base scfg seeds = Some (Err sf)" and "0 < sc_steps base"
  shows "fl_seed (sh_failure sf) \<in> set seeds \<and> fl_step (sh_failure sf) < sc_steps base \<and>
    sh_min_steps sf = fl_step (sh_failure sf) + 1 \<and>
    simulate SV check gen_input t (base\<lparr>sc_seed := fl_seed (sh_failure sf), sc_steps := sh_min_steps sf\<rparr>) scfg = Some (Err (sh_failure sf))"
  by (rule vopr_failure [OF assms(1) [unfolded vopr_def] assms(2)])

theorem vopr_reproduces_witness:
  "\<exists>sf. vopr bank_service (\<lambda>_. Err ()) gen_transfer 0 always_crash () [7] = Some (Err sf) \<and> fl_seed (sh_failure sf) = 7 \<and>
     sh_min_steps sf = fl_step (sh_failure sf) + 1"
proof -
  have "always_crash\<lparr>sc_seed := 7\<rparr> = always_crash" "always_crash\<lparr>sc_seed := 7, sc_steps := 1\<rparr> = always_crash" "0 < sc_steps always_crash"
    by (simp_all add: always_crash_def sim_config_new_def)
  moreover from this have "\<exists>sf. vopr bank_service (\<lambda>_. Err ()) gen_transfer 0 always_crash () [7] = Some (Err sf)"
    using failing_run by (simp add: vopr_def Let_def)
  then obtain sf where sf: "vopr bank_service (\<lambda>_. Err ()) gen_transfer 0 always_crash () [7] = Some (Err sf)" by blast
  ultimately show ?thesis using vopr_reproduces [OF sf] by auto
qed

end
