(* ===== verification/Os_Storage.thy ===== *)
theory Os_Storage
  imports Journal_Safety
begin

text \<open>
  The two production storages: \<open>RealStorage\<close> of \<open>ticktape-journal/src/storage.rs\<close>, which appends through \<open>std::fs\<close>, and
  \<open>ticktape-journal/src/iouring.rs\<close>, which submits positioned writes and data syncs to an \<open>io_uring\<close>. The operating system
  and the ring are parameters: the record \<open>os\<close> of the calls the code makes, over a state of the kernel. The locale
  \<open>os_laws\<close> is what their documentation promises of calls that succeed; it leaves open how much of a write is done and
  when a call fails. Handles carry the write offset, so an operation on a file returns the new handle.
\<close>

section \<open>The calls of the operating system\<close>

type_synonym i32 = "32 word"

record open_options =
  oo_read :: bool
  oo_write :: bool
  oo_append :: bool
  oo_create_new :: bool

definition no_options :: open_options where
  "no_options = \<lparr>oo_read = False, oo_write = False, oo_append = False, oo_create_new = False\<rparr>"

datatype 'h sqe = SqWrite 'h bytes u64 | SqFdatasync 'h

text \<open>What \<open>io::Error\<close> is made of here: an error of the system, or one the code constructs.\<close>

datatype 'e os_error = Os 'e | RawOs i32 | SqFull | NoCompletion | WriteZero

type_synonym ('a, 'e, 'k) sys = "('a, 'e os_error) result \<times> 'k"

record ('k, 'h, 'r, 'e) os =
  os_create_dir_all :: "string \<Rightarrow> 'k \<Rightarrow> (unit, 'e, 'k) sys"
  os_read_dir :: "string \<Rightarrow> 'k \<Rightarrow> ((path, 'e os_error) result list, 'e os_error) result"
  os_open :: "open_options \<Rightarrow> path \<Rightarrow> 'k \<Rightarrow> ('h, 'e, 'k) sys"
  os_open_dir :: "string \<Rightarrow> 'k \<Rightarrow> ('h, 'e, 'k) sys"
  os_read_to_end :: "'h \<Rightarrow> 'k \<Rightarrow> (bytes, 'e os_error) result"
  os_write_all :: "'h \<Rightarrow> bytes \<Rightarrow> 'k \<Rightarrow> (unit, 'e, 'k) sys"
  os_metadata_len :: "'h \<Rightarrow> 'k \<Rightarrow> (u64, 'e os_error) result"
  os_set_len :: "'h \<Rightarrow> u64 \<Rightarrow> 'k \<Rightarrow> (unit, 'e, 'k) sys"
  os_sync_data :: "'h \<Rightarrow> 'k \<Rightarrow> (unit, 'e, 'k) sys"
  os_sync_all :: "'h \<Rightarrow> 'k \<Rightarrow> (unit, 'e, 'k) sys"
  os_remove_file :: "path \<Rightarrow> 'k \<Rightarrow> (unit, 'e, 'k) sys"
  ring_new :: "nat \<Rightarrow> 'k \<Rightarrow> ('r, 'e, 'k) sys"
  ring_push :: "'r \<Rightarrow> 'h sqe \<Rightarrow> 'k \<Rightarrow> bool \<times> 'k"
  ring_submit_and_wait :: "'r \<Rightarrow> nat \<Rightarrow> 'k \<Rightarrow> (unit, 'e, 'k) sys"
  ring_completion_next :: "'r \<Rightarrow> 'k \<Rightarrow> i32 option \<times> 'k"

text \<open>\<open>collect\<close> into a \<open>Result\<close>: the first error, or all values.\<close>

fun collect_results :: "('a, 'e) result list \<Rightarrow> ('a list, 'e) result" where
  "collect_results [] = Ok []"
| "collect_results (r # rs) = rbind r (\<lambda>x. rbind (collect_results rs) (\<lambda>xs. Ok (x # xs)))"

definition file_open :: "('k, 'h, 'r, 'e) os \<Rightarrow> path \<Rightarrow> 'k \<Rightarrow> ('h, 'e, 'k) sys" where
  "file_open Sys p = os_open Sys (no_options\<lparr>oo_read := True\<rparr>) p"

section \<open>The standard library's files\<close>

definition real_write_all :: "('k, 'h, 'r, 'e) os \<Rightarrow> 'h \<Rightarrow> bytes \<Rightarrow> 'k \<Rightarrow> (unit, 'e, 'k) sys" where
  "real_write_all Sys h buf = os_write_all Sys h buf"

definition real_sync_data :: "('k, 'h, 'r, 'e) os \<Rightarrow> 'h \<Rightarrow> 'k \<Rightarrow> (unit, 'e, 'k) sys" where
  "real_sync_data Sys h = os_sync_data Sys h"

definition real_len :: "('k, 'h, 'r, 'e) os \<Rightarrow> 'h \<Rightarrow> 'k \<Rightarrow> (u64, 'e os_error) result" where
  "real_len Sys h k = os_metadata_len Sys h k"

definition real_create_dir_all :: "('k, 'h, 'r, 'e) os \<Rightarrow> string \<Rightarrow> 'k \<Rightarrow> (unit, 'e, 'k) sys" where
  "real_create_dir_all Sys dir = os_create_dir_all Sys dir"

definition real_list_dir :: "('k, 'h, 'r, 'e) os \<Rightarrow> string \<Rightarrow> 'k \<Rightarrow> (path list, 'e os_error) result" where
  "real_list_dir Sys dir k = rbind (os_read_dir Sys dir k) collect_results"

definition real_read :: "('k, 'h, 'r, 'e) os \<Rightarrow> path \<Rightarrow> 'k \<Rightarrow> (bytes, 'e, 'k) sys" where
  "real_read Sys p k = sbind (file_open Sys p k) (\<lambda>h k. (os_read_to_end Sys h k, k))"

definition real_open_append :: "('k, 'h, 'r, 'e) os \<Rightarrow> path \<Rightarrow> 'k \<Rightarrow> ('h, 'e, 'k) sys" where
  "real_open_append Sys p = os_open Sys (no_options\<lparr>oo_append := True\<rparr>) p"

definition real_create_new :: "('k, 'h, 'r, 'e) os \<Rightarrow> path \<Rightarrow> 'k \<Rightarrow> ('h, 'e, 'k) sys" where
  "real_create_new Sys p = os_open Sys (no_options\<lparr>oo_create_new := True, oo_append := True\<rparr>) p"

definition real_truncate :: "('k, 'h, 'r, 'e) os \<Rightarrow> path \<Rightarrow> u64 \<Rightarrow> 'k \<Rightarrow> (unit, 'e, 'k) sys" where
  "real_truncate Sys p len k =
     sbind (os_open Sys (no_options\<lparr>oo_write := True\<rparr>) p k) (\<lambda>h k.
     sbind (os_set_len Sys h len k) (\<lambda>_. os_sync_all Sys h))"

definition real_remove :: "('k, 'h, 'r, 'e) os \<Rightarrow> path \<Rightarrow> 'k \<Rightarrow> (unit, 'e, 'k) sys" where
  "real_remove Sys p = os_remove_file Sys p"

text \<open>The Unix branch; elsewhere nothing is done.\<close>

definition real_sync_dir :: "('k, 'h, 'r, 'e) os \<Rightarrow> bool \<Rightarrow> string \<Rightarrow> 'k \<Rightarrow> (unit, 'e, 'k) sys" where
  "real_sync_dir Sys unix dir k =
     (if unix then sbind (os_open_dir Sys dir k) (\<lambda>h. os_sync_all Sys h) else (Ok (), k))"

section \<open>Files over a submission ring\<close>

record ('h, 'r) uring_file =
  uf_file :: 'h
  uf_ring :: 'r
  uf_offset :: u64

definition uring_file_open :: "('k, 'h, 'r, 'e) os \<Rightarrow> 'h \<Rightarrow> u64 \<Rightarrow> 'k \<Rightarrow> (('h, 'r) uring_file, 'e, 'k) sys" where
  "uring_file_open Sys h offset k =
     sbind (ring_new Sys 4 k) (\<lambda>r k. (Ok \<lparr>uf_file = h, uf_ring = r, uf_offset = offset\<rparr>, k))"

definition submit_wait :: "('k, 'h, 'r, 'e) os \<Rightarrow> ('h, 'r) uring_file \<Rightarrow> 'h sqe \<Rightarrow> 'k \<Rightarrow> (i32, 'e, 'k) sys" where
  "submit_wait Sys f entry k =
     (case ring_push Sys (uf_ring f) entry k of
        (False, k) \<Rightarrow> (Err SqFull, k)
      | (True, k) \<Rightarrow>
          sbind (ring_submit_and_wait Sys (uf_ring f) 1 k) (\<lambda>_ k.
            case ring_completion_next Sys (uf_ring f) k of
              (None, k) \<Rightarrow> (Err NoCompletion, k)
            | (Some n, k) \<Rightarrow> (Ok n, k)))"

text \<open>The loop over short writes, with \<open>written\<close> bytes done; the length of an entry is 32 bits wide.\<close>

function uring_write_from ::
  "('k, 'h, 'r, 'e) os \<Rightarrow> ('h, 'r) uring_file \<Rightarrow> bytes \<Rightarrow> nat \<Rightarrow> 'k \<Rightarrow> (unit, 'e, 'k) sys"
where
  "uring_write_from Sys f buf written k =
     (if written < length buf then
        (let chunk = drop written buf;
             entry = SqWrite (uf_file f) (take (unat (of_nat (length chunk) :: u32)) chunk) (uf_offset f + of_nat written)
         in case submit_wait Sys f entry k of
              (Err e, k) \<Rightarrow> (Err e, k)
            | (Ok n, k) \<Rightarrow>
                if sint n < 0 then (Err (RawOs (- n)), k)
                else if n = 0 then (Err WriteZero, k)
                else uring_write_from Sys f buf (written + unat n) k)
      else (Ok (), k))"
  by pat_completeness auto
termination
  by (relation "measure (\<lambda>(Sys, f, buf, written, k). length buf - written)") (auto simp: word_neq_0_conv word_less_nat_alt)

declare uring_write_from.simps [simp del]

definition uring_write_all ::
  "('k, 'h, 'r, 'e) os \<Rightarrow> ('h, 'r) uring_file \<Rightarrow> bytes \<Rightarrow> 'k \<Rightarrow> (unit, 'e os_error) result \<times> ('h, 'r) uring_file \<times> 'k"
where
  "uring_write_all Sys f buf k =
     (case uring_write_from Sys f buf 0 k of
        (Err e, k) \<Rightarrow> (Err e, f, k)
      | (Ok _, k) \<Rightarrow> (Ok (), f\<lparr>uf_offset := uf_offset f + of_nat (length buf)\<rparr>, k))"

definition uring_sync_data :: "('k, 'h, 'r, 'e) os \<Rightarrow> ('h, 'r) uring_file \<Rightarrow> 'k \<Rightarrow> (unit, 'e, 'k) sys" where
  "uring_sync_data Sys f k =
     sbind (submit_wait Sys f (SqFdatasync (uf_file f)) k) (\<lambda>n k.
       if sint n < 0 then (Err (RawOs (- n)), k) else (Ok (), k))"

definition uring_len :: "('k, 'h, 'r, 'e) os \<Rightarrow> ('h, 'r) uring_file \<Rightarrow> 'k \<Rightarrow> (u64, 'e os_error) result" where
  "uring_len Sys f k = rbind (os_metadata_len Sys (uf_file f) k) (\<lambda>n. Ok (max (uf_offset f) n))"

definition uring_create_dir_all :: "('k, 'h, 'r, 'e) os \<Rightarrow> string \<Rightarrow> 'k \<Rightarrow> (unit, 'e, 'k) sys" where
  "uring_create_dir_all Sys dir = os_create_dir_all Sys dir"

definition uring_list_dir :: "('k, 'h, 'r, 'e) os \<Rightarrow> string \<Rightarrow> 'k \<Rightarrow> (path list, 'e os_error) result" where
  "uring_list_dir Sys dir k = rbind (os_read_dir Sys dir k) collect_results"

definition uring_read :: "('k, 'h, 'r, 'e) os \<Rightarrow> path \<Rightarrow> 'k \<Rightarrow> (bytes, 'e, 'k) sys" where
  "uring_read Sys p k = sbind (file_open Sys p k) (\<lambda>h k. (os_read_to_end Sys h k, k))"

definition uring_open_append :: "('k, 'h, 'r, 'e) os \<Rightarrow> path \<Rightarrow> 'k \<Rightarrow> (('h, 'r) uring_file, 'e, 'k) sys" where
  "uring_open_append Sys p k =
     sbind (os_open Sys (no_options\<lparr>oo_read := True, oo_write := True\<rparr>) p k) (\<lambda>h k.
     sbind (os_metadata_len Sys h k, k) (\<lambda>offset. uring_file_open Sys h offset))"

definition uring_create_new :: "('k, 'h, 'r, 'e) os \<Rightarrow> path \<Rightarrow> 'k \<Rightarrow> (('h, 'r) uring_file, 'e, 'k) sys" where
  "uring_create_new Sys p k =
     sbind (os_open Sys (no_options\<lparr>oo_read := True, oo_write := True, oo_create_new := True\<rparr>) p k) (\<lambda>h.
       uring_file_open Sys h 0)"

definition uring_truncate :: "('k, 'h, 'r, 'e) os \<Rightarrow> path \<Rightarrow> u64 \<Rightarrow> 'k \<Rightarrow> (unit, 'e, 'k) sys" where
  "uring_truncate Sys p len k =
     sbind (os_open Sys (no_options\<lparr>oo_write := True\<rparr>) p k) (\<lambda>h k.
     sbind (os_set_len Sys h len k) (\<lambda>_. os_sync_all Sys h))"

definition uring_remove :: "('k, 'h, 'r, 'e) os \<Rightarrow> path \<Rightarrow> 'k \<Rightarrow> (unit, 'e, 'k) sys" where
  "uring_remove Sys p = os_remove_file Sys p"

definition uring_sync_dir :: "('k, 'h, 'r, 'e) os \<Rightarrow> string \<Rightarrow> 'k \<Rightarrow> (unit, 'e, 'k) sys" where
  "uring_sync_dir Sys dir k = sbind (os_open_dir Sys dir k) (\<lambda>h. os_sync_all Sys h)"

text \<open>With no failing completion, the loop over short writes succeeds.\<close>

lemma uring_write_all_succeeds:
  assumes "length buf < 2 ^ 32" and "\<forall>chunk off k. chunk \<noteq> [] \<longrightarrow>
      (\<exists>n k'. submit_wait Sys f (SqWrite (uf_file f) chunk off) k = (Ok n, k') \<and> 0 < sint n)"
  shows "\<exists>f' k'. uring_write_all Sys f buf k = (Ok (), f', k')"
proof -
  have "\<exists>k'. uring_write_from Sys f buf w k = (Ok (), k')" for w k
  proof (induction "length buf - w" arbitrary: w k rule: less_induct)
    case less
    show ?case
    proof (cases "w < length buf")
      case True
      let ?chunk = "take (unat (of_nat (length (drop w buf)) :: u32)) (drop w buf)"
      have "unat (of_nat (length (drop w buf)) :: u32) = length (drop w buf)"
        using assms(1) by (simp only: unat_of_nat, simp add: take_bit_nat_eq_self)
      then have "?chunk \<noteq> []" using True by simp
      with assms(2) obtain n k1 where sub: "submit_wait Sys f (SqWrite (uf_file f) ?chunk (uf_offset f + of_nat w)) k = (Ok n, k1)"
        and n: "0 < sint n" by meson
      from n have "n \<noteq> 0" by auto
      then have "0 < unat n" by (simp add: unat_gt_0)
      then have "length buf - (w + unat n) < length buf - w" using True by linarith
      from less [OF this, of k1] True sub n \<open>n \<noteq> 0\<close> show ?thesis
        by (subst uring_write_from.simps) (simp add: Let_def)
    qed (simp add: uring_write_from.simps)
  qed
  then obtain k' where "uring_write_from Sys f buf 0 k = (Ok (), k')" by blast
  then show ?thesis by (simp add: uring_write_all_def)
qed

section \<open>What the system promises\<close>

text \<open>
  \<open>content\<close> is what a reader sees of a file, \<open>stable\<close> what is on the device, \<open>on\<close> the file a handle writes to,
  \<open>idle\<close> a ring with no entry in flight and no completion left. Every law is about calls that succeed. A completion reports how
  many bytes of a write were done, from its offset on, or a negated error number.
\<close>

definition overwrite :: "nat \<Rightarrow> bytes \<Rightarrow> bytes \<Rightarrow> bytes" where
  "overwrite off xs bs = take off bs @ xs @ drop (off + length xs) bs"

locale os_laws =
  fixes Sys :: "('k, 'h, 'r, 'e) os"
    and content :: "'k \<Rightarrow> path \<Rightarrow> bytes option"
    and stable :: "'k \<Rightarrow> path \<Rightarrow> bytes option"
    and on :: "'h \<Rightarrow> 'k \<Rightarrow> path option"
    and appends :: "'h \<Rightarrow> bool"
    and idle :: "'r \<Rightarrow> 'k \<Rightarrow> bool"
  assumes open_existing: "os_open Sys opts p k = (Ok h, k') \<Longrightarrow> \<not> oo_create_new opts \<Longrightarrow>
        content k p \<noteq> None \<and> content k' = content k \<and> appends h = oo_append opts \<and>
        (oo_write opts \<or> oo_append opts \<longrightarrow> on h k' = Some p)"
    and open_new: "os_open Sys opts p k = (Ok h, k') \<Longrightarrow> oo_create_new opts \<Longrightarrow> oo_write opts \<or> oo_append opts \<Longrightarrow>
        content k p = None \<and> content k' = (content k)(p \<mapsto> []) \<and> appends h = oo_append opts \<and> on h k' = Some p"
    and metadata_len: "os_metadata_len Sys h k = Ok n \<Longrightarrow> on h k = Some p \<Longrightarrow> \<exists>bs. content k p = Some bs \<and> unat n = length bs"
    and write_all: "os_write_all Sys h buf k = (Ok (), k') \<Longrightarrow> on h k = Some p \<Longrightarrow> appends h \<Longrightarrow> content k p = Some bs \<Longrightarrow>
        content k' = (content k)(p \<mapsto> bs @ buf) \<and> on h k' = Some p"
    and sync_data: "os_sync_data Sys h k = (Ok (), k') \<Longrightarrow> on h k = Some p \<Longrightarrow>
        content k' = content k \<and> stable k' p = content k p \<and> on h k' = Some p"
    and set_len: "os_set_len Sys h n k = (Ok (), k') \<Longrightarrow> on h k = Some p \<Longrightarrow> content k p = Some bs \<Longrightarrow>
        content k' = (content k)(p \<mapsto> take (unat n) bs @ replicate (unat n - length bs) 0) \<and> on h k' = Some p"
    and sync_all: "os_sync_all Sys h k = (Ok (), k') \<Longrightarrow> on h k = Some p \<Longrightarrow>
        content k' = content k \<and> stable k' p = content k p"
    and new_ring: "ring_new Sys depth k = (Ok r, k') \<Longrightarrow>
        idle r k' \<and> content k' = content k \<and> (\<forall>h. on h k' = on h k)"
    and submit_error: "ring_submit_and_wait Sys r want k = (Err e, k') \<Longrightarrow> \<exists>x. e = Os x"
    and ring_write: "ring_push Sys r (SqWrite h chunk off) k = (True, k1) \<Longrightarrow> ring_submit_and_wait Sys r 1 k1 = (Ok (), k2) \<Longrightarrow>
        ring_completion_next Sys r k2 = (Some c, k') \<Longrightarrow> idle r k \<Longrightarrow> on h k = Some p \<Longrightarrow> content k p = Some bs \<Longrightarrow>
        unat off \<le> length bs \<Longrightarrow>
        idle r k' \<and> on h k' = Some p \<and>
        (if sint c < 0 then content k' = content k
         else unat c \<le> length chunk \<and> content k' = (content k)(p \<mapsto> overwrite (unat off) (take (unat c) chunk) bs))"
    and ring_fdatasync: "ring_push Sys r (SqFdatasync h) k = (True, k1) \<Longrightarrow> ring_submit_and_wait Sys r 1 k1 = (Ok (), k2) \<Longrightarrow>
        ring_completion_next Sys r k2 = (Some c, k') \<Longrightarrow> idle r k \<Longrightarrow> on h k = Some p \<Longrightarrow>
        idle r k' \<and> on h k' = Some p \<and> content k' = content k \<and> (0 \<le> sint c \<longrightarrow> stable k' p = content k p)"
begin

text \<open>An open file whose next write lands behind \<open>bs\<close>; \<open>res\<close> is what a failed write left there.\<close>

definition positioned :: "('h, 'r) uring_file \<Rightarrow> path \<Rightarrow> bytes \<Rightarrow> bytes \<Rightarrow> 'k \<Rightarrow> bool" where
  "positioned f p bs res k \<longleftrightarrow> idle (uf_ring f) k \<and> on (uf_file f) k = Some p \<and> content k p = Some (bs @ res) \<and>
     unat (uf_offset f) = length bs"

lemma submit_wait_Ok:
  assumes "submit_wait Sys f entry k = (Ok n, k')"
  shows "\<exists>k1 k2. ring_push Sys (uf_ring f) entry k = (True, k1) \<and>
    ring_submit_and_wait Sys (uf_ring f) 1 k1 = (Ok (), k2) \<and> ring_completion_next Sys (uf_ring f) k2 = (Some n, k')"
proof -
  obtain b k1 where push: "ring_push Sys (uf_ring f) entry k = (b, k1)" by fastforce
  obtain a k2 where wait: "ring_submit_and_wait Sys (uf_ring f) 1 k1 = (a, k2)" by fastforce
  obtain c k3 where comp: "ring_completion_next Sys (uf_ring f) k2 = (c, k3)" by fastforce
  show ?thesis
    using assms push wait comp by (cases b; cases a; cases c) (auto simp: submit_wait_def)
qed

lemma submit_wait_Err: "submit_wait Sys f entry k = (Err e, k') \<Longrightarrow> e \<noteq> WriteZero \<and> e \<noteq> RawOs x"
proof -
  assume sub: "submit_wait Sys f entry k = (Err e, k')"
  obtain b k1 where push: "ring_push Sys (uf_ring f) entry k = (b, k1)" by fastforce
  obtain a k2 where wait: "ring_submit_and_wait Sys (uf_ring f) 1 k1 = (a, k2)" by fastforce
  show ?thesis
    using sub push wait submit_error [of "uf_ring f" 1 k1 _ k2]
    by (cases b; cases a) (auto simp: submit_wait_def split: prod.splits option.splits)
qed

lemma submit_wait_write:
  assumes "submit_wait Sys f (SqWrite (uf_file f) chunk off) k = (Ok n, k')" and "idle (uf_ring f) k"
    and "on (uf_file f) k = Some p" and "content k p = Some bs" and "unat off \<le> length bs"
  shows "idle (uf_ring f) k' \<and> on (uf_file f) k' = Some p \<and>
    (if sint n < 0 then content k' = content k
     else unat n \<le> length chunk \<and> content k' = (content k)(p \<mapsto> overwrite (unat off) (take (unat n) chunk) bs))"
  using submit_wait_Ok [OF assms(1)] ring_write [OF _ _ _ assms(2-5)] by blast

lemma overwrite_step:
  assumes "w \<le> length buf" and "n \<le> length (take l (drop w buf))"
  shows "overwrite (length bs + w) (take n (take l (drop w buf))) (bs @ take w buf @ drop w res) =
    bs @ take (w + n) buf @ drop (w + n) res"
proof -
  have n: "n \<le> l" "w + n \<le> length buf" using assms by auto
  then have "take n (take l (drop w buf)) = take n (drop w buf)" and "length (take n (drop w buf)) = n" by auto
  then show ?thesis using assms(1) n by (simp add: overwrite_def take_add [of w n] add.commute [of n w])
qed

text \<open>The loop: the bytes written so far lie over the residue.\<close>

lemma write_from:
  assumes "uring_write_from Sys f buf w k = (r, k')" and "idle (uf_ring f) k" and "on (uf_file f) k = Some p"
    and "content k p = Some (bs @ take w buf @ drop w res)" and "w \<le> length buf"
    and "unat (uf_offset f) = length bs" and "length bs + length buf < 2 ^ 64"
    and "r = Ok () \<or> r = Err WriteZero \<or> r = Err (RawOs e)"
  shows "\<exists>m \<le> length buf. idle (uf_ring f) k' \<and> on (uf_file f) k' = Some p \<and>
    content k' = (content k)(p \<mapsto> bs @ take m buf @ drop m res) \<and> (r = Ok () \<longrightarrow> m = length buf)"
  using assms(1-5)
proof (induction "length buf - w" arbitrary: w k rule: less_induct)
  case less
  show ?case
  proof (cases "w < length buf")
    case False
    with less.prems show ?thesis
      by (intro exI [of _ "length buf"]) (auto simp: uring_write_from.simps [of Sys f buf w k] fun_upd_idem)
  next
    case True
    let ?l = "unat (of_nat (length (drop w buf)) :: u32)" and ?off = "uf_offset f + of_nat w"
    let ?chunk = "take ?l (drop w buf)"
    obtain a k1 where sub: "submit_wait Sys f (SqWrite (uf_file f) ?chunk ?off) k = (a, k1)" by fastforce
    have step: "uring_write_from Sys f buf w k = (case a of Err e \<Rightarrow> (Err e, k1) | Ok c \<Rightarrow>
        if sint c < 0 then (Err (RawOs (- c)), k1) else if c = 0 then (Err WriteZero, k1)
        else uring_write_from Sys f buf (w + unat c) k1)"
      using True sub by (subst uring_write_from.simps) (simp add: Let_def split: result.split)
    have off: "unat ?off = length bs + w"
      using True assms(6,7) by (simp add: unat_plus_of_nat)
    show ?thesis
    proof (cases a)
      case (Err e')
      with less.prems(1) step assms(8) submit_wait_Err [of f _ k e' k1 e] sub show ?thesis by auto
    next
      case (Ok c)
      have wr: "idle (uf_ring f) k1" "on (uf_file f) k1 = Some p"
          "if sint c < 0 then content k1 = content k else unat c \<le> length ?chunk \<and>
             content k1 = (content k)(p \<mapsto> bs @ take (w + unat c) buf @ drop (w + unat c) res)"
        using submit_wait_write [of f ?chunk ?off k c k1, OF _ less.prems(2,3,4)] sub Ok off True less.prems(5)
          overwrite_step [of w buf "unat c" ?l bs res] by (auto split: if_splits)
      show ?thesis
      proof (cases "sint c < 0 \<or> c = 0")
        case True
        then have "content k1 = content k" using wr(3) less.prems(4) by (auto simp: fun_upd_idem split: if_splits)
        with True Ok step less.prems wr(1,2) show ?thesis
          by (intro exI [of _ w]) (auto simp: fun_upd_idem split: if_splits)
      next
        case False
        then have c: "0 < unat c" "unat c \<le> length ?chunk" "content k1 = (content k)(p \<mapsto> bs @ take (w + unat c) buf @ drop (w + unat c) res)"
          using wr(3) by (auto simp: unat_gt_0)
        then have "w + unat c \<le> length buf" using \<open>w < length buf\<close> by auto
        with less.hyps [of "w + unat c" k1] c wr(1,2) False Ok step less.prems(1) \<open>w < length buf\<close>
        show ?thesis by auto
      qed
    qed
  qed
qed

lemma open_append_positioned:
  assumes "uring_open_append Sys p k = (Ok f, k')" and "content k p = Some bs"
  shows "positioned f p bs [] k' \<and> content k' = content k"
proof -
  from assms(1) obtain h k1 n where opened: "os_open Sys (no_options\<lparr>oo_read := True, oo_write := True\<rparr>) p k = (Ok h, k1)"
      and meta: "os_metadata_len Sys h k1 = Ok n" and ring: "uring_file_open Sys h n k1 = (Ok f, k')"
    by (auto simp: uring_open_append_def sbind_Ok_iff)
  from open_existing [OF opened] have h: "content k1 = content k" "on h k1 = Some p" by (simp_all add: no_options_def)
  from ring obtain r where r: "ring_new Sys 4 k1 = (Ok r, k')" "f = \<lparr>uf_file = h, uf_ring = r, uf_offset = n\<rparr>"
    by (auto simp: uring_file_open_def sbind_Ok_iff)
  with new_ring [OF r(1)] metadata_len [OF meta h(2)] h assms(2) show ?thesis by (auto simp: positioned_def)
qed

lemma create_new_positioned:
  assumes "uring_create_new Sys p k = (Ok f, k')"
  shows "positioned f p [] [] k' \<and> content k p = None \<and> content k' = (content k)(p \<mapsto> [])"
proof -
  from assms(1) obtain h k1 where opened: "os_open Sys (no_options\<lparr>oo_read := True, oo_write := True, oo_create_new := True\<rparr>) p k = (Ok h, k1)"
      and ring: "uring_file_open Sys h 0 k1 = (Ok f, k')"
    by (auto simp: uring_create_new_def sbind_Ok_iff)
  from open_new [OF opened] have h: "content k p = None" "content k1 = (content k)(p \<mapsto> [])" "on h k1 = Some p" by (simp_all add: no_options_def)
  from ring obtain r where r: "ring_new Sys 4 k1 = (Ok r, k')" "f = \<lparr>uf_file = h, uf_ring = r, uf_offset = 0\<rparr>"
    by (auto simp: uring_file_open_def sbind_Ok_iff)
  with new_ring [OF r(1)] h show ?thesis by (auto simp: positioned_def)
qed

text \<open>A write that succeeds replaces the residue from its start on; one that fails leaves another residue and the same offset.\<close>

lemma write_all_positioned:
  assumes "uring_write_all Sys f buf k = (Ok (), f', k')" and "positioned f p bs res k" and "length bs + length buf < 2 ^ 64"
  shows "positioned f' p (bs @ buf) (drop (length buf) res) k' \<and> content k' = (content k)(p \<mapsto> bs @ buf @ drop (length buf) res)"
proof -
  from assms(1) have loop: "uring_write_from Sys f buf 0 k = (Ok (), k')" and f': "f' = f\<lparr>uf_offset := uf_offset f + of_nat (length buf)\<rparr>"
    by (auto simp: uring_write_all_def split: prod.splits result.splits)
  from write_from [OF loop] assms(2,3) show ?thesis
    by (auto simp: positioned_def f' unat_plus_of_nat)
qed

lemma write_all_failed:
  assumes "uring_write_all Sys f buf k = (Err e, f', k')" and "e = WriteZero \<or> e = RawOs x"
    and "positioned f p bs res k" and "length bs + length buf < 2 ^ 64"
  shows "\<exists>m \<le> length buf. f' = f \<and> positioned f p bs (take m buf @ drop m res) k' \<and>
    content k' = (content k)(p \<mapsto> bs @ take m buf @ drop m res)"
proof -
  from assms(1) have loop: "uring_write_from Sys f buf 0 k = (Err e, k')" and f': "f' = f"
    by (auto simp: uring_write_all_def split: prod.splits result.splits)
  from write_from [OF loop, of p bs res x] assms(2-4) show ?thesis
    by (auto simp: positioned_def f')
qed

lemma sync_data_positioned:
  assumes "uring_sync_data Sys f k = (Ok (), k')" and "positioned f p bs res k"
  shows "positioned f p bs res k' \<and> content k' = content k \<and> stable k' p = Some (bs @ res)"
proof -
  from assms(1) obtain n where sub: "submit_wait Sys f (SqFdatasync (uf_file f)) k = (Ok n, k')" and n: "0 \<le> sint n"
    by (auto simp: uring_sync_data_def sbind_Ok_iff split: if_splits)
  from submit_wait_Ok [OF sub] obtain k1 k2 where "ring_push Sys (uf_ring f) (SqFdatasync (uf_file f)) k = (True, k1)"
      "ring_submit_and_wait Sys (uf_ring f) 1 k1 = (Ok (), k2)" "ring_completion_next Sys (uf_ring f) k2 = (Some n, k')" by blast
  from ring_fdatasync [OF this] assms(2) n show ?thesis by (auto simp: positioned_def)
qed

lemma len_positioned:
  assumes "uring_len Sys f k = Ok n" and "positioned f p bs res k"
  shows "unat n = length bs + length res"
proof -
  from assms(1) obtain m where m: "os_metadata_len Sys (uf_file f) k = Ok m" "n = max (uf_offset f) m"
    by (auto simp: uring_len_def rbind_Ok_iff)
  with metadata_len [OF m(1)] assms(2) show ?thesis by (auto simp: positioned_def max_def word_le_nat_alt)
qed

lemma truncates:
  assumes "uring_truncate Sys p n k = (Ok (), k')" and "content k p = Some bs" and "unat n \<le> length bs"
  shows "content k' = (content k)(p \<mapsto> take (unat n) bs) \<and> stable k' p = Some (take (unat n) bs)"
proof -
  from assms(1) obtain h k1 k2 where opened: "os_open Sys (no_options\<lparr>oo_write := True\<rparr>) p k = (Ok h, k1)"
      and cut: "os_set_len Sys h n k1 = (Ok (), k2)" and sync: "os_sync_all Sys h k2 = (Ok (), k')"
    by (auto simp: uring_truncate_def sbind_Ok_iff)
  from open_existing [OF opened] have h: "content k1 = content k" "on h k1 = Some p" by (simp_all add: no_options_def)
  with set_len [OF cut h(2)] assms(2,3) sync_all [OF sync] show ?thesis by auto
qed

text \<open>The standard library's file: an append-mode handle writes at the end.\<close>

lemma real_open_append_handle:
  assumes "real_open_append Sys p k = (Ok h, k')"
  shows "content k' = content k \<and> on h k' = Some p \<and> appends h"
  using open_existing [OF assms [unfolded real_open_append_def]] by (simp add: no_options_def)

lemma real_appends:
  assumes "real_open_append Sys p k = (Ok h, k1)" and "real_write_all Sys h buf k1 = (Ok (), k2)"
    and "real_sync_data Sys h k2 = (Ok (), k3)" and "content k p = Some bs"
  shows "content k3 = (content k)(p \<mapsto> bs @ buf) \<and> stable k3 p = Some (bs @ buf)"
  using real_open_append_handle [OF assms(1)] write_all [OF assms(2) [unfolded real_write_all_def]]
    sync_data [OF assms(3) [unfolded real_sync_data_def]] assms(4) by auto

lemma uring_appends:
  assumes "uring_open_append Sys p k = (Ok f, k1)" and "uring_write_all Sys f buf k1 = (Ok (), f', k2)"
    and "uring_sync_data Sys f' k2 = (Ok (), k3)" and "content k p = Some bs" and "length bs + length buf < 2 ^ 64"
  shows "content k3 = (content k)(p \<mapsto> bs @ buf) \<and> stable k3 p = Some (bs @ buf)"
proof -
  from open_append_positioned [OF assms(1,4)] have k1: "positioned f p bs [] k1" "content k1 = content k" by simp_all
  from write_all_positioned [OF assms(2) k1(1) assms(5)] k1(2)
  have k2: "positioned f' p (bs @ buf) [] k2" "content k2 = (content k)(p \<mapsto> bs @ buf)" by simp_all
  from sync_data_positioned [OF assms(3) k2(1)] k2(2) show ?thesis by simp
qed

lemma uring_retry:
  assumes "uring_open_append Sys p k = (Ok f, k1)" and "uring_write_all Sys f buf k1 = (Err e, f', k2)"
    and "e = WriteZero \<or> (\<exists>x. e = RawOs x)" and "uring_write_all Sys f' buf k2 = (Ok (), f'', k3)"
    and "uring_sync_data Sys f'' k3 = (Ok (), k4)" and "content k p = Some bs" and "length bs + length buf < 2 ^ 64"
  shows "content k4 = (content k)(p \<mapsto> bs @ buf) \<and> stable k4 p = Some (bs @ buf)"
proof -
  from assms(3) obtain x where x: "e = WriteZero \<or> e = RawOs x" by blast
  from open_append_positioned [OF assms(1,6)] have k1: "positioned f p bs [] k1" "content k1 = content k" by simp_all
  from write_all_failed [OF assms(2) x k1(1) assms(7)] k1(2)
  obtain m where m: "m \<le> length buf" "positioned f' p bs (take m buf) k2" "content k2 = (content k)(p \<mapsto> bs @ take m buf)" by auto
  from write_all_positioned [OF assms(4) m(2) assms(7)] m(1,3)
  have k3: "positioned f'' p (bs @ buf) [] k3" "content k3 = (content k)(p \<mapsto> bs @ buf)" by simp_all
  from sync_data_positioned [OF assms(5) k3(1)] k3(2) show ?thesis by simp
qed

end

section \<open>An executable kernel\<close>

text \<open>
  A page cache over a device, with rings that do at most \<open>m\<close> bytes of a write at a time. A file is its entry nearest
  to the front: its content and what is on the device.
\<close>

datatype handle = FileH path bool bool | DirH string

record kernel =
  kn_files :: "(path \<times> bytes \<times> bytes) list"
  kn_sq :: "handle sqe list"
  kn_cq :: "i32 list"

fun handle_file :: "handle \<Rightarrow> kernel \<Rightarrow> path option" where
  "handle_file (FileH p writable _) k = (if writable \<and> map_of (kn_files k) p \<noteq> None then Some p else None)"
| "handle_file (DirH _) k = None"

fun handle_appends :: "handle \<Rightarrow> bool" where
  "handle_appends (FileH _ _ a) = a"
| "handle_appends (DirH _) = False"

definition kernel_content :: "kernel \<Rightarrow> path \<Rightarrow> bytes option" where
  "kernel_content k p = map_option fst (map_of (kn_files k) p)"

definition kernel_stable :: "kernel \<Rightarrow> path \<Rightarrow> bytes option" where
  "kernel_stable k p = map_option snd (map_of (kn_files k) p)"

definition kernel_put :: "path \<Rightarrow> bytes \<Rightarrow> bytes \<Rightarrow> kernel \<Rightarrow> kernel" where
  "kernel_put p c s k = k\<lparr>kn_files := (p, c, s) # kn_files k\<rparr>"

text \<open>Changing the content of the file of a handle.\<close>

definition kernel_change :: "(bytes \<Rightarrow> bytes) \<Rightarrow> handle \<Rightarrow> kernel \<Rightarrow> (unit, unit, kernel) sys" where
  "kernel_change g h k =
     (case handle_file h k of None \<Rightarrow> (Err (Os ()), k)
      | Some p \<Rightarrow> (case map_of (kn_files k) p of None \<Rightarrow> (Err (Os ()), k) | Some (c, s) \<Rightarrow> (Ok (), kernel_put p (g c) s k)))"

definition kernel_sync :: "handle \<Rightarrow> kernel \<Rightarrow> (unit, unit, kernel) sys" where
  "kernel_sync h k =
     (case handle_file h k of None \<Rightarrow> (Err (Os ()), k)
      | Some p \<Rightarrow> (case map_of (kn_files k) p of None \<Rightarrow> (Err (Os ()), k) | Some (c, s) \<Rightarrow> (Ok (), kernel_put p c c k)))"

definition errno_result :: "nat \<Rightarrow> (unit, unit, kernel) sys \<Rightarrow> i32 \<times> kernel" where
  "errno_result n r = (case r of (Ok _, k) \<Rightarrow> (of_nat n, k) | (Err _, k) \<Rightarrow> (- 9, k))"

fun run_sqe :: "nat \<Rightarrow> handle sqe \<Rightarrow> kernel \<Rightarrow> i32 \<times> kernel" where
  "run_sqe m (SqWrite h chunk off) k =
     (let n = min (min m 64) (length chunk) in errno_result n (kernel_change (overwrite (unat off) (take n chunk)) h k))"
| "run_sqe m (SqFdatasync h) k = errno_result 0 (kernel_sync h k)"

fun run_sqes :: "nat \<Rightarrow> handle sqe list \<Rightarrow> kernel \<Rightarrow> kernel" where
  "run_sqes m [] k = k"
| "run_sqes m (e # es) k = (let (n, k) = run_sqe m e k in run_sqes m es (k\<lparr>kn_cq := kn_cq k @ [n]\<rparr>))"

definition kernel_open :: "open_options \<Rightarrow> path \<Rightarrow> kernel \<Rightarrow> (handle, unit, kernel) sys" where
  "kernel_open opts p k =
     (let h = FileH p (oo_write opts \<or> oo_append opts) (oo_append opts)
      in if oo_create_new opts then if map_of (kn_files k) p = None then (Ok h, kernel_put p [] [] k) else (Err (Os ()), k)
         else if map_of (kn_files k) p = None then (Err (Os ()), k) else (Ok h, k))"

definition kernel_os :: "nat \<Rightarrow> (kernel, handle, unit, unit) os" where
  "kernel_os m = \<lparr>
     os_create_dir_all = (\<lambda>dir k. (Ok (), k)),
     os_read_dir = (\<lambda>dir k. Ok (map Ok (remdups (filter (\<lambda>p. fst p = dir) (map fst (kn_files k)))))),
     os_open = kernel_open,
     os_open_dir = (\<lambda>dir k. (Ok (DirH dir), k)),
     os_read_to_end = (\<lambda>h k. case h of DirH _ \<Rightarrow> Err (Os ())
       | FileH p _ _ \<Rightarrow> (case kernel_content k p of None \<Rightarrow> Err (Os ()) | Some bs \<Rightarrow> Ok bs)),
     os_write_all = (\<lambda>h buf. kernel_change (\<lambda>c. if handle_appends h then c @ buf else overwrite 0 buf c) h),
     os_metadata_len = (\<lambda>h k. case handle_file h k of None \<Rightarrow> Err (Os ())
       | Some p \<Rightarrow> (case kernel_content k p of None \<Rightarrow> Err (Os ())
           | Some bs \<Rightarrow> if unat (of_nat (length bs) :: u64) = length bs then Ok (of_nat (length bs)) else Err (Os ()))),
     os_set_len = (\<lambda>h n. kernel_change (\<lambda>c. take (unat n) c @ replicate (unat n - length c) 0) h),
     os_sync_data = kernel_sync,
     os_sync_all = kernel_sync,
     os_remove_file = (\<lambda>p k. if map_of (kn_files k) p = None then (Err (Os ()), k)
       else (Ok (), k\<lparr>kn_files := filter (\<lambda>f. fst f \<noteq> p) (kn_files k)\<rparr>)),
     ring_new = (\<lambda>depth k. (Ok (), k\<lparr>kn_sq := [], kn_cq := []\<rparr>)),
     ring_push = (\<lambda>r e k. if length (kn_sq k) < 4 then (True, k\<lparr>kn_sq := kn_sq k @ [e]\<rparr>) else (False, k)),
     ring_submit_and_wait = (\<lambda>r want k. (Ok (), run_sqes m (kn_sq k) (k\<lparr>kn_sq := []\<rparr>))),
     ring_completion_next = (\<lambda>r k. case kn_cq k of [] \<Rightarrow> (None, k) | n # ns \<Rightarrow> (Some n, k\<lparr>kn_cq := ns\<rparr>))\<rparr>"

definition kernel_idle :: "unit \<Rightarrow> kernel \<Rightarrow> bool" where
  "kernel_idle r k \<longleftrightarrow> kn_sq k = [] \<and> kn_cq k = []"

lemma handle_file_cong: "kn_files k' = kn_files k \<Longrightarrow> handle_file h k' = handle_file h k"
  by (cases h) simp_all

lemma kernel_change_Ok:
  assumes "handle_file h k = Some p" and "kernel_content k p = Some bs"
  shows "\<exists>k'. kernel_change g h k = (Ok (), k') \<and> kernel_content k' = (kernel_content k)(p \<mapsto> g bs) \<and>
    handle_file h k' = Some p \<and> kn_sq k' = kn_sq k \<and> kn_cq k' = kn_cq k"
proof -
  from assms(2) obtain s where "map_of (kn_files k) p = Some (bs, s)" by (auto simp: kernel_content_def)
  with assms(1) show ?thesis
    by (cases h) (auto simp: kernel_change_def kernel_put_def kernel_content_def split: if_splits)
qed

lemma kernel_sync_Ok:
  assumes "handle_file h k = Some p"
  shows "\<exists>k'. kernel_sync h k = (Ok (), k') \<and> kernel_content k' = kernel_content k \<and>
    kernel_stable k' p = kernel_content k p \<and> handle_file h k' = Some p \<and> kn_sq k' = kn_sq k \<and> kn_cq k' = kn_cq k"
proof -
  from assms obtain c s where "map_of (kn_files k) p = Some (c, s)" by (cases h) (auto split: if_splits)
  with assms show ?thesis
    by (cases h) (auto simp: kernel_sync_def kernel_put_def kernel_content_def kernel_stable_def fun_eq_iff split: if_splits)
qed

lemma handle_file_content: "handle_file h k = Some p \<Longrightarrow> kernel_content k p \<noteq> None"
  by (cases h) (auto simp: kernel_content_def split: if_splits)

lemma small_i32:
  assumes "n \<le> 64"
  shows "unat (of_nat n :: i32) = n" and "0 \<le> sint (of_nat n :: i32)"
proof -
  from assms show "unat (of_nat n :: i32) = n" by (simp add: unat_of_nat take_bit_nat_eq_self)
  from assms show "0 \<le> sint (of_nat n :: i32)"
    by (simp add: signed_of_nat signed_take_bit_int_eq_self)
qed

interpretation kern: os_laws "kernel_os m" kernel_content kernel_stable handle_file handle_appends kernel_idle for m
proof (unfold_locales, unfold kernel_os_def os.simps)
  fix opts p k h k'
  assume "kernel_open opts p k = (Ok h, k')"
  then show "\<not> oo_create_new opts \<Longrightarrow> kernel_content k p \<noteq> None \<and> kernel_content k' = kernel_content k \<and>
      handle_appends h = oo_append opts \<and> (oo_write opts \<or> oo_append opts \<longrightarrow> handle_file h k' = Some p)"
    and "oo_create_new opts \<Longrightarrow> oo_write opts \<or> oo_append opts \<Longrightarrow> kernel_content k p = None \<and>
      kernel_content k' = (kernel_content k)(p \<mapsto> []) \<and> handle_appends h = oo_append opts \<and> handle_file h k' = Some p"
    by (auto simp: kernel_open_def kernel_put_def kernel_content_def Let_def split: if_splits)
next
  fix h k and n :: u64 and p
  assume "(case handle_file h k of None \<Rightarrow> Err (Os ())
       | Some p \<Rightarrow> (case kernel_content k p of None \<Rightarrow> Err (Os ())
           | Some bs \<Rightarrow> if unat (of_nat (length bs) :: u64) = length bs then Ok (of_nat (length bs)) else Err (Os ()))) = Ok n" and "handle_file h k = Some p"
  then show "\<exists>bs. kernel_content k p = Some bs \<and> unat n = length bs"
    by (auto simp: unat_of_nat_small split: option.splits if_splits)
next
  fix h buf k k' p bs
  assume "kernel_change (\<lambda>c. if handle_appends h then c @ buf else overwrite 0 buf c) h k = (Ok (), k')"
    and "handle_file h k = Some p" "handle_appends h" "kernel_content k p = Some bs"
  then show "kernel_content k' = (kernel_content k)(p \<mapsto> bs @ buf) \<and> handle_file h k' = Some p"
    using kernel_change_Ok [of h k p bs "\<lambda>c. if handle_appends h then c @ buf else overwrite 0 buf c"] by auto
next
  fix h k k' p
  assume "kernel_sync h k = (Ok (), k')" and "handle_file h k = Some p"
  then show "kernel_content k' = kernel_content k \<and> kernel_stable k' p = kernel_content k p \<and> handle_file h k' = Some p"
    and "kernel_content k' = kernel_content k \<and> kernel_stable k' p = kernel_content k p"
    using kernel_sync_Ok [of h k p] by auto
next
  fix h k k' p bs and n :: u64
  assume "kernel_change (\<lambda>c. take (unat n) c @ replicate (unat n - length c) 0) h k = (Ok (), k')"
    and "handle_file h k = Some p" "kernel_content k p = Some bs"
  then show "kernel_content k' = (kernel_content k)(p \<mapsto> take (unat n) bs @ replicate (unat n - length bs) 0) \<and> handle_file h k' = Some p"
    using kernel_change_Ok [of h k p bs "\<lambda>c. take (unat n) c @ replicate (unat n - length c) 0"] by auto
next
  fix depth k r k'
  assume "(Ok (), k\<lparr>kn_sq := [], kn_cq := []\<rparr>) = (Ok r, k' :: kernel)"
  then show "kernel_idle r k' \<and> kernel_content k' = kernel_content k \<and> (\<forall>h. handle_file h k' = handle_file h k)"
    by (auto simp: kernel_idle_def kernel_content_def fun_eq_iff intro!: handle_file_cong)
next
  fix r want k k' and e :: "unit os_error"
  assume "(Ok (), run_sqes m (kn_sq k) (k\<lparr>kn_sq := []\<rparr>)) = (Err e, k')"
  then show "\<exists>x. e = Os x" by simp
next
  fix r h chunk off k k1 k2 c k' p bs
  assume k1: "(if length (kn_sq k) < 4 then (True, k\<lparr>kn_sq := kn_sq k @ [SqWrite h chunk off]\<rparr>) else (False, k)) = (True, k1)"
    and k2: "(Ok (), run_sqes m (kn_sq k1) (k1\<lparr>kn_sq := []\<rparr>)) = (Ok (), k2)"
    and k': "(case kn_cq k2 of [] \<Rightarrow> (None, k2) | n # ns \<Rightarrow> (Some n, k2\<lparr>kn_cq := ns\<rparr>)) = (Some c, k')"
    and k: "kernel_idle r k" "handle_file h k = Some p" "kernel_content k p = Some bs"
  let ?n = "min (min m 64) (length chunk)"
  obtain k3 where k3: "kernel_change (overwrite (unat off) (take ?n chunk)) h k = (Ok (), k3)"
      "kernel_content k3 = (kernel_content k)(p \<mapsto> overwrite (unat off) (take ?n chunk) bs)" "handle_file h k3 = Some p" "kn_sq k3 = []" "kn_cq k3 = []"
    using kernel_change_Ok [OF k(2,3), of "overwrite (unat off) (take ?n chunk)"] k(1) by (auto simp: kernel_idle_def)
  have kk: "k1\<lparr>kn_sq := []\<rparr> = k" "kn_sq k1 = [SqWrite h chunk off]" using k1 k(1) by (auto simp: kernel_idle_def split: if_splits)
  have "k2 = k3\<lparr>kn_cq := [of_nat ?n]\<rparr>" using k2 kk k3(1,5) by (simp add: Let_def errno_result_def)
  then have "c = of_nat ?n" "k' = k3" using k' k3(5) by (cases k3, auto)+
  moreover have "?n \<le> 64" by simp
  then have "unat (of_nat ?n :: i32) = ?n" "\<not> sint (of_nat ?n :: i32) < 0" using small_i32 [of ?n] by linarith+
  ultimately show "kernel_idle r k' \<and> handle_file h k' = Some p \<and>
      (if sint c < 0 then kernel_content k' = kernel_content k
       else unat c \<le> length chunk \<and> kernel_content k' = (kernel_content k)(p \<mapsto> overwrite (unat off) (take (unat c) chunk) bs))"
    using k3 by (simp add: kernel_idle_def)
next
  fix r h k k1 k2 c k' p
  assume k1: "(if length (kn_sq k) < 4 then (True, k\<lparr>kn_sq := kn_sq k @ [SqFdatasync h]\<rparr>) else (False, k)) = (True, k1)"
    and k2: "(Ok (), run_sqes m (kn_sq k1) (k1\<lparr>kn_sq := []\<rparr>)) = (Ok (), k2)"
    and k': "(case kn_cq k2 of [] \<Rightarrow> (None, k2) | n # ns \<Rightarrow> (Some n, k2\<lparr>kn_cq := ns\<rparr>)) = (Some c, k')"
    and k: "kernel_idle r k" "handle_file h k = Some p"
  obtain k3 where k3: "kernel_sync h k = (Ok (), k3)" "kernel_content k3 = kernel_content k" "kernel_stable k3 p = kernel_content k p"
      "handle_file h k3 = Some p" "kn_sq k3 = []" "kn_cq k3 = []"
    using kernel_sync_Ok [OF k(2)] k(1) by (auto simp: kernel_idle_def)
  have kk: "k1\<lparr>kn_sq := []\<rparr> = k" "kn_sq k1 = [SqFdatasync h]" using k1 k(1) by (auto simp: kernel_idle_def split: if_splits)
  have "k2 = k3\<lparr>kn_cq := [0]\<rparr>" using k2 kk k3(1,6) by (simp add: Let_def errno_result_def)
  then have "k' = k3" using k' k3(6) by (cases k3) auto
  then show "kernel_idle r k' \<and> handle_file h k' = Some p \<and> kernel_content k' = kernel_content k \<and>
      (0 \<le> sint c \<longrightarrow> kernel_stable k' p = kernel_content k p)"
    using k3 by (auto simp: kernel_idle_def)
qed

section \<open>Properties\<close>

text \<open>
  C21. The production storages keep the contract of an append. On a system that behaves as documented, opening a file with
  \<open>open_append\<close>, writing and syncing leaves the old content followed by the new bytes, on the device, and no other file
  changed; the io_uring path does so however the kernel cuts the writes into pieces, and so both storages leave the same file. The loop over
  short writes ends, with success if no completion reports a failure. A write that the ring
  reports as failed leaves a part of the bytes but not a moved offset: a second attempt overwrites that part, and the file is as if
  the first had not been.
\<close>

theorem storage_backends_append:
  assumes "os_laws Sys content device on appends idle" and "content k p = Some bs" and "length bs + length buf < 2 ^ 64"
  shows "(\<forall>h k1 k2 k3. real_open_append Sys p k = (Ok h, k1) \<and> real_write_all Sys h buf k1 = (Ok (), k2) \<and>
        real_sync_data Sys h k2 = (Ok (), k3) \<longrightarrow> content k3 = (content k)(p \<mapsto> bs @ buf) \<and> device k3 p = Some (bs @ buf)) \<and>
    (\<forall>f f' k1 k2 k3. uring_open_append Sys p k = (Ok f, k1) \<and> uring_write_all Sys f buf k1 = (Ok (), f', k2) \<and>
        uring_sync_data Sys f' k2 = (Ok (), k3) \<longrightarrow> content k3 = (content k)(p \<mapsto> bs @ buf) \<and> device k3 p = Some (bs @ buf)) \<and>
    (\<forall>f k1. length buf < 2 ^ 32 \<and> (\<forall>chunk off k. chunk \<noteq> [] \<longrightarrow>
          (\<exists>n k'. submit_wait Sys f (SqWrite (uf_file f) chunk off) k = (Ok n, k') \<and> 0 < sint n)) \<longrightarrow>
        (\<exists>f' k2. uring_write_all Sys f buf k1 = (Ok (), f', k2))) \<and>
    (\<forall>f f' f'' e k1 k2 k3 k4. uring_open_append Sys p k = (Ok f, k1) \<and> uring_write_all Sys f buf k1 = (Err e, f', k2) \<and>
        (e = WriteZero \<or> (\<exists>x. e = RawOs x)) \<and> uring_write_all Sys f' buf k2 = (Ok (), f'', k3) \<and>
        uring_sync_data Sys f'' k3 = (Ok (), k4) \<longrightarrow> content k4 = (content k)(p \<mapsto> bs @ buf) \<and> device k4 p = Some (bs @ buf))"
  using os_laws.real_appends [OF assms(1) _ _ _ assms(2)] os_laws.uring_appends [OF assms(1) _ _ _ assms(2,3)]
    uring_write_all_succeeds [of buf Sys] os_laws.uring_retry [OF assms(1) _ _ _ _ _ assms(2,3)]
  by (intro conjI allI impI; elim conjE) simp_all

definition short_kernel :: kernel where
  "short_kernel = \<lparr>kn_files = [((''/j'', ''1.seg''), [1, 2], [1, 2])], kn_sq = [], kn_cq = []\<rparr>"

text \<open>Eight bytes through a ring that does three at a time.\<close>

theorem storage_backends_append_witness:
  "\<exists>(f :: (handle, unit) uring_file) f' k1 k2 k3. uring_open_append (kernel_os 3) (''/j'', ''1.seg'') short_kernel = (Ok f, k1) \<and>
     uring_write_all (kernel_os 3) f [3, 4, 5, 6, 7, 8, 9, 10] k1 = (Ok (), f', k2) \<and>
     uring_sync_data (kernel_os 3) f' k2 = (Ok (), k3) \<and>
     kernel_content k3 (''/j'', ''1.seg'') = Some [1, 2, 3, 4, 5, 6, 7, 8, 9, 10] \<and>
     kernel_stable k3 (''/j'', ''1.seg'') = Some [1, 2, 3, 4, 5, 6, 7, 8, 9, 10]"
proof -
  let ?p = "(''/j'', ''1.seg'')" and ?buf = "[3, 4, 5, 6, 7, 8, 9, 10]"
  have k: "kernel_content short_kernel ?p = Some [1, 2]" by code_simp
  obtain a k1 where op: "uring_open_append (kernel_os 3) ?p short_kernel = (a, k1)" by fastforce
  moreover have "is_ok (fst (uring_open_append (kernel_os 3) ?p short_kernel))" by code_simp
  ultimately obtain f where f: "a = Ok f" by (cases a) auto
  obtain b f' k2 where wr: "uring_write_all (kernel_os 3) f ?buf k1 = (b, f', k2)" by (metis prod_cases3)
  obtain c k3 where sy: "uring_sync_data (kernel_os 3) f' k2 = (c, k3)" by fastforce
  have "case uring_open_append (kernel_os 3) ?p short_kernel of (Err e, k) \<Rightarrow> False | (Ok f, k1) \<Rightarrow>
      (case uring_write_all (kernel_os 3) f ?buf k1 of (b, f', k2) \<Rightarrow> is_ok b \<and> is_ok (fst (uring_sync_data (kernel_os 3) f' k2)))"
    by code_simp
  then have "is_ok b" "is_ok c" unfolding op f by (simp_all add: wr sy)
  then have "b = Ok ()" "c = Ok ()" by (simp_all add: is_ok_def split: result.splits)
  with op f wr sy have run: "uring_open_append (kernel_os 3) ?p short_kernel = (Ok f, k1)"
      "uring_write_all (kernel_os 3) f ?buf k1 = (Ok (), f', k2)" "uring_sync_data (kernel_os 3) f' k2 = (Ok (), k3)"
    by simp_all
  have len: "length [1, 2 :: u8] + length (?buf :: bytes) < 2 ^ 64" by simp
  note appended = storage_backends_append [OF kern.os_laws_axioms [of 3], OF k len, THEN conjunct2, THEN conjunct1]
  have "kernel_content k3 = (kernel_content short_kernel)(?p \<mapsto> [1, 2] @ ?buf) \<and> kernel_stable k3 ?p = Some ([1, 2] @ ?buf)"
    using appended run by blast
  then have "kernel_content k3 ?p = Some [1, 2, 3, 4, 5, 6, 7, 8, 9, 10]" "kernel_stable k3 ?p = Some [1, 2, 3, 4, 5, 6, 7, 8, 9, 10]" by simp_all
  with run show ?thesis by (intro exI conjI)
qed

end
