(* ===== verification/Journal_Faults.thy ===== *)
theory Journal_Faults
  imports Journal_Props
begin

text \<open>
  What the journal does after a write that failed part-way. The contract of \<open>write_all\<close> leaves open how much of the buffer a
  failed call has stored; an append-mode file keeps those bytes. \<open>torn_write\<close> is the storage in such a call. The journal
  (\<open>ticktape-journal/src/lib.rs\<close>) returns the error with its state unchanged and accepts the next append, which lands behind them.
  The same storage stops \<open>roll_segment\<close> at any moment between creating the next segment file and syncing its header, where a
  power loss then finds it.
\<close>

definition torn_write :: "nat \<Rightarrow> ('d, 'f) storage \<Rightarrow> ('d, 'f) storage" where
  "torn_write m S = S\<lparr>st_write_all := (\<lambda>h buf d. (Err BrokenPipe, snd (st_write_all S h (take m buf) d)))\<rparr>"

lemma append_current:
  assumes "j_current j = Some seg" and "f_seq f = seq_next (j_last_seq j)" and "\<not> needs_roll j (frame_encoded_len f)"
  shows "journal_append S now f j d = write_encoded S now (frame_write f) 1 (f_seq f) j d"
  using assms by (simp add: journal_append_def Let_def)

context storage_laws
begin

lemma torn_append_fails:
  assumes "j_current j = Some seg" and "f_seq f = seq_next (j_last_seq j)" and "\<not> needs_roll j (frame_encoded_len f)"
    and "st_write_all S (os_file seg) (take m (frame_write f)) d = (Ok (), d1)"
  shows "journal_append (torn_write m S) now f j d = (Err (Io BrokenPipe), j, d1)"
  using assms by (simp add: append_current write_encoded_def torn_write_def jio_def)

text \<open>Bytes behind the frames of the active segment, written and synced.\<close>

lemma written_behind:
  assumes disk: "on_disk dir gs act k [] d" and fresh: "sg_path dir act \<notin> sg_path dir ` set gs" and "t \<noteq> []"
    and "ok d'" and "content d' = (content d)(sg_path dir act \<mapsto> sg_bytes act @ t)"
    and "\<forall>p. p \<noteq> sg_path dir act \<longrightarrow> stable d' p = stable d p"
  shows "on_disk dir gs act k' t d'"
proof -
  have "sealed_on dir d' g" if g: "g \<in> set gs" for g
  proof -
    have "sg_path dir g \<noteq> sg_path dir act" using g fresh by (metis image_eqI)
    with g disk assms(5) assms(6) [rule_format, OF this] show ?thesis by (simp add: on_disk_def sealed_on_def)
  qed
  moreover have "seg_files dir d' = seg_files dir d"
    using disk assms(5) by (auto simp: seg_files_def on_disk_def)
  ultimately show ?thesis using disk assms(3-5) by (simp add: on_disk_def)
qed

lemma torn_append_lost:
  assumes inv: "jinv s gs act k j d" and seg: "j_current j = Some seg" and f: "f_seq f = seq_next (j_last_seq j)"
    and roll: "\<not> needs_roll j (frame_encoded_len f)" and x: "x \<noteq> []" and bad: "frame_read (x @ frame_write f) = Err e"
    and fsync: "jc_fsync (j_config j) = EveryFrame"
  shows "\<exists>d1 j' d2 rec d3. st_write_all S (os_file seg) x d = (Ok (), d1) \<and> journal_append S now f j d1 = (Ok (), j', d2) \<and>
    \<not> j_dirty j' \<and> j_last_seq j' = f_seq f \<and> journal_open_with S now' (j_config j) d2 = (Ok rec, d3) \<and>
    re_frames rec = layout_frames (gs @ [act]) \<and> re_truncated_torn_tail rec"
proof -
  let ?dir = "jc_dir (j_config j)" and ?w = "frame_write f"
  let ?p = "sg_path ?dir act"
  have disk: "on_disk ?dir gs act k [] d" and wf: "wf_layout s (gs @ [act])" using inv by (simp_all add: jinv_def)
  have okd: "ok d" and c: "content d ?p = Some (sg_bytes act)" using disk by (simp_all add: on_disk_def)
  have live: "live (os_file seg) d = Some ?p" using inv seg by (auto simp: jinv_def at_tail_def)
  from write_all [OF okd live c, of x] obtain d1 where d1: "st_write_all S (os_file seg) x d = (Ok (), d1)" "ok d1"
      "content d1 = (content d)(?p \<mapsto> sg_bytes act @ x)" "stable d1 = stable d" "live (os_file seg) d1 = Some ?p"
    using live by metis
  from write_all [OF d1(2,5), of "sg_bytes act @ x" ?w] d1(3) obtain d1' where
    d1': "st_write_all S (os_file seg) ?w d1 = (Ok (), d1')" "ok d1'" "content d1' = (content d1)(?p \<mapsto> (sg_bytes act @ x) @ ?w)"
      "stable d1' = stable d1" "live (os_file seg) d1' = Some ?p"
    using d1(5) by (metis fun_upd_same)
  from sync_data [OF d1'(2,5)] obtain d2 where d2: "st_sync_data S (os_file seg) d1' = (Ok (), d2)" "ok d2" "content d2 = content d1'"
      "stable d2 = (stable d1')(?p := content d1' ?p)" by blast
  let ?j = "j\<lparr>j_current := Some (seg\<lparr>os_size := os_size seg + length ?w, os_frames := os_frames seg + 1\<rparr>),
      j_last_seq := f_seq f, j_dirty := False, j_last_sync := now\<rparr>"
  have app: "journal_append S now f j d1 = (Ok (), ?j, d2)"
    using d1'(1) d2(1) fsync
    by (simp add: append_current [OF seg f roll] write_encoded_def seg maybe_sync_def journal_sync_def jio_def Let_def)
  have "content d2 = (content d)(?p \<mapsto> sg_bytes act @ x @ ?w)" "\<forall>q. q \<noteq> ?p \<longrightarrow> stable d2 q = stable d q"
    using d1(3,4) d1'(3,4) d2(3,4) by simp_all
  from written_behind [OF disk wf_layout_active_fresh [OF wf] _ d2(2) this, of k] x have "on_disk ?dir gs act k (x @ ?w) d2" by simp
  from open_inner_on_disk [OF this wf, of now'] bad x
  obtain j'' meta d3 where op: "open_inner S now' (j_config j) d2 = (Ok (j'', meta, layout_frames (gs @ [act])), d3)"
      "rm_truncated_torn_tail meta" by (auto simp: torn_def simp del: layout_frames_simps)
  then obtain rec where "journal_open_with S now' (j_config j) d2 = (Ok rec, d3)" "re_frames rec = layout_frames (gs @ [act])"
      "re_truncated_torn_tail rec" by (simp add: journal_open_with_def del: layout_frames_simps)
  with d1(1) app show ?thesis by (intro exI conjI) (auto simp del: layout_frames_simps)
qed

end

section \<open>Power lost inside a roll\<close>

context storage_laws
begin

text \<open>All segments are sealed and hold frames: the state between the two steps of \<open>roll_segment\<close>.\<close>

definition sealed_layout :: "string \<Rightarrow> seq \<Rightarrow> segment list \<Rightarrow> 'd \<Rightarrow> bool" where
  "sealed_layout dir s gs d \<longleftrightarrow> ok d \<and> seg_files dir d = sg_path dir ` set gs \<and>
     (\<forall>g \<in> set gs. sealed_on dir d g \<and> sg_frames g \<noteq> []) \<and> wf_layout s gs"

lemma sealed_layout_open:
  assumes "sealed_layout (jc_dir cfg) s gs d"
  shows "\<exists>rec d'. journal_open_with S now cfg d = (Ok rec, d') \<and> re_frames rec = layout_frames gs"
proof (cases "gs = []")
  case True
  with assms open_empty_jrepr [of d cfg now] show ?thesis by (auto simp: sealed_layout_def)
next
  case False
  then have gs: "gs = butlast gs @ [last gs]" by simp
  let ?k = "length (sg_frames (last gs))"
  have "sealed_on (jc_dir cfg) d g" if "g \<in> set (butlast gs)" for g
    using assms that by (simp add: sealed_layout_def in_set_butlastD)
  moreover have "sealed_on (jc_dir cfg) d (last gs)" using assms False by (simp add: sealed_layout_def)
  moreover have "set (butlast gs @ [last gs]) = set gs" using gs by simp
  ultimately have "on_disk (jc_dir cfg) (butlast gs) (last gs) ?k [] d"
    using assms by (simp add: sealed_layout_def on_disk_def) (simp add: sealed_on_def sg_bytes_def)
  moreover have "wf_layout s (butlast gs @ [last gs])" using assms gs by (simp add: sealed_layout_def)
  moreover have "torn []" by (simp add: torn_def)
  ultimately show ?thesis
    using open_inner_on_disk [of cfg "butlast gs" "last gs" ?k "[]" d s now] gs
    by (auto simp: journal_open_with_def simp del: layout_frames_simps)
qed

lemma start_segment_torn:
  assumes "ok d" and "content d (seg_path (jc_dir (j_config j)) first) = None"
  shows "\<exists>d1. start_segment (torn_write m S) first j d = (Err (Io BrokenPipe), j, d1) \<and> ok d1 \<and>
    content d1 = (content d)(seg_path (jc_dir (j_config j)) first \<mapsto> take m (segment_header_bytes first (j_epoch j))) \<and>
    stable d1 = (stable d)(seg_path (jc_dir (j_config j)) first \<mapsto> [])"
proof -
  let ?p = "seg_path (jc_dir (j_config j)) first" and ?h = "segment_header_bytes first (j_epoch j)"
  from create_new_fresh [OF assms] obtain f d0 where
    c: "st_create_new S ?p d = (Ok f, d0)" "ok d0" "live f d0 = Some ?p" "content d0 = (content d)(?p \<mapsto> [])"
      "stable d0 = (stable d)(?p \<mapsto> [])" by blast
  from c(4) have "content d0 ?p = Some []" by simp
  from write_all [OF c(2,3) this, of "take m ?h"] obtain d1 where
    w: "st_write_all S f (take m ?h) d0 = (Ok (), d1)" "ok d1" "content d1 = (content d0)(?p \<mapsto> take m ?h)" "stable d1 = stable d0"
    by auto
  with c show ?thesis by (simp add: start_segment_def torn_write_def jio_def)
qed

lemma torn_write_sync: "journal_sync (torn_write m S) now j d = journal_sync S now j d"
  by (cases "j_current j") (simp_all add: journal_sync_def torn_write_def)

lemma synced_before_roll:
  assumes "jrepr hist dur j d" and free: "content d (seg_path (jc_dir (j_config j)) (seq_next (j_last_seq j))) = None"
  shows "\<exists>j0 d0 s gs. journal_sync S now j d = (Ok (), j0, d0) \<and> sealed_layout (jc_dir (j_config j)) s gs d0 \<and>
    layout_frames gs = hist \<and> seq_next (j_last_seq j) = s + of_nat (length hist) \<and>
    j_config j0 = j_config j \<and> j_epoch j0 = j_epoch j"
  using assms(1)
proof (cases rule: jrepr_cases)
  case 1
  then have "sealed_layout (jc_dir (j_config j)) 1 [] d" by (simp add: jempty_def sealed_layout_def wf_layout_def)
  with 1 sync_jempty [of j d now] show ?thesis 
    by (intro exI [of _ "j\<lparr>j_last_sync := now\<rparr>"] exI [of _ d] exI [of _ 1] exI [of _ "[]"]) (auto simp: jempty_def seq_next_def)
next
  case (2 s gs act k)
  let ?dir = "jc_dir (j_config j)"
  from sync_jinv [OF 2(1), of now] obtain d0 where
    d0: "journal_sync S now j d = (Ok (), j\<lparr>j_dirty := False, j_last_sync := now\<rparr>, d0)"
      "jinv s gs act (length (sg_frames act)) (j\<lparr>j_dirty := False, j_last_sync := now\<rparr>) d0" by blast
  have ne: "sg_frames act \<noteq> []" using empty_active_path [OF 2(1)] free by auto
  have "sealed_layout ?dir s (gs @ [act]) d0"
    using d0(2) ne by (auto simp: jinv_def on_disk_def sealed_layout_def wf_layout_def) (auto simp: sealed_on_def sg_bytes_def)
  moreover have "seq_next (j_last_seq j) = s + of_nat (length hist)" using 2 by (simp add: jinv_def)
  ultimately show ?thesis using d0(1) 2(2)
    by (intro exI [of _ "j\<lparr>j_dirty := False, j_last_sync := now\<rparr>"] exI [of _ d0] exI [of _ s] exI [of _ "gs @ [act]"]) simp
qed

text \<open>A segment file behind sealed segments whose header cannot be read stops the scan.\<close>

lemma bad_header_open:
  assumes sealed: "\<forall>g \<in> set gs. content d (sg_path (jc_dir cfg) g) = Some (sg_bytes g)" and okd: "ok d"
    and wf: "wf_layout s (gs @ [new])" and files: "seg_files (jc_dir cfg) d = sg_path (jc_dir cfg) ` set (gs @ [new])"
    and bs: "content d (sg_path (jc_dir cfg) new) = Some bs"
    and bad: "parse_segment_header (sg_path (jc_dir cfg) new) bs = Err e"
  shows "\<exists>d'. journal_open_with S now cfg d = (Err e, d')"
proof -
  let ?dir = "jc_dir cfg"
  let ?p = "sg_path ?dir new"
  obtain d1 where d1: "st_create_dir_all S ?dir d = (Ok (), d1)" "ok d1" "content d1 = content d"
    using create_dir [OF okd] by metis
  obtain ps where ps: "list_segments S ?dir d1 = Ok ps" "distinct ps" "set ps = seg_files ?dir d1"
    using list_segments_files [OF d1(2)] by blast
  have "seg_files ?dir d1 = seg_files ?dir d" using d1(3) by (simp add: seg_files_def)
  then have sorted: "sort ps = map (sg_path ?dir) gs @ [?p]"
    using sort_layout_paths [OF wf ps(2), of ?dir] ps(3) files by simp
  have ch: "chained s gs" using wf by (simp add: wf_layout_def)
  have c1: "\<forall>g \<in> set gs. content d1 (sg_path ?dir g) = Some (sg_bytes g)" using sealed d1(3) by simp
  have "\<exists>nx ep. scan_segments S True (map (sg_path ?dir) gs @ [?p]) (scan_after [] 1 False 0) d1 =
      scan_segments S (True \<and> gs = []) [?p] (scan_after ([] @ layout_frames gs) nx False ep) d1"
    by (rule scan_sealed_prefix [OF d1(2) c1 ch]) simp_all
  moreover have "scan_segment S b True ?p sc d1 = (Err e, d1)" for b sc
    using read [OF d1(2), of ?p] bs bad d1(3) by (simp add: scan_segment_def)
  ultimately have "scan_segments S True (sort ps) scan_init d1 = (Err e, d1)"
    unfolding sorted scan_init_after by auto
  with d1(1) ps(1) show ?thesis by (simp add: journal_open_with_def open_inner_def Let_def)
qed

text \<open>What is left of a header is the header, or cannot be read as one.\<close>

lemma survived_header:
  assumes "survives [] (take m (segment_header_bytes first ep)) bs" and "bs \<noteq> segment_header_bytes first ep"
  shows "\<exists>why. parse_segment_header p bs = Err (BadSegmentHeader p why)"
proof (cases "length bs < 28")
  case True
  then show ?thesis by (simp add: parse_segment_header_def SEGMENT_HEADER_LEN_def)
next
  case False
  let ?h = "segment_header_bytes first ep"
  from assms(1) obtain n where n: "n \<le> length (take m ?h)"
      "bs = take n (take m ?h) \<or> (\<exists>i b. i < n \<and> bs = (take n (take m ?h))[i := b])" unfolding survives_def by blast
  then have "length bs = n" by auto
  with False n(1) have full: "take n (take m ?h) = ?h" "n = 28" by auto
  with n(2) assms(2) obtain i b where i: "i < 28" "bs = ?h[i := b]" by auto
  with assms(2) have "b \<noteq> ?h ! i" by (metis list_update_id)
  from parse_header_rot [OF i(1) this, of p "[]"] i(2) show ?thesis by simp
qed

end

context crashing_storage
begin

lemma interrupted_start:
  assumes lay: "sealed_layout (jc_dir cfg) s gs d" and first: "first = s + of_nat (length (layout_frames gs))"
    and d1: "ok d1" "content d1 = (content d)(seg_path (jc_dir cfg) first \<mapsto> take m (segment_header_bytes first ep))"
      "stable d1 = (stable d)(seg_path (jc_dir cfg) first \<mapsto> [])"
    and pl: "power_loss d1 d2"
  shows "\<exists>bs. content d2 (seg_path (jc_dir cfg) first) = Some bs \<and> length bs \<le> m \<and>
    (if bs = segment_header_bytes first ep
     then \<exists>rec d3. journal_open_with S now cfg d2 = (Ok rec, d3) \<and> re_frames rec = layout_frames gs
     else \<exists>why d3. journal_open_with S now cfg d2 = (Err (BadSegmentHeader (seg_path (jc_dir cfg) first) why), d3)) \<and>
    (\<exists>d4 rec d5. st_remove S (seg_path (jc_dir cfg) first) d2 = (Ok (), d4) \<and>
       journal_open_with S now cfg d4 = (Ok rec, d5) \<and> re_frames rec = layout_frames gs)"
proof -
  let ?dir = "jc_dir cfg" and ?new = "\<lparr>sg_first = first, sg_epoch = ep, sg_frames = []\<rparr>"
  let ?p = "seg_path ?dir first" and ?h = "segment_header_bytes first ep"
  have okd: "ok d" and files: "seg_files ?dir d = sg_path ?dir ` set gs" and wf: "wf_layout s gs"
    and ne: "\<forall>g \<in> set gs. sg_frames g \<noteq> []" and sealed: "\<forall>g \<in> set gs. sealed_on ?dir d g"
    using lay by (simp_all add: sealed_layout_def)
  have pnew: "sg_path ?dir ?new = ?p" by (simp add: sg_path_def)
  have wf1: "wf_layout s (gs @ [?new])" using wf ne by (simp add: wf_layout_def first)
  have fresh: "?p \<notin> sg_path ?dir ` set gs" using wf_layout_active_fresh [OF wf1] pnew by metis
  have ok2: "ok d2" by (rule power_loss_ok [OF d1(1) pl])
  from power_loss_content [OF d1(1) pl, of ?p "take m ?h" "[]"] d1(2,3) obtain bs where
    bs: "content d2 ?p = Some bs" "stable d2 ?p = Some bs" "survives [] (take m ?h) bs" by auto
  have len: "length bs \<le> m" using bs(3) by (auto simp: survives_def)
  have sealed2: "sealed_on ?dir d2 g" if g: "g \<in> set gs" for g
  proof -
    have "sg_path ?dir g \<noteq> ?p" using g fresh by (metis image_eqI)
    moreover have "content d (sg_path ?dir g) = Some (sg_bytes g)" "stable d (sg_path ?dir g) = Some (sg_bytes g)"
      using sealed g by (simp_all add: sealed_on_def)
    ultimately show ?thesis using power_loss_synced [OF d1(1) pl, of "sg_path ?dir g"] d1(2,3) by (simp add: sealed_on_def)
  qed
  have "content d2 q = None \<longleftrightarrow> content d1 q = None" for q using power_loss_files [OF d1(1) pl, of q] by simp
  then have "seg_files ?dir d2 = insert ?p (seg_files ?dir d)" by (auto simp: seg_files_def d1(2))
  then have files2: "seg_files ?dir d2 = sg_path ?dir ` set (gs @ [?new])" using files pnew by simp
  have opened: "if bs = ?h then \<exists>rec d3. journal_open_with S now cfg d2 = (Ok rec, d3) \<and> re_frames rec = layout_frames gs
     else \<exists>why d3. journal_open_with S now cfg d2 = (Err (BadSegmentHeader ?p why), d3)"
  proof (cases "bs = ?h")
    case True
    then have "on_disk ?dir gs ?new 0 [] d2"
      using ok2 files2 sealed2 bs pnew by (simp add: on_disk_def sg_bytes_def sg_header_def)
    from open_inner_on_disk [OF this wf1, of now] True show ?thesis by (auto simp: journal_open_with_def torn_def)
  next
    case False
    from survived_header [OF bs(3) this, of ?p] obtain why where
      "parse_segment_header ?p bs = Err (BadSegmentHeader ?p why)" by blast
    with bad_header_open [OF _ ok2 wf1 files2, of bs _ now] sealed2 bs(1) pnew False show ?thesis
      by (auto simp: sealed_on_def)
  qed
  from remove [OF ok2, of ?p] bs(1) obtain d4 where
    d4: "st_remove S ?p d2 = (Ok (), d4)" "ok d4" "content d4 = (content d2)(?p := None)" "stable d4 = (stable d2)(?p := None)"
    by auto
  have "sealed_on ?dir d4 g" if g: "g \<in> set gs" for g
  proof -
    have "sg_path ?dir g \<noteq> ?p" using g fresh by (metis image_eqI)
    with sealed2 [OF g] d4(3,4) show ?thesis by (simp add: sealed_on_def)
  qed
  moreover have "seg_files ?dir d4 = sg_path ?dir ` set gs"
  proof -
    have "seg_files ?dir d4 = seg_files ?dir d2 - {?p}" by (auto simp: seg_files_def d4(3))
    also have "\<dots> = sg_path ?dir ` set gs" unfolding files2 using fresh pnew by auto
    finally show ?thesis .
  qed
  ultimately have "sealed_layout ?dir s gs d4" using d4(2) wf ne by (simp add: sealed_layout_def)
  from sealed_layout_open [OF this, of now] opened bs(1) len d4(1) show ?thesis by blast
qed

end

section \<open>A concrete run\<close>

definition wide_cfg :: journal_config where
  "wide_cfg = \<lparr>jc_dir = ''j'', jc_segment_bytes = 1000, jc_fsync = EveryFrame\<rparr>"

definition wide_journal :: "sim_file journal" where
  "wide_journal = \<lparr>j_config = wide_cfg,
     j_current = Some \<lparr>os_file = \<lparr>sf_path = seg_path ''j'' 1, sf_epoch = 0\<rparr>, os_size = 63, os_frames = 1\<rparr>,
     j_last_seq = 1, j_epoch = 0, j_last_sync = 0, j_dirty = False\<rparr>"

abbreviation wide_disk :: sim_disk where
  "wide_disk \<equiv> \<lparr>d_files = [seg_file 1], d_epoch = 0\<rparr>"

lemma wide_run: "jrun wide_cfg wide_journal wide_disk [demo_frame 1] 1"
proof -
  let ?j = "\<lparr>j_config = wide_cfg, j_current = None, j_last_seq = 0, j_epoch = 0, j_last_sync = 0, j_dirty = False\<rparr> :: sim_file journal"
  have "journal_open_with sim_storage 0 wide_cfg sim_new =
      (Ok \<lparr>re_journal = ?j, re_frames = [], re_first_seq = 1, re_truncated_torn_tail = False\<rparr>, sim_new)"
    by (simp add: journal_open_with_def open_inner_def sim_storage_def sim_create_dir_all_def list_segments_def
        sim_list_dir_def sim_new_def scan_init_def open_tail_def Let_def saturating_pred_def seq_next_def GENESIS_def)
  from jrun_open [OF this] have "jrun wide_cfg ?j sim_new [] 0" by simp
  moreover have "appendable ?j [demo_frame 1]"
    by (simp add: appendable_def wide_cfg_def demo_frame_def seq_next_def frame_valid_def)
  moreover have "journal_append sim_storage 0 (demo_frame 1) ?j sim_new = (Ok (), wide_journal, wide_disk)"
    by (simp add: sim_run wide_journal_def wide_cfg_def sim_new_def seg_file_def seq_next_def Let_def
        demo_frame_def SEGMENT_HEADER_LEN_def)
  ultimately show ?thesis using jrun_append [of wide_cfg ?j sim_new "[]" 0 "demo_frame 1" 0] by (fastforce simp: wide_journal_def)
qed

section \<open>Properties\<close>

text \<open>
  C38. An acknowledged frame can be lost without a crash of the disk: when a write fails after storing a part of a frame, the error is
  returned and the journal carries on; the retried append succeeds and is synced, but the next open takes the partial frame for a torn
  tail, cuts the file there, and the acknowledged frame is gone.
\<close>

theorem journal_partial_write_loses_frame:
  assumes "jrun cfg j d hist dur" and "f_seq f = seq_next (j_last_seq j)" and "\<not> needs_roll j (frame_encoded_len f)"
    and "jc_fsync cfg = EveryFrame" and "0 < m" and "frame_read (take m (frame_write f) @ frame_write f) = Err e"
  shows "\<exists>d1 j' d2 rec d3. journal_append (torn_write m sim_storage) now f j d = (Err (Io BrokenPipe), j, d1) \<and>
    journal_append sim_storage now f j d1 = (Ok (), j', d2) \<and> \<not> j_dirty j' \<and> j_last_seq j' = f_seq f \<and>
    journal_open_with sim_storage now' cfg d2 = (Ok rec, d3) \<and> re_frames rec = hist"
proof -
  obtain seg where seg: "j_current j = Some seg" using assms(3) by (auto simp: needs_roll_def split: option.splits)
  have x: "take m (frame_write f) \<noteq> []" using assms(5) by (simp flip: length_greater_0_conv)
  have cfg: "j_config j = cfg" using jrun_jrepr [OF assms(1)] by simp
  from conjunct1 [OF jrun_jrepr [OF assms(1)]] show ?thesis
  proof (cases rule: sim.jrepr_cases)
    case 1
    then show ?thesis using seg by (simp add: sim.jempty_def)
  next
    case (2 s gs act k)
    from sim.torn_append_lost [OF 2(1) seg assms(2,3) x assms(6), of now now'] assms(4) cfg
    obtain d1 j' d2 rec d3 where l: "st_write_all sim_storage (os_file seg) (take m (frame_write f)) d = (Ok (), d1)"
        "journal_append sim_storage now f j d1 = (Ok (), j', d2)" "\<not> j_dirty j'" "j_last_seq j' = f_seq f"
        "journal_open_with sim_storage now' cfg d2 = (Ok rec, d3)" "re_frames rec = layout_frames (gs @ [act])" by auto
    from sim.torn_append_fails [OF seg assms(2,3) l(1), of now] l(2-6) 2(2) show ?thesis by blast
  qed
qed

text \<open>All of the frame but its last byte is stored by the failing write.\<close>

theorem journal_partial_write_loses_frame_witness:
  "\<exists>d1 j' d2 rec d3. journal_append (torn_write 34 sim_storage) 0 (demo_frame 2) wide_journal wide_disk = (Err (Io BrokenPipe), wide_journal, d1) \<and>
     journal_append sim_storage 0 (demo_frame 2) wide_journal d1 = (Ok (), j', d2) \<and> \<not> j_dirty j' \<and> j_last_seq j' = 2 \<and>
     journal_open_with sim_storage 9 wide_cfg d2 = (Ok rec, d3) \<and> re_frames rec = [demo_frame 1]"
proof -
  let ?w = "frame_write (demo_frame 2)"
  have crc: "crc32c [1, 2, 3] = 0xF130F21E" by (simp add: crc32c_def crc32c_sw_def crc32c_step_pow crc_bit_def POLY_def funpow8)
  have valid: "frame_valid (demo_frame 2)" by (simp add: frame_valid_def demo_frame_def)
  have len: "length ?w = 35" by (simp add: demo_frame_def)
  have "take 34 ?w @ ?w = ?w[34 := ?w ! 0] @ tl ?w"
    using len by (cases ?w) (simp_all add: upd_conv_take_nth_drop nth_append)
  moreover have "to_le_bytes (2 :: u64) ! 0 \<noteq> to_le_bytes (0xF130F21E :: u32) ! 3" by code_simp
  then have "?w ! 0 \<noteq> ?w ! 34" by (simp add: frame_write_def frame_header_def demo_frame_def nth_append crc)
  ultimately have e: "frame_read (take 34 ?w @ ?w) = Err PayloadCrc"
    using frame_read_corrupt [OF valid, of 34 "?w ! 0" "tl ?w"] len by simp
  from journal_partial_write_loses_frame [OF wide_run _ _ _ _ e, of 0 9] show ?thesis
    by (simp add: demo_frame_def wide_journal_def wide_cfg_def seq_next_def needs_roll_def frame_encoded_len_correct)
qed

text \<open>
  C39. Power lost while \<open>append\<close> rolls to the next segment, at any moment after the next file was created and before its header was
  synced: what survives of that file decides whether the journal can be opened at all. Unless the whole header survived
  (impossible while fewer than its 28 bytes were written), opening fails with \<open>BadSegmentHeader\<close> and the node cannot start, although
  every frame of the history is intact: with that one file deleted by hand the journal opens with the whole history.
\<close>

theorem journal_roll_crash_unopenable:
  assumes "jrun cfg j d hist dur" and "f_seq f = seq_next (j_last_seq j)" and "needs_roll j (frame_encoded_len f)"
    and "sim_content d (seg_path (jc_dir cfg) (f_seq f)) = None"
  shows "\<exists>j1 d1 bs. journal_append (torn_write m sim_storage) now f j d = (Err (Io BrokenPipe), j1, d1) \<and>
    sim_content (fst (sim_crash flip r d1)) (seg_path (jc_dir cfg) (f_seq f)) = Some bs \<and> length bs \<le> m \<and>
    (if bs = segment_header_bytes (f_seq f) (j_epoch j)
     then \<exists>rec d3. journal_open_with sim_storage now' cfg (fst (sim_crash flip r d1)) = (Ok rec, d3) \<and> re_frames rec = hist
     else \<exists>why d3. journal_open_with sim_storage now' cfg (fst (sim_crash flip r d1)) =
       (Err (BadSegmentHeader (seg_path (jc_dir cfg) (f_seq f)) why), d3)) \<and>
    (\<exists>d4 rec d5. sim_remove (seg_path (jc_dir cfg) (f_seq f)) (fst (sim_crash flip r d1)) = (Ok (), d4) \<and>
       journal_open_with sim_storage now' cfg d4 = (Ok rec, d5) \<and> re_frames rec = hist)"
proof -
  have inv: "sim.jrepr hist dur j d" "j_config j = cfg" using jrun_jrepr [OF assms(1)] by simp_all
  from sim.synced_before_roll [OF inv(1), of now] assms(2,4) inv(2) obtain j0 d0 s gs where
    sy: "journal_sync sim_storage now j d = (Ok (), j0, d0)" "sim.sealed_layout (jc_dir cfg) s gs d0" "layout_frames gs = hist"
      "f_seq f = s + of_nat (length (layout_frames gs))" "j_config j0 = cfg" "j_epoch j0 = j_epoch j" by auto
  have "f_seq f \<notin> sg_first ` set gs"
    using wf_layout_last_fresh [of s gs] sy(2,4) by (simp add: sim.sealed_layout_def)
  then have "seg_path (jc_dir cfg) (f_seq f) \<notin> sim.seg_files (jc_dir cfg) d0"
    using sy(2) by (auto simp: sim.sealed_layout_def sg_path_def)
  then have "sim_content d0 (seg_path (jc_dir (j_config j0)) (f_seq f)) = None" "sim_ok d0"
    using sy(2,5) by (simp_all add: sim.seg_files_def sim.sealed_layout_def)
  from sim.start_segment_torn [OF this(2,1), of m] sy(5,6) obtain d1 where
    st: "start_segment (torn_write m sim_storage) (f_seq f) j0 d0 = (Err (Io BrokenPipe), j0, d1)" "sim_ok d1"
      "sim_content d1 = (sim_content d0)(seg_path (jc_dir cfg) (f_seq f) \<mapsto> take m (segment_header_bytes (f_seq f) (j_epoch j)))"
      "sim_stable d1 = (sim_stable d0)(seg_path (jc_dir cfg) (f_seq f) \<mapsto> [])" by auto
  have app: "journal_append (torn_write m sim_storage) now f j d = (Err (Io BrokenPipe), j0, d1)"
    using sy(1) st(1) assms(2,3) by (simp add: journal_append_def roll_segment_def sim.torn_write_sync Let_def)
  have rm: "st_remove sim_storage = sim_remove" by (simp add: sim_storage_def)
  show ?thesis
    using simc.interrupted_start [OF sy(2,4) st(2-4) sim_power_loss_crash, of flip r now'] app
    unfolding sy(3) rm by blast
qed

text \<open>The header was written and not synced, and the power loss keeps only a part of it.\<close>

lemma small_roll_torn:
  "journal_append (torn_write 28 sim_storage) 0 (demo_frame 3) (small_journal 2) small_disk =
    (Err (Io BrokenPipe), small_journal 2, \<lparr>d_files = [seg_file 1, seg_file 2,
      (seg_path ''j'' 3, \<lparr>fd_synced = [], fd_unsynced = segment_header_bytes 3 0\<rparr>)], d_epoch = 0\<rparr>)"
  by (simp add: sim_run torn_write_def small_journal_def small_cfg_def seg_file_def seq_next_def Let_def seg_path_less_iff
      demo_frame_def SEGMENT_HEADER_LEN_def frame_encoded_len_correct)

theorem journal_roll_crash_unopenable_witness:
  "\<exists>j1 d1 why d3 d4 rec d5. journal_append (torn_write 28 sim_storage) 0 (demo_frame 3) (small_journal 2) small_disk =
      (Err (Io BrokenPipe), j1, d1) \<and>
    journal_open_with sim_storage 8 small_cfg (fst (sim_crash False 0 d1)) = (Err (BadSegmentHeader (seg_path ''j'' 3) why), d3) \<and>
    sim_remove (seg_path ''j'' 3) (fst (sim_crash False 0 d1)) = (Ok (), d4) \<and>
    journal_open_with sim_storage 8 small_cfg d4 = (Ok rec, d5) \<and> re_frames rec = [demo_frame 1, demo_frame 2]"
proof -
  let ?d1 = "\<lparr>d_files = [seg_file 1, seg_file 2,
      (seg_path ''j'' 3, \<lparr>fd_synced = [], fd_unsynced = segment_header_bytes 3 0\<rparr>)], d_epoch = 0\<rparr>"
  have j: "f_seq (demo_frame 3) = 3" "f_seq (demo_frame 3) = seq_next (j_last_seq (small_journal 2))" "jc_dir small_cfg = ''j''"
    "needs_roll (small_journal 2) (frame_encoded_len (demo_frame 3))" "j_epoch (small_journal 2) = 0"
    by (simp_all add: small_journal_def seq_next_def small_cfg_def demo_frame_def needs_roll_def frame_encoded_len_correct)
  have free: "sim_content small_disk (seg_path (jc_dir small_cfg) (f_seq (demo_frame 3))) = None"
    by (simp add: sim_content_def seg_file_def bt_get_def small_cfg_def demo_frame_def)
  have kept: "sim_content (fst (sim_crash False 0 ?d1)) (seg_path ''j'' 3) \<noteq> Some (segment_header_bytes 3 0)"
  proof
    assume "sim_content (fst (sim_crash False 0 ?d1)) (seg_path ''j'' 3) = Some (segment_header_bytes 3 0)"
    then have "length (take 6 (segment_header_bytes 3 0)) = length (segment_header_bytes 3 0)"
      by (simp add: sim_crash_def crash_file_def rng_below_def next_u64_def seg_file_def sim_content_def bt_get_def fd_combined_def Let_def)
    then show False by simp
  qed
  from journal_roll_crash_unopenable [OF small_run j(2,4) free, of 28 0 False 0 8] obtain j1 d1 bs where
    c: "journal_append (torn_write 28 sim_storage) 0 (demo_frame 3) (small_journal 2) small_disk = (Err (Io BrokenPipe), j1, d1)"
      "sim_content (fst (sim_crash False 0 d1)) (seg_path ''j'' 3) = Some bs"
      "if bs = segment_header_bytes 3 0
       then \<exists>rec d3. journal_open_with sim_storage 8 small_cfg (fst (sim_crash False 0 d1)) = (Ok rec, d3) \<and>
         re_frames rec = [demo_frame 1, demo_frame 2]
       else \<exists>why d3. journal_open_with sim_storage 8 small_cfg (fst (sim_crash False 0 d1)) =
         (Err (BadSegmentHeader (seg_path ''j'' 3) why), d3)"
      "\<exists>d4 rec d5. sim_remove (seg_path ''j'' 3) (fst (sim_crash False 0 d1)) = (Ok (), d4) \<and>
       journal_open_with sim_storage 8 small_cfg d4 = (Ok rec, d5) \<and> re_frames rec = [demo_frame 1, demo_frame 2]"
    unfolding j(1,3,5) by blast
  have "d1 = ?d1" using c(1) small_roll_torn by simp
  with kept c(2) have "bs \<noteq> segment_header_bytes 3 0" by auto
  with c(1,3,4) show ?thesis by auto
qed

end
