(* ===== verification/Admin.thy ===== *)
theory Admin
  imports Server
begin

text \<open>
  \<open>ticktape-server/src/admin.rs\<close>: the metrics endpoint. A request is what one read of the connection returns, a response what
  is handed to \<open>write_all\<close>; the socket calls are a record of their results, with the statistics as they are when the
  connection is served. The standard library's \<open>String::from_utf8_lossy\<close>, \<open>split_whitespace\<close> and decimal formatting
  are definitions here. The properties read the response back with a client of the formats: HTTP up to the blank line, and the
  lines of the Prometheus text exposition.
\<close>

section \<open>Formatting\<close>

fun show_nat :: "nat \<Rightarrow> string" where
  "show_nat n = (if n < 10 then [char_of (48 + n)] else show_nat (n div 10) @ [char_of (48 + n mod 10)])"

declare show_nat.simps [simp del]

definition LF :: string where "LF = [CHR 0x0A]"

definition CRLF :: string where "CRLF = [CHR 0x0D, CHR 0x0A]"

definition metric :: "string \<Rightarrow> string \<Rightarrow> string \<Rightarrow> nat \<Rightarrow> nat \<Rightarrow> string" where
  "metric name help kind n v =
     ''# HELP '' @ name @ '' '' @ help @ LF @
     ''# TYPE '' @ name @ '' '' @ kind @ LF @
     name @ ''{node='' @ [CHR 0x22] @ show_nat n @ [CHR 0x22] @ ''} '' @ show_nat v @ LF"

definition to_prometheus :: "server_stats \<Rightarrow> string" where
  "to_prometheus st =
     (let n = st_node st; is_leader = (if st_role st = ''leader'' then 1 else 0)
      in metric ''ticktape_role'' ''1 if this node is the leader, else 0'' ''gauge'' n is_leader @
         metric ''ticktape_epoch'' ''current leadership epoch'' ''counter'' n (unat (st_epoch st)) @
         metric ''ticktape_seq'' ''highest sequenced/applied seq'' ''counter'' n (unat (st_seq st)) @
         metric ''ticktape_lag_frames'' ''replication lag behind the leader'' ''gauge'' n (unat (st_lag st)) @
         metric ''ticktape_snapshot_seq'' ''seq of the latest durable snapshot'' ''counter'' n (unat (st_snapshot_seq st)) @
         metric ''ticktape_journal_segments'' ''journal segment files on disk'' ''gauge'' n (st_journal_segments st))"

section \<open>The request\<close>

text \<open>
  A string is its code points. An ill-formed sequence is replaced by U+FFFD, one for each longest start of a
  well-formed sequence.
\<close>

definition cont_bits :: "u8 \<Rightarrow> nat" where
  "cont_bits b = unat (b AND 0x3F)"

definition second_ok :: "u8 \<Rightarrow> u8 \<Rightarrow> bool" where
  "second_ok b c =
     (if b = 0xE0 then 0xA0 \<le> c \<and> c \<le> 0xBF else if b = 0xED then 0x80 \<le> c \<and> c \<le> 0x9F
      else if b = 0xF0 then 0x90 \<le> c \<and> c \<le> 0xBF else if b = 0xF4 then 0x80 \<le> c \<and> c \<le> 0x8F
      else utf8_cont c)"

definition lossy_char :: "u8 \<Rightarrow> bytes \<Rightarrow> nat \<times> bytes" where
  "lossy_char b bs =
     (if b < 0x80 then (unat b, bs)
      else if 0xC2 \<le> b \<and> b \<le> 0xDF then
        (case bs of c # cs \<Rightarrow> if utf8_cont c then (unat (b AND 0x1F) * 64 + cont_bits c, cs) else (0xFFFD, bs)
         | [] \<Rightarrow> (0xFFFD, []))
      else if 0xE0 \<le> b \<and> b \<le> 0xEF then
        (case bs of [] \<Rightarrow> (0xFFFD, [])
         | c # cs \<Rightarrow>
             if \<not> second_ok b c then (0xFFFD, bs)
             else (case cs of [] \<Rightarrow> (0xFFFD, [])
                   | e # es \<Rightarrow> if utf8_cont e then ((unat (b AND 0x0F) * 64 + cont_bits c) * 64 + cont_bits e, es) else (0xFFFD, cs)))
      else if 0xF0 \<le> b \<and> b \<le> 0xF4 then
        (case bs of [] \<Rightarrow> (0xFFFD, [])
         | c # cs \<Rightarrow>
             if \<not> second_ok b c then (0xFFFD, bs)
             else (case cs of [] \<Rightarrow> (0xFFFD, [])
                   | e # es \<Rightarrow>
                       if \<not> utf8_cont e then (0xFFFD, cs)
                       else (case es of [] \<Rightarrow> (0xFFFD, [])
                             | g # gs \<Rightarrow> if utf8_cont g
                                 then (((unat (b AND 0x07) * 64 + cont_bits c) * 64 + cont_bits e) * 64 + cont_bits g, gs)
                                 else (0xFFFD, es))))
      else (0xFFFD, bs))"

lemma lossy_char_shorter: "length (snd (lossy_char b bs)) \<le> length bs"
  by (auto simp: lossy_char_def split: list.splits)

function utf8_lossy :: "bytes \<Rightarrow> nat list" where
  "utf8_lossy [] = []"
| "utf8_lossy (b # bs) = (let (c, rest) = lossy_char b bs in c # utf8_lossy rest)"
  by pat_completeness auto
termination
proof (relation "measure length")
  fix b :: u8 and bs :: bytes and x c rest
  assume "x = lossy_char b bs" "(c, rest) = x"
  then show "(rest, b # bs) \<in> measure length"
    using lossy_char_shorter [of b bs] by (metis in_measure length_Cons less_Suc_eq_le snd_conv)
qed simp

text \<open>The code points with the property \<open>White_Space\<close>.\<close>

definition is_whitespace :: "nat \<Rightarrow> bool" where
  "is_whitespace c \<longleftrightarrow> 9 \<le> c \<and> c \<le> 13 \<or> c = 0x20 \<or> c = 0x85 \<or> c = 0xA0 \<or> c = 0x1680 \<or> 0x2000 \<le> c \<and> c \<le> 0x200A \<or>
     c = 0x2028 \<or> c = 0x2029 \<or> c = 0x202F \<or> c = 0x205F \<or> c = 0x3000"

fun split_whitespace :: "nat list \<Rightarrow> nat list \<Rightarrow> nat list list" where
  "split_whitespace word [] = (if word = [] then [] else [word])"
| "split_whitespace word (c # cs) =
     (if is_whitespace c then (if word = [] then [] else [word]) @ split_whitespace [] cs
      else split_whitespace (word @ [c]) cs)"

definition chars :: "string \<Rightarrow> nat list" where
  "chars s = map of_char s"

definition request_path :: "bytes \<Rightarrow> nat list" where
  "request_path req =
     (case split_whitespace [] (utf8_lossy req) of _ # p # _ \<Rightarrow> p | _ \<Rightarrow> chars ''/'')"

section \<open>The response\<close>

definition starts_with :: "nat list \<Rightarrow> string \<Rightarrow> bool" where
  "starts_with p s \<longleftrightarrow> take (length s) p = chars s"

definition answer :: "nat list \<Rightarrow> server_stats \<Rightarrow> string \<times> string \<times> string" where
  "answer p st =
     (if starts_with p ''/metrics'' then (''200 OK'', ''text/plain; version=0.0.4'', to_prometheus st)
      else if starts_with p ''/healthz'' then (''200 OK'', ''text/plain'', ''ok'' @ LF)
      else (''404 Not Found'', ''text/plain'', ''not found'' @ LF))"

definition http_response :: "string \<times> string \<times> string \<Rightarrow> string" where
  "http_response r =
     (case r of (status, content_type, body) \<Rightarrow>
        ''HTTP/1.1 '' @ status @ CRLF @
        ''Content-Type: '' @ content_type @ CRLF @
        ''Content-Length: '' @ show_nat (length body) @ CRLF @
        ''Connection: close'' @ CRLF @ CRLF @ body)"

text \<open>One connection: what its calls return, and the statistics while it is served.\<close>

record 'e connection =
  cn_set_read_timeout :: "(unit, 'e) result"
  cn_read :: "(bytes, 'e) result"
  cn_write_all :: "string \<Rightarrow> (unit, 'e) result"
  cn_stats :: server_stats

definition admin_serve_one :: "'e connection \<Rightarrow> (unit, 'e) result \<times> string option" where
  "admin_serve_one cn =
     (case cn_set_read_timeout cn of
        Err e \<Rightarrow> (Err e, None)
      | Ok _ \<Rightarrow>
          (case cn_read cn of
             Err e \<Rightarrow> (Err e, None)
           | Ok arrived \<Rightarrow>
               let response = http_response (answer (request_path (take 1024 arrived)) (cn_stats cn))
               in (cn_write_all cn response, Some response)))"

text \<open>The accept loop, over the connections that arrive: the responses it writes.\<close>

fun serve_metrics :: "('e connection, 'e) result list \<Rightarrow> string option list" where
  "serve_metrics [] = []"
| "serve_metrics (Err e # incoming) = serve_metrics incoming"
| "serve_metrics (Ok cn # incoming) = snd (admin_serve_one cn) # serve_metrics incoming"

section \<open>A client of the endpoint\<close>

fun split_crlf :: "string \<Rightarrow> (string \<times> string) option" where
  "split_crlf [] = None"
| "split_crlf (c # cs) =
     (if take 2 (c # cs) = CRLF then Some ([], drop 1 cs) else map_option (apfst (Cons c)) (split_crlf cs))"

lemma split_crlf_shorter: "split_crlf s = Some (l, r) \<Longrightarrow> length r < length s"
  by (induction s arbitrary: l) (auto simp: apfst_def map_prod_def split: if_splits)

function http_headers :: "string \<Rightarrow> (string list \<times> string) option" where
  "http_headers s =
     (case split_crlf s of None \<Rightarrow> None
      | Some (l, r) \<Rightarrow> if l = [] then Some ([], r) else map_option (apfst (Cons l)) (http_headers r))"
  by pat_completeness auto
termination by (relation "measure length") (auto dest: split_crlf_shorter)

declare http_headers.simps [simp del]

definition http_parse :: "string \<Rightarrow> (string \<times> string list \<times> string) option" where
  "http_parse s = (case split_crlf s of None \<Rightarrow> None | Some (l, r) \<Rightarrow> map_option (Pair l) (http_headers r))"

fun split_lines :: "string \<Rightarrow> string \<Rightarrow> string list" where
  "split_lines l [] = (if l = [] then [] else [l])"
| "split_lines l (c # cs) = (if c = CHR 0x0A then l # split_lines [] cs else split_lines (l @ [c]) cs)"

fun read_nat :: "nat \<Rightarrow> string \<Rightarrow> nat option" where
  "read_nat acc [] = Some acc"
| "read_nat acc (c # cs) = (case digit_val c of None \<Rightarrow> None | Some v \<Rightarrow> read_nat (acc * 10 + v) cs)"

definition read_sample :: "string \<Rightarrow> (string \<times> nat \<times> nat) option" where
  "read_sample l =
     (let name = takeWhile (\<lambda>c. c \<noteq> CHR ''{'') l; label = drop (length name) l;
          node = takeWhile (\<lambda>c. c \<noteq> CHR 0x22) (drop 7 label); tail = drop (length node) (drop 7 label)
      in if take 7 label = ''{node='' @ [CHR 0x22] \<and> take 3 tail = [CHR 0x22] @ ''} ''
         then (case (read_nat 0 node, read_nat 0 (drop 3 tail)) of
                 (Some n, Some v) \<Rightarrow> Some (name, n, v) | _ \<Rightarrow> None)
         else None)"

definition scrape :: "string \<Rightarrow> (string \<times> nat \<times> nat) list option" where
  "scrape t = those (map read_sample (filter (\<lambda>l. take 1 l \<noteq> ''#'') (split_lines [] t)))"

definition samples :: "server_stats \<Rightarrow> (string \<times> nat \<times> nat) list" where
  "samples st = map (\<lambda>(name, v). (name, st_node st, v))
     [(''ticktape_role'', if st_role st = ''leader'' then 1 else 0), (''ticktape_epoch'', unat (st_epoch st)),
      (''ticktape_seq'', unat (st_seq st)), (''ticktape_lag_frames'', unat (st_lag st)),
      (''ticktape_snapshot_seq'', unat (st_snapshot_seq st)), (''ticktape_journal_segments'', st_journal_segments st)]"

section \<open>Decimal numbers\<close>

lemma digit_val_digit: "d < 10 \<Longrightarrow> digit_val (char_of (48 + d :: nat)) = Some d"
  by (simp add: digit_val_def)

lemma read_nat_snoc: "d < 10 \<Longrightarrow> read_nat acc (s @ [char_of (48 + d :: nat)]) = map_option (\<lambda>a. a * 10 + d) (read_nat acc s)"
  by (induction s arbitrary: acc) (simp_all add: digit_val_digit split: option.split)

lemma read_show_nat: "read_nat 0 (show_nat n) = Some n"
proof (induction n rule: show_nat.induct)
  case (1 n)
  then show ?case
    using read_nat_snoc [of "n mod 10" 0 "show_nat (n div 10)"] read_nat_snoc [of n 0 "[]"]
    by (subst show_nat.simps) auto
qed

lemma show_nat_digits: "c \<in> set (show_nat n) \<Longrightarrow> \<exists>d < 10. c = char_of (48 + d :: nat)"
proof (induction n rule: show_nat.induct)
  case (1 n)
  from 1(2) consider "n < 10" "c = char_of (48 + n)" | "\<not> n < 10" "c \<in> set (show_nat (n div 10))" | "c = char_of (48 + n mod 10)"
    by (subst (asm) show_nat.simps) (auto split: if_splits)
  then show ?case
    using 1(1) by cases (auto intro: exI [of _ n] exI [of _ "n mod 10"])
qed

lemma show_nat_not:
  assumes "\<not> (48 \<le> (of_char c :: nat) \<and> (of_char c :: nat) \<le> 57)"
  shows "c \<notin> set (show_nat n)"
  using assms show_nat_digits [of c n] by auto

lemmas show_nat_free = show_nat_not [of "CHR 0x0A"] show_nat_not [of "CHR 0x0D"] show_nat_not [of "CHR 0x22"]

section \<open>Reading the text back\<close>

lemma split_lines_line: "CHR 0x0A \<notin> set l \<Longrightarrow> split_lines acc (l @ CHR 0x0A # t) = (acc @ l) # split_lines [] t"
  by (induction l arbitrary: acc) auto

lemma takeWhile_stop: "c \<notin> set l \<Longrightarrow> takeWhile (\<lambda>x. x \<noteq> c) (l @ c # t) = l"
  by (induction l) auto

lemma read_sample_line:
  assumes "CHR ''{'' \<notin> set name"
  shows "read_sample (name @ ''{node='' @ [CHR 0x22] @ show_nat n @ [CHR 0x22] @ ''} '' @ show_nat v) = Some (name, n, v)"
proof -
  have "CHR 0x22 \<notin> set (show_nat n)" by (simp add: show_nat_free)
  with assms show ?thesis
    by (simp add: read_sample_def Let_def takeWhile_stop read_show_nat del: drop_drop)
qed

lemma scrape_metric:
  assumes "CHR 0x0A \<notin> set name \<union> set help \<union> set kind" and "CHR ''{'' \<notin> set name" and "take 1 name \<noteq> ''#''" and "name \<noteq> []"
  shows "scrape (metric name help kind n v @ t) = map_option (Cons (name, n, v)) (scrape t)"
proof -
  let ?h = "''# HELP '' @ name @ '' '' @ help" and ?k = "''# TYPE '' @ name @ '' '' @ kind"
    and ?s = "name @ ''{node='' @ [CHR 0x22] @ show_nat n @ [CHR 0x22] @ ''} '' @ show_nat v"
  have "metric name help kind n v @ t = ?h @ CHR 0x0A # ?k @ CHR 0x0A # ?s @ CHR 0x0A # t"
    by (simp add: metric_def LF_def)
  moreover have "CHR 0x0A \<notin> set ?h" "CHR 0x0A \<notin> set ?k" "CHR 0x0A \<notin> set ?s"
    using assms(1) by (auto simp: show_nat_free)
  ultimately have "split_lines [] (metric name help kind n v @ t) = ?h # ?k # ?s # split_lines [] t"
    by (simp only: split_lines_line append_Nil not_False_eq_True)
  moreover have "take 1 ?s \<noteq> ''#''" using assms(3,4) by (cases name) auto
  ultimately show ?thesis
    using read_sample_line [OF assms(2), of n v] by (simp add: scrape_def option.map_comp comp_def)
qed

lemma scrape_Nil: "scrape [] = Some []"
  by (simp add: scrape_def)

lemma scrape_metrics:
  assumes "\<forall>(name, help, kind, v) \<in> set ms. CHR 0x0A \<notin> set name \<union> set help \<union> set kind \<and>
    CHR ''{'' \<notin> set name \<and> take 1 name \<noteq> ''#'' \<and> name \<noteq> []"
  shows "scrape (concat (map (\<lambda>(name, help, kind, v). metric name help kind n v) ms)) =
    Some (map (\<lambda>(name, help, kind, v). (name, n, v)) ms)"
  using assms by (induction ms) (auto simp: scrape_Nil scrape_metric)

lemma scrape_to_prometheus: "scrape (to_prometheus st) = Some (samples st)"
proof -
  define ms where "ms =
    [(''ticktape_role'', ''1 if this node is the leader, else 0'', ''gauge'', if st_role st = ''leader'' then 1 else 0 :: nat),
     (''ticktape_epoch'', ''current leadership epoch'', ''counter'', unat (st_epoch st)),
     (''ticktape_seq'', ''highest sequenced/applied seq'', ''counter'', unat (st_seq st)),
     (''ticktape_lag_frames'', ''replication lag behind the leader'', ''gauge'', unat (st_lag st)),
     (''ticktape_snapshot_seq'', ''seq of the latest durable snapshot'', ''counter'', unat (st_snapshot_seq st)),
     (''ticktape_journal_segments'', ''journal segment files on disk'', ''gauge'', st_journal_segments st)]"
  have "to_prometheus st = concat (map (\<lambda>(name, help, kind, v). metric name help kind (st_node st) v) ms)"
    and "samples st = map (\<lambda>(name, help, kind, v). (name, st_node st, v)) ms"
    by (simp_all add: to_prometheus_def samples_def Let_def ms_def)
  moreover have "\<forall>(name, help, kind, v) \<in> set ms. CHR 0x0A \<notin> set name \<union> set help \<union> set kind \<and>
      CHR ''{'' \<notin> set name \<and> take 1 name \<noteq> ''#'' \<and> name \<noteq> []"
    by (simp add: ms_def)
  ultimately show ?thesis using scrape_metrics [of ms] by simp
qed

lemma split_crlf_line: "CHR 0x0D \<notin> set l \<Longrightarrow> split_crlf (l @ CRLF @ r) = Some (l, r)"
  by (induction l) (auto simp: CRLF_def)

lemma http_headers_line:
  assumes "CHR 0x0D \<notin> set l"
  shows "http_headers (l @ CRLF @ r) = (if l = [] then Some ([], r) else map_option (apfst (Cons l)) (http_headers r))"
  by (subst http_headers.simps) (simp add: split_crlf_line [OF assms])

lemma http_headers_end: "http_headers (CRLF @ r) = Some ([], r)"
  using http_headers_line [of "[]" r] by simp

lemma http_parse_lines:
  assumes "\<And>l. l \<in> set (a # ls) \<Longrightarrow> CHR 0x0D \<notin> set l" and "[] \<notin> set ls"
  shows "http_parse (a @ CRLF @ concat (map (\<lambda>l. l @ CRLF) ls) @ CRLF @ body) = Some (a, ls, body)"
proof -
  have "http_headers (concat (map (\<lambda>l. l @ CRLF) ls) @ CRLF @ body) = Some (ls, body)"
    using assms by (induction ls) (auto simp: http_headers_end http_headers_line)
  then show ?thesis using assms(1) by (simp add: http_parse_def split_crlf_line)
qed

lemma http_parse_response:
  assumes "CHR 0x0D \<notin> set status" and "CHR 0x0D \<notin> set ct"
  shows "http_parse (http_response (status, ct, body)) =
    Some (''HTTP/1.1 '' @ status, [''Content-Type: '' @ ct, ''Content-Length: '' @ show_nat (length body), ''Connection: close''], body)"
proof -
  let ?ls = "[''Content-Type: '' @ ct, ''Content-Length: '' @ show_nat (length body), ''Connection: close'']"
  have "http_response (status, ct, body) = (''HTTP/1.1 '' @ status) @ CRLF @ concat (map (\<lambda>l. l @ CRLF) ?ls) @ CRLF @ body"
    by (simp add: http_response_def)
  moreover have "CHR 0x0D \<notin> set l" if "l \<in> set ((''HTTP/1.1 '' @ status) # ?ls)" for l
    using that assms by (auto simp: show_nat_free)
  ultimately show ?thesis
    using http_parse_lines [of "''HTTP/1.1 '' @ status" ?ls body] by (metis append_is_Nil_conv list.distinct(1) set_ConsD empty_iff empty_set)
qed

section \<open>Reading the request\<close>

definition graphic :: "string \<Rightarrow> bool" where
  "graphic s \<longleftrightarrow> s \<noteq> [] \<and> (\<forall>c \<in> set s. 33 \<le> (of_char c :: nat) \<and> (of_char c :: nat) \<le> 126)"

definition to_bytes :: "string \<Rightarrow> bytes" where
  "to_bytes s = map (\<lambda>c. of_nat (of_char c)) s"

lemma lossy_ascii: "(of_char c :: nat) < 128 \<Longrightarrow> lossy_char (of_nat (of_char c)) bs = (of_char c, bs)"
  by (simp add: lossy_char_def word_less_nat_alt unat_of_nat)

lemma utf8_lossy_ascii: "\<forall>c \<in> set s. (of_char c :: nat) < 128 \<Longrightarrow> utf8_lossy (to_bytes s @ bs) = chars s @ utf8_lossy bs"
  by (induction s) (simp_all add: to_bytes_def chars_def lossy_ascii)

lemma graphic_ascii: "graphic s \<Longrightarrow> \<forall>c \<in> set s. (of_char c :: nat) < 128"
  by (fastforce simp: graphic_def)

lemma split_whitespace_word: "\<forall>c \<in> set w. \<not> is_whitespace c \<Longrightarrow> split_whitespace acc (w @ cs) = split_whitespace (acc @ w) cs"
  by (induction w arbitrary: acc) simp_all

lemma split_whitespace_sep: "is_whitespace c \<Longrightarrow> w \<noteq> [] \<Longrightarrow> split_whitespace w (c # cs) = w # split_whitespace [] cs"
  by simp

lemma graphic_word: "graphic s \<Longrightarrow> (\<forall>c \<in> set (chars s). \<not> is_whitespace c) \<and> chars s \<noteq> []"
  by (fastforce simp: graphic_def chars_def is_whitespace_def)

lemma request_path_words:
  assumes "graphic m" and "graphic p" and rest: "rest = [] \<or> hd rest \<in> {0x09, 0x0A, 0x0D, 0x20}"
  shows "request_path (to_bytes (m @ '' '' @ p) @ rest) = chars p"
proof -
  have asc: "\<forall>c \<in> set (m @ '' '' @ p). (of_char c :: nat) < 128" using graphic_ascii assms(1,2) by auto
  have words: "split_whitespace [] (chars m @ 32 # chars p @ cs) = chars m # split_whitespace (chars p) cs" for cs
    using graphic_word [OF assms(1)] graphic_word [OF assms(2)] by (simp add: split_whitespace_word is_whitespace_def)
  have lossy: "utf8_lossy (to_bytes (m @ '' '' @ p) @ rest) = chars m @ 32 # chars p @ utf8_lossy rest"
    using utf8_lossy_ascii [OF asc, of rest] by (simp add: chars_def)
  show ?thesis
  proof (cases rest)
    case Nil
    then show ?thesis using graphic_word [OF assms(2)] unfolding request_path_def lossy words by simp
  next
    case (Cons b bs)
    then have "b \<in> {0x09, 0x0A, 0x0D, 0x20}" using rest by simp
    then obtain c where "lossy_char b bs = (c, bs)" "is_whitespace c" by (auto simp: lossy_char_def is_whitespace_def)
    with Cons have "split_whitespace (chars p) (utf8_lossy rest) = chars p # split_whitespace [] (utf8_lossy bs)"
      using graphic_word [OF assms(2)] by simp
    then show ?thesis unfolding request_path_def lossy words by simp
  qed
qed

lemma starts_with_chars: "starts_with (chars p) s \<longleftrightarrow> take (length s) p = s"
proof -
  have "inj (of_char :: char \<Rightarrow> nat)" by (rule injI) simp
  then show ?thesis by (simp add: starts_with_def chars_def take_map inj_map_eq_map)
qed

lemma answer_cases:
  assumes "answer (chars p) st = (status, ct, body)"
  shows "status = (if take 8 p = ''/metrics'' \<or> take 8 p = ''/healthz'' then ''200 OK'' else ''404 Not Found'')"
    and "take 8 p = ''/metrics'' \<Longrightarrow> body = to_prometheus st" and "CHR 0x0D \<notin> set status" and "CHR 0x0D \<notin> set ct"
  using assms by (auto simp: answer_def starts_with_chars eval_nat_numeral split: if_splits)

section \<open>Properties\<close>

text \<open>
  C36. The metrics endpoint, end to end: for a request line whose method and path are words, the response is well-formed HTTP with the
  length of its body, the status is 200 exactly for paths that start with \<open>/metrics\<close> or \<open>/healthz\<close> and 404 otherwise, and a
  scraper that reads the body of \<open>/metrics\<close> gets every statistic of the server back.
\<close>

theorem metrics_roundtrip:
  assumes "cn_set_read_timeout cn = Ok ()" and "cn_read cn = Ok (to_bytes (m @ '' '' @ p) @ rest)"
    and "graphic m" and "graphic p" and "rest = [] \<or> hd rest \<in> {0x09, 0x0A, 0x0D, 0x20}" and "length m + length p < 1024"
  shows "\<exists>resp ct body. admin_serve_one cn = (cn_write_all cn resp, Some resp) \<and>
    http_parse resp = Some (''HTTP/1.1 '' @ (if take 8 p = ''/metrics'' \<or> take 8 p = ''/healthz'' then ''200 OK'' else ''404 Not Found''),
      [''Content-Type: '' @ ct, ''Content-Length: '' @ show_nat (length body), ''Connection: close''], body) \<and>
    (take 8 p = ''/metrics'' \<longrightarrow> scrape body = Some (samples (cn_stats cn)))"
proof -
  let ?req = "to_bytes (m @ '' '' @ p)"
  obtain status ct body where a: "answer (chars p) (cn_stats cn) = (status, ct, body)" by (metis prod_cases3)
  have len: "length ?req \<le> 1024" using assms(6) by (simp add: to_bytes_def)
  have "take (1024 - length ?req) rest = [] \<or> hd (take (1024 - length ?req) rest) \<in> {0x09, 0x0A, 0x0D, 0x20}"
    using assms(5) by (cases "1024 - length ?req"; cases rest) auto
  from request_path_words [OF assms(3,4) this] len
  have "request_path (take 1024 (?req @ rest)) = chars p" by simp
  then have "admin_serve_one cn = (cn_write_all cn (http_response (status, ct, body)), Some (http_response (status, ct, body)))"
    using assms(1,2) a by (simp add: admin_serve_one_def Let_def)
  moreover note answer_cases [OF a]
  ultimately show ?thesis
    using http_parse_response [of status ct body] scrape_to_prometheus [of "cn_stats cn"]
    by (intro exI [of _ "http_response (status, ct, body)"] exI [of _ ct] exI [of _ body]) simp
qed

definition scrape_conn :: "unit connection" where
  "scrape_conn = \<lparr>cn_set_read_timeout = Ok (), cn_read = Ok (to_bytes ''GET /metrics HTTP/1.1''),
     cn_write_all = (\<lambda>_. Ok ()), cn_stats = \<lparr>st_node = 2, st_role = ''follower'', st_epoch = 3, st_seq = 998, st_lag = 5,
       st_snapshot_seq = 500, st_journal_segments = 2\<rparr>\<rparr>"

theorem metrics_roundtrip_witness:
  "\<exists>resp ct body. admin_serve_one scrape_conn = (Ok (), Some resp) \<and>
     http_parse resp = Some (''HTTP/1.1 200 OK'',
       [''Content-Type: '' @ ct, ''Content-Length: '' @ show_nat (length body), ''Connection: close''], body) \<and>
     scrape body = Some [(''ticktape_role'', 2, 0), (''ticktape_epoch'', 2, 3), (''ticktape_seq'', 2, 998),
       (''ticktape_lag_frames'', 2, 5), (''ticktape_snapshot_seq'', 2, 500), (''ticktape_journal_segments'', 2, 2)]"
  using metrics_roundtrip [of scrape_conn "''GET''" "''/metrics''" "to_bytes '' HTTP/1.1''"]
  by (simp add: scrape_conn_def samples_def to_bytes_def graphic_def)

end
