(* ===== verification/Spec2Isabelle.thy ===== *)
theory Spec2Isabelle
  imports Gateway_Props Shm_Props Sbe Raft_Node Exchange_Props Server_Props Sim_Props Os_Storage Journal_Faults Admin
begin

text \<open>
  Ticktape is a sequencer framework in Rust: one node gives every input a place in a total
  order, writes it to a journal, applies it to a deterministic service and publishes it. This
  development models the crates under \<open>src/crates\<close> and the services under \<open>src/examples\<close>, and proves
  what makes them correct. All theories are executable definitions followed by lemmas; the
  properties are the theorems whose text starts with C1 to C40, numbered by importance.

  \<^bold>\<open>The parts and how they interact.\<close> A client command reaches the gateway, which admits it per session
  and hands it to the node. The node stages a frame (the next sequence number, a monotonic time), appends it
  to the journal, applies it to the service, folds the timer requests of the service into the
  timer wheel, releases outputs at once or when a quorum acknowledged the frame, publishes the
  frame, takes snapshots, and fires due timers, each as a frame of its own. Journal and snapshot store
  write through the \<open>Storage\<close> trait. The transport carries published frames, over sockets or a
  shared-memory ring, to receivers that fill gaps from a retransmitter; a replica applies them. A server
  is a node that leads or a replica with a journal of its own that follows; when the leader is silent, the
  followers stand for election, acceptors vote one of them into the next epoch, and it opens a node
  on its journal and fences the stream with an epoch frame. The Raft backend runs the same services
  over another log.

  \<^bold>\<open>Which theory models which part.\<close>
  \<^item> \<open>Prelude\<close>: results, the error monad over a state, words, byte lists. \<open>Btree_Map\<close>: Rust's
    ordered maps as strictly ascending entry lists, with the locale \<open>ordered_map\<close>.
  \<^item> \<open>Crc32c\<close>: \<open>ticktape-core/src/crc32c.rs\<close>, the table-driven and both hardware routines (C22).
  \<^item> \<open>Codec\<close>: \<open>codec.rs\<close> and the derive macros of \<open>ticktape-macros\<close>, with the locale \<open>codec\<close>.
    \<open>Frame\<close>: \<open>frame.rs\<close> and \<open>seq.rs\<close> (C23, C24). \<open>Sbe\<close>: \<open>ticktape-sbe/src/lib.rs\<close>, the header, the
    message trait as the locale \<open>sbe_laws\<close>, and the adapter to the canonical codec (C27).
  \<^item> \<open>Storage\<close>: the \<open>Storage\<close> trait as a record of operations, its laws as locales, and the simulated disk
    of \<open>ticktape-sim/src/storage.rs\<close> with power loss, torn tails and bit rot. \<open>Os_Storage\<close>: the production
    storages, \<open>RealStorage\<close> and \<open>iouring.rs\<close>, over the calls of the operating system (C21).
  \<^item> \<open>Journal\<close>, \<open>Journal_Safety\<close>, \<open>Journal_Props\<close>: \<open>ticktape-journal/src/lib.rs\<close>: recovery, append,
    batches, rolling, fsync policies, compaction, reseating (C2, C18 to C20). \<open>Journal_Faults\<close>: what
    a write that fails part-way and a power loss inside a roll do to it (C38, C39).
  \<^item> \<open>Timer\<close>: \<open>ticktape-runtime/src/timer.rs\<close>. \<open>Snapshot\<close>: \<open>ticktape-journal/src/snapshot.rs\<close>.
    \<open>Commit\<close>: \<open>ticktape-cluster/src/commit.rs\<close> and the \<open>CommitState\<close> of the runtime
    (C16).
  \<^item> \<open>Election\<close>: \<open>election.rs\<close>, \<open>epoch.rs\<close> and \<open>net.rs\<close> of \<open>ticktape-cluster\<close> (C8, C17).
    \<open>Persist\<close>: \<open>persist.rs\<close> (C13).
  \<^item> \<open>Node\<close>: \<open>ticktape-runtime/src/lib.rs\<close>, every operation of \<open>Node\<close>, over a record \<open>service\<close> of the
    trait's functions. \<open>Node_Order\<close> and \<open>Node_Replay\<close>: one operation against the journaled history;
    \<open>Node_Recovery\<close>: opening after a crash; \<open>Node_Progress\<close>: operations that succeed; \<open>Node_Props\<close>: the reachable states
    \<open>node_run\<close> (C1, C3, C29, C31); \<open>Node_Limits\<close>: termination of the timer loop, the batch path, and the
    bank (C30, C37).
  \<^item> \<open>Services\<close>: the counter, the key-value store and the bank, each an instance of \<open>service_laws\<close>.
    \<open>Order_Book\<close>, \<open>Order_Book_Ok\<close>, \<open>Order_Book_Props\<close>: \<open>examples/orderbook/src/lib.rs\<close>, its
    invariant, its place on a node and its matching against a reference (C6, C7).
    \<open>Exchange\<close>, \<open>Exchange_Props\<close>: \<open>examples/exchange/src/lib.rs\<close>, sessions over the order book: ownership,
    restarts, cancel on disconnect, good-till-date orders (C15, C25).
  \<^item> \<open>Transport_Wire\<close>, \<open>Reassembler\<close>, \<open>Transport\<close>, \<open>Replica\<close>: \<open>ticktape-transport\<close>, the packets, the
    publisher, the receiver, the retransmission stores and the follower (C4, C11, C32, C33). C4 is for a leader that
    syncs every frame: under a lazier policy a power loss may take back frames that a follower has applied.
    \<open>Shm\<close>, \<open>Shm_Props\<close>: its \<open>shm.rs\<close>, the ring as bytes that two threads load and store (C14).
  \<^item> \<open>Gateway_Wire\<close>, \<open>Gateway\<close>, \<open>Gateway_Props\<close>: \<open>ticktape-gateway\<close>, the session flow control, the
    message codecs, and the sequencer thread (C12, C34, C40).
  \<^item> \<open>Server\<close>: \<open>ticktape-server/src/lib.rs\<close> and \<open>config.rs\<close>, every operation of \<open>Server\<close> and its failure
    detector. \<open>Server_Props\<close>: a follower through delivery, votes and restarts, and its promotion (C9, C10).
    \<open>Server_Failover\<close>: what automatic failover does and does not reach (C35).
    \<open>Admin\<close>: \<open>admin.rs\<close>, the metrics endpoint, read back by a client (C36).
  \<^item> \<open>Sim_Harness\<close>, \<open>Sim_Props\<close>: \<open>ticktape-sim/src/lib.rs\<close>, the seeded simulation driver, its shadow
    of the journal, its checklist after every recovery and the loop over seeds that shrinks a failure (C5, C28).
  \<^item> \<open>Raft_Node\<close>: \<open>ticktape-raft/src/node.rs\<close> over the raft library as a parameter (C26).

  \<^bold>\<open>How the code is represented.\<close> Structs are records, enums datatypes, machine integers words of their
  width, so that arithmetic wraps as in the release build. A method that may fail returns \<open>Ok\<close> or \<open>Err\<close>
  with the new state of everything it changed, also on the error paths. The disk, the network, the
  clock and the service are parameters: records of functions, whose documented behaviour is a
  locale (\<open>storage_laws\<close> and its extensions, \<open>service_laws\<close>, \<open>stream\<close>, \<open>frame_store\<close>). The simulated disk, the
  services of the repository and the retransmission stores interpret them. The raft library is a record
  of its calls; \<open>raft_laws\<close> says what it promises of a cluster that is driven through them: each node is
  handed entries in index order, and no two nodes different ones at an index. The sockets and the clock of a server are the record \<open>server_net\<close>.

  \<^bold>\<open>Interfaces and what rests on them.\<close> \<open>codec\<close> gives round trips and canonical encodings to every derived
  type. The storage locales carry the crash lemmas of journal, snapshots and acceptor; \<open>hosted\<close> joins
  them with \<open>service_laws\<close> for the node; \<open>simulated\<close> is the node over the simulated disk, on
  which the inductive predicate \<open>node_run\<close> ranges over opens, submissions, ticks,
  fences, acknowledgements, syncs, reopenings and power losses. \<open>simulatable\<close> extends \<open>simulated\<close> by what
  the simulation driver asks of a service and its workload; the bank is its instance. \<open>bounded_queue\<close> is what the
  shared-memory ring refines.

  \<^bold>\<open>Loops.\<close> Loops over data are structural recursion or \<open>function\<close> with a measure: the matching loop
  of the order book falls in the number of levels, recovery in the bytes that remain. Some loops of the code need not
  end: the timer loop of the node, the poll loop of the receiver, the pump loop of a server and the
  rotation after a lost election. They are
  \<open>partial_function (option)\<close>, where \<open>None\<close> is not returning. C30 proves that the timer loop
  ends for services whose timer handler arms nothing, \<open>timer_loop_rearmed\<close> that it does not succeed for
  one that re-arms, \<open>repoint_rotates\<close> when the rotation ends. No definition uses fuel.

  \<^bold>\<open>Threads.\<close> The gateway is the order in which its sequencer thread takes requests off the channel;
  the theorems hold for every order. The cluster theorems range over networks that lose, repeat and
  reorder messages. The two threads of the shared-memory ring interleave at every load, every copied
  byte and every store, each in its program order, which is what the Acquire and Release accesses of
  the code give one producer and one consumer.

  \<^bold>\<open>Not modelled.\<close> The kernel and the ring behind the production storages are the locale \<open>os_laws\<close>, with an
  executable kernel as its instance; the crash theorems are stated over the laws of the storage trait, which add what the simulated disk
  shows of a power loss. Benchmarks, command-line programs and facade crates hold no logic of their own; texts of error messages are values
  of datatypes. Sockets are what arrives from them, locks are single steps.
\<close>

end
